(* ===== verification/Prelude.thy ===== *)
theory Prelude
  imports Main "HOL-Library.Word"
begin

text \<open>
  Shared vocabulary of the development: C strings as \<open>string\<close> (a \<open>char list\<close> without the
  terminating NUL; a pointer into a string is the suffix it points at, and a string that may be
  \<^verbatim>\<open>NULL\<close> is a \<open>string option\<close>), and the ASCII and string functions of libc and GLib the source
  calls, written after their documentation.  The comparison functions are modelled by the only
  thing the source asks of them, whether they return zero.  The collections \<open>cstr_simps\<close> and
  \<open>ascii_simps\<close> gather the facts the component proofs share.
\<close>

named_theorems cstr_simps \<open>facts about the C string functions\<close>
named_theorems ascii_simps \<open>definitions that evaluate on concrete characters\<close>

type_synonym cstr = string
type_synonym u8 = "8 word"
type_synonym u16 = "16 word"
type_synonym u32 = "32 word"
type_synonym u64 = "64 word"

text \<open>A keyword between single quotes, as CSP writes it.\<close>

abbreviation squote :: "cstr \<Rightarrow> cstr" where
  "squote s \<equiv> CHR 0x27 # s @ [CHR 0x27]"

section \<open>ASCII characters\<close>

definition code_of :: "char \<Rightarrow> nat" where
  "code_of c = of_char c"

definition char_at :: "nat \<Rightarrow> char" where
  "char_at n = char_of n"

definition g_ascii_isupper :: "char \<Rightarrow> bool" where
  "g_ascii_isupper c \<longleftrightarrow> 65 \<le> code_of c \<and> code_of c \<le> 90"

definition g_ascii_islower :: "char \<Rightarrow> bool" where
  "g_ascii_islower c \<longleftrightarrow> 97 \<le> code_of c \<and> code_of c \<le> 122"

definition g_ascii_isalpha :: "char \<Rightarrow> bool" where
  "g_ascii_isalpha c \<longleftrightarrow> g_ascii_isupper c \<or> g_ascii_islower c"

definition g_ascii_isdigit :: "char \<Rightarrow> bool" where
  "g_ascii_isdigit c \<longleftrightarrow> 48 \<le> code_of c \<and> code_of c \<le> 57"

definition g_ascii_isalnum :: "char \<Rightarrow> bool" where
  "g_ascii_isalnum c \<longleftrightarrow> g_ascii_isalpha c \<or> g_ascii_isdigit c"

definition g_ascii_isxdigit :: "char \<Rightarrow> bool" where
  "g_ascii_isxdigit c \<longleftrightarrow> g_ascii_isdigit c \<or>
     65 \<le> code_of c \<and> code_of c \<le> 70 \<or> 97 \<le> code_of c \<and> code_of c \<le> 102"

definition g_ascii_xdigit_value :: "char \<Rightarrow> nat" where
  "g_ascii_xdigit_value c =
     (if g_ascii_isdigit c then code_of c - 48
      else if 97 \<le> code_of c then code_of c - 97 + 10
      else code_of c - 65 + 10)"

text \<open>GLib's table has no bit for the vertical tab, so byte 11 is not a space.\<close>

definition g_ascii_isspace :: "char \<Rightarrow> bool" where
  "g_ascii_isspace c \<longleftrightarrow> code_of c \<in> {32, 9, 10, 12, 13}"

definition g_ascii_tolower :: "char \<Rightarrow> char" where
  "g_ascii_tolower c = (if g_ascii_isupper c then char_at (code_of c + 32) else c)"

declare code_of_def [ascii_simps] g_ascii_isupper_def [ascii_simps]
  g_ascii_islower_def [ascii_simps] g_ascii_isalpha_def [ascii_simps]
  g_ascii_isdigit_def [ascii_simps] g_ascii_isalnum_def [ascii_simps]
  g_ascii_isxdigit_def [ascii_simps] g_ascii_xdigit_value_def [ascii_simps]
  g_ascii_isspace_def [ascii_simps] g_ascii_tolower_def [ascii_simps]

lemma code_of_lt: "code_of c < 256"
  by (simp add: code_of_def)

lemma code_of_char_at [simp]: "n < 256 \<Longrightarrow> code_of (char_at n) = n"
  by (simp add: code_of_def char_at_def)

lemma char_at_code_of [simp]: "char_at (code_of c) = c"
  by (simp add: code_of_def char_at_def)

lemma char_at_eq_iff [ascii_simps]:
  "char_at n = c \<longleftrightarrow> n mod 256 = of_char c" "c = char_at n \<longleftrightarrow> n mod 256 = of_char c"
  by (simp_all add: char_at_def char_of_eq_iff take_bit_eq_mod eq_commute [of c])

lemma of_char_char_at [ascii_simps]: "(of_char (char_at n) :: nat) = n mod 256"
  by (simp add: char_at_def take_bit_eq_mod)

lemma code_of_inject: "code_of a = code_of b \<longleftrightarrow> a = b"
  by (metis char_at_code_of)

lemma code_of_tolower:
  "code_of (g_ascii_tolower c) = (if g_ascii_isupper c then code_of c + 32 else code_of c)"
  by (auto simp: g_ascii_tolower_def g_ascii_isupper_def)

lemma tolower_not_upper [simp]: "\<not> g_ascii_isupper (g_ascii_tolower c)"
  by (auto simp: g_ascii_isupper_def code_of_tolower)

lemma tolower_idem [simp]: "g_ascii_tolower (g_ascii_tolower c) = g_ascii_tolower c"
  by (metis g_ascii_tolower_def tolower_not_upper)

text \<open>Lower-casing leaves every character alone that is not a letter, and makes none of them.\<close>

lemma tolower_eq_nonalpha:
  assumes "\<not> g_ascii_isalpha d"
  shows "g_ascii_tolower c = d \<longleftrightarrow> c = d"
  using assms by (auto simp: g_ascii_isalpha_def g_ascii_islower_def g_ascii_isupper_def
      code_of_inject [symmetric] code_of_tolower)

lemma tolower_punct [simp]:
  "g_ascii_tolower c = CHR ''-'' \<longleftrightarrow> c = CHR ''-''" "g_ascii_tolower c = CHR 0x27 \<longleftrightarrow> c = CHR 0x27"
  "g_ascii_tolower c = CHR ''.'' \<longleftrightarrow> c = CHR ''.''" "g_ascii_tolower c = CHR '':'' \<longleftrightarrow> c = CHR '':''"
  "g_ascii_tolower c = CHR ''/'' \<longleftrightarrow> c = CHR ''/''" "g_ascii_tolower c = CHR ''*'' \<longleftrightarrow> c = CHR ''*''"
  by (rule tolower_eq_nonalpha, simp add: g_ascii_isalpha_def g_ascii_isupper_def
      g_ascii_islower_def code_of_def)+

lemma tolower_punct_id [simp]:
  "g_ascii_tolower CHR ''-'' = CHR ''-''" "g_ascii_tolower CHR 0x27 = CHR 0x27"
  "g_ascii_tolower CHR ''.'' = CHR ''.''" "g_ascii_tolower CHR '':'' = CHR '':''"
  "g_ascii_tolower CHR ''/'' = CHR ''/''" "g_ascii_tolower CHR ''*'' = CHR ''*''"
  by simp_all

lemma isspace_tolower [simp]: "g_ascii_isspace (g_ascii_tolower c) = g_ascii_isspace c"
  by (auto simp: g_ascii_isspace_def code_of_tolower g_ascii_isupper_def)

section \<open>Comparison of strings\<close>

definition g_ascii_strdown :: "cstr \<Rightarrow> cstr" where
  "g_ascii_strdown s = map g_ascii_tolower s"

text \<open>\<open>g_ascii_strcasecmp(a, b) == 0\<close>\<close>

definition strcaseeq :: "cstr \<Rightarrow> cstr \<Rightarrow> bool" where
  "strcaseeq a b \<longleftrightarrow> g_ascii_strdown a = g_ascii_strdown b"

text \<open>\<open>g_ascii_strncasecmp(a, b, n) == 0\<close>: both stop at the terminating NUL.\<close>

definition strncaseeq :: "cstr \<Rightarrow> cstr \<Rightarrow> nat \<Rightarrow> bool" where
  "strncaseeq a b n \<longleftrightarrow> strcaseeq (take n a) (take n b)"

text \<open>\<open>strncmp(a, b, n) == 0\<close>\<close>

definition strneq :: "cstr \<Rightarrow> cstr \<Rightarrow> nat \<Rightarrow> bool" where
  "strneq a b n \<longleftrightarrow> take n a = take n b"

definition g_str_has_prefix :: "cstr \<Rightarrow> cstr \<Rightarrow> bool" where
  "g_str_has_prefix s p \<longleftrightarrow> take (length p) s = p"

definition g_str_has_suffix :: "cstr \<Rightarrow> cstr \<Rightarrow> bool" where
  "g_str_has_suffix s p \<longleftrightarrow> length p \<le> length s \<and> drop (length s - length p) s = p"

lemma strdown_simps [simp]:
  "g_ascii_strdown [] = []"
  "g_ascii_strdown (c # s) = g_ascii_tolower c # g_ascii_strdown s"
  "g_ascii_strdown (s @ t) = g_ascii_strdown s @ g_ascii_strdown t"
  "length (g_ascii_strdown s) = length s"
  by (simp_all add: g_ascii_strdown_def)

lemma strdown_idem [simp]: "g_ascii_strdown (g_ascii_strdown s) = g_ascii_strdown s"
  by (simp add: g_ascii_strdown_def)

lemma strdown_eq_Nil [simp]: "g_ascii_strdown s = [] \<longleftrightarrow> s = []" "[] = g_ascii_strdown s \<longleftrightarrow> s = []"
  by (auto simp: g_ascii_strdown_def)

lemma strdown_mem: "c \<in> set s \<Longrightarrow> g_ascii_tolower c \<in> set (g_ascii_strdown s)"
  by (simp add: g_ascii_strdown_def)

lemma strdown_take: "g_ascii_strdown (take n s) = take n (g_ascii_strdown s)"
  by (simp add: g_ascii_strdown_def take_map)

lemma strdown_drop: "g_ascii_strdown (drop n s) = drop n (g_ascii_strdown s)"
  by (simp add: g_ascii_strdown_def drop_map)

lemma strcaseeq_refl [simp]: "strcaseeq s s"
  by (simp add: strcaseeq_def)

lemma strcaseeq_sym: "strcaseeq a b \<longleftrightarrow> strcaseeq b a"
  by (auto simp: strcaseeq_def)

lemma strcaseeq_trans: "strcaseeq a b \<Longrightarrow> strcaseeq b c \<Longrightarrow> strcaseeq a c"
  by (simp add: strcaseeq_def)

lemma strcaseeq_length: "strcaseeq a b \<Longrightarrow> length a = length b"
  unfolding strcaseeq_def by (metis strdown_simps(4))

lemma strcaseeq_down [simp]:
  "strcaseeq (g_ascii_strdown a) b \<longleftrightarrow> strcaseeq a b"
  "strcaseeq a (g_ascii_strdown b) \<longleftrightarrow> strcaseeq a b"
  by (simp_all add: strcaseeq_def)

lemma has_prefix_iff: "g_str_has_prefix s p \<longleftrightarrow> (\<exists>t. s = p @ t)"
  unfolding g_str_has_prefix_def by (metis append_eq_conv_conj append_take_drop_id)

lemma has_suffix_iff: "g_str_has_suffix s p \<longleftrightarrow> (\<exists>t. s = t @ p)"
proof
  assume h: "g_str_has_suffix s p"
  then have "s = take (length s - length p) s @ p"
    unfolding g_str_has_suffix_def by (metis append_take_drop_id)
  then show "\<exists>t. s = t @ p" ..
next
  assume "\<exists>t. s = t @ p"
  then show "g_str_has_suffix s p" by (auto simp: g_str_has_suffix_def)
qed

declare g_str_has_prefix_def [cstr_simps] g_str_has_suffix_def [cstr_simps]
  strcaseeq_def [cstr_simps] strncaseeq_def [cstr_simps] strneq_def [cstr_simps]

section \<open>Searching, stripping and splitting\<close>

text \<open>\<open>strchr(s, c)\<close>: the suffix starting at the first \<open>c\<close>, \<^verbatim>\<open>NULL\<close> if there is none.\<close>

fun strchr :: "cstr \<Rightarrow> char \<Rightarrow> cstr option" where
  "strchr [] c = None"
| "strchr (x # xs) c = (if x = c then Some (x # xs) else strchr xs c)"

text \<open>\<open>strstr(s, t)\<close>: the suffix starting at the first occurrence of \<open>t\<close>.\<close>

fun strstr :: "cstr \<Rightarrow> cstr \<Rightarrow> cstr option" where
  "strstr s t = (if g_str_has_prefix s t then Some s
                 else (case s of [] \<Rightarrow> None | _ # xs \<Rightarrow> strstr xs t))"

declare strstr.simps [simp del]

text \<open>\<open>strcspn(s, set)\<close>\<close>

definition strcspn :: "cstr \<Rightarrow> cstr \<Rightarrow> nat" where
  "strcspn s reject = length (takeWhile (\<lambda>c. c \<notin> set reject) s)"

definition g_strchug :: "cstr \<Rightarrow> cstr" where
  "g_strchug s = dropWhile g_ascii_isspace s"

definition g_strchomp :: "cstr \<Rightarrow> cstr" where
  "g_strchomp s = rev (dropWhile g_ascii_isspace (rev s))"

definition g_strstrip :: "cstr \<Rightarrow> cstr" where
  "g_strstrip s = g_strchomp (g_strchug s)"

fun split_on :: "('a \<Rightarrow> bool) \<Rightarrow> 'a list \<Rightarrow> 'a list list" where
  "split_on p [] = [[]]"
| "split_on p (x # xs) =
     (if p x then [] # split_on p xs
      else (case split_on p xs of [] \<Rightarrow> [[x]] | y # ys \<Rightarrow> (x # y) # ys))"

text \<open>
  \<open>g_strsplit(s, d, -1)\<close> for a one-character delimiter and \<open>g_strsplit_set(s, ds, -1)\<close>; both
  return the empty vector for the empty string.
\<close>

definition g_strsplit :: "cstr \<Rightarrow> char \<Rightarrow> cstr list" where
  "g_strsplit s d = (if s = [] then [] else split_on (\<lambda>c. c = d) s)"

definition g_strsplit_set :: "cstr \<Rightarrow> cstr \<Rightarrow> cstr list" where
  "g_strsplit_set s ds = (if s = [] then [] else split_on (\<lambda>c. c \<in> set ds) s)"

lemma split_on_nonempty [simp]: "split_on p s \<noteq> []"
  by (cases s) (auto split: list.splits)

lemma split_on_no_sep: "t \<in> set (split_on p s) \<Longrightarrow> c \<in> set t \<Longrightarrow> \<not> p c"
  by (induction s arbitrary: t) (fastforce split: if_splits list.splits)+

lemma split_on_id: "\<forall>c\<in>set s. \<not> p c \<Longrightarrow> split_on p s = [s]"
  by (induction s) auto

lemma split_on_append_sep:
  "p d \<Longrightarrow> split_on p (s @ d # t) = split_on p s @ split_on p t"
  by (induction s) (auto split: list.splits)

lemma split_on_chars: "t \<in> set (split_on p s) \<Longrightarrow> set t \<subseteq> set s"
  by (induction s arbitrary: t) (fastforce split: if_splits list.splits)+

lemma chug_Nil [simp]: "g_strchug [] = []" and chomp_Nil [simp]: "g_strchomp [] = []"
  and strip_Nil [simp]: "g_strstrip [] = []"
  by (simp_all add: g_strchug_def g_strchomp_def g_strstrip_def)

lemma set_strip: "set (g_strstrip s) \<subseteq> set s"
proof -
  have "set (g_strchomp t) \<subseteq> set t" for t
    unfolding g_strchomp_def by (metis set_dropWhileD set_rev subsetI)
  moreover have "set (g_strchug s) \<subseteq> set s"
    unfolding g_strchug_def by (meson set_dropWhileD subsetI)
  ultimately show ?thesis unfolding g_strstrip_def by blast
qed

lemma strchr_Some_append: "strchr s c = Some t \<Longrightarrow> \<exists>u. s = u @ t \<and> c \<notin> set u \<and> t \<noteq> [] \<and> hd t = c"
proof (induction s c rule: strchr.induct)
  case (1 c)
  then show ?case by simp
next
  case (2 x xs c)
  show ?case
  proof (cases "x = c")
    case True
    with 2 show ?thesis by (intro exI [of _ "[]"]) auto
  next
    case False
    with 2 obtain u where "xs = u @ t" "c \<notin> set u" "t \<noteq> []" "hd t = c" by auto
    with False show ?thesis by (intro exI [of _ "x # u"]) auto
  qed
qed

lemma strchr_None_iff: "strchr s c = None \<longleftrightarrow> c \<notin> set s"
  by (induction s) auto

lemma strchr_append: "c \<notin> set u \<Longrightarrow> strchr (u @ c # v) c = Some (c # v)"
  by (induction u) auto

lemma strchr_length: "strchr s c = Some t \<Longrightarrow> length t \<le> length s"
  by (auto dest: strchr_Some_append)

section \<open>Decimal numerals\<close>

text \<open>\<open>%u\<close> of \<open>printf\<close>.\<close>

fun dec_digits :: "nat \<Rightarrow> cstr" where
  "dec_digits n = (if n < 10 then [char_at (48 + n)]
                   else dec_digits (n div 10) @ [char_at (48 + n mod 10)])"

declare dec_digits.simps [simp del]

lemma dec_digits_nonempty [simp]: "dec_digits n \<noteq> []"
  by (subst dec_digits.simps) simp

section \<open>Options as nullable pointers\<close>

definition str_or :: "cstr option \<Rightarrow> cstr \<Rightarrow> cstr" where
  "str_or s d = (case s of None \<Rightarrow> d | Some t \<Rightarrow> t)"

text \<open>\<open>s && *s\<close>\<close>

definition nonempty :: "cstr option \<Rightarrow> bool" where
  "nonempty s \<longleftrightarrow> (case s of None \<Rightarrow> False | Some t \<Rightarrow> t \<noteq> [])"

lemma nonempty_simps [simp]:
  "nonempty None = False" "nonempty (Some t) = (t \<noteq> [])"
  by (simp_all add: nonempty_def)

lemma str_or_simps [simp]: "str_or None d = d" "str_or (Some t) d = t"
  by (simp_all add: str_or_def)

section \<open>Small helpers the whole program shares\<close>

text \<open>\<open>ns_is_ascii_ws\<close> of \<^verbatim>\<open>dom.h\<close>\<close>

definition ns_is_ascii_ws :: "char \<Rightarrow> bool" where
  "ns_is_ascii_ws c \<longleftrightarrow> c = CHR '' '' \<or> c = CHR 0x09 \<or> c = CHR 0x0A \<or> c = CHR 0x0C \<or> c = CHR 0x0D"

definition skip_ws :: "cstr \<Rightarrow> cstr" where
  "skip_ws p = dropWhile ns_is_ascii_ws p"

lemma split_on_concat_sep:
  assumes "p d" "list_all (\<lambda>c. \<not> p c) s" "list_all (list_all (\<lambda>c. \<not> p c)) ts"
  shows "split_on p (s @ concat (map ((#) d) ts)) = s # ts"
  using assms(2,3)
proof (induction ts arbitrary: s)
  case Nil
  then show ?case by (simp add: split_on_id list_all_iff)
next
  case (Cons t ts)
  then have "split_on p s = [s]" by (simp add: split_on_id list_all_iff)
  with Cons assms(1) show ?case by (simp add: split_on_append_sep)
qed

text \<open>The value of a numeral, and that of the numerals \<open>%u\<close> prints.\<close>

definition digit_val :: "char \<Rightarrow> nat" where
  "digit_val c = code_of c - 48"

definition dec_value :: "nat \<Rightarrow> cstr \<Rightarrow> nat" where
  "dec_value acc ds = foldl (\<lambda>v c. v * 10 + digit_val c) acc ds"

lemma dec_value_simps [simp]:
  "dec_value acc [] = acc" "dec_value acc (c # ds) = dec_value (acc * 10 + digit_val c) ds"
  "dec_value acc (xs @ ys) = dec_value (dec_value acc xs) ys"
  by (simp_all add: dec_value_def)

lemma dec_value_mono: "acc \<le> dec_value acc ds"
proof (induction ds arbitrary: acc)
  case (Cons c ds)
  have "acc \<le> acc * 10 + digit_val c" by simp
  also have "\<dots> \<le> dec_value (acc * 10 + digit_val c) ds" by (rule Cons)
  finally show ?case by simp
qed simp

lemma digit_val_char_at [simp]: "n < 10 \<Longrightarrow> digit_val (char_at (48 + n)) = n"
  by (simp add: digit_val_def)

lemma dec_value_digits [simp]: "dec_value 0 (dec_digits n) = n"
proof (induction n rule: dec_digits.induct)
  case (1 n)
  then show ?case by (subst dec_digits.simps) simp
qed

lemma dec_digits_isdigit: "c \<in> set (dec_digits n) \<Longrightarrow> g_ascii_isdigit c"
proof (induction n rule: dec_digits.induct)
  case (1 n)
  have d: "g_ascii_isdigit (char_at (48 + k))" if "k < 10" for k
    using that by (simp add: g_ascii_isdigit_def)
  show ?case
  proof (cases "n < 10")
    case True
    with 1 d [of n] show ?thesis by (simp add: dec_digits.simps [of n])
  next
    case False
    with 1(2) have "c \<in> set (dec_digits (n div 10)) \<or> c = char_at (48 + n mod 10)"
      by (auto simp: dec_digits.simps [of n])
    with False 1(1) d [of "n mod 10"] show ?thesis by auto
  qed
qed

section \<open>More of GLib\<close>

text \<open>\<open>g_strsplit(s, d, n)\<close> with \<open>n > 0\<close>: at most \<open>n\<close> pieces, the last one unsplit.\<close>

fun split_max :: "nat \<Rightarrow> char \<Rightarrow> cstr \<Rightarrow> cstr list" where
  "split_max 0 d s = []"
| "split_max (Suc 0) d s = [s]"
| "split_max (Suc (Suc n)) d s =
     (case strchr s d of
        None \<Rightarrow> [s]
      | Some r \<Rightarrow> take (length s - length r) s # split_max (Suc n) d (tl r))"

definition g_strsplit_max :: "cstr \<Rightarrow> char \<Rightarrow> nat \<Rightarrow> cstr list" where
  "g_strsplit_max s d n = (if s = [] then [] else split_max n d s)"

lemma split_max_append:
  "d \<notin> set a \<Longrightarrow> split_max (Suc (Suc n)) d (a @ d # b) = a # split_max (Suc n) d b"
  by (simp add: strchr_append)

text \<open>
  \<open>g_ascii_strtoll(s, &end, 10)\<close>: None where \<open>end == s\<close> (the value is 0 then); out of range it
  gives the nearest 64-bit integer.
\<close>

definition int64_clamp :: "int \<Rightarrow> int" where
  "int64_clamp i = max (- (2 ^ 63)) (min (2 ^ 63 - 1) i)"

definition strtoll_space :: "char \<Rightarrow> bool" where
  "strtoll_space c \<longleftrightarrow> code_of c = 32 \<or> 9 \<le> code_of c \<and> code_of c \<le> 13"

definition g_ascii_strtoll :: "cstr \<Rightarrow> int option" where
  "g_ascii_strtoll s =
     (let s1 = dropWhile strtoll_space s;
          neg = (s1 \<noteq> [] \<and> hd s1 = CHR ''-'');
          s2 = (if neg \<or> s1 \<noteq> [] \<and> hd s1 = CHR ''+'' then tl s1 else s1);
          ds = takeWhile g_ascii_isdigit s2
      in if ds = [] then None
         else Some (int64_clamp (if neg then - int (dec_value 0 ds) else int (dec_value 0 ds))))"

text \<open>\<open>%ld\<close> of a 64-bit integer, and the wrap-around of its arithmetic.\<close>

definition int_digits :: "int \<Rightarrow> cstr" where
  "int_digits i = (if i < 0 then CHR ''-'' # dec_digits (nat (- i)) else dec_digits (nat i))"

definition wrap64 :: "int \<Rightarrow> int" where
  "wrap64 i = (i + 2 ^ 63) mod 2 ^ 64 - 2 ^ 63"

lemma wrap64_id: "- (2 ^ 63) \<le> i \<Longrightarrow> i < 2 ^ 63 \<Longrightarrow> wrap64 i = i"
  by (simp add: wrap64_def)

lemma int_digits_zero [simp]: "int_digits 0 = ''0''"
  by (simp add: int_digits_def dec_digits.simps ascii_simps)

lemma int_digits_chars: "c \<in> set (int_digits i) \<Longrightarrow> c = CHR ''-'' \<or> g_ascii_isdigit c"
  by (auto simp: int_digits_def dest: dec_digits_isdigit split: if_splits)

section \<open>Buffers and points in them\<close>

text \<open>The C string a buffer starts with.\<close>

definition c_string :: "cstr \<Rightarrow> cstr" where
  "c_string s = takeWhile (\<lambda>c. c \<noteq> CHR 0x00) s"

text \<open>The bytes from \<open>s\<close> up to \<open>e\<close>, a later point of the same input.\<close>

definition text_between :: "cstr \<Rightarrow> cstr \<Rightarrow> cstr" where
  "text_between s e = take (length s - length e) s"

text \<open>\<open>tail_of e s\<close>: \<open>e\<close> is a point of \<open>s\<close>, the suffix a pointer into it stands for.\<close>

definition tail_of :: "cstr \<Rightarrow> cstr \<Rightarrow> bool" where
  "tail_of e s \<longleftrightarrow> (\<exists>p. s = p @ e)"

lemma tail_of_refl [simp, intro]: "tail_of s s"
  by (simp add: tail_of_def)

lemma tail_of_Nil [simp, intro]: "tail_of [] s"
  by (simp add: tail_of_def)

lemma tail_of_trans: "tail_of e f \<Longrightarrow> tail_of f g \<Longrightarrow> tail_of e g"
  by (auto simp: tail_of_def)

lemma tail_of_tl: "tail_of e (tl s) \<Longrightarrow> tail_of e s"
  by (cases s) (auto simp: tail_of_def intro: exI [of _ "_ # _"])

lemma tl_tail_of: "tail_of e s \<Longrightarrow> tail_of (tl e) s"
  by (cases e) (auto simp: tail_of_def)

lemma tail_of_length: "tail_of e s \<Longrightarrow> length e \<le> length s"
  by (auto simp: tail_of_def)

lemma tail_of_drop: "tail_of e s \<Longrightarrow> e = drop (length s - length e) s"
  by (auto simp: tail_of_def)

lemma tail_of_eq: "tail_of e s \<Longrightarrow> length e = length s \<longleftrightarrow> e = s"
  by (auto simp: tail_of_def)

lemma text_between_append: "tail_of e s \<Longrightarrow> text_between s e @ e = s"
  by (auto simp: tail_of_def text_between_def)

lemma tail_dropWhile: "tail_of (dropWhile P s) s"
  by (metis tail_of_def takeWhile_dropWhile_id)

end
