(* ===== verification/Url.thy ===== *)
theory Url
  imports Prelude
begin

text \<open>
  The URL helpers of \<^verbatim>\<open>net.c\<close>.  Parsing and serialising a URL is lexbor's work, which is not part
  of this repository: the parser is a parameter \<open>lxb\<close> that maps the text of a URL to the record
  of what the source reads off lexbor's \<^verbatim>\<open>lxb_url_t\<close> (\<^verbatim>\<open>NULL\<close> on failure, which also stands for a
  parser that could not be created).  Everything the browser computes from it (components, origin,
  same-origin test, referrer, tracking parameters, refresh headers) is translated here.
\<close>

section \<open>What lexbor returns\<close>

datatype lxb_host_type = Host_Undef | Host_Empty | Host_Other

record lxb_url =
  lxb_href :: "cstr option"          \<comment> \<open>\<open>lxb_url_serialize\<close>, None when it fails\<close>
  lxb_scheme :: "cstr option"        \<comment> \<open>\<open>lxb_url_serialize_scheme\<close>\<close>
  lxb_scheme_name :: cstr            \<comment> \<open>\<open>u->scheme.name\<close>\<close>
  lxb_host_type :: lxb_host_type     \<comment> \<open>\<open>u->host.type\<close>\<close>
  lxb_host :: "cstr option"          \<comment> \<open>\<open>lxb_url_serialize_host\<close>\<close>
  lxb_port :: "u16 option"           \<comment> \<open>\<open>u->port\<close> when \<open>u->has_port\<close>\<close>
  lxb_path :: "cstr option"          \<comment> \<open>\<open>lxb_url_serialize_path\<close>\<close>
  lxb_query :: cstr
  lxb_fragment :: cstr
  lxb_username :: cstr
  lxb_password :: cstr

type_synonym lxb_parser = "cstr \<Rightarrow> lxb_url option"

section \<open>Components of a URL\<close>

record ns_url_parts =
  href :: cstr
  protocol :: cstr
  origin :: cstr
  host :: cstr
  hostname :: cstr
  port :: cstr
  pathname :: cstr
  search :: cstr
  hash :: cstr
  username :: cstr
  password :: cstr

definition ns_url_is_http_or_https :: "cstr option \<Rightarrow> bool" where
  "ns_url_is_http_or_https url = (case url of None \<Rightarrow> False
     | Some u \<Rightarrow> g_str_has_prefix u ''http://'' \<or> g_str_has_prefix u ''https://'')"

definition ns_url_parse_with_host :: "lxb_parser \<Rightarrow> cstr \<Rightarrow> lxb_url option" where
  "ns_url_parse_with_host lxb url =
     (case lxb url of None \<Rightarrow> None
      | Some u \<Rightarrow> if lxb_host_type u = Host_Undef \<or> lxb_host_type u = Host_Empty then None
                  else Some u)"

definition ns_url_take_serialized :: "cstr option \<Rightarrow> cstr" where
  "ns_url_take_serialized s = (case s of None \<Rightarrow> '''' | Some t \<Rightarrow> t)"

definition port_string :: "u16 option \<Rightarrow> cstr" where
  "port_string p = (case p of None \<Rightarrow> '''' | Some n \<Rightarrow> dec_digits (unat n))"

definition is_tuple_origin :: "cstr \<Rightarrow> cstr \<Rightarrow> bool" where
  "is_tuple_origin hostn proto \<longleftrightarrow> hostn \<noteq> [] \<and>
     (proto = ''http:'' \<or> proto = ''https:'' \<or> proto = ''ws:'' \<or> proto = ''wss:'' \<or> proto = ''ftp:'')"

text \<open>
  The record of one level is \<open>parts_of\<close>; \<open>ns_url_parts_new_depth\<close> then calls itself, at depth 0
  only, for the inner URL of a \<open>blob:\<close> URL, whose origin it takes over.
\<close>

definition parts_of :: "cstr \<Rightarrow> lxb_url \<Rightarrow> ns_url_parts" where
  "parts_of url u =
     (let hr = ns_url_take_serialized (lxb_href u);
          sch = ns_url_take_serialized (lxb_scheme u);
          proto = (if sch \<noteq> [] then sch @ '':'' else '''');
          hn = (if lxb_host_type u = Host_Undef \<or> lxb_host_type u = Host_Empty then ''''
                else ns_url_take_serialized (lxb_host u));
          pt = port_string (lxb_port u);
          ho = (if hn \<noteq> [] \<and> pt \<noteq> [] then hn @ '':'' @ pt else hn)
      in \<lparr> href = (if hr = [] then url else hr),
           protocol = proto,
           origin = (if is_tuple_origin hn proto then proto @ ''//'' @ ho else ''null''),
           host = ho, hostname = hn, port = pt,
           pathname = ns_url_take_serialized (lxb_path u),
           search = (if lxb_query u \<noteq> [] then ''?'' @ lxb_query u else ''''),
           hash = (if lxb_fragment u \<noteq> [] then ''#'' @ lxb_fragment u else ''''),
           username = lxb_username u,
           password = lxb_password u \<rparr>)"

function ns_url_parts_new_depth :: "lxb_parser \<Rightarrow> cstr \<Rightarrow> nat \<Rightarrow> ns_url_parts option" where
  "ns_url_parts_new_depth lxb url depth =
     (case lxb url of None \<Rightarrow> None
      | Some u \<Rightarrow>
          let p = parts_of url u in
          if depth = 0 \<and> protocol p = ''blob:'' \<and> pathname p \<noteq> [] then
            (case ns_url_parts_new_depth lxb (pathname p) (depth + 1) of
               None \<Rightarrow> Some p
             | Some inner \<Rightarrow>
                 if protocol inner = ''http:'' \<or> protocol inner = ''https:''
                 then Some (p\<lparr>origin := origin inner\<rparr>) else Some p)
          else Some p)"
  by pat_completeness auto
termination
  by (relation "measure (\<lambda>(lxb, url, depth). 1 - depth)") auto

declare ns_url_parts_new_depth.simps [simp del]

definition ns_url_parts_new :: "lxb_parser \<Rightarrow> cstr option \<Rightarrow> ns_url_parts option" where
  "ns_url_parts_new lxb url =
     (case url of None \<Rightarrow> None | Some u \<Rightarrow> ns_url_parts_new_depth lxb u 0)"

definition ns_url_is_valid_absolute :: "lxb_parser \<Rightarrow> cstr option \<Rightarrow> bool" where
  "ns_url_is_valid_absolute lxb url =
     (case url of None \<Rightarrow> False
      | Some u \<Rightarrow> u \<noteq> [] \<and> (\<forall>c\<in>set u. code_of c \<notin> {32, 9, 10, 13, 12}) \<and>
          (case ns_url_parts_new lxb url of None \<Rightarrow> False | Some p \<Rightarrow> protocol p \<noteq> []))"

definition ns_url_host_from :: "lxb_parser \<Rightarrow> cstr option \<Rightarrow> cstr option" where
  "ns_url_host_from lxb url =
     (case url of None \<Rightarrow> None
      | Some t \<Rightarrow>
        (case ns_url_parse_with_host lxb t of None \<Rightarrow> None
         | Some u \<Rightarrow> (case lxb_host u of None \<Rightarrow> None
                      | Some h \<Rightarrow> if h \<noteq> [] then Some h else None)))"

section \<open>Origins\<close>

function origin_from :: "lxb_parser \<Rightarrow> cstr \<Rightarrow> cstr option" where
  "origin_from lxb url =
     (if url = [] then None
      else if g_str_has_prefix url ''blob:'' \<and> ns_url_is_http_or_https (Some (drop 5 url))
           then origin_from lxb (drop 5 url)
      else if \<not> ns_url_is_http_or_https (Some url) then None
      else (case ns_url_parse_with_host lxb url of None \<Rightarrow> None
            | Some u \<Rightarrow>
                (case lxb_host u of None \<Rightarrow> None
                 | Some h \<Rightarrow> Some (lxb_scheme_name u @ ''://'' @ h @
                     (case lxb_port u of None \<Rightarrow> '''' | Some n \<Rightarrow> '':'' @ dec_digits (unat n))))))"
  by pat_completeness auto
termination
  by (relation "measure (\<lambda>(lxb, url). length url)") auto

declare origin_from.simps [simp del]

definition ns_url_origin_from :: "lxb_parser \<Rightarrow> cstr option \<Rightarrow> cstr option" where
  "ns_url_origin_from lxb url = (case url of None \<Rightarrow> None | Some u \<Rightarrow> origin_from lxb u)"

definition ns_url_same_origin :: "lxb_parser \<Rightarrow> cstr option \<Rightarrow> cstr option \<Rightarrow> bool" where
  "ns_url_same_origin lxb a b =
     (case (ns_url_origin_from lxb a, ns_url_origin_from lxb b) of
        (Some oa, Some ob) \<Rightarrow> oa \<noteq> [] \<and> ob \<noteq> [] \<and> strcaseeq oa ob
      | _ \<Rightarrow> False)"

lemma same_origin_iff:
  "ns_url_same_origin lxb a b \<longleftrightarrow>
     (\<exists>oa ob. ns_url_origin_from lxb a = Some oa \<and> ns_url_origin_from lxb b = Some ob \<and>
              oa \<noteq> [] \<and> strcaseeq oa ob)"
  by (auto simp: ns_url_same_origin_def dest: strcaseeq_length split: option.splits)

lemma origin_from_http:
  assumes "origin_from lxb url = Some out"
  shows "ns_url_is_http_or_https (Some url) \<or>
         g_str_has_prefix url ''blob:'' \<and> ns_url_is_http_or_https (Some (drop 5 url))"
  using assms by (subst (asm) origin_from.simps) (auto split: if_splits)

section \<open>Loopback hosts\<close>

definition ns_host_is_loopback :: "cstr \<Rightarrow> bool" where
  "ns_host_is_loopback h \<longleftrightarrow>
     strcaseeq h ''localhost'' \<or> g_str_has_suffix h ''.localhost'' \<or>
     h = ''127.0.0.1'' \<or> h = ''::1'' \<or> h = ''[::1]''"

definition ns_url_host_is_loopback :: "cstr option \<Rightarrow> bool" where
  "ns_url_host_is_loopback h = (case h of None \<Rightarrow> False | Some t \<Rightarrow> ns_host_is_loopback t)"

end
