(* ===== verification/Csp.thy ===== *)
theory Csp
  imports Url
begin

text \<open>
  Content-Security-Policy, \<^verbatim>\<open>csp.c\<close>: parsing a header into a list of policies, and the queries the
  loader asks of it.  A policy is the C struct: for every directive kind a source list (a pointer
  that may be \<^verbatim>\<open>NULL\<close>) and whether the directive was set.  Digests and base64 are GLib's and enter
  as the parameter \<open>g_digest\<close> of the hash check.
\<close>

section \<open>Directive kinds and policies\<close>

datatype ns_csp_kind =
    NS_CSP_DEFAULT | NS_CSP_SCRIPT | NS_CSP_STYLE | NS_CSP_IMG | NS_CSP_MEDIA | NS_CSP_CONNECT
  | NS_CSP_FONT | NS_CSP_FRAME | NS_CSP_CHILD | NS_CSP_WORKER | NS_CSP_FRAME_ANCESTORS
  | NS_CSP_OBJECT | NS_CSP_BASE_URI | NS_CSP_FORM_ACTION | NS_CSP_KIND_COUNT

type_synonym source_list = "cstr list"

record ns_csp_policy =
  sources :: "ns_csp_kind \<Rightarrow> source_list option"
  is_set :: "ns_csp_kind \<Rightarrow> bool"

type_synonym ns_csp = "ns_csp_policy list"

definition empty_policy :: ns_csp_policy where
  "empty_policy = \<lparr> sources = (\<lambda>_. None), is_set = (\<lambda>_. False) \<rparr>"

definition directive_map :: "(cstr \<times> ns_csp_kind) list" where
  "directive_map =
    [(''default-src'', NS_CSP_DEFAULT), (''script-src'', NS_CSP_SCRIPT),
     (''style-src'', NS_CSP_STYLE), (''img-src'', NS_CSP_IMG), (''media-src'', NS_CSP_MEDIA),
     (''connect-src'', NS_CSP_CONNECT), (''font-src'', NS_CSP_FONT), (''frame-src'', NS_CSP_FRAME),
     (''child-src'', NS_CSP_CHILD), (''worker-src'', NS_CSP_WORKER),
     (''frame-ancestors'', NS_CSP_FRAME_ANCESTORS), (''object-src'', NS_CSP_OBJECT),
     (''base-uri'', NS_CSP_BASE_URI), (''form-action'', NS_CSP_FORM_ACTION)]"

fun lookup_directive :: "(cstr \<times> ns_csp_kind) list \<Rightarrow> cstr \<Rightarrow> ns_csp_kind" where
  "lookup_directive [] name = NS_CSP_KIND_COUNT"
| "lookup_directive ((n, k) # m) name = (if strcaseeq name n then k else lookup_directive m name)"

definition directive_kind :: "cstr \<Rightarrow> ns_csp_kind" where
  "directive_kind name = lookup_directive directive_map name"

section \<open>Parsing\<close>

text \<open>The prefix before the first dash, which is what the lower-casing loop stops at.\<close>

definition lower_before_dash :: "cstr \<Rightarrow> cstr" where
  "lower_before_dash s =
     g_ascii_strdown (takeWhile (\<lambda>c. c \<noteq> CHR ''-'') s) @ dropWhile (\<lambda>c. c \<noteq> CHR ''-'') s"

definition csp_normalize_source :: "cstr \<Rightarrow> cstr" where
  "csp_normalize_source t =
     (if take 1 t \<noteq> [CHR 0x27] then t
      else if strncaseeq t (CHR 0x27 # ''nonce-'') 7 \<or> strncaseeq t (CHR 0x27 # ''sha256-'') 8 \<or>
              strncaseeq t (CHR 0x27 # ''sha384-'') 8 \<or> strncaseeq t (CHR 0x27 # ''sha512-'') 8
      then lower_before_dash t
      else g_ascii_strdown t)"

record parse_state =
  pol :: ns_csp_policy
  script_elem :: "source_list option"
  style_elem :: "source_list option"

definition clause_sources :: "cstr list \<Rightarrow> source_list" where
  "clause_sources toks =
     map csp_normalize_source (filter (\<lambda>t. t \<noteq> []) (map g_strstrip toks))"

definition add_directive :: "ns_csp_policy \<Rightarrow> ns_csp_kind \<Rightarrow> source_list \<Rightarrow> ns_csp_policy" where
  "add_directive p k srcs =
     p\<lparr> is_set := (is_set p)(k := True),
        sources := (sources p)(k := Some (case sources p k of None \<Rightarrow> srcs | Some l \<Rightarrow> l @ srcs)) \<rparr>"

definition parse_clause :: "parse_state \<Rightarrow> cstr \<Rightarrow> parse_state" where
  "parse_clause st raw =
     (let clause = g_strstrip raw in
      if clause = [] then st
      else case g_strsplit_set clause [CHR 0x20, CHR 0x09] of
             [] \<Rightarrow> st
           | name # toks \<Rightarrow>
               let k = directive_kind name; srcs = clause_sources toks in
               if strcaseeq name ''script-src-elem'' \<and> script_elem st = None
               then st\<lparr>script_elem := Some srcs\<rparr>
               else if \<not> strcaseeq name ''script-src-elem'' \<and>
                       strcaseeq name ''style-src-elem'' \<and> style_elem st = None
               then st\<lparr>style_elem := Some srcs\<rparr>
               else if k = NS_CSP_KIND_COUNT \<or> is_set (pol st) k then st
               else st\<lparr>pol := add_directive (pol st) k srcs\<rparr>)"

definition elem_fallback :: "ns_csp_policy \<Rightarrow> source_list option \<Rightarrow> ns_csp_kind \<Rightarrow> ns_csp_policy" where
  "elem_fallback p l k =
     (case l of None \<Rightarrow> p
      | Some srcs \<Rightarrow> if is_set p k then p
                     else p\<lparr> is_set := (is_set p)(k := True),
                             sources := (sources p)(k := Some srcs) \<rparr>)"

definition parse_init :: parse_state where
  "parse_init = \<lparr> pol = empty_policy, script_elem = None, style_elem = None \<rparr>"

definition policy_parse :: "cstr \<Rightarrow> ns_csp_policy" where
  "policy_parse policy_text =
     (let st = foldl parse_clause parse_init (g_strsplit policy_text (CHR '';''))
      in elem_fallback (elem_fallback (pol st) (script_elem st) NS_CSP_SCRIPT)
                       (style_elem st) NS_CSP_STYLE)"

definition ns_csp_parse :: "cstr option \<Rightarrow> ns_csp option" where
  "ns_csp_parse header_value =
     (case header_value of None \<Rightarrow> None
      | Some h \<Rightarrow>
          if h = [] then None
          else let ps = map policy_parse
                      (filter (\<lambda>t. t \<noteq> []) (map g_strstrip (g_strsplit h (CHR '',''))))
               in if ps = [] then None else Some ps)"

definition policy_copy :: "ns_csp_policy \<Rightarrow> ns_csp_policy" where
  "policy_copy src = \<lparr> sources = (\<lambda>k. case sources src k of None \<Rightarrow> None | Some l \<Rightarrow> Some (map id l)),
                       is_set = (\<lambda>k. is_set src k) \<rparr>"

definition ns_csp_copy :: "ns_csp option \<Rightarrow> ns_csp option" where
  "ns_csp_copy csp = (case csp of None \<Rightarrow> None | Some ps \<Rightarrow> Some (map policy_copy ps))"

text \<open>\<open>ns_csp_merge(dst, src)\<close> moves the policies: the pair is the two lists afterwards.\<close>

definition ns_csp_merge :: "ns_csp option \<Rightarrow> ns_csp option \<Rightarrow> ns_csp option \<times> ns_csp option" where
  "ns_csp_merge dst src =
     (case (dst, src) of (Some d, Some s) \<Rightarrow> (Some (d @ s), Some []) | _ \<Rightarrow> (dst, src))"

section \<open>Matching a URL against a source expression\<close>

text \<open>The length of a scheme without its colon.\<close>

definition scheme_len :: "cstr \<Rightarrow> nat" where
  "scheme_len s = (if s \<noteq> [] \<and> last s = CHR '':'' then length s - 1 else length s)"

definition scheme_matches :: "cstr \<Rightarrow> nat \<Rightarrow> cstr \<Rightarrow> bool" where
  "scheme_matches src_scheme n res_scheme =
     (let rn = scheme_len res_scheme in
      if rn = n \<and> strncaseeq src_scheme res_scheme n then True
      else if n = 4 \<and> strncaseeq src_scheme ''http'' 4
      then rn = 5 \<and> strncaseeq res_scheme ''https'' 5
      else if n = 2 \<and> strncaseeq src_scheme ''ws'' 2
      then rn = 3 \<and> strncaseeq res_scheme ''wss'' 3
      else False)"

definition is_network_scheme :: "cstr \<Rightarrow> bool" where
  "is_network_scheme s \<longleftrightarrow>
     list_ex (strcaseeq s) [''http:'', ''https:'', ''ws:'', ''wss:'', ''ftp:'']"

definition default_port_for_scheme :: "cstr \<Rightarrow> cstr" where
  "default_port_for_scheme scheme =
     (let n = scheme_len scheme in
      if n = 5 \<and> strncaseeq scheme ''https'' 5 \<or> n = 3 \<and> strncaseeq scheme ''wss'' 3 then ''443''
      else if n = 4 \<and> strncaseeq scheme ''http'' 4 \<or> n = 2 \<and> strncaseeq scheme ''ws'' 2 then ''80''
      else if n = 3 \<and> strncaseeq scheme ''ftp'' 3 then ''21''
      else [])"

definition csp_port_matches :: "cstr option \<Rightarrow> cstr \<Rightarrow> cstr \<Rightarrow> bool" where
  "csp_port_matches src_port res_port res_scheme =
     (if src_port = Some ''*'' then True
      else if \<not> nonempty src_port then
        (if res_port = [] then True
         else let d = default_port_for_scheme res_scheme in d \<noteq> [] \<and> res_port = d)
      else let rp = (if res_port \<noteq> [] then res_port else default_port_for_scheme res_scheme)
           in rp \<noteq> [] \<and> src_port = Some rp)"

definition csp_path_matches :: "cstr option \<Rightarrow> cstr \<Rightarrow> bool" where
  "csp_path_matches src_path res_path =
     (case src_path of None \<Rightarrow> True
      | Some sp \<Rightarrow>
          if sp = [] \<or> sp = ''/'' then True
          else let rp = (if res_path \<noteq> [] then res_path else ''/'')
               in if last sp = CHR ''/'' then strneq rp sp (length sp) else rp = sp)"

text \<open>The scheme of a source without one: the document's, or its secure counterpart.\<close>

definition schemeless_ok :: "lxb_parser \<Rightarrow> cstr \<Rightarrow> cstr option \<Rightarrow> bool" where
  "schemeless_ok lxb res_scheme doc_url =
     (let doc_scheme = (case ns_url_parts_new lxb doc_url of None \<Rightarrow> None
                        | Some d \<Rightarrow> Some (protocol d)) in
      if nonempty doc_scheme then
        let ds = str_or doc_scheme [] in
        strcaseeq res_scheme ds \<or>
        strcaseeq ds ''http:'' \<and> strcaseeq res_scheme ''https:'' \<or>
        strcaseeq ds ''ws:'' \<and> strcaseeq res_scheme ''wss:''
      else is_network_scheme res_scheme)"

text \<open>The first \<open>host_len\<close> characters at \<open>hs\<close> against the resource's host name.\<close>

definition host_part_matches :: "cstr \<Rightarrow> nat \<Rightarrow> cstr \<Rightarrow> bool" where
  "host_part_matches hs host_len hostn =
     (if 2 \<le> host_len \<and> strneq hs ''*.'' 2 then
        (let suffix = drop 1 hs; sfx_len = host_len - 1; rh_len = length hostn in
         sfx_len < rh_len \<and> strncaseeq (drop (rh_len - sfx_len) hostn) suffix sfx_len)
      else length hostn = host_len \<and> strncaseeq hostn hs host_len)"

text \<open>Host, port and path of a source from its host on (\<open>hs\<close> is \<open>src_host_start\<close>).\<close>

definition authority_matches :: "cstr \<Rightarrow> ns_url_parts \<Rightarrow> bool" where
  "authority_matches hs res =
     (let port_p = strchr hs (CHR '':'');
          path_p = strchr hs (CHR ''/'');
          path_len = (case path_p of None \<Rightarrow> 0 | Some qp \<Rightarrow> length qp);
          port_first = (case port_p of None \<Rightarrow> False
                        | Some pp \<Rightarrow> path_p = None \<or> path_len < length pp);
          host_len = (if port_first then length hs - length (the port_p) else length hs - path_len);
          src_port = (if port_first
                      then Some (take (length (the port_p) - path_len - 1) (drop 1 (the port_p)))
                      else None)
      in host_len \<noteq> 0 \<and> host_part_matches hs host_len (hostname res) \<and>
         csp_port_matches src_port (port res) (protocol res) \<and>
         csp_path_matches path_p (pathname res))"

definition source_matches :: "lxb_parser \<Rightarrow> cstr \<Rightarrow> cstr option \<Rightarrow> cstr option \<Rightarrow> bool" where
  "source_matches lxb src resource_url doc_url =
     (if src = [] \<or> resource_url = None then False
      else if src = squote ''none'' then False
      else if src = squote ''unsafe-inline'' \<or> src = squote ''unsafe-eval'' \<or>
              src = squote ''strict-dynamic'' then False
      else case ns_url_parts_new lxb resource_url of
        None \<Rightarrow> False
      | Some res \<Rightarrow>
          if protocol res = [] then False
          else if src = ''*'' then is_network_scheme (protocol res)
          else if src = squote ''self'' then
            is_network_scheme (protocol res) \<and> ns_url_same_origin lxb resource_url doc_url
          else if last src = CHR '':'' \<and> strchr src (CHR ''/'') = None \<and>
                  strchr src (CHR '':'') = Some '':''
          then scheme_matches src (length src - 1) (protocol res)
          else (case strstr src ''://'' of
                  Some sep \<Rightarrow> scheme_matches src (length src - length sep) (protocol res) \<and>
                              authority_matches (drop 3 sep) res
                | None \<Rightarrow> schemeless_ok lxb (protocol res) doc_url \<and> authority_matches src res))"

section \<open>The fetch check\<close>

definition list_has_token :: "source_list option \<Rightarrow> cstr \<Rightarrow> bool" where
  "list_has_token l tok = (case l of None \<Rightarrow> False | Some xs \<Rightarrow> list_ex (\<lambda>s. s = tok) xs)"

definition policy_frame_ancestors_allows ::
  "lxb_parser \<Rightarrow> ns_csp_policy \<Rightarrow> cstr option \<Rightarrow> cstr option \<Rightarrow> bool" where
  "policy_frame_ancestors_allows lxb p parent_url document_url =
     (if \<not> is_set p NS_CSP_FRAME_ANCESTORS then True
      else case sources p NS_CSP_FRAME_ANCESTORS of
        None \<Rightarrow> False
      | Some l \<Rightarrow>
          if l = [] then False
          else if parent_url = None then True
          else list_ex (\<lambda>s. source_matches lxb s parent_url document_url) l)"

text \<open>The directive that governs a kind after fallback; \<open>None\<close> where the code returns early.\<close>

definition effective_kind :: "ns_csp_policy \<Rightarrow> ns_csp_kind \<Rightarrow> ns_csp_kind option" where
  "effective_kind p kind =
     (if is_set p kind then Some kind
      else if kind = NS_CSP_BASE_URI \<or> kind = NS_CSP_FORM_ACTION then None
      else if kind = NS_CSP_WORKER \<and> is_set p NS_CSP_CHILD then Some NS_CSP_CHILD
      else if kind = NS_CSP_WORKER \<and> is_set p NS_CSP_SCRIPT then Some NS_CSP_SCRIPT
      else if kind = NS_CSP_FRAME \<and> is_set p NS_CSP_CHILD then Some NS_CSP_CHILD
      else if is_set p NS_CSP_DEFAULT then Some NS_CSP_DEFAULT
      else None)"

definition is_nonce_source :: "cstr \<Rightarrow> bool" where
  "is_nonce_source s = g_str_has_prefix s (CHR 0x27 # ''nonce-'')"

definition nonce_source_matches :: "cstr \<Rightarrow> cstr \<Rightarrow> bool" where
  "nonce_source_matches s nonce =
     (let slen = length s in
      8 < slen \<and> last s = CHR 0x27 \<and> length nonce = slen - 8 \<and>
      strneq (drop 7 s) nonce (slen - 8))"

fun sources_allow ::
  "lxb_parser \<Rightarrow> bool \<Rightarrow> cstr option \<Rightarrow> cstr option \<Rightarrow> cstr option \<Rightarrow> source_list \<Rightarrow> bool" where
  "sources_allow lxb strict_dynamic nonce resource_url document_url [] = False"
| "sources_allow lxb strict_dynamic nonce resource_url document_url (s # l) =
     (if s = squote ''strict-dynamic''
      then sources_allow lxb strict_dynamic nonce resource_url document_url l
      else if nonce \<noteq> None \<and> is_nonce_source s then
        (if nonce_source_matches s (the nonce) then True
         else sources_allow lxb strict_dynamic nonce resource_url document_url l)
      else if strict_dynamic
      then sources_allow lxb strict_dynamic nonce resource_url document_url l
      else if source_matches lxb s resource_url document_url then True
      else sources_allow lxb strict_dynamic nonce resource_url document_url l)"

definition policy_allows_with_nonce ::
  "lxb_parser \<Rightarrow> ns_csp_policy \<Rightarrow> ns_csp_kind \<Rightarrow> cstr option \<Rightarrow> cstr option \<Rightarrow> cstr option \<Rightarrow> bool \<Rightarrow> bool"
where
  "policy_allows_with_nonce lxb p kind resource_url document_url nonce parser_inserted =
     (if kind = NS_CSP_FRAME_ANCESTORS
      then policy_frame_ancestors_allows lxb p resource_url document_url
      else case effective_kind p kind of
        None \<Rightarrow> True
      | Some eff \<Rightarrow>
          (case sources p eff of
             None \<Rightarrow> False
           | Some l \<Rightarrow>
               if l = [] then False
               else
                 let script_like = (kind = NS_CSP_SCRIPT \<or> kind = NS_CSP_DEFAULT \<and> eff = NS_CSP_DEFAULT);
                     strict_dynamic = (script_like \<and> list_has_token (Some l) (squote ''strict-dynamic''))
                 in if sources_allow lxb strict_dynamic nonce resource_url document_url l then True
                    else strict_dynamic \<and> \<not> parser_inserted))"

definition ns_csp_allows_with_nonce ::
  "lxb_parser \<Rightarrow> ns_csp option \<Rightarrow> ns_csp_kind \<Rightarrow> cstr option \<Rightarrow> cstr option \<Rightarrow> cstr option \<Rightarrow> bool \<Rightarrow> bool"
where
  "ns_csp_allows_with_nonce lxb csp kind resource_url document_url nonce parser_inserted =
     (case csp of None \<Rightarrow> True
      | Some ps \<Rightarrow>
          if resource_url = None then True
          else if kind = NS_CSP_KIND_COUNT then True
          else list_all (\<lambda>p. policy_allows_with_nonce lxb p kind resource_url document_url
                               nonce parser_inserted) ps)"

definition ns_csp_allows ::
  "lxb_parser \<Rightarrow> ns_csp option \<Rightarrow> ns_csp_kind \<Rightarrow> cstr option \<Rightarrow> cstr option \<Rightarrow> bool" where
  "ns_csp_allows lxb csp kind resource_url document_url =
     ns_csp_allows_with_nonce lxb csp kind resource_url document_url None True"

section \<open>Scripts: inline bodies, handlers, eval and imports\<close>

definition inline_script_kind :: "ns_csp_policy \<Rightarrow> ns_csp_kind" where
  "inline_script_kind p =
     (if is_set p NS_CSP_SCRIPT then NS_CSP_SCRIPT
      else if is_set p NS_CSP_DEFAULT then NS_CSP_DEFAULT
      else NS_CSP_KIND_COUNT)"

definition list_has_nonce_or_hash :: "source_list option \<Rightarrow> bool" where
  "list_has_nonce_or_hash l = (case l of None \<Rightarrow> False
     | Some xs \<Rightarrow> list_ex (\<lambda>s. is_nonce_source s \<or>
                    g_str_has_prefix s (CHR 0x27 # ''sha256-'') \<or>
                    g_str_has_prefix s (CHR 0x27 # ''sha384-'') \<or>
                    g_str_has_prefix s (CHR 0x27 # ''sha512-'')) xs)"

definition list_has_nonce :: "source_list option \<Rightarrow> bool" where
  "list_has_nonce l = (case l of None \<Rightarrow> False | Some xs \<Rightarrow> list_ex is_nonce_source xs)"

datatype g_checksum_type = G_CHECKSUM_SHA256 | G_CHECKSUM_SHA384 | G_CHECKSUM_SHA512

text \<open>
  \<open>dig type body\<close> is \<open>g_base64_encode\<close> of the digest GLib computes of \<open>body\<close>: a parameter.
\<close>

type_synonym digest_b64 = "g_checksum_type \<Rightarrow> cstr \<Rightarrow> cstr"

definition base64url_of :: "cstr \<Rightarrow> cstr" where
  "base64url_of s = map (\<lambda>c. if c = CHR ''+'' then CHR ''-''
                             else if c = CHR ''/'' then CHR ''_'' else c) s"

definition hash_token_type :: "cstr \<Rightarrow> g_checksum_type option" where
  "hash_token_type src =
     (if g_str_has_prefix src (CHR 0x27 # ''sha256-'') then Some G_CHECKSUM_SHA256
      else if g_str_has_prefix src (CHR 0x27 # ''sha384-'') then Some G_CHECKSUM_SHA384
      else if g_str_has_prefix src (CHR 0x27 # ''sha512-'') then Some G_CHECKSUM_SHA512
      else None)"

definition hash_token_matches :: "digest_b64 \<Rightarrow> cstr \<Rightarrow> cstr \<Rightarrow> bool" where
  "hash_token_matches dig src body =
     (case hash_token_type src of None \<Rightarrow> False
      | Some ty \<Rightarrow>
          let b64 = drop 8 src in
          if length b64 < 2 \<or> last b64 \<noteq> CHR 0x27 then False
          else let want = butlast b64; got = dig ty body
               in want = got \<or> want = base64url_of got)"

definition policy_inline_script_allowed ::
  "digest_b64 \<Rightarrow> ns_csp_policy \<Rightarrow> cstr option \<Rightarrow> cstr option \<Rightarrow> bool" where
  "policy_inline_script_allowed dig p body nonce =
     (let k = inline_script_kind p in
      if k = NS_CSP_KIND_COUNT then True
      else case sources p k of
        None \<Rightarrow> False
      | Some l \<Rightarrow>
          if nonempty nonce \<and> list_has_token (Some l) (squote (''nonce-'' @ str_or nonce [])) then True
          else if nonempty body \<and> list_ex (\<lambda>s. hash_token_matches dig s (str_or body [])) l then True
          else if list_has_token (Some l) (squote ''strict-dynamic'') then False
          else if list_has_nonce_or_hash (Some l) then False
          else list_has_token (Some l) (squote ''unsafe-inline''))"

definition ns_csp_inline_script_allowed ::
  "digest_b64 \<Rightarrow> ns_csp option \<Rightarrow> cstr option \<Rightarrow> cstr option \<Rightarrow> bool" where
  "ns_csp_inline_script_allowed dig csp body nonce =
     (case csp of None \<Rightarrow> True
      | Some ps \<Rightarrow> list_all (\<lambda>p. policy_inline_script_allowed dig p body nonce) ps)"

definition policy_inline_event_handler_allowed :: "ns_csp_policy \<Rightarrow> bool" where
  "policy_inline_event_handler_allowed p =
     (let k = inline_script_kind p in
      if k = NS_CSP_KIND_COUNT then True
      else case sources p k of
        None \<Rightarrow> False
      | Some l \<Rightarrow>
          if list_has_token (Some l) (squote ''strict-dynamic'') then False
          else if list_has_nonce_or_hash (Some l) then False
          else list_has_token (Some l) (squote ''unsafe-inline''))"

definition ns_csp_inline_event_handler_allowed :: "ns_csp option \<Rightarrow> bool" where
  "ns_csp_inline_event_handler_allowed csp =
     (case csp of None \<Rightarrow> True | Some ps \<Rightarrow> list_all policy_inline_event_handler_allowed ps)"

definition policy_allows_import ::
  "lxb_parser \<Rightarrow> ns_csp_policy \<Rightarrow> cstr option \<Rightarrow> cstr option \<Rightarrow> bool" where
  "policy_allows_import lxb p resource_url document_url =
     (let k = inline_script_kind p in
      if k = NS_CSP_KIND_COUNT then True
      else if list_has_nonce (sources p k) \<or> list_has_token (sources p k) (squote ''strict-dynamic'')
      then True
      else policy_allows_with_nonce lxb p NS_CSP_SCRIPT resource_url document_url None False)"

definition ns_csp_allows_import ::
  "lxb_parser \<Rightarrow> ns_csp option \<Rightarrow> cstr option \<Rightarrow> cstr option \<Rightarrow> bool" where
  "ns_csp_allows_import lxb csp resource_url document_url =
     (case csp of None \<Rightarrow> True
      | Some ps \<Rightarrow> resource_url = None \<or>
                   list_all (\<lambda>p. policy_allows_import lxb p resource_url document_url) ps)"

definition policy_allows_eval :: "ns_csp_policy \<Rightarrow> bool" where
  "policy_allows_eval p =
     (let k = inline_script_kind p in
      k = NS_CSP_KIND_COUNT \<or> list_has_token (sources p k) (squote ''unsafe-eval''))"

definition ns_csp_allows_eval :: "ns_csp option \<Rightarrow> bool" where
  "ns_csp_allows_eval csp =
     (case csp of None \<Rightarrow> True | Some ps \<Rightarrow> list_all policy_allows_eval ps)"

section \<open>Parsing\<close>

lemma policy_copy_id [simp]: "policy_copy p = p"
  by (cases p) (auto simp: policy_copy_def fun_eq_iff split: option.splits)

lemma ns_csp_copy_id [simp]: "ns_csp_copy c = c"
  by (auto simp: ns_csp_copy_def map_idI split: option.splits)

text \<open>A clause never touches a directive that an earlier clause has set.\<close>

lemma parse_clause_keeps:
  assumes "is_set (pol st) k"
  shows "is_set (pol (parse_clause st c)) k \<and>
         sources (pol (parse_clause st c)) k = sources (pol st) k"
  using assms
  by (auto simp: parse_clause_def add_directive_def Let_def split: list.splits if_splits)

lemma parse_clauses_keep:
  assumes "is_set (pol st) k"
  shows "is_set (pol (foldl parse_clause st cs)) k \<and>
         sources (pol (foldl parse_clause st cs)) k = sources (pol st) k"
  using assms
proof (induction cs arbitrary: st)
  case (Cons c cs)
  then show ?case using parse_clause_keeps [of st k c] by simp
qed simp

lemma elem_fallback_keeps:
  "is_set p k \<Longrightarrow> is_set (elem_fallback p l j) k \<and> sources (elem_fallback p l j) k = sources p k"
  by (auto simp: elem_fallback_def split: option.splits)

lemma g_strsplit_append:
  "g_strsplit (a @ d # b) d = split_on (\<lambda>c. c = d) a @ split_on (\<lambda>c. c = d) b"
  by (simp add: g_strsplit_def split_on_append_sep)

lemma strncaseeq_cong: "strcaseeq t u \<Longrightarrow> strncaseeq t p n = strncaseeq u p n"
  by (simp add: strncaseeq_def strcaseeq_def strdown_take)

lemma strcaseeq_Cons:
  "strcaseeq (a # s) t \<longleftrightarrow> (\<exists>b r. t = b # r \<and> g_ascii_tolower a = g_ascii_tolower b \<and> strcaseeq s r)"
  by (cases t) (auto simp: strcaseeq_def)

lemma normalize_keyword:
  assumes "strcaseeq t (squote kw)" "\<not> (\<exists>p\<in>{''nonce-'', ''sha256-'', ''sha384-'', ''sha512-''}.
             strncaseeq kw p (length p))"
  shows "csp_normalize_source t = g_ascii_strdown (squote kw)"
proof -
  have q: "strncaseeq (CHR 0x27 # a) (CHR 0x27 # b) (Suc n) = strncaseeq a b n" for a b n
    by (simp add: strncaseeq_def strcaseeq_def)
  have app: "strncaseeq (kw @ [CHR 0x27]) p (length p) \<Longrightarrow> strncaseeq kw p (length p)"
    if "p \<in> {''nonce-'', ''sha256-'', ''sha384-'', ''sha512-''}" for p
  proof (cases "length p \<le> length kw")
    case True
    then show "strncaseeq (kw @ [CHR 0x27]) p (length p) \<Longrightarrow> strncaseeq kw p (length p)"
      by (simp add: strncaseeq_def)
  next
    case False
    then have t: "take (length p) (kw @ [CHR 0x27]) = kw @ [CHR 0x27]" by simp
    have "last (g_ascii_strdown p) = CHR ''-''" using that by auto
    moreover have "last (g_ascii_strdown (kw @ [CHR 0x27])) = CHR 0x27" by simp
    ultimately have "last (g_ascii_strdown (kw @ [CHR 0x27])) \<noteq> last (g_ascii_strdown p)"
      by (simp only:) simp
    then have "g_ascii_strdown (kw @ [CHR 0x27]) \<noteq> g_ascii_strdown p" by metis
    then show "strncaseeq (kw @ [CHR 0x27]) p (length p) \<Longrightarrow> strncaseeq kw p (length p)"
      by (simp only: strncaseeq_def strcaseeq_def t) simp
  qed
  have "take 1 t = [CHR 0x27]"
    using assms(1) by (cases t) (auto simp: strcaseeq_def)
  moreover have "\<not> strncaseeq t (CHR 0x27 # p) (Suc (length p))"
    if "p \<in> {''nonce-'', ''sha256-'', ''sha384-'', ''sha512-''}" for p
    using app [OF that] assms that by (auto simp: strncaseeq_cong [OF assms(1)] q)
  ultimately have "csp_normalize_source t = g_ascii_strdown t"
    by (fastforce simp: csp_normalize_source_def numeral_eq_Suc)
  with assms(1) show ?thesis by (simp add: strcaseeq_def)
qed

lemma normalize_nonce:
  assumes "strcaseeq n ''nonce-''"
  shows "csp_normalize_source (CHR 0x27 # n @ v) = CHR 0x27 # ''nonce-'' @ v"
proof -
  have len: "length n = 6" using strcaseeq_length [OF assms] by simp
  obtain m c where n: "n = m @ [c]" using len by (cases n rule: rev_cases) auto
  from assms have "g_ascii_strdown m @ [g_ascii_tolower c] = ''nonce'' @ ''-''"
    by (simp add: strcaseeq_def n) (simp add: ascii_simps)
  then have m: "g_ascii_strdown m = ''nonce''" and c: "c = CHR ''-''"
    by (simp_all only: append1_eq_conv) simp_all
  from m have "CHR ''-'' \<notin> set m"
    using strdown_mem [of "CHR ''-''" m] by auto
  then have "takeWhile (\<lambda>c. c \<noteq> CHR ''-'') (m @ CHR ''-'' # v) = m"
    "dropWhile (\<lambda>c. c \<noteq> CHR ''-'') (m @ CHR ''-'' # v) = CHR ''-'' # v"
    by (induction m) auto
  with m n c have "lower_before_dash (CHR 0x27 # n @ v) = CHR 0x27 # ''nonce-'' @ v"
    by (simp add: lower_before_dash_def)
  moreover have "strncaseeq (CHR 0x27 # n @ v) (CHR 0x27 # ''nonce-'') 7"
    using assms len by (simp add: strncaseeq_def strcaseeq_def)
  ultimately show ?thesis by (simp add: csp_normalize_source_def)
qed

section \<open>Matching\<close>

lemma host_exact:
  assumes "\<not> g_str_has_prefix hs ''*.''"
  shows "host_part_matches hs (length hs) h \<longleftrightarrow> strcaseeq h hs"
proof -
  from assms have "take 2 hs \<noteq> ''*.''" by (simp add: g_str_has_prefix_def numeral_2_eq_2)
  then show ?thesis using strcaseeq_length [of h hs]
    by (auto simp: host_part_matches_def strneq_def strncaseeq_def)
qed

text \<open>A scheme is matched by itself or by its secure counterpart; never the other way.\<close>

lemma scheme_matches_iff:
  "scheme_matches src n res \<longleftrightarrow>
    scheme_len res = n \<and> strcaseeq (take n src) (take n res) \<or>
    n = 4 \<and> strcaseeq (take 4 src) ''http'' \<and> scheme_len res = 5 \<and> strcaseeq (take 5 res) ''https'' \<or>
    n = 2 \<and> strcaseeq (take 2 src) ''ws'' \<and> scheme_len res = 3 \<and> strcaseeq (take 3 res) ''wss''"
  by (auto simp: scheme_matches_def Let_def strncaseeq_def)

section \<open>Combining policies\<close>

lemma ns_csp_merge_allows:
  "ns_csp_allows_with_nonce lxb (fst (ns_csp_merge (Some d) (Some s))) k u doc nonce pi \<longleftrightarrow>
     ns_csp_allows_with_nonce lxb (Some d) k u doc nonce pi \<and>
     ns_csp_allows_with_nonce lxb (Some s) k u doc nonce pi"
  by (auto simp: ns_csp_merge_def ns_csp_allows_with_nonce_def)

lemma nonce_source_matches_iff:
  assumes "is_nonce_source s"
  shows "nonce_source_matches s nonce \<longleftrightarrow> nonce \<noteq> [] \<and> s = squote (''nonce-'' @ nonce)"
proof
  assume m: "nonce_source_matches s nonce"
  from assms obtain v where s: "s = CHR 0x27 # ''nonce-'' @ v"
    by (auto simp: is_nonce_source_def has_prefix_iff)
  from m s have v: "1 < length v" "last v = CHR 0x27" "length nonce = length v - 1"
    "take (length v - 1) v = take (length v - 1) nonce"
    by (auto simp: nonce_source_matches_def Let_def strneq_def split: if_splits)
  from v(1) obtain w c where w: "v = w @ [c]" by (cases v rule: rev_cases) auto
  have c: "c = CHR 0x27" using v(2) w by simp
  have "length nonce = length w" "w = take (length w) nonce" using v(3,4) w by simp_all
  then have n: "w = nonce" by simp
  have "w \<noteq> []" using v(1) w by auto
  then show "nonce \<noteq> [] \<and> s = squote (''nonce-'' @ nonce)" unfolding s w c n by simp
next
  assume "nonce \<noteq> [] \<and> s = squote (''nonce-'' @ nonce)"
  then show "nonce_source_matches s nonce"
    by (auto simp: nonce_source_matches_def Let_def strneq_def)
qed

lemma sources_allow_strict:
  assumes "sources_allow lxb True nonce u d l"
  shows "\<exists>n. nonce = Some n \<and> n \<noteq> [] \<and> squote (''nonce-'' @ n) \<in> set l"
  using assms
proof (induction l)
  case (Cons s l)
  show ?case
  proof (cases "nonce \<noteq> None \<and> is_nonce_source s \<and> nonce_source_matches s (the nonce)")
    case True
    then show ?thesis using nonce_source_matches_iff [of s "the nonce"] by auto
  next
    case False
    with Cons.prems have "sources_allow lxb True nonce u d l" by (auto split: if_splits)
    with Cons.IH show ?thesis by auto
  qed
qed simp

lemma handler_implies_inline:
  "policy_inline_event_handler_allowed p \<Longrightarrow> policy_inline_script_allowed dig p body nonce"
  by (auto simp: policy_inline_event_handler_allowed_def policy_inline_script_allowed_def Let_def
      split: option.splits if_splits)

section \<open>Properties\<close>


text \<open>The first occurrence of a directive in a serialized policy wins: whatever follows a text
  whose clauses set a directive, the parsed source list of that directive stays the one the text
  alone gives.\<close>

theorem csp_first_directive_wins:
  assumes "is_set (pol (foldl parse_clause parse_init (g_strsplit text1 (CHR '';'')))) k"
  shows "sources (policy_parse (text1 @ CHR '';'' # text2)) k = sources (policy_parse text1) k"
proof -
  let ?st = "foldl parse_clause parse_init (g_strsplit text1 (CHR '';''))"
  from assms have ne: "text1 \<noteq> []"
    by (auto simp: g_strsplit_def parse_init_def empty_policy_def)
  let ?st2 = "foldl parse_clause ?st (split_on (\<lambda>c. c = CHR '';'') text2)"
  have "foldl parse_clause parse_init (g_strsplit (text1 @ CHR '';'' # text2) (CHR '';'')) = ?st2"
    using ne by (simp only: g_strsplit_append foldl_append) (simp add: g_strsplit_def)
  moreover note parse_clauses_keep [OF assms, of "split_on (\<lambda>c. c = CHR '';'') text2"]
  ultimately show ?thesis using assms
    by (simp add: policy_parse_def Let_def elem_fallback_keeps)
qed

theorem csp_first_directive_wins_witness:
  "sources (policy_parse (''img-src a.com'' @ CHR '';'' # ''img-src *'')) NS_CSP_IMG =
   sources (policy_parse ''img-src a.com'') NS_CSP_IMG"
  by (rule csp_first_directive_wins)
    (simp add: g_strsplit_def parse_clause_def g_strstrip_def g_strchug_def g_strchomp_def
      g_strsplit_set_def Let_def directive_kind_def directive_map_def strcaseeq_def
      add_directive_def parse_init_def empty_policy_def ascii_simps)

text \<open>A wildcard host source matches exactly the strict subdomains of the host it names, in any
  letter case: not the host itself, and not a host that merely ends in the same letters.\<close>

theorem csp_wildcard_subdomains:
  "host_part_matches (''*.'' @ d @ rest) (length d + 2) h \<longleftrightarrow>
     (\<exists>x e. h = x @ ''.'' @ e \<and> x \<noteq> [] \<and> strcaseeq e d)" (is "?l = ?r")
proof
  assume ?l
  then have len: "length d + 1 < length h"
    and eq: "strcaseeq (take (length d + 1) (drop (length h - (length d + 1)) h)) (''.'' @ d)"
    by (auto simp: host_part_matches_def Let_def strneq_def strncaseeq_def)
  let ?x = "take (length h - (length d + 1)) h" and ?y = "drop (length h - (length d + 1)) h"
  define y where "y = ?y"
  have ly: "length y = length d + 1" using len by (simp add: y_def)
  then have "strcaseeq y (''.'' @ d)" using eq by (simp add: y_def)
  moreover obtain a e where y: "y = a # e" using ly by (cases y) auto
  ultimately have "a = CHR ''.''" and e: "strcaseeq e d" by (simp_all add: strcaseeq_def)
  moreover have "h = ?x @ y" by (simp add: y_def)
  ultimately have "h = ?x @ ''.'' @ e" using y by simp
  moreover have "?x \<noteq> []" using len by auto
  ultimately show ?r using e by blast
next
  assume ?r
  then obtain x e where h: "h = x @ ''.'' @ e" "x \<noteq> []" "strcaseeq e d" by blast
  from h(3) have "length e = length d" by (rule strcaseeq_length)
  with h show ?l
    by (auto simp: host_part_matches_def Let_def strneq_def strncaseeq_def strcaseeq_def)
qed

lemma strstr_at_prefix: "g_str_has_prefix s t \<Longrightarrow> strstr s t = Some s"
  by (subst strstr.simps) simp

lemma strstr_skip: "\<not> g_str_has_prefix (c # s) t \<Longrightarrow> strstr (c # s) t = strstr s t"
  by (subst strstr.simps) simp

lemma strstr_https [simplified]: "strstr (''https://'' @ r) ''://'' = Some (''://'' @ r)"
  by (simp add: strstr_skip strstr_at_prefix g_str_has_prefix_def)

text \<open>A source expression that names the \<^verbatim>\<open>https\<close> scheme never admits a resource of another
  scheme, whatever the document and the parser: no downgrade to \<^verbatim>\<open>http\<close>, \<^verbatim>\<open>ws\<close> or \<^verbatim>\<open>ftp\<close>.\<close>

theorem csp_https_source_secure:
  assumes "source_matches lxb (''https://'' @ r) (Some url) doc"
  shows "\<exists>res. ns_url_parts_new lxb (Some url) = Some res \<and> scheme_len (protocol res) = 5 \<and>
               strcaseeq (take 5 (protocol res)) ''https''"
proof -
  have c: "strchr (''https://'' @ r) (CHR ''/'') \<noteq> None" by simp
  from assms obtain res where res: "ns_url_parts_new lxb (Some url) = Some res"
    by (auto simp: source_matches_def split: option.splits)
  with assms c have "scheme_matches (''https://'' @ r) 5 (protocol res)"
    by (simp add: source_matches_def strstr_https split: if_splits)
  then have "scheme_len (protocol res) = 5 \<and> strcaseeq (take 5 (protocol res)) ''https''"
    by (auto simp: scheme_matches_iff strcaseeq_sym)
  with res show ?thesis by blast
qed

definition example_url :: lxb_url where
  "example_url = \<lparr> lxb_href = Some ''https://a.example.com/x'', lxb_scheme = Some ''https'',
     lxb_scheme_name = ''https'', lxb_host_type = Host_Other, lxb_host = Some ''a.example.com'',
     lxb_port = None, lxb_path = Some ''/x'', lxb_query = [], lxb_fragment = [],
     lxb_username = [], lxb_password = [] \<rparr>"

text \<open>A parser that knows one URL.\<close>

definition example_parser :: lxb_parser where
  "example_parser u = (if u = ''https://a.example.com/x'' then Some example_url else None)"

lemma example_parts:
  "ns_url_parts_new example_parser (Some ''https://a.example.com/x'') =
     Some (parts_of ''https://a.example.com/x'' example_url)"
  by (simp add: ns_url_parts_new_def ns_url_parts_new_depth.simps example_parser_def parts_of_def
      ns_url_take_serialized_def example_url_def Let_def)

lemma example_fields:
  "protocol (parts_of u example_url) = ''https:''" "hostname (parts_of u example_url) = ''a.example.com''"
  "port (parts_of u example_url) = []" "pathname (parts_of u example_url) = ''/x''"
  by (simp_all add: parts_of_def ns_url_take_serialized_def port_string_def example_url_def Let_def)

theorem csp_https_source_secure_witness:
  "\<exists>res. ns_url_parts_new example_parser (Some ''https://a.example.com/x'') = Some res \<and>
     scheme_len (protocol res) = 5 \<and> strcaseeq (take 5 (protocol res)) ''https''"
  by (rule csp_https_source_secure [where r = "''*.example.com''" and doc = None])
    (simp add: source_matches_def example_parts example_fields strstr_skip strstr_at_prefix
      g_str_has_prefix_def scheme_matches_def scheme_len_def Let_def strncaseeq_def strcaseeq_def
      authority_matches_def host_part_matches_def strneq_def csp_port_matches_def
      csp_path_matches_def nonempty_def ascii_simps)

text \<open>Under \<^verbatim>\<open>'strict-dynamic'\<close> a script the parser inserted is only admitted by its nonce: no
  host, scheme or \<^verbatim>\<open>'self'\<close> entry of the list lets it through.\<close>

theorem csp_strict_dynamic_needs_nonce:
  assumes "policy_allows_with_nonce lxb p NS_CSP_SCRIPT url doc nonce True"
    and "effective_kind p NS_CSP_SCRIPT = Some eff"
    and "list_has_token (sources p eff) (squote ''strict-dynamic'')"
  shows "\<exists>n l. nonce = Some n \<and> n \<noteq> [] \<and> sources p eff = Some l \<and> squote (''nonce-'' @ n) \<in> set l"
proof -
  from assms(3) obtain l where l: "sources p eff = Some l"
    by (cases "sources p eff") (simp_all add: list_has_token_def)
  moreover from assms(3) l have "l \<noteq> []" by (auto simp: list_has_token_def)
  ultimately have "sources_allow lxb True nonce url doc l"
    using assms by (simp add: policy_allows_with_nonce_def Let_def split: if_splits)
  from sources_allow_strict [OF this] l show ?thesis by auto
qed

definition example_policy :: ns_csp_policy where
  "example_policy = add_directive empty_policy NS_CSP_SCRIPT
     [squote ''strict-dynamic'', ''https:'', squote ''nonce-r4nd'']"

theorem csp_strict_dynamic_needs_nonce_witness:
  "\<exists>n l. Some ''r4nd'' = Some n \<and> n \<noteq> [] \<and> sources example_policy NS_CSP_SCRIPT = Some l \<and>
     squote (''nonce-'' @ n) \<in> set l"
  by (rule csp_strict_dynamic_needs_nonce [where lxb = example_parser and url = None and doc = None])
    (simp_all add: policy_allows_with_nonce_def effective_kind_def example_policy_def
      add_directive_def empty_policy_def is_nonce_source_def g_str_has_prefix_def
      nonce_source_matches_def strneq_def list_has_token_def Let_def)

text \<open>Whoever may run inline event handlers may run inline scripts: if every policy allows
  handler attributes, every inline script is allowed, with any body and nonce.\<close>

theorem csp_handlers_imply_inline_scripts:
  "ns_csp_inline_event_handler_allowed csp \<Longrightarrow> ns_csp_inline_script_allowed dig csp body nonce"
  by (auto simp: ns_csp_inline_event_handler_allowed_def ns_csp_inline_script_allowed_def
      list_all_iff intro: handler_implies_inline split: option.splits)

definition inline_policy :: ns_csp_policy where
  "inline_policy = add_directive empty_policy NS_CSP_DEFAULT [squote ''unsafe-inline'']"

theorem csp_handlers_imply_inline_scripts_witness:
  "ns_csp_inline_script_allowed (\<lambda>_ _. []) (Some [inline_policy]) (Some ''f()'') None"
  by (rule csp_handlers_imply_inline_scripts)
    (simp add: ns_csp_inline_event_handler_allowed_def policy_inline_event_handler_allowed_def
      inline_policy_def add_directive_def empty_policy_def inline_script_kind_def Let_def
      list_has_token_def list_has_nonce_or_hash_def is_nonce_source_def g_str_has_prefix_def)

end
