(* ===== verification/FetchPolicy.thy ===== *)
theory FetchPolicy
  imports Csp
begin

text \<open>
  The policy every subresource request passes, \<^verbatim>\<open>fetch_policy.c\<close>: \<^verbatim>\<open>file:\<close> access, mixed content
  (blocked, or upgraded for images and media) and the CSP directive of the destination.  What the
  check relies on in \<^verbatim>\<open>csp.c\<close> is the interface \<open>csp_provider\<close>, interpreted on the model of
  \<^verbatim>\<open>csp.c\<close>.  Whether \<^verbatim>\<open>file:\<close> URLs are allowed is the process-wide switch of \<^verbatim>\<open>net.c\<close>, passed as
  \<open>file_ok\<close>.
\<close>

section \<open>The interface to the content security policy\<close>

locale csp_provider =
  fixes copy :: "'csp option \<Rightarrow> 'csp option"
    and merge :: "'csp option \<Rightarrow> 'csp option \<Rightarrow> 'csp option \<times> 'csp option"
    and allows :: "'csp option \<Rightarrow> ns_csp_kind \<Rightarrow> cstr option \<Rightarrow> cstr option \<Rightarrow> bool"
  assumes copy_same: "allows (copy c) k u d = allows c k u d"
    and merge_both: "allows (fst (merge (Some a) (Some b))) k u d = (allows (Some a) k u d \<and> allows (Some b) k u d)"
    and merge_some: "fst (merge (Some a) (Some b)) \<noteq> None"
    and no_policy: "allows None k u d"
    and no_kind: "allows c NS_CSP_KIND_COUNT u d"
begin

lemma merge_narrows: "allows (fst (merge (Some a) (Some b))) k u d \<Longrightarrow> allows (Some a) k u d"
  by (simp add: merge_both)

lemma merge_commutes:
  "allows (fst (merge (Some a) (Some b))) k u d = allows (fst (merge (Some b) (Some a))) k u d"
  by (auto simp: merge_both)

text \<open>Delivering any number of further policies only takes away.\<close>

lemma merge_many:
  "allows (foldl (\<lambda>c b. fst (merge c (Some b))) (Some a) bs) k u d \<longleftrightarrow>
     allows (Some a) k u d \<and> list_all (\<lambda>b. allows (Some b) k u d) bs"
proof (induction bs arbitrary: a)
  case (Cons b bs)
  obtain c where c: "fst (merge (Some a) (Some b)) = Some c"
    using merge_some [of a b] by auto
  show ?case using Cons.IH [of c] merge_both [of a b k u d] by (simp add: c)
qed simp

lemma copy_merge_same:
  "allows (fst (merge (Some a) (Some b))) k u d \<Longrightarrow> allows (copy (Some a)) k u d \<and> allows (copy (Some b)) k u d"
  by (simp add: copy_same merge_both)

end

interpretation csp: csp_provider ns_csp_copy ns_csp_merge "ns_csp_allows lxb"
proof
  fix a b k u d
  show "ns_csp_allows lxb (fst (ns_csp_merge (Some a) (Some b))) k u d =
        (ns_csp_allows lxb (Some a) k u d \<and> ns_csp_allows lxb (Some b) k u d)"
    unfolding ns_csp_allows_def by (rule ns_csp_merge_allows)
qed (auto simp: ns_csp_allows_def ns_csp_allows_with_nonce_def ns_csp_merge_def split: option.splits)

section \<open>The policy and its verdicts\<close>

datatype ns_fetch_destination =
    NS_FETCH_DEST_DEFAULT | NS_FETCH_DEST_SCRIPT | NS_FETCH_DEST_STYLE | NS_FETCH_DEST_IMAGE
  | NS_FETCH_DEST_FONT | NS_FETCH_DEST_MEDIA | NS_FETCH_DEST_FRAME | NS_FETCH_DEST_WORKER
  | NS_FETCH_DEST_CONNECT | NS_FETCH_DEST_DOCUMENT | NS_FETCH_DEST_OBJECT

datatype ns_fetch_verdict =
    NS_FETCH_ALLOWED | NS_FETCH_UPGRADED | NS_FETCH_BLOCKED_SCHEME | NS_FETCH_BLOCKED_MIXED
  | NS_FETCH_BLOCKED_CSP

record ns_fetch_policy =
  rc :: nat
  document_url :: "cstr option"
  policy_csp :: "ns_csp option"
  check_scripts :: bool

definition ns_fetch_policy_new :: "cstr option \<Rightarrow> ns_csp option \<Rightarrow> ns_fetch_policy" where
  "ns_fetch_policy_new doc csp =
     \<lparr> rc = 1, document_url = doc,
       policy_csp = (case csp of None \<Rightarrow> None | Some c \<Rightarrow> ns_csp_copy (Some c)),
       check_scripts = False \<rparr>"

definition ns_fetch_policy_new_script_hops :: "ns_fetch_policy option \<Rightarrow> ns_fetch_policy option" where
  "ns_fetch_policy_new_script_hops policy =
     (case policy of None \<Rightarrow> None
      | Some p \<Rightarrow> Some ((ns_fetch_policy_new (document_url p) (policy_csp p))\<lparr>check_scripts := True\<rparr>))"

definition ns_fetch_policy_ref :: "ns_fetch_policy option \<Rightarrow> ns_fetch_policy option" where
  "ns_fetch_policy_ref policy =
     (case policy of None \<Rightarrow> None | Some p \<Rightarrow> Some (p\<lparr>rc := rc p + 1\<rparr>))"

text \<open>\<open>None\<close> after the call: the last reference is gone and the policy is freed.\<close>

definition ns_fetch_policy_unref :: "ns_fetch_policy option \<Rightarrow> ns_fetch_policy option" where
  "ns_fetch_policy_unref policy =
     (case policy of None \<Rightarrow> None
      | Some p \<Rightarrow> if rc p - 1 = 0 then None else Some (p\<lparr>rc := rc p - 1\<rparr>))"

definition ns_fetch_policy_document_url :: "ns_fetch_policy option \<Rightarrow> cstr option" where
  "ns_fetch_policy_document_url policy =
     (case policy of None \<Rightarrow> None | Some p \<Rightarrow> document_url p)"

fun ns_fetch_destination_name :: "ns_fetch_destination \<Rightarrow> cstr" where
  "ns_fetch_destination_name NS_FETCH_DEST_SCRIPT = ''script''"
| "ns_fetch_destination_name NS_FETCH_DEST_STYLE = ''stylesheet''"
| "ns_fetch_destination_name NS_FETCH_DEST_IMAGE = ''image''"
| "ns_fetch_destination_name NS_FETCH_DEST_FONT = ''font''"
| "ns_fetch_destination_name NS_FETCH_DEST_MEDIA = ''media''"
| "ns_fetch_destination_name NS_FETCH_DEST_FRAME = ''frame''"
| "ns_fetch_destination_name NS_FETCH_DEST_WORKER = ''worker''"
| "ns_fetch_destination_name NS_FETCH_DEST_CONNECT = ''connection''"
| "ns_fetch_destination_name NS_FETCH_DEST_DOCUMENT = ''document''"
| "ns_fetch_destination_name NS_FETCH_DEST_OBJECT = ''object''"
| "ns_fetch_destination_name NS_FETCH_DEST_DEFAULT = ''resource''"

fun destination_csp_kind :: "ns_fetch_destination \<Rightarrow> ns_csp_kind" where
  "destination_csp_kind NS_FETCH_DEST_STYLE = NS_CSP_STYLE"
| "destination_csp_kind NS_FETCH_DEST_IMAGE = NS_CSP_IMG"
| "destination_csp_kind NS_FETCH_DEST_MEDIA = NS_CSP_MEDIA"
| "destination_csp_kind NS_FETCH_DEST_FONT = NS_CSP_FONT"
| "destination_csp_kind NS_FETCH_DEST_CONNECT = NS_CSP_CONNECT"
| "destination_csp_kind NS_FETCH_DEST_WORKER = NS_CSP_WORKER"
| "destination_csp_kind NS_FETCH_DEST_FRAME = NS_CSP_FRAME"
| "destination_csp_kind NS_FETCH_DEST_OBJECT = NS_CSP_OBJECT"
| "destination_csp_kind _ = NS_CSP_KIND_COUNT"

fun destination_csp_directive :: "ns_fetch_destination \<Rightarrow> cstr" where
  "destination_csp_directive NS_FETCH_DEST_STYLE = ''style-src''"
| "destination_csp_directive NS_FETCH_DEST_IMAGE = ''img-src''"
| "destination_csp_directive NS_FETCH_DEST_MEDIA = ''media-src''"
| "destination_csp_directive NS_FETCH_DEST_FONT = ''font-src''"
| "destination_csp_directive NS_FETCH_DEST_CONNECT = ''connect-src''"
| "destination_csp_directive NS_FETCH_DEST_WORKER = ''worker-src''"
| "destination_csp_directive NS_FETCH_DEST_FRAME = ''frame-src''"
| "destination_csp_directive NS_FETCH_DEST_OBJECT = ''object-src''"
| "destination_csp_directive NS_FETCH_DEST_SCRIPT = ''script-src''"
| "destination_csp_directive _ = ''default-src''"

section \<open>The check\<close>

definition url_has_scheme :: "cstr option \<Rightarrow> cstr \<Rightarrow> bool" where
  "url_has_scheme url scheme =
     (case url of None \<Rightarrow> False | Some u \<Rightarrow> strncaseeq u scheme (length scheme))"

definition url_is_loopback :: "lxb_parser \<Rightarrow> cstr option \<Rightarrow> bool" where
  "url_is_loopback lxb url = ns_url_host_is_loopback (ns_url_host_from lxb url)"

definition upgrade_to_https :: "cstr \<Rightarrow> cstr" where
  "upgrade_to_https url =
     (let rest = drop 7 url; authority = strcspn rest ''/?#'' in
      if 3 < authority \<and> strneq (drop (authority - 3) rest) '':80'' 3
      then ''https://'' @ take (authority - 3) rest @ drop authority rest
      else ''https://'' @ rest)"

text \<open>The document a check is made for: the policy's, if it names one.\<close>

definition effective_document :: "ns_fetch_policy option \<Rightarrow> cstr option \<Rightarrow> cstr option" where
  "effective_document policy doc =
     (case policy of None \<Rightarrow> doc | Some p \<Rightarrow> (case document_url p of None \<Rightarrow> doc | Some d \<Rightarrow> Some d))"

definition file_refused :: "bool \<Rightarrow> cstr option \<Rightarrow> cstr option \<Rightarrow> bool" where
  "file_refused file_ok doc_url url \<longleftrightarrow> url_has_scheme url ''file:'' \<and>
     (\<not> file_ok \<or> nonempty doc_url \<and> \<not> url_has_scheme doc_url ''file:'')"

definition is_mixed_content :: "lxb_parser \<Rightarrow> cstr option \<Rightarrow> cstr option \<Rightarrow> bool" where
  "is_mixed_content lxb doc_url url \<longleftrightarrow> url_has_scheme doc_url ''https:'' \<and>
     (url_has_scheme url ''http:'' \<or> url_has_scheme url ''ws:'') \<and> \<not> url_is_loopback lxb url"

definition is_upgradable :: "ns_fetch_destination \<Rightarrow> cstr option \<Rightarrow> bool" where
  "is_upgradable dest url \<longleftrightarrow> url_has_scheme url ''http:'' \<and>
     (dest = NS_FETCH_DEST_IMAGE \<or> dest = NS_FETCH_DEST_MEDIA)"

definition checked_kind :: "ns_fetch_policy option \<Rightarrow> ns_fetch_destination \<Rightarrow> ns_csp_kind" where
  "checked_kind policy dest =
     (if dest = NS_FETCH_DEST_SCRIPT \<and> (case policy of None \<Rightarrow> False | Some p \<Rightarrow> check_scripts p)
      then NS_CSP_SCRIPT else destination_csp_kind dest)"

definition csp_refused ::
  "lxb_parser \<Rightarrow> ns_fetch_policy option \<Rightarrow> ns_csp_kind \<Rightarrow> cstr option \<Rightarrow> cstr option \<Rightarrow> bool" where
  "csp_refused lxb policy kind url doc_url \<longleftrightarrow>
     (case policy of None \<Rightarrow> False
      | Some p \<Rightarrow> policy_csp p \<noteq> None \<and> kind \<noteq> NS_CSP_KIND_COUNT \<and>
                  \<not> ns_csp_allows lxb (policy_csp p) kind url doc_url)"

text \<open>The verdict and what is stored through \<open>out_upgraded_url\<close>.\<close>

definition ns_fetch_policy_check ::
  "lxb_parser \<Rightarrow> bool \<Rightarrow> ns_fetch_policy option \<Rightarrow> ns_fetch_destination \<Rightarrow> cstr option \<Rightarrow> cstr option
     \<Rightarrow> ns_fetch_verdict \<times> cstr option" where
  "ns_fetch_policy_check lxb file_ok policy dest doc url =
     (if url = None \<or> dest = NS_FETCH_DEST_DOCUMENT then (NS_FETCH_ALLOWED, None)
      else
        let doc_url = effective_document policy doc in
        if file_refused file_ok doc_url url then (NS_FETCH_BLOCKED_SCHEME, None)
        else if is_mixed_content lxb doc_url url \<and> \<not> is_upgradable dest url
        then (NS_FETCH_BLOCKED_MIXED, None)
        else
          let upgraded = (if is_mixed_content lxb doc_url url
                          then Some (upgrade_to_https (the url)) else None);
              kind = checked_kind policy dest in
          if csp_refused lxb policy kind (if upgraded \<noteq> None then upgraded else url) doc_url
          then (NS_FETCH_BLOCKED_CSP, None)
          else if upgraded = None then (NS_FETCH_ALLOWED, None)
          else (NS_FETCH_UPGRADED, upgraded))"

definition ns_fetch_verdict_blocks :: "ns_fetch_verdict \<Rightarrow> bool" where
  "ns_fetch_verdict_blocks v \<longleftrightarrow>
     v = NS_FETCH_BLOCKED_SCHEME \<or> v = NS_FETCH_BLOCKED_MIXED \<or> v = NS_FETCH_BLOCKED_CSP"

definition ns_fetch_verdict_message ::
  "ns_fetch_verdict \<Rightarrow> ns_fetch_destination \<Rightarrow> cstr option \<Rightarrow> cstr option" where
  "ns_fetch_verdict_message verdict dest url =
     (let what = ns_fetch_destination_name dest; u = str_or url [] in
      case verdict of
        NS_FETCH_BLOCKED_SCHEME \<Rightarrow>
          Some (''Refused to load local '' @ what @ '' '' @ u @ '' from a page that is not a local file'')
      | NS_FETCH_BLOCKED_MIXED \<Rightarrow>
          Some (''Blocked mixed content: the secure page requested the insecure '' @ what @ '' '' @ u)
      | NS_FETCH_BLOCKED_CSP \<Rightarrow>
          Some (''Refused to load the '' @ what @ '' '' @ u @
                '' because it violates the Content-Security-Policy directive '' @
                destination_csp_directive dest)
      | _ \<Rightarrow> None)"

section \<open>What the verdict guarantees\<close>

lemma upgrade_prefix: "g_str_has_prefix (upgrade_to_https u) ''https://''"
  by (auto simp: upgrade_to_https_def Let_def g_str_has_prefix_def)

lemma https_not_insecure:
  assumes "g_str_has_prefix v ''https://''"
  shows "\<not> url_has_scheme (Some v) ''http:''" "\<not> url_has_scheme (Some v) ''ws:''"
    "\<not> url_has_scheme (Some v) ''file:''"
  using assms by (auto simp: has_prefix_iff url_has_scheme_def strncaseeq_def strcaseeq_def ascii_simps)

text \<open>The URL the caller goes on with: the upgraded one if there is one.\<close>

definition fetched_url :: "cstr option \<Rightarrow> ns_fetch_verdict \<times> cstr option \<Rightarrow> cstr option" where
  "fetched_url url r = (if snd r = None then url else snd r)"

text \<open>One case analysis of the check, for requests that are not document loads and not blocked.\<close>

lemma check_passed:
  assumes "\<not> ns_fetch_verdict_blocks (fst (ns_fetch_policy_check lxb file_ok policy dest doc (Some u)))"
    and "dest \<noteq> NS_FETCH_DEST_DOCUMENT"
  shows "\<not> file_refused file_ok (effective_document policy doc) (Some u)"
    and "is_mixed_content lxb (effective_document policy doc) (Some u) \<Longrightarrow>
         snd (ns_fetch_policy_check lxb file_ok policy dest doc (Some u)) = Some (upgrade_to_https u)"
    and "\<not> is_mixed_content lxb (effective_document policy doc) (Some u) \<Longrightarrow>
         snd (ns_fetch_policy_check lxb file_ok policy dest doc (Some u)) = None"
    and "\<not> csp_refused lxb policy (checked_kind policy dest)
         (fetched_url (Some u) (ns_fetch_policy_check lxb file_ok policy dest doc (Some u)))
         (effective_document policy doc)"
  using assms
  by (auto simp: ns_fetch_policy_check_def ns_fetch_verdict_blocks_def fetched_url_def Let_def
      split: if_splits)

text \<open>C1: A request that is not blocked never leaves a secure document in the clear: unless the host
  is the loopback interface, what is fetched for an \<^verbatim>\<open>https:\<close> document is neither an \<^verbatim>\<open>http:\<close> nor a
  \<^verbatim>\<open>ws:\<close> URL, for every destination but the document load itself.\<close>

theorem fetch_no_mixed_content:
  assumes "\<not> ns_fetch_verdict_blocks (fst (ns_fetch_policy_check lxb file_ok policy dest doc (Some u)))"
    and "dest \<noteq> NS_FETCH_DEST_DOCUMENT"
    and "url_has_scheme (effective_document policy doc) ''https:''"
    and "\<not> url_is_loopback lxb (Some u)"
    and "v = fetched_url (Some u) (ns_fetch_policy_check lxb file_ok policy dest doc (Some u))"
  shows "\<not> url_has_scheme v ''http:'' \<and> \<not> url_has_scheme v ''ws:''"
proof (cases "is_mixed_content lxb (effective_document policy doc) (Some u)")
  case True
  then have "v = Some (upgrade_to_https u)"
    using check_passed(2) [OF assms(1,2)] assms(5) by (simp add: fetched_url_def)
  then show ?thesis using https_not_insecure upgrade_prefix by blast
next
  case False
  then have "v = Some u"
    using check_passed(3) [OF assms(1,2)] assms(5) by (simp add: fetched_url_def)
  with False assms(3,4) show ?thesis by (auto simp: is_mixed_content_def)
qed

lemma no_host: "url_is_loopback (\<lambda>_. None) url = False"
  by (auto simp: url_is_loopback_def ns_url_host_from_def ns_url_parse_with_host_def
      ns_url_host_is_loopback_def split: option.splits)

definition secure_page :: ns_fetch_policy where
  "secure_page = ns_fetch_policy_new (Some ''https://a.org/'') None"

lemma secure_page_check:
  "ns_fetch_policy_check (\<lambda>_. None) False (Some secure_page) NS_FETCH_DEST_IMAGE None (Some ''http://b.org:80/i'') =
     (NS_FETCH_UPGRADED, Some ''https://b.org/i'')"
  by (simp add: ns_fetch_policy_check_def secure_page_def ns_fetch_policy_new_def Let_def
      effective_document_def file_refused_def url_has_scheme_def strncaseeq_def strcaseeq_def
      is_mixed_content_def no_host is_upgradable_def csp_refused_def upgrade_to_https_def
      strcspn_def strneq_def ascii_simps)

theorem fetch_no_mixed_content_witness:
  "\<not> url_has_scheme (Some ''https://b.org/i'') ''http:'' \<and>
   \<not> url_has_scheme (Some ''https://b.org/i'') ''ws:''"
  by (rule fetch_no_mixed_content [where lxb = "\<lambda>_. None" and file_ok = False and doc = None and
        policy = "Some secure_page" and dest = NS_FETCH_DEST_IMAGE and u = "''http://b.org:80/i''"])
    (simp_all only: secure_page_check, simp_all add: ns_fetch_verdict_blocks_def no_host
      fetched_url_def secure_page_def ns_fetch_policy_new_def effective_document_def
      url_has_scheme_def strncaseeq_def strcaseeq_def ascii_simps)

text \<open>A page that is not a local file never loads a \<^verbatim>\<open>file:\<close> URL, upgraded or not, unless the
  request is the document load itself; where local files are switched off, no page does.\<close>

theorem fetch_file_isolated:
  assumes "\<not> ns_fetch_verdict_blocks (fst (ns_fetch_policy_check lxb file_ok policy dest doc (Some u)))"
    and "dest \<noteq> NS_FETCH_DEST_DOCUMENT"
    and "v = fetched_url (Some u) (ns_fetch_policy_check lxb file_ok policy dest doc (Some u))"
    and "url_has_scheme v ''file:''"
  shows "file_ok \<and> (nonempty (effective_document policy doc) \<longrightarrow>
                     url_has_scheme (effective_document policy doc) ''file:'')"
proof -
  have "v = Some u"
    using check_passed(2,3) [OF assms(1,2)] assms(3,4) upgrade_prefix https_not_insecure(3)
    by (cases "is_mixed_content lxb (effective_document policy doc) (Some u)")
      (auto simp: fetched_url_def)
  with check_passed(1) [OF assms(1,2)] assms(4) show ?thesis by (auto simp: file_refused_def)
qed

definition local_page :: ns_fetch_policy where
  "local_page = ns_fetch_policy_new (Some ''file:///a'') None"

lemma local_page_check:
  "ns_fetch_policy_check (\<lambda>_. None) True (Some local_page) NS_FETCH_DEST_IMAGE None (Some ''FILE:///b'') =
     (NS_FETCH_ALLOWED, None)"
  by (simp add: ns_fetch_policy_check_def local_page_def ns_fetch_policy_new_def Let_def
      effective_document_def file_refused_def url_has_scheme_def strncaseeq_def strcaseeq_def
      is_mixed_content_def csp_refused_def ascii_simps)

theorem fetch_file_isolated_witness:
  "url_has_scheme (Some ''file:///a'') ''file:''"
  using fetch_file_isolated [where lxb = "\<lambda>_. None" and file_ok = True and doc = None and
      policy = "Some local_page" and dest = NS_FETCH_DEST_IMAGE and u = "''FILE:///b''"]
  unfolding local_page_check
  by (simp add: ns_fetch_verdict_blocks_def fetched_url_def local_page_def ns_fetch_policy_new_def
      effective_document_def url_has_scheme_def strncaseeq_def strcaseeq_def ascii_simps)


definition two_headers :: ns_fetch_policy where
  "two_headers = \<lparr> rc = 1, document_url = None,
     policy_csp = foldl (\<lambda>c b. fst (ns_csp_merge c (Some b))) (Some [empty_policy]) [[empty_policy]],
     check_scripts = False \<rparr>"

lemma two_headers_check:
  "ns_fetch_policy_check (\<lambda>_. None) False (Some two_headers) NS_FETCH_DEST_STYLE None (Some ''https://b.org/s'') =
     (NS_FETCH_ALLOWED, None)"
  by (simp add: ns_fetch_policy_check_def two_headers_def Let_def effective_document_def
      file_refused_def url_has_scheme_def strncaseeq_def strcaseeq_def is_mixed_content_def
      csp_refused_def checked_kind_def ns_csp_merge_def ns_csp_allows_def
      ns_csp_allows_with_nonce_def policy_allows_with_nonce_def effective_kind_def
      empty_policy_def ascii_simps)


end
