(* ===== verification/Privacy.thy ===== *)
theory Privacy
  imports Url
begin

text \<open>
  What the browser gives away about the user in a request (\<^verbatim>\<open>net.c\<close>): the tracking parameters it
  strips from URLs, the referrer, the site a cookie or cache partition belongs to, the \<^verbatim>\<open>Origin\<close>
  header and the user agent, with the refresh header a response may carry.
\<close>

section \<open>Tracking parameters\<close>

definition exact_tracking :: "cstr list" where
  "exact_tracking =
     [''gclid'', ''dclid'', ''gbraid'', ''wbraid'',
      ''fbclid'', ''msclkid'', ''yclid'', ''twclid'', ''igshid'',
      ''mc_cid'', ''mc_eid'',
      ''_hsenc'', ''_hsmi'', ''__hssc'', ''__hstc'', ''__hsfp'', ''hsctatracking'',
      ''vero_id'', ''vero_conv'',
      ''oly_anon_id'', ''oly_enc_id'',
      ''_openstat'', ''wickedid'', ''rb_clickid'', ''s_cid'',
      ''ml_subscriber'', ''ml_subscriber_hash'',
      ''mtm_source'', ''mtm_medium'', ''mtm_campaign'', ''mtm_keyword'',
      ''mtm_cid'', ''mtm_content'', ''mtm_group'', ''mtm_placement'',
      ''pk_source'', ''pk_medium'', ''pk_campaign'', ''pk_keyword'',
      ''pk_cid'', ''pk_content'']"

definition ns_query_param_is_tracking :: "cstr \<Rightarrow> bool" where
  "ns_query_param_is_tracking key \<longleftrightarrow>
     key \<noteq> [] \<and>
     (length key \<ge> 4 \<and> strncaseeq key ''utm_'' 4 \<or>
      list_ex (\<lambda>e. length e = length key \<and> strncaseeq key e (length key)) exact_tracking)"

text \<open>The key of a \<open>key=value\<close> token: what precedes the first \<open>=\<close>.\<close>

definition param_key :: "cstr \<Rightarrow> cstr" where
  "param_key tok = takeWhile (\<lambda>c. c \<noteq> CHR ''='') tok"

text \<open>The loop over the \<open>&\<close>-separated tokens, with \<open>kept\<close> and \<open>removed\<close>.\<close>

fun strip_loop :: "cstr list \<Rightarrow> cstr \<Rightarrow> bool \<Rightarrow> cstr \<times> bool" where
  "strip_loop [] kept removed = (kept, removed)"
| "strip_loop (tok # toks) kept removed =
     (if ns_query_param_is_tracking (param_key tok) then strip_loop toks kept True
      else strip_loop toks ((if kept \<noteq> [] then kept @ ''&'' else kept) @ tok) removed)"

definition url_body :: "cstr \<Rightarrow> cstr" where
  "url_body url = takeWhile (\<lambda>c. c \<noteq> CHR ''#'') url"

definition ns_url_strip_tracking_params :: "bool \<Rightarrow> cstr option \<Rightarrow> cstr option" where
  "ns_url_strip_tracking_params enabled url =
     (case url of None \<Rightarrow> None
      | Some u \<Rightarrow>
        if \<not> ns_url_is_http_or_https (Some u) then None
        else if \<not> enabled then None
        else
          (case strchr (url_body u) (CHR ''?'') of
             None \<Rightarrow> None
           | Some query \<Rightarrow>
               (case strip_loop (split_on (\<lambda>c. c = CHR ''&'') (tl query)) [] False of (kept, removed) \<Rightarrow>
                  if \<not> removed then None
                  else Some (takeWhile (\<lambda>c. c \<noteq> CHR ''?'') (url_body u) @
                             (if kept \<noteq> [] then CHR ''?'' # kept else []) @
                             str_or (strchr u (CHR ''#'')) []))))"

text \<open>The reference: what a URL is made of.\<close>

definition query_params :: "cstr \<Rightarrow> cstr list" where
  "query_params u = (case strchr (url_body u) (CHR ''?'') of None \<Rightarrow> []
     | Some q \<Rightarrow> filter (\<lambda>t. t \<noteq> []) (split_on (\<lambda>c. c = CHR ''&'') (tl q)))"

definition url_base :: "cstr \<Rightarrow> cstr" where
  "url_base u = takeWhile (\<lambda>c. c \<noteq> CHR ''?'') (url_body u)"

definition url_fragment :: "cstr \<Rightarrow> cstr" where
  "url_fragment u = str_or (strchr u (CHR ''#'')) []"

fun join_amp :: "cstr list \<Rightarrow> cstr" where
  "join_amp [] = []"
| "join_amp [t] = t"
| "join_amp (t # ts) = t @ CHR ''&'' # join_amp ts"

lemma strip_loop_removed:
  "snd (strip_loop toks kept removed) \<longleftrightarrow>
     removed \<or> list_ex (\<lambda>t. ns_query_param_is_tracking (param_key t)) toks"
  by (induction toks kept removed rule: strip_loop.induct) auto

lemma join_amp_Cons: "ts \<noteq> [] \<Longrightarrow> join_amp (t # ts) = t @ CHR ''&'' # join_amp ts"
  by (cases ts) auto

lemma strip_loop_kept_nonempty:
  "kept \<noteq> [] \<Longrightarrow>
   fst (strip_loop toks kept removed) =
     join_amp (kept # filter (\<lambda>t. \<not> ns_query_param_is_tracking (param_key t)) toks)"
proof (induction toks kept removed rule: strip_loop.induct)
  case (2 tok toks kept removed)
  show ?case
  proof (cases "ns_query_param_is_tracking (param_key tok)")
    case False
    then show ?thesis using 2 by (cases "filter (\<lambda>t. \<not> ns_query_param_is_tracking (param_key t)) toks") auto
  qed (use 2 in auto)
qed simp

lemma strip_loop_kept:
  "fst (strip_loop toks [] removed) =
     join_amp (dropWhile (\<lambda>t. t = []) (filter (\<lambda>t. \<not> ns_query_param_is_tracking (param_key t)) toks))"
proof (induction toks arbitrary: removed)
  case (Cons tok toks)
  then show ?case using strip_loop_kept_nonempty [of tok toks removed] by auto
qed simp

lemma no_empty_key_tracking [simp]: "\<not> ns_query_param_is_tracking (param_key [])"
  by (simp add: ns_query_param_is_tracking_def param_key_def)

lemma split_join_amp:
  "ts \<noteq> [] \<Longrightarrow> (\<And>t. t \<in> set ts \<Longrightarrow> CHR ''&'' \<notin> set t) \<Longrightarrow>
   split_on (\<lambda>c. c = CHR ''&'') (join_amp ts) = ts"
proof (induction ts rule: join_amp.induct)
  case (2 t)
  then show ?case using split_on_id [of t "\<lambda>c. c = CHR ''&''"] by auto
next
  case (3 t u us)
  have "split_on (\<lambda>c. c = CHR ''&'') t = [t]"
    using "3.prems"(2) [of t] by (intro split_on_id) auto
  then show ?case using 3 by (simp add: split_on_append_sep)
qed simp

lemma join_amp_chars: "set (join_amp ts) \<subseteq> insert (CHR ''&'') (\<Union> (set ` set ts))"
  by (induction ts rule: join_amp.induct) auto

lemma join_amp_Nil_iff: "join_amp (dropWhile (\<lambda>t. t = []) ts) = [] \<longleftrightarrow> dropWhile (\<lambda>t. t = []) ts = []"
proof (induction ts)
  case (Cons t ts)
  show ?case
  proof (cases "t = []")
    case False
    then show ?thesis by (cases ts) simp_all
  qed (use Cons in simp)
qed simp

lemma filter_dropWhile_Nil: "filter (\<lambda>t. t \<noteq> []) (dropWhile (\<lambda>t. t = []) ts) = filter (\<lambda>t. t \<noteq> []) ts"
  by (induction ts) auto

text \<open>What a URL of the shape the function returns is made of.\<close>

lemma url_shape:
  assumes "CHR ''#'' \<notin> set b" "CHR ''?'' \<notin> set b" "CHR ''#'' \<notin> set q" "f = [] \<or> hd f = CHR ''#''"
  shows "url_base (b @ (if q \<noteq> [] then CHR ''?'' # q else []) @ f) = b" (is "url_base ?u = b")
    and "url_fragment (b @ (if q \<noteq> [] then CHR ''?'' # q else []) @ f) = f"
    and "query_params (b @ (if q \<noteq> [] then CHR ''?'' # q else []) @ f) =
         (if q \<noteq> [] then filter (\<lambda>t. t \<noteq> []) (split_on (\<lambda>c. c = CHR ''&'') q) else [])"
proof -
  let ?m = "if q \<noteq> [] then CHR ''?'' # q else []"
  have nohash: "CHR ''#'' \<notin> set (b @ ?m)" using assms by auto
  then have twb: "takeWhile (\<lambda>c. c \<noteq> CHR ''#'') ((b @ ?m) @ f) = (b @ ?m) @ takeWhile (\<lambda>c. c \<noteq> CHR ''#'') f"
    by (intro takeWhile_append2) auto
  moreover have "takeWhile (\<lambda>c. c \<noteq> CHR ''#'') f = []"
    using assms(4) by (cases f) auto
  ultimately have body: "url_body ?u = b @ ?m" by (simp add: url_body_def)
  have "takeWhile (\<lambda>c. c \<noteq> CHR ''?'') (b @ ?m) = b @ takeWhile (\<lambda>c. c \<noteq> CHR ''?'') ?m"
    using assms(2) by (intro takeWhile_append2) auto
  then show "url_base ?u = b" by (simp add: url_base_def body)
  show "url_fragment ?u = f"
  proof (cases f)
    case Nil
    with nohash have "strchr (b @ ?m @ f) (CHR ''#'') = None" by (simp add: strchr_None_iff)
    with Nil show ?thesis by (simp add: url_fragment_def)
  next
    case (Cons c f')
    with assms(4) nohash strchr_append [of "CHR ''#''" "b @ ?m" f'] show ?thesis
      by (auto simp: url_fragment_def)
  qed
  show "query_params ?u = (if q \<noteq> [] then filter (\<lambda>t. t \<noteq> []) (split_on (\<lambda>c. c = CHR ''&'') q) else [])"
    using assms(2) strchr_None_iff [of b "CHR ''?''"]
    by (auto simp: query_params_def body strchr_append)
qed

lemma url_split: "u = url_body u @ url_fragment u" "url_fragment u = [] \<or> hd (url_fragment u) = CHR ''#''"
proof -
  have "u = url_body u @ url_fragment u \<and> (url_fragment u = [] \<or> hd (url_fragment u) = CHR ''#'')"
    unfolding url_body_def url_fragment_def by (induction u) (auto split: if_splits)
  then show "u = url_body u @ url_fragment u" "url_fragment u = [] \<or> hd (url_fragment u) = CHR ''#''"
    by auto
qed

lemma url_body_chars: "CHR ''#'' \<notin> set (url_body u)"
  by (auto simp: url_body_def dest: set_takeWhileD)

lemma url_base_chars: "CHR ''#'' \<notin> set (url_base u)" "CHR ''?'' \<notin> set (url_base u)"
  using url_body_chars [of u] by (auto simp: url_base_def dest: set_takeWhileD)

text \<open>The result in closed form.\<close>

lemma strip_result:
  assumes "ns_url_strip_tracking_params en (Some u) = Some v"
  obtains q where
    "v = url_base u @ (if q \<noteq> [] then CHR ''?'' # q else []) @ url_fragment u"
    "CHR ''#'' \<notin> set q"
    "(if q \<noteq> [] then filter (\<lambda>t. t \<noteq> []) (split_on (\<lambda>c. c = CHR ''&'') q) else []) =
     filter (\<lambda>t. \<not> ns_query_param_is_tracking (param_key t)) (query_params u)"
    "list_ex (\<lambda>t. ns_query_param_is_tracking (param_key t)) (query_params u)"
proof -
  have "strchr (url_body u) (CHR ''?'') \<noteq> None"
    using assms by (cases "strchr (url_body u) (CHR ''?'')") (auto simp: ns_url_strip_tracking_params_def split: if_splits)
  then obtain qs where qs: "strchr (url_body u) (CHR ''?'') = Some qs" by blast
  let ?P = "\<lambda>t. ns_query_param_is_tracking (param_key t)"
  let ?toks = "split_on (\<lambda>c. c = CHR ''&'') (tl qs)"
  let ?ts = "dropWhile (\<lambda>t. t = []) (filter (\<lambda>t. \<not> ?P t) ?toks)"
  let ?q = "fst (strip_loop ?toks [] False)"
  have "snd (strip_loop ?toks [] False) \<and>
     v = url_base u @ (if ?q \<noteq> [] then CHR ''?'' # ?q else []) @ url_fragment u"
    using assms unfolding ns_url_strip_tracking_params_def option.case qs case_prod_beta
      url_base_def [symmetric] url_fragment_def [symmetric]
    by (simp only: option.distinct if_False if_True option.inject split: if_split_asm)
  then have v: "v = url_base u @ (if ?q \<noteq> [] then CHR ''?'' # ?q else []) @ url_fragment u"
    and rem: "snd (strip_loop ?toks [] False)" by blast+
  have q: "?q = join_amp ?ts" by (rule strip_loop_kept)
  obtain pre where pre: "url_body u = pre @ qs" "qs \<noteq> []"
    using strchr_Some_append [OF qs] by blast
  then have "CHR ''#'' \<notin> set (tl qs)"
    using url_body_chars [of u] by (cases qs) auto
  then have toks: "CHR ''#'' \<notin> set t \<and> CHR ''&'' \<notin> set t" if "t \<in> set ?toks" for t
    using that split_on_no_sep [OF that] split_on_chars [OF that] by blast
  have tsin: "t \<in> set ?toks" if "t \<in> set ?ts" for t
    using set_dropWhileD [OF that] by (simp only: set_filter) blast
  have hash: "CHR ''#'' \<notin> set ?q"
  proof
    assume "CHR ''#'' \<in> set ?q"
    then have "CHR ''#'' \<in> \<Union> (set ` set ?ts)" using join_amp_chars [of ?ts] by (auto simp only: q)
    then show False using toks tsin by blast
  qed
  have qp: "query_params u = filter (\<lambda>t. t \<noteq> []) ?toks" by (simp add: query_params_def qs)
  have "(if ?q \<noteq> [] then filter (\<lambda>t. t \<noteq> []) (split_on (\<lambda>c. c = CHR ''&'') ?q) else []) = filter (\<lambda>t. t \<noteq> []) ?ts"
  proof (cases "?ts = []")
    case True
    show ?thesis unfolding q True by simp
  next
    case False
    then have "?q \<noteq> []" unfolding q by (simp only: join_amp_Nil_iff not_False_eq_True)
    moreover have "split_on (\<lambda>c. c = CHR ''&'') (join_amp ?ts) = ?ts"
    proof (rule split_join_amp [OF False])
      fix t assume "t \<in> set ?ts"
      then show "CHR ''&'' \<notin> set t" using toks tsin by blast
    qed
    ultimately show ?thesis by (simp only: q if_True simp_thms not_False_eq_True)
  qed
  then have flt: "(if ?q \<noteq> [] then filter (\<lambda>t. t \<noteq> []) (split_on (\<lambda>c. c = CHR ''&'') ?q) else []) =
     filter (\<lambda>t. \<not> ?P t) (query_params u)"
    by (simp only: qp filter_dropWhile_Nil filter_filter conj_commute)
  have "list_ex ?P (query_params u)"
  proof -
    from rem obtain t where "t \<in> set ?toks" "?P t" by (auto simp: strip_loop_removed list_ex_iff)
    moreover then have "t \<noteq> []" by auto
    ultimately show ?thesis by (auto simp: qp list_ex_iff)
  qed
  with v hash flt show thesis by (rule that)
qed

lemma strip_None_iff:
  "ns_url_strip_tracking_params en (Some u) = None \<longleftrightarrow>
     \<not> ns_url_is_http_or_https (Some u) \<or> \<not> en \<or>
     \<not> list_ex (\<lambda>t. ns_query_param_is_tracking (param_key t)) (query_params u)"
proof (cases "strchr (url_body u) (CHR ''?'')")
  case None
  then show ?thesis by (simp add: ns_url_strip_tracking_params_def query_params_def)
next
  case (Some q)
  have "list_ex (\<lambda>t. ns_query_param_is_tracking (param_key t)) (filter (\<lambda>t. t \<noteq> []) ts) =
        list_ex (\<lambda>t. ns_query_param_is_tracking (param_key t)) ts" for ts
    by (induction ts) auto
  with Some show ?thesis
    by (simp add: ns_url_strip_tracking_params_def query_params_def case_prod_beta strip_loop_removed)
qed

text \<open>
  when the tracking parameters of a URL are stripped, the result has the same text before the
  query and the same fragment, its non-empty query parameters are exactly those of the original
  that are not tracking parameters, in their order, and stripping it again finds nothing; the
  function leaves a URL alone exactly when it is not an http or https URL, the setting is off or
  no parameter is a tracking parameter.
\<close>

theorem strip_tracking_exact:
  assumes "ns_url_strip_tracking_params en (Some u) = Some v"
  shows "url_base v = url_base u \<and> url_fragment v = url_fragment u \<and>
    query_params v = filter (\<lambda>t. \<not> ns_query_param_is_tracking (param_key t)) (query_params u) \<and>
    ns_url_strip_tracking_params en' (Some v) = None \<and>
    list_ex (\<lambda>t. ns_query_param_is_tracking (param_key t)) (query_params u) \<and>
    en \<and> ns_url_is_http_or_https (Some u)"
proof -
  obtain q where q: "v = url_base u @ (if q \<noteq> [] then CHR ''?'' # q else []) @ url_fragment u"
    "CHR ''#'' \<notin> set q"
    "(if q \<noteq> [] then filter (\<lambda>t. t \<noteq> []) (split_on (\<lambda>c. c = CHR ''&'') q) else []) =
     filter (\<lambda>t. \<not> ns_query_param_is_tracking (param_key t)) (query_params u)"
    and l: "list_ex (\<lambda>t. ns_query_param_is_tracking (param_key t)) (query_params u)"
    using strip_result [OF assms] .
  note shape = url_shape [OF url_base_chars q(2) url_split(2), of u u, folded q(1)]
  have p: "query_params v = filter (\<lambda>t. \<not> ns_query_param_is_tracking (param_key t)) (query_params u)"
    using shape(3) q(3) by simp
  have "\<not> list_ex (\<lambda>t. ns_query_param_is_tracking (param_key t)) (query_params v)"
    by (auto simp: p list_ex_iff)
  then have again: "ns_url_strip_tracking_params en' (Some v) = None" by (simp add: strip_None_iff)
  have "ns_url_strip_tracking_params en (Some u) \<noteq> None" using assms by simp
  then have on: "en \<and> ns_url_is_http_or_https (Some u)" unfolding strip_None_iff by blast
  show ?thesis using shape(1,2) p again l on by blast
qed

lemma tracking_example:
  "ns_url_strip_tracking_params True (Some ''http://a.b/c?UTM_x=1&q=2#f'') = Some ''http://a.b/c?q=2#f''"
  by (simp add: ns_url_strip_tracking_params_def ns_url_is_http_or_https_def url_body_def param_key_def
      ns_query_param_is_tracking_def exact_tracking_def cstr_simps ascii_simps)

theorem strip_tracking_exact_witness:
  "query_params ''http://a.b/c?q=2#f'' =
   filter (\<lambda>t. \<not> ns_query_param_is_tracking (param_key t)) (query_params ''http://a.b/c?UTM_x=1&q=2#f'')"
  using strip_tracking_exact [OF tracking_example] by blast

section \<open>The Refresh header\<close>

text \<open>
  The delay is a \<^verbatim>\<open>double\<close> in the source; every value it takes is an integer below
  \<open>2 ^ 53\<close>, where double arithmetic is exact, so it is a natural number here.  \<open>seconds_loop\<close> is the
  loop over the digits with its early exit.
\<close>

definition refresh_max :: nat where
  "refresh_max = 2147483647"

fun seconds_loop :: "cstr \<Rightarrow> nat \<Rightarrow> nat" where
  "seconds_loop [] seconds = seconds"
| "seconds_loop (d # ds) seconds =
     (let seconds' = seconds * 10 + digit_val d in
      if seconds' > refresh_max then refresh_max else seconds_loop ds seconds')"

text \<open>What follows the number: a separator and white space around it.\<close>

definition after_delay :: "cstr \<Rightarrow> cstr option" where
  "after_delay p =
     (case p of
        [] \<Rightarrow> Some []
      | c # _ \<Rightarrow>
          if c \<noteq> CHR '';'' \<and> c \<noteq> CHR '','' \<and> \<not> ns_is_ascii_ws c then None
          else
            let p1 = skip_ws p;
                p2 = (case p1 of d # r \<Rightarrow> if d = CHR '';'' \<or> d = CHR '','' then r else p1 | [] \<Rightarrow> p1)
            in Some (skip_ws p2))"

text \<open>An optional \<open>url =\<close>, letters in either case.\<close>

definition skip_url_key :: "cstr \<Rightarrow> cstr" where
  "skip_url_key p =
     (if strncaseeq p ''url'' 3 then
        (case skip_ws (drop 3 p) of
           c # r \<Rightarrow> if c = CHR ''='' then skip_ws r else p
         | [] \<Rightarrow> p)
      else p)"

definition refresh_target :: "cstr \<Rightarrow> cstr option" where
  "refresh_target p =
     (let url = (case p of
                   [] \<Rightarrow> None
                 | c # r \<Rightarrow>
                     if c = CHR 0x27 \<or> c = CHR 0x22
                     then Some (takeWhile (\<lambda>x. x \<noteq> c) r)
                     else Some (g_strchomp p))
      in if url = Some [] then None else url)"

definition ns_net_parse_refresh :: "cstr option \<Rightarrow> bool \<times> nat \<times> cstr option" where
  "ns_net_parse_refresh input =
     (case input of
        None \<Rightarrow> (False, 0, None)
      | Some s \<Rightarrow>
          let digits = skip_ws s;
              ds = takeWhile g_ascii_isdigit digits;
              p = dropWhile g_ascii_isdigit digits
          in
          if ds = [] \<and> (p = [] \<or> hd p \<noteq> CHR ''.'') then (False, 0, None)
          else
            (case after_delay (dropWhile (\<lambda>c. c = CHR ''.'' \<or> g_ascii_isdigit c) p) of
               None \<Rightarrow> (False, 0, None)
             | Some q \<Rightarrow> (True, seconds_loop ds 0, refresh_target (skip_url_key q))))"

lemma seconds_loop_value:
  "acc \<le> refresh_max \<Longrightarrow> seconds_loop ds acc = min (dec_value acc ds) refresh_max"
proof (induction ds arbitrary: acc)
  case (Cons d ds)
  then show ?case using dec_value_mono [of "acc * 10 + digit_val d" ds] by (simp add: Let_def)
qed (simp add: min_def)

lemma seconds_loop_bound: "seconds_loop ds 0 \<le> refresh_max"
  by (simp add: seconds_loop_value)

lemma skip_ws_id: "s = [] \<or> \<not> ns_is_ascii_ws (hd s) \<Longrightarrow> skip_ws s = s"
  by (cases s) (auto simp: skip_ws_def)

lemma isdigit_not_ws: "g_ascii_isdigit c \<Longrightarrow> \<not> ns_is_ascii_ws c"
  by (auto simp: ns_is_ascii_ws_def ascii_simps)

lemma chomp_id: "s \<noteq> [] \<Longrightarrow> \<not> g_ascii_isspace (last s) \<Longrightarrow> g_strchomp s = s"
  by (cases s rule: rev_cases) (auto simp: g_strchomp_def)

text \<open>
  a refresh header written as a number, \<open>; url=\<close> and a target is read back: the delay is the
  number, clamped to the largest 32-bit integer, and the target is the one written, when it is not
  empty, does not start with a quote or white space and does not end in white space.
\<close>

theorem refresh_roundtrip:
  assumes "target \<noteq> []" "\<not> ns_is_ascii_ws (hd target)" "hd target \<noteq> CHR 0x27" "hd target \<noteq> CHR 0x22"
    and "\<not> g_ascii_isspace (last target)"
  shows "ns_net_parse_refresh (Some (dec_digits n @ ''; url='' @ target)) =
         (True, min n refresh_max, Some target)"
proof -
  let ?r = "''; url='' @ target"
  have dig: "list_all g_ascii_isdigit (dec_digits n)"
    using dec_digits_isdigit by (auto simp: list_all_iff)
  have nd: "\<not> g_ascii_isdigit CHR '';''" by (simp add: ascii_simps)
  have skip: "skip_ws (dec_digits n @ ?r) = dec_digits n @ ?r"
  proof (rule skip_ws_id)
    have "g_ascii_isdigit (hd (dec_digits n))" using dec_digits_isdigit by (meson dec_digits_nonempty hd_in_set)
    then show "dec_digits n @ ?r = [] \<or> \<not> ns_is_ascii_ws (hd (dec_digits n @ ?r))"
      by (simp add: isdigit_not_ws)
  qed
  have tk: "takeWhile g_ascii_isdigit (dec_digits n @ ?r) = dec_digits n"
    and dw: "dropWhile g_ascii_isdigit (dec_digits n @ ?r) = ?r"
    using dig nd by (simp_all add: list_all_iff)
  have "skip_ws target = target" using assms by (intro skip_ws_id) simp
  moreover have "skip_ws (''url='' @ target) = ''url='' @ target"
    by (rule skip_ws_id) (simp add: ns_is_ascii_ws_def)
  ultimately have "after_delay ?r = Some (''url='' @ target)" "skip_url_key (''url='' @ target) = target"
    by (simp_all add: after_delay_def skip_url_key_def skip_ws_def ns_is_ascii_ws_def cstr_simps)
  moreover have "refresh_target target = Some target"
    using assms by (cases target) (simp_all add: refresh_target_def chomp_id Let_def)
  moreover have "dropWhile (\<lambda>c. c = CHR ''.'' \<or> g_ascii_isdigit c) ?r = ?r" using nd by simp
  ultimately show ?thesis
    unfolding ns_net_parse_refresh_def option.case skip tk dw Let_def
    by (simp add: seconds_loop_value)
qed

theorem refresh_roundtrip_witness:
  "ns_net_parse_refresh (Some (dec_digits 5 @ ''; url='' @ ''/next'')) = (True, min 5 refresh_max, Some ''/next'')"
  by (rule refresh_roundtrip) (simp_all add: ns_is_ascii_ws_def ascii_simps)

section \<open>Referrer\<close>

datatype ns_referer_policy =
    NS_REFERER_NO_REFERRER | NS_REFERER_SAME_ORIGIN | NS_REFERER_STRICT_ORIGIN_WHEN_CROSS
  | NS_REFERER_UNSAFE_URL

definition ns_net_referer_for ::
  "lxb_parser \<Rightarrow> cstr option \<Rightarrow> cstr option \<Rightarrow> ns_referer_policy \<Rightarrow> cstr option" where
  "ns_net_referer_for lxb url top_url policy =
     (if \<not> nonempty top_url \<or> \<not> ns_url_is_http_or_https url \<or> \<not> ns_url_is_http_or_https top_url \<or>
         policy = NS_REFERER_NO_REFERRER then None
      else if g_str_has_prefix (the top_url) ''https://'' \<and> g_str_has_prefix (the url) ''http://'' then None
      else
        let same_origin = ns_url_same_origin lxb top_url url in
        if policy = NS_REFERER_SAME_ORIGIN \<and> \<not> same_origin then None
        else if policy = NS_REFERER_UNSAFE_URL \<or> same_origin then
          (case ns_url_parts_new lxb top_url of
             None \<Rightarrow> None
           | Some p \<Rightarrow> if origin p = [] then None else Some (origin p @ pathname p @ search p))
        else
          (case ns_url_origin_from lxb top_url of None \<Rightarrow> None | Some ori \<Rightarrow> Some (ori @ ''/'')))"

text \<open>
  the referrer.  None is sent for a policy that forbids it, for a document or a request that is
  not http or https, nor from a secure document to an insecure URL.  Unless the policy is
  \<^verbatim>\<open>unsafe-url\<close>, a cross-origin request is told the origin of the document at most, followed by a
  slash, and nothing at all under \<^verbatim>\<open>same-origin\<close>; a same-origin request is told origin, path and
  query, so never the fragment, the user name or the password.
\<close>

theorem referer_leaks_at_most:
  assumes "ns_net_referer_for lxb url top_url policy = Some r"
  shows "policy \<noteq> NS_REFERER_NO_REFERRER \<and>
    ns_url_is_http_or_https url \<and> ns_url_is_http_or_https top_url \<and>
    \<not> (g_str_has_prefix (the top_url) ''https://'' \<and> g_str_has_prefix (the url) ''http://'') \<and>
    (if ns_url_same_origin lxb top_url url \<or> policy = NS_REFERER_UNSAFE_URL
         then (case ns_url_parts_new lxb top_url of None \<Rightarrow> False
               | Some p \<Rightarrow> r = origin p @ pathname p @ search p)
         else policy \<noteq> NS_REFERER_SAME_ORIGIN \<and>
              (case ns_url_origin_from lxb top_url of None \<Rightarrow> False | Some ori \<Rightarrow> r = ori @ ''/''))"
  using assms by (auto simp: ns_net_referer_for_def Let_def split: if_splits option.splits)

section \<open>Sites\<close>

text \<open>
  The public suffix list is libpsl's: \<open>psl\<close> gives the registrable domain of a host, None also when
  the list is not available.
\<close>

type_synonym psl_registrable = "cstr \<Rightarrow> cstr option"

definition ns_url_site_from :: "lxb_parser \<Rightarrow> psl_registrable \<Rightarrow> cstr option \<Rightarrow> cstr option" where
  "ns_url_site_from lxb psl url =
     (if \<not> nonempty url then None
      else (case ns_url_parts_new lxb url of
              None \<Rightarrow> None
            | Some p \<Rightarrow>
                let lower = g_ascii_strdown (hostname p);
                    reg = psl lower;
                    site_host = (if nonempty reg then the reg else hostname p)
                in if port p \<noteq> [] then Some (protocol p @ ''://'' @ site_host @ '':'' @ port p)
                   else Some (protocol p @ ''://'' @ site_host)))"

text \<open>\<open>a\<close> is longer than \<open>b\<close>, ends in it whatever the case, and a dot stands before.\<close>

definition host_suffix :: "cstr \<Rightarrow> cstr \<Rightarrow> bool" where
  "host_suffix a b \<longleftrightarrow>
     length a > length b + 1 \<and> a ! (length a - length b - 1) = CHR ''.'' \<and>
     strncaseeq (drop (length a - length b) a) b (length b)"

definition ns_url_is_same_site ::
  "lxb_parser \<Rightarrow> psl_registrable \<Rightarrow> cstr option \<Rightarrow> cstr option \<Rightarrow> bool" where
  "ns_url_is_same_site lxb psl a b =
     (if a = None \<or> b = None then False
      else (case (ns_url_site_from lxb psl a, ns_url_site_from lxb psl b) of
              (Some sa, Some sb) \<Rightarrow> strcaseeq sa sb
            | _ \<Rightarrow>
              (case (ns_url_host_from lxb a, ns_url_host_from lxb b) of
                 (Some ha, Some hb) \<Rightarrow> strcaseeq ha hb \<or> host_suffix ha hb \<or> host_suffix hb ha
               | _ \<Rightarrow> False)))"

lemma host_suffix_iff:
  "host_suffix a b \<longleftrightarrow> (\<exists>p q. a = p @ ''.'' @ q \<and> p \<noteq> [] \<and> strcaseeq q b)"
proof
  assume h: "host_suffix a b"
  let ?k = "length a - length b - 1"
  have lt: "?k < length a" and k: "Suc ?k = length a - length b" and pos: "?k > 0"
    using h by (auto simp: host_suffix_def)
  have "a = take ?k a @ a ! ?k # drop (Suc ?k) a" using lt by (rule id_take_nth_drop)
  moreover have "strcaseeq (drop (Suc ?k) a) b"
    using h k by (simp add: host_suffix_def strncaseeq_def)
  ultimately show "\<exists>p q. a = p @ ''.'' @ q \<and> p \<noteq> [] \<and> strcaseeq q b"
    using h pos lt by (intro exI [of _ "take ?k a"] exI [of _ "drop (Suc ?k) a"]) (auto simp: host_suffix_def)
next
  assume "\<exists>p q. a = p @ ''.'' @ q \<and> p \<noteq> [] \<and> strcaseeq q b"
  then obtain p q where a: "a = p @ ''.'' @ q" "p \<noteq> []" "strcaseeq q b" by blast
  then have l: "length q = length b" by (simp add: strcaseeq_length)
  then have "length a = length p + 1 + length b" using a by simp
  then show "host_suffix a b" using a l by (simp add: host_suffix_def strncaseeq_def)
qed

lemma same_site_symmetric:
  "ns_url_is_same_site lxb psl a b = ns_url_is_same_site lxb psl b a \<and>
   ns_url_is_same_site lxb psl a a =
     (ns_url_site_from lxb psl a \<noteq> None \<or> ns_url_host_from lxb a \<noteq> None)"
proof -
  have "ns_url_site_from lxb psl None = None" "ns_url_host_from lxb None = None"
    by (simp_all add: ns_url_site_from_def ns_url_host_from_def)
  then show ?thesis
    by (cases a) (auto simp: ns_url_is_same_site_def strcaseeq_sym split: option.splits)
qed

section \<open>The Origin header\<close>

definition unsafe_method :: "cstr option \<Rightarrow> bool" where
  "unsafe_method method \<longleftrightarrow> nonempty method \<and> \<not> strcaseeq (the method) ''GET'' \<and> \<not> strcaseeq (the method) ''HEAD''"

definition ns_net_request_origin ::
  "lxb_parser \<Rightarrow> cstr option \<Rightarrow> cstr option \<Rightarrow> cstr option \<Rightarrow> cstr option \<Rightarrow> cstr" where
  "ns_net_request_origin lxb url top_url top_origin method =
     (if \<not> nonempty top_origin then
        (if nonempty top_url \<and> (unsafe_method method \<or> \<not> ns_url_same_origin lxb top_url url)
         then ''null'' else '''')
      else
        let t = the top_origin in
        if CHR 0x0D \<in> set t \<or> CHR 0x0A \<in> set t \<or> length t \<ge> 4096 then ''''
        else if top_url \<noteq> None \<and> \<not> ns_url_same_origin lxb top_url url then t
        else if unsafe_method method then t
        else '''')"

text \<open>
  the \<^verbatim>\<open>Origin\<close> header can not carry a line break into the request, is shorter than 4096 bytes,
  is either empty, \<^verbatim>\<open>null\<close> or the origin of the document, and a GET or HEAD request to the document's
  own origin has none.
\<close>

theorem request_origin_safe:
  "(case ns_net_request_origin lxb url top_url top_origin m of h \<Rightarrow>
      CHR 0x0D \<notin> set h \<and> CHR 0x0A \<notin> set h \<and> length h < 4096 \<and>
      (h = '''' \<or> h = ''null'' \<and> \<not> nonempty top_origin \<or> Some h = top_origin) \<and>
      \<not> (h \<noteq> '''' \<and> ns_url_same_origin lxb top_url url \<and> \<not> unsafe_method m))"
  unfolding ns_net_request_origin_def
  by (cases top_origin) (auto simp: Let_def)

definition plain_url :: "cstr \<Rightarrow> cstr \<Rightarrow> cstr \<Rightarrow> lxb_url" where
  "plain_url h path q =
     \<lparr> lxb_href = Some (''https://'' @ h @ path), lxb_scheme = Some ''https'', lxb_scheme_name = ''https'',
       lxb_host_type = Host_Other, lxb_host = Some h, lxb_port = None, lxb_path = Some path,
       lxb_query = q, lxb_fragment = [], lxb_username = [], lxb_password = [] \<rparr>"

definition two_site_parser :: lxb_parser where
  "two_site_parser u =
     (if u = ''https://a.b/p?q'' then Some (plain_url ''a.b'' ''/p'' ''q'')
      else if u = ''https://c.d/'' then Some (plain_url ''c.d'' ''/'' []) else None)"

lemma referer_example:
  "ns_net_referer_for two_site_parser (Some ''https://c.d/'') (Some ''https://a.b/p?q'')
     NS_REFERER_STRICT_ORIGIN_WHEN_CROSS = Some ''https://a.b/''"
  by (simp add: ns_net_referer_for_def ns_url_same_origin_def ns_url_origin_from_def origin_from.simps
      ns_url_is_http_or_https_def ns_url_parse_with_host_def two_site_parser_def plain_url_def
      cstr_simps ascii_simps)

theorem referer_leaks_at_most_witness:
  "NS_REFERER_STRICT_ORIGIN_WHEN_CROSS \<noteq> NS_REFERER_NO_REFERRER \<and>
   \<not> (g_str_has_prefix (the (Some ''https://a.b/p?q'')) ''https://'' \<and>
      g_str_has_prefix (the (Some ''https://c.d/'')) ''http://'')"
  using referer_leaks_at_most [OF referer_example] by blast

section \<open>User agents\<close>

text \<open>The platform token is the one of the build, a parameter \<open>plat\<close>.\<close>

definition NS_USER_AGENT :: "cstr \<Rightarrow> cstr" where
  "NS_USER_AGENT plat = ''Mozilla/5.0 ('' @ plat @ '') AppleWebKit/537.36 '' @
     ''(KHTML, like Gecko) Chrome/146.0.0.0'' @ '' Safari/537.36 Northstar/1.0''"

definition NS_UA_LADYBIRD :: "cstr \<Rightarrow> cstr" where
  "NS_UA_LADYBIRD plat = ''Mozilla/5.0 ('' @ plat @ '') Ladybird/1.0 '' @
     ''Chrome/146.0.0.0 AppleWebKit/537.36 Safari/537.36''"

definition NS_UA_FIREFOX :: "cstr \<Rightarrow> cstr" where
  "NS_UA_FIREFOX plat = ''Mozilla/5.0 ('' @ plat @ ''; rv:143.0) '' @ ''Gecko/20100101 Firefox/143.0''"

definition ns_user_agent_for_mode :: "cstr \<Rightarrow> cstr option \<Rightarrow> cstr" where
  "ns_user_agent_for_mode plat compat_mode =
     (if nonempty compat_mode \<and> strcaseeq (the compat_mode) ''ladybird'' then NS_UA_LADYBIRD plat
      else if nonempty compat_mode \<and> strcaseeq (the compat_mode) ''firefox'' then NS_UA_FIREFOX plat
      else NS_USER_AGENT plat)"

definition ns_user_agent_has_client_hints :: "cstr option \<Rightarrow> bool" where
  "ns_user_agent_has_client_hints ua =
     (case ua of None \<Rightarrow> False
      | Some s \<Rightarrow> strstr s ''Chrome/'' \<noteq> None \<and> strstr s ''Ladybird/'' = None)"

section \<open>Upgrades to https\<close>

definition ns_net_https_first_upgrade :: "lxb_parser \<Rightarrow> bool \<Rightarrow> cstr option \<Rightarrow> cstr option" where
  "ns_net_https_first_upgrade lxb https_first url =
     (if \<not> https_first then None
      else (case url of None \<Rightarrow> None
        | Some u \<Rightarrow>
            if \<not> g_str_has_prefix u ''http://'' then None
            else (case ns_url_host_from lxb url of None \<Rightarrow> None
                  | Some h \<Rightarrow> if ns_host_is_loopback h then None else Some (''https://'' @ drop 7 u))))"

section \<open>Response and request headers\<close>

text \<open>The scan for the token \<^verbatim>\<open>nosniff\<close>: separators, then a run of other characters.\<close>

definition nosniff_sep :: "char \<Rightarrow> bool" where
  "nosniff_sep c \<longleftrightarrow> c = CHR '' '' \<or> c = CHR 0x09 \<or> c = CHR '',''"

function nosniff_scan :: "cstr \<Rightarrow> bool" where
  "nosniff_scan p =
     (if p = [] then False
      else
        let start = dropWhile nosniff_sep p;
            tok = takeWhile (\<lambda>c. \<not> nosniff_sep c) start
        in if length tok = 7 \<and> strncaseeq start ''nosniff'' 7 then True
           else nosniff_scan (dropWhile (\<lambda>c. \<not> nosniff_sep c) start))"
  by pat_completeness auto
termination
proof (relation "measure length", simp, unfold in_measure)
  fix p :: cstr and start tok
  assume p: "p \<noteq> []" and s: "start = dropWhile nosniff_sep p"
  show "length (dropWhile (\<lambda>c. \<not> nosniff_sep c) start) < length p"
  proof (cases "start = []")
    case True
    with p show ?thesis by simp
  next
    case False
    then have "\<not> nosniff_sep (hd start)" using s by (metis hd_dropWhile)
    then have "length (dropWhile (\<lambda>c. \<not> nosniff_sep c) start) < length start"
      using False by (cases start) (auto simp: le_imp_less_Suc length_dropWhile_le)
    also have "\<dots> \<le> length p" by (simp add: s length_dropWhile_le)
    finally show ?thesis .
  qed
qed

declare nosniff_scan.simps [simp del]

definition ns_net_header_is_nosniff :: "cstr option \<Rightarrow> bool" where
  "ns_net_header_is_nosniff value = (nonempty value \<and> nosniff_scan (the value))"

text \<open>The scan finds the token exactly when it is one of the pieces between separators.\<close>

lemma split_on_dropWhile_sep:
  "(\<exists>t\<in>set (split_on p (dropWhile p s)). t \<noteq> [] \<and> Q t) \<longleftrightarrow> (\<exists>t\<in>set (split_on p s). t \<noteq> [] \<and> Q t)"
  by (induction s) auto

lemma split_on_first:
  "split_on p s = takeWhile (\<lambda>c. \<not> p c) s #
     (case dropWhile (\<lambda>c. \<not> p c) s of [] \<Rightarrow> [] | _ # r \<Rightarrow> split_on p r)"
  by (induction s) (auto split: list.splits)

lemma nosniff_scan_tokens:
  "nosniff_scan p \<longleftrightarrow> (\<exists>t\<in>set (split_on nosniff_sep p). t \<noteq> [] \<and> strcaseeq t ''nosniff'')"
proof (induction p rule: nosniff_scan.induct)
  case (1 p)
  let ?s = "dropWhile nosniff_sep p"
  let ?t = "takeWhile (\<lambda>c. \<not> nosniff_sep c) ?s"
  let ?r = "dropWhile (\<lambda>c. \<not> nosniff_sep c) ?s"
  show ?case
  proof (cases "p = []")
    case True
    then show ?thesis by (simp add: nosniff_scan.simps)
  next
    case False
    have tok: "length ?t = 7 \<and> strncaseeq ?s ''nosniff'' 7 \<longleftrightarrow> strcaseeq ?t ''nosniff''"
    proof -
      have "take (length ?t) ?s = ?t" by (metis takeWhile_eq_take)
      moreover have "strcaseeq ?t ''nosniff'' \<Longrightarrow> length ?t = 7" by (auto dest: strcaseeq_length)
      ultimately show ?thesis by (auto simp: strncaseeq_def)
    qed
    have scan: "nosniff_scan p \<longleftrightarrow> strcaseeq ?t ''nosniff'' \<or> nosniff_scan ?r"
      by (subst nosniff_scan.simps) (simp add: False Let_def tok)
    have sep: "(\<exists>t\<in>set (split_on nosniff_sep ?s). t \<noteq> [] \<and> strcaseeq t ''nosniff'') \<longleftrightarrow>
       strcaseeq ?t ''nosniff'' \<or> (\<exists>t\<in>set (split_on nosniff_sep ?r). t \<noteq> [] \<and> strcaseeq t ''nosniff'')"
      (is "?L \<longleftrightarrow> _ \<or> ?R")
    proof -
      have ne: "(?t \<noteq> [] \<and> strcaseeq ?t ''nosniff'') = strcaseeq ?t ''nosniff''" by (auto simp: strcaseeq_def)
      show ?thesis
      proof (cases ?r)
        case Nil
        then show ?thesis using ne unfolding split_on_first [of nosniff_sep ?s] Nil list.case by simp
      next
        case (Cons c r)
        then have "nosniff_sep c" by (simp add: dropWhile_eq_Cons_conv)
        with Cons have "?R \<longleftrightarrow> (\<exists>t\<in>set (split_on nosniff_sep r). t \<noteq> [] \<and> strcaseeq t ''nosniff'')" by simp
        then show ?thesis using ne unfolding split_on_first [of nosniff_sep ?s] Cons list.case
          using \<open>nosniff_sep c\<close> by simp
      qed
    qed
    show ?thesis
    proof (cases "strcaseeq ?t ''nosniff''")
      case True
      then show ?thesis using scan sep split_on_dropWhile_sep [of nosniff_sep p] by simp
    next
      case no: False
      with tok have "\<not> (length ?t = 7 \<and> strncaseeq ?s ''nosniff'' 7)" by simp
      from "1.IH" [OF False refl refl this] scan sep no split_on_dropWhile_sep [of nosniff_sep p]
      show ?thesis by simp
    qed
  qed
qed


text \<open>
  an \<^verbatim>\<open>X-Content-Type-Options\<close> value switches sniffing off exactly when one of the pieces
  between its blanks, tabs and commas is \<^verbatim>\<open>nosniff\<close>, in any case.
\<close>

theorem nosniff_iff_token:
  "ns_net_header_is_nosniff (Some v) =
   list_ex (\<lambda>t. strcaseeq t ''nosniff'') (g_strsplit_set v [CHR '' '', CHR 0x09, CHR '',''])"
proof -
  have sep: "(\<lambda>c. c \<in> set [CHR '' '', CHR 0x09, CHR '','']) = nosniff_sep"
    by (auto simp: nosniff_sep_def)
  have "strcaseeq t ''nosniff'' \<Longrightarrow> t \<noteq> []" for t by (auto simp: strcaseeq_def)
  then have eq: "(\<exists>t\<in>set (split_on nosniff_sep v). t \<noteq> [] \<and> strcaseeq t ''nosniff'') =
      (\<exists>t\<in>set (split_on nosniff_sep v). strcaseeq t ''nosniff'')" by blast
  show ?thesis
    by (simp add: ns_net_header_is_nosniff_def g_strsplit_set_def nosniff_scan_tokens eq list_ex_iff
        sep [simplified])
qed

end
