(* ===== verification/Requests.thy ===== *)
theory Requests
  imports FetchPolicy Privacy
begin

text \<open>
  How \<^verbatim>\<open>net.c\<close> labels, gates and shares requests: the headers that carry the destination of a
  request and mark a navigation, the keys under which responses are partitioned and coalesced, the
  second policy check on the URL a redirect led to, and the fields of a multipart form.
\<close>

section \<open>Headers of a request\<close>

definition ns_net_accept_headers_for :: "ns_fetch_destination \<Rightarrow> cstr list option" where
  "ns_net_accept_headers_for dest =
     (case dest of
        NS_FETCH_DEST_SCRIPT \<Rightarrow> Some
          [''Accept: text/javascript, application/javascript, application/ecmascript, application/x-javascript, */*;q=0.8'',
           ''X-ND-Fetch-Dest: script'']
      | NS_FETCH_DEST_STYLE \<Rightarrow> Some
          [''Accept: text/css,*/*;q=0.1'', ''X-ND-Fetch-Dest: style'']
      | NS_FETCH_DEST_IMAGE \<Rightarrow> Some
          [''Accept: image/avif,image/webp,image/apng,image/svg+xml,image/*,*/*;q=0.8'',
           ''X-ND-Fetch-Dest: image'']
      | NS_FETCH_DEST_FONT \<Rightarrow> Some
          [''Accept: font/woff2,font/woff,application/font-woff,application/octet-stream;q=0.8,*/*;q=0.5'',
           ''X-ND-Fetch-Dest: font'']
      | _ \<Rightarrow> None)"

text \<open>The destination the value of the internal header names.\<close>

definition dest_of_value :: "cstr \<Rightarrow> cstr option" where
  "dest_of_value h =
     (if strcaseeq h ''script'' then Some ''script''
      else if strcaseeq h ''style'' then Some ''style''
      else if strcaseeq h ''image'' then Some ''image''
      else if strcaseeq h ''font'' then Some ''font'' else None)"

fun ns_net_fetch_destination :: "cstr option list \<Rightarrow> cstr" where
  "ns_net_fetch_destination [] = ''empty''"
| "ns_net_fetch_destination (h # hs) =
     (case h of
        None \<Rightarrow> ns_net_fetch_destination hs
      | Some s \<Rightarrow>
          if \<not> strncaseeq s ''X-ND-Fetch-Dest:'' 16 then ns_net_fetch_destination hs
          else (case dest_of_value (dropWhile (\<lambda>c. c = CHR '' '' \<or> c = CHR 0x09) (drop 16 s)) of
                  Some d \<Rightarrow> d
                | None \<Rightarrow> ns_net_fetch_destination hs))"

definition navigate_header :: "cstr \<Rightarrow> bool" where
  "navigate_header h \<longleftrightarrow> strncaseeq h ''X-ND-Navigate:'' 14"

text \<open>A header array may hold \<^verbatim>\<open>NULL\<close> entries; the array itself may be \<^verbatim>\<open>NULL\<close>, the empty list here.\<close>

definition ns_fetch_is_navigation :: "cstr option \<Rightarrow> cstr option list \<Rightarrow> bool" where
  "ns_fetch_is_navigation top_url extra \<longleftrightarrow>
     top_url = None \<or> list_ex (\<lambda>h. case h of None \<Rightarrow> False | Some s \<Rightarrow> navigate_header s) extra"

definition ns_headers_mark_navigation :: "cstr list \<Rightarrow> bool" where
  "ns_headers_mark_navigation extra = list_ex navigate_header extra"

definition ns_request_is_gated :: "cstr option \<Rightarrow> cstr list \<Rightarrow> ns_fetch_destination \<Rightarrow> bool" where
  "ns_request_is_gated top_url extra dest \<longleftrightarrow>
     top_url \<noteq> None \<and> dest \<noteq> NS_FETCH_DEST_DOCUMENT \<and> \<not> ns_headers_mark_navigation extra"

definition ns_file_access_allowed :: "bool \<Rightarrow> cstr option \<Rightarrow> bool \<Rightarrow> bool" where
  "ns_file_access_allowed allow_file_urls top_url navigation =
     (if \<not> allow_file_urls then False
      else if \<not> nonempty top_url then navigation
      else g_str_has_prefix (the top_url) ''file:'')"

section \<open>Partition and coalescing keys\<close>

text \<open>The part of \<^verbatim>\<open>ns_config\<close> the keys read; the effective \<^verbatim>\<open>Accept-Language\<close> is \<open>al\<close>.\<close>

record ns_config =
  cfg_user_agent :: "cstr option"
  cfg_compat_mode :: "cstr option"

text \<open>The byte between the fields of a key.\<close>

definition unit_sep :: char where
  "unit_sep = CHR 0x1F"

definition effective_user_agent :: "cstr \<Rightarrow> ns_config option \<Rightarrow> cstr" where
  "effective_user_agent plat cfg =
     (case cfg of
        Some c \<Rightarrow> if nonempty (cfg_user_agent c) then the (cfg_user_agent c)
                  else ns_user_agent_for_mode plat (cfg_compat_mode c)
      | None \<Rightarrow> ns_user_agent_for_mode plat None)"

text \<open>The site of the top-level page, its origin where it has no site, nothing where it has neither.\<close>

definition site_partition :: "lxb_parser \<Rightarrow> psl_registrable \<Rightarrow> cstr option \<Rightarrow> cstr option \<Rightarrow> cstr" where
  "site_partition lxb psl url top_url =
     (let effective_top_url = (if top_url \<noteq> None then top_url else url);
          top_origin = ns_url_origin_from lxb effective_top_url;
          top_site = ns_url_site_from lxb psl effective_top_url
      in if nonempty top_site then the top_site else str_or top_origin [])"

definition ns_net_partition_key ::
  "lxb_parser \<Rightarrow> psl_registrable \<Rightarrow> cstr \<Rightarrow> ns_config option \<Rightarrow> cstr \<Rightarrow> cstr option \<Rightarrow> cstr option \<Rightarrow> cstr" where
  "ns_net_partition_key lxb psl plat cfg al url top_url =
     (''top='' @ site_partition lxb psl url top_url) @ unit_sep #
     (''ua='' @ effective_user_agent plat cfg) @ unit_sep # (''al='' @ al)"

definition ns_net_request_key ::
  "lxb_parser \<Rightarrow> psl_registrable \<Rightarrow> cstr \<Rightarrow> ns_config option \<Rightarrow> cstr \<Rightarrow> cstr option \<Rightarrow> cstr option \<Rightarrow>
   cstr option \<Rightarrow> cstr list \<Rightarrow> cstr option" where
  "ns_net_request_key lxb psl plat cfg al url top_url method extra =
     (if \<not> ns_url_is_http_or_https url then None
      else if nonempty method \<and> \<not> strcaseeq (the method) ''GET'' then None
      else Some (''GET'' @ unit_sep # the url @ unit_sep # ns_net_partition_key lxb psl plat cfg al url top_url @
                 concat (map ((#) unit_sep) extra)))"

text \<open>A field that does not hold the separator is one piece of the key.\<close>

definition sep_free :: "cstr \<Rightarrow> bool" where
  "sep_free s = list_all (\<lambda>c. c \<noteq> unit_sep) s"

abbreviation pieces :: "cstr \<Rightarrow> cstr list" where
  "pieces s \<equiv> split_on (\<lambda>c. c = unit_sep) s"

lemma pieces_sep: "pieces (a @ unit_sep # b) = pieces a @ pieces b"
  by (rule split_on_append_sep) simp

lemma pieces_free: "sep_free s \<Longrightarrow> pieces s = [s]"
  by (rule split_on_id) (simp add: sep_free_def list_all_iff)

lemma pieces_extra:
  "list_all sep_free extra \<Longrightarrow> pieces (s @ concat (map ((#) unit_sep) extra)) = pieces s @ extra"
proof (induction extra arbitrary: s)
  case (Cons x xs)
  then show ?case by (simp add: pieces_sep pieces_free)
qed simp

lemma pieces_five:
  "list_all sep_free extra \<Longrightarrow>
   pieces (a @ unit_sep # b @ unit_sep # c @ unit_sep # d @ unit_sep # e @ concat (map ((#) unit_sep) extra)) =
   pieces a @ pieces b @ pieces c @ pieces d @ pieces e @ extra"
  by (simp only: pieces_sep pieces_extra)

lemma request_key_Some:
  "ns_net_request_key lxb psl plat cfg al (Some url) top_url method extra = Some k \<Longrightarrow>
   k = ''GET'' @ unit_sep # url @ unit_sep # (''top='' @ site_partition lxb psl (Some url) top_url) @ unit_sep #
       (''ua='' @ effective_user_agent plat cfg) @ unit_sep # (''al='' @ al) @ concat (map ((#) unit_sep) extra)"
  by (simp only: ns_net_request_key_def ns_net_partition_key_def option.sel option.distinct option.inject
      append.assoc append_Cons split: if_split_asm)

lemma request_key_pieces:
  assumes "ns_net_request_key lxb psl plat cfg al (Some url) top_url method extra = Some k"
    and "sep_free url" "list_all sep_free extra" "sep_free (site_partition lxb psl (Some url) top_url)"
  shows "pieces k = [''GET'', url, ''top='' @ site_partition lxb psl (Some url) top_url] @
           pieces (''ua='' @ effective_user_agent plat cfg) @ pieces (''al='' @ al) @ extra"
proof -
  have "pieces ''GET'' = [''GET'']"
    by (rule pieces_free) (simp add: sep_free_def unit_sep_def)
  moreover have "pieces (''top='' @ site_partition lxb psl (Some url) top_url) =
      [''top='' @ site_partition lxb psl (Some url) top_url]"
    using assms(4) by (intro pieces_free) (simp add: sep_free_def unit_sep_def)
  ultimately show ?thesis
    unfolding request_key_Some [OF assms(1)] pieces_five [OF assms(3)] pieces_free [OF assms(2)]
    by (simp only: append.simps)
qed

text \<open>
  requests are coalesced, and answered from one response, only when they are the same request:
  in one configuration, and when URL, site and headers hold no separator byte, equal keys mean the
  same URL, the same top-level site and the same extra headers, so a response never crosses from
  the partition of one site to another's.
\<close>

theorem coalescing_only_merges_equal:
  assumes "ns_net_request_key lxb psl plat cfg al (Some url) doc m extra = Some k"
    and "ns_net_request_key lxb psl plat cfg al (Some url') doc' m' extra' = Some k"
    and "sep_free url" "list_all sep_free extra" "sep_free (site_partition lxb psl (Some url) doc)"
    and "sep_free url'" "list_all sep_free extra'" "sep_free (site_partition lxb psl (Some url') doc')"
  shows "url = url' \<and> extra = extra' \<and>
    site_partition lxb psl (Some url) doc = site_partition lxb psl (Some url') doc'"
proof -
  note eq = trans [OF sym [OF request_key_pieces [OF assms(1,3-5)]] request_key_pieces [OF assms(2,6-8)]]
  show ?thesis using eq by auto
qed

definition no_parser :: lxb_parser where
  "no_parser u = None"

lemma request_key_example:
  "ns_net_request_key no_parser (\<lambda>h. None) ''X'' None ''en'' (Some ''http://a/'') None m [''A: b''] =
   Some (''GET'' @ unit_sep # ''http://a/'' @ unit_sep # ns_net_partition_key no_parser (\<lambda>h. None) ''X'' None ''en''
      (Some ''http://a/'') None @ concat (map ((#) unit_sep) [''A: b'']))"
  if "m = None \<or> m = Some ''get''"
  using that by (auto simp: ns_net_request_key_def ns_url_is_http_or_https_def cstr_simps ascii_simps)

lemma request_key_example_free:
  "sep_free ''http://a/''" "list_all sep_free [''A: b'']"
  "sep_free (site_partition no_parser (\<lambda>h. None) (Some ''http://a/'') None)"
  by (simp_all add: sep_free_def unit_sep_def site_partition_def ns_url_site_from_def ns_url_parts_new_def
      ns_url_parts_new_depth.simps no_parser_def ns_url_origin_from_def origin_from.simps
      ns_url_parse_with_host_def)

theorem coalescing_only_merges_equal_witness:
  "[''A: b''] = [''A: b'']"
  using coalescing_only_merges_equal
      [OF request_key_example [of None] request_key_example [of "Some ''get''"]
          request_key_example_free request_key_example_free]
  by simp

section \<open>Responses\<close>

text \<open>The fields of \<^verbatim>\<open>ns_response\<close> the modelled code reads or writes.\<close>

record ns_response =
  status :: int
  final_url :: "cstr option"
  content_type :: "cstr option"
  cors_allow_origin :: "cstr option"
  raw_headers :: "cstr option"
  body :: "u8 list"
  error :: "cstr option"
  redirect_count :: int

definition empty_response :: ns_response where
  "empty_response =
     \<lparr> status = 0, final_url = None, content_type = None, cors_allow_origin = None, raw_headers = None,
       body = [], error = None, redirect_count = 0 \<rparr>"

definition ns_fetch_refuse ::
  "ns_response \<Rightarrow> ns_fetch_verdict \<Rightarrow> ns_fetch_destination \<Rightarrow> cstr option \<Rightarrow> ns_response" where
  "ns_fetch_refuse resp verdict dest url =
     resp\<lparr> error := ns_fetch_verdict_message verdict dest url, status := 0, body := [] \<rparr>"

definition ns_fetch_refused ::
  "ns_fetch_verdict \<Rightarrow> ns_fetch_destination \<Rightarrow> cstr option \<Rightarrow> ns_response" where
  "ns_fetch_refused verdict dest url =
     ns_fetch_refuse (empty_response\<lparr> final_url := url \<rparr>) verdict dest url"

definition ns_fetch_gate_final_url ::
  "lxb_parser \<Rightarrow> bool \<Rightarrow> ns_response option \<Rightarrow> cstr option \<Rightarrow> cstr option \<Rightarrow> ns_fetch_destination \<Rightarrow>
   ns_fetch_policy option \<Rightarrow> ns_response option" where
  "ns_fetch_gate_final_url lxb file_ok resp url top_url dest policy =
     (case resp of
        None \<Rightarrow> None
      | Some r \<Rightarrow>
          if error r \<noteq> None \<or> final_url r = None \<or> url = None \<or> final_url r = url then Some r
          else
            let v = fst (ns_fetch_policy_check lxb file_ok policy dest top_url (final_url r));
                verdict = (if v = NS_FETCH_UPGRADED then NS_FETCH_BLOCKED_MIXED else v)
            in if ns_fetch_verdict_blocks verdict
               then Some (ns_fetch_refuse r verdict dest (final_url r)) else Some r)"

lemma blocked_has_message: "ns_fetch_verdict_blocks v \<Longrightarrow> ns_fetch_verdict_message v dest url \<noteq> None"
  by (cases v) (auto simp: ns_fetch_verdict_blocks_def ns_fetch_verdict_message_def Let_def)

lemma refuse_simps [simp]:
  "body (ns_fetch_refuse r v dest url) = []" "status (ns_fetch_refuse r v dest url) = 0"
  "error (ns_fetch_refuse r v dest url) = ns_fetch_verdict_message v dest url"
  "final_url (ns_fetch_refuse r v dest url) = final_url r"
  by (simp_all add: ns_fetch_refuse_def)

text \<open>What survives the gate without an error was allowed as it is, not merely upgradable.\<close>

lemma gate_final_url_allowed:
  assumes "ns_fetch_gate_final_url lxb file_ok (Some r) (Some u) doc dest policy = Some r'"
    and "error r' = None" "final_url r \<noteq> None" "final_url r \<noteq> Some u"
  shows "r' = r \<and> fst (ns_fetch_policy_check lxb file_ok policy dest doc (final_url r)) = NS_FETCH_ALLOWED"
  using assms
  by (cases "fst (ns_fetch_policy_check lxb file_ok policy dest doc (final_url r))")
    (auto simp: ns_fetch_gate_final_url_def ns_fetch_verdict_blocks_def ns_fetch_verdict_message_def Let_def
      split: if_splits)

section \<open>Multipart fields\<close>

definition quote_field_char :: "char \<Rightarrow> cstr" where
  "quote_field_char c =
     (if c = CHR 0x22 then ''%22'' else if c = CHR 0x0D then ''%0D''
      else if c = CHR 0x0A then ''%0A'' else [c])"

definition ns_multipart_quote_field :: "cstr \<Rightarrow> cstr option \<Rightarrow> cstr" where
  "ns_multipart_quote_field out s = (case s of None \<Rightarrow> out | Some t \<Rightarrow> out @ concat (map quote_field_char t))"

lemma quote_field_safe:
  "CHR 0x22 \<notin> set (concat (map quote_field_char t))" "CHR 0x0D \<notin> set (concat (map quote_field_char t))"
  "CHR 0x0A \<notin> set (concat (map quote_field_char t))"
  by (induction t) (simp_all add: quote_field_char_def)

lemma quote_field_same:
  "CHR 0x22 \<notin> set t \<Longrightarrow> CHR 0x0D \<notin> set t \<Longrightarrow> CHR 0x0A \<notin> set t \<Longrightarrow> concat (map quote_field_char t) = t"
  by (induction t) (simp_all add: quote_field_char_def eq_commute)

text \<open>
  a field name or file name put between quotes in a multipart header can neither end the quoted
  string nor break the header line, and exactly the names that need no escape are copied as they are.
\<close>

theorem multipart_quote_safe:
  "CHR 0x22 \<notin> set (ns_multipart_quote_field [] (Some t)) \<and> CHR 0x0D \<notin> set (ns_multipart_quote_field [] (Some t)) \<and>
   CHR 0x0A \<notin> set (ns_multipart_quote_field [] (Some t)) \<and>
   (ns_multipart_quote_field [] (Some t) = t \<longleftrightarrow>
      CHR 0x22 \<notin> set t \<and> CHR 0x0D \<notin> set t \<and> CHR 0x0A \<notin> set t)"
proof -
  have q: "ns_multipart_quote_field [] (Some t) = concat (map quote_field_char t)"
    by (simp add: ns_multipart_quote_field_def)
  show ?thesis unfolding q using quote_field_safe [of t] quote_field_same [of t] by metis
qed

end
