(* ===== verification/Cors.thy ===== *)
theory Cors
  imports Requests
begin

text \<open>
  CORS in \<^verbatim>\<open>net.c\<close>: which methods and headers a cross-origin request may use without asking, the
  preflight request that asks for the others, and how its answer is read.  The transfer of one
  request over the network (\<^verbatim>\<open>ns_fetch_sync_hop\<close>, libcurl and the cache behind it) is a parameter:
  a function \<open>hop\<close> from a state of its own type and a request to the next state, a response that
  may be missing and the \<^verbatim>\<open>Location\<close> of a redirect.
\<close>

section \<open>One hop\<close>

record hop_request =
  rq_url :: cstr
  rq_top :: "cstr option"
  rq_method :: cstr
  rq_body :: "u8 list option"
  rq_content_type :: "cstr option"
  rq_headers :: "cstr option list"
  rq_navigation :: u32

type_synonym 'net hop = "'net \<Rightarrow> hop_request \<Rightarrow> 'net \<times> ns_response option \<times> cstr option"

section \<open>Safelists\<close>

definition ns_cors_method_is_simple :: "cstr option \<Rightarrow> bool" where
  "ns_cors_method_is_simple method \<longleftrightarrow>
     \<not> nonempty method \<or> strcaseeq (the method) ''GET'' \<or> strcaseeq (the method) ''HEAD'' \<or>
     strcaseeq (the method) ''POST''"

definition skip_blank :: "cstr \<Rightarrow> cstr" where
  "skip_blank s = dropWhile (\<lambda>c. c = CHR '' '' \<or> c = CHR 0x09) s"

definition ns_cors_content_type_is_simple :: "cstr option \<Rightarrow> bool" where
  "ns_cors_content_type_is_simple value =
     (case value of None \<Rightarrow> True
      | Some s \<Rightarrow>
          let v = skip_blank s;
              n = strcspn v [CHR '';'', CHR '' '', CHR 0x09]
          in n = 33 \<and> strncaseeq v ''application/x-www-form-urlencoded'' n \<or>
             n = 19 \<and> strncaseeq v ''multipart/form-data'' n \<or>
             n = 10 \<and> strncaseeq v ''text/plain'' n)"

definition header_is_safe :: "cstr \<Rightarrow> cstr \<Rightarrow> bool" where
  "header_is_safe name value \<longleftrightarrow>
     g_str_has_prefix name ''x-nd-'' \<or> name = ''accept'' \<or> name = ''accept-language'' \<or>
     name = ''content-language'' \<or>
     name = ''content-type'' \<and> ns_cors_content_type_is_simple (Some value)"

definition ns_cors_unsafe_header_name :: "cstr option \<Rightarrow> cstr option" where
  "ns_cors_unsafe_header_name line =
     (case line of None \<Rightarrow> None
      | Some s \<Rightarrow>
          (case strchr s (CHR '':'') of
             None \<Rightarrow> None
           | Some colon \<Rightarrow>
               if length colon = length s then None
               else
                 let name = g_strstrip (g_ascii_strdown (take (length s - length colon) s))
                 in if header_is_safe name (tl colon) then None else Some name))"

section \<open>Reading the answer\<close>

text \<open>The loop over the lines of the raw headers, with the values joined so far.\<close>

fun raw_header_lines :: "cstr list \<Rightarrow> cstr \<Rightarrow> cstr option \<Rightarrow> cstr option" where
  "raw_header_lines [] name out = out"
| "raw_header_lines (line # rest) name out =
     (let nlen = length name in
      if length line > nlen \<and> line ! nlen = CHR '':'' \<and> strncaseeq line name nlen
      then raw_header_lines rest name
             (Some ((case out of None \<Rightarrow> [] | Some o' \<Rightarrow> o' @ '','') @ drop (nlen + 1) line))
      else raw_header_lines rest name out)"

definition ns_cors_raw_header :: "cstr option \<Rightarrow> cstr \<Rightarrow> cstr option" where
  "ns_cors_raw_header raw name =
     (case raw of None \<Rightarrow> None | Some r \<Rightarrow> raw_header_lines (g_strsplit r (CHR 0x0A)) name None)"

definition ns_cors_list_allows :: "cstr option \<Rightarrow> cstr \<Rightarrow> bool \<Rightarrow> bool" where
  "ns_cors_list_allows list token wildcard_ok =
     (case list of None \<Rightarrow> False
      | Some l \<Rightarrow> list_ex (\<lambda>it. wildcard_ok \<and> g_strstrip it = ''*'' \<or> strcaseeq (g_strstrip it) token)
                  (g_strsplit l (CHR '','')))"

fun ns_fetch_credentials_of :: "cstr option list \<Rightarrow> cstr option" where
  "ns_fetch_credentials_of [] = None"
| "ns_fetch_credentials_of (h # hs) =
     (case h of
        None \<Rightarrow> ns_fetch_credentials_of hs
      | Some s \<Rightarrow>
          if strncaseeq s ''X-ND-Credentials:'' 17
          then Some (dropWhile (\<lambda>c. c = CHR '' '') (drop 17 s))
          else ns_fetch_credentials_of hs)"

definition ns_cors_credentials_allowed :: "cstr option \<Rightarrow> bool" where
  "ns_cors_credentials_allowed raw =
     (case ns_cors_raw_header raw ''access-control-allow-credentials'' of
        None \<Rightarrow> False | Some v \<Rightarrow> g_strstrip v = ''true'')"

section \<open>The preflight\<close>

definition unsafe_headers :: "cstr option \<Rightarrow> cstr option list \<Rightarrow> cstr list" where
  "unsafe_headers ct extra =
     List.map_filter ns_cors_unsafe_header_name extra @
     (if ct \<noteq> None \<and> \<not> ns_cors_content_type_is_simple ct then [''content-type''] else [])"

text \<open>A cross-origin script request, by the guard of the function.\<close>

definition cors_applies ::
  "lxb_parser \<Rightarrow> cstr option \<Rightarrow> cstr option \<Rightarrow> ns_fetch_destination \<Rightarrow> bool" where
  "cors_applies lxb url top_url dest \<longleftrightarrow>
     dest = NS_FETCH_DEST_CONNECT \<and> top_url \<noteq> None \<and> url \<noteq> None \<and> ns_url_is_http_or_https url \<and>
     \<not> ns_url_same_origin lxb top_url url"

fun join_comma :: "cstr list \<Rightarrow> cstr" where
  "join_comma [] = []"
| "join_comma [t] = t"
| "join_comma (t # ts) = t @ CHR '','' # join_comma ts"

definition preflight_request :: "cstr \<Rightarrow> cstr option \<Rightarrow> cstr option \<Rightarrow> cstr list \<Rightarrow> hop_request" where
  "preflight_request url top_url method unsafe =
     \<lparr> rq_url = url, rq_top = top_url, rq_method = ''OPTIONS'', rq_body = None, rq_content_type = None,
       rq_headers = Some (''Access-Control-Request-Method: '' @ str_or method ''GET'') #
         (if unsafe \<noteq> [] then [Some (''Access-Control-Request-Headers: '' @ join_comma unsafe)] else []),
       rq_navigation = 0 \<rparr>"

definition origin_granted :: "lxb_parser \<Rightarrow> cstr option \<Rightarrow> bool \<Rightarrow> ns_response \<Rightarrow> bool" where
  "origin_granted lxb top_url credentialed pre =
     (case cors_allow_origin pre of
        None \<Rightarrow> False
      | Some a \<Rightarrow>
          let allow = g_strstrip a in
          (\<not> credentialed \<and> allow = ''*'' \<or>
           (case ns_url_origin_from lxb top_url of None \<Rightarrow> False | Some ori \<Rightarrow> strcaseeq allow ori)) \<and>
          (credentialed \<longrightarrow> ns_cors_credentials_allowed (raw_headers pre)))"

definition preflight_ok ::
  "lxb_parser \<Rightarrow> cstr option \<Rightarrow> bool \<Rightarrow> cstr option \<Rightarrow> cstr list \<Rightarrow> ns_response option \<Rightarrow> bool" where
  "preflight_ok lxb top_url credentialed method unsafe pre =
     (case pre of
        None \<Rightarrow> False
      | Some p \<Rightarrow>
          error p = None \<and> status p \<ge> 200 \<and> status p < 300 \<and>
          origin_granted lxb top_url credentialed p \<and>
          (ns_cors_method_is_simple method \<or>
           ns_cors_list_allows (ns_cors_raw_header (raw_headers p) ''access-control-allow-methods'')
             (the method) (\<not> credentialed)) \<and>
          list_all (\<lambda>h. ns_cors_list_allows
                     (ns_cors_raw_header (raw_headers p) ''access-control-allow-headers'') h
                     (\<not> credentialed \<and> h \<noteq> ''authorization'')) unsafe)"

definition preflight_refusal :: "cstr option \<Rightarrow> ns_response" where
  "preflight_refusal url =
     empty_response\<lparr> final_url := url, error := Some ''CORS preflight did not succeed'' \<rparr>"

definition ns_cors_preflight ::
  "lxb_parser \<Rightarrow> 'net hop \<Rightarrow> 'net \<Rightarrow> cstr option \<Rightarrow> cstr option \<Rightarrow> cstr option \<Rightarrow> cstr option \<Rightarrow>
   cstr option list \<Rightarrow> ns_fetch_destination \<Rightarrow> 'net \<times> ns_response option" where
  "ns_cors_preflight lxb hop net url top_url method ct extra dest =
     (let credentialed = (ns_fetch_credentials_of extra = Some ''include'') in
      if \<not> cors_applies lxb url top_url dest then (net, None)
      else
        let unsafe = unsafe_headers ct extra in
        if ns_cors_method_is_simple method \<and> unsafe = [] then (net, None)
        else
          (case hop net (preflight_request (the url) top_url method unsafe) of
             (net', pre, _) \<Rightarrow>
               (net', if preflight_ok lxb top_url credentialed method unsafe pre then None
                      else Some (preflight_refusal url))))"

section \<open>What an allowed request was granted\<close>

text \<open>A request that needs no permission is not announced to the server.\<close>

lemma preflight_not_needed:
  assumes "\<not> cors_applies lxb url top_url dest \<or>
           ns_cors_method_is_simple method \<and> unsafe_headers ct extra = []"
  shows "ns_cors_preflight lxb hop net url top_url method ct extra dest = (net, None)"
  using assms by (auto simp: ns_cors_preflight_def Let_def)

text \<open>A name is listed by a header of the answer: one of the comma-separated pieces is that name.\<close>

definition listed :: "ns_response \<Rightarrow> cstr \<Rightarrow> cstr \<Rightarrow> bool" where
  "listed pre header name =
     (case ns_cors_raw_header (raw_headers pre) header of
        None \<Rightarrow> False
      | Some l \<Rightarrow> list_ex (\<lambda>t. strcaseeq (g_strstrip t) name) (g_strsplit l (CHR '','')))"

lemma list_allows_exact:
  "ns_cors_list_allows (ns_cors_raw_header (raw_headers pre) header) name False = listed pre header name"
  by (simp add: ns_cors_list_allows_def listed_def split: option.splits)

lemma preflight_allowed:
  assumes "ns_cors_preflight lxb hop net (Some url) top_url method ct extra dest = (net', None)"
    and "cors_applies lxb (Some url) top_url dest"
    and "\<not> (ns_cors_method_is_simple method \<and> unsafe_headers ct extra = [])"
  obtains pre loc where
    "hop net (preflight_request url top_url method (unsafe_headers ct extra)) = (net', Some pre, loc)"
    "preflight_ok lxb top_url (ns_fetch_credentials_of extra = Some ''include'') method (unsafe_headers ct extra) (Some pre)"
proof -
  obtain net2 pre loc where h: "hop net (preflight_request url top_url method (unsafe_headers ct extra)) = (net2, pre, loc)"
    by (cases "hop net (preflight_request url top_url method (unsafe_headers ct extra))") auto
  with assms have ok: "net2 = net'" "preflight_ok lxb top_url (ns_fetch_credentials_of extra = Some ''include'') method
      (unsafe_headers ct extra) pre"
    by (auto simp: ns_cors_preflight_def Let_def split: if_splits)
  then obtain p where "pre = Some p" by (auto simp: preflight_ok_def split: option.splits)
  with h ok that show thesis by blast
qed

text \<open>
  C37: a credentialed cross-origin script request that is not a simple one is sent only after the
  server answered a preflight naming its method and headers with success, allowed exactly the origin
  of the document (\<^verbatim>\<open>*\<close> does not do), consented to credentials, and listed by name the method, when it
  is not safelisted, and every header that is not safelisted.
\<close>

theorem credentialed_preflight_exact:
  assumes "ns_cors_preflight lxb hop net (Some url) top_url method ct extra dest = (net', None)"
    and "cors_applies lxb (Some url) top_url dest"
    and "\<not> (ns_cors_method_is_simple method \<and> unsafe_headers ct extra = [])"
    and "ns_fetch_credentials_of extra = Some ''include''"
  shows "\<exists>pre loc ori allow.
     hop net (preflight_request url top_url method (unsafe_headers ct extra)) = (net', Some pre, loc) \<and>
     error pre = None \<and> 200 \<le> status pre \<and> status pre < 300 \<and>
     ns_url_origin_from lxb top_url = Some ori \<and> cors_allow_origin pre = Some allow \<and>
     strcaseeq (g_strstrip allow) ori \<and>
     ns_cors_credentials_allowed (raw_headers pre) \<and>
     (ns_cors_method_is_simple method \<or> listed pre ''access-control-allow-methods'' (the method)) \<and>
     list_all (listed pre ''access-control-allow-headers'') (unsafe_headers ct extra)"
proof -
  obtain pre loc where p: "hop net (preflight_request url top_url method (unsafe_headers ct extra)) = (net', Some pre, loc)"
    "preflight_ok lxb top_url True method (unsafe_headers ct extra) (Some pre)"
    using preflight_allowed [OF assms(1-3)] assms(4) by auto
  from p(2) have "origin_granted lxb top_url True pre" by (simp add: preflight_ok_def)
  then obtain ori allow where "ns_url_origin_from lxb top_url = Some ori" "cors_allow_origin pre = Some allow"
    "strcaseeq (g_strstrip allow) ori" "ns_cors_credentials_allowed (raw_headers pre)"
    by (auto simp: origin_granted_def Let_def split: option.splits)
  with p show ?thesis by (auto simp: preflight_ok_def list_allows_exact)
qed

text \<open>
  an answer of \<^verbatim>\<open>*\<close> never lets \<^verbatim>\<open>Authorization\<close> through: with or without credentials, a
  cross-origin script request that carries the header is sent only when the preflight's answer
  lists it by name.
\<close>

theorem authorization_needs_listing:
  assumes "ns_cors_preflight lxb hop net (Some url) top_url method ct extra dest = (net', None)"
    and "cors_applies lxb (Some url) top_url dest"
    and "''authorization'' \<in> set (unsafe_headers ct extra)"
  shows "\<exists>pre loc.
     hop net (preflight_request url top_url method (unsafe_headers ct extra)) = (net', Some pre, loc) \<and>
     listed pre ''access-control-allow-headers'' ''authorization''"
proof -
  have "\<not> (ns_cors_method_is_simple method \<and> unsafe_headers ct extra = [])" using assms(3) by auto
  then obtain pre loc where p: "hop net (preflight_request url top_url method (unsafe_headers ct extra)) = (net', Some pre, loc)"
    "preflight_ok lxb top_url (ns_fetch_credentials_of extra = Some ''include'') method (unsafe_headers ct extra) (Some pre)"
    using preflight_allowed [OF assms(1,2)] by blast
  from p(2) assms(3) have "listed pre ''access-control-allow-headers'' ''authorization''"
    by (auto simp: preflight_ok_def list_all_iff list_allows_exact)
  with p show ?thesis by blast
qed

text \<open>The parser and server of the witnesses.\<close>

definition app_parser :: lxb_parser where
  "app_parser u =
     (if u = ''https://a.b/'' then Some (plain_url ''a.b'' ''/'' [])
      else if u = ''https://c.d/'' then Some (plain_url ''c.d'' ''/'' []) else None)"

definition granting_server :: "unit hop" where
  "granting_server net rq = ((), Some (empty_response
     \<lparr> status := 204, cors_allow_origin := Some '' https://A.b'',
       raw_headers := Some (''access-control-allow-credentials: true'' @ [CHR 0x0A] @
                            ''Access-Control-Allow-Headers: x-y, Authorization'') \<rparr>), None)"

definition script_headers :: "cstr option list" where
  "script_headers = [Some ''X-ND-Credentials: include'', Some ''Authorization: t'', Some ''Accept: q'']"

lemma script_unsafe: "unsafe_headers None script_headers = [''authorization'']"
  by (simp add: unsafe_headers_def script_headers_def List.map_filter_def ns_cors_unsafe_header_name_def
      header_is_safe_def g_strstrip_def g_strchug_def g_strchomp_def Let_def cstr_simps ascii_simps)

lemma script_credentials: "ns_fetch_credentials_of script_headers = Some ''include''"
  by (simp add: script_headers_def cstr_simps ascii_simps)

lemma app_applies: "cors_applies app_parser (Some ''https://c.d/'') (Some ''https://a.b/'') NS_FETCH_DEST_CONNECT"
  by (simp add: cors_applies_def ns_url_same_origin_def ns_url_origin_from_def origin_from.simps
      ns_url_is_http_or_https_def ns_url_parse_with_host_def app_parser_def plain_url_def
      cstr_simps ascii_simps)

lemma app_origin: "ns_url_origin_from app_parser (Some ''https://a.b/'') = Some ''https://a.b''"
  by (simp add: ns_url_origin_from_def origin_from.simps
      ns_url_is_http_or_https_def ns_url_parse_with_host_def app_parser_def plain_url_def
      cstr_simps ascii_simps)

lemma app_preflight:
  "ns_cors_preflight app_parser granting_server () (Some ''https://c.d/'') (Some ''https://a.b/'') (Some ''GET'')
     None script_headers NS_FETCH_DEST_CONNECT = ((), None)"
proof -
  have 1: "ns_cors_raw_header (Some (''access-control-allow-credentials: true'' @ [CHR 0x0A] @
             ''Access-Control-Allow-Headers: x-y, Authorization'')) ''access-control-allow-credentials'' = Some '' true''"
    by (simp add: ns_cors_raw_header_def g_strsplit_def cstr_simps ascii_simps)
  have 2: "ns_cors_raw_header (Some (''access-control-allow-credentials: true'' @ [CHR 0x0A] @
             ''Access-Control-Allow-Headers: x-y, Authorization'')) ''access-control-allow-headers'' = Some '' x-y, Authorization''"
    by (simp add: ns_cors_raw_header_def g_strsplit_def cstr_simps ascii_simps)
  show ?thesis
    unfolding ns_cors_preflight_def Let_def script_unsafe script_credentials granting_server_def
      preflight_ok_def origin_granted_def ns_cors_credentials_allowed_def app_origin
    using app_applies 1 2
    by (simp add: empty_response_def ns_cors_method_is_simple_def ns_cors_list_allows_def g_strsplit_def
        g_strstrip_def g_strchug_def g_strchomp_def cstr_simps ascii_simps)
qed

theorem credentialed_preflight_exact_witness:
  "\<exists>pre loc ori allow.
     granting_server () (preflight_request ''https://c.d/'' (Some ''https://a.b/'') (Some ''GET'')
       (unsafe_headers None script_headers)) = ((), Some pre, loc) \<and>
     ns_url_origin_from app_parser (Some ''https://a.b/'') = Some ori \<and> cors_allow_origin pre = Some allow \<and>
     strcaseeq (g_strstrip allow) ori"
  using credentialed_preflight_exact [OF app_preflight app_applies _ script_credentials]
  by (simp only: script_unsafe list.distinct simp_thms) blast

theorem authorization_needs_listing_witness:
  "\<exists>pre loc.
     granting_server () (preflight_request ''https://c.d/'' (Some ''https://a.b/'') (Some ''GET'')
       (unsafe_headers None script_headers)) = ((), Some pre, loc) \<and>
     listed pre ''access-control-allow-headers'' ''authorization''"
  by (rule authorization_needs_listing [OF app_preflight app_applies]) (simp add: script_unsafe)

end
