(* ===== verification/FetchSync.thy ===== *)
theory FetchSync
  imports Cors
begin

text \<open>
  \<^verbatim>\<open>ns_fetch_sync\<close> of \<^verbatim>\<open>net.c\<close>: a fetch with its redirects followed by hand, every hop checked
  by the extensions, the redirect limit, the scheme rules, Safe Browsing, the fetch policy and the
  CORS preflight, and carrying cookies as its credentials mode allows.  The loop is a recursion on
  the redirects that are left.  The network below is the parameter \<open>hop\<close> of \<open>Cors\<close>; resolving a
  \<^verbatim>\<open>Location\<close> is lexbor's work; the block lists of extensions and Safe Browsing and the process-wide
  settings are fields of the environment.
\<close>

section \<open>The environment of a fetch\<close>

definition NS_MAX_REDIRECTS :: int where
  "NS_MAX_REDIRECTS = 10"

definition NS_NAV_TOP_LEVEL :: u32 where
  "NS_NAV_TOP_LEVEL = 1"

definition top_level :: "u32 \<Rightarrow> bool" where
  "top_level navigation \<longleftrightarrow> and navigation NS_NAV_TOP_LEVEL \<noteq> 0"

record 'net fetch_env =
  env_lxb :: lxb_parser
  env_psl :: psl_registrable
  env_resolve :: "cstr \<Rightarrow> cstr \<Rightarrow> cstr option"             \<comment> \<open>\<open>ns_url_resolve(base, location)\<close>\<close>
  env_ext_resource :: "cstr \<Rightarrow> ns_response option"         \<comment> \<open>\<open>ns_ext_resource_load\<close>\<close>
  env_ext_block :: "cstr \<Rightarrow> cstr option \<Rightarrow> bool"            \<comment> \<open>\<open>ns_ext_should_block\<close>\<close>
  env_sb_blocked :: "cstr \<Rightarrow> bool"                          \<comment> \<open>\<open>ns_safebrowsing_blocked\<close>\<close>
  env_file_ok :: bool
  env_max_redirects :: "int option"                         \<comment> \<open>\<open>cfg->max_redirects\<close>, None without a configuration\<close>
  env_cancelled :: "'net \<Rightarrow> bool"
  env_hop :: "'net hop"

text \<open>What stays fixed during a fetch, and what a hop changes.\<close>

record fetch_request =
  fr_top :: "cstr option"
  fr_headers :: "cstr option list"
  fr_dest :: ns_fetch_destination
  fr_policy :: "ns_fetch_policy option"
  fr_navigation :: u32
  fr_subresource :: bool
  fr_started_https :: bool

record hop_state =
  cur_url :: cstr
  cur_top :: "cstr option"
  cur_method :: cstr
  cur_body :: "u8 list option"
  cur_ct :: "cstr option"

text \<open>The end of the loop: the response, the redirects followed and the URL of the last hop.\<close>

type_synonym fetch_end = "ns_response option \<times> int \<times> cstr"

definition clamp_redirects :: "int option \<Rightarrow> int" where
  "clamp_redirects cfg =
     (let m = (case cfg of None \<Rightarrow> NS_MAX_REDIRECTS | Some n \<Rightarrow> n);
          m1 = (if m < 0 then 0 else m)
      in if m1 > NS_MAX_REDIRECTS then NS_MAX_REDIRECTS else m1)"

definition is_redirect :: "ns_response \<Rightarrow> bool" where
  "is_redirect r \<longleftrightarrow> status r = 301 \<or> status r = 302 \<or> status r = 303 \<or> status r = 307 \<or> status r = 308"

definition omit_cookies :: "'net fetch_env \<Rightarrow> fetch_request \<Rightarrow> cstr \<Rightarrow> bool" where
  "omit_cookies env rq url =
     (case ns_fetch_credentials_of (fr_headers rq) of
        None \<Rightarrow> False
      | Some mode \<Rightarrow> mode = ''omit'' \<or>
          mode \<noteq> ''include'' \<and> \<not> ns_url_same_origin (env_lxb env) (Some url) (fr_top rq))"

definition hop_request_of :: "'net fetch_env \<Rightarrow> fetch_request \<Rightarrow> hop_state \<Rightarrow> hop_request" where
  "hop_request_of env rq st =
     \<lparr> rq_url = cur_url st, rq_top = cur_top st, rq_method = cur_method st, rq_body = cur_body st,
       rq_content_type = cur_ct st,
       rq_headers = fr_headers rq @
         (if omit_cookies env rq (cur_url st) then [Some ''X-ND-Omit-Cookies: 1''] else []),
       rq_navigation = fr_navigation rq \<rparr>"

section \<open>The gates a redirect passes\<close>

datatype redirect_verdict =
    Redirect_Stopped ns_response
  | Redirect_To cstr

definition with_error :: "ns_response \<Rightarrow> cstr \<Rightarrow> ns_response" where
  "with_error r msg = r\<lparr> error := Some msg \<rparr>"

text \<open>Scheme rules, then Safe Browsing for navigations, then the fetch policy, in the code's order.\<close>

definition gate_redirect :: "'net fetch_env \<Rightarrow> fetch_request \<Rightarrow> ns_response \<Rightarrow> cstr \<Rightarrow> redirect_verdict" where
  "gate_redirect env rq resp next_url =
     (if \<not> ns_url_is_http_or_https (Some next_url) \<or>
         fr_started_https rq \<and> \<not> g_str_has_prefix next_url ''https://''
      then Redirect_Stopped (with_error resp ''redirect to a disallowed URL blocked'')
      else if top_level (fr_navigation rq) \<and>
              (case ns_url_host_from (env_lxb env) (Some next_url) of None \<Rightarrow> False
               | Some h \<Rightarrow> env_sb_blocked env h)
      then Redirect_Stopped ((with_error resp ''redirect to a blocked site stopped'')\<lparr> final_url := Some next_url \<rparr>)
      else if ns_request_is_gated (fr_top rq) [] (fr_dest rq) then
        (case ns_fetch_policy_check (env_lxb env) (env_file_ok env) (fr_policy rq) (fr_dest rq) (fr_top rq)
                (Some next_url) of
           (verdict, upgraded) \<Rightarrow>
             if ns_fetch_verdict_blocks verdict
             then Redirect_Stopped (ns_fetch_refuse resp verdict (fr_dest rq) (Some next_url))
             else Redirect_To (case upgraded of None \<Rightarrow> next_url | Some u \<Rightarrow> u))
      else Redirect_To next_url)"

text \<open>A redirect that changes the method drops body and content type.\<close>

definition redirect_method :: "ns_response \<Rightarrow> hop_state \<Rightarrow> hop_state" where
  "redirect_method resp st =
     (if status resp = 303 \<or>
         (status resp = 301 \<or> status resp = 302) \<and> \<not> strcaseeq (cur_method st) ''GET''
      then st\<lparr> cur_method := ''GET'', cur_body := None, cur_ct := None \<rparr> else st)"

definition redirect_top :: "'net fetch_env \<Rightarrow> fetch_request \<Rightarrow> hop_state \<Rightarrow> cstr option" where
  "redirect_top env rq st =
     (if top_level (fr_navigation rq) then
        (if cur_top st \<noteq> None \<and>
            \<not> ns_url_is_same_site (env_lxb env) (env_psl env) (cur_top st) (Some (cur_url st))
         then Some (cur_url st) else cur_top st)
      else if \<not> fr_subresource rq then None
      else cur_top st)"

section \<open>The loop\<close>

definition blocked_by_extension :: "cstr \<Rightarrow> ns_response" where
  "blocked_by_extension url = empty_response\<lparr> final_url := Some url, error := Some ''blocked by extension'' \<rparr>"

text \<open>\<open>left\<close> is \<open>max_redirs - hops\<close>.\<close>

fun redirect_loop ::
  "'net fetch_env \<Rightarrow> fetch_request \<Rightarrow> nat \<Rightarrow> int \<Rightarrow> hop_state \<Rightarrow> 'net \<Rightarrow> 'net \<times> fetch_end" where
  "redirect_loop env rq left hops st net =
     (if fr_subresource rq \<and> env_ext_block env (cur_url st) (cur_top st)
      then (net, Some (blocked_by_extension (cur_url st)), hops, cur_url st)
      else
        (case env_hop env net (hop_request_of env rq st) of
           (net1, None, _) \<Rightarrow> (net1, None, hops, cur_url st)
         | (net1, Some resp, location) \<Rightarrow>
             if \<not> is_redirect resp \<or> error resp \<noteq> None \<or> \<not> nonempty location
             then (net1, Some resp, hops, cur_url st)
             else
               (case left of
                  0 \<Rightarrow> (net1, Some (with_error resp ''too many redirects''), hops, cur_url st)
                | Suc left' \<Rightarrow>
                    (case env_resolve env (case final_url resp of None \<Rightarrow> cur_url st | Some u \<Rightarrow> u) (the location) of
                       None \<Rightarrow> (net1, Some resp, hops, cur_url st)
                     | Some next_url \<Rightarrow>
                         (case gate_redirect env rq resp next_url of
                            Redirect_Stopped resp' \<Rightarrow> (net1, Some resp', hops, cur_url st)
                          | Redirect_To target \<Rightarrow>
                              let st1 = redirect_method resp st in
                              (case (if ns_url_same_origin (env_lxb env) (Some (cur_url st)) (Some target)
                                     then (net1, None)
                                     else ns_cors_preflight (env_lxb env) (env_hop env) net1 (Some target) (fr_top rq)
                                            (Some (cur_method st1)) (cur_ct st1) (fr_headers rq) (fr_dest rq)) of
                                 (net2, Some refusal) \<Rightarrow> (net2, Some refusal, hops, cur_url st)
                               | (net2, None) \<Rightarrow>
                                   let st2 = st1\<lparr> cur_url := target, cur_top := redirect_top env rq st \<rparr> in
                                   if env_cancelled env net2 then (net2, None, hops + 1, target)
                                   else redirect_loop env rq left' (hops + 1) st2 net2))))))"

declare redirect_loop.simps [simp del]

section \<open>The fetch\<close>

text \<open>A credentialed response is readable across origins only with explicit consent.\<close>

definition readable_response :: "'net fetch_env \<Rightarrow> fetch_request \<Rightarrow> cstr \<Rightarrow> ns_response \<Rightarrow> ns_response" where
  "readable_response env rq last_url resp =
     (if cors_allow_origin resp \<noteq> None \<and> ns_fetch_credentials_of (fr_headers rq) = Some ''include'' \<and>
         \<not> ns_url_same_origin (env_lxb env)
             (Some (case final_url resp of None \<Rightarrow> last_url | Some u \<Rightarrow> u)) (fr_top rq) \<and>
         \<not> (case ns_url_origin_from (env_lxb env) (fr_top rq) of
              None \<Rightarrow> False
            | Some ori \<Rightarrow> strcaseeq (g_strstrip (the (cors_allow_origin resp))) ori \<and>
                          ns_cors_credentials_allowed (raw_headers resp))
      then resp\<lparr> cors_allow_origin := None \<rparr> else resp)"

definition ns_fetch_sync ::
  "'net fetch_env \<Rightarrow> 'net \<Rightarrow> cstr \<Rightarrow> cstr option \<Rightarrow> cstr option \<Rightarrow> u8 list option \<Rightarrow> cstr option \<Rightarrow>
   cstr option list \<Rightarrow> ns_fetch_destination \<Rightarrow> ns_fetch_policy option \<Rightarrow> u32 \<Rightarrow> 'net \<times> ns_response option" where
  "ns_fetch_sync env net url top_url method bdy ct extra dest policy navigation =
     (case env_ext_resource env url of
        Some extension \<Rightarrow> (net, Some extension)
      | None \<Rightarrow>
          let subresource = (\<not> ns_fetch_is_navigation top_url extra \<and> navigation = 0);
              rq = \<lparr> fr_top = top_url, fr_headers = extra, fr_dest = dest, fr_policy = policy,
                     fr_navigation = navigation, fr_subresource = subresource,
                     fr_started_https = g_str_has_prefix url ''https://'' \<rparr>
          in
          (case (if subresource \<and> env_ext_block env url top_url then (net, None)
                 else ns_cors_preflight (env_lxb env) (env_hop env) net (Some url) top_url method ct extra dest) of
             (net0, Some refusal) \<Rightarrow> (net0, Some refusal)
           | (net0, None) \<Rightarrow>
               (case redirect_loop env rq (nat (clamp_redirects (env_max_redirects env))) 0
                       \<lparr> cur_url = url, cur_top = top_url,
                         cur_method = (if nonempty method then the method else ''GET''),
                         cur_body = bdy, cur_ct = ct \<rparr> net0 of
                  (net1, None, _, _) \<Rightarrow> (net1, None)
                | (net1, Some resp, hops, last_url) \<Rightarrow>
                    (net1, Some (readable_response env rq last_url (resp\<lparr> redirect_count := hops \<rparr>))))))"

section \<open>What a redirect may lead to\<close>

definition redirect_target_ok :: "'net fetch_env \<Rightarrow> fetch_request \<Rightarrow> cstr \<Rightarrow> bool" where
  "redirect_target_ok env rq u \<longleftrightarrow>
     ns_url_is_http_or_https (Some u) \<and>
     (fr_started_https rq \<longrightarrow> g_str_has_prefix u ''https://'') \<and>
     (ns_request_is_gated (fr_top rq) [] (fr_dest rq) \<longrightarrow>
        \<not> is_mixed_content (env_lxb env) (effective_document (fr_policy rq) (fr_top rq)) (Some u) \<and>
        \<not> csp_refused (env_lxb env) (fr_policy rq) (checked_kind (fr_policy rq) (fr_dest rq)) (Some u)
            (effective_document (fr_policy rq) (fr_top rq)))"

lemma https_not_mixed: "g_str_has_prefix u ''https://'' \<Longrightarrow> \<not> is_mixed_content lxb doc (Some u)"
  by (simp add: is_mixed_content_def https_not_insecure)

lemma gate_redirect_To:
  assumes "gate_redirect env rq resp next_url = Redirect_To t"
  shows "redirect_target_ok env rq t"
proof (cases "ns_request_is_gated (fr_top rq) [] (fr_dest rq)")
  case False
  with assms show ?thesis
    by (auto simp: gate_redirect_def redirect_target_ok_def split: if_splits)
next
  case True
  let ?doc = "effective_document (fr_policy rq) (fr_top rq)"
  let ?c = "ns_fetch_policy_check (env_lxb env) (env_file_ok env) (fr_policy rq) (fr_dest rq) (fr_top rq) (Some next_url)"
  have http: "ns_url_is_http_or_https (Some next_url)"
    and sec: "fr_started_https rq \<Longrightarrow> g_str_has_prefix next_url ''https://''"
    and pass: "\<not> ns_fetch_verdict_blocks (fst ?c)"
    and t: "t = (case snd ?c of None \<Rightarrow> next_url | Some u \<Rightarrow> u)"
    using assms True by (auto simp: gate_redirect_def split: if_splits prod.splits)
  have dest: "fr_dest rq \<noteq> NS_FETCH_DEST_DOCUMENT" using True by (simp add: ns_request_is_gated_def)
  note chk = check_passed [OF pass dest]
  have csp: "\<not> csp_refused (env_lxb env) (fr_policy rq) (checked_kind (fr_policy rq) (fr_dest rq)) (Some t) ?doc"
    using chk(4) t by (auto simp: fetched_url_def split: option.splits)
  show ?thesis
  proof (cases "is_mixed_content (env_lxb env) ?doc (Some next_url)")
    case True
    with chk(2) t have u: "t = upgrade_to_https next_url" by simp
    have https: "g_str_has_prefix t ''https://''" unfolding u by (rule upgrade_prefix)
    with csp show ?thesis
      by (simp add: redirect_target_ok_def https_not_mixed ns_url_is_http_or_https_def)
  next
    case False
    with chk(3) t have "t = next_url" by simp
    with csp False http sec show ?thesis by (simp add: redirect_target_ok_def)
  qed
qed

section \<open>The requests of a fetch\<close>

text \<open>A network that records every request put to it, in order.\<close>

definition recording :: "'n hop \<Rightarrow> ('n \<times> hop_request list) hop" where
  "recording hop s rq = (case s of (net, log) \<Rightarrow> (case hop net rq of (net', r) \<Rightarrow> ((net', log @ [rq]), r)))"

definition is_preflight_of :: "fetch_request \<Rightarrow> hop_request \<Rightarrow> bool" where
  "is_preflight_of rq r \<longleftrightarrow> (\<exists>m us. r = preflight_request (rq_url r) (fr_top rq) m us)"

definition headers_ok :: "'net fetch_env \<Rightarrow> fetch_request \<Rightarrow> hop_request \<Rightarrow> bool" where
  "headers_ok env rq r \<longleftrightarrow> is_preflight_of rq r \<or>
     rq_headers r = fr_headers rq @ (if omit_cookies env rq (rq_url r) then [Some ''X-ND-Omit-Cookies: 1''] else [])"

definition request_sound :: "'net fetch_env \<Rightarrow> fetch_request \<Rightarrow> cstr \<Rightarrow> hop_request \<Rightarrow> bool" where
  "request_sound env rq start r \<longleftrightarrow>
     (rq_url r = start \<or> redirect_target_ok env rq (rq_url r)) \<and> headers_ok env rq r"

lemma recording_step:
  "recording hop (n, log) rq = (s', r) \<Longrightarrow> \<exists>n'. s' = (n', log @ [rq])"
  by (auto simp: recording_def split: prod.splits)

lemma preflight_trace:
  assumes "ns_cors_preflight lxb (recording hop) (n, log) (Some u) top_url m ct extra dest = ((n', log'), r)"
  shows "log' = log \<or> (\<exists>us. log' = log @ [preflight_request u top_url m us])"
  using assms recording_step
  by (fastforce simp: ns_cors_preflight_def Let_def split: if_splits prod.splits)

lemma hop_headers_ok: "headers_ok env rq (hop_request_of env rq st)"
  by (simp add: headers_ok_def hop_request_of_def)

lemma hop_request_url [simp]: "rq_url (hop_request_of env rq st) = cur_url st"
  by (simp add: hop_request_of_def)

lemma preflight_headers_ok: "headers_ok env rq (preflight_request u (fr_top rq) m us)"
  by (auto simp: headers_ok_def is_preflight_of_def preflight_request_def)

text \<open>
  One turn of the loop over a recording network: it stops after at most one hop and one preflight,
  or it goes on with a gated URL and one redirect less.
\<close>

definition next_state :: "'net fetch_env \<Rightarrow> fetch_request \<Rightarrow> ns_response \<Rightarrow> hop_state \<Rightarrow> cstr \<Rightarrow> hop_state" where
  "next_state env rq resp st target =
     (redirect_method resp st)\<lparr> cur_url := target, cur_top := redirect_top env rq st \<rparr>"

lemma next_state_url [simp]: "cur_url (next_state env rq resp st target) = target"
  by (simp add: next_state_def)

lemma loop_turn:
  assumes rec: "env_hop env = recording hop"
    and run: "redirect_loop env rq left hops st (n, log) = ((n', log'), fe)"
  obtains (no_hop) "log' = log"
  | (one_hop) "log' = log @ [hop_request_of env rq st]"
  | (stopped) u m us where "log' = log @ [hop_request_of env rq st] \<or>
        log' = log @ [hop_request_of env rq st, preflight_request u (fr_top rq) m us]" "redirect_target_ok env rq u"
  | (again) n2 log2 left' u m us resp where "left = Suc left'" "redirect_target_ok env rq u"
      "log2 = log @ [hop_request_of env rq st] \<or>
       log2 = log @ [hop_request_of env rq st, preflight_request u (fr_top rq) m us]"
      "redirect_loop env rq left' (hops + 1) (next_state env rq resp st u) (n2, log2) = ((n', log'), fe)"
proof -
  show thesis
  proof (cases "fr_subresource rq \<and> env_ext_block env (cur_url st) (cur_top st)")
    case True
    with run no_hop show thesis by (simp add: redirect_loop.simps)
  next
    case noblock: False
    obtain s1 oresp location where hop: "recording hop (n, log) (hop_request_of env rq st) = (s1, oresp, location)"
      by (cases "recording hop (n, log) (hop_request_of env rq st)") auto
    obtain n1 where s1: "s1 = (n1, log @ [hop_request_of env rq st])"
      using recording_step [OF hop] by blast
    note run1 = run [unfolded redirect_loop.simps [of env rq left] if_not_P [OF noblock] rec hop s1 prod.case]
    show thesis
    proof (cases "\<exists>resp left' next_url target. oresp = Some resp \<and> left = Suc left' \<and>
        is_redirect resp \<and> error resp = None \<and> nonempty location \<and>
        env_resolve env (case final_url resp of None \<Rightarrow> cur_url st | Some u \<Rightarrow> u) (the location) = Some next_url \<and>
        gate_redirect env rq resp next_url = Redirect_To target")
      case False
      then have "log' = log @ [hop_request_of env rq st]"
        using run1 by (auto split: option.splits if_splits nat.splits redirect_verdict.splits)
      then show thesis by (rule one_hop)
    next
      case True
      then obtain resp left' next_url target where r: "oresp = Some resp" "left = Suc left'"
        "is_redirect resp" "error resp = None" "nonempty location"
        "env_resolve env (case final_url resp of None \<Rightarrow> cur_url st | Some u \<Rightarrow> u) (the location) = Some next_url"
        "gate_redirect env rq resp next_url = Redirect_To target" by blast
      have ok: "redirect_target_ok env rq target" by (rule gate_redirect_To [OF r(7)])
      let ?log1 = "log @ [hop_request_of env rq st]"
      let ?st1 = "redirect_method resp st"
      obtain s2 ref where pf: "(if ns_url_same_origin (env_lxb env) (Some (cur_url st)) (Some target)
          then ((n1, ?log1), None)
          else ns_cors_preflight (env_lxb env) (recording hop) (n1, ?log1) (Some target) (fr_top rq)
                 (Some (cur_method ?st1)) (cur_ct ?st1) (fr_headers rq) (fr_dest rq)) = (s2, ref)"
        (is "?pf = _") by (cases ?pf) auto
      obtain n2 log2 where s2: "s2 = (n2, log2)" by (cases s2)
      have log2: "log2 = ?log1 \<or> (\<exists>us. log2 = ?log1 @ [preflight_request target (fr_top rq) (Some (cur_method ?st1)) us])"
        using pf preflight_trace unfolding s2 by (fastforce split: if_splits)
      have run2: "(case (s2, ref) of
           (net2, Some refusal) \<Rightarrow> (net2, Some refusal, hops, cur_url st)
         | (net2, None) \<Rightarrow>
             if env_cancelled env net2 then (net2, None, hops + 1, target)
             else redirect_loop env rq left' (hops + 1) (next_state env rq resp st target) net2) = ((n', log'), fe)"
        using run1 unfolding next_state_def pf [symmetric] by (simp add: r Let_def)
      show thesis
      proof (cases ref)
        case None
        show thesis
        proof (cases "env_cancelled env s2")
          case True
          with run2 None s2 have "log' = log2" by simp
          with log2 ok stopped show thesis by fastforce
        next
          case False
          with run2 None s2 have "redirect_loop env rq left' (hops + 1) (next_state env rq resp st target) (n2, log2) = ((n', log'), fe)"
            by simp
          with log2 ok r(2) again show thesis by fastforce
        qed
      next
        case (Some a)
        with run2 s2 have "log' = log2" by simp
        with log2 ok stopped show thesis by fastforce
      qed
    qed
  qed
qed

lemma loop_trace:
  assumes "env_hop env = recording hop"
    and "redirect_loop env rq left hops st (n, log) = ((n', log'), fe)"
    and "cur_url st = start \<or> redirect_target_ok env rq (cur_url st)"
  shows "\<exists>new. log' = log @ new \<and> list_all (request_sound env rq start) new \<and> length new \<le> 2 * left + 2"
  using assms(2,3)
proof (induction left arbitrary: hops st n log)
  case 0
  then have hop: "request_sound env rq start (hop_request_of env rq st)"
    by (simp add: request_sound_def hop_headers_ok)
  have pre: "redirect_target_ok env rq u \<Longrightarrow> request_sound env rq start (preflight_request u (fr_top rq) m us)" for u m us
    by (simp add: request_sound_def preflight_headers_ok) (simp add: preflight_request_def)
  show ?case
    by (rule loop_turn [OF assms(1) "0.prems"(1)]) (use hop pre in \<open>auto\<close>)
next
  case (Suc left)
  then have hop: "request_sound env rq start (hop_request_of env rq st)"
    by (simp add: request_sound_def hop_headers_ok)
  have pre: "redirect_target_ok env rq u \<Longrightarrow> request_sound env rq start (preflight_request u (fr_top rq) m us)" for u m us
    by (simp add: request_sound_def preflight_headers_ok) (simp add: preflight_request_def)
  show ?case
  proof (rule loop_turn [OF assms(1) Suc.prems(1)])
    fix n2 log2 left' u m us resp
    assume l: "Suc left = Suc left'" and u: "redirect_target_ok env rq u"
      and log2: "log2 = log @ [hop_request_of env rq st] \<or>
        log2 = log @ [hop_request_of env rq st, preflight_request u (fr_top rq) m us]"
      and rest: "redirect_loop env rq left' (hops + 1) (next_state env rq resp st u) (n2, log2) = ((n', log'), fe)"
    from Suc.IH [OF rest [folded l [THEN Suc_inject]]] u
    obtain new where new: "log' = log2 @ new" "list_all (request_sound env rq start) new" "length new \<le> 2 * left + 2"
      by auto
    from log2 obtain pre_log where "log2 = log @ pre_log" "list_all (request_sound env rq start) pre_log" "length pre_log \<le> 2"
      using hop pre [OF u] by auto
    with new show ?thesis by auto
  qed (use hop pre in \<open>auto\<close>)
qed

lemma fetch_trace:
  assumes rec: "env_hop env = recording hop"
    and rq: "rq = \<lparr> fr_top = top_url, fr_headers = extra, fr_dest = dest, fr_policy = policy, fr_navigation = navigation,
      fr_subresource = (\<not> ns_fetch_is_navigation top_url extra \<and> navigation = 0),
      fr_started_https = g_str_has_prefix url ''https://'' \<rparr>"
    and run: "ns_fetch_sync env (n, []) url top_url method bdy ct extra dest policy navigation = ((n', log), resp)"
  shows "list_all (request_sound env rq url) log \<and> length log \<le> 2 * nat (clamp_redirects (env_max_redirects env)) + 3"
proof -
  let ?m = "nat (clamp_redirects (env_max_redirects env))"
  let ?st = "\<lparr> cur_url = url, cur_top = top_url, cur_method = (if nonempty method then the method else ''GET''),
      cur_body = bdy, cur_ct = ct \<rparr>"
  have pre: "request_sound env rq url (preflight_request url top_url m us)" for m us
    using preflight_headers_ok [of env rq url m us]
    by (simp add: request_sound_def rq preflight_request_def)
  show ?thesis
  proof (cases "env_ext_resource env url")
    case (Some e)
    with run show ?thesis by (simp add: ns_fetch_sync_def)
  next
    case None
    obtain s0 ref where pf: "(if fr_subresource rq \<and> env_ext_block env url top_url then ((n, []), None)
        else ns_cors_preflight (env_lxb env) (recording hop) (n, []) (Some url) top_url method ct extra dest) = (s0, ref)"
      (is "?pf = _") by (cases ?pf) auto
    obtain n0 log0 where s0: "s0 = (n0, log0)" by (cases s0)
    have log0: "log0 = [] \<or> (\<exists>us. log0 = [preflight_request url top_url method us])"
      using pf preflight_trace [of "env_lxb env" hop n "[]"] unfolding s0 by (fastforce split: if_splits)
    have run1: "(case (s0, ref) of (net0, Some refusal) \<Rightarrow> (net0, Some refusal)
       | (net0, None) \<Rightarrow>
           (case redirect_loop env rq ?m 0 ?st net0 of
              (net1, None, _, _) \<Rightarrow> (net1, None)
            | (net1, Some resp, hops, last_url) \<Rightarrow>
                (net1, Some (readable_response env rq last_url (resp\<lparr> redirect_count := hops \<rparr>))))) = ((n', log), resp)"
      using run unfolding ns_fetch_sync_def None Let_def rec pf [symmetric] rq by simp
    show ?thesis
    proof (cases ref)
      case (Some r)
      with run1 s0 have "log = log0" by simp
      with log0 pre show ?thesis by auto
    next
      case None
      obtain s1 fe where lp: "redirect_loop env rq ?m 0 ?st (n0, log0) = (s1, fe)"
        by (cases "redirect_loop env rq ?m 0 ?st (n0, log0)")
      then have "s1 = (n', log)"
        using run1 by (auto simp: None s0 split: option.splits prod.splits)
      then obtain new where "log = log0 @ new" "list_all (request_sound env rq url) new" "length new \<le> 2 * ?m + 2"
        using loop_trace [OF rec, of rq ?m 0 ?st n0 log0 n' log fe url] lp by auto
      with log0 pre show ?thesis by auto
    qed
  qed
qed

section \<open>Properties of a fetch\<close>

text \<open>
  C2: every request a fetch sends is for the URL it was asked for or for the target of a redirect
  that passed the gates: an http or https URL, https if the fetch started with https, and, for a
  subresource of a document, neither mixed content nor refused by the document's content security
  policy for the destination, however the network answers.
\<close>

theorem fetch_requests_gated:
  assumes "env_hop env = recording hop"
    and "ns_fetch_sync env (n, []) url top_url method bdy ct extra dest policy navigation = ((n', log), resp)"
    and "r \<in> set log" "rq_url r \<noteq> url"
  shows "ns_url_is_http_or_https (Some (rq_url r)) \<and>
    (g_str_has_prefix url ''https://'' \<longrightarrow> g_str_has_prefix (rq_url r) ''https://'') \<and>
    (ns_request_is_gated top_url [] dest \<longrightarrow>
       \<not> is_mixed_content (env_lxb env) (effective_document policy top_url) (Some (rq_url r)) \<and>
       \<not> csp_refused (env_lxb env) policy (checked_kind policy dest) (Some (rq_url r))
           (effective_document policy top_url))"
  using fetch_trace [OF assms(1) refl assms(2)] assms(3,4)
  by (auto simp: list_all_iff request_sound_def redirect_target_ok_def)

text \<open>
  a fetch ends after at most 23 requests, preflights included, whatever the servers answer and
  whatever limit is configured.
\<close>

theorem fetch_bounded:
  assumes "env_hop env = recording hop"
    and "ns_fetch_sync env (n, []) url top_url method bdy ct extra dest policy navigation = ((n', log), resp)"
  shows "length log \<le> 23"
proof -
  have "nat (clamp_redirects c) \<le> 10" for c
    by (auto simp: clamp_redirects_def NS_MAX_REDIRECTS_def Let_def split: option.splits)
  from this [of "env_max_redirects env"] show ?thesis using fetch_trace [OF assms(1) refl assms(2)] by linarith
qed

text \<open>
  a script request carries cookies only as its credentials mode allows: under \<^verbatim>\<open>omit\<close>, and
  under any mode but \<^verbatim>\<open>include\<close> for a URL that is not of the document's origin, every request it
  causes, after redirects too, either is a preflight or is marked to go without cookies.
\<close>

theorem fetch_cookies_as_mode:
  assumes "env_hop env = recording hop"
    and "ns_fetch_sync env (n, []) url top_url method bdy ct extra dest policy navigation = ((n', log), resp)"
    and "r \<in> set log" "ns_fetch_credentials_of extra = Some mode"
    and "mode = ''omit'' \<or> mode \<noteq> ''include'' \<and> \<not> ns_url_same_origin (env_lxb env) (Some (rq_url r)) top_url"
  shows "(\<exists>m us. r = preflight_request (rq_url r) top_url m us) \<or>
         last (rq_headers r) = Some ''X-ND-Omit-Cookies: 1''"
proof -
  have "headers_ok env \<lparr> fr_top = top_url, fr_headers = extra, fr_dest = dest, fr_policy = policy, fr_navigation = navigation,
      fr_subresource = (\<not> ns_fetch_is_navigation top_url extra \<and> navigation = 0),
      fr_started_https = g_str_has_prefix url ''https://'' \<rparr> r"
    using fetch_trace [OF assms(1) refl assms(2)] assms(3) by (auto simp: list_all_iff request_sound_def)
  with assms(4,5) show ?thesis
    by (auto simp: headers_ok_def is_preflight_of_def omit_cookies_def)
qed

text \<open>
  a preflight is never marked to go without cookies, even for a request whose credentials mode
  is \<^verbatim>\<open>omit\<close>.
\<close>

theorem preflight_not_marked:
  "Some ''X-ND-Omit-Cookies: 1'' \<notin> set (rq_headers (preflight_request url top_url method unsafe))"
  by (simp add: preflight_request_def)

lemma readable_consent:
  assumes "ns_fetch_credentials_of (fr_headers rq) = Some ''include''"
    and "cors_allow_origin (readable_response env rq last_url resp) = Some allow"
    and "final_url (readable_response env rq last_url resp) = Some u"
    and "\<not> ns_url_same_origin (env_lxb env) (Some u) (fr_top rq)"
  shows "\<exists>ori. ns_url_origin_from (env_lxb env) (fr_top rq) = Some ori \<and> strcaseeq (g_strstrip allow) ori \<and>
         ns_cors_credentials_allowed (raw_headers (readable_response env rq last_url resp))"
  using assms by (auto simp: readable_response_def split: if_splits option.splits)


section \<open>A fetch to witness the properties\<close>

text \<open>A script request of \<^verbatim>\<open>https://a.b/\<close> whose server redirects it once, to a server that answers.\<close>

definition redirecting_server :: "unit hop" where
  "redirecting_server net rq =
     (if rq_url rq = ''https://a.b/'' then
        ((), Some (empty_response\<lparr> status := 302, final_url := Some ''https://a.b/'' \<rparr>), Some ''https://c.d/'')
      else
        ((), Some (empty_response\<lparr> status := 200, final_url := Some ''https://c.d/'',
                     cors_allow_origin := Some ''https://a.b'',
                     raw_headers := Some ''access-control-allow-credentials: true'' \<rparr>), None))"

definition example_env :: "(unit \<times> hop_request list) fetch_env" where
  "example_env =
     \<lparr> env_lxb = app_parser, env_psl = (\<lambda>h. None), env_resolve = (\<lambda>base loc. Some loc),
       env_ext_resource = (\<lambda>u. None), env_ext_block = (\<lambda>u t. False), env_sb_blocked = (\<lambda>h. False),
       env_file_ok = False, env_max_redirects = Some 5, env_cancelled = (\<lambda>n. False),
       env_hop = recording redirecting_server \<rparr>"

definition example_rq :: "cstr \<Rightarrow> fetch_request" where
  "example_rq hdr =
     \<lparr> fr_top = Some ''https://a.b/'', fr_headers = [Some hdr], fr_dest = NS_FETCH_DEST_SCRIPT, fr_policy = None,
       fr_navigation = 0, fr_subresource = True, fr_started_https = True \<rparr>"

definition start_state :: hop_state where
  "start_state = \<lparr> cur_url = ''https://a.b/'', cur_top = Some ''https://a.b/'', cur_method = ''GET'',
     cur_body = None, cur_ct = None \<rparr>"

definition example_log :: "cstr \<Rightarrow> hop_request list" where
  "example_log hdr =
     [hop_request_of example_env (example_rq hdr) start_state,
      hop_request_of example_env (example_rq hdr) (start_state\<lparr> cur_url := ''https://c.d/'' \<rparr>)]"

lemma example_env_simps:
  "env_lxb example_env = app_parser" "env_ext_resource example_env u = None" "env_hop example_env = recording redirecting_server"
  "env_ext_block example_env u t = False" "env_cancelled example_env s = False" "env_resolve example_env b l = Some l"
  "env_file_ok example_env = False" "env_max_redirects example_env = Some 5"
  by (simp_all add: example_env_def)

lemma example_rq_simps:
  "fr_top (example_rq hdr) = Some ''https://a.b/''" "fr_headers (example_rq hdr) = [Some hdr]"
  "fr_dest (example_rq hdr) = NS_FETCH_DEST_SCRIPT" "fr_policy (example_rq hdr) = None"
  "fr_navigation (example_rq hdr) = 0" "fr_subresource (example_rq hdr)" "fr_started_https (example_rq hdr)"
  by (simp_all add: example_rq_def)

lemma app_origins:
  "ns_url_origin_from app_parser (Some ''https://a.b/'') = Some ''https://a.b''"
  "ns_url_origin_from app_parser (Some ''https://c.d/'') = Some ''https://c.d''"
  by (simp_all add: ns_url_origin_from_def origin_from.simps
      ns_url_is_http_or_https_def ns_url_parse_with_host_def app_parser_def plain_url_def
      cstr_simps ascii_simps)

lemma app_cross: "\<not> ns_url_same_origin app_parser (Some ''https://a.b/'') (Some ''https://c.d/'')"
  "\<not> ns_url_same_origin app_parser (Some ''https://c.d/'') (Some ''https://a.b/'')"
  by (simp_all add: ns_url_same_origin_def app_origins cstr_simps ascii_simps)

lemma example_gate:
  "gate_redirect example_env (example_rq hdr) resp ''https://c.d/'' = Redirect_To ''https://c.d/''"
  by (simp add: gate_redirect_def example_env_simps example_rq_simps top_level_def ns_request_is_gated_def
      ns_headers_mark_navigation_def ns_fetch_policy_check_def effective_document_def file_refused_def
      is_mixed_content_def url_has_scheme_def csp_refused_def checked_kind_def ns_fetch_verdict_blocks_def
      ns_url_is_http_or_https_def cstr_simps ascii_simps)

lemma example_loop:
  "redirect_loop example_env (example_rq hdr) 5 0 start_state ((), []) =
   (((), example_log hdr), Some (empty_response\<lparr> status := 200, final_url := Some ''https://c.d/'',
                     cors_allow_origin := Some ''https://a.b'',
                     raw_headers := Some ''access-control-allow-credentials: true'' \<rparr>), 1, ''https://c.d/'')"
proof -
  have r1: "recording redirecting_server ((), []) (hop_request_of example_env (example_rq hdr) start_state) =
      (((), [hop_request_of example_env (example_rq hdr) start_state]),
       Some (empty_response\<lparr> status := 302, final_url := Some ''https://a.b/'' \<rparr>), Some ''https://c.d/'')"
    by (simp add: recording_def redirecting_server_def start_state_def)
  have r2: "recording redirecting_server ((), l) (hop_request_of example_env (example_rq hdr) (start_state\<lparr> cur_url := ''https://c.d/'' \<rparr>)) =
      (((), l @ [hop_request_of example_env (example_rq hdr) (start_state\<lparr> cur_url := ''https://c.d/'' \<rparr>)]),
       Some (empty_response\<lparr> status := 200, final_url := Some ''https://c.d/'',
                     cors_allow_origin := Some ''https://a.b'',
                     raw_headers := Some ''access-control-allow-credentials: true'' \<rparr>), None)" for l
    by (simp add: recording_def redirecting_server_def)
  have st: "(redirect_method (empty_response\<lparr> status := 302, final_url := Some ''https://a.b/'' \<rparr>) start_state)
      \<lparr> cur_url := ''https://c.d/'', cur_top := redirect_top example_env (example_rq hdr) start_state \<rparr> =
      start_state\<lparr> cur_url := ''https://c.d/'' \<rparr>"
    by (simp add: redirect_method_def redirect_top_def start_state_def example_rq_simps top_level_def)
  have pf: "ns_cors_preflight app_parser (recording redirecting_server) s (Some ''https://c.d/'') (Some ''https://a.b/'') m c h
      NS_FETCH_DEST_SCRIPT = (s, None)" for s m c h
    by (simp add: ns_cors_preflight_def cors_applies_def)
  have cu: "cur_url start_state = ''https://a.b/''" by (simp add: start_state_def)
  have second: "redirect_loop example_env (example_rq hdr) 4 1 (start_state\<lparr> cur_url := ''https://c.d/'' \<rparr>)
       ((), [hop_request_of example_env (example_rq hdr) start_state]) =
     (((), example_log hdr), Some (empty_response\<lparr> status := 200, final_url := Some ''https://c.d/'',
                     cors_allow_origin := Some ''https://a.b'',
                     raw_headers := Some ''access-control-allow-credentials: true'' \<rparr>), 1, ''https://c.d/'')"
    by (subst redirect_loop.simps)
      (simp add: example_env_simps r2 is_redirect_def empty_response_def example_log_def)
  have "redirect_loop example_env (example_rq hdr) (Suc 4) 0 start_state ((), []) =
     (((), example_log hdr), Some (empty_response\<lparr> status := 200, final_url := Some ''https://c.d/'',
                     cors_allow_origin := Some ''https://a.b'',
                     raw_headers := Some ''access-control-allow-credentials: true'' \<rparr>), 1, ''https://c.d/'')"
    by (subst redirect_loop.simps)
      (simp add: example_env_simps example_rq_simps r1 is_redirect_def cu example_gate app_cross pf st second
        empty_response_def [THEN arg_cong [where f = error]] Let_def)
  then show ?thesis by (simp only: eval_nat_numeral BitM.simps arith_simps)
qed

lemma example_fetch:
  assumes "\<not> navigate_header hdr" "ns_fetch_credentials_of [Some hdr] = Some mode"
  shows "ns_fetch_sync example_env ((), []) ''https://a.b/'' (Some ''https://a.b/'') None None None [Some hdr]
     NS_FETCH_DEST_SCRIPT None 0 =
   (((), example_log hdr), Some (readable_response example_env (example_rq hdr) ''https://c.d/''
       (empty_response\<lparr> status := 200, final_url := Some ''https://c.d/'', cors_allow_origin := Some ''https://a.b'',
          raw_headers := Some ''access-control-allow-credentials: true'', redirect_count := 1 \<rparr>)))"
proof -
  have rq: "\<lparr> fr_top = Some ''https://a.b/'', fr_headers = [Some hdr], fr_dest = NS_FETCH_DEST_SCRIPT, fr_policy = None,
      fr_navigation = 0, fr_subresource = (\<not> ns_fetch_is_navigation (Some ''https://a.b/'') [Some hdr] \<and> (0::u32) = 0),
      fr_started_https = g_str_has_prefix ''https://a.b/'' ''https://'' \<rparr> = example_rq hdr"
    using assms(1) by (simp add: example_rq_def ns_fetch_is_navigation_def cstr_simps)
  have st: "\<lparr> cur_url = ''https://a.b/'', cur_top = Some ''https://a.b/'',
      cur_method = (if nonempty None then the None else ''GET''), cur_body = None, cur_ct = None \<rparr> = start_state"
    by (simp add: start_state_def)
  have pf: "ns_cors_preflight app_parser (recording redirecting_server) s (Some ''https://a.b/'') (Some ''https://a.b/'') m c h
      NS_FETCH_DEST_SCRIPT = (s, None)" for s m c h
    by (simp add: ns_cors_preflight_def cors_applies_def)
  have m: "nat (clamp_redirects (Some 5)) = 5"
    by (simp add: clamp_redirects_def NS_MAX_REDIRECTS_def)
  show ?thesis
    unfolding ns_fetch_sync_def Let_def rq st example_env_simps option.case
    by (simp only: pf if_cancel if_False simp_thms prod.case option.case m example_loop)
qed

lemma example_headers:
  "\<not> navigate_header ''X-ND-Credentials: include''" "ns_fetch_credentials_of [Some ''X-ND-Credentials: include''] = Some ''include''"
  "\<not> navigate_header ''X-ND-Credentials: omit''" "ns_fetch_credentials_of [Some ''X-ND-Credentials: omit''] = Some ''omit''"
  by (simp_all add: navigate_header_def cstr_simps ascii_simps)

lemma example_second_request:
  "hop_request_of example_env (example_rq hdr) (start_state\<lparr> cur_url := ''https://c.d/'' \<rparr>) \<in> set (example_log hdr)"
  by (simp add: example_log_def)

theorem fetch_requests_gated_witness:
  "ns_url_is_http_or_https (Some (rq_url (hop_request_of example_env (example_rq ''X-ND-Credentials: omit'')
     (start_state\<lparr> cur_url := ''https://c.d/'' \<rparr>))))"
  by (rule fetch_requests_gated [OF example_env_simps(3) example_fetch [OF example_headers(3,4)] example_second_request,
        THEN conjunct1]) simp

theorem fetch_bounded_witness: "length (example_log ''X-ND-Credentials: omit'') \<le> 23"
  by (rule fetch_bounded [OF example_env_simps(3) example_fetch [OF example_headers(3,4)]])

theorem fetch_cookies_as_mode_witness:
  "(\<exists>m us. hop_request_of example_env (example_rq ''X-ND-Credentials: omit'') (start_state\<lparr> cur_url := ''https://c.d/'' \<rparr>) =
      preflight_request (rq_url (hop_request_of example_env (example_rq ''X-ND-Credentials: omit'')
        (start_state\<lparr> cur_url := ''https://c.d/'' \<rparr>))) (Some ''https://a.b/'') m us) \<or>
   last (rq_headers (hop_request_of example_env (example_rq ''X-ND-Credentials: omit'')
     (start_state\<lparr> cur_url := ''https://c.d/'' \<rparr>))) = Some ''X-ND-Omit-Cookies: 1''"
  by (rule fetch_cookies_as_mode [OF example_env_simps(3) example_fetch [OF example_headers(3,4)] example_second_request
        example_headers(4)]) simp


end
