(* ===== verification/Counters.thy ===== *)
theory Counters
  imports Prelude
begin

text \<open>
  The contract of a table of counters by key, as the connection slots of an origin and the running
  fetches of a host keep it, and the accounting that rests on it: such a table tracks a list of
  holders, and a holder admitted only below a limit never takes a key beyond it.
\<close>

definition tracks :: "('k \<Rightarrow> nat) \<Rightarrow> 'k list \<Rightarrow> bool" where
  "tracks c ks \<longleftrightarrow> (\<forall>k. c k = count_list ks k)"

locale keyed_counter =
  fixes count :: "'s \<Rightarrow> 'k \<Rightarrow> nat"
    and up down :: "'k \<Rightarrow> 's \<Rightarrow> 's"
    and empty :: 's
  assumes count_empty: "count empty k = 0"
    and count_up: "count (up k s) j = (if j = k then Suc (count s j) else count s j)"
    and count_down: "count (down k s) j = (if j = k then count s j - 1 else count s j)"
begin

lemma tracks_empty: "tracks (count empty) []"
  by (simp add: tracks_def count_empty)

lemma tracks_up: "tracks (count s) ks \<Longrightarrow> tracks (count (up k s)) (ks @ [k])"
  by (simp add: tracks_def count_up)

lemma tracks_down:
  assumes "tracks (count s) (ks @ k # ks')"
  shows "tracks (count (down k s)) (ks @ ks')"
  using assms by (auto simp: tracks_def count_down)

lemma below_limit_up:
  assumes "\<And>j. count s j \<le> n" "count s k < n"
  shows "count (up k s) j \<le> n"
  using assms(1) [of j] assms(2) by (auto simp: count_up)

lemma below_limit_down:
  assumes "\<And>j. count s j \<le> n"
  shows "count (down k s) j \<le> n"
  using assms [of j] by (auto simp: count_down)

lemma up_down: "count (down k (up k s)) j = count s j"
  by (simp add: count_up count_down)

end

end
