(* ===== verification/FetchQueue.thy ===== *)
theory FetchQueue
  imports Counters Requests "HOL-Library.Multiset"
begin

text \<open>
  The asynchronous side of \<^verbatim>\<open>net.c\<close>: the throttle that starts queued fetches, at most 32 in all
  and 6 for a host, and the sharing of one transfer between identical requests, with the responses
  kept for a later request that was announced.  Each function that runs under one of the locks is
  one atomic operation on the state the lock protects.
\<close>

section \<open>The throttle\<close>

definition NS_MAX_CONCURRENT_FETCHES :: nat where
  "NS_MAX_CONCURRENT_FETCHES = 32"

definition NS_MAX_FETCHES_PER_HOST :: nat where
  "NS_MAX_FETCHES_PER_HOST = 6"

text \<open>A task, and the host of its URL, if it has one (\<^verbatim>\<open>ns_fetch_task_host\<close>).\<close>

record fetch_task =
  task_id :: nat
  task_host :: "cstr option"

type_synonym host_table = "cstr \<Rightarrow> nat option"

record throttle =
  fetch_active :: nat
  host_active :: host_table
  fetch_queue :: "fetch_task list"

definition ns_fetch_host_count :: "host_table \<Rightarrow> cstr option \<Rightarrow> nat" where
  "ns_fetch_host_count tbl hst =
     (case hst of None \<Rightarrow> 0 | Some h \<Rightarrow> (case tbl h of None \<Rightarrow> 0 | Some n \<Rightarrow> n))"

text \<open>The table holds no entry that is not positive.\<close>

definition ns_fetch_host_adjust :: "cstr option \<Rightarrow> int \<Rightarrow> host_table \<Rightarrow> host_table" where
  "ns_fetch_host_adjust hst delta tbl =
     (case hst of None \<Rightarrow> tbl
      | Some h \<Rightarrow>
          let n = int (ns_fetch_host_count tbl hst) + delta in
          if n \<le> 0 then tbl(h := None) else tbl(h \<mapsto> nat n))"

definition startable :: "host_table \<Rightarrow> fetch_task \<Rightarrow> bool" where
  "startable tbl t \<longleftrightarrow>
     task_host t = None \<or> ns_fetch_host_count tbl (task_host t) < NS_MAX_FETCHES_PER_HOST"

text \<open>The first task of the queue whose host has room, and the queue without it.\<close>

fun take_startable :: "host_table \<Rightarrow> fetch_task list \<Rightarrow> (fetch_task \<times> fetch_task list) option" where
  "take_startable tbl [] = None"
| "take_startable tbl (t # q) =
     (if startable tbl t then Some (t, q)
      else (case take_startable tbl q of None \<Rightarrow> None | Some (t', q') \<Rightarrow> Some (t', t # q')))"

lemma take_startable_Some:
  "take_startable tbl q = Some (t, q') \<Longrightarrow>
     startable tbl t \<and> (\<exists>a b. q = a @ t # b \<and> q' = a @ b \<and> list_all (\<lambda>t. \<not> startable tbl t) a)"
proof (induction q arbitrary: q')
  case (Cons u q)
  show ?case
  proof (cases "startable tbl u")
    case True
    with Cons.prems have "startable tbl t \<and> u # q = [] @ t # q' \<and> q' = [] @ q'" by simp
    then show ?thesis by (metis list.pred_inject(1))
  next
    case False
    with Cons.prems obtain q2 where q2: "take_startable tbl q = Some (t, q2)" "q' = u # q2"
      by (auto split: option.splits)
    with Cons.IH obtain a b where "startable tbl t" "q = a @ t # b" "q2 = a @ b" "list_all (\<lambda>t. \<not> startable tbl t) a"
      by blast
    with False q2 show ?thesis by (intro conjI exI [of _ "u # a"] exI [of _ b]) auto
  qed
qed simp

lemma take_startable_None: "take_startable tbl q = None \<longleftrightarrow> list_all (\<lambda>t. \<not> startable tbl t) q"
  by (induction q) (auto split: option.splits)

text \<open>
  One turn of the dispatcher's loop, under the lock: the task it starts, or None where it returns.
  The lock is released between turns.
\<close>

definition dispatch_turn :: "throttle \<Rightarrow> (throttle \<times> fetch_task) option" where
  "dispatch_turn s =
     (if fetch_active s \<ge> NS_MAX_CONCURRENT_FETCHES \<or> fetch_queue s = [] then None
      else (case take_startable (host_active s) (fetch_queue s) of
              None \<Rightarrow> None
            | Some (chosen, rest) \<Rightarrow>
                Some (s\<lparr> fetch_active := fetch_active s + 1,
                         host_active := ns_fetch_host_adjust (task_host chosen) 1 (host_active s),
                         fetch_queue := rest \<rparr>, chosen)))"

lemma dispatch_turn_shrinks:
  "dispatch_turn s = Some (s1, t) \<Longrightarrow> length (fetch_queue s1) < length (fetch_queue s)"
  by (auto simp: dispatch_turn_def split: if_splits option.splits dest!: take_startable_Some)

function ns_fetch_throttle_dispatch :: "throttle \<Rightarrow> throttle \<times> fetch_task list" where
  "ns_fetch_throttle_dispatch s =
     (case dispatch_turn s of
        None \<Rightarrow> (s, [])
      | Some (s1, t) \<Rightarrow> (case ns_fetch_throttle_dispatch s1 of (s', started) \<Rightarrow> (s', t # started)))"
  by pat_completeness auto
termination
  by (relation "measure (\<lambda>s. length (fetch_queue s))") (auto dest: dispatch_turn_shrinks)

declare ns_fetch_throttle_dispatch.simps [simp del]

definition enqueue_fetch :: "fetch_task \<Rightarrow> throttle \<Rightarrow> throttle" where
  "enqueue_fetch t s = s\<lparr> fetch_queue := fetch_queue s @ [t] \<rparr>"

definition ns_fetch_throttle_submit :: "fetch_task \<Rightarrow> throttle \<Rightarrow> throttle \<times> fetch_task list" where
  "ns_fetch_throttle_submit t s = ns_fetch_throttle_dispatch (enqueue_fetch t s)"

text \<open>The end of a worker thread: its slot is given back, then the dispatcher runs.\<close>

definition release_fetch :: "fetch_task \<Rightarrow> throttle \<Rightarrow> throttle" where
  "release_fetch t s =
     s\<lparr> fetch_active := (if fetch_active s > 0 then fetch_active s - 1 else fetch_active s),
        host_active := ns_fetch_host_adjust (task_host t) (- 1) (host_active s) \<rparr>"

definition ns_fetch_thread_end :: "fetch_task \<Rightarrow> throttle \<Rightarrow> throttle \<times> fetch_task list" where
  "ns_fetch_thread_end t s = ns_fetch_throttle_dispatch (release_fetch t s)"

subsection \<open>The host table is a table of counters\<close>

lemma host_count_adjust:
  "ns_fetch_host_count (ns_fetch_host_adjust h 1 tbl) j =
     (if j = h \<and> h \<noteq> None then Suc (ns_fetch_host_count tbl j) else ns_fetch_host_count tbl j)"
  "ns_fetch_host_count (ns_fetch_host_adjust h (- 1) tbl) j =
     (if j = h \<and> h \<noteq> None then ns_fetch_host_count tbl j - 1 else ns_fetch_host_count tbl j)"
  by (auto simp: ns_fetch_host_count_def ns_fetch_host_adjust_def Let_def nat_add_distrib split: option.splits)

interpretation hosts: keyed_counter "\<lambda>tbl h. ns_fetch_host_count tbl (Some h)"
  "\<lambda>h. ns_fetch_host_adjust (Some h) 1" "\<lambda>h. ns_fetch_host_adjust (Some h) (- 1)" "\<lambda>h. None"
  by unfold_locales (simp_all only: host_count_adjust, simp_all add: ns_fetch_host_count_def)

subsection \<open>Runs of the throttle\<close>

text \<open>
  The throttle, the tasks that run and the number of dispatchers that have not returned.  Threads
  submit tasks, end and take turns of their dispatcher in any order.
\<close>

type_synonym throttle_run = "throttle \<times> fetch_task list \<times> nat"

inductive throttle_step :: "throttle_run \<Rightarrow> throttle_run \<Rightarrow> bool" where
  Submit: "throttle_step (s, running, n) (enqueue_fetch t s, running, Suc n)"
| Turn: "dispatch_turn s = Some (s', t) \<Longrightarrow> throttle_step (s, running, Suc n) (s', running @ [t], Suc n)"
| Return: "dispatch_turn s = None \<Longrightarrow> throttle_step (s, running, Suc n) (s, running, n)"
| Finish: "throttle_step (s, before @ t # after, n) (release_fetch t s, before @ after, Suc n)"

inductive throttle_reachable :: "throttle_run \<Rightarrow> bool" where
  Start: "throttle_reachable (\<lparr> fetch_active = 0, host_active = (\<lambda>h. None), fetch_queue = [] \<rparr>, [], 0)"
| Step: "throttle_reachable r \<Longrightarrow> throttle_step r r' \<Longrightarrow> throttle_reachable r'"

definition hosts_of :: "fetch_task list \<Rightarrow> cstr list" where
  "hosts_of ts = List.map_filter task_host ts"

lemma hosts_of_simps [simp]:
  "hosts_of [] = []" "hosts_of (ts @ us) = hosts_of ts @ hosts_of us"
  "hosts_of (t # ts) = (case task_host t of None \<Rightarrow> hosts_of ts | Some h \<Rightarrow> h # hosts_of ts)"
  by (auto simp: hosts_of_def List.map_filter_def split: option.splits)

definition throttle_ok :: "throttle \<Rightarrow> fetch_task list \<Rightarrow> bool" where
  "throttle_ok s running \<longleftrightarrow>
     fetch_active s = length running \<and> length running \<le> NS_MAX_CONCURRENT_FETCHES \<and>
     tracks (\<lambda>h. ns_fetch_host_count (host_active s) (Some h)) (hosts_of running) \<and>
     (\<forall>h. ns_fetch_host_count (host_active s) (Some h) \<le> NS_MAX_FETCHES_PER_HOST)"

text \<open>Nothing that could start is left waiting.\<close>

definition throttle_busy :: "throttle \<Rightarrow> bool" where
  "throttle_busy s \<longleftrightarrow>
     fetch_active s \<ge> NS_MAX_CONCURRENT_FETCHES \<or> list_all (\<lambda>t. \<not> startable (host_active s) t) (fetch_queue s)"

lemma adjust_None [simp]: "ns_fetch_host_adjust None d tbl = tbl"
  by (simp add: ns_fetch_host_adjust_def)

lemma dispatch_turn_None: "dispatch_turn s = None \<longleftrightarrow> throttle_busy s"
  by (auto simp: dispatch_turn_def throttle_busy_def take_startable_None [symmetric] split: option.splits)

lemma dispatch_turn_ok:
  assumes "dispatch_turn s = Some (s1, t)" "throttle_ok s running"
  shows "throttle_ok s1 (running @ [t])"
proof -
  have room: "fetch_active s < NS_MAX_CONCURRENT_FETCHES"
    using assms(1) by (auto simp: dispatch_turn_def split: if_splits)
  obtain q where q: "take_startable (host_active s) (fetch_queue s) = Some (t, q)"
    and s1: "s1 = s\<lparr> fetch_active := fetch_active s + 1,
        host_active := ns_fetch_host_adjust (task_host t) 1 (host_active s), fetch_queue := q \<rparr>"
    using assms(1) by (auto simp: dispatch_turn_def split: if_splits option.splits)
  have free: "startable (host_active s) t" using take_startable_Some [OF q] by blast
  show ?thesis
  proof (cases "task_host t")
    case None
    with assms(2) room show ?thesis by (simp add: throttle_ok_def s1)
  next
    case (Some h)
    with free have "ns_fetch_host_count (host_active s) (Some h) < NS_MAX_FETCHES_PER_HOST"
      by (simp add: startable_def)
    with Some assms(2) room hosts.below_limit_up [of "host_active s" NS_MAX_FETCHES_PER_HOST h]
      hosts.tracks_up [of "host_active s" "hosts_of running" h]
    show ?thesis by (simp add: throttle_ok_def s1)
  qed
qed

lemma release_ok:
  assumes "throttle_ok s (before @ t # after)"
  shows "throttle_ok (release_fetch t s) (before @ after)"
proof (cases "task_host t")
  case None
  with assms show ?thesis by (simp add: throttle_ok_def release_fetch_def)
next
  case (Some h)
  with assms have "tracks (\<lambda>h. ns_fetch_host_count (host_active s) (Some h)) (hosts_of before @ h # hosts_of after)"
    by (simp add: throttle_ok_def)
  from hosts.tracks_down [OF this] hosts.below_limit_down [of "host_active s" NS_MAX_FETCHES_PER_HOST h] Some assms
  show ?thesis by (simp add: throttle_ok_def release_fetch_def)
qed

text \<open>The whole dispatcher is its turns, taken until none is left.\<close>

lemma dispatch_turns:
  assumes "throttle_ok s running" "ns_fetch_throttle_dispatch s = (s', started)"
  shows "throttle_ok s' (running @ started) \<and> throttle_busy s' \<and>
         throttle_step\<^sup>*\<^sup>* (s, running, Suc n) (s', running @ started, n)"
  using assms
proof (induction s arbitrary: running s' started rule: ns_fetch_throttle_dispatch.induct)
  case (1 s)
  show ?case
  proof (cases "dispatch_turn s")
    case None
    with 1 show ?thesis
      by (auto simp: ns_fetch_throttle_dispatch.simps [of s] dispatch_turn_None [symmetric] intro: throttle_step.Return)
  next
    case (Some p)
    obtain s1 t where p: "p = (s1, t)" by (cases p)
    obtain s2 st where d: "ns_fetch_throttle_dispatch s1 = (s2, st)" by (cases "ns_fetch_throttle_dispatch s1")
    have res: "s' = s2" "started = t # st"
      using "1.prems"(2) Some d unfolding p by (simp_all add: ns_fetch_throttle_dispatch.simps [of s])
    have turn: "throttle_step (s, running, Suc n) (s1, running @ [t], Suc n)"
      using Some p by (intro throttle_step.Turn) simp
    from "1.IH" [OF Some p [symmetric] dispatch_turn_ok [OF Some [unfolded p] "1.prems"(1)] d]
    show ?thesis using turn by (simp add: res) (meson converse_rtranclp_into_rtranclp)
  qed
qed

lemma throttle_reachable_ok:
  "throttle_reachable (s, running, n) \<Longrightarrow> throttle_ok s running \<and> (n > 0 \<or> throttle_busy s)"
proof (induction "(s, running, n)" arbitrary: s running n rule: throttle_reachable.induct)
  case Start
  then show ?case using hosts.tracks_empty by (simp add: throttle_ok_def throttle_busy_def ns_fetch_host_count_def)
next
  case (Step r)
  from Step.hyps(3) show ?case
  proof (cases rule: throttle_step.cases)
    case (Submit s0 t)
    with Step.hyps(2) show ?thesis by (simp add: throttle_ok_def enqueue_fetch_def)
  next
    case (Turn s0 t running0 n0)
    with Step.hyps(2) dispatch_turn_ok show ?thesis by simp
  next
    case Return
    with Step.hyps(2) show ?thesis by (simp add: dispatch_turn_None)
  next
    case (Finish s0 before t after n0)
    with Step.hyps(2) release_ok show ?thesis by simp
  qed
qed

text \<open>
  however requests are submitted and end, and however the threads interleave, at most 32
  fetches run at a time and at most 6 for one host, and the throttle's counters say exactly how
  many run.
\<close>

theorem throttle_limits:
  assumes "throttle_reachable (s, running, n)"
  shows "length running \<le> 32 \<and> fetch_active s = length running \<and>
         count_list (hosts_of running) h \<le> 6 \<and>
         ns_fetch_host_count (host_active s) (Some h) = count_list (hosts_of running) h"
proof -
  have "tracks (\<lambda>h. ns_fetch_host_count (host_active s) (Some h)) (hosts_of running)"
    and "ns_fetch_host_count (host_active s) (Some h) \<le> 6"
    and "fetch_active s = length running" "length running \<le> 32"
    using throttle_reachable_ok [OF assms]
    by (auto simp: throttle_ok_def NS_MAX_FETCHES_PER_HOST_def NS_MAX_CONCURRENT_FETCHES_def)
  then show ?thesis by (auto simp: tracks_def)
qed

text \<open>
  the throttle never leaves a request waiting without need: when every dispatcher has returned,
  either 32 fetches run or every waiting request is for a host of which 6 fetches run; so a request
  whose URL has no host waits only while 32 fetches run.
\<close>

theorem throttle_work_conserving:
  assumes "throttle_reachable (s, running, 0)" "t \<in> set (fetch_queue s)"
  shows "length running = 32 \<or> (case task_host t of None \<Rightarrow> False | Some h \<Rightarrow> count_list (hosts_of running) h = 6)"
proof -
  have inv: "throttle_ok s running" "throttle_busy s" using throttle_reachable_ok [OF assms(1)] by auto
  show ?thesis
  proof (cases "length running = 32")
    case False
    with inv assms(2) have "\<not> startable (host_active s) t"
      by (auto simp: throttle_ok_def throttle_busy_def NS_MAX_CONCURRENT_FETCHES_def list_all_iff)
    then obtain h where h: "task_host t = Some h" "\<not> ns_fetch_host_count (host_active s) (Some h) < 6"
      by (auto simp: startable_def NS_MAX_FETCHES_PER_HOST_def)
    have "ns_fetch_host_count (host_active s) (Some h) = count_list (hosts_of running) h"
      "ns_fetch_host_count (host_active s) (Some h) \<le> 6"
      using inv by (auto simp: throttle_ok_def tracks_def NS_MAX_FETCHES_PER_HOST_def)
    with h show ?thesis by simp
  qed simp
qed

subsection \<open>A run to witness the limits\<close>

definition one_task :: fetch_task where
  "one_task = \<lparr> task_id = 1, task_host = Some ''a'' \<rparr>"

definition busy_host :: "nat \<Rightarrow> fetch_task list \<Rightarrow> throttle" where
  "busy_host k q = \<lparr> fetch_active = k, host_active = (if k = 0 then (\<lambda>h. None) else (\<lambda>h. None)(''a'' \<mapsto> k)), fetch_queue = q \<rparr>"

lemma busy_host_turn:
  "dispatch_turn (busy_host k [one_task]) = (if k < 6 then Some (busy_host (Suc k) [], one_task) else None)"
  "dispatch_turn (busy_host k []) = None"
  by (auto simp: dispatch_turn_def NS_MAX_CONCURRENT_FETCHES_def startable_def ns_fetch_host_count_def
      NS_MAX_FETCHES_PER_HOST_def ns_fetch_host_adjust_def one_task_def busy_host_def Let_def nat_add_distrib)

lemma busy_host_submit:
  "throttle_reachable (busy_host k [], run, 0) \<Longrightarrow> throttle_reachable (busy_host k [one_task], run, Suc 0)"
  using throttle_reachable.Step [OF _ throttle_step.Submit, of "busy_host k []" run 0 one_task]
  by (simp add: enqueue_fetch_def busy_host_def)

lemma busy_host_reachable: "k \<le> 6 \<Longrightarrow> throttle_reachable (busy_host k [], replicate k one_task, 0)"
proof (induction k)
  case 0
  then show ?case using throttle_reachable.Start by (simp add: busy_host_def)
next
  case (Suc k)
  then have "throttle_reachable (busy_host k [one_task], replicate k one_task, Suc 0)"
    by (simp add: busy_host_submit)
  moreover have "dispatch_turn (busy_host k [one_task]) = Some (busy_host (Suc k) [], one_task)"
    using Suc.prems by (simp add: busy_host_turn)
  ultimately have "throttle_reachable (busy_host (Suc k) [], replicate k one_task @ [one_task], Suc 0)"
    by (metis throttle_reachable.Step throttle_step.Turn)
  then have "throttle_reachable (busy_host (Suc k) [], replicate k one_task @ [one_task], 0)"
    by (metis throttle_reachable.Step throttle_step.Return busy_host_turn(2))
  then show ?case by (simp add: replicate_append_same)
qed

lemma busy_host_waits: "throttle_reachable (busy_host 6 [one_task], replicate 6 one_task, 0)"
proof -
  have "throttle_reachable (busy_host 6 [one_task], replicate 6 one_task, Suc 0)"
    by (rule busy_host_submit [OF busy_host_reachable]) simp
  moreover have "dispatch_turn (busy_host 6 [one_task]) = None" by (simp add: busy_host_turn)
  ultimately show ?thesis by (metis throttle_reachable.Step throttle_step.Return)
qed

theorem throttle_limits_witness:
  "length (replicate 6 one_task) \<le> 32 \<and> count_list (hosts_of (replicate 6 one_task)) ''a'' \<le> 6"
  using throttle_limits [OF busy_host_waits, of "''a''"] by simp

theorem throttle_work_conserving_witness:
  "length (replicate 6 one_task) = 32 \<or>
   (case task_host one_task of None \<Rightarrow> False | Some h \<Rightarrow> count_list (hosts_of (replicate 6 one_task)) h = 6)"
  by (rule throttle_work_conserving [OF busy_host_waits]) (simp add: busy_host_def)

section \<open>Shared transfers and announced responses\<close>

definition NS_PRELOAD_MAX_ENTRIES :: nat where
  "NS_PRELOAD_MAX_ENTRIES = 64"

definition NS_PRELOAD_MAX_BYTES :: nat where
  "NS_PRELOAD_MAX_BYTES = 16 * 1024 * 1024"

text \<open>
  The requests that wait for the transfer of another one, and the state under \<^verbatim>\<open>g_fetch_mutex\<close>:
  hash tables are association lists with distinct keys.  The byte count is a natural number: both
  terms of every sum the code forms are at most 16 MiB, far below the width of \<^verbatim>\<open>guint\<close>.
\<close>

record coalesce_group =
  grp_tasks :: "nat list"
  grp_syncs :: "nat list"

record coalescer =
  fetch_coalesce :: "(cstr \<times> coalesce_group) list"
  preload_expected :: "cstr list"
  preload_store :: "(cstr \<times> ns_response) list"
  preload_bytes :: nat

definition delete_key :: "'k \<Rightarrow> ('k \<times> 'v) list \<Rightarrow> ('k \<times> 'v) list" where
  "delete_key k xs = filter (\<lambda>p. fst p \<noteq> k) xs"

definition update_key :: "'k \<Rightarrow> ('v \<Rightarrow> 'v) \<Rightarrow> ('k \<times> 'v) list \<Rightarrow> ('k \<times> 'v) list" where
  "update_key k f xs = map (\<lambda>p. if fst p = k then (fst p, f (snd p)) else p) xs"

definition ns_response_forbids_reuse :: "ns_response \<Rightarrow> bool" where
  "ns_response_forbids_reuse resp =
     (case raw_headers resp of None \<Rightarrow> False | Some h \<Rightarrow> strstr (g_ascii_strdown h) ''no-store'' \<noteq> None)"

definition ns_net_preload_expect :: "cstr \<Rightarrow> coalescer \<Rightarrow> coalescer" where
  "ns_net_preload_expect key s =
     (if length (preload_expected s) < NS_PRELOAD_MAX_ENTRIES \<and> key \<notin> set (preload_expected s)
      then s\<lparr> preload_expected := key # preload_expected s \<rparr> else s)"

definition ns_net_preload_clear :: "coalescer \<Rightarrow> coalescer" where
  "ns_net_preload_clear s = s\<lparr> preload_expected := [], preload_store := [], preload_bytes := 0 \<rparr>"

definition ns_preload_take :: "cstr \<Rightarrow> coalescer \<Rightarrow> coalescer \<times> ns_response option" where
  "ns_preload_take key s =
     (case map_of (preload_store s) key of
        None \<Rightarrow> (s, None)
      | Some resp \<Rightarrow>
          let len = length (body resp) in
          (s\<lparr> preload_store := delete_key key (preload_store s),
              preload_bytes := (if preload_bytes s > len then preload_bytes s - len else 0) \<rparr>, Some resp))"

definition preload_storable :: "cstr \<Rightarrow> ns_response \<Rightarrow> coalescer \<Rightarrow> bool" where
  "preload_storable key resp s \<longleftrightarrow>
     status resp = 200 \<and> error resp = None \<and> length (body resp) \<le> NS_PRELOAD_MAX_BYTES \<and>
     preload_bytes s + length (body resp) \<le> NS_PRELOAD_MAX_BYTES \<and>
     \<not> ns_response_forbids_reuse resp \<and> map_of (preload_store s) key = None"

definition ns_preload_store :: "cstr \<Rightarrow> ns_response \<Rightarrow> coalescer \<Rightarrow> coalescer" where
  "ns_preload_store key resp s =
     (if key \<notin> set (preload_expected s) then s
      else
        let s1 = s\<lparr> preload_expected := removeAll key (preload_expected s) \<rparr> in
        if \<not> preload_storable key resp s1 then s1
        else s1\<lparr> preload_bytes := preload_bytes s + length (body resp),
                 preload_store := (key, resp) # preload_store s \<rparr>)"

datatype ns_fetch_claim =
    NS_FETCH_LEAD
  | NS_FETCH_JOINED
  | NS_FETCH_PRELOADED ns_response

definition ns_fetch_claim_key :: "cstr \<Rightarrow> coalescer \<Rightarrow> coalescer \<times> ns_fetch_claim" where
  "ns_fetch_claim_key key s =
     (case ns_preload_take key s of
        (s1, Some hit) \<Rightarrow> (s1, NS_FETCH_PRELOADED hit)
      | (s1, None) \<Rightarrow>
          (case map_of (fetch_coalesce s1) key of
             Some grp \<Rightarrow> (s1, NS_FETCH_JOINED)
           | None \<Rightarrow>
               (s1\<lparr> fetch_coalesce := (key, \<lparr> grp_tasks = [], grp_syncs = [] \<rparr>) # fetch_coalesce s1 \<rparr>, NS_FETCH_LEAD)))"

text \<open>
  A claim with what its caller does under the same lock: a joiner enters the group, as a task or,
  for a blocking request, as a waiter.
\<close>

definition ns_fetch_join :: "bool \<Rightarrow> nat \<Rightarrow> cstr \<Rightarrow> coalescer \<Rightarrow> coalescer \<times> ns_fetch_claim" where
  "ns_fetch_join sync req key s =
     (case ns_fetch_claim_key key s of
        (s1, NS_FETCH_JOINED) \<Rightarrow>
          (s1\<lparr> fetch_coalesce := update_key key
                 (if sync then grp_syncs_update (\<lambda>ws. ws @ [req]) else grp_tasks_update (\<lambda>ws. ws @ [req]))
                 (fetch_coalesce s1) \<rparr>, NS_FETCH_JOINED)
      | r \<Rightarrow> r)"

text \<open>A blocking request that waited too long leaves its group.\<close>

definition abandon_wait :: "nat \<Rightarrow> cstr \<Rightarrow> coalescer \<Rightarrow> coalescer" where
  "abandon_wait req key s =
     s\<lparr> fetch_coalesce := update_key key (grp_syncs_update (remove1 req)) (fetch_coalesce s) \<rparr>"

text \<open>The end of the leader's transfer; a failed one has no response and every waiter gets its error.\<close>

definition ns_fetch_coalesce_deliver ::
  "cstr \<Rightarrow> ns_response option \<Rightarrow> coalescer \<Rightarrow> coalescer \<times> (nat \<times> ns_response option) list" where
  "ns_fetch_coalesce_deliver key resp s =
     (let s1 = (case resp of
                  Some r \<Rightarrow> ns_preload_store key r s
                | None \<Rightarrow> s\<lparr> preload_expected := removeAll key (preload_expected s) \<rparr>)
      in (s1\<lparr> fetch_coalesce := delete_key key (fetch_coalesce s1) \<rparr>,
          (case map_of (fetch_coalesce s1) key of
             None \<Rightarrow> []
           | Some grp \<Rightarrow> map (\<lambda>w. (w, resp)) (grp_syncs grp @ grp_tasks grp))))"

subsection \<open>Tables with distinct keys\<close>

lemma delete_key_notin [simp]: "k \<notin> fst ` set xs \<Longrightarrow> delete_key k xs = xs"
  by (induction xs) (auto simp: delete_key_def)

lemma update_key_notin [simp]: "k \<notin> fst ` set xs \<Longrightarrow> update_key k f xs = xs"
  by (induction xs) (auto simp: update_key_def)

lemma key_append [simp]:
  "delete_key k (xs @ ys) = delete_key k xs @ delete_key k ys"
  "update_key k f (xs @ ys) = update_key k f xs @ update_key k f ys"
  "delete_key k ((k, v) # ys) = delete_key k ys"
  "update_key k f ((k, v) # ys) = (k, f v) # update_key k f ys"
  by (simp_all add: delete_key_def update_key_def)

lemma keyed_split:
  assumes "map_of xs k = Some v" "distinct (map fst xs)"
  obtains a b where "xs = a @ (k, v) # b" "k \<notin> fst ` set a" "k \<notin> fst ` set b"
proof -
  from assms(1) have "(k, v) \<in> set xs" by (rule map_of_SomeD)
  then obtain a b where xs: "xs = a @ (k, v) # b" by (meson split_list)
  with assms(2) have "k \<notin> fst ` set a" "k \<notin> fst ` set b" by auto
  with xs show thesis by (rule that)
qed

subsection \<open>The announced responses stay within their budget\<close>

definition preload_ok :: "coalescer \<Rightarrow> bool" where
  "preload_ok s \<longleftrightarrow>
     preload_bytes s = sum_list (map (\<lambda>p. length (body (snd p))) (preload_store s)) \<and>
     preload_bytes s \<le> NS_PRELOAD_MAX_BYTES \<and> distinct (map fst (preload_store s)) \<and>
     length (preload_expected s) \<le> NS_PRELOAD_MAX_ENTRIES"

lemma preload_take_ok:
  assumes "preload_ok s"
  shows "preload_ok (fst (ns_preload_take key s))"
proof (cases "map_of (preload_store s) key")
  case None
  with assms show ?thesis by (simp add: ns_preload_take_def)
next
  case (Some r)
  have "distinct (map fst (preload_store s))" using assms by (simp add: preload_ok_def)
  with Some obtain a b where ab: "preload_store s = a @ (key, r) # b" "key \<notin> fst ` set a" "key \<notin> fst ` set b"
    by (rule keyed_split)
  with Some assms show ?thesis by (auto simp: ns_preload_take_def preload_ok_def Let_def)
qed

lemma preload_store_ok: "preload_ok s \<Longrightarrow> preload_ok (ns_preload_store key r s)"
  by (auto simp: ns_preload_store_def preload_storable_def preload_ok_def Let_def map_of_eq_None_iff
      intro: order_trans [OF length_removeAll_less_eq])

lemma preload_groups [simp]:
  "fetch_coalesce (ns_preload_store key r s) = fetch_coalesce s"
  "fetch_coalesce (fst (ns_preload_take key s)) = fetch_coalesce s"
  by (auto simp: ns_preload_store_def ns_preload_take_def Let_def split: option.splits)

lemma preload_ok_groups [simp]: "preload_ok (s\<lparr> fetch_coalesce := g \<rparr>) = preload_ok s"
  by (simp add: preload_ok_def)

lemma preload_drop_expected [simp]:
  "preload_ok s \<Longrightarrow> preload_ok (s\<lparr> preload_expected := removeAll key (preload_expected s) \<rparr>)"
  by (auto simp: preload_ok_def intro: order_trans [OF length_removeAll_less_eq])

subsection \<open>Runs of the coalescer\<close>

text \<open>
  A run: the state, the requests that lead a transfer with their keys, the answers handed out, and
  the requests made so far.  Every request is made under a number of its own.
\<close>

record coalesce_run =
  run_state :: coalescer
  run_leaders :: "(cstr \<times> nat) list"
  run_answers :: "(nat \<times> ns_response option) list"
  run_requests :: "nat list"

definition after_join :: "nat \<Rightarrow> cstr \<Rightarrow> coalescer \<times> ns_fetch_claim \<Rightarrow> coalesce_run \<Rightarrow> coalesce_run" where
  "after_join req key r run =
     (case r of
        (s, NS_FETCH_LEAD) \<Rightarrow>
          run\<lparr> run_state := s, run_leaders := (key, req) # run_leaders run, run_requests := req # run_requests run \<rparr>
      | (s, NS_FETCH_JOINED) \<Rightarrow> run\<lparr> run_state := s, run_requests := req # run_requests run \<rparr>
      | (s, NS_FETCH_PRELOADED resp) \<Rightarrow>
          run\<lparr> run_state := s, run_answers := (req, Some resp) # run_answers run, run_requests := req # run_requests run \<rparr>)"

definition after_deliver :: "cstr \<Rightarrow> nat \<Rightarrow> ns_response option \<Rightarrow> coalesce_run \<Rightarrow> coalesce_run" where
  "after_deliver key req resp run =
     (case ns_fetch_coalesce_deliver key resp (run_state run) of
        (s, handed) \<Rightarrow>
          run\<lparr> run_state := s, run_leaders := delete_key key (run_leaders run),
               run_answers := (req, resp) # handed @ run_answers run \<rparr>)"

definition after_abandon :: "cstr \<Rightarrow> nat \<Rightarrow> coalesce_run \<Rightarrow> coalesce_run" where
  "after_abandon key req run =
     run\<lparr> run_state := abandon_wait req key (run_state run), run_answers := (req, None) # run_answers run \<rparr>"

inductive coalesce_step :: "coalesce_run \<Rightarrow> coalesce_run \<Rightarrow> bool" where
  Join: "req \<notin> set (run_requests run) \<Longrightarrow>
         coalesce_step run (after_join req key (ns_fetch_join sync req key (run_state run)) run)"
| Deliver: "(key, req) \<in> set (run_leaders run) \<Longrightarrow> coalesce_step run (after_deliver key req resp run)"
| Abandon: "map_of (fetch_coalesce (run_state run)) key = Some grp \<Longrightarrow> req \<in> set (grp_syncs grp) \<Longrightarrow>
            coalesce_step run (after_abandon key req run)"
| Expect: "coalesce_step run (run\<lparr> run_state := ns_net_preload_expect key (run_state run) \<rparr>)"
| Clear: "coalesce_step run (run\<lparr> run_state := ns_net_preload_clear (run_state run) \<rparr>)"

inductive coalesce_reachable :: "coalesce_run \<Rightarrow> bool" where
  Start: "coalesce_reachable
            \<lparr> run_state = \<lparr> fetch_coalesce = [], preload_expected = [], preload_store = [], preload_bytes = 0 \<rparr>,
              run_leaders = [], run_answers = [], run_requests = [] \<rparr>"
| Step: "coalesce_reachable run \<Longrightarrow> coalesce_step run run' \<Longrightarrow> coalesce_reachable run'"

definition group_waiters :: "coalesce_group \<Rightarrow> nat list" where
  "group_waiters g = grp_syncs g @ grp_tasks g"

definition all_waiters :: "(cstr \<times> coalesce_group) list \<Rightarrow> nat list" where
  "all_waiters gs = concat (map (\<lambda>p. group_waiters (snd p)) gs)"

text \<open>Each request is led, waiting or answered, once; the groups are those of the leaders.\<close>

definition coalesce_ok :: "coalesce_run \<Rightarrow> bool" where
  "coalesce_ok run \<longleftrightarrow>
     preload_ok (run_state run) \<and> distinct (run_requests run) \<and>
     distinct (map fst (fetch_coalesce (run_state run))) \<and>
     mset (map fst (run_leaders run)) = mset (map fst (fetch_coalesce (run_state run))) \<and>
     mset (run_requests run) = mset (map fst (run_answers run)) + mset (map snd (run_leaders run)) +
       mset (all_waiters (fetch_coalesce (run_state run)))"

lemma all_waiters_simps [simp]:
  "all_waiters [] = []" "all_waiters (xs @ ys) = all_waiters xs @ all_waiters ys"
  "all_waiters ((k, g) # ys) = grp_syncs g @ grp_tasks g @ all_waiters ys"
  by (simp_all add: all_waiters_def group_waiters_def)

lemma preload_take_cases:
  "ns_preload_take key s = (s1, None) \<Longrightarrow> s1 = s"
  "preload_ok s \<Longrightarrow> ns_preload_take key s = (s1, r) \<Longrightarrow> preload_ok s1 \<and> fetch_coalesce s1 = fetch_coalesce s"
  using preload_take_ok [of s key] preload_groups(2) [of key s]
  by (auto simp: ns_preload_take_def Let_def split: option.splits)

lemma leaders_split:
  assumes "coalesce_ok run" "(key, req) \<in> set (run_leaders run)"
  obtains la lb where "run_leaders run = la @ (key, req) # lb" "key \<notin> fst ` set la" "key \<notin> fst ` set lb"
proof -
  have "distinct (map fst (run_leaders run))"
    using assms(1) by (metis coalesce_ok_def mset_eq_imp_distinct_iff)
  then have "map_of (run_leaders run) key = Some req" using assms(2) by simp
  then show thesis using \<open>distinct _\<close> by (rule keyed_split) (rule that)
qed

lemma join_ok:
  assumes "coalesce_ok run" "req \<notin> set (run_requests run)"
  shows "coalesce_ok (after_join req key (ns_fetch_join sync req key (run_state run)) run)"
proof -
  let ?s = "run_state run"
  obtain s1 hit where t: "ns_preload_take key ?s = (s1, hit)" by (cases "ns_preload_take key ?s")
  have s1: "preload_ok s1" "fetch_coalesce s1 = fetch_coalesce ?s"
    using preload_take_cases(2) [OF _ t] assms(1) by (auto simp: coalesce_ok_def)
  show ?thesis
  proof (cases hit)
    case (Some r)
    with t s1 assms show ?thesis
      by (simp add: ns_fetch_join_def ns_fetch_claim_key_def after_join_def coalesce_ok_def)
  next
    case None
    show ?thesis
    proof (cases "map_of (fetch_coalesce ?s) key")
      case None
      then have "key \<notin> fst ` set (fetch_coalesce ?s)" by (simp add: map_of_eq_None_iff)
      moreover have "ns_fetch_join sync req key ?s =
          (s1\<lparr> fetch_coalesce := (key, \<lparr> grp_tasks = [], grp_syncs = [] \<rparr>) # fetch_coalesce s1 \<rparr>, NS_FETCH_LEAD)"
        using t s1 None \<open>hit = None\<close> by (simp add: ns_fetch_join_def ns_fetch_claim_key_def)
      ultimately show ?thesis using s1 assms by (simp add: after_join_def coalesce_ok_def)
    next
      case (Some g)
      have "distinct (map fst (fetch_coalesce ?s))" using assms(1) by (simp add: coalesce_ok_def)
      with Some obtain a b where "fetch_coalesce ?s = a @ (key, g) # b" "key \<notin> fst ` set a" "key \<notin> fst ` set b"
        by (rule keyed_split)
      with Some t \<open>hit = None\<close> s1 assms show ?thesis
        by (simp add: ns_fetch_join_def ns_fetch_claim_key_def after_join_def coalesce_ok_def)
    qed
  qed
qed

lemma deliver_ok:
  assumes "coalesce_ok run" "(key, req) \<in> set (run_leaders run)"
  shows "coalesce_ok (after_deliver key req resp run)"
proof -
  let ?s = "run_state run"
  obtain la lb where l: "run_leaders run = la @ (key, req) # lb" "key \<notin> fst ` set la" "key \<notin> fst ` set lb"
    using leaders_split [OF assms] .
  have dist: "distinct (map fst (fetch_coalesce ?s))"
    and keys: "mset (map fst (run_leaders run)) = mset (map fst (fetch_coalesce ?s))"
    using assms(1) by (simp_all add: coalesce_ok_def)
  have "key \<in> set (map fst (run_leaders run))" by (simp add: l)
  then have "key \<in> set (map fst (fetch_coalesce ?s))" using keys by (metis mset_eq_setD)
  then obtain g where g: "map_of (fetch_coalesce ?s) key = Some g"
    by (metis list.set_map map_of_eq_None_iff not_None_eq)
  obtain a b where ab: "fetch_coalesce ?s = a @ (key, g) # b" "key \<notin> fst ` set a" "key \<notin> fst ` set b"
    using keyed_split [OF g dist] .
  have "preload_ok (case resp of Some r \<Rightarrow> ns_preload_store key r ?s
      | None \<Rightarrow> ?s\<lparr> preload_expected := removeAll key (preload_expected ?s) \<rparr>)"
    using assms(1) by (simp add: coalesce_ok_def preload_store_ok split: option.split)
  moreover have "fetch_coalesce (case resp of Some r \<Rightarrow> ns_preload_store key r ?s
      | None \<Rightarrow> ?s\<lparr> preload_expected := removeAll key (preload_expected ?s) \<rparr>) = fetch_coalesce ?s"
    by (simp split: option.split)
  moreover have "map fst (map (\<lambda>w. (w, resp)) ws) = ws" for ws :: "nat list" by (simp add: comp_def)
  ultimately show ?thesis
    using assms(1) l ab g
    by (simp add: after_deliver_def ns_fetch_coalesce_deliver_def Let_def coalesce_ok_def)
qed

lemma abandon_ok:
  assumes "coalesce_ok run" "map_of (fetch_coalesce (run_state run)) key = Some grp" "req \<in> set (grp_syncs grp)"
  shows "coalesce_ok (after_abandon key req run)"
proof -
  have "distinct (map fst (fetch_coalesce (run_state run)))" using assms(1) by (simp add: coalesce_ok_def)
  with assms(2) obtain a b where ab: "fetch_coalesce (run_state run) = a @ (key, grp) # b" "key \<notin> fst ` set a" "key \<notin> fst ` set b"
    by (rule keyed_split)
  obtain w1 w2 where w: "grp_syncs grp = w1 @ req # w2" "req \<notin> set w1"
    using assms(3) by (meson split_list_first)
  then have "remove1 req (grp_syncs grp) = w1 @ w2" by (simp add: remove1_append)
  with assms(1) ab w show ?thesis
    by (simp add: after_abandon_def abandon_wait_def coalesce_ok_def)
qed

lemma coalesce_reachable_ok: "coalesce_reachable run \<Longrightarrow> coalesce_ok run"
proof (induction rule: coalesce_reachable.induct)
  case Start
  then show ?case by (simp add: coalesce_ok_def preload_ok_def)
next
  case (Step run run')
  from Step.hyps(2) Step.IH show ?case
  proof (cases rule: coalesce_step.cases)
    case (Expect key)
    with Step.IH show ?thesis
      by (auto simp: coalesce_ok_def preload_ok_def ns_net_preload_expect_def)
  next
    case Clear
    with Step.IH show ?thesis by (simp add: coalesce_ok_def preload_ok_def ns_net_preload_clear_def)
  qed (use Step.IH join_ok deliver_ok abandon_ok in auto)
qed

text \<open>
  a request is never forgotten and never answered twice: in every run, each request made is
  exactly one of answered, leading a transfer or waiting in a group, there is one transfer at most
  for a key, every group has a leader under way, and so when no transfer is under way every request
  has been answered.
\<close>

theorem coalesced_requests_answered_once:
  assumes "coalesce_reachable run"
  shows "distinct (map fst (run_answers run) @ map snd (run_leaders run) @
           all_waiters (fetch_coalesce (run_state run))) \<and>
         set (run_requests run) = fst ` set (run_answers run) \<union> snd ` set (run_leaders run) \<union>
           set (all_waiters (fetch_coalesce (run_state run))) \<and>
         distinct (map fst (run_leaders run)) \<and>
         fst ` set (fetch_coalesce (run_state run)) = fst ` set (run_leaders run) \<and>
         (run_leaders run \<noteq> [] \<or> set (run_requests run) = fst ` set (run_answers run))"
proof -
  note ok = coalesce_reachable_ok [OF assms, unfolded coalesce_ok_def]
  have ms: "mset (run_requests run) =
      mset (map fst (run_answers run) @ map snd (run_leaders run) @ all_waiters (fetch_coalesce (run_state run)))"
    and keys: "mset (map fst (run_leaders run)) = mset (map fst (fetch_coalesce (run_state run)))"
    and d: "distinct (run_requests run)" "distinct (map fst (fetch_coalesce (run_state run)))"
    using ok by (simp_all only: mset_append add.assoc)
  have sets: "set (run_requests run) = fst ` set (run_answers run) \<union> snd ` set (run_leaders run) \<union>
      set (all_waiters (fetch_coalesce (run_state run)))"
    using mset_eq_setD [OF ms] by (simp add: Un_assoc)
  have same: "fst ` set (run_leaders run) = fst ` set (fetch_coalesce (run_state run))"
    using mset_eq_setD [OF keys] by simp
  have "run_leaders run = [] \<Longrightarrow> fetch_coalesce (run_state run) = []" using same by simp
  then show ?thesis
    using mset_eq_imp_distinct_iff [OF ms] mset_eq_imp_distinct_iff [OF keys] d sets same by auto
qed

text \<open>
  the responses kept for announced requests never take more than 16 MiB, and the byte count the
  budget is checked against is exact: it is the sum of the sizes of the bodies kept; at most 64
  announcements are outstanding.
\<close>

theorem preload_budget:
  assumes "coalesce_reachable run"
  shows "preload_bytes (run_state run) =
           sum_list (map (\<lambda>p. length (body (snd p))) (preload_store (run_state run))) \<and>
         preload_bytes (run_state run) \<le> 16 * 1024 * 1024 \<and>
         length (preload_expected (run_state run)) \<le> 64"
  using coalesce_reachable_ok [OF assms]
  by (simp add: coalesce_ok_def preload_ok_def NS_PRELOAD_MAX_BYTES_def NS_PRELOAD_MAX_ENTRIES_def)

subsection \<open>A run to witness the properties\<close>

definition start_run :: coalesce_run where
  "start_run = \<lparr> run_state = \<lparr> fetch_coalesce = [], preload_expected = [], preload_store = [], preload_bytes = 0 \<rparr>,
     run_leaders = [], run_answers = [], run_requests = [] \<rparr>"

definition joined_run :: coalesce_run where
  "joined_run = \<lparr> run_state = \<lparr> fetch_coalesce = [(''k'', \<lparr> grp_tasks = [2], grp_syncs = [] \<rparr>)],
       preload_expected = [], preload_store = [], preload_bytes = 0 \<rparr>,
     run_leaders = [(''k'', 7)], run_answers = [], run_requests = [2, 7] \<rparr>"

lemma joined_run_reachable: "coalesce_reachable joined_run"
proof -
  have 0: "coalesce_reachable start_run" unfolding start_run_def by (rule coalesce_reachable.Start)
  have "coalesce_step start_run (after_join 7 ''k'' (ns_fetch_join False 7 ''k'' (run_state start_run)) start_run)"
    by (rule coalesce_step.Join) (simp add: start_run_def)
  with 0 have 1: "coalesce_reachable (after_join 7 ''k'' (ns_fetch_join False 7 ''k'' (run_state start_run)) start_run)"
    (is "coalesce_reachable ?r1") by (rule coalesce_reachable.Step)
  have r1: "?r1 = \<lparr> run_state = \<lparr> fetch_coalesce = [(''k'', \<lparr> grp_tasks = [], grp_syncs = [] \<rparr>)],
       preload_expected = [], preload_store = [], preload_bytes = 0 \<rparr>,
     run_leaders = [(''k'', 7)], run_answers = [], run_requests = [7] \<rparr>"
    by (simp add: start_run_def ns_fetch_join_def ns_fetch_claim_key_def ns_preload_take_def after_join_def)
  have "coalesce_step ?r1 (after_join 2 ''k'' (ns_fetch_join False 2 ''k'' (run_state ?r1)) ?r1)"
    by (rule coalesce_step.Join) (simp add: r1)
  with 1 have "coalesce_reachable (after_join 2 ''k'' (ns_fetch_join False 2 ''k'' (run_state ?r1)) ?r1)"
    by (rule coalesce_reachable.Step)
  then show ?thesis
    unfolding r1
    by (simp add: joined_run_def ns_fetch_join_def ns_fetch_claim_key_def ns_preload_take_def after_join_def
        update_key_def)
qed

theorem coalesced_requests_answered_once_witness:
  "distinct (map fst (run_answers joined_run) @ map snd (run_leaders joined_run) @
     all_waiters (fetch_coalesce (run_state joined_run))) \<and>
   distinct (map fst (run_leaders joined_run))"
  using coalesced_requests_answered_once [OF joined_run_reachable] by blast

theorem preload_budget_witness:
  "preload_bytes (run_state joined_run) \<le> 16 * 1024 * 1024"
  using preload_budget [OF joined_run_reachable] by blast

end
