(* ===== verification/Hosts.thy ===== *)
theory Hosts
  imports Counters Url
begin

text \<open>
  What \<^verbatim>\<open>net.c\<close> remembers about hosts: those that did not answer, for two minutes; the connection
  slots of an origin, six of them; and the hosts that demand https (HSTS), read from curl's file and
  looked up with their parent domains.  Times are integers: microseconds of the monotonic clock, and
  seconds since 1970.
\<close>

section \<open>Hosts that did not answer\<close>

definition NS_DEAD_HOST_TTL_US :: int where
  "NS_DEAD_HOST_TTL_US = 120 * 1000000"

type_synonym dead_hosts = "cstr \<Rightarrow> int option"

definition ns_net_host_recently_dead :: "int \<Rightarrow> cstr \<Rightarrow> dead_hosts \<Rightarrow> dead_hosts \<times> bool" where
  "ns_net_host_recently_dead now host_name tbl =
     (case tbl host_name of
        None \<Rightarrow> (tbl, False)
      | Some expiry \<Rightarrow> if now < expiry then (tbl, True) else (tbl(host_name := None), False))"

definition ns_net_host_mark_dead :: "int \<Rightarrow> cstr \<Rightarrow> dead_hosts \<Rightarrow> dead_hosts" where
  "ns_net_host_mark_dead now host_name tbl = tbl(host_name \<mapsto> now + NS_DEAD_HOST_TTL_US)"

definition ns_net_host_mark_alive :: "cstr \<Rightarrow> dead_hosts \<Rightarrow> dead_hosts" where
  "ns_net_host_mark_alive host_name tbl = tbl(host_name := None)"

text \<open>The events of a run, with the time they happen at, and the table they leave.\<close>

datatype host_event = Failed cstr | Answered cstr | Asked cstr

fun dead_step :: "int \<times> host_event \<Rightarrow> dead_hosts \<Rightarrow> dead_hosts" where
  "dead_step (now, Failed h) tbl = ns_net_host_mark_dead now h tbl"
| "dead_step (now, Answered h) tbl = ns_net_host_mark_alive h tbl"
| "dead_step (now, Asked h) tbl = fst (ns_net_host_recently_dead now h tbl)"

definition dead_after :: "(int \<times> host_event) list \<Rightarrow> dead_hosts" where
  "dead_after evs = fold dead_step evs (\<lambda>h. None)"

text \<open>The reference: the time of the last failure with no answer after it.\<close>

fun last_failure :: "cstr \<Rightarrow> (int \<times> host_event) list \<Rightarrow> int option" where
  "last_failure h [] = None"
| "last_failure h ((t, e) # older) =
     (if e = Failed h then Some t else if e = Answered h then None else last_failure h older)"

definition dead_by :: "(int \<times> host_event) list \<Rightarrow> cstr \<Rightarrow> int \<Rightarrow> bool" where
  "dead_by newest_first h now =
     (case last_failure h newest_first of None \<Rightarrow> False | Some t \<Rightarrow> now < t + NS_DEAD_HOST_TTL_US)"

lemma dead_after_snoc: "dead_after (evs @ [e]) = dead_step e (dead_after evs)"
  by (simp add: dead_after_def)

lemma dead_table_cases:
  assumes "sorted (map fst (evs @ [(now, e)]))"
  shows "(case dead_after evs h of None \<Rightarrow> False | Some x \<Rightarrow> now < x) = dead_by (rev evs) h now"
  using assms
proof (induction evs arbitrary: now e rule: rev_induct)
  case Nil
  then show ?case by (simp add: dead_after_def dead_by_def)
next
  case (snoc p evs)
  obtain t ev where p: "p = (t, ev)" by (cases p)
  have s: "sorted (map fst (evs @ [(now, e)]))" "sorted (map fst (evs @ [(t, ev)]))" "t \<le> now"
    using snoc.prems by (auto simp: p sorted_append)
  note IH = snoc.IH [OF s(1)] snoc.IH [OF s(2)]
  show ?case
  proof (cases ev)
    case (Asked k)
    with IH s(3) show ?thesis
      by (cases "k = h") (auto simp: p dead_after_snoc ns_net_host_recently_dead_def dead_by_def split: option.splits)
  qed (use IH in \<open>auto simp: p dead_after_snoc ns_net_host_mark_dead_def ns_net_host_mark_alive_def dead_by_def\<close>)
qed

text \<open>
  after any sequence of failures, answers and questions in the order of the clock, a host is
  reported dead exactly when its last failure was less than two minutes ago and nothing has been
  heard from it since; dropping entries when they are asked for changes no answer.
\<close>

theorem dead_host_window:
  assumes "sorted (map fst (evs @ [(now, Asked h)]))"
  shows "snd (ns_net_host_recently_dead now h (dead_after evs)) = dead_by (rev evs) h now"
  using dead_table_cases [OF assms, of h] by (auto simp: ns_net_host_recently_dead_def split: option.splits)

theorem dead_host_window_witness:
  "snd (ns_net_host_recently_dead 10 ''h'' (dead_after [(1, Failed ''h''), (2, Asked ''h'')])) =
   dead_by (rev [(1, Failed ''h''), (2, Asked ''h'')]) ''h'' 10"
  by (rule dead_host_window) simp

section \<open>Connection slots of an origin\<close>

definition NS_NET_MAX_PER_ORIGIN :: nat where
  "NS_NET_MAX_PER_ORIGIN = 6"

text \<open>The slots in use, by key; the condition variable of a slot has no state of its own.\<close>

type_synonym slot_table = "cstr \<Rightarrow> nat option"

definition origin_slot_key :: "cstr option \<Rightarrow> cstr option" where
  "origin_slot_key origin_str = (if nonempty origin_str then Some (g_ascii_strdown (the origin_str)) else None)"

definition slot_enter :: "cstr \<Rightarrow> slot_table \<Rightarrow> slot_table" where
  "slot_enter key tbl = (case tbl key of None \<Rightarrow> tbl(key \<mapsto> 0) | Some n \<Rightarrow> tbl)"

definition slots_in_use :: "slot_table \<Rightarrow> cstr \<Rightarrow> nat" where
  "slots_in_use tbl key = (case tbl key of None \<Rightarrow> 0 | Some n \<Rightarrow> n)"

definition slot_up :: "cstr \<Rightarrow> slot_table \<Rightarrow> slot_table" where
  "slot_up key tbl = tbl(key \<mapsto> slots_in_use tbl key + 1)"

text \<open>One pass of the waiting loop, under the lock: it returns, or waits to be woken.\<close>

datatype slot_turn = Slot_Acquired slot_table | Slot_Cancelled | Slot_Wait

definition acquire_turn :: "bool \<Rightarrow> cstr \<Rightarrow> slot_table \<Rightarrow> slot_turn" where
  "acquire_turn cancelled key tbl =
     (if slots_in_use tbl key \<ge> NS_NET_MAX_PER_ORIGIN then (if cancelled then Slot_Cancelled else Slot_Wait)
      else Slot_Acquired (slot_up key tbl))"

definition ns_net_release_origin_slot :: "cstr option \<Rightarrow> slot_table \<Rightarrow> slot_table" where
  "ns_net_release_origin_slot origin_str tbl =
     (case origin_slot_key origin_str of
        None \<Rightarrow> tbl
      | Some key \<Rightarrow> (case tbl key of
                       None \<Rightarrow> tbl
                     | Some n \<Rightarrow> if n > 0 then tbl(key \<mapsto> n - 1) else tbl))"

lemma release_key:
  "slots_in_use (ns_net_release_origin_slot (Some origin_str) tbl) j =
     (if origin_str \<noteq> [] \<and> j = g_ascii_strdown origin_str then slots_in_use tbl j - 1 else slots_in_use tbl j)"
  by (auto simp: ns_net_release_origin_slot_def origin_slot_key_def slots_in_use_def split: option.splits)

lemma slot_enter_same [simp]: "slots_in_use (slot_enter key tbl) = slots_in_use tbl"
  by (rule ext) (auto simp: slot_enter_def slots_in_use_def split: option.splits)

text \<open>Keys are lower case already, so giving back the slot of a key reaches that key.\<close>

definition slot_down :: "cstr \<Rightarrow> slot_table \<Rightarrow> slot_table" where
  "slot_down key tbl =
     (case tbl key of None \<Rightarrow> tbl | Some n \<Rightarrow> if n > 0 then tbl(key \<mapsto> n - 1) else tbl)"

lemma release_is_down:
  "origin_slot_key origin_str = Some key \<Longrightarrow> ns_net_release_origin_slot origin_str tbl = slot_down key tbl"
  by (simp add: ns_net_release_origin_slot_def slot_down_def)

interpretation slots: keyed_counter slots_in_use slot_up slot_down "\<lambda>k. None"
  by unfold_locales (auto simp: slots_in_use_def slot_up_def slot_down_def split: option.splits)

text \<open>
  Requests arrive for an origin, wait, and hold a slot until they give it back; the origins as the
  callers spell them.
\<close>

record slot_run =
  slot_tbl :: slot_table
  slot_waiting :: "cstr list"
  slot_holders :: "cstr list"

inductive slot_step :: "slot_run \<Rightarrow> slot_run \<Rightarrow> bool" where
  Arrive: "origin_slot_key (Some o') = Some key \<Longrightarrow>
     slot_step r (r\<lparr> slot_tbl := slot_enter key (slot_tbl r), slot_waiting := o' # slot_waiting r \<rparr>)"
| Acquire: "slot_waiting r = a @ o' # b \<Longrightarrow> origin_slot_key (Some o') = Some key \<Longrightarrow>
     acquire_turn cancelled key (slot_tbl r) = Slot_Acquired tbl \<Longrightarrow>
     slot_step r (r\<lparr> slot_tbl := tbl, slot_waiting := a @ b, slot_holders := slot_holders r @ [o'] \<rparr>)"
| Cancel: "slot_waiting r = a @ o' # b \<Longrightarrow> origin_slot_key (Some o') = Some key \<Longrightarrow>
     acquire_turn True key (slot_tbl r) = Slot_Cancelled \<Longrightarrow>
     slot_step r (r\<lparr> slot_waiting := a @ b \<rparr>)"
| Release: "slot_holders r = a @ o' # b \<Longrightarrow>
     slot_step r (r\<lparr> slot_tbl := ns_net_release_origin_slot (Some o') (slot_tbl r), slot_holders := a @ b \<rparr>)"

inductive slot_reachable :: "slot_run \<Rightarrow> bool" where
  Start: "slot_reachable \<lparr> slot_tbl = (\<lambda>k. None), slot_waiting = [], slot_holders = [] \<rparr>"
| Step: "slot_reachable r \<Longrightarrow> slot_step r r' \<Longrightarrow> slot_reachable r'"

definition slot_keys :: "cstr list \<Rightarrow> cstr list" where
  "slot_keys os = map g_ascii_strdown os"

definition slots_ok :: "slot_run \<Rightarrow> bool" where
  "slots_ok r \<longleftrightarrow> tracks (slots_in_use (slot_tbl r)) (slot_keys (slot_holders r)) \<and>
     (\<forall>k. slots_in_use (slot_tbl r) k \<le> NS_NET_MAX_PER_ORIGIN) \<and> list_all (\<lambda>s. s \<noteq> []) (slot_holders r)"

lemma slot_step_ok: "slot_step r r' \<Longrightarrow> slots_ok r \<Longrightarrow> slots_ok r'"
proof (induction rule: slot_step.induct)
  case (Arrive o' key r)
  then show ?case by (simp add: slots_ok_def)
next
  case (Acquire r a o' b key cancelled tbl)
  then have k: "key = g_ascii_strdown o'" "o' \<noteq> []" and lt: "slots_in_use (slot_tbl r) key < NS_NET_MAX_PER_ORIGIN"
    and tbl: "tbl = slot_up key (slot_tbl r)"
    by (auto simp: acquire_turn_def origin_slot_key_def split: if_splits)
  then show ?case
    using Acquire.prems slots.tracks_up [of "slot_tbl r" "slot_keys (slot_holders r)" key]
      slots.below_limit_up [of "slot_tbl r" NS_NET_MAX_PER_ORIGIN key]
    by (simp add: slots_ok_def slot_keys_def)
next
  case (Cancel r a o' b key)
  then show ?case by (simp add: slots_ok_def)
next
  case (Release r a o' b)
  then have "o' \<noteq> []" by (simp add: slots_ok_def)
  then have down: "ns_net_release_origin_slot (Some o') (slot_tbl r) = slot_down (g_ascii_strdown o') (slot_tbl r)"
    by (intro release_is_down) (simp add: origin_slot_key_def)
  show ?case
    using Release slots.tracks_down [of "slot_tbl r" "slot_keys a" "g_ascii_strdown o'" "slot_keys b"]
      slots.below_limit_down [of "slot_tbl r" NS_NET_MAX_PER_ORIGIN]
    by (simp add: slots_ok_def slot_keys_def down)
qed

lemma slot_reachable_ok: "slot_reachable r \<Longrightarrow> slots_ok r"
proof (induction rule: slot_reachable.induct)
  case Start
  then show ?case using slots.tracks_empty by (simp add: slots_ok_def slot_keys_def slots_in_use_def)
qed (rule slot_step_ok)

text \<open>
  however requests arrive, wait, are cancelled and end, at most six hold a connection to one
  origin at a time, the case of the origin's letters aside, and the count kept for it is exact.
\<close>

theorem origin_slots_limit:
  assumes "slot_reachable r"
  shows "count_list (slot_keys (slot_holders r)) key \<le> 6 \<and>
         slots_in_use (slot_tbl r) key = count_list (slot_keys (slot_holders r)) key"
proof -
  have "tracks (slots_in_use (slot_tbl r)) (slot_keys (slot_holders r))" "slots_in_use (slot_tbl r) key \<le> 6"
    using slot_reachable_ok [OF assms] by (simp_all add: slots_ok_def NS_NET_MAX_PER_ORIGIN_def)
  then show ?thesis by (auto simp: tracks_def)
qed

lemma slot_run_example:
  "slot_reachable \<lparr> slot_tbl = (\<lambda>k. None)(''a'' \<mapsto> 0, ''a'' \<mapsto> 1), slot_waiting = [], slot_holders = [''A''] \<rparr>"
proof -
  have key: "origin_slot_key (Some ''A'') = Some ''a''" by (simp add: origin_slot_key_def ascii_simps)
  have "slot_reachable \<lparr> slot_tbl = (\<lambda>k. None)(''a'' \<mapsto> 0), slot_waiting = [''A''], slot_holders = [] \<rparr>"
    using slot_reachable.Step [OF slot_reachable.Start slot_step.Arrive [OF key]] by (simp add: slot_enter_def)
  from slot_reachable.Step [OF this slot_step.Acquire [OF _ key, where a = "[]" and b = "[]" and cancelled = False]]
  show ?thesis by (simp add: acquire_turn_def slots_in_use_def NS_NET_MAX_PER_ORIGIN_def slot_up_def)
qed

theorem origin_slots_limit_witness:
  "count_list (slot_keys [''A'']) ''a'' \<le> 6"
  using origin_slots_limit [OF slot_run_example, of "''a''"] by simp

section \<open>HSTS\<close>

record ns_hsts_entry =
  expires :: int
  subdomains :: bool

type_synonym hsts_cache = "cstr \<Rightarrow> ns_hsts_entry option"

definition G_MAXINT64 :: int where
  "G_MAXINT64 = 2 ^ 63 - 1"

text \<open>
  \<open>%<n>d\<close> of \<^verbatim>\<open>sscanf\<close>: white space is skipped, a sign counts towards the width, and at least one
  digit must follow.
\<close>

definition c_isspace :: "char \<Rightarrow> bool" where
  "c_isspace c \<longleftrightarrow> code_of c = 32 \<or> 9 \<le> code_of c \<and> code_of c \<le> 13"

definition scan_int :: "nat \<Rightarrow> cstr \<Rightarrow> (int \<times> cstr) option" where
  "scan_int width s =
     (let s1 = dropWhile c_isspace s;
          signed = (s1 \<noteq> [] \<and> (hd s1 = CHR ''-'' \<or> hd s1 = CHR ''+''));
          s2 = (if signed then tl s1 else s1);
          ds = takeWhile g_ascii_isdigit (take (if signed then width - 1 else width) s2)
      in if ds = [] then None
         else Some ((if signed \<and> hd s1 = CHR ''-'' then - int (dec_value 0 ds) else int (dec_value 0 ds)),
                    drop (length ds) s2))"

definition scan_char :: "char \<Rightarrow> cstr \<Rightarrow> cstr option" where
  "scan_char c s = (case s of [] \<Rightarrow> None | x # r \<Rightarrow> if x = c then Some r else None)"

definition scan_colon_int :: "nat \<Rightarrow> cstr \<Rightarrow> (int \<times> cstr) option" where
  "scan_colon_int width s = (case scan_char (CHR '':'') s of None \<Rightarrow> None | Some r \<Rightarrow> scan_int width r)"

text \<open>
  The expiry stamp; \<open>utc\<close> stands for \<^verbatim>\<open>g_date_time_new_utc\<close> and \<^verbatim>\<open>g_date_time_to_unix\<close>, None where no
  such date exists.
\<close>

type_synonym utc_clock = "int \<Rightarrow> int \<Rightarrow> int \<Rightarrow> int \<Rightarrow> int \<Rightarrow> int \<Rightarrow> int option"

definition scan_stamp :: "cstr \<Rightarrow> (int \<times> int \<times> int \<times> int \<times> int \<times> int) option" where
  "scan_stamp s =
     (case scan_int 4 s of None \<Rightarrow> None | Some (y, s1) \<Rightarrow>
      (case scan_int 2 s1 of None \<Rightarrow> None | Some (mo, s2) \<Rightarrow>
      (case scan_int 2 s2 of None \<Rightarrow> None | Some (d, s3) \<Rightarrow>
      (case scan_int 2 s3 of None \<Rightarrow> None | Some (h, s4) \<Rightarrow>
      (case scan_colon_int 2 s4 of None \<Rightarrow> None | Some (mi, s5) \<Rightarrow>
      (case scan_colon_int 2 s5 of None \<Rightarrow> None | Some (sec, s6) \<Rightarrow> Some (y, mo, d, h, mi, sec)))))))"

definition ns_hsts_parse_expiry :: "utc_clock \<Rightarrow> cstr \<Rightarrow> int" where
  "ns_hsts_parse_expiry utc stamp =
     (case scan_stamp (dropWhile (\<lambda>c. c = CHR '' '' \<or> c = CHR 0x22) stamp) of
        None \<Rightarrow> G_MAXINT64
      | Some (y, mo, d, h, mi, sec) \<Rightarrow>
          (case utc y mo d h mi sec of None \<Rightarrow> G_MAXINT64 | Some t \<Rightarrow> t))"

definition hsts_line :: "utc_clock \<Rightarrow> int \<Rightarrow> cstr \<Rightarrow> hsts_cache \<Rightarrow> hsts_cache" where
  "hsts_line utc now raw cache =
     (let line = g_strstrip raw in
      if line = [] \<or> hd line = CHR ''#'' then cache
      else (case strchr line (CHR '' '') of
              None \<Rightarrow> cache
            | Some sp \<Rightarrow>
                let name = take (length line - length sp) line;
                    subs = (name \<noteq> [] \<and> hd name = CHR ''.'');
                    hst = (if subs then tl name else name)
                in if hst = [] then cache
                   else let e = ns_hsts_parse_expiry utc (tl sp) in
                        if e \<le> now then cache
                        else cache(g_ascii_strdown hst \<mapsto> \<lparr> expires = e, subdomains = subs \<rparr>)))"

text \<open>\<open>content\<close> is None when the file can not be read.\<close>

definition ns_hsts_cache_reload :: "utc_clock \<Rightarrow> int \<Rightarrow> cstr option \<Rightarrow> hsts_cache" where
  "ns_hsts_cache_reload utc now content =
     (case content of None \<Rightarrow> (\<lambda>h. None)
      | Some c \<Rightarrow> fold (hsts_line utc now) (g_strsplit c (CHR 0x0A)) (\<lambda>h. None))"

text \<open>The loop over the parents of a host.\<close>

function hsts_parents :: "int \<Rightarrow> hsts_cache \<Rightarrow> cstr \<Rightarrow> bool" where
  "hsts_parents now cache dot =
     (case strchr dot (CHR ''.'') of
        None \<Rightarrow> False
      | Some d \<Rightarrow>
          (case cache (tl d) of
             Some e \<Rightarrow> if subdomains e \<and> expires e > now then True else hsts_parents now cache (tl d)
           | None \<Rightarrow> hsts_parents now cache (tl d)))"
  by pat_completeness auto

lemma strchr_tl_shorter: "strchr s c = Some d \<Longrightarrow> length (tl d) < length s"
  using strchr_Some_append [of s c d] by (cases d) auto

termination hsts_parents
  by (relation "measure (\<lambda>(now, cache, dot). length dot)") (auto dest: strchr_tl_shorter)

declare hsts_parents.simps [simp del]

definition ns_hsts_lookup :: "int \<Rightarrow> hsts_cache \<Rightarrow> cstr \<Rightarrow> bool" where
  "ns_hsts_lookup now cache lower_host =
     ((case cache lower_host of None \<Rightarrow> False | Some e \<Rightarrow> expires e > now) \<or> hsts_parents now cache lower_host)"

record hsts_state =
  hsts_tbl :: "hsts_cache option"
  hsts_mtime :: int

definition strip_dots :: "cstr \<Rightarrow> cstr" where
  "strip_dots s = rev (dropWhile (\<lambda>c. c = CHR ''.'') (rev s))"

text \<open>\<open>hsts_file\<close> is None without a path, or the modification time and the content of the file.\<close>

definition ns_net_hsts_should_upgrade ::
  "utc_clock \<Rightarrow> int \<Rightarrow> (int \<times> cstr option) option \<Rightarrow> cstr option \<Rightarrow> hsts_state \<Rightarrow> hsts_state \<times> bool" where
  "ns_net_hsts_should_upgrade utc now hsts_file hst s =
     (if \<not> nonempty hst then (s, False)
      else (case hsts_file of
              None \<Rightarrow> (s, False)
            | Some (mtime, content) \<Rightarrow>
                let s1 = (if hsts_tbl s = None \<or> mtime \<noteq> hsts_mtime s
                          then \<lparr> hsts_tbl = Some (ns_hsts_cache_reload utc now content), hsts_mtime = mtime \<rparr> else s)
                in (s1, (case hsts_tbl s1 of None \<Rightarrow> False
                         | Some cache \<Rightarrow> ns_hsts_lookup now cache (strip_dots (g_ascii_strdown (the hst)))))))"

definition ns_net_hsts_upgrade ::
  "lxb_parser \<Rightarrow> utc_clock \<Rightarrow> int \<Rightarrow> (int \<times> cstr option) option \<Rightarrow> cstr option \<Rightarrow> hsts_state \<Rightarrow>
   hsts_state \<times> cstr option" where
  "ns_net_hsts_upgrade lxb utc now hsts_file url s =
     (case url of
        None \<Rightarrow> (s, None)
      | Some u \<Rightarrow>
          if \<not> g_str_has_prefix u ''http://'' then (s, None)
          else (case ns_url_host_from lxb url of
                  None \<Rightarrow> (s, None)
                | Some h \<Rightarrow>
                    (case ns_net_hsts_should_upgrade utc now hsts_file (Some h) s of
                       (s1, upgrade) \<Rightarrow> (s1, if upgrade then Some (''https://'' @ drop 7 u) else None))))"

subsection \<open>Which hosts are covered\<close>

text \<open>A dot in a host is its first one, or a dot of what follows the first.\<close>

lemma dot_split:
  assumes "CHR ''.'' \<notin> set u"
  shows "u @ CHR ''.'' # r = p @ CHR ''.'' # q \<longleftrightarrow> p = u \<and> q = r \<or> (\<exists>p'. p = u @ CHR ''.'' # p' \<and> r = p' @ CHR ''.'' # q)"
  using assms
proof (induction u arbitrary: p)
  case Nil
  then show ?case by (cases p) auto
next
  case (Cons c u)
  then show ?case by (cases p) auto
qed

definition parent_covers :: "int \<Rightarrow> hsts_cache \<Rightarrow> cstr \<Rightarrow> bool" where
  "parent_covers now cache q \<longleftrightarrow> (case cache q of None \<Rightarrow> False | Some e \<Rightarrow> subdomains e \<and> expires e > now)"

lemma hsts_parents_iff:
  "hsts_parents now cache h \<longleftrightarrow> (\<exists>p q. h = p @ CHR ''.'' # q \<and> parent_covers now cache q)"
proof (induction now cache h rule: hsts_parents.induct)
  case (1 now cache h)
  show ?case
  proof (cases "strchr h (CHR ''.'')")
    case None
    then have "CHR ''.'' \<notin> set h" by (simp add: strchr_None_iff)
    then have "h \<noteq> p @ CHR ''.'' # q" for p q by auto
    with None show ?thesis by (subst hsts_parents.simps) simp
  next
    case (Some d)
    obtain u r where d: "d = CHR ''.'' # r" and u: "h = u @ CHR ''.'' # r" "CHR ''.'' \<notin> set u"
      using strchr_Some_append [OF Some] by (metis list.collapse)
    have step: "hsts_parents now cache h \<longleftrightarrow> parent_covers now cache r \<or> hsts_parents now cache r"
      by (subst hsts_parents.simps) (auto simp: Some d parent_covers_def split: option.splits)
    have IH: "parent_covers now cache r \<or> (hsts_parents now cache r \<longleftrightarrow> (\<exists>p q. r = p @ CHR ''.'' # q \<and> parent_covers now cache q))"
    proof (cases "parent_covers now cache r")
      case False
      note IH = "1.IH" [OF Some, unfolded d list.sel]
      show ?thesis
      proof (cases "cache r")
        case None
        from IH(1) [OF this] show ?thesis by (rule disjI2)
      next
        case (Some e)
        with False have "\<not> (subdomains e \<and> now < expires e)" by (simp add: parent_covers_def)
        from IH(2) [OF Some this] show ?thesis by (rule disjI2)
      qed
    qed simp
    have "(\<exists>p q. h = p @ CHR ''.'' # q \<and> parent_covers now cache q) \<longleftrightarrow>
        parent_covers now cache r \<or> (\<exists>p q. r = p @ CHR ''.'' # q \<and> parent_covers now cache q)"
      unfolding u(1) dot_split [OF u(2)] by auto
    with step IH show ?thesis by argo
  qed
qed

text \<open>
  a host demands https exactly when it has an unexpired entry itself, or a parent domain, at any
  dot, has an unexpired entry for its subdomains; the case of the letters and trailing dots of the
  host do not matter, and the answer is that of curl's file as it is now when its modification time
  has changed since it was read.
\<close>

theorem hsts_covers_parents:
  assumes "hsts_file = Some (mtime, content)" "h \<noteq> []"
  shows "snd (ns_net_hsts_should_upgrade utc now hsts_file (Some h) s) \<longleftrightarrow>
     (let cache = (if hsts_tbl s = None \<or> mtime \<noteq> hsts_mtime s then ns_hsts_cache_reload utc now content
                   else the (hsts_tbl s));
          name = strip_dots (g_ascii_strdown h)
      in (case cache name of None \<Rightarrow> False | Some e \<Rightarrow> expires e > now) \<or>
         (\<exists>p q. name = p @ CHR ''.'' # q \<and> parent_covers now cache q))"
  using assms
  by (auto simp: ns_net_hsts_should_upgrade_def ns_hsts_lookup_def hsts_parents_iff Let_def split: option.splits)

theorem hsts_covers_parents_witness:
  "snd (ns_net_hsts_should_upgrade (\<lambda>y mo d h mi sec. Some 100) 5 (Some (1, Some ''.b.c x'')) (Some ''A.b.C.'')
     \<lparr> hsts_tbl = None, hsts_mtime = 0 \<rparr>)"
proof -
  let ?c = "ns_hsts_cache_reload (\<lambda>y mo d h mi sec. Some 100) 5 (Some ''.b.c x'')"
  have c: "?c ''b.c'' = Some \<lparr> expires = G_MAXINT64, subdomains = True \<rparr>"
    by (simp add: ns_hsts_cache_reload_def g_strsplit_def hsts_line_def g_strstrip_def g_strchug_def g_strchomp_def
        ns_hsts_parse_expiry_def scan_stamp_def scan_int_def c_isspace_def G_MAXINT64_def Let_def ascii_simps)
  have n: "strip_dots (g_ascii_strdown ''A.b.C.'') = ''a'' @ CHR ''.'' # ''b.c''"
    by (simp add: strip_dots_def ascii_simps)
  have "parent_covers 5 ?c ''b.c''" by (simp add: parent_covers_def c G_MAXINT64_def)
  then show ?thesis
    using hsts_covers_parents [of "Some (1, Some ''.b.c x'')" 1 "Some ''.b.c x''" "''A.b.C.''"
        "\<lambda>y mo d h mi sec. Some 100" 5 "\<lparr> hsts_tbl = None, hsts_mtime = 0 \<rparr>"] n
    by (simp only: Let_def hsts_state.select_convs simp_thms if_True list.distinct) blast
qed

end
