(* ===== verification/Cookies.thy ===== *)
theory Cookies
  imports Privacy
begin

text \<open>
  \<^verbatim>\<open>document.cookie\<close> (\<^verbatim>\<open>net.c\<close>): which cookies of a site's jar a page reads, and how an assignment
  is parsed, checked and written.  The jar is libcurl's: reading it gives a list of lines in the
  Netscape format, writing hands one line over, so the jar is a list of lines here.  The public
  suffix list and \<^verbatim>\<open>curl_getdate\<close> are fields of the environment; times are seconds since 1970.
\<close>

section \<open>Matching\<close>

definition TAB :: char where
  "TAB = CHR 0x09"

definition strip_dot :: "cstr \<Rightarrow> cstr" where
  "strip_dot d = (case d of [] \<Rightarrow> [] | c # r \<Rightarrow> if c = CHR ''.'' then r else d)"

definition cookie_domain_matches :: "cstr \<Rightarrow> cstr \<Rightarrow> bool" where
  "cookie_domain_matches cookie_domain hst =
     (let d = strip_dot cookie_domain; dl = length d; hl = length hst in
      dl > 0 \<and>
      (strcaseeq hst d \<or>
       hl > dl \<and> hst ! (hl - dl - 1) = CHR ''.'' \<and> strcaseeq (drop (hl - dl) hst) d))"

text \<open>The path of a cookie covers a path it is a prefix of, at a \<open>/\<close>.\<close>

definition cookie_path_matches :: "cstr \<Rightarrow> cstr \<Rightarrow> bool" where
  "cookie_path_matches cpath path =
     (if cpath = [] then True
      else if \<not> g_str_has_prefix path cpath then False
      else length path = length cpath \<or> path ! length cpath = CHR ''/'' \<or> last cpath = CHR ''/'')"

definition cookie_line_matches :: "cstr list \<Rightarrow> cstr \<Rightarrow> cstr \<Rightarrow> bool \<Rightarrow> int \<Rightarrow> bool" where
  "cookie_line_matches f hst path is_https now =
     (let tailmatch = strcaseeq (f ! 1) ''TRUE''; d = strip_dot (f ! 0) in
      if (if tailmatch then \<not> cookie_domain_matches d hst else \<not> strcaseeq hst d) then False
      else if \<not> cookie_path_matches (f ! 2) path then False
      else if \<not> is_https \<and> strcaseeq (f ! 3) ''TRUE'' then False
      else (case g_ascii_strtoll (f ! 4) of None \<Rightarrow> True | Some expiry \<Rightarrow> expiry = 0 \<or> expiry \<ge> now))"

section \<open>Reading\<close>

record cookie_env =
  ck_lxb :: lxb_parser
  ck_psl :: psl_registrable
  ck_public_suffix :: "cstr \<Rightarrow> bool"
  ck_getdate :: "cstr \<Rightarrow> int option"
  ck_now :: int

definition is_https_parts :: "ns_url_parts \<Rightarrow> bool" where
  "is_https_parts p = strcaseeq (protocol p) ''https:''"

text \<open>The name and value of a line a page may read, None for the others.\<close>

definition readable_cookie :: "cookie_env \<Rightarrow> ns_url_parts \<Rightarrow> cstr \<Rightarrow> (cstr \<times> cstr) option" where
  "readable_cookie env p line =
     (if line = [] \<or> hd line = CHR ''#'' then None
      else
        let f = g_strsplit_max line TAB 7;
            path = (if pathname p \<noteq> [] then pathname p else ''/'')
        in if length f \<ge> 7 \<and> f ! 5 \<noteq> [] \<and>
              cookie_line_matches f (hostname p) path (is_https_parts p) (ck_now env)
           then Some (f ! 5, f ! 6) else None)"

text \<open>The names in the order they are first met, each with the last value.\<close>

fun put_cookie :: "cstr \<times> cstr \<Rightarrow> (cstr \<times> cstr) list \<Rightarrow> (cstr \<times> cstr) list" where
  "put_cookie (n, v) [] = [(n, v)]"
| "put_cookie (n, v) ((m, w) # rest) = (if m = n then (n, v) # rest else (m, w) # put_cookie (n, v) rest)"

definition collect_cookies :: "cookie_env \<Rightarrow> ns_url_parts \<Rightarrow> cstr list \<Rightarrow> (cstr \<times> cstr) list" where
  "collect_cookies env p jar =
     fold (\<lambda>line acc. case readable_cookie env p line of None \<Rightarrow> acc | Some c \<Rightarrow> put_cookie c acc) jar []"

definition cookie_text :: "cstr \<times> cstr \<Rightarrow> cstr" where
  "cookie_text c = fst c @ ''='' @ snd c"

fun join_cookies :: "cstr \<Rightarrow> (cstr \<times> cstr) list \<Rightarrow> cstr" where
  "join_cookies out [] = out"
| "join_cookies out (c # cs) = join_cookies ((if out \<noteq> [] then out @ ''; '' else out) @ cookie_text c) cs"

definition ns_net_cookies_for_js :: "cookie_env \<Rightarrow> cstr list \<Rightarrow> cstr option \<Rightarrow> cstr option" where
  "ns_net_cookies_for_js env jar url =
     (if \<not> nonempty url then None
      else (case ns_url_parts_new (ck_lxb env) url of
              None \<Rightarrow> None
            | Some p \<Rightarrow>
                if hostname p = [] then None
                else if \<not> nonempty (ns_url_site_from (ck_lxb env) (ck_psl env) url) then None
                else
                  let out = join_cookies [] (collect_cookies env p jar) in
                  if out = [] then None else Some out))"

definition HTTPONLY :: cstr where
  "HTTPONLY = ''#HttpOnly_''"

definition cookie_partition_has_httponly :: "cstr list \<Rightarrow> cstr \<Rightarrow> cstr \<Rightarrow> bool" where
  "cookie_partition_has_httponly jar hst name =
     list_ex (\<lambda>line. g_str_has_prefix line HTTPONLY \<and>
                (let f = g_strsplit_max (drop 10 line) TAB 7 in
                 length f \<ge> 7 \<and> f ! 5 = name \<and> cookie_domain_matches (f ! 0) hst)) jar"

section \<open>Writing\<close>

definition blank :: "char \<Rightarrow> bool" where
  "blank c \<longleftrightarrow> c = CHR '' '' \<or> c = TAB"

definition trim_left :: "cstr \<Rightarrow> cstr" where
  "trim_left s = dropWhile blank s"

definition trim_right :: "cstr \<Rightarrow> cstr" where
  "trim_right s = rev (dropWhile blank (rev s))"

definition trim_blank :: "cstr \<Rightarrow> cstr" where
  "trim_blank s = trim_right (trim_left s)"

record cookie_attrs =
  ca_secure :: bool
  ca_has_expiry :: bool
  ca_expired :: bool
  ca_expiry :: int
  ca_domain :: "cstr option"
  ca_path :: "cstr option"

definition no_attrs :: cookie_attrs where
  "no_attrs = \<lparr> ca_secure = False, ca_has_expiry = False, ca_expired = False, ca_expiry = 0,
     ca_domain = None, ca_path = None \<rparr>"

text \<open>One attribute; \<open>a\<close> is the text up to the next semicolon without the blanks at its end.\<close>

definition cookie_attribute :: "cookie_env \<Rightarrow> cstr \<Rightarrow> cookie_attrs \<Rightarrow> cookie_attrs" where
  "cookie_attribute env a s =
     (let key = takeWhile (\<lambda>c. c \<noteq> CHR ''='') a;
          has_eq = (CHR ''='' \<in> set a);
          av = trim_left (tl (dropWhile (\<lambda>c. c \<noteq> CHR ''='') a))
      in if strcaseeq key ''secure'' then s\<lparr> ca_secure := True \<rparr>
         else if strcaseeq key ''max-age'' \<and> has_eq then
           (case g_ascii_strtoll av of
              None \<Rightarrow> s
            | Some ma \<Rightarrow> s\<lparr> ca_has_expiry := True, ca_expired := ma \<le> 0,
                            ca_expiry := (if ma > 0 then wrap64 (ck_now env + ma) else ca_expiry s) \<rparr>)
         else if strcaseeq key ''expires'' \<and> has_eq \<and> \<not> ca_has_expiry s then
           (case ck_getdate env av of
              None \<Rightarrow> s
            | Some t \<Rightarrow> s\<lparr> ca_has_expiry := True, ca_expiry := t,
                           ca_expired := (if t \<le> ck_now env then True else ca_expired s) \<rparr>)
         else if strcaseeq key ''domain'' \<and> has_eq then s\<lparr> ca_domain := Some av \<rparr>
         else if strcaseeq key ''path'' \<and> has_eq then s\<lparr> ca_path := Some av \<rparr>
         else s)"

definition attr_skip :: "char \<Rightarrow> bool" where
  "attr_skip c \<longleftrightarrow> c = CHR '';'' \<or> c = CHR '' '' \<or> c = TAB"

function cookie_attr_loop :: "cookie_env \<Rightarrow> cstr \<Rightarrow> cookie_attrs \<Rightarrow> cookie_attrs" where
  "cookie_attr_loop env p s =
     (let p1 = dropWhile attr_skip p in
      if p1 = [] then s
      else
        let s1 = cookie_attribute env (trim_right (takeWhile (\<lambda>c. c \<noteq> CHR '';'') p1)) s;
            rest = dropWhile (\<lambda>c. c \<noteq> CHR '';'') p1
        in if rest = [] then s1 else cookie_attr_loop env (tl rest) s1)"
  by pat_completeness auto
termination
proof (relation "measure (\<lambda>(env, p, s). length p)", simp, unfold in_measure prod.case)
  fix p p1 rest :: cstr
  assume "p1 = dropWhile attr_skip p" "p1 \<noteq> []" "rest = dropWhile (\<lambda>c. c \<noteq> CHR '';'') p1" "rest \<noteq> []"
  then have "length rest \<le> length p1" "length p1 \<le> length p" "length (tl rest) < length rest"
    by (simp_all add: length_dropWhile_le)
  then show "length (tl rest) < length p" by linarith
qed

declare cookie_attr_loop.simps [simp del]

text \<open>The checks on a parsed cookie, in the order of the code.\<close>

definition prefix_ok :: "cstr \<Rightarrow> cookie_attrs \<Rightarrow> bool \<Rightarrow> bool" where
  "prefix_ok name s is_https \<longleftrightarrow>
     \<not> (ca_secure s \<and> \<not> is_https) \<and>
     \<not> (strncaseeq name ''__Secure-'' 9 \<and> \<not> (ca_secure s \<and> is_https)) \<and>
     \<not> (strncaseeq name ''__Host-'' 7 \<and>
        (\<not> ca_secure s \<or> \<not> is_https \<or> nonempty (ca_domain s) \<or>
         nonempty (ca_path s) \<and> the (ca_path s) \<noteq> ''/''))"

text \<open>The domain field of the line and its tail-match flag, None for a domain that is refused.\<close>

definition cookie_file_domain :: "cookie_env \<Rightarrow> cookie_attrs \<Rightarrow> cstr \<Rightarrow> (cstr \<times> cstr) option" where
  "cookie_file_domain env s hst =
     (if nonempty (ca_domain s) then
        let d = strip_dot (the (ca_domain s)) in
        if \<not> cookie_domain_matches d hst then None
        else if ck_public_suffix env (g_ascii_strdown d) then None
        else Some (''.'' @ d, ''TRUE'')
      else Some (hst, ''FALSE''))"

definition default_path :: "cstr \<Rightarrow> cstr" where
  "default_path request_path =
     (if CHR ''/'' \<notin> set request_path then ''/''
      else
        let dir = rev (tl (dropWhile (\<lambda>c. c \<noteq> CHR ''/'') (rev request_path)))
        in if dir = [] then ''/'' else dir)"

definition cookie_path :: "cookie_attrs \<Rightarrow> cstr \<Rightarrow> cstr" where
  "cookie_path s request_path =
     (case ca_path s of
        Some p \<Rightarrow> if p \<noteq> [] \<and> hd p = CHR ''/'' then p else default_path request_path
      | None \<Rightarrow> default_path request_path)"

definition cookie_line :: "cstr \<times> cstr \<Rightarrow> cstr \<Rightarrow> cookie_attrs \<Rightarrow> cstr \<Rightarrow> cstr \<Rightarrow> cstr" where
  "cookie_line fd path s name val =
     fst fd @ TAB # snd fd @ TAB # path @ TAB # (if ca_secure s then ''TRUE'' else ''FALSE'') @ TAB #
     int_digits (if ca_expired s then 1 else ca_expiry s) @ TAB # name @ TAB # val"

text \<open>What an assignment adds to the jar, if anything.\<close>

definition ns_net_cookie_store_from_js :: "cookie_env \<Rightarrow> cstr list \<Rightarrow> cstr option \<Rightarrow> cstr option \<Rightarrow> cstr option" where
  "ns_net_cookie_store_from_js env jar url cookie =
     (if \<not> nonempty url \<or> cookie = None then None
      else if \<not> ns_url_is_http_or_https url then None
      else if list_ex (\<lambda>c. code_of c < 32) (the cookie) then None
      else (case ns_url_parts_new (ck_lxb env) url of
              None \<Rightarrow> None
            | Some p \<Rightarrow>
                if hostname p = [] then None
                else
                  let pair = takeWhile (\<lambda>c. c \<noteq> CHR '';'') (the cookie) in
                  if CHR ''='' \<notin> set pair \<or> hd pair = CHR ''='' then None
                  else
                    let name = trim_blank (takeWhile (\<lambda>c. c \<noteq> CHR ''='') pair);
                        val = trim_blank (tl (dropWhile (\<lambda>c. c \<noteq> CHR ''='') pair))
                    in if name = [] then None
                       else
                         let s = cookie_attr_loop env (dropWhile (\<lambda>c. c \<noteq> CHR '';'') (the cookie)) no_attrs in
                         if \<not> prefix_ok name s (is_https_parts p) then None
                         else (case cookie_file_domain env s (hostname p) of
                                 None \<Rightarrow> None
                               | Some fd \<Rightarrow>
                                   if \<not> nonempty (ns_url_site_from (ck_lxb env) (ck_psl env) url) then None
                                   else if cookie_partition_has_httponly jar (hostname p) name then None
                                   else Some (cookie_line fd (cookie_path s (pathname p)) s name val))))"

section \<open>The line that is written\<close>

text \<open>The assignments that are stored, with what the source knows when it stores them.\<close>

lemma store_result:
  assumes "ns_net_cookie_store_from_js env jar (Some url) (Some cookie) = Some line"
  obtains p pair name val s fd where
    "ns_url_is_http_or_https (Some url)" "\<not> list_ex (\<lambda>c. code_of c < 32) cookie"
    "ns_url_parts_new (ck_lxb env) (Some url) = Some p" "hostname p \<noteq> []"
    "nonempty (ns_url_site_from (ck_lxb env) (ck_psl env) (Some url))"
    "pair = takeWhile (\<lambda>c. c \<noteq> CHR '';'') cookie"
    "name = trim_blank (takeWhile (\<lambda>c. c \<noteq> CHR ''='') pair)" "name \<noteq> []"
    "val = trim_blank (tl (dropWhile (\<lambda>c. c \<noteq> CHR ''='') pair))"
    "s = cookie_attr_loop env (dropWhile (\<lambda>c. c \<noteq> CHR '';'') cookie) no_attrs"
    "prefix_ok name s (is_https_parts p)" "cookie_file_domain env s (hostname p) = Some fd"
    "\<not> cookie_partition_has_httponly jar (hostname p) name"
    "line = cookie_line fd (cookie_path s (pathname p)) s name val"
  using assms
  by (auto simp: ns_net_cookie_store_from_js_def Let_def split: if_split_asm option.split_asm)

lemma trim_subset: "set (trim_left s) \<subseteq> set s" "set (trim_right s) \<subseteq> set s" "set (trim_blank s) \<subseteq> set s"
proof -
  have l: "set (trim_left s) \<subseteq> set s" for s unfolding trim_left_def by (meson set_dropWhileD subsetI)
  have r: "set (trim_right s) \<subseteq> set s" for s unfolding trim_right_def by (metis set_dropWhileD set_rev subsetI)
  show "set (trim_left s) \<subseteq> set s" "set (trim_right s) \<subseteq> set s" "set (trim_blank s) \<subseteq> set s"
    using l r unfolding trim_blank_def by blast+
qed

lemma tl_dropWhile_subset: "set (tl (dropWhile P a)) \<subseteq> set a"
  by (induction a) auto

definition attrs_free :: "cookie_attrs \<Rightarrow> bool" where
  "attrs_free s \<longleftrightarrow> TAB \<notin> set (str_or (ca_domain s) []) \<and> TAB \<notin> set (str_or (ca_path s) [])"

lemma attribute_free:
  assumes "TAB \<notin> set a" "attrs_free s"
  shows "attrs_free (cookie_attribute env a s)"
proof -
  have "set (trim_left (tl (dropWhile (\<lambda>c. c \<noteq> CHR ''='') a))) \<subseteq> set a"
    using trim_subset(1) [of "tl (dropWhile (\<lambda>c. c \<noteq> CHR ''='') a)"] tl_dropWhile_subset [of _ a] by (rule subset_trans)
  with assms show ?thesis
    by (auto simp: cookie_attribute_def attrs_free_def Let_def split: option.splits)
qed

lemma attr_loop_free: "TAB \<notin> set p \<Longrightarrow> attrs_free s \<Longrightarrow> attrs_free (cookie_attr_loop env p s)"
proof (induction env p s rule: cookie_attr_loop.induct)
  case (1 env p s)
  let ?p1 = "dropWhile attr_skip p"
  let ?a = "trim_right (takeWhile (\<lambda>c. c \<noteq> CHR '';'') ?p1)"
  let ?rest = "dropWhile (\<lambda>c. c \<noteq> CHR '';'') ?p1"
  have p1: "TAB \<notin> set ?p1" using 1(2) by (blast dest: set_dropWhileD)
  then have "TAB \<notin> set (takeWhile (\<lambda>c. c \<noteq> CHR '';'') ?p1)" by (blast dest: set_takeWhileD)
  then have a: "TAB \<notin> set ?a" using trim_subset(2) by blast
  have rest: "TAB \<notin> set (tl ?rest)" by (rule contra_subsetD [OF tl_dropWhile_subset p1])
  have s1: "attrs_free (cookie_attribute env ?a s)" by (rule attribute_free [OF a 1(3)])
  show ?case
  proof (cases "?p1 = [] \<or> ?rest = []")
    case True
    with s1 1(3) show ?thesis by (subst cookie_attr_loop.simps) (auto simp: Let_def)
  next
    case False
    then have ne: "?p1 \<noteq> []" "?rest \<noteq> []" by blast+
    from 1(1) [OF refl ne(1) refl refl ne(2) rest s1] show ?thesis
      unfolding cookie_attr_loop.simps [of env p s] Let_def if_not_P [OF ne(1)] if_not_P [OF ne(2)] .
  qed
qed

lemma cookie_line_split:
  assumes "TAB \<notin> set (fst fd)" "TAB \<notin> set (snd fd)" "TAB \<notin> set path" "TAB \<notin> set name"
  shows "g_strsplit_max (cookie_line fd path s name val) TAB 7 =
     [fst fd, snd fd, path, if ca_secure s then ''TRUE'' else ''FALSE'',
      int_digits (if ca_expired s then 1 else ca_expiry s), name, val]"
proof -
  have seven: "(7::nat) = Suc (Suc (Suc (Suc (Suc (Suc (Suc 0))))))" by simp
  have sec: "TAB \<notin> set (if ca_secure s then ''TRUE'' else ''FALSE'')" by (simp add: TAB_def)
  have num: "TAB \<notin> set (int_digits i)" for i
    using int_digits_chars [of TAB i] by (auto simp: TAB_def ascii_simps)
  have ne: "cookie_line fd path s name val \<noteq> []" by (simp add: cookie_line_def)
  show ?thesis
    unfolding g_strsplit_max_def if_not_P [OF ne] unfolding cookie_line_def seven
    by (simp only: split_max_append [OF assms(1)] split_max_append [OF assms(2)] split_max_append [OF assms(3)]
        split_max_append [OF sec] split_max_append [OF num] split_max_append [OF assms(4)] split_max.simps(2))
qed

lemma default_path_chars: "set (default_path r) \<subseteq> insert (CHR ''/'') (set r)"
proof -
  have "set (tl (dropWhile (\<lambda>c. c \<noteq> CHR ''/'') (rev r))) \<subseteq> set r"
    using tl_dropWhile_subset [of _ "rev r"] by simp
  then show ?thesis by (auto simp: default_path_def Let_def)
qed

lemma strip_dot_chars: "set (strip_dot d) \<subseteq> set d"
  by (auto simp: strip_dot_def split: list.splits if_splits)

text \<open>Fields of the URL that hold no tab give a line of seven fields.\<close>

lemma stored_fields:
  assumes "ns_net_cookie_store_from_js env jar (Some url) (Some cookie) = Some line"
    and "ns_url_parts_new (ck_lxb env) (Some url) = Some p"
    and "TAB \<notin> set (hostname p)" "TAB \<notin> set (pathname p)"
  obtains name val s fd where
    "g_strsplit_max line TAB 7 = [fst fd, snd fd, cookie_path s (pathname p), if ca_secure s then ''TRUE'' else ''FALSE'',
       int_digits (if ca_expired s then 1 else ca_expiry s), name, val]"
    "prefix_ok name s (is_https_parts p)" "cookie_file_domain env s (hostname p) = Some fd"
    "\<not> cookie_partition_has_httponly jar (hostname p) name" "name \<noteq> []" "hostname p \<noteq> []"
    "s = cookie_attr_loop env (dropWhile (\<lambda>c. c \<noteq> CHR '';'') cookie) no_attrs"
    "name = trim_blank (takeWhile (\<lambda>c. c \<noteq> CHR ''='') (takeWhile (\<lambda>c. c \<noteq> CHR '';'') cookie))"
    "val = trim_blank (tl (dropWhile (\<lambda>c. c \<noteq> CHR ''='') (takeWhile (\<lambda>c. c \<noteq> CHR '';'') cookie)))"
    "nonempty (ns_url_site_from (ck_lxb env) (ck_psl env) (Some url))"
    "line = cookie_line fd (cookie_path s (pathname p)) s name val"
proof -
  obtain p' pair name val s fd where r:
    "\<not> list_ex (\<lambda>c. code_of c < 32) cookie" "ns_url_parts_new (ck_lxb env) (Some url) = Some p'" "hostname p' \<noteq> []"
    "nonempty (ns_url_site_from (ck_lxb env) (ck_psl env) (Some url))"
    "pair = takeWhile (\<lambda>c. c \<noteq> CHR '';'') cookie"
    "name = trim_blank (takeWhile (\<lambda>c. c \<noteq> CHR ''='') pair)" "name \<noteq> []"
    "val = trim_blank (tl (dropWhile (\<lambda>c. c \<noteq> CHR ''='') pair))"
    "s = cookie_attr_loop env (dropWhile (\<lambda>c. c \<noteq> CHR '';'') cookie) no_attrs"
    "prefix_ok name s (is_https_parts p')" "cookie_file_domain env s (hostname p') = Some fd"
    "\<not> cookie_partition_has_httponly jar (hostname p') name"
    "line = cookie_line fd (cookie_path s (pathname p')) s name val"
    using assms(1) by (rule store_result)
  have pp: "p' = p" using r(2) assms(2) by simp
  have tab: "TAB \<notin> set cookie"
  proof
    assume "TAB \<in> set cookie"
    moreover have "code_of TAB < 32" by (simp add: TAB_def code_of_def)
    ultimately show False using r(1) by (auto simp: list_ex_iff)
  qed
  have "TAB \<notin> set (dropWhile (\<lambda>c. c \<noteq> CHR '';'') cookie)" using tab by (blast dest: set_dropWhileD)
  then have free: "attrs_free s"
    unfolding r(9) by (rule attr_loop_free) (simp add: attrs_free_def no_attrs_def)
  have "TAB \<notin> set (takeWhile (\<lambda>c. c \<noteq> CHR ''='') pair)" unfolding r(5) using tab by (blast dest: set_takeWhileD)
  then have name: "TAB \<notin> set name" unfolding r(6) using trim_subset(3) by blast
  have "TAB \<notin> set (default_path (pathname p))" using default_path_chars [of "pathname p"] assms(4) by (auto simp: TAB_def)
  then have path: "TAB \<notin> set (cookie_path s (pathname p))"
    using free by (auto simp: cookie_path_def attrs_free_def split: option.splits)
  have fd: "TAB \<notin> set (fst fd)" "TAB \<notin> set (snd fd)"
    using r(11) free assms(3) strip_dot_chars [of "the (ca_domain s)"] unfolding pp
    by (auto simp: cookie_file_domain_def attrs_free_def TAB_def Let_def nonempty_def split: if_splits option.splits)
  show thesis
    by (rule that [of fd s name val]) (use r cookie_line_split [OF fd path name] in \<open>simp_all add: pp\<close>)
qed

section \<open>What an assignment may do\<close>


text \<open>The lines a page must not see.\<close>

definition hidden_from_page :: "cookie_env \<Rightarrow> ns_url_parts \<Rightarrow> cstr \<Rightarrow> bool" where
  "hidden_from_page env p line \<longleftrightarrow>
     g_str_has_prefix line ''#'' \<or>
     \<not> is_https_parts p \<and> length (g_strsplit_max line TAB 7) = 7 \<and> strcaseeq (g_strsplit_max line TAB 7 ! 3) ''TRUE''"

lemma hidden_not_readable:
  assumes "hidden_from_page env p line"
  shows "readable_cookie env p line = None"
proof (cases "g_str_has_prefix line ''#''")
  case True
  then have "line \<noteq> [] \<and> hd line = CHR ''#''" by (cases line) (simp_all add: g_str_has_prefix_def)
  then show ?thesis by (simp add: readable_cookie_def)
next
  case False
  with assms have "\<not> is_https_parts p" "strcaseeq (g_strsplit_max line TAB 7 ! 3) ''TRUE''"
    by (simp_all add: hidden_from_page_def)
  then have "\<not> cookie_line_matches (g_strsplit_max line TAB 7) h path (is_https_parts p) now" for h path now
    by (simp add: cookie_line_matches_def Let_def)
  then show ?thesis by (simp add: readable_cookie_def Let_def)
qed

lemma collect_hidden:
  "collect_cookies env p jar = collect_cookies env p (filter (\<lambda>l. \<not> hidden_from_page env p l) jar)"
proof -
  have "fold (\<lambda>line acc. case readable_cookie env p line of None \<Rightarrow> acc | Some c \<Rightarrow> put_cookie c acc) jar a =
    fold (\<lambda>line acc. case readable_cookie env p line of None \<Rightarrow> acc | Some c \<Rightarrow> put_cookie c acc)
      (filter (\<lambda>l. \<not> hidden_from_page env p l) jar) a" for a
    by (induction jar arbitrary: a) (simp_all add: hidden_not_readable)
  then show ?thesis by (simp add: collect_cookies_def)
qed

text \<open>
  a page never reads a line of the jar that is marked HttpOnly (or is another comment), and a
  page that was not loaded over https never reads a secure cookie: the cookies such a page sees are
  those of a jar without these lines.
\<close>

theorem js_cookies_hidden:
  "ns_net_cookies_for_js env jar url =
   (case ns_url_parts_new (ck_lxb env) url of
      None \<Rightarrow> ns_net_cookies_for_js env [] url
    | Some p \<Rightarrow> ns_net_cookies_for_js env (filter (\<lambda>l. \<not> hidden_from_page env p l) jar) url)"
  using collect_hidden
  by (auto simp: ns_net_cookies_for_js_def Let_def split: option.splits)

section \<open>Writing and reading\<close>

lemma path_matches_dir: "cookie_path_matches d (d @ CHR ''/'' # e)"
  by (simp add: cookie_path_matches_def g_str_has_prefix_def)

lemma default_path_split:
  assumes "CHR ''/'' \<in> set r"
  shows "\<exists>d e. r = d @ CHR ''/'' # e \<and> default_path r = (if d = [] then ''/'' else d)"
proof -
  obtain d e where de: "r = d @ CHR ''/'' # e" "CHR ''/'' \<notin> set e" using assms by (meson split_list_last)
  have "dropWhile (\<lambda>c. c \<noteq> CHR ''/'') (rev e @ CHR ''/'' # rev d) = CHR ''/'' # rev d"
    using de(2) by (subst dropWhile_append2) auto
  then have "default_path r = (if d = [] then ''/'' else d)" by (simp add: de(1) default_path_def Let_def)
  with de(1) show ?thesis by blast
qed

lemma default_path_matches:
  assumes "r \<noteq> []" "hd r = CHR ''/''"
  shows "cookie_path_matches (default_path r) r"
proof -
  obtain d e where de: "r = d @ CHR ''/'' # e" "default_path r = (if d = [] then ''/'' else d)"
    using default_path_split [of r] assms by (metis hd_in_set)
  show ?thesis
  proof (cases "d = []")
    case True
    then show ?thesis using de by (simp add: cookie_path_matches_def g_str_has_prefix_def)
  next
    case False
    then have "cookie_path_matches d (d @ CHR ''/'' # e)" by (simp add: path_matches_dir)
    with False de show ?thesis by simp
  qed
qed

lemma dropWhile_id_hd: "xs = [] \<or> \<not> P (hd xs) \<Longrightarrow> dropWhile P xs = xs"
  by (cases xs) auto

lemma trim_id: "s = [] \<or> \<not> blank (hd s) \<and> \<not> blank (last s) \<Longrightarrow> trim_blank s = s"
  by (auto simp: trim_blank_def trim_left_def trim_right_def dropWhile_id_hd hd_rev)

lemma attr_loop_Nil [simp]: "cookie_attr_loop env [] s = s"
  by (subst cookie_attr_loop.simps) simp

lemma strtoll_zero: "g_ascii_strtoll ''0'' = Some 0"
  by (simp add: g_ascii_strtoll_def strtoll_space_def int64_clamp_def digit_val_def Let_def ascii_simps)

text \<open>The pages and assignments of the round trip.\<close>

definition plain_page :: "cookie_env \<Rightarrow> cstr \<Rightarrow> ns_url_parts \<Rightarrow> bool" where
  "plain_page env url p \<longleftrightarrow>
     ns_url_is_http_or_https (Some url) \<and> ns_url_parts_new (ck_lxb env) (Some url) = Some p \<and>
     nonempty (ns_url_site_from (ck_lxb env) (ck_psl env) (Some url)) \<and>
     hostname p \<noteq> [] \<and> hd (hostname p) \<noteq> CHR ''.'' \<and> hd (hostname p) \<noteq> CHR ''#'' \<and> TAB \<notin> set (hostname p) \<and>
     pathname p \<noteq> [] \<and> hd (pathname p) = CHR ''/'' \<and> TAB \<notin> set (pathname p)"

definition plain_word :: "cstr \<Rightarrow> bool" where
  "plain_word s \<longleftrightarrow> list_all (\<lambda>c. code_of c \<ge> 32 \<and> c \<noteq> CHR '';'') s \<and> (s = [] \<or> \<not> blank (hd s) \<and> \<not> blank (last s))"

lemma assignment_parts:
  assumes "plain_word name" "plain_word val" "name \<noteq> []" "CHR ''='' \<notin> set name"
  shows "takeWhile (\<lambda>c. c \<noteq> CHR '';'') (name @ CHR ''='' # val) = name @ CHR ''='' # val"
    and "dropWhile (\<lambda>c. c \<noteq> CHR '';'') (name @ CHR ''='' # val) = []"
    and "takeWhile (\<lambda>c. c \<noteq> CHR ''='') (name @ CHR ''='' # val) = name"
    and "dropWhile (\<lambda>c. c \<noteq> CHR ''='') (name @ CHR ''='' # val) = CHR ''='' # val"
    and "\<not> list_ex (\<lambda>c. code_of c < 32) (name @ CHR ''='' # val)"
    and "trim_blank name = name" "trim_blank val = val"
proof -
  have nv: "\<forall>c\<in>set (name @ CHR ''='' # val). c \<noteq> CHR '';'' \<and> code_of c \<ge> 32"
    using assms(1,2) by (auto simp: plain_word_def list_all_iff code_of_def)
  have eq: "\<And>c. c \<in> set name \<Longrightarrow> c \<noteq> CHR ''=''" using assms(4) by auto
  from nv show "takeWhile (\<lambda>c. c \<noteq> CHR '';'') (name @ CHR ''='' # val) = name @ CHR ''='' # val"
    "dropWhile (\<lambda>c. c \<noteq> CHR '';'') (name @ CHR ''='' # val) = []"
    by (simp_all only: takeWhile_eq_all_conv dropWhile_eq_Nil_conv) auto
  show "\<not> list_ex (\<lambda>c. code_of c < 32) (name @ CHR ''='' # val)"
    using nv by (simp only: list_ex_iff) (metis not_le)
  show "takeWhile (\<lambda>c. c \<noteq> CHR ''='') (name @ CHR ''='' # val) = name"
    "dropWhile (\<lambda>c. c \<noteq> CHR ''='') (name @ CHR ''='' # val) = CHR ''='' # val"
    using eq by (simp_all add: takeWhile_append2 dropWhile_append2)
  show "trim_blank name = name" "trim_blank val = val"
    using assms(1,2) by (auto intro!: trim_id simp: plain_word_def)
qed

lemma plain_store:
  assumes "plain_page env url p" "plain_word name" "plain_word val" "name \<noteq> []" "CHR ''='' \<notin> set name"
    and "\<not> strncaseeq name ''__Secure-'' 9" "\<not> strncaseeq name ''__Host-'' 7"
    and "\<not> cookie_partition_has_httponly jar (hostname p) name"
  shows "ns_net_cookie_store_from_js env jar (Some url) (Some (name @ CHR ''='' # val)) =
    Some (cookie_line (hostname p, ''FALSE'') (default_path (pathname p)) no_attrs name val)"
proof -
  note parts = assignment_parts [OF assms(2-5)]
  have ne: "hd (name @ CHR ''='' # val) \<noteq> CHR ''=''" using assms(4,5) by (cases name) auto
  have pre: "prefix_ok name no_attrs h" for h using assms(6,7) by (simp add: prefix_ok_def no_attrs_def)
  have dm: "cookie_file_domain env no_attrs h = Some (h, ''FALSE'')" for h
    by (simp add: cookie_file_domain_def no_attrs_def)
  have path: "cookie_path no_attrs r = default_path r" for r by (simp add: cookie_path_def no_attrs_def)
  have url: "nonempty (Some url)" using assms(1) by (auto simp: plain_page_def ns_url_is_http_or_https_def cstr_simps)
  show ?thesis
    unfolding ns_net_cookie_store_from_js_def Let_def option.sel parts
    using assms(1,4,8) ne pre dm url parts(5,7) by (simp add: plain_page_def path)
qed

text \<open>
  a cookie a page assigns without attributes is read back by the page as it was written: the
  assignment is stored, and the jar that holds the line gives the page back \<^verbatim>\<open>name=value\<close>, for every
  name without \<^verbatim>\<open>=\<close> or a protected prefix and every value, of printable characters without
  semicolon and with no blank at the ends.
\<close>

theorem js_cookie_roundtrip:
  assumes "plain_page env url p" "plain_word name" "plain_word val" "name \<noteq> []" "CHR ''='' \<notin> set name"
    and "\<not> strncaseeq name ''__Secure-'' 9" "\<not> strncaseeq name ''__Host-'' 7"
    and "\<not> cookie_partition_has_httponly jar (hostname p) name"
  shows "(case ns_net_cookie_store_from_js env jar (Some url) (Some (name @ CHR ''='' # val)) of
      None \<Rightarrow> False
    | Some line \<Rightarrow> ns_net_cookies_for_js env [line] (Some url) = Some (name @ CHR ''='' # val))"
proof -
  let ?line = "cookie_line (hostname p, ''FALSE'') (default_path (pathname p)) no_attrs name val"
  have p: "hostname p \<noteq> []" "hd (hostname p) \<noteq> CHR ''.''" "hd (hostname p) \<noteq> CHR ''#''" "TAB \<notin> set (hostname p)"
    "pathname p \<noteq> []" "hd (pathname p) = CHR ''/''" "TAB \<notin> set (pathname p)"
    "ns_url_parts_new (ck_lxb env) (Some url) = Some p"
    "nonempty (ns_url_site_from (ck_lxb env) (ck_psl env) (Some url))"
    using assms(1) by (simp_all add: plain_page_def)
  have tn: "TAB \<notin> set name"
  proof
    assume "TAB \<in> set name"
    then have "code_of TAB \<ge> 32" using assms(2) by (simp add: plain_word_def list_all_iff)
    then show False by (simp add: TAB_def code_of_def)
  qed
  moreover have "TAB \<notin> set (default_path (pathname p))"
    using default_path_chars [of "pathname p"] p(7) by (auto simp: TAB_def)
  moreover have tf: "TAB \<notin> set ''FALSE''" by (simp add: TAB_def)
  ultimately have f: "g_strsplit_max ?line TAB 7 =
      [hostname p, ''FALSE'', default_path (pathname p), ''FALSE'', ''0'', name, val]"
    using cookie_line_split [of "(hostname p, ''FALSE'')" "default_path (pathname p)" name no_attrs val] p(4) tf
    by (simp add: no_attrs_def)
  have hd: "?line \<noteq> [] \<and> hd ?line \<noteq> CHR ''#''" using p(1,3) by (simp add: cookie_line_def)
  have sd: "strip_dot (hostname p) = hostname p" using p(1,2) by (cases "hostname p") (auto simp: strip_dot_def)
  have "cookie_line_matches [hostname p, ''FALSE'', default_path (pathname p), ''FALSE'', ''0'', name, val]
      (hostname p) (pathname p) s now" for s now
    using default_path_matches [OF p(5,6)]
    by (simp add: cookie_line_matches_def sd strtoll_zero Let_def) (simp add: strcaseeq_def ascii_simps)
  then have "readable_cookie env p ?line = Some (name, val)"
    unfolding readable_cookie_def f Let_def using hd assms(4) p(5) by simp
  then have "ns_net_cookies_for_js env [?line] (Some url) = Some (name @ CHR ''='' # val)"
    using p assms(1) by (auto simp: ns_net_cookies_for_js_def collect_cookies_def cookie_text_def plain_page_def
        ns_url_is_http_or_https_def cstr_simps)
  then show ?thesis by (simp add: plain_store [OF assms])
qed

section \<open>A page to witness the properties\<close>

definition page_parser :: lxb_parser where
  "page_parser u = (if u = ''https://a.b/p/q'' then Some (plain_url ''a.b'' ''/p/q'' []) else None)"

definition page_env :: cookie_env where
  "page_env = \<lparr> ck_lxb = page_parser, ck_psl = (\<lambda>h. None), ck_public_suffix = (\<lambda>d. d = ''b''),
     ck_getdate = (\<lambda>t. None), ck_now = 1000 \<rparr>"

definition page_parts :: ns_url_parts where
  "page_parts = parts_of ''https://a.b/p/q'' (plain_url ''a.b'' ''/p/q'' [])"

lemma page_parts_fields:
  "hostname page_parts = ''a.b''" "pathname page_parts = ''/p/q''" "protocol page_parts = ''https:''"
  "port page_parts = []" "is_https_parts page_parts"
  by (simp_all add: page_parts_def parts_of_def plain_url_def ns_url_take_serialized_def port_string_def
      is_https_parts_def strcaseeq_def Let_def)

lemma page_parts_new: "ns_url_parts_new page_parser (Some ''https://a.b/p/q'') = Some page_parts"
  by (simp add: ns_url_parts_new_def ns_url_parts_new_depth.simps [of page_parser "''https://a.b/p/q''" 0] page_parser_def
      page_parts_def [symmetric] page_parts_fields Let_def)

lemma page_site: "nonempty (ns_url_site_from page_parser (\<lambda>h. None) (Some ''https://a.b/p/q''))"
  by (simp add: ns_url_site_from_def page_parts_new page_parts_fields Let_def)

lemma page_env_fields:
  "ck_lxb page_env = page_parser" "ck_psl page_env = (\<lambda>h. None)" "ck_now page_env = 1000"
  "ck_public_suffix page_env d = (d = ''b'')" "ck_getdate page_env t = None"
  by (simp_all add: page_env_def)

lemma page_url_http: "ns_url_is_http_or_https (Some ''https://a.b/p/q'')"
  by (simp add: ns_url_is_http_or_https_def cstr_simps)

lemma page_plain: "plain_page page_env ''https://a.b/p/q'' page_parts"
  by (simp add: plain_page_def page_env_fields page_url_http page_parts_new page_parts_fields page_site TAB_def)

theorem js_cookie_roundtrip_witness:
  "(case ns_net_cookie_store_from_js page_env [] (Some ''https://a.b/p/q'') (Some (''n'' @ CHR ''='' # ''v 1'')) of
      None \<Rightarrow> False
    | Some line \<Rightarrow> ns_net_cookies_for_js page_env [line] (Some ''https://a.b/p/q'') = Some (''n'' @ CHR ''='' # ''v 1''))"
  by (rule js_cookie_roundtrip [OF page_plain])
    (simp_all add: plain_word_def blank_def TAB_def cookie_partition_has_httponly_def cstr_simps ascii_simps)

text \<open>The attributes of an assignment, on the page: one after the other.\<close>

lemma page_store:
  assumes "\<not> list_ex (\<lambda>c. code_of c < 32) cookie"
    and "takeWhile (\<lambda>c. c \<noteq> CHR '';'') cookie = name @ CHR ''='' # val"
    and "CHR ''='' \<notin> set name" "name \<noteq> []" "trim_blank name = name" "trim_blank val = val"
    and "cookie_attr_loop page_env (dropWhile (\<lambda>c. c \<noteq> CHR '';'') cookie) no_attrs = s"
    and "prefix_ok name s True" "cookie_file_domain page_env s ''a.b'' = Some fd"
  shows "ns_net_cookie_store_from_js page_env [] (Some ''https://a.b/p/q'') (Some cookie) =
     Some (cookie_line fd (cookie_path s ''/p/q'') s name val)"
proof -
  have hd: "hd (name @ CHR ''='' # val) \<noteq> CHR ''=''" using assms(3,4) by (cases name) auto
  have eq: "\<And>c. c \<in> set name \<Longrightarrow> c \<noteq> CHR ''=''" using assms(3) by auto
  have nv: "takeWhile (\<lambda>c. c \<noteq> CHR ''='') (name @ CHR ''='' # val) = name"
    "tl (dropWhile (\<lambda>c. c \<noteq> CHR ''='') (name @ CHR ''='' # val)) = val"
    using eq by (simp_all add: takeWhile_append2 dropWhile_append2)
  have h: "cookie_partition_has_httponly [] h n = False" for h n by (simp add: cookie_partition_has_httponly_def)
  show ?thesis
    unfolding ns_net_cookie_store_from_js_def Let_def option.sel page_env_fields page_parts_new option.case
      page_parts_fields assms(2) nv assms(5-7) h
    using assms(1,4,8,9) hd by (simp add: page_url_http page_site page_parts_fields)
qed

lemma page_host_prefix:
  "ns_net_cookie_store_from_js page_env [] (Some ''https://a.b/p/q'') (Some ''__Host-s=1; Secure'') =
   Some (cookie_line (''a.b'', ''FALSE'') ''/p'' (no_attrs\<lparr> ca_secure := True \<rparr>) ''__Host-s'' ''1'')"
proof -
  have loop': "cookie_attr_loop page_env ''; Secure'' no_attrs = no_attrs\<lparr> ca_secure := True \<rparr>" 
    by (subst cookie_attr_loop.simps)
      (simp add: attr_skip_def TAB_def trim_right_def blank_def cookie_attribute_def cstr_simps ascii_simps)
  have "default_path ''/p/q'' = ''/p''" by (simp add: default_path_def)
  then have path: "cookie_path (no_attrs\<lparr> ca_secure := True \<rparr>) ''/p/q'' = ''/p''"
    by (simp add: cookie_path_def no_attrs_def)
  have "prefix_ok ''__Host-s'' (no_attrs\<lparr> ca_secure := True \<rparr>) True"
    "cookie_file_domain page_env (no_attrs\<lparr> ca_secure := True \<rparr>) ''a.b'' = Some (''a.b'', ''FALSE'')"
    by (simp_all add: prefix_ok_def cookie_file_domain_def no_attrs_def)
  then show ?thesis
    unfolding path [symmetric]
    by (intro page_store) (simp_all add: loop' trim_blank_def trim_left_def trim_right_def blank_def TAB_def ascii_simps)
qed


section \<open>Where the code departs from the rules it follows\<close>

text \<open>A \<^verbatim>\<open>Max-Age\<close> so large that its sum with the clock leaves 64 bits gives an expiry in the past.\<close>

lemma max_age_wraps:
  "ca_expiry (cookie_attribute page_env ''max-age=9223372036854775807'' no_attrs) < ck_now page_env"
  by (simp add: cookie_attribute_def trim_left_def blank_def TAB_def page_env_fields g_ascii_strtoll_def
      strtoll_space_def int64_clamp_def digit_val_def wrap64_def no_attrs_def Let_def cstr_simps ascii_simps)

text \<open>The tail of an IP address matches it as a domain.\<close>

lemma ip_tail_matches: "cookie_domain_matches ''0.0.1'' ''127.0.0.1''"
  by (simp add: cookie_domain_matches_def strip_dot_def cstr_simps ascii_simps)

end
