(* ===== verification/DataUrl.thy ===== *)
theory DataUrl
  imports Prelude
begin

text \<open>
  \<^verbatim>\<open>data:\<close> URLs (\<^verbatim>\<open>net.c\<close>): the budget every body is read under, the strict base64 decoder, the
  percent decoder and the media type.  Byte counts are natural numbers; the limits the code compares
  them with are written out.  A decoder returns whether it succeeded, whether the budget stopped it,
  and the body as it left it.
\<close>

unbundle bit_operations_syntax

section \<open>The budget\<close>

definition G_MAXUINT :: nat where
  "G_MAXUINT = 2 ^ 32 - 1"

text \<open>The body and the number of bytes added to it so far; None leaves both alone.\<close>

type_synonym sink = "u8 list \<times> nat"

definition append_response_budgeted :: "nat \<Rightarrow> u8 list \<Rightarrow> sink \<Rightarrow> sink option" where
  "append_response_budgeted budget data s =
     (case s of (body, tot) \<Rightarrow>
        if data = [] then Some (body, tot)
        else if length data > G_MAXUINT then None
        else if tot > budget then None
        else if length data > budget - tot then None
        else if tot + length data > G_MAXUINT then None
        else Some (body @ data, tot + length data))"

lemma append_budget:
  "append_response_budgeted budget data (body, tot) = Some s' \<Longrightarrow>
     s' = (body @ data, tot + length data) \<and> (data = [] \<or> tot + length data \<le> min budget G_MAXUINT)"
  by (auto simp: append_response_budgeted_def split: if_splits)

lemma append_fits:
  "tot + length data \<le> min budget G_MAXUINT \<Longrightarrow>
     append_response_budgeted budget data (body, tot) = Some (body @ data, tot + length data)"
  by (auto simp: append_response_budgeted_def)

record decode_result =
  dr_ok :: bool
  dr_too_large :: bool
  dr_body :: "u8 list"

abbreviation malformed :: "sink \<Rightarrow> decode_result" where
  "malformed s \<equiv> \<lparr> dr_ok = False, dr_too_large = False, dr_body = fst s \<rparr>"

abbreviation too_large :: "sink \<Rightarrow> decode_result" where
  "too_large s \<equiv> \<lparr> dr_ok = False, dr_too_large = True, dr_body = fst s \<rparr>"

abbreviation decoded :: "sink \<Rightarrow> decode_result" where
  "decoded s \<equiv> \<lparr> dr_ok = True, dr_too_large = False, dr_body = fst s \<rparr>"

section \<open>Base64\<close>

definition base64_value :: "char \<Rightarrow> u8 option" where
  "base64_value c =
     (let n = code_of c in
      if 65 \<le> n \<and> n \<le> 90 then Some (of_nat (n - 65))
      else if 97 \<le> n \<and> n \<le> 122 then Some (of_nat (n - 97 + 26))
      else if 48 \<le> n \<and> n \<le> 57 then Some (of_nat (n - 48 + 52))
      else if c = CHR ''+'' then Some 62
      else if c = CHR 0x2F then Some 63
      else None)"

text \<open>The next character, a percent escape counting as the character it stands for.\<close>

definition hex_pair :: "char \<Rightarrow> char \<Rightarrow> char" where
  "hex_pair a b = char_at (g_ascii_xdigit_value a * 16 + g_ascii_xdigit_value b)"

fun data_char :: "cstr \<Rightarrow> (char \<times> cstr) option" where
  "data_char [] = None"
| "data_char (c # a # b # r) =
     (if c = CHR ''%'' \<and> g_ascii_isxdigit a \<and> g_ascii_isxdigit b then Some (hex_pair a b, r) else Some (c, a # b # r))"
| "data_char (c # r) = Some (c, r)"

lemma data_char_shorter: "data_char p = Some (c, r) \<Longrightarrow> length r < length p"
  by (induction p rule: data_char.induct) (auto split: if_splits)

text \<open>A group of four, \<open>None\<close> standing for \<open>=\<close>: its bytes and whether it ends the data.\<close>

definition decode_group :: "u8 option list \<Rightarrow> (u8 list \<times> bool) option" where
  "decode_group q =
     (case q of
        [Some a, Some b, None, None] \<Rightarrow> Some ([push_bit 2 a OR drop_bit 4 b], True)
      | [Some a, Some b, Some c, None] \<Rightarrow>
          Some ([push_bit 2 a OR drop_bit 4 b, push_bit 4 (b AND 15) OR drop_bit 2 c], True)
      | [Some a, Some b, Some c, Some d] \<Rightarrow>
          Some ([push_bit 2 a OR drop_bit 4 b, push_bit 4 (b AND 15) OR drop_bit 2 c,
                 push_bit 6 (c AND 3) OR d], False)
      | _ \<Rightarrow> None)"

text \<open>The digits that are left over at the end.\<close>

definition decode_tail :: "nat \<Rightarrow> u8 option list \<Rightarrow> sink \<Rightarrow> decode_result" where
  "decode_tail budget q s =
     (case q of
        [] \<Rightarrow> decoded s
      | [Some a, Some b] \<Rightarrow>
          (case append_response_budgeted budget [push_bit 2 a OR drop_bit 4 b] s of
             None \<Rightarrow> too_large s | Some s' \<Rightarrow> decoded s')
      | [Some a, Some b, Some c] \<Rightarrow>
          (case append_response_budgeted budget
                  [push_bit 2 a OR drop_bit 4 b, push_bit 4 (b AND 15) OR drop_bit 2 c] s of
             None \<Rightarrow> too_large s | Some s' \<Rightarrow> decoded s')
      | _ \<Rightarrow> malformed s)"

function base64_loop :: "nat \<Rightarrow> cstr \<Rightarrow> u8 option list \<Rightarrow> bool \<Rightarrow> sink \<Rightarrow> decode_result" where
  "base64_loop budget p q ended s =
     (case data_char p of
        None \<Rightarrow> decode_tail budget q s
      | Some (c, r) \<Rightarrow>
          if g_ascii_isspace c then base64_loop budget r q ended s
          else if ended then malformed s
          else if c \<noteq> CHR ''='' \<and> base64_value c = None then malformed s
          else
            let q' = q @ [if c = CHR ''='' then None else base64_value c] in
            if length q' < 4 then base64_loop budget r q' ended s
            else (case decode_group q' of
                    None \<Rightarrow> malformed s
                  | Some (out, ends) \<Rightarrow>
                      (case append_response_budgeted budget out s of
                         None \<Rightarrow> too_large s
                       | Some s' \<Rightarrow> base64_loop budget r [] ends s')))"
  by pat_completeness auto
termination
  by (relation "measure (\<lambda>(budget, p, q, ended, s). length p)") (auto dest: data_char_shorter)

declare base64_loop.simps [simp del]

definition decode_data_base64_budgeted :: "cstr \<Rightarrow> u8 list \<Rightarrow> nat \<Rightarrow> decode_result" where
  "decode_data_base64_budgeted data body budget = base64_loop budget data [] False (body, 0)"

section \<open>Percent encoding\<close>

text \<open>The bytes go out through a buffer of 8192.\<close>

definition byte_of :: "char \<Rightarrow> u8" where
  "byte_of c = of_nat (code_of c)"

function percent_loop :: "nat \<Rightarrow> cstr \<Rightarrow> u8 list \<Rightarrow> sink \<Rightarrow> decode_result" where
  "percent_loop budget p buf s =
     (case p of
        [] \<Rightarrow> (case append_response_budgeted budget buf s of None \<Rightarrow> too_large s | Some s' \<Rightarrow> decoded s')
      | c # r \<Rightarrow>
          if c = CHR ''%'' \<and> \<not> (length r \<ge> 2 \<and> g_ascii_isxdigit (r ! 0) \<and> g_ascii_isxdigit (r ! 1)) then malformed s
          else
            let b = (if c = CHR ''%'' then byte_of (hex_pair (r ! 0) (r ! 1)) else byte_of c);
                r' = (if c = CHR ''%'' then drop 2 r else r);
                buf' = buf @ [b]
            in if length buf' = 8192
               then (case append_response_budgeted budget buf' s of
                       None \<Rightarrow> too_large s | Some s' \<Rightarrow> percent_loop budget r' [] s')
               else percent_loop budget r' buf' s)"
  by pat_completeness auto
termination
  by (relation "measure (\<lambda>(budget, p, buf, s). length p)") auto

declare percent_loop.simps [simp del]

definition decode_data_uri_budgeted :: "cstr \<Rightarrow> u8 list \<Rightarrow> nat \<Rightarrow> decode_result" where
  "decode_data_uri_budgeted data body budget = percent_loop budget data [] (body, 0)"

section \<open>The URL\<close>

text \<open>The media type and the result; no media type where the URL is not one of these at all.\<close>

definition ns_data_url_decode :: "cstr option \<Rightarrow> u8 list \<Rightarrow> nat \<Rightarrow> cstr option \<times> decode_result" where
  "ns_data_url_decode url out budget =
     (case url of
        None \<Rightarrow> (None, malformed (out, 0))
      | Some u \<Rightarrow>
          if \<not> g_str_has_prefix u ''data:'' then (None, malformed (out, 0))
          else (case strchr (drop 5 u) (CHR '','') of
                  None \<Rightarrow> (None, malformed (out, 0))
                | Some comma \<Rightarrow>
                    let meta0 = g_strchomp (take (length u - 5 - length comma) (drop 5 u));
                        base64 = (length meta0 \<ge> 7 \<and> strcaseeq (drop (length meta0 - 7) meta0) '';base64'');
                        meta = (if base64 then take (length meta0 - 7) meta0 else meta0)
                    in (Some (if meta \<noteq> [] then meta else ''text/plain;charset=UTF-8''),
                        if base64 then decode_data_base64_budgeted (tl comma) out budget
                        else decode_data_uri_budgeted (tl comma) out budget)))"

section \<open>The budget holds\<close>

definition within :: "nat \<Rightarrow> u8 list \<Rightarrow> u8 list \<Rightarrow> bool" where
  "within budget out body \<longleftrightarrow> (\<exists>added. body = out @ added \<and> length added \<le> min budget G_MAXUINT)"

text \<open>The sink never holds more than the budget.\<close>

definition sink_ok :: "nat \<Rightarrow> u8 list \<Rightarrow> sink \<Rightarrow> bool" where
  "sink_ok budget out s \<longleftrightarrow> (\<exists>added. fst s = out @ added \<and> snd s = length added \<and> length added \<le> min budget G_MAXUINT)"

lemma sink_start: "sink_ok budget out (out, 0)"
  by (simp add: sink_ok_def)

lemma sink_append: "sink_ok budget out s \<Longrightarrow> append_response_budgeted budget d s = Some s' \<Longrightarrow> sink_ok budget out s'"
  by (cases s) (force simp: sink_ok_def dest!: append_budget)

lemma sink_within: "sink_ok budget out s \<Longrightarrow> within budget out (fst s)"
  by (auto simp: sink_ok_def within_def)

lemma too_large_within [simp]: "sink_ok budget out s \<Longrightarrow> within budget out (dr_body (too_large s))"
  by (simp add: sink_within)

lemma append_within:
  assumes "sink_ok budget out s" and "\<And>s'. append_response_budgeted budget d s = Some s' \<Longrightarrow> sink_ok budget out s' \<Longrightarrow> within budget out (dr_body (k s'))"
  shows "within budget out
           (dr_body (case append_response_budgeted budget d s of None \<Rightarrow> too_large s | Some s' \<Rightarrow> k s'))"
  using assms by (cases "append_response_budgeted budget d s") (auto simp: sink_within dest: sink_append)

lemma appended_within: "sink_ok budget out s \<Longrightarrow> append_response_budgeted budget d s = Some (a, b) \<Longrightarrow> within budget out a"
  by (drule (1) sink_append) (drule sink_within, simp)

lemma tail_within: "sink_ok budget out s \<Longrightarrow> within budget out (dr_body (decode_tail budget q s))"
  unfolding decode_tail_def
  by (auto simp: sink_within dest: appended_within split: list.split option.split)

lemma base64_within: "sink_ok budget out s \<Longrightarrow> within budget out (dr_body (base64_loop budget p q ended s))"
proof (induction budget p q ended s rule: base64_loop.induct)
  case (1 budget p q ended s)
  note ok = \<open>sink_ok budget out s\<close>
  show ?case
  proof (cases "data_char p")
    case None
    with ok show ?thesis by (simp add: base64_loop.simps [of budget p] tail_within)
  next
    case (Some x)
    obtain c r where x: "x = (c, r)" by (cases x)
    define q' where "q' = q @ [if c = CHR ''='' then None else base64_value c]"
    note step = base64_loop.simps [of budget p q ended s, unfolded Some x option.case prod.case Let_def q'_def [symmetric]]
    note IH = 1(1-3) [OF Some [unfolded x] refl]
    consider "g_ascii_isspace c" | "\<not> g_ascii_isspace c" "ended \<or> c \<noteq> CHR ''='' \<and> base64_value c = None"
      | "\<not> g_ascii_isspace c" "\<not> ended" "\<not> (c \<noteq> CHR ''='' \<and> base64_value c = None)"
      by blast
    then show ?thesis
    proof cases
      case 1
      with IH(1) ok step show ?thesis by simp
    next
      case 2
      with ok step show ?thesis by (auto simp: sink_within)
    next
      case 3
      show ?thesis
      proof (cases "length q' < 4")
        case True
        have "within budget out (dr_body (base64_loop budget r q' ended s))"
          by (rule IH(2) [OF 3 q'_def True ok])
        with 3 True step show ?thesis by auto
      next
        case False
        show ?thesis
        proof (cases "decode_group q'")
          case None
          with 3 False ok step show ?thesis by (auto simp: sink_within)
        next
          case (Some g)
          obtain d ends where g: "g = (d, ends)" by (cases g)
          have "within budget out (dr_body (case append_response_budgeted budget d s of None \<Rightarrow> too_large s
                  | Some s' \<Rightarrow> base64_loop budget r [] ends s'))"
          proof (cases "append_response_budgeted budget d s")
            case None
            with ok show ?thesis by (simp add: sink_within)
          next
            case Some': (Some s')
            with IH(3) [OF 3 q'_def False Some [unfolded g] refl Some' sink_append [OF ok Some']] show ?thesis by simp
          qed
          with 3 False Some g step show ?thesis by auto
        qed
      qed
    qed
  qed
qed

lemma percent_within: "sink_ok budget out s \<Longrightarrow> within budget out (dr_body (percent_loop budget p buf s))"
proof (induction budget p buf s rule: percent_loop.induct)
  case (1 budget p buf s)
  show ?case
  proof (cases p)
    case Nil
    with 1(3) show ?thesis
      by (auto simp: percent_loop.simps [of budget "[]"] sink_within dest: appended_within split: option.split)
  next
    case (Cons c r)
    note step = percent_loop.simps [of budget p buf s, unfolded Cons list.case]
    show ?thesis
      unfolding Cons step Let_def
      using 1(3) Cons
      by (auto simp: sink_within Let_def intro!: 1(1,2) append_within)
  qed
qed

text \<open>
  decoding a \<^verbatim>\<open>data:\<close> URL, whether it succeeds or fails, only adds to the buffer it was given, and
  never more than the budget nor than 4 GiB.
\<close>

theorem data_url_within_budget:
  "within budget out (dr_body (snd (ns_data_url_decode url out budget)))"
proof -
  have "within budget out out" by (simp add: within_def)
  then show ?thesis
    by (auto simp: ns_data_url_decode_def decode_data_base64_budgeted_def decode_data_uri_budgeted_def Let_def
        intro: base64_within percent_within sink_start split: option.split)
qed

section \<open>Base64 is undone\<close>

text \<open>The reference: the encoder of RFC 4648, with padding.\<close>

definition b64_alphabet :: cstr where
  "b64_alphabet = ''ABCDEFGHIJKLMNOPQRSTUVWXYZabcdefghijklmnopqrstuvwxyz0123456789+/''"

definition b64_char :: "u8 \<Rightarrow> char" where
  "b64_char v = b64_alphabet ! unat v"

fun b64_encode :: "u8 list \<Rightarrow> cstr" where
  "b64_encode [] = []"
| "b64_encode [a] = [b64_char (drop_bit 2 a), b64_char (push_bit 4 (a AND 3)), CHR ''='', CHR ''='']"
| "b64_encode [a, b] =
     [b64_char (drop_bit 2 a), b64_char (push_bit 4 (a AND 3) OR drop_bit 4 b), b64_char (push_bit 2 (b AND 15)), CHR ''='']"
| "b64_encode (a # b # c # r) =
     [b64_char (drop_bit 2 a), b64_char (push_bit 4 (a AND 3) OR drop_bit 4 b),
      b64_char (push_bit 2 (b AND 15) OR drop_bit 6 c), b64_char (c AND 63)] @ b64_encode r"

lemma b64_alphabet_value:
  "list_all (\<lambda>n. base64_value (b64_alphabet ! n) = Some (of_nat n) \<and> \<not> g_ascii_isspace (b64_alphabet ! n) \<and>
     b64_alphabet ! n \<noteq> CHR ''='' \<and> b64_alphabet ! n \<noteq> CHR ''%'') [0..<64]"
  by (simp add: b64_alphabet_def base64_value_def upt_rec ascii_simps)

lemma b64_char_facts:
  assumes "v < 64"
  shows "base64_value (b64_char v) = Some v" "\<not> g_ascii_isspace (b64_char v)"
    "b64_char v \<noteq> CHR ''=''" "b64_char v \<noteq> CHR ''%''"
proof -
  have "unat v < 64" using assms by (simp add: word_less_nat_alt)
  with b64_alphabet_value show "base64_value (b64_char v) = Some v" "\<not> g_ascii_isspace (b64_char v)"
    "b64_char v \<noteq> CHR ''=''" "b64_char v \<noteq> CHR ''%''"
    by (auto simp: b64_char_def list_all_iff)
qed

lemma and_masks:
  fixes x :: u8
  shows "x AND 3 = take_bit 2 x" "x AND 15 = take_bit 4 x" "x AND 63 = take_bit 6 x"
  by (simp_all add: take_bit_eq_mask mask_numeral)

lemma less_8_cases: "(n::nat) < 8 \<Longrightarrow> n = 0 \<or> n = 1 \<or> n = 2 \<or> n = 3 \<or> n = 4 \<or> n = 5 \<or> n = 6 \<or> n = 7"
  by arith

lemma len_bit0_8: "LENGTH(8) = 8"
  by simp

lemma u8_eqI: "(\<And>n. n = 0 \<or> n = 1 \<or> n = 2 \<or> n = 3 \<or> n = 4 \<or> n = 5 \<or> n = 6 \<or> n = 7 \<Longrightarrow> bit a n = bit b n) \<Longrightarrow> a = (b::u8)"
  by (rule bit_word_eqI) (metis less_8_cases len_bit0_8)

lemma sextet_iff: "(v::u8) < 64 \<longleftrightarrow> take_bit 6 v = v"
proof -
  have "take_bit 6 v = v \<longleftrightarrow> unat v mod 64 = unat v"
    by (simp add: take_bit_eq_mod word_unat_eq_iff unat_mod)
  also have "\<dots> \<longleftrightarrow> unat v < 64" by (metis mod_less mod_less_divisor zero_less_numeral)
  finally show ?thesis by (simp add: word_less_nat_alt)
qed

lemma u8_bit_high: "8 \<le> n \<Longrightarrow> \<not> bit (a::u8) n"
  by (auto dest: bit_imp_le_length)

lemma sextet_bounds:
  fixes a b c :: u8
  shows "drop_bit 2 a < 64" "push_bit 4 (a AND 3) < 64" "push_bit 4 (a AND 3) OR drop_bit 4 b < 64"
    "push_bit 2 (b AND 15) < 64" "push_bit 2 (b AND 15) OR drop_bit 6 c < 64" "c AND 63 < 64"
  unfolding sextet_iff and_masks
  by (rule u8_eqI; auto simp: bit_simps u8_bit_high numeral_2_eq_2 [symmetric] numeral_3_eq_3 [symmetric])+

lemma group_inverse:
  fixes a b c :: u8
  shows "push_bit 2 (drop_bit 2 a) OR drop_bit 4 (push_bit 4 (a AND 3)) = a"
    "push_bit 2 (drop_bit 2 a) OR drop_bit 4 (push_bit 4 (a AND 3) OR drop_bit 4 b) = a"
    "push_bit 4 ((push_bit 4 (a AND 3) OR drop_bit 4 b) AND 15) OR drop_bit 2 (push_bit 2 (b AND 15)) = b"
    "push_bit 4 ((push_bit 4 (a AND 3) OR drop_bit 4 b) AND 15) OR drop_bit 2 (push_bit 2 (b AND 15) OR drop_bit 6 c) = b"
    "push_bit 6 ((push_bit 2 (b AND 15) OR drop_bit 6 c) AND 3) OR (c AND 63) = c"
  unfolding and_masks
  by (rule u8_eqI; auto simp: bit_simps u8_bit_high numeral_2_eq_2 [symmetric] numeral_3_eq_3 [symmetric])+


lemma data_char_plain: "c \<noteq> CHR ''%'' \<Longrightarrow> data_char (c # p) = Some (c, p)"
  by (cases "c # p" rule: data_char.cases) auto

lemma base64_digit:
  assumes "base64_value c = Some v" "\<not> g_ascii_isspace c" "c \<noteq> CHR ''=''" "c \<noteq> CHR ''%''" "length q < 3"
  shows "base64_loop budget (c # p) q False s = base64_loop budget p (q @ [Some v]) False s"
  using assms by (simp add: base64_loop.simps [of budget "c # p"] data_char_plain Let_def)

lemma base64_pad:
  assumes "length q < 3"
  shows "base64_loop budget (CHR ''='' # p) q False s = base64_loop budget p (q @ [None]) False s"
  using assms by (simp add: base64_loop.simps [of budget "CHR ''='' # p"] data_char_plain Let_def ascii_simps)

lemma base64_last_digit:
  assumes "base64_value c = Some v" "\<not> g_ascii_isspace c" "c \<noteq> CHR ''=''" "c \<noteq> CHR ''%''" "length q = 3"
    and "decode_group (q @ [Some v]) = Some (d, ends)" "append_response_budgeted budget d s = Some s'"
  shows "base64_loop budget (c # p) q False s = base64_loop budget p [] ends s'"
  using assms by (simp add: base64_loop.simps [of budget "c # p"] data_char_plain Let_def)

lemma base64_last_pad:
  assumes "length q = 3" "decode_group (q @ [None]) = Some (d, ends)" "append_response_budgeted budget d s = Some s'"
  shows "base64_loop budget (CHR ''='' # p) q False s = base64_loop budget p [] ends s'"
  using assms by (simp add: base64_loop.simps [of budget "CHR ''='' # p"] data_char_plain Let_def ascii_simps)

lemma base64_end: "base64_loop budget [] [] ended s = decoded s"
  by (simp add: base64_loop.simps [of budget "[]"] decode_tail_def)

lemmas base64_steps = base64_digit base64_pad base64_last_digit base64_last_pad base64_end
  b64_char_facts sextet_bounds group_inverse decode_group_def append_fits

lemma base64_group:
  assumes "append_response_budgeted budget [a, b, c] s = Some s'"
  shows "base64_loop budget (b64_encode (a # b # c # r)) [] False s = base64_loop budget (b64_encode r) [] False s'"
proof -
  have "base64_loop budget (b64_char (c AND 63) # b64_encode r)
          [Some (drop_bit 2 a), Some (push_bit 4 (a AND 3) OR drop_bit 4 b), Some (push_bit 2 (b AND 15) OR drop_bit 6 c)]
          False s = base64_loop budget (b64_encode r) [] False s'"
    by (rule base64_last_digit [where v = "c AND 63" and d = "[a, b, c]"])
      (simp_all add: b64_char_facts sextet_bounds group_inverse decode_group_def assms del: push_bit_and)
  then show ?thesis by (simp add: base64_digit b64_char_facts sextet_bounds del: push_bit_and)
qed

lemma base64_loop_encode:
  "tot + length bs \<le> min budget G_MAXUINT \<Longrightarrow>
     base64_loop budget (b64_encode bs) [] False (body, tot) = decoded (body @ bs, tot + length bs)"
proof (induction bs arbitrary: body tot rule: b64_encode.induct)
  case 1
  show ?case by (simp add: base64_end)
next
  case (2 a)
  then show ?case by (simp add: base64_steps del: push_bit_and)
next
  case (3 a b)
  then show ?case by (simp add: base64_steps del: push_bit_and)
next
  case (4 a b c r)
  then have "append_response_budgeted budget [a, b, c] (body, tot) = Some (body @ [a, b, c], tot + 3)"
    by (simp add: append_fits)
  from base64_group [OF this, of r] 4 show ?case by (simp del: b64_encode.simps)
qed

text \<open>
  base64 round trip: the decoder of \<^verbatim>\<open>data:\<close> URLs undoes the encoder of RFC 4648 on every byte
  string that fits the budget.
\<close>

theorem base64_roundtrip:
  "length bs \<le> min budget G_MAXUINT \<Longrightarrow>
     decode_data_base64_budgeted (b64_encode bs) out budget =
       \<lparr> dr_ok = True, dr_too_large = False, dr_body = out @ bs \<rparr>"
  by (simp add: decode_data_base64_budgeted_def base64_loop_encode)

lemma base64_roundtrip_witness:
  "decode_data_base64_budgeted (b64_encode [255, 0, 17, 4]) [] 100 =
     \<lparr> dr_ok = True, dr_too_large = False, dr_body = [255, 0, 17, 4] \<rparr>"
  using base64_roundtrip [of "[255, 0, 17, 4]" 100 "[]"] by (simp add: G_MAXUINT_def)

lemma append_over: "budget < tot + length d \<Longrightarrow> d \<noteq> [] \<Longrightarrow> append_response_budgeted budget d (body, tot) = None"
  by (auto simp: append_response_budgeted_def)

lemma base64_last_digit_over:
  assumes "base64_value c = Some v" "\<not> g_ascii_isspace c" "c \<noteq> CHR ''=''" "c \<noteq> CHR ''%''" "length q = 3"
    and "decode_group (q @ [Some v]) = Some (d, ends)" "append_response_budgeted budget d s = None"
  shows "base64_loop budget (c # p) q False s = too_large s"
  using assms by (simp add: base64_loop.simps [of budget "c # p"] data_char_plain Let_def)

lemma base64_last_pad_over:
  assumes "length q = 3" "decode_group (q @ [None]) = Some (d, ends)" "append_response_budgeted budget d s = None"
  shows "base64_loop budget (CHR ''='' # p) q False s = too_large s"
  using assms by (simp add: base64_loop.simps [of budget "CHR ''='' # p"] data_char_plain Let_def ascii_simps)

lemma base64_group_over:
  assumes "append_response_budgeted budget [a, b, c] s = None"
  shows "base64_loop budget (b64_encode (a # b # c # r)) [] False s = too_large s"
proof -
  have "base64_loop budget (b64_char (c AND 63) # b64_encode r)
          [Some (drop_bit 2 a), Some (push_bit 4 (a AND 3) OR drop_bit 4 b), Some (push_bit 2 (b AND 15) OR drop_bit 6 c)]
          False s = too_large s"
    by (rule base64_last_digit_over [where v = "c AND 63" and d = "[a, b, c]" and ends = False])
      (simp_all add: b64_char_facts sextet_bounds group_inverse decode_group_def assms del: push_bit_and)
  then show ?thesis by (simp add: base64_digit b64_char_facts sextet_bounds del: push_bit_and)
qed

lemmas base64_steps_over = base64_digit base64_pad base64_last_digit_over base64_last_pad_over
  b64_char_facts sextet_bounds group_inverse decode_group_def append_over

lemma base64_loop_over:
  "budget < tot + length bs \<Longrightarrow> tot \<le> budget \<Longrightarrow> tot + length bs \<le> G_MAXUINT \<Longrightarrow>
     \<exists>n. base64_loop budget (b64_encode bs) [] False (body, tot) = too_large (body @ take n bs, 0)"
proof (induction bs arbitrary: body tot rule: b64_encode.induct)
  case 1
  then show ?case by simp
next
  case (2 a)
  then show ?case by (auto simp: base64_steps_over intro: exI [of _ 0] simp del: push_bit_and)
next
  case (3 a b)
  then show ?case by (auto simp: base64_steps_over intro: exI [of _ 0] simp del: push_bit_and)
next
  case (4 a b c r)
  show ?case
  proof (cases "tot + 3 \<le> budget")
    case True
    with 4(4) have fits: "append_response_budgeted budget [a, b, c] (body, tot) = Some (body @ [a, b, c], tot + 3)"
      by (simp add: append_fits)
    obtain n where "base64_loop budget (b64_encode r) [] False (body @ [a, b, c], tot + 3) =
        too_large ((body @ [a, b, c]) @ take n r, 0)"
      using 4(1) [of "tot + 3" "body @ [a, b, c]"] 4(2,4) True by auto
    with base64_group [OF fits, of r] show ?thesis
      by (auto intro!: exI [of _ "Suc (Suc (Suc n))"] simp del: b64_encode.simps)
  next
    case False
    then have "append_response_budgeted budget [a, b, c] (body, tot) = None" by (simp add: append_over)
    from base64_group_over [OF this, of r] show ?thesis
      by (auto intro!: exI [of _ 0] simp del: b64_encode.simps)
  qed
qed

text \<open>
  where the bytes do not fit the budget the decoder reports that it stopped for it, keeps only a
  prefix of them and never reports the truncated body as a success.
\<close>

theorem base64_over_budget:
  assumes "budget < length bs" "length bs \<le> G_MAXUINT"
  shows "\<exists>n. decode_data_base64_budgeted (b64_encode bs) out budget =
           \<lparr> dr_ok = False, dr_too_large = True, dr_body = out @ take n bs \<rparr>"
  using base64_loop_over [of budget 0 bs out] assms by (simp add: decode_data_base64_budgeted_def)

lemma base64_over_budget_witness:
  "\<exists>n. decode_data_base64_budgeted (b64_encode [1, 2, 3, 4]) [] 3 =
     \<lparr> dr_ok = False, dr_too_large = True, dr_body = take n [1, 2, 3, 4] \<rparr>"
  using base64_over_budget [of 3 "[1, 2, 3, 4]" "[]"] by (simp add: G_MAXUINT_def)

end
