(* ===== verification/EventSource.thy ===== *)
theory EventSource
  imports FetchPolicy
begin

text \<open>
  Server-sent events (\<^verbatim>\<open>eventsource.c\<close>): the incremental parser of the event stream, the response
  headers a stream has to pass, one connection, the reconnecting worker, and the life of the shared
  object between the page and the worker thread.  libcurl is not part of the repository: what it
  hands to the two callbacks during a connection is an argument (a list of header lines and body
  chunks), and \<open>resolve\<close> stands for \<^verbatim>\<open>ns_url_resolve\<close>.  A \<^verbatim>\<open>GString\<close> or \<^verbatim>\<open>GByteArray\<close> is the list
  of its bytes.
\<close>

section \<open>State\<close>

definition NS_ES_MAX_LINE :: nat where
  "NS_ES_MAX_LINE = 1048576"

definition NS_ES_MAX_EVENT :: nat where
  "NS_ES_MAX_EVENT = 8388608"

definition NS_ES_MAX_PENDING :: nat where
  "NS_ES_MAX_PENDING = 256"

abbreviation LF :: char where "LF \<equiv> CHR 0x0A"
abbreviation CR :: char where "CR \<equiv> CHR 0x0D"

text \<open>What is posted to the engine thread: which callback with which payload.\<close>

datatype es_event = Es_Open | Es_Message (msg_event: cstr) (msg_data: cstr) (msg_last_id: cstr) | Es_Error bool

record ns_es =
  es_url :: cstr
  es_origin :: "cstr option"
  es_policy :: "ns_fetch_policy option"
  last_event_id :: cstr
  reconnect_ms :: int
  exit_requested :: bool
  detached :: bool
  pending :: nat
  refcount :: nat
  idle_queue :: "es_event list"    \<comment> \<open>the dispatches the engine's main loop holds for this object\<close>

record ns_es_parse =
  es_line :: cstr
  last_was_cr :: bool
  es_data :: cstr
  event_type :: "cstr option"
  es_status :: int
  opened :: bool
  fatal :: bool
  is_event_stream :: bool
  cors_allowed :: bool
  es_cur_url :: cstr

type_synonym es_state = "ns_es \<times> ns_es_parse"

definition ns_es_new :: "cstr \<Rightarrow> cstr option \<Rightarrow> cstr option \<Rightarrow> ns_fetch_policy option \<Rightarrow> ns_es" where
  "ns_es_new url org last_id policy =
     \<lparr> es_url = url, es_origin = org, es_policy = policy, last_event_id = str_or last_id [],
       reconnect_ms = 3000, exit_requested = False, detached = False, pending = 0,
       refcount = 2, idle_queue = [] \<rparr>"

definition ns_es_close :: "ns_es \<Rightarrow> ns_es" where
  "ns_es_close es = es\<lparr> exit_requested := True \<rparr>"

definition ns_es_ref :: "ns_es \<Rightarrow> ns_es" where
  "ns_es_ref es = es\<lparr> refcount := refcount es + 1 \<rparr>"

text \<open>The object, None when the last reference went.\<close>

definition ns_es_unref :: "ns_es \<Rightarrow> ns_es option" where
  "ns_es_unref es = (if refcount es - 1 = 0 then None else Some (es\<lparr> refcount := refcount es - 1 \<rparr>))"

definition ns_es_post :: "es_event \<Rightarrow> ns_es \<Rightarrow> ns_es" where
  "ns_es_post e es =
     (if detached es then es
      else if pending es \<ge> NS_ES_MAX_PENDING then es
      else ns_es_ref (es\<lparr> pending := pending es + 1, idle_queue := idle_queue es @ [e] \<rparr>))"

definition ns_es_emit_error :: "bool \<Rightarrow> ns_es \<Rightarrow> ns_es" where
  "ns_es_emit_error is_fatal es = ns_es_post (Es_Error is_fatal) es"

text \<open>
  One run of a queued dispatch: the event delivered to the page, if any, and the object, None when
  the dispatch held the last reference.  While the page is busy the dispatch is queued again.
\<close>

definition ns_es_dispatch_run :: "bool \<Rightarrow> es_event \<Rightarrow> ns_es \<Rightarrow> es_event option \<times> ns_es option" where
  "ns_es_dispatch_run busy e es =
     (if \<not> detached es \<and> busy then (None, Some (es\<lparr> idle_queue := idle_queue es @ [e] \<rparr>))
      else (if detached es then None else Some e, ns_es_unref (es\<lparr> pending := pending es - 1 \<rparr>)))"

section \<open>The stream parser\<close>

definition ns_es_dispatch_event :: "es_state \<Rightarrow> es_state" where
  "ns_es_dispatch_event st =
     (case st of (es, p) \<Rightarrow>
        if es_data p = [] \<and> event_type p = None then (es, p)
        else if es_data p = [] then (es, p\<lparr> event_type := None \<rparr>)
        else
          let d = (if List.last (es_data p) = LF then butlast (es_data p) else es_data p)
          in (ns_es_post (Es_Message (str_or (event_type p) ''message'') d (last_event_id es)) es,
              p\<lparr> event_type := None, es_data := [] \<rparr>))"

definition retry_ms :: "cstr \<Rightarrow> int option" where
  "retry_ms v =
     (if v \<noteq> [] \<and> list_all g_ascii_isdigit v
      then (case g_ascii_strtoll v of None \<Rightarrow> None
            | Some ms \<Rightarrow> if ms > 0 then Some (min ms 86400000) else None)
      else None)"

definition es_field :: "cstr \<Rightarrow> cstr \<times> cstr" where
  "es_field l =
     (case strchr l (CHR '':'') of
        None \<Rightarrow> (l, [])
      | Some colon \<Rightarrow>
          (take (length l - length colon) l,
           if tl colon \<noteq> [] \<and> hd (tl colon) = CHR '' '' then tl (tl colon) else tl colon))"

definition ns_es_process_line :: "cstr \<Rightarrow> es_state \<Rightarrow> es_state" where
  "ns_es_process_line l st =
     (if l = [] then ns_es_dispatch_event st
      else if hd l = CHR '':'' then st
      else (case es_field l of (field, v) \<Rightarrow> (case st of (es, p) \<Rightarrow>
        if field = ''data'' then
          (es, if length (es_data p) + length v + 1 > NS_ES_MAX_EVENT then p\<lparr> fatal := True \<rparr>
               else p\<lparr> es_data := es_data p @ v @ [LF] \<rparr>)
        else if field = ''event'' then (es, p\<lparr> event_type := if v \<noteq> [] then Some v else None \<rparr>)
        else if field = ''id'' \<and> CR \<notin> set v \<and> LF \<notin> set v then (es\<lparr> last_event_id := v \<rparr>, p)
        else if field = ''retry'' then
          ((case retry_ms v of None \<Rightarrow> es | Some ms \<Rightarrow> es\<lparr> reconnect_ms := ms \<rparr>), p)
        else (es, p))))"

fun ns_es_feed :: "cstr \<Rightarrow> es_state \<Rightarrow> es_state" where
  "ns_es_feed [] st = st"
| "ns_es_feed (c # cs) (es, p) =
     (if c = LF \<and> last_was_cr p then ns_es_feed cs (es, p\<lparr> last_was_cr := False \<rparr>)
      else if c = CR \<or> c = LF then
        (case ns_es_process_line (c_string (es_line p)) (es, p\<lparr> last_was_cr := (c = CR) \<rparr>) of
           (es', p') \<Rightarrow> ns_es_feed cs (es', p'\<lparr> es_line := [] \<rparr>))
      else if length (es_line p) \<ge> NS_ES_MAX_LINE then (es, p\<lparr> last_was_cr := False, fatal := True \<rparr>)
      else ns_es_feed cs (es, p\<lparr> last_was_cr := False, es_line := es_line p @ [c] \<rparr>))"

section \<open>The response headers\<close>

text \<open>The number after the first space of a status line, of which at most seven digits are read.\<close>

definition status_code :: "cstr \<Rightarrow> int" where
  "status_code b =
     (case strchr b (CHR '' '') of
        None \<Rightarrow> 0
      | Some sp \<Rightarrow> int (dec_value 0 (takeWhile g_ascii_isdigit (take 7 (tl sp)))))"

definition same_stream_origin :: "lxb_parser \<Rightarrow> ns_es \<Rightarrow> ns_es_parse \<Rightarrow> bool" where
  "same_stream_origin lxb es p =
     (case (ns_url_origin_from lxb (Some (es_cur_url p)), es_origin es) of
        (Some a, Some b) \<Rightarrow> strcaseeq a b
      | _ \<Rightarrow> False)"

text \<open>The blank line that ends the headers.\<close>

definition headers_end :: "lxb_parser \<Rightarrow> es_state \<Rightarrow> es_state" where
  "headers_end lxb st =
     (case st of (es, p) \<Rightarrow>
        if opened p then (es, p)
        else if es_status p = 200 \<and> is_event_stream p \<and> \<not> same_stream_origin lxb es p \<and> \<not> cors_allowed p
        then (es, p\<lparr> fatal := True \<rparr>)
        else if es_status p = 200 \<and> is_event_stream p
        then (ns_es_post Es_Open es, p\<lparr> opened := True \<rparr>)
        else if es_status p \<ge> 200 \<and> (es_status p < 300 \<or> es_status p \<ge> 400) then (es, p\<lparr> fatal := True \<rparr>)
        else (es, p))"

text \<open>The new state, and whether the callback accepts the line (it returns 0 to abort the transfer).\<close>

definition ns_es_header_cb ::
  "lxb_parser \<Rightarrow> bool \<Rightarrow> (cstr \<Rightarrow> cstr \<Rightarrow> cstr option) \<Rightarrow> cstr \<Rightarrow> es_state \<Rightarrow> es_state \<times> bool" where
  "ns_es_header_cb lxb file_ok resolve b st =
     (case st of (es, p) \<Rightarrow>
        if length b \<ge> 5 \<and> strncaseeq b ''HTTP/'' 5 then
          ((es, p\<lparr> es_status := status_code b, is_event_stream := False, cors_allowed := False \<rparr>),
           \<not> exit_requested es)
        else if es_status p \<ge> 300 \<and> es_status p < 400 \<and> length b > 9 \<and> strncaseeq b ''Location:'' 9 then
          (case resolve (es_cur_url p) (g_strstrip (c_string (drop 9 b))) of
             None \<Rightarrow> ((es, p\<lparr> fatal := True \<rparr>), False)
           | Some next_url \<Rightarrow>
               if ns_fetch_verdict_blocks
                    (fst (ns_fetch_policy_check lxb file_ok (es_policy es) NS_FETCH_DEST_CONNECT None (Some next_url)))
               then ((es, p\<lparr> fatal := True \<rparr>), False)
               else ((es, p\<lparr> es_cur_url := next_url \<rparr>), \<not> exit_requested es))
        else if length b > 28 \<and> strncaseeq b ''Access-Control-Allow-Origin:'' 28 then
          (let v = g_strstrip (c_string (drop 28 b)) in
           ((es, p\<lparr> cors_allowed := v = ''*'' \<or>
               (case es_origin es of None \<Rightarrow> False | Some org \<Rightarrow> strcaseeq v org) \<rparr>),
            \<not> exit_requested es))
        else if length b \<ge> 13 \<and> strncaseeq b ''Content-Type:'' 13 then
          ((es, if strstr (c_string b) ''text/event-stream'' \<noteq> None then p\<lparr> is_event_stream := True \<rparr> else p),
           \<not> exit_requested es)
        else if length b \<le> 2 then (let st' = headers_end lxb (es, p) in (st', \<not> exit_requested (fst st')))
        else ((es, p), \<not> exit_requested es))"

definition ns_es_write_cb :: "cstr \<Rightarrow> es_state \<Rightarrow> es_state \<times> bool" where
  "ns_es_write_cb chunk st =
     (if exit_requested (fst st) \<or> fatal (snd st) then (st, False)
      else (ns_es_feed chunk st, True))"

section \<open>One connection and the worker\<close>

text \<open>What libcurl hands to the callbacks; it stops at the first one that refuses.\<close>

datatype es_input = In_Header cstr | In_Body cstr

fun es_transfer :: "lxb_parser \<Rightarrow> bool \<Rightarrow> (cstr \<Rightarrow> cstr \<Rightarrow> cstr option) \<Rightarrow> es_input list \<Rightarrow> es_state \<Rightarrow> es_state" where
  "es_transfer lxb file_ok resolve [] st = st"
| "es_transfer lxb file_ok resolve (In_Header b # ins) st =
     (case ns_es_header_cb lxb file_ok resolve b st of
        (st', ok) \<Rightarrow> if ok then es_transfer lxb file_ok resolve ins st' else st')"
| "es_transfer lxb file_ok resolve (In_Body b # ins) st =
     (case ns_es_write_cb b st of
        (st', ok) \<Rightarrow> if ok then es_transfer lxb file_ok resolve ins st' else st')"

definition fresh_parse :: "cstr \<Rightarrow> ns_es_parse" where
  "fresh_parse url =
     \<lparr> es_line = [], last_was_cr = False, es_data = [], event_type = None, es_status = 0, opened = False,
       fatal = False, is_event_stream = False, cors_allowed = False, es_cur_url = url \<rparr>"

definition es_request_headers :: "ns_es \<Rightarrow> cstr list" where
  "es_request_headers es =
     [''Accept: text/event-stream'', ''Cache-Control: no-cache''] @
     (case es_origin es of None \<Rightarrow> [] | Some org \<Rightarrow> if org \<noteq> [] then [''Origin: '' @ org] else []) @
     (if last_event_id es \<noteq> [] \<and> CR \<notin> set (last_event_id es) \<and> LF \<notin> set (last_event_id es)
      then [''Last-Event-ID: '' @ last_event_id es] else [])"

text \<open>The object afterwards, whether the stream opened and whether the failure can be retried.\<close>

definition ns_es_connect_once ::
  "lxb_parser \<Rightarrow> bool \<Rightarrow> (cstr \<Rightarrow> cstr \<Rightarrow> cstr option) \<Rightarrow> es_input list \<Rightarrow> ns_es \<Rightarrow> ns_es \<times> bool \<times> bool" where
  "ns_es_connect_once lxb file_ok resolve ins es =
     (case es_transfer lxb file_ok resolve ins (es, fresh_parse (es_url es)) of
        (es', p) \<Rightarrow> (es', opened p, \<not> fatal p))"

text \<open>
  The worker over the connections it makes: what libcurl hands over in each, and whether the page
  asked to close meanwhile.  It returns the object, the waiting times between the connections and
  whether the loop ended (it has not when the list is used up first).
\<close>

definition es_wait :: "ns_es \<Rightarrow> int" where
  "es_wait es = (if reconnect_ms es \<le> 0 then 3000 else reconnect_ms es)"

fun ns_es_worker ::
  "lxb_parser \<Rightarrow> bool \<Rightarrow> (cstr \<Rightarrow> cstr \<Rightarrow> cstr option) \<Rightarrow> (es_input list \<times> bool) list \<Rightarrow> ns_es
     \<Rightarrow> ns_es \<times> int list \<times> bool" where
  "ns_es_worker lxb file_ok resolve [] es = (es, [], exit_requested es)"
| "ns_es_worker lxb file_ok resolve ((ins, closes) # rest) es =
     (if exit_requested es then (es, [], True)
      else (case ns_es_connect_once lxb file_ok resolve ins es of (es1, was_open, retriable) \<Rightarrow>
        let es2 = (if closes then ns_es_close es1 else es1) in
        if exit_requested es2 then (es2, [], True)
        else if \<not> retriable then (ns_es_emit_error True es2, [], True)
        else
          let es3 = ns_es_emit_error False es2 in
          (case ns_es_worker lxb file_ok resolve rest es3 of
             (es4, waits, ended) \<Rightarrow> (es4, es_wait es3 # waits, ended))))"

section \<open>The parser refines the line grammar\<close>

text \<open>
  The reference: a stream is text whose lines end with CR LF, CR or LF, and what the code does with
  it is what it does with each complete line in turn.
\<close>

fun sse_newlines :: "cstr \<Rightarrow> cstr" where
  "sse_newlines [] = []"
| "sse_newlines (c # r) =
     (if c = CR then LF # sse_newlines (if r \<noteq> [] \<and> hd r = LF then tl r else r) else c # sse_newlines r)"

definition sse_lines :: "cstr \<Rightarrow> cstr list" where
  "sse_lines s = split_on (\<lambda>c. c = LF) (sse_newlines s)"

definition sse_complete :: "cstr \<Rightarrow> cstr list" where
  "sse_complete s = map c_string (butlast (sse_lines s))"

text \<open>The same with the carriage return that ended the text before.\<close>

fun carry_newlines :: "bool \<Rightarrow> cstr \<Rightarrow> cstr" where
  "carry_newlines cr [] = []"
| "carry_newlines cr (c # r) =
     (if c = LF \<and> cr then carry_newlines False r
      else if c = CR then LF # carry_newlines True r else c # carry_newlines False r)"

lemma carry_cr: "carry_newlines True (LF # r) = carry_newlines False r"
  by simp

lemma carry_no_lf: "s = [] \<or> hd s \<noteq> LF \<Longrightarrow> carry_newlines True s = carry_newlines False s"
  by (cases s) auto

lemma sse_newlines_carry: "sse_newlines s = carry_newlines False s"
proof (induction s rule: sse_newlines.induct)
  case (2 c r)
  then show ?case
    by (cases "c = CR \<and> r \<noteq> [] \<and> hd r = LF"; cases r; cases "c = CR") (simp_all add: carry_no_lf)
qed simp

definition with_buffer :: "cstr \<Rightarrow> bool \<Rightarrow> es_state \<Rightarrow> es_state" where
  "with_buffer l cr st = (fst st, (snd st)\<lparr> es_line := l, last_was_cr := cr \<rparr>)"

lemma process_line_frame: "ns_es_process_line l (with_buffer x y st) = with_buffer x y (ns_es_process_line l st)"
  by (cases st) (auto simp: with_buffer_def ns_es_process_line_def ns_es_dispatch_event_def Let_def split: prod.split)


lemma with_buffer_twice: "with_buffer x y (with_buffer x' y' st) = with_buffer x y st"
  by (simp add: with_buffer_def)

lemma fold_frame:
  "fold ns_es_process_line ls (with_buffer x y st) = with_buffer x y (fold ns_es_process_line ls st)"
  by (induction ls arbitrary: st) (simp_all add: process_line_frame)

definition lines_from :: "es_state \<Rightarrow> cstr \<Rightarrow> cstr list" where
  "lines_from st s =
     (let ls = split_on (\<lambda>c. c = LF) (carry_newlines (last_was_cr (snd st)) s)
      in (es_line (snd st) @ hd ls) # tl ls)"

lemma with_buffer_self: "with_buffer (es_line (snd st)) (last_was_cr (snd st)) st = st"
  by (cases st) (simp add: with_buffer_def)

lemma buffer_order: "p\<lparr> last_was_cr := y, es_line := x \<rparr> = p\<lparr> es_line := x, last_was_cr := y \<rparr>"
  by (cases p) simp

lemma feed_newline:
  assumes "c = CR \<or> c = LF \<and> \<not> last_was_cr (snd st)"
  shows "ns_es_feed (c # cs) st =
           ns_es_feed cs (with_buffer [] (c = CR) (ns_es_process_line (c_string (es_line (snd st))) st))"
proof (cases st)
  case (Pair es p)
  have "with_buffer (es_line p) (c = CR) (es, p) = (es, p\<lparr> last_was_cr := (c = CR) \<rparr>)"
    by (simp add: with_buffer_def)
  then have "ns_es_process_line l (es, p\<lparr> last_was_cr := (c = CR) \<rparr>) =
      with_buffer (es_line p) (c = CR) (ns_es_process_line l (es, p))" for l
    by (metis process_line_frame)
  then show ?thesis using assms Pair by (auto simp: with_buffer_def buffer_order)
qed

lemma feed_char:
  assumes "c \<noteq> CR" "c \<noteq> LF" "length (es_line (snd st)) < NS_ES_MAX_LINE"
  shows "ns_es_feed (c # cs) st = ns_es_feed cs (with_buffer (es_line (snd st) @ [c]) False st)"
  using assms by (cases st) (simp add: with_buffer_def buffer_order)

lemma feed_skip:
  assumes "last_was_cr (snd st)"
  shows "ns_es_feed (LF # cs) st = ns_es_feed cs (with_buffer (es_line (snd st)) False st)"
  using assms by (cases st) (simp add: with_buffer_def)

lemma with_buffer_fields [simp]: "es_line (snd (with_buffer x y st)) = x" "last_was_cr (snd (with_buffer x y st)) = y"
  by (simp_all add: with_buffer_def)

lemma process_line_keeps [simp]:
  "es_line (snd (ns_es_process_line l st)) = es_line (snd st)"
  "last_was_cr (snd (ns_es_process_line l st)) = last_was_cr (snd st)"
  using process_line_frame [of l "es_line (snd st)" "last_was_cr (snd st)" st]
  by (metis with_buffer_fields with_buffer_self)+

lemma lines_from_cases:
  "lines_from st [] = [es_line (snd st)]"
  "last_was_cr (snd st) \<Longrightarrow> lines_from st (LF # s) = lines_from (with_buffer (es_line (snd st)) False st) s"
  "c = CR \<or> c = LF \<and> \<not> last_was_cr (snd st) \<Longrightarrow>
     lines_from st (c # s) = es_line (snd st) # lines_from (with_buffer [] (c = CR) st') s"
  "c \<noteq> CR \<Longrightarrow> c \<noteq> LF \<Longrightarrow>
     lines_from st (c # s) = lines_from (with_buffer (es_line (snd st) @ [c]) False st) s"
  by (auto simp: lines_from_def Let_def split: list.split)

lemma lines_from_nonempty [simp]: "lines_from st s \<noteq> []"
  by (simp add: lines_from_def Let_def)

lemma lines_from_first: "length (es_line (snd st)) \<le> length (hd (lines_from st s))"
  by (simp add: lines_from_def Let_def)

definition ends_cr :: "es_state \<Rightarrow> cstr \<Rightarrow> bool" where
  "ends_cr st s = (if s = [] then last_was_cr (snd st) else List.last s = CR)"

lemma feed_refines_general:
  "\<forall>l\<in>set (lines_from st s). length l \<le> NS_ES_MAX_LINE \<Longrightarrow>
     ns_es_feed s st =
       with_buffer (List.last (lines_from st s)) (ends_cr st s)
         (fold ns_es_process_line (map c_string (butlast (lines_from st s))) st)"
proof (induction s arbitrary: st)
  case Nil
  then show ?case by (cases st) (simp add: lines_from_cases ends_cr_def with_buffer_def)
next
  case (Cons c s)
  consider "c = LF" "last_was_cr (snd st)" | "c = CR \<or> c = LF \<and> \<not> last_was_cr (snd st)" | "c \<noteq> CR" "c \<noteq> LF"
    by blast
  then show ?case
  proof cases
    case 1
    then show ?thesis
      using Cons.prems Cons.IH [of "with_buffer (es_line (snd st)) False st"]
      by (simp add: feed_skip lines_from_cases fold_frame with_buffer_twice ends_cr_def)
  next
    case 2
    let ?st = "with_buffer [] (c = CR) (ns_es_process_line (c_string (es_line (snd st))) st)"
    have ls: "lines_from st (c # s) = es_line (snd st) # lines_from ?st s"
      using 2 by (rule lines_from_cases(3))
    then show ?thesis
      using Cons.prems Cons.IH [of ?st]
      by (simp add: feed_newline [OF 2] fold_frame with_buffer_twice ends_cr_def)
  next
    case 3
    let ?st = "with_buffer (es_line (snd st) @ [c]) False st"
    have ls: "lines_from st (c # s) = lines_from ?st s" using 3 by (rule lines_from_cases(4))
    have "length (hd (lines_from ?st s)) \<le> NS_ES_MAX_LINE"
      using Cons.prems unfolding ls by (meson hd_in_set lines_from_nonempty)
    with lines_from_first [of ?st s] have "length (es_line (snd st)) < NS_ES_MAX_LINE" by simp
    then show ?thesis
      using 3 Cons.prems Cons.IH [of ?st]
      by (simp add: feed_char ls fold_frame with_buffer_twice ends_cr_def)
  qed
qed

text \<open>
  C25: the incremental parser implements the line grammar of the event stream: from a fresh state,
  feeding a text whose lines fit the limit processes exactly the lines of the text that ended, in
  order, and leaves the unfinished one in the buffer.
\<close>

theorem sse_feed_refines:
  assumes "es_line p = []" "\<not> last_was_cr p" "\<forall>l\<in>set (sse_lines s). length l \<le> NS_ES_MAX_LINE"
  shows "\<exists>es' p'. fold ns_es_process_line (sse_complete s) (es, p) = (es', p') \<and>
           ns_es_feed s (es, p) =
             (es', p'\<lparr> es_line := List.last (sse_lines s), last_was_cr := (s \<noteq> [] \<and> List.last s = CR) \<rparr>)"
proof -
  have "lines_from (es, p) s = sse_lines s"
    using assms(1,2) by (simp add: lines_from_def sse_lines_def sse_newlines_carry Let_def)
  with feed_refines_general [of "(es, p)" s] assms show ?thesis
    by (cases "fold ns_es_process_line (sse_complete s) (es, p)")
      (simp add: sse_complete_def with_buffer_def ends_cr_def)
qed


definition stream_text :: cstr where
  "stream_text = ''data: hi'' @ [CR, LF] @ ''id: 7'' @ [LF, CR] @ ''da''"

definition app_stream :: ns_es where
  "app_stream = ns_es_new ''https://a/s'' (Some ''https://a'') None None"

lemma sse_feed_refines_witness:
  "\<exists>es' p'. fold ns_es_process_line (sse_complete stream_text) (app_stream, fresh_parse ''https://a/s'') = (es', p') \<and>
     ns_es_feed stream_text (app_stream, fresh_parse ''https://a/s'') =
       (es', p'\<lparr> es_line := ''da'', last_was_cr := False \<rparr>)"
proof -
  have lines: "sse_lines stream_text = [''data: hi'', ''id: 7'', [], ''da'']"
    by (simp add: stream_text_def sse_lines_def)
  show ?thesis
    using sse_feed_refines [of "fresh_parse ''https://a/s''" stream_text app_stream]
    by (simp add: lines NS_ES_MAX_LINE_def) (simp add: fresh_parse_def stream_text_def)
qed

section \<open>How the stream is cut into chunks does not matter\<close>

lemma fatal_stays: "fatal (snd st) \<Longrightarrow> fatal (snd (ns_es_process_line l st))"
  by (cases st) (auto simp: ns_es_process_line_def ns_es_dispatch_event_def Let_def split: prod.split)

lemma feed_fatal: "fatal (snd st) \<Longrightarrow> fatal (snd (ns_es_feed s st))"
proof (induction s st rule: ns_es_feed.induct)
  case (2 c cs es p)
  have "fatal (snd (ns_es_process_line l (es, p\<lparr> last_was_cr := x \<rparr>)))" for l x
    using 2 by (intro fatal_stays) simp
  with 2 show ?case by (auto split: prod.split simp del: ns_es_process_line_def) (metis snd_conv)+
qed simp

lemma feed_append: "\<not> fatal (snd (ns_es_feed a st)) \<Longrightarrow> ns_es_feed (a @ b) st = ns_es_feed b (ns_es_feed a st)"
  by (induction a st rule: ns_es_feed.induct) (auto split: prod.splits if_splits)

lemma feed_prefix_fatal: "fatal (snd (ns_es_feed a st)) \<Longrightarrow> fatal (snd (ns_es_feed (a @ b) st))"
proof (induction a st rule: ns_es_feed.induct)
  case (1 st)
  then show ?case by (simp add: feed_fatal)
next
  case (2 c cs es p)
  then show ?case by (auto split: prod.splits if_splits)
qed

text \<open>The flags of the object the parser never touches.\<close>

lemma post_flags [simp]:
  "exit_requested (ns_es_post e es) = exit_requested es" "detached (ns_es_post e es) = detached es"
  "es_url (ns_es_post e es) = es_url es" "es_origin (ns_es_post e es) = es_origin es"
  "es_policy (ns_es_post e es) = es_policy es" "last_event_id (ns_es_post e es) = last_event_id es"
  by (simp_all add: ns_es_post_def ns_es_ref_def)

lemma process_line_flags [simp]:
  "exit_requested (fst (ns_es_process_line l st)) = exit_requested (fst st)"
  "detached (fst (ns_es_process_line l st)) = detached (fst st)"
  "es_origin (fst (ns_es_process_line l st)) = es_origin (fst st)"
  "es_policy (fst (ns_es_process_line l st)) = es_policy (fst st)"
  by (cases st; simp add: ns_es_process_line_def ns_es_dispatch_event_def Let_def split: prod.split option.split)+

lemma feed_object:
  assumes "\<And>l st. P (fst st) \<Longrightarrow> P (fst (ns_es_process_line l st))"
  shows "P (fst st) \<Longrightarrow> P (fst (ns_es_feed s st))"
proof (induction s st rule: ns_es_feed.induct)
  case (2 c cs es p)
  have "P (fst (ns_es_process_line l (es, p\<lparr> last_was_cr := x \<rparr>)))" for l x
    using 2 by (intro assms) simp
  with 2 show ?case by (auto split: prod.split) (metis fst_conv)+
qed simp

lemma feed_flags [simp]:
  "exit_requested (fst (ns_es_feed s st)) = exit_requested (fst st)"
  "detached (fst (ns_es_feed s st)) = detached (fst st)"
  "es_origin (fst (ns_es_feed s st)) = es_origin (fst st)"
  "es_policy (fst (ns_es_feed s st)) = es_policy (fst st)"
  using feed_object [of "\<lambda>es. exit_requested es = exit_requested (fst st)" st s]
    feed_object [of "\<lambda>es. detached es = detached (fst st)" st s]
    feed_object [of "\<lambda>es. es_origin es = es_origin (fst st)" st s]
    feed_object [of "\<lambda>es. es_policy es = es_policy (fst st)" st s]
  by simp_all

text \<open>
  the page sees the same events and the parser ends in the same state however the network cuts
  the stream into chunks, as long as nothing in the stream is refused.
\<close>

theorem sse_chunks:
  assumes "\<not> exit_requested (fst st)" "\<not> fatal (snd (ns_es_feed (concat chunks) st))" "\<not> fatal (snd st)"
  shows "es_transfer lxb file_ok resolve (map In_Body chunks) st = ns_es_feed (concat chunks) st"
  using assms
proof (induction chunks arbitrary: st)
  case (Cons c cs)
  have ok: "\<not> fatal (snd (ns_es_feed c st))"
    using Cons.prems(2) feed_prefix_fatal [of c st "concat cs"] by auto
  then have "ns_es_feed (concat (c # cs)) st = ns_es_feed (concat cs) (ns_es_feed c st)"
    by (simp add: feed_append)
  with Cons ok show ?case by (simp add: ns_es_write_cb_def)
qed simp

lemma sse_chunks_witness:
  "es_transfer (\<lambda>u. None) False (\<lambda>b r. None) (map In_Body [''data: a'' @ [CR], [LF, LF]]) (app_stream, fresh_parse ''https://a/s'') =
     ns_es_feed (concat [''data: a'' @ [CR], [LF, LF]]) (app_stream, fresh_parse ''https://a/s'')"
  using sse_chunks [of "(app_stream, fresh_parse ''https://a/s'')" "[''data: a'' @ [CR], [LF, LF]]" "\<lambda>u. None" False "\<lambda>b r. None"]
  by (simp add: app_stream_def ns_es_new_def fresh_parse_def NS_ES_MAX_LINE_def NS_ES_MAX_EVENT_def ns_es_process_line_def
      ns_es_dispatch_event_def es_field_def c_string_def Let_def)

section \<open>A message arrives as it was sent\<close>

definition sse_encode :: "cstr \<Rightarrow> cstr \<Rightarrow> cstr \<Rightarrow> cstr" where
  "sse_encode ev data i =
     ''event: '' @ ev @ LF # concat (map (\<lambda>l. ''data: '' @ l @ [LF]) (split_on (\<lambda>c. c = LF) data)) @
     ''id: '' @ i @ [LF, LF]"

definition plain :: "cstr \<Rightarrow> bool" where
  "plain s \<longleftrightarrow> CR \<notin> set s \<and> LF \<notin> set s \<and> CHR 0x00 \<notin> set s \<and> length s + 7 \<le> NS_ES_MAX_LINE"

definition between_lines :: "es_state \<Rightarrow> bool" where
  "between_lines st \<longleftrightarrow> es_line (snd st) = [] \<and> \<not> last_was_cr (snd st)"

lemma feed_chars:
  "CR \<notin> set l \<Longrightarrow> LF \<notin> set l \<Longrightarrow> length (es_line (snd st)) + length l \<le> NS_ES_MAX_LINE \<Longrightarrow> \<not> last_was_cr (snd st) \<Longrightarrow>
     ns_es_feed (l @ s) st = ns_es_feed s (with_buffer (es_line (snd st) @ l) False st)"
proof (induction l arbitrary: st)
  case Nil
  then show ?case using with_buffer_self [of st] by simp
next
  case (Cons c l)
  then have "c \<noteq> CR" "c \<noteq> LF" by auto
  with Cons show ?case by (simp add: feed_char with_buffer_twice)
qed

lemma split_on_rejoin: "concat (map (\<lambda>l. l @ [d]) (split_on (\<lambda>c. c = d) s)) = s @ [d]"
  by (induction s) (auto split: list.split)

lemma c_string_id: "CHR 0x00 \<notin> set s \<Longrightarrow> c_string s = s"
  by (simp add: c_string_def takeWhile_eq_all_conv) metis

lemma feed_line:
  assumes "between_lines st" "CR \<notin> set l" "LF \<notin> set l" "CHR 0x00 \<notin> set l" "length l \<le> NS_ES_MAX_LINE"
  shows "ns_es_feed (l @ LF # s) st = ns_es_feed s (ns_es_process_line l st)"
    "between_lines (ns_es_process_line l st)"
proof -
  have buf: "with_buffer [] False (ns_es_process_line l st) = ns_es_process_line l st"
    using with_buffer_self [of "ns_es_process_line l st"] assms(1) by (simp add: between_lines_def)
  have "ns_es_feed (l @ LF # s) st = ns_es_feed (LF # s) (with_buffer l False st)"
    using assms by (simp add: feed_chars between_lines_def)
  also have "\<dots> = ns_es_feed s (with_buffer [] False (ns_es_process_line l (with_buffer l False st)))"
    using assms(4) by (simp add: feed_newline c_string_id)
  finally show "ns_es_feed (l @ LF # s) st = ns_es_feed s (ns_es_process_line l st)"
    by (simp add: process_line_frame with_buffer_twice buf)
  show "between_lines (ns_es_process_line l st)" using assms(1) by (simp add: between_lines_def)
qed

lemma es_field_plain: "CHR '':'' \<notin> set f \<Longrightarrow> es_field (f @ CHR '':'' # CHR '' '' # v) = (f, v)"
  by (simp add: es_field_def strchr_append)

lemma process_field:
  "ns_es_process_line (''data: '' @ v) (es, p) =
     (es, if length (es_data p) + length v + 1 > NS_ES_MAX_EVENT then p\<lparr> fatal := True \<rparr>
          else p\<lparr> es_data := es_data p @ v @ [LF] \<rparr>)"
  "ns_es_process_line (''event: '' @ v) (es, p) = (es, p\<lparr> event_type := if v \<noteq> [] then Some v else None \<rparr>)"
  "CR \<notin> set v \<Longrightarrow> LF \<notin> set v \<Longrightarrow> ns_es_process_line (''id: '' @ v) (es, p) = (es\<lparr> last_event_id := v \<rparr>, p)"
  using es_field_plain [of "''data''" v] es_field_plain [of "''event''" v] es_field_plain [of "''id''" v]
  by (simp_all add: ns_es_process_line_def)

lemma feed_data_lines:
  "(\<forall>l\<in>set ls. plain l) \<Longrightarrow> between_lines (es, p) \<Longrightarrow>
     length (es_data p) + length (concat (map (\<lambda>l. l @ [LF]) ls)) \<le> NS_ES_MAX_EVENT \<Longrightarrow>
     ns_es_feed (concat (map (\<lambda>l. ''data: '' @ l @ [LF]) ls) @ s) (es, p) =
       ns_es_feed s (es, p\<lparr> es_data := es_data p @ concat (map (\<lambda>l. l @ [LF]) ls) \<rparr>)"
proof (induction ls arbitrary: p)
  case (Cons l ls)
  let ?p = "p\<lparr> es_data := es_data p @ l @ [LF] \<rparr>"
  have "ns_es_feed ((''data: '' @ l) @ LF # concat (map (\<lambda>l. ''data: '' @ l @ [LF]) ls) @ s) (es, p) =
      ns_es_feed (concat (map (\<lambda>l. ''data: '' @ l @ [LF]) ls) @ s) (ns_es_process_line (''data: '' @ l) (es, p))"
    using Cons.prems(1,2) by (intro feed_line) (simp_all add: plain_def)
  also have "ns_es_process_line (''data: '' @ l) (es, p) = (es, ?p)"
    unfolding process_field using Cons.prems(3) by simp
  also have "ns_es_feed (concat (map (\<lambda>l. ''data: '' @ l @ [LF]) ls) @ s) (es, ?p) =
      ns_es_feed s (es, ?p\<lparr> es_data := es_data ?p @ concat (map (\<lambda>l. l @ [LF]) ls) \<rparr>)"
    using Cons.prems by (intro Cons.IH) (simp_all add: between_lines_def)
  finally show ?case by simp
qed (cases p, simp)



section \<open>What a stream has to pass before it opens\<close>

lemma header_keeps:
  assumes "ns_es_header_cb lxb file_ok resolve b (es, p) = ((es', p'), ok)"
  shows "es_policy es' = es_policy es" "es_origin es' = es_origin es"
    "opened p \<Longrightarrow> opened p'" "\<not> opened p' \<Longrightarrow> idle_queue es' = idle_queue es"
    "fatal p \<Longrightarrow> fatal p'"
  using assms
  by (auto simp: ns_es_header_cb_def headers_end_def Let_def split: if_splits option.splits)

text \<open>The only step that opens a stream.\<close>

lemma header_opens:
  assumes "ns_es_header_cb lxb file_ok resolve b (es, p) = ((es', p'), ok)" "\<not> opened p" "opened p'"
  shows "length b \<le> 2" "es_status p = 200" "is_event_stream p" "same_stream_origin lxb es p \<or> cors_allowed p"
  using assms
  by (auto simp: ns_es_header_cb_def headers_end_def Let_def split: if_splits option.splits)

lemma process_line_opened [simp]:
  "opened (snd (ns_es_process_line l st)) = opened (snd st)"
  "es_status (snd (ns_es_process_line l st)) = es_status (snd st)"
  "es_cur_url (snd (ns_es_process_line l st)) = es_cur_url (snd st)"
  by (cases st; simp add: ns_es_process_line_def ns_es_dispatch_event_def Let_def split: prod.split option.split)+

lemma feed_parse_field:
  assumes "\<And>l st. f (snd (ns_es_process_line l st)) = f (snd st)"
    "\<And>p x y. f (p\<lparr> es_line := x \<rparr>) = f p" "\<And>p x y. f (p\<lparr> last_was_cr := y \<rparr>) = f p" "\<And>p z. f (p\<lparr> fatal := z \<rparr>) = f p"
  shows "f (snd (ns_es_feed s st)) = f (snd st)"
proof (induction s st rule: ns_es_feed.induct)
  case (2 c cs es p)
  have "f (snd (ns_es_process_line l (es, p\<lparr> last_was_cr := x \<rparr>))) = f p" for l x
    using assms by simp
  with 2 assms show ?case by (auto split: prod.split) (metis snd_conv)+
qed simp

lemma feed_opened [simp]:
  "opened (snd (ns_es_feed s st)) = opened (snd st)"
  "es_status (snd (ns_es_feed s st)) = es_status (snd st)"
  "es_cur_url (snd (ns_es_feed s st)) = es_cur_url (snd st)"
  by (rule feed_parse_field; simp)+

definition hop_allowed :: "lxb_parser \<Rightarrow> bool \<Rightarrow> cstr \<Rightarrow> es_state \<Rightarrow> bool" where
  "hop_allowed lxb file_ok url st \<longleftrightarrow>
     es_cur_url (snd st) = url \<or>
     \<not> ns_fetch_verdict_blocks (fst (ns_fetch_policy_check lxb file_ok (es_policy (fst st))
         NS_FETCH_DEST_CONNECT None (Some (es_cur_url (snd st)))))"

lemma header_hop:
  "hop_allowed lxb file_ok url st \<Longrightarrow> ns_es_header_cb lxb file_ok resolve b st = (st', ok) \<Longrightarrow>
     hop_allowed lxb file_ok url st'"
  by (cases st)
    (auto simp: hop_allowed_def ns_es_header_cb_def headers_end_def Let_def split: if_splits option.splits)

lemma write_hop:
  "hop_allowed lxb file_ok url st \<Longrightarrow> ns_es_write_cb b st = (st', ok) \<Longrightarrow> hop_allowed lxb file_ok url st'"
  by (auto simp: hop_allowed_def ns_es_write_cb_def split: if_splits)

lemma transfer_hop:
  "hop_allowed lxb file_ok url st \<Longrightarrow> hop_allowed lxb file_ok url (es_transfer lxb file_ok resolve ins st)"
  by (induction lxb file_ok resolve ins st rule: es_transfer.induct)
    (auto split: prod.split dest: header_hop write_hop)

lemma transfer_opens:
  "\<not> opened (snd st) \<Longrightarrow> opened (snd (es_transfer lxb file_ok resolve ins st)) \<Longrightarrow>
     \<exists>pre b post es1 p1. ins = pre @ In_Header b # post \<and> length b \<le> 2 \<and>
       es_transfer lxb file_ok resolve pre st = (es1, p1) \<and> es_status p1 = 200 \<and> is_event_stream p1 \<and>
       (same_stream_origin lxb es1 p1 \<or> cors_allowed p1)"
proof (induction lxb file_ok resolve ins st rule: es_transfer.induct)
  case (2 lxb file_ok resolve b ins st)
  obtain es p where st: "st = (es, p)" by (cases st)
  obtain es' p' ok where h: "ns_es_header_cb lxb file_ok resolve b st = ((es', p'), ok)"
    by (metis prod.exhaust)
  show ?case
  proof (cases "opened p'")
    case True
    from header_opens [OF h [unfolded st] _ True] 2(2) st show ?thesis
      by (intro exI [of _ "[]"] exI [of _ b] exI [of _ ins]) simp
  next
    case False
    have ok: "ok" using 2(3) h False by (auto split: if_splits)
    obtain pre b' post es1 p1 where "ins = pre @ In_Header b' # post" "length b' \<le> 2"
      "es_transfer lxb file_ok resolve pre (es', p') = (es1, p1)" "es_status p1 = 200" "is_event_stream p1"
      "same_stream_origin lxb es1 p1 \<or> cors_allowed p1"
      using 2(1) [OF h [symmetric] ok] 2(3) False h ok by auto
    with h ok show ?thesis
      by (intro exI [of _ "In_Header b # pre"] exI [of _ b'] exI [of _ post]) simp
  qed
next
  case (3 lxb file_ok resolve b ins st)
  obtain st' ok where w: "ns_es_write_cb b st = (st', ok)" by (cases "ns_es_write_cb b st")
  have no: "\<not> opened (snd st')" using w 3(2) by (auto simp: ns_es_write_cb_def split: if_splits)
  have ok: "ok" using 3(3) w no by (auto split: if_splits)
  obtain pre b' post es1 p1 where "ins = pre @ In_Header b' # post" "length b' \<le> 2"
    "es_transfer lxb file_ok resolve pre st' = (es1, p1)" "es_status p1 = 200" "is_event_stream p1"
    "same_stream_origin lxb es1 p1 \<or> cors_allowed p1"
    using 3(1) [OF w [symmetric] ok no] 3(3) w ok by auto
  with w ok show ?case
    by (intro exI [of _ "In_Body b # pre"] exI [of _ b'] exI [of _ post]) simp
qed simp


definition cors_stream :: "es_input list" where
  "cors_stream = map In_Header [''HTTP/1.1 200 OK'' @ [CR, LF], ''Content-Type: text/event-stream'' @ [CR, LF],
     ''Access-Control-Allow-Origin: *'' @ [CR, LF], [CR, LF]]"


section \<open>Nothing reaches the page from a response that did not open the stream\<close>

lemma write_opened: "ns_es_write_cb b st = (st', ok) \<Longrightarrow> opened (snd st') = opened (snd st) \<and> es_status (snd st') = es_status (snd st)"
  by (auto simp: ns_es_write_cb_def split: if_splits)

lemma transfer_opened_stays: "opened (snd st) \<Longrightarrow> opened (snd (es_transfer lxb file_ok resolve ins st))"
proof (induction lxb file_ok resolve ins st rule: es_transfer.induct)
  case (2 lxb file_ok resolve b ins st)
  obtain es p es' p' ok where st: "st = (es, p)" and h: "ns_es_header_cb lxb file_ok resolve b st = ((es', p'), ok)"
    by (metis prod.exhaust)
  from 2 h header_keeps(3) [OF h [unfolded st]] st show ?case by simp
next
  case (3 lxb file_ok resolve b ins st)
  obtain st' ok where w: "ns_es_write_cb b st = (st', ok)" by (cases "ns_es_write_cb b st")
  with 3 write_opened [OF w] show ?case by simp
qed simp

lemma bodies_fields:
  "opened (snd (es_transfer lxb file_ok resolve (map In_Body cs) st)) = opened (snd st) \<and>
   es_status (snd (es_transfer lxb file_ok resolve (map In_Body cs) st)) = es_status (snd st)"
proof (induction cs arbitrary: st)
  case (Cons c cs)
  obtain st' ok where w: "ns_es_write_cb c st = (st', ok)" by (cases "ns_es_write_cb c st")
  with Cons.IH [of st'] write_opened [OF w] show ?case by simp
qed simp

lemma bodies_fatal: "fatal (snd st) \<Longrightarrow> es_transfer lxb file_ok resolve (map In_Body cs) st = st"
  by (cases cs) (simp_all add: ns_es_write_cb_def)

lemma blank_line:
  assumes "ns_es_header_cb lxb file_ok resolve b (es, p) = ((es', p'), ok)" "length b \<le> 2"
    "\<not> opened p'" "200 \<le> es_status p'" "\<not> (300 \<le> es_status p' \<and> es_status p' < 400)"
  shows "fatal p'"
  using assms by (auto simp: ns_es_header_cb_def headers_end_def Let_def split: if_splits)

lemma unopened_silent:
  assumes "length b \<le> 2" "es_transfer lxb file_ok resolve (map In_Header hs @ In_Header b # map In_Body cs) st = (es', p')"
    and "\<not> opened p'" "200 \<le> es_status p'" "\<not> (300 \<le> es_status p' \<and> es_status p' < 400)"
  shows "idle_queue es' = idle_queue (fst st)"
  using assms(2)
proof (induction hs arbitrary: st)
  case Nil
  obtain es p where st: "st = (es, p)" by (cases st)
  obtain es1 p1 ok where h: "ns_es_header_cb lxb file_ok resolve b (es, p) = ((es1, p1), ok)" by (metis prod.exhaust)
  show ?case
  proof (cases ok)
    case True
    with Nil h st have e: "es_transfer lxb file_ok resolve (map In_Body cs) (es1, p1) = (es', p')" by simp
    with bodies_fields [of lxb file_ok resolve cs "(es1, p1)"] assms(3-5) have "fatal p1" "\<not> opened p1"
      using blank_line [OF h assms(1)] by auto
    with e bodies_fatal [of "(es1, p1)"] header_keeps(4) [OF h] st show ?thesis by simp
  next
    case False
    with Nil h st assms(3) header_keeps(4) [OF h] show ?thesis by simp
  qed
next
  case (Cons c hs)
  obtain es p where st: "st = (es, p)" by (cases st)
  obtain es1 p1 ok where h: "ns_es_header_cb lxb file_ok resolve c (es, p) = ((es1, p1), ok)" by (metis prod.exhaust)
  show ?case
  proof (cases ok)
    case True
    with Cons.prems h st
    have e: "es_transfer lxb file_ok resolve (map In_Header hs @ In_Header b # map In_Body cs) (es1, p1) = (es', p')"
      by simp
    with transfer_opened_stays [of "(es1, p1)"] assms(3) have "\<not> opened p1" by (metis snd_conv)
    with Cons.IH [OF e] header_keeps(4) [OF h] st show ?thesis by simp
  next
    case False
    with Cons.prems h st assms(3) header_keeps(4) [OF h] show ?thesis by simp
  qed
qed

text \<open>
  a response that is no redirect and did not pass the checks (another status than 200, another
  type, another origin without its consent) delivers nothing to the page, whatever its body holds.
\<close>

theorem es_unopened_silent:
  assumes "length b \<le> 2"
    and "es_transfer lxb file_ok resolve (map In_Header hs @ In_Header b # map In_Body cs) (es, fresh_parse url) = (es', p')"
    and "\<not> opened p'" "200 \<le> es_status p'" "\<not> (300 \<le> es_status p' \<and> es_status p' < 400)"
  shows "idle_queue es' = idle_queue es"
  using unopened_silent [OF assms] by simp

lemmas es_eval = app_stream_def ns_es_new_def fresh_parse_def ns_es_header_cb_def headers_end_def
  status_code_def c_string_def ns_es_post_def ns_es_ref_def NS_ES_MAX_PENDING_def Let_def strstr.simps digit_val_def
  g_strstrip_def g_strchug_def g_strchomp_def ns_es_write_cb_def ns_es_process_line_def ns_es_dispatch_event_def
  es_field_def NS_ES_MAX_LINE_def NS_ES_MAX_EVENT_def cstr_simps ascii_simps

lemma es_unopened_silent_witness:
  "idle_queue (fst (es_transfer (\<lambda>u. None) False (\<lambda>b r. None)
     (map In_Header [''HTTP/1.1 404 No'' @ [CR, LF]] @ In_Header [CR, LF] # map In_Body [''data: x'' @ [LF, LF]])
     (app_stream, fresh_parse ''https://b/s''))) = []"
proof -
  obtain es' p' where e: "es_transfer (\<lambda>u. None) False (\<lambda>b r. None)
     (map In_Header [''HTTP/1.1 404 No'' @ [CR, LF]] @ In_Header [CR, LF] # map In_Body [''data: x'' @ [LF, LF]])
     (app_stream, fresh_parse ''https://b/s'') = (es', p')" by (metis prod.exhaust)
  then have "\<not> opened p' \<and> es_status p' = 404" by (auto simp: es_eval)
  then have "idle_queue es' = idle_queue app_stream" by (intro es_unopened_silent [OF _ e]) auto
  then show ?thesis unfolding e by (simp add: app_stream_def ns_es_new_def)
qed

text \<open>
  A redirect status is not checked at all: the body of a 3xx response that libcurl does not follow
  reaches the page of another origin as a message, with the stream never opened.
\<close>

lemma redirect_body_delivered:
  "idle_queue (fst (es_transfer (\<lambda>u. None) False (\<lambda>b r. None)
     (map In_Header [''HTTP/1.1 300 M'' @ [CR, LF]] @ In_Header [CR, LF] # map In_Body [''data: x'' @ [LF, LF]])
     (app_stream, fresh_parse ''https://b/s''))) = [Es_Message ''message'' ''x'' []]"
  by (simp add: es_eval)


section \<open>The life of the shared object\<close>

text \<open>
  The object (None once it is destroyed) with the two parties that hold it: the page, until
  \<^verbatim>\<open>ns_es_free\<close> has joined the worker, and the worker thread.  The steps are what the page, the
  worker and the engine's main loop do, in any order.
\<close>

record es_world =
  object :: "ns_es option"
  owned :: bool
  freeing :: bool
  running :: bool
  delivered :: "es_event list"

definition es_start :: "cstr \<Rightarrow> cstr option \<Rightarrow> ns_fetch_policy option \<Rightarrow> es_world" where
  "es_start url org policy =
     \<lparr> object = Some (ns_es_new url org None policy), owned = True, freeing = False, running = True, delivered = [] \<rparr>"

inductive es_step :: "es_world \<Rightarrow> es_world \<Rightarrow> bool" where
  close: "object w = Some es \<Longrightarrow> owned w \<Longrightarrow> es_step w (w\<lparr> object := Some (ns_es_close es) \<rparr>)"
| post: "object w = Some es \<Longrightarrow> running w \<Longrightarrow> es_step w (w\<lparr> object := Some (ns_es_post e es) \<rparr>)"
| parse: "object w = Some es \<Longrightarrow> running w \<Longrightarrow> es_transfer lxb file_ok resolve ins (es, p) = (es', p') \<Longrightarrow>
     es_step w (w\<lparr> object := Some es' \<rparr>)"
| dispatch: "object w = Some es \<Longrightarrow> idle_queue es = e # q \<Longrightarrow>
     ns_es_dispatch_run busy e (es\<lparr> idle_queue := q \<rparr>) = (out, obj) \<Longrightarrow>
     es_step w (w\<lparr> object := obj, delivered := delivered w @ (case out of None \<Rightarrow> [] | Some x \<Rightarrow> [x]) \<rparr>)"
| worker_ends: "object w = Some es \<Longrightarrow> running w \<Longrightarrow> es_step w (w\<lparr> object := ns_es_unref es, running := False \<rparr>)"
| free_begins: "object w = Some es \<Longrightarrow> owned w \<Longrightarrow> \<not> freeing w \<Longrightarrow>
     es_step w (w\<lparr> object := Some (es\<lparr> detached := True, exit_requested := True \<rparr>), freeing := True \<rparr>)"
| free_ends: "object w = Some es \<Longrightarrow> owned w \<Longrightarrow> freeing w \<Longrightarrow> \<not> running w \<Longrightarrow>
     es_step w (w\<lparr> object := ns_es_unref es, owned := False \<rparr>)"

definition counted :: "es_world \<Rightarrow> ns_es \<Rightarrow> bool" where
  "counted w es \<longleftrightarrow>
     refcount es = (if owned w then 1 else 0) + (if running w then 1 else 0) + length (idle_queue es) \<and>
     pending es = length (idle_queue es) \<and> pending es \<le> NS_ES_MAX_PENDING"

definition es_inv :: "es_world \<Rightarrow> bool" where
  "es_inv w \<longleftrightarrow> (running w \<longrightarrow> owned w) \<and>
     (case object w of
        None \<Rightarrow> \<not> owned w \<and> \<not> running w
      | Some es \<Rightarrow> counted w es \<and> 0 < refcount es \<and> (freeing w \<longrightarrow> detached es) \<and> (\<not> owned w \<longrightarrow> freeing w))"

text \<open>What the parser does to the counters it does by posting.\<close>

definition balanced :: "nat \<Rightarrow> ns_es \<Rightarrow> bool" where
  "balanced n es \<longleftrightarrow> refcount es = n + length (idle_queue es) \<and> pending es = length (idle_queue es) \<and>
     pending es \<le> NS_ES_MAX_PENDING"

lemma balanced_post: "balanced n es \<Longrightarrow> balanced n (ns_es_post e es)"
  by (auto simp: balanced_def ns_es_post_def ns_es_ref_def)

lemma balanced_upd [simp]:
  "balanced n (es\<lparr> last_event_id := v \<rparr>) = balanced n es" "balanced n (es\<lparr> reconnect_ms := m \<rparr>) = balanced n es"
  by (simp_all add: balanced_def)

lemma balanced_line: "balanced n (fst st) \<Longrightarrow> balanced n (fst (ns_es_process_line l st))"
  by (cases st; cases "es_field l")
    (simp add: ns_es_process_line_def ns_es_dispatch_event_def Let_def balanced_post split: option.split)

lemma balanced_transfer: "balanced n (fst st) \<Longrightarrow> balanced n (fst (es_transfer lxb file_ok resolve ins st))"
proof (induction lxb file_ok resolve ins st rule: es_transfer.induct)
  case (2 lxb file_ok resolve b ins st)
  obtain es p es' p' ok where st: "st = (es, p)" and h: "ns_es_header_cb lxb file_ok resolve b st = ((es', p'), ok)"
    by (metis prod.exhaust)
  have "balanced n es'"
    using h 2(2) unfolding st
    by (auto simp: ns_es_header_cb_def headers_end_def Let_def balanced_post split: if_splits option.splits)
  with 2(1) h show ?case by (simp split: if_split)
next
  case (3 lxb file_ok resolve b ins st)
  obtain st' ok where w: "ns_es_write_cb b st = (st', ok)" by (cases "ns_es_write_cb b st")
  have "balanced n (fst st')"
    using w 3(2) feed_object [of "balanced n" st b, OF balanced_line] by (auto simp: ns_es_write_cb_def split: if_splits)
  with 3(1) w show ?case by simp
qed simp

lemma detached_transfer: "detached (fst (es_transfer lxb file_ok resolve ins st)) = detached (fst st)"
proof (induction lxb file_ok resolve ins st rule: es_transfer.induct)
  case (2 lxb file_ok resolve b ins st)
  obtain es p es' p' ok where st: "st = (es, p)" and h: "ns_es_header_cb lxb file_ok resolve b st = ((es', p'), ok)"
    by (metis prod.exhaust)
  have "detached es' = detached es"
    using h unfolding st by (auto simp: ns_es_header_cb_def headers_end_def Let_def split: if_splits option.splits)
  with 2 h st show ?case by simp
next
  case (3 lxb file_ok resolve b ins st)
  obtain st' ok where w: "ns_es_write_cb b st = (st', ok)" by (cases "ns_es_write_cb b st")
  have "detached (fst st') = detached (fst st)" using w by (auto simp: ns_es_write_cb_def split: if_splits)
  with 3 w show ?case by simp
qed simp

lemma es_inv_start: "es_inv (es_start url org policy)"
  by (simp add: es_inv_def es_start_def ns_es_new_def counted_def)

lemma counted_balanced:
  "counted w es \<longleftrightarrow> balanced ((if owned w then 1 else 0) + (if running w then 1 else 0)) es"
  by (auto simp: counted_def balanced_def)

lemma es_inv_step: "es_step w w' \<Longrightarrow> es_inv w \<Longrightarrow> es_inv w'"
proof (induction rule: es_step.induct)
  case (close w es)
  then show ?case by (simp add: es_inv_def counted_def ns_es_close_def)
next
  case (post w es e)
  then show ?case
    by (auto simp: es_inv_def counted_def ns_es_post_def ns_es_ref_def)
next
  case (parse w es lxb file_ok resolve ins p es' p')
  then have "balanced 2 es" by (simp add: es_inv_def counted_def balanced_def)
  with balanced_transfer [of 2 "(es, p)" lxb file_ok resolve ins] parse(3) have "balanced 2 es'" by simp
  moreover have "detached es' = detached es"
    using detached_transfer [of lxb file_ok resolve ins "(es, p)"] parse(3) by simp
  ultimately show ?case using parse by (simp add: es_inv_def counted_def balanced_def)
next
  case (dispatch w es e q busy out obj)
  then show ?case
    by (auto simp: es_inv_def counted_def ns_es_dispatch_run_def ns_es_unref_def split: if_splits)
next
  case (worker_ends w es)
  then show ?case by (auto simp: es_inv_def counted_def ns_es_unref_def)
next
  case (free_begins w es)
  then show ?case by (auto simp: es_inv_def counted_def)
next
  case (free_ends w es)
  then show ?case by (auto simp: es_inv_def counted_def ns_es_unref_def)
qed

lemma es_step_silent:
  assumes "es_step w w'" "es_inv w" "freeing w"
  shows "delivered w' = delivered w"
  using assms(1)
proof (cases rule: es_step.cases)
  case (dispatch es e q busy out obj)
  have "detached es" using dispatch assms(2,3) by (simp add: es_inv_def)
  with dispatch show ?thesis by (auto simp: ns_es_dispatch_run_def)
qed simp_all



end
