(* ===== verification/DateTime.thy ===== *)
theory DateTime
  imports Prelude "HOL-Library.Signed_Division" "HOL-Library.Monad_Syntax"
begin

text \<open>
  Civil dates (\<^verbatim>\<open>datetime.c\<close>): the proleptic Gregorian calendar on day numbers, ISO weeks, and the
  parsers of the HTML date and time strings.  C integers are mathematical integers with C's
  truncating division (\<open>sdiv\<close>, \<open>smod\<close>); where the code casts to \<^verbatim>\<open>unsigned\<close> the value is reduced
  modulo \<open>2 ^ 32\<close>.  For the years the callers let in, at most 275760 in absolute value, no other
  operation leaves the range of its C type.  A parser that returns \<^verbatim>\<open>NULL\<close> is None.
\<close>

section \<open>Day numbers\<close>

definition NS_DT_MAX_YEAR :: int where
  "NS_DT_MAX_YEAR = 275760"

definition to_unsigned :: "int \<Rightarrow> int" where
  "to_unsigned i = i mod 4294967296"

definition ns_dt_floormod :: "int \<Rightarrow> int \<Rightarrow> int" where
  "ns_dt_floormod a b = (let r = a smod b in if r \<noteq> 0 \<and> (r < 0) \<noteq> (b < 0) then r + b else r)"

definition ns_dt_days_from_civil :: "int \<Rightarrow> int \<Rightarrow> int \<Rightarrow> int" where
  "ns_dt_days_from_civil y m d =
     (let yy = y - (if m \<le> 2 then 1 else 0);
          era = (if yy \<ge> 0 then yy else yy - 399) sdiv 400;
          yoe = to_unsigned (yy - era * 400);
          doy = to_unsigned ((153 * (m + (if m > 2 then -3 else 9)) + 2) sdiv 5 + d - 1);
          doe = to_unsigned (yoe * 365 + yoe div 4 - yoe div 100 + doy)
      in era * 146097 + doe - 719468)"

definition ns_dt_civil_from_days :: "int \<Rightarrow> int \<times> int \<times> int" where
  "ns_dt_civil_from_days z0 =
     (let z = z0 + 719468;
          era = (if z \<ge> 0 then z else z - 146096) sdiv 146097;
          doe = to_unsigned (z - era * 146097);
          yoe = to_unsigned (doe - doe div 1460 + doe div 36524 - doe div 146096) div 365;
          yy = yoe + era * 400;
          doy = to_unsigned (doe - (365 * yoe + yoe div 4 - yoe div 100));
          mp = to_unsigned (5 * doy + 2) div 153;
          dd = to_unsigned (doy - to_unsigned (153 * mp + 2) div 5 + 1);
          mm = to_unsigned (mp + (if mp < 10 then 3 else -9))
      in (yy + (if mm \<le> 2 then 1 else 0), mm, dd))"

definition ns_dt_days_in_month :: "int \<Rightarrow> int \<Rightarrow> int" where
  "ns_dt_days_in_month y m =
     (if m < 1 \<or> m > 12 then 0
      else if m = 2 then
        (if y smod 4 = 0 \<and> (y smod 100 \<noteq> 0 \<or> y smod 400 = 0) then 29 else 28)
      else [31, 28, 31, 30, 31, 30, 31, 31, 30, 31, 30, 31] ! nat (m - 1))"

definition ns_dt_iso_weeks_in_year :: "int \<Rightarrow> int" where
  "ns_dt_iso_weeks_in_year y =
     (let p = (y + y sdiv 4 - y sdiv 100 + y sdiv 400) smod 7;
          py = y - 1;
          p1 = (py + py sdiv 4 - py sdiv 100 + py sdiv 400) smod 7
      in if p = 4 \<or> p1 = 3 then 53 else 52)"

definition ns_dt_iso_week1_monday :: "int \<Rightarrow> int" where
  "ns_dt_iso_week1_monday y =
     (let jan4 = ns_dt_days_from_civil y 1 4;
          m0 = ns_dt_floormod (jan4 + 3) 7
      in jan4 - m0)"

section \<open>Strings\<close>

text \<open>The value of at most \<open>hi\<close> and at least \<open>lo\<close> digits and the text behind them.\<close>

definition ns_dt_rd_digits :: "cstr \<Rightarrow> nat \<Rightarrow> nat \<Rightarrow> (int \<times> cstr) option" where
  "ns_dt_rd_digits p lo hi =
     (let ds = takeWhile g_ascii_isdigit (take hi p) in
      if length ds < lo then None else Some (int (dec_value 0 ds), drop (length ds) p))"

definition expect :: "char \<Rightarrow> cstr \<Rightarrow> cstr option" where
  "expect c p = (if p \<noteq> [] \<and> hd p = c then Some (tl p) else None)"

definition valid_date :: "int \<Rightarrow> int \<Rightarrow> int \<Rightarrow> bool" where
  "valid_date y m d \<longleftrightarrow> 1 \<le> m \<and> m \<le> 12 \<and> 1 \<le> d \<and> d \<le> ns_dt_days_in_month y m"

definition ns_dt_rd_date :: "cstr \<Rightarrow> ((int \<times> int \<times> int) \<times> cstr) option" where
  "ns_dt_rd_date p0 =
     do { (y, p1) \<leftarrow> ns_dt_rd_digits p0 4 9; p2 \<leftarrow> expect (CHR ''-'') p1;
          (m, p3) \<leftarrow> ns_dt_rd_digits p2 2 2; p4 \<leftarrow> expect (CHR ''-'') p3;
          (d, p5) \<leftarrow> ns_dt_rd_digits p4 2 2;
          if y < 1 \<or> y > NS_DT_MAX_YEAR \<or> \<not> valid_date y m d then None else Some ((y, m, d), p5) }"

text \<open>The fraction of a second, in milliseconds: up to three digits count, the others are skipped.\<close>

definition rd_fraction :: "cstr \<Rightarrow> (int \<times> cstr) option" where
  "rd_fraction p =
     (let ds = takeWhile g_ascii_isdigit (take 3 p) in
      if ds = [] then None
      else Some (int (dec_value 0 ds) * 10 ^ (3 - length ds), dropWhile g_ascii_isdigit (drop (length ds) p)))"

definition ns_dt_rd_time :: "cstr \<Rightarrow> (int \<times> cstr) option" where
  "ns_dt_rd_time p0 =
     do { (h, p1) \<leftarrow> ns_dt_rd_digits p0 2 2; p2 \<leftarrow> expect (CHR '':'') p1;
          (mi, p3) \<leftarrow> ns_dt_rd_digits p2 2 2;
          (se, fr, p) \<leftarrow>
            (case expect (CHR '':'') p3 of
               None \<Rightarrow> Some (0, 0, p3)
             | Some p4 \<Rightarrow>
                 do { (se, p5) \<leftarrow> ns_dt_rd_digits p4 2 2;
                      (case expect (CHR ''.'') p5 of
                         None \<Rightarrow> Some (se, 0, p5)
                       | Some p6 \<Rightarrow> do { (fr, p7) \<leftarrow> rd_fraction p6; Some (se, fr, p7) }) });
          if h > 23 \<or> mi > 59 \<or> se > 59 then None
          else Some (((h * 60 + mi) * 60 + se) * 1000 + fr, p) }"

section \<open>The calendar in closed form\<close>

lemma floor_sdiv: "0 < b \<Longrightarrow> (if 0 \<le> a then a else a - (b - 1)) sdiv b = a div (b::int)"
proof (cases "0 \<le> a")
  case True
  assume "0 < b"
  with True show ?thesis by (cases "a = 0") (simp_all add: signed_divide_int_def)
next
  case False
  assume b: "0 < b"
  define q r where "q = a div b" and "r = a mod b"
  have a: "a = b * q + r" and r: "0 \<le> r" "r < b" using b by (simp_all add: q_def r_def)
  have neg: "a - (b - 1) < 0" using False b by simp
  have "- (a - (b - 1)) div b = - q"
    by (rule int_div_pos_eq [where r = "b - 1 - r"]) (use a r in \<open>simp_all add: algebra_simps\<close>)
  moreover have "(a - (b - 1)) sdiv b = - (- (a - (b - 1)) div b)"
    using neg b by (simp only: signed_divide_int_def) simp
  ultimately show ?thesis using False by (simp add: q_def)
qed

lemma floormod_mod: "0 < b \<Longrightarrow> ns_dt_floormod a b = a mod b"
proof -
  assume "0 < b"
  then have "0 \<le> a mod b" "a mod b < b" by simp_all
  with \<open>0 < b\<close> show ?thesis
    by (auto simp: ns_dt_floormod_def Let_def signed_modulo_int_def sgn_if zmod_zminus1_eq_if split: if_splits)
qed

lemma sdiv_nonneg: "0 \<le> a \<Longrightarrow> 0 < b \<Longrightarrow> a sdiv b = a div (b::int)"
  by (cases "a = 0") (simp_all add: signed_divide_int_def)

lemma smod_nonneg: "0 \<le> a \<Longrightarrow> 0 < b \<Longrightarrow> a smod b = a mod (b::int)"
  by (cases "a = 0") (simp_all add: signed_modulo_int_def)

lemma smod_zero_iff: "0 < b \<Longrightarrow> a smod b = 0 \<longleftrightarrow> b dvd (a::int)"
  by (auto simp: signed_modulo_int_def sgn_if dvd_eq_mod_eq_0 [symmetric])

lemma to_unsigned_id: "0 \<le> i \<Longrightarrow> i < 4294967296 \<Longrightarrow> to_unsigned i = i"
  by (simp add: to_unsigned_def)

text \<open>The days before March of the year \<open>yy\<close> and of the month \<open>mp\<close> counted from March.\<close>

definition year_days :: "int \<Rightarrow> int" where
  "year_days yy = 365 * yy + yy div 4 - yy div 100 + yy div 400"

definition month_days :: "int \<Rightarrow> int" where
  "month_days mp = (153 * mp + 2) div 5"

definition leap :: "int \<Rightarrow> bool" where
  "leap y \<longleftrightarrow> 4 dvd y \<and> (\<not> 100 dvd y \<or> 400 dvd y)"

lemma year_days_split:
  "year_days yy = yy div 400 * 146097 + (365 * (yy mod 400) + yy mod 400 div 4 - yy mod 400 div 100)"
proof -
  define q r where "q = yy div 400" and "r = yy mod 400"
  have yy: "yy = 400 * q + r" and r: "0 \<le> r" "r < 400" by (simp_all add: q_def r_def)
  have e: "yy = r + (100 * q) * 4" "yy = r + (4 * q) * 100" "yy = r + q * 400" by (simp_all add: yy)
  have "yy div 4 = 100 * q + r div 4" unfolding e(1) by (rule div_mult_self1) simp
  moreover have "yy div 100 = 4 * q + r div 100" unfolding e(2) by (rule div_mult_self1) simp
  moreover have "yy div 400 = q" by (simp add: q_def)
  moreover have "yy mod 400 = r" by (simp add: r_def)
  ultimately show ?thesis by (simp only: year_days_def) (simp add: yy)
qed

lemma div_step:
  assumes "0 < n"
  shows "(y + 1) div n = y div n + (if n dvd y + 1 then 1 else (0::int))"
proof -
  define q s where "q = y div n" and "s = y mod n"
  have y: "y = n * q + s" and s: "0 \<le> s" "s < n" using assms by (simp_all add: q_def s_def)
  show ?thesis
  proof (cases "s + 1 = n")
    case True
    then have "y + 1 = n * (q + 1)" by (simp add: y algebra_simps)
    then show ?thesis using assms by (simp add: q_def)
  next
    case False
    have "(y + 1) div n = q" by (rule int_div_pos_eq [where r = "s + 1"]) (use y s False in simp_all)
    moreover have "(y + 1) mod n = s + 1" by (rule int_mod_pos_eq [where q = q]) (use y s False in simp_all)
    ultimately show ?thesis using s by (simp add: q_def dvd_eq_mod_eq_0)
  qed
qed

lemma year_days_Suc: "year_days (y + 1) = year_days y + (if leap (y + 1) then 366 else 365)"
proof -
  have d: "(400::int) dvd y + 1 \<Longrightarrow> 100 dvd y + 1" "(100::int) dvd y + 1 \<Longrightarrow> 4 dvd y + 1"
    using dvd_trans [of 100 400 "y + 1"] dvd_trans [of 4 100 "y + 1"] by simp_all
  have "year_days (y + 1) = year_days y + 365 + (if 4 dvd y + 1 then 1 else 0) - (if 100 dvd y + 1 then 1 else 0)
          + (if 400 dvd y + 1 then 1 else 0)" (is "_ = _ + ?a - ?b + ?c")
  proof -
    have "(y + 1) div 4 = y div 4 + ?a" "(y + 1) div 100 = y div 100 + ?b" "(y + 1) div 400 = y div 400 + ?c"
      by (rule div_step; simp)+
    moreover have "365 * (y + 1) + (A + a) - (B + b) + (C + c) = 365 * y + A - B + C + 365 + a - b + c" for A a B b C c :: int
      by simp
    ultimately show ?thesis by (simp only: year_days_def)
  qed
  then show ?thesis using d unfolding leap_def
    by (cases "4 dvd y + 1"; cases "100 dvd y + 1"; cases "400 dvd y + 1") simp_all
qed


section \<open>Day numbers in closed form\<close>

lemma march_year:
  fixes r :: int
  assumes "0 \<le> r" "r < 400"
  shows "0 \<le> 365 * r + r div 4 - r div 100" "365 * r + r div 4 - r div 100 \<le> 145734"
proof -
  have "0 \<le> r div 4" "r div 4 \<le> 99" "0 \<le> r div 100" "r div 100 \<le> 3" using assms by presburger+
  then show "0 \<le> 365 * r + r div 4 - r div 100" "365 * r + r div 4 - r div 100 \<le> 145734"
    using assms by linarith+
qed

lemma month_days_bounds: "0 \<le> mp \<Longrightarrow> mp \<le> 11 \<Longrightarrow> 0 \<le> month_days mp \<and> month_days mp \<le> 337"
  unfolding month_days_def by linarith

lemma month_from_march: "1 \<le> m \<Longrightarrow> m \<le> 12 \<Longrightarrow>
    0 \<le> m + (if m > 2 then -3 else 9) \<and> m + (if m > 2 then -3 else 9) \<le> (11::int)"
  by simp

lemma days_from_civil_closed:
  assumes "1 \<le> m" "m \<le> 12" "1 \<le> d" "d \<le> 31"
  shows "ns_dt_days_from_civil y m d =
           year_days (y - (if m \<le> 2 then 1 else 0)) + month_days (m + (if m > 2 then -3 else 9)) + d - 719469"
proof -
  define yy mp where "yy = y - (if m \<le> 2 then 1 else 0)" and "mp = m + (if m > 2 then -3 else (9::int))"
  have mp: "0 \<le> mp" "mp \<le> 11" using assms(1,2) by (auto simp: mp_def)
  have era: "(if yy \<ge> 0 then yy else yy - 399) sdiv 400 = yy div 400" using floor_sdiv [of 400 yy] by (cases "0 \<le> yy") simp_all
  have yoe: "to_unsigned (yy - yy div 400 * 400) = yy mod 400"
    by (simp add: to_unsigned_def minus_div_mult_eq_mod)
  have doy: "to_unsigned ((153 * mp + 2) sdiv 5 + d - 1) = month_days mp + d - 1"
    using mp assms(3,4) month_days_bounds [OF mp]
    by (simp add: sdiv_nonneg month_days_def to_unsigned_id)
  have doe: "to_unsigned (yy mod 400 * 365 + yy mod 400 div 4 - yy mod 400 div 100 + (month_days mp + d - 1)) =
      365 * (yy mod 400) + yy mod 400 div 4 - yy mod 400 div 100 + (month_days mp + d - 1)"
    using march_year [of "yy mod 400"] month_days_bounds [OF mp] assms(3,4)
    by (simp add: to_unsigned_id)
  have "ns_dt_days_from_civil y m d =
      yy div 400 * 146097 + (365 * (yy mod 400) + yy mod 400 div 4 - yy mod 400 div 100 + (month_days mp + d - 1)) - 719468"
    unfolding ns_dt_days_from_civil_def Let_def yy_def [symmetric] mp_def [symmetric] era yoe doy doe ..
  then show ?thesis unfolding yy_def [symmetric] mp_def [symmetric] year_days_split [of yy] by linarith
qed


section \<open>The way back\<close>

definition march :: "int \<Rightarrow> int" where
  "march r = 365 * r + r div 4 - r div 100"

definition era_year :: "int \<Rightarrow> int" where
  "era_year doe = doe - doe div 1460 + doe div 36524 - doe div 146096"

lemma era_year_step: "era_year n \<le> era_year (n + 1)"
proof -
  have d: "(146096::int) dvd n + 1 \<Longrightarrow> 36524 dvd n + 1"
    using dvd_trans [of 36524 146096 "n + 1"] by simp
  define a b c :: int where "a = (if 1460 dvd n + 1 then 1 else 0)" and "b = (if 36524 dvd n + 1 then 1 else 0)"
    and "c = (if 146096 dvd n + 1 then 1 else 0)"
  have "(n + 1) div 1460 = n div 1460 + a" "(n + 1) div 36524 = n div 36524 + b" "(n + 1) div 146096 = n div 146096 + c"
    unfolding a_def b_def c_def by (rule div_step; simp)+
  moreover have "n - A + B - C \<le> n + 1 - (A + a) + (B + b) - (C + c)" if "a \<le> 1" "c \<le> b" for A B C :: int
    using that by simp
  moreover have "a \<le> 1" "c \<le> b" using d by (simp_all add: a_def b_def c_def)
  ultimately show ?thesis by (simp only: era_year_def)
qed

lemma era_year_mono: "m \<le> n \<Longrightarrow> era_year m \<le> era_year n"
proof (induction n rule: int_ge_induct)
  case (step i)
  with era_year_step [of i] show ?case by simp
qed simp

lemma era_year_table:
  "list_all (\<lambda>r. era_year (march r) div 365 = r \<and>
     era_year (if r = 399 then 146096 else march (r + 1) - 1) div 365 = r) [0..399]"
  by code_simp

lemma era_year_inverse:
  assumes "0 \<le> r" "r < 400" "march r \<le> doe" "doe \<le> (if r = 399 then 146096 else march (r + 1) - 1)"
  shows "era_year doe div 365 = r"
proof -
  have "r \<in> set [0..399]" using assms by simp
  with era_year_table have t: "era_year (march r) div 365 = r"
    "era_year (if r = 399 then 146096 else march (r + 1) - 1) div 365 = r"
    by (simp_all only: list_all_iff)
  have "era_year (march r) div 365 \<le> era_year doe div 365"
    by (intro zdiv_mono1 era_year_mono assms(3)) simp
  moreover have "era_year doe div 365 \<le> era_year (if r = 399 then 146096 else march (r + 1) - 1) div 365"
    by (intro zdiv_mono1 era_year_mono assms(4)) simp
  ultimately show ?thesis using t by simp
qed

lemma month_inverse:
  assumes "month_days mp \<le> doy" "doy < month_days (mp + 1)"
  shows "(5 * doy + 2) div 153 = mp"
proof -
  have "153 * mp - 2 \<le> 5 * month_days mp" "5 * month_days (mp + 1) \<le> 153 * (mp + 1) + 2"
    unfolding month_days_def by linarith+
  with assms have "153 * mp \<le> 5 * doy + 2" "5 * doy + 2 < 153 * (mp + 1)" by linarith+
  then show ?thesis by (intro int_div_pos_eq [where r = "5 * doy + 2 - 153 * mp"]) simp_all
qed


lemma civil_from_parts:
  assumes r: "0 \<le> r" "r < 400" and mp: "0 \<le> mp" "mp \<le> 11" and d: "1 \<le> d"
    and doy: "month_days mp + d - 1 < month_days (mp + 1)"
    and year: "march r + month_days mp + d - 1 \<le> (if r = 399 then 146096 else march (r + 1) - 1)"
  shows "ns_dt_civil_from_days (e * 146097 + march r + month_days mp + d - 719469) =
           (let m = mp + (if mp < 10 then 3 else -9) in (r + e * 400 + (if m \<le> 2 then 1 else 0), m, d))"
proof -
  define t where "t = month_days mp + d - 1"
  define doe where "doe = march r + t"
  define z where "z = e * 146097 + doe"
  have t: "0 \<le> t" "t \<le> 366"
    using month_days_bounds [OF mp] d doy month_days_bounds [of "mp + 1"] mp unfolding t_def
    by (cases "mp = 11"; simp add: month_days_def)+
  have march: "0 \<le> march r" "r \<noteq> 399 \<Longrightarrow> march (r + 1) \<le> 145734"
    using march_year(1) [of r] march_year(2) [of "r + 1"] r by (simp_all add: march_def)
  have doe: "march r \<le> doe" "doe \<le> (if r = 399 then 146096 else march (r + 1) - 1)" "0 \<le> doe" "doe < 146097"
    using year t march by (auto simp: doe_def t_def split: if_splits)
  have era: "(if z \<ge> 0 then z else z - 146096) sdiv 146097 = e"
  proof -
    have "z div 146097 = e" by (rule int_div_pos_eq [where r = doe]) (use doe in \<open>simp_all add: z_def\<close>)
    with floor_sdiv [of 146097 z] show ?thesis by (cases "0 \<le> z") simp_all
  qed
  have u_doe: "to_unsigned (z - e * 146097) = doe" using doe by (simp add: z_def to_unsigned_id)
  have yoe: "era_year doe div 365 = r" by (rule era_year_inverse) (use r doe in simp_all)
  then have "0 \<le> era_year doe" "era_year doe < 146000" using r by linarith+
  then have u_yoe: "to_unsigned (doe - doe div 1460 + doe div 36524 - doe div 146096) div 365 = r"
    using yoe by (simp add: era_year_def to_unsigned_id)
  have u_doy: "to_unsigned (doe - (365 * r + r div 4 - r div 100)) = t"
    using t by (simp add: doe_def march_def to_unsigned_id)
  have mp': "to_unsigned (5 * t + 2) div 153 = mp"
    using month_inverse [of mp t] d doy t by (simp add: t_def to_unsigned_id)
  have u_dd: "to_unsigned (t - to_unsigned (153 * mp + 2) div 5 + 1) = d"
    using mp t d by (simp add: to_unsigned_id) (simp add: t_def month_days_def to_unsigned_def)
  have u_mm: "to_unsigned (mp + (if mp < 10 then 3 else -9)) = mp + (if mp < 10 then 3 else -9)"
    using mp by (simp add: to_unsigned_id)
  have z0: "e * 146097 + march r + month_days mp + d - 719469 + 719468 = z" by (simp add: z_def doe_def t_def)
  show ?thesis
    unfolding ns_dt_civil_from_days_def Let_def z0 era u_doe u_yoe u_doy mp' u_dd u_mm ..
qed

lemma days_in_month_eq:
  "ns_dt_days_in_month y m =
     (if m < 1 \<or> m > 12 then 0 else if m = 2 then (if leap y then 29 else 28)
      else [31, 28, 31, 30, 31, 30, 31, 31, 30, 31, 30, 31] ! nat (m - 1))"
  by (simp add: ns_dt_days_in_month_def leap_def smod_zero_iff)

lemma month_cases:
  "1 \<le> (m::int) \<Longrightarrow> m \<le> 12 \<Longrightarrow> m = 1 \<or> m = 2 \<or> m = 3 \<or> m = 4 \<or> m = 5 \<or> m = 6 \<or> m = 7 \<or> m = 8 \<or>
     m = 9 \<or> m = 10 \<or> m = 11 \<or> m = 12"
  by arith

abbreviation march_month :: "int \<Rightarrow> int" where
  "march_month m \<equiv> m + (if m > 2 then -3 else 9)"

abbreviation march_of_year :: "int \<Rightarrow> int \<Rightarrow> int" where
  "march_of_year y m \<equiv> y - (if m \<le> 2 then 1 else 0)"

lemma month_length:
  assumes "1 \<le> m" "m \<le> 12" "m \<noteq> 2"
  shows "ns_dt_days_in_month y m = month_days (march_month m + 1) - month_days (march_month m)"
  using month_cases [OF assms(1,2)] assms(3)
  by (elim disjE; simp add: days_in_month_eq month_days_def)

lemma valid_bounds:
  assumes "valid_date y m d"
  shows "d \<le> 31" "month_days (march_month m) + d - 1 < month_days (march_month m + 1)"
    "month_days (march_month m) + d - 1 < (if leap (march_of_year y m + 1) then 366 else 365)"
proof -
  have m: "1 \<le> m" "m \<le> 12" "1 \<le> d" "d \<le> ns_dt_days_in_month y m" using assms by (simp_all add: valid_date_def)
  show "d \<le> 31" using month_cases [OF m(1,2)] m(4) by (elim disjE; simp add: days_in_month_eq split: if_splits)
  show "month_days (march_month m) + d - 1 < month_days (march_month m + 1)"
    using month_cases [OF m(1,2)] m(4) by (elim disjE; simp add: days_in_month_eq month_days_def split: if_splits)
  show "month_days (march_month m) + d - 1 < (if leap (march_of_year y m + 1) then 366 else 365)"
    using month_cases [OF m(1,2)] m(4) by (elim disjE; simp add: days_in_month_eq month_days_def split: if_splits)
qed

lemma days_valid:
  assumes "valid_date y m d"
  shows "ns_dt_days_from_civil y m d = year_days (march_of_year y m) + month_days (march_month m) + d - 719469"
  using days_from_civil_closed [of m d y] valid_bounds(1) [OF assms] assms by (simp add: valid_date_def)

lemma civil_from_days_valid:
  assumes "valid_date y m d"
  shows "ns_dt_civil_from_days (ns_dt_days_from_civil y m d) = (y, m, d)"
proof -
  define yy mp where "yy = march_of_year y m" and "mp = march_month m"
  define e r where "e = yy div 400" and "r = yy mod 400"
  have yy: "yy = r + e * 400" and r: "0 \<le> r" "r < 400" by (simp_all add: e_def r_def)
  have m: "1 \<le> m" "m \<le> 12" "1 \<le> d" using assms by (simp_all add: valid_date_def)
  then have mp: "0 \<le> mp" "mp \<le> 11" by (auto simp: mp_def)
  have split: "year_days yy = e * 146097 + march r" by (simp add: year_days_split e_def r_def march_def)
  have fits: "month_days mp + d - 1 < (if leap (yy + 1) then 366 else 365)"
    unfolding yy_def mp_def by (rule valid_bounds(3) [OF assms])
  have year: "march r + month_days mp + d - 1 \<le> (if r = 399 then 146096 else march (r + 1) - 1)"
  proof (cases "r = 399")
    case True
    then have "march r = 145731" by (simp add: march_def)
    with fits True show ?thesis by (simp split: if_splits)
  next
    case False
    have "(yy + 1) div 400 = e" "(yy + 1) mod 400 = r + 1"
      using r False by (simp_all add: yy int_div_pos_eq [where r = "r + 1"] int_mod_pos_eq [where q = e])
    then have "year_days (yy + 1) = e * 146097 + march (r + 1)"
      by (simp add: year_days_split [of "yy + 1"] march_def)
    with year_days_Suc [of yy] split fits False show ?thesis by (simp split: if_splits)
  qed
  have days: "ns_dt_days_from_civil y m d = e * 146097 + march r + month_days mp + d - 719469"
    using days_valid [OF assms] split by (simp add: yy_def mp_def)
  have doy: "month_days mp + d - 1 < month_days (mp + 1)" unfolding mp_def by (rule valid_bounds(2) [OF assms])
  have "ns_dt_civil_from_days (ns_dt_days_from_civil y m d) =
      (let m' = mp + (if mp < 10 then 3 else -9) in (r + e * 400 + (if m' \<le> 2 then 1 else 0), m', d))"
    unfolding days by (rule civil_from_parts [OF r mp m(3) doy year])
  moreover have "mp + (if mp < 10 then 3 else -9) = m" using m by (simp add: mp_def)
  ultimately show ?thesis by (simp add: Let_def yy [symmetric] yy_def)
qed

text \<open>
  the two conversions between civil dates and day numbers are inverse on every valid date.
\<close>

theorem civil_roundtrip:
  "valid_date y m d \<Longrightarrow> ns_dt_civil_from_days (ns_dt_days_from_civil y m d) = (y, m, d)"
  by (rule civil_from_days_valid)

lemma civil_roundtrip_witness:
  "ns_dt_civil_from_days (ns_dt_days_from_civil 2024 2 29) = (2024, 2, 29)"
  by (rule civil_roundtrip) (simp add: valid_date_def days_in_month_eq leap_def)

section \<open>The calendar\<close>

text \<open>The reference: the day after, as a calendar has it.\<close>

fun next_date :: "int \<times> int \<times> int \<Rightarrow> int \<times> int \<times> int" where
  "next_date (y, m, d) =
     (if d < ns_dt_days_in_month y m then (y, m, d + 1) else if m < 12 then (y, m + 1, 1) else (y + 1, 1, 1))"

lemma next_date_days:
  assumes "valid_date y m d" "next_date (y, m, d) = (y', m', d')"
  shows "valid_date y' m' d'" "ns_dt_days_from_civil y' m' d' = ns_dt_days_from_civil y m d + 1"
proof -
  have m: "1 \<le> m" "m \<le> 12" "1 \<le> d" "d \<le> ns_dt_days_in_month y m" using assms(1) by (simp_all add: valid_date_def)
  show v: "valid_date y' m' d'"
    using assms(2) m month_cases [OF m(1,2)]
    by (elim disjE; auto simp: valid_date_def days_in_month_eq split: if_splits)
  show "ns_dt_days_from_civil y' m' d' = ns_dt_days_from_civil y m d + 1"
    unfolding days_valid [OF v] days_valid [OF assms(1)]
    using assms(2) m month_cases [OF m(1,2)] year_days_Suc [of "y - 1"]
    by (elim disjE; auto simp: days_in_month_eq month_days_def split: if_splits)
qed

lemma every_day: "\<exists>y m d. valid_date y m d \<and> ns_dt_days_from_civil y m d = z"
proof -
  define y0 where "y0 = min z 0 - 2000"
  have v0: "valid_date y0 1 1" by (simp add: valid_date_def days_in_month_eq)
  have "ns_dt_days_from_civil y0 1 1 \<le> z"
  proof -
    have "y0 div 4 \<le> 0" "- (y0 div 100) \<le> - y0" "y0 div 400 \<le> 0" "y0 \<le> z - 2000" "y0 \<le> -2000"
      by (simp_all add: y0_def div_nonpos_pos_le0)
    then show ?thesis by (simp add: days_valid [OF v0] year_days_def month_days_def)
  qed
  then show ?thesis
  proof (induction z rule: int_ge_induct)
    case base
    with v0 show ?case by blast
  next
    case (step i)
    then obtain y m d where "valid_date y m d" "ns_dt_days_from_civil y m d = i" by blast
    with next_date_days [of y m d] show ?case by (cases "next_date (y, m, d)") auto
  qed
qed



section \<open>ISO weeks\<close>

definition leaps :: "int \<Rightarrow> int" where
  "leaps y = y + y div 4 - y div 100 + y div 400"

lemma leaps_Suc: "leaps (y + 1) = leaps y + (if leap (y + 1) then 2 else 1)"
  using year_days_Suc [of y] by (simp add: year_days_def leaps_def split: if_splits)

lemma week1_monday_eq: "ns_dt_iso_week1_monday y = (let j = 364 * (y - 1) + leaps (y - 1) - 719159 in j - (j + 3) mod 7)"
proof -
  have "ns_dt_days_from_civil y 1 4 = year_days (y - 1) + month_days 10 + 4 - 719469"
    using days_from_civil_closed [of 1 4 y] by simp
  also have "\<dots> = 364 * (y - 1) + leaps (y - 1) - 719159" by (simp add: year_days_def leaps_def month_days_def)
  finally show ?thesis by (simp add: ns_dt_iso_week1_monday_def Let_def floormod_mod)
qed

lemma week1_monday_mod: "ns_dt_iso_week1_monday y = 364 * (y - 1) + leaps (y - 1) - 719159 - (leaps (y - 1) + 3) mod 7"
proof -
  have "364 * (y - 1) + leaps (y - 1) - 719159 + 3 = leaps (y - 1) + 3 + (52 * (y - 1) - 102737) * 7" by simp
  then have "(364 * (y - 1) + leaps (y - 1) - 719159 + 3) mod 7 = (leaps (y - 1) + 3) mod 7"
    by (simp only: mod_mult_self1)
  then show ?thesis by (simp only: week1_monday_eq Let_def)
qed

lemma leaps_nonneg: "0 \<le> y \<Longrightarrow> 0 \<le> leaps y"
proof -
  assume "0 \<le> y"
  then have "y div 100 \<le> y" "0 \<le> y div 4" "0 \<le> y div 400" using zdiv_mono2 [of y 1 100] by simp_all
  with \<open>0 \<le> y\<close> show ?thesis by (simp add: leaps_def)
qed

lemma iso_weeks_eq:
  assumes "1 \<le> y"
  shows "ns_dt_iso_weeks_in_year y = (if leaps y mod 7 = 4 \<or> leaps (y - 1) mod 7 = 3 then 53 else 52)"
  using assms leaps_nonneg [of y] leaps_nonneg [of "y - 1"]
  by (simp add: ns_dt_iso_weeks_in_year_def Let_def sdiv_nonneg leaps_def [symmetric] smod_nonneg)

lemma iso_weeks_facts:
  assumes "1 \<le> y"
  shows "ns_dt_iso_week1_monday (y + 1) - ns_dt_iso_week1_monday y = 7 * ns_dt_iso_weeks_in_year y \<and>
         (ns_dt_iso_week1_monday y + 3) mod 7 = 0"
proof -
  define q where "q = leaps (y - 1)"
  have y: "leaps y = q + (if leap y then 2 else 1)" using leaps_Suc [of "y - 1"] by (simp add: q_def)
  have w: "ns_dt_iso_weeks_in_year y = (if leaps y mod 7 = 4 \<or> q mod 7 = 3 then 53 else 52)"
    using iso_weeks_eq [OF assms] by (simp add: q_def)
  have m: "ns_dt_iso_week1_monday y = 364 * (y - 1) + q - 719159 - (q + 3) mod 7"
    "ns_dt_iso_week1_monday (y + 1) = 364 * y + leaps y - 719159 - (leaps y + 3) mod 7"
    using week1_monday_mod [of y] week1_monday_mod [of "y + 1"] by (simp_all add: q_def)
  define k s where "k = q div 7" and "s = q mod 7"
  have q: "q = s + k * 7" and "0 \<le> s" "s < 7" by (simp_all add: k_def s_def)
  then have s: "s = 0 \<or> s = 1 \<or> s = 2 \<or> s = 3 \<or> s = 4 \<or> s = 5 \<or> s = 6" by arith
  define t where "t = (if leap y then 2 else (1::int))"
  have ly: "leaps y = q + t" using y by (simp add: t_def)
  have t: "t = 1 \<or> t = 2" by (simp add: t_def)
  have r: "(q + 3) mod 7 = (s + 3) mod 7" "(q + t + 3) mod 7 = (s + t + 3) mod 7" "(q + t) mod 7 = (s + t) mod 7" "q mod 7 = s"
    by (simp_all only: s_def mod_add_left_eq [of q 7, symmetric] add.assoc)
  have diff: "ns_dt_iso_week1_monday (y + 1) - ns_dt_iso_week1_monday y =
      364 + t + (s + 3) mod 7 - (s + t + 3) mod 7"
    unfolding m ly r by simp
  have weeks: "ns_dt_iso_weeks_in_year y = (if (s + t) mod 7 = 4 \<or> s = 3 then 53 else 52)"
    unfolding w ly r ..
  have "364 + t + (s + 3) mod 7 - (s + t + 3) mod 7 = 7 * (if (s + t) mod 7 = 4 \<or> s = 3 then 53 else 52)"
    using s t by (elim disjE; simp)
  moreover have "(ns_dt_iso_week1_monday y + 3) mod 7 = 0"
  proof -
    have "ns_dt_iso_week1_monday y + 3 = s + 3 - (s + 3) mod 7 + (k + 52 * (y - 1) - 102737) * 7"
      unfolding m(1) r(1) by (subst q) simp
    moreover have "(s + 3 - (s + 3) mod 7 + (k + 52 * (y - 1) - 102737) * 7) mod 7 = 0"
      unfolding mod_mult_self1 using s by (elim disjE) simp_all
    ultimately show ?thesis by (simp only:)
  qed
  ultimately show ?thesis by (simp only: diff weeks)
qed

text \<open>
  the number of weeks the code gives a year is the number of weeks between the Mondays with
  which ISO week 1 of that year and of the next begin, and these days are Mondays.
\<close>

theorem iso_weeks_correct:
  assumes "1 \<le> y"
  shows "ns_dt_iso_week1_monday (y + 1) - ns_dt_iso_week1_monday y = 7 * ns_dt_iso_weeks_in_year y \<and>
         (ns_dt_iso_week1_monday y + 3) mod 7 = 0"
  using assms by (rule iso_weeks_facts)

lemma iso_weeks_correct_witness:
  "ns_dt_iso_week1_monday 2021 - ns_dt_iso_week1_monday 2020 = 7 * ns_dt_iso_weeks_in_year 2020 \<and>
   (ns_dt_iso_week1_monday 2020 + 3) mod 7 = 0"
  using iso_weeks_correct [of 2020] by simp

end
