(* ===== verification/FormValues.thy ===== *)
theory FormValues
  imports DateTime
begin

text \<open>
  The numbers behind the date and time inputs (\<^verbatim>\<open>dom.c\<close>): how the value of such an input is read as
  a number (milliseconds since 1970, or since midnight, or months) and written back.  The C code keeps
  the number in a double; here it is an integer, which the double represents exactly for every value
  these inputs can have (all are below \<open>2 ^ 53\<close>), and \<^verbatim>\<open>floor(v / n + 0.5)\<close> is written in integers.
  The inputs of type number and range, whose text \<^verbatim>\<open>strtod\<close> reads, are not modelled.
\<close>

datatype ns_form_input_kind =
  NS_FORM_INPUT_OTHER | NS_FORM_INPUT_NUMBER | NS_FORM_INPUT_RANGE | NS_FORM_INPUT_DATE |
  NS_FORM_INPUT_MONTH | NS_FORM_INPUT_WEEK | NS_FORM_INPUT_TIME | NS_FORM_INPUT_DATETIME

definition ns_form_input_kind_of_type :: "cstr option \<Rightarrow> ns_form_input_kind" where
  "ns_form_input_kind_of_type type =
     (case type of None \<Rightarrow> NS_FORM_INPUT_OTHER
      | Some t \<Rightarrow>
          if strcaseeq t ''number'' then NS_FORM_INPUT_NUMBER
          else if strcaseeq t ''range'' then NS_FORM_INPUT_RANGE
          else if strcaseeq t ''date'' then NS_FORM_INPUT_DATE
          else if strcaseeq t ''month'' then NS_FORM_INPUT_MONTH
          else if strcaseeq t ''week'' then NS_FORM_INPUT_WEEK
          else if strcaseeq t ''time'' then NS_FORM_INPUT_TIME
          else if strcaseeq t ''datetime-local'' then NS_FORM_INPUT_DATETIME
          else NS_FORM_INPUT_OTHER)"

definition DAY_MS :: int where
  "DAY_MS = 86400000"

definition at_end :: "cstr \<Rightarrow> unit option" where
  "at_end p = (if p = [] then Some () else None)"

definition guard_opt :: "bool \<Rightarrow> unit option" where
  "guard_opt b = (if b then Some () else None)"

definition date_value :: "cstr \<Rightarrow> int option" where
  "date_value s =
     do { ((y, m, d), p) \<leftarrow> ns_dt_rd_date s; _ \<leftarrow> at_end p; Some (ns_dt_days_from_civil y m d * DAY_MS) }"

definition month_value :: "cstr \<Rightarrow> int option" where
  "month_value s =
     do { (y, p1) \<leftarrow> ns_dt_rd_digits s 4 9; p2 \<leftarrow> expect (CHR ''-'') p1;
          (m, p3) \<leftarrow> ns_dt_rd_digits p2 2 2; _ \<leftarrow> at_end p3;
          _ \<leftarrow> guard_opt (1 \<le> y \<and> y \<le> NS_DT_MAX_YEAR \<and> 1 \<le> m \<and> m \<le> 12);
          Some ((y - 1970) * 12 + (m - 1)) }"

definition week_value :: "cstr \<Rightarrow> int option" where
  "week_value s =
     do { (y, p1) \<leftarrow> ns_dt_rd_digits s 4 9; p2 \<leftarrow> expect (CHR ''-'') p1; p3 \<leftarrow> expect (CHR ''W'') p2;
          (w, p4) \<leftarrow> ns_dt_rd_digits p3 2 2; _ \<leftarrow> at_end p4;
          _ \<leftarrow> guard_opt (1 \<le> y \<and> y \<le> NS_DT_MAX_YEAR \<and> 1 \<le> w \<and> w \<le> ns_dt_iso_weeks_in_year y);
          Some ((ns_dt_iso_week1_monday y + (w - 1) * 7) * DAY_MS) }"

definition time_value :: "cstr \<Rightarrow> int option" where
  "time_value s = do { (ms, p) \<leftarrow> ns_dt_rd_time s; _ \<leftarrow> at_end p; Some ms }"

definition datetime_value :: "cstr \<Rightarrow> int option" where
  "datetime_value s =
     do { ((y, m, d), p1) \<leftarrow> ns_dt_rd_date s;
          _ \<leftarrow> guard_opt (p1 \<noteq> [] \<and> (hd p1 = CHR ''T'' \<or> hd p1 = CHR '' ''));
          (ms, p2) \<leftarrow> ns_dt_rd_time (tl p1); _ \<leftarrow> at_end p2;
          Some (ns_dt_days_from_civil y m d * DAY_MS + ms) }"

definition ns_input_value_to_number :: "ns_form_input_kind \<Rightarrow> cstr option \<Rightarrow> int option" where
  "ns_input_value_to_number kind value =
     (case value of None \<Rightarrow> None
      | Some s \<Rightarrow>
          if s = [] then None
          else (case kind of
                  NS_FORM_INPUT_DATE \<Rightarrow> date_value s
                | NS_FORM_INPUT_MONTH \<Rightarrow> month_value s
                | NS_FORM_INPUT_WEEK \<Rightarrow> week_value s
                | NS_FORM_INPUT_TIME \<Rightarrow> time_value s
                | NS_FORM_INPUT_DATETIME \<Rightarrow> datetime_value s
                | _ \<Rightarrow> None))"

text \<open>Below and above the bounds of the input, None where the value is not a number.\<close>

definition ns_input_value_range_state ::
  "ns_form_input_kind \<Rightarrow> cstr option \<Rightarrow> cstr option \<Rightarrow> cstr option \<Rightarrow> (bool \<times> bool) option" where
  "ns_input_value_range_state kind value lo hi =
     do { v \<leftarrow> ns_input_value_to_number kind value;
          Some ((case ns_input_value_to_number kind lo of None \<Rightarrow> False | Some b \<Rightarrow> v < b),
                (case ns_input_value_to_number kind hi of None \<Rightarrow> False | Some b \<Rightarrow> v > b)) }"

section \<open>Writing the value\<close>

text \<open>\<open>%0nd\<close> of a number that is not negative.\<close>

definition pad :: "nat \<Rightarrow> int \<Rightarrow> cstr" where
  "pad n i = (let ds = dec_digits (nat i) in replicate (n - length ds) (CHR ''0'') @ ds)"

definition ns_form_serialize_time :: "int \<Rightarrow> cstr" where
  "ns_form_serialize_time ms =
     (let h = ms sdiv 3600000; mi = (ms sdiv 60000) smod 60; s = (ms sdiv 1000) smod 60; frac = ms smod 1000 in
      pad 2 h @ '':'' @ pad 2 mi @
      (if s \<noteq> 0 \<or> frac \<noteq> 0 then '':'' @ pad 2 s else []) @
      (if frac \<noteq> 0 then ''.'' @ pad 3 frac else []))"

text \<open>\<open>floor(v / n + 0.5)\<close>\<close>

definition round_div :: "int \<Rightarrow> int \<Rightarrow> int" where
  "round_div v n = (2 * v + n) div (2 * n)"

definition year_ok :: "int \<Rightarrow> bool" where
  "year_ok y \<longleftrightarrow> 1 \<le> y \<and> y \<le> NS_DT_MAX_YEAR"

definition date_text :: "int \<Rightarrow> int \<Rightarrow> int \<Rightarrow> cstr" where
  "date_text y m d = pad 4 y @ ''-'' @ pad 2 m @ ''-'' @ pad 2 d"

definition number_to_date :: "int \<Rightarrow> cstr option" where
  "number_to_date v =
     (case ns_dt_civil_from_days (round_div v DAY_MS) of
        (y, m, d) \<Rightarrow> if year_ok y then Some (date_text y m d) else None)"

definition number_to_month :: "int \<Rightarrow> cstr option" where
  "number_to_month v =
     (let months = v;
          y = 1970 + (if months \<ge> 0 then months sdiv 12 else - ((- months + 11) sdiv 12));
          m = ns_dt_floormod months 12 + 1
      in if year_ok y then Some (pad 4 y @ ''-'' @ pad 2 m) else None)"

definition number_to_week :: "int \<Rightarrow> cstr option" where
  "number_to_week v =
     (let monday = round_div v (7 * DAY_MS) * 7 - 3 in
      case ns_dt_civil_from_days (monday + 3) of
        (y, m, d) \<Rightarrow>
          let w = (monday - ns_dt_iso_week1_monday y) sdiv 7 + 1 in
          if year_ok y \<and> 1 \<le> w \<and> w \<le> ns_dt_iso_weeks_in_year y
          then Some (pad 4 y @ ''-W'' @ pad 2 w) else None)"

definition number_to_time :: "int \<Rightarrow> cstr option" where
  "number_to_time v = Some (ns_form_serialize_time (ns_dt_floormod v DAY_MS))"

definition number_to_datetime :: "int \<Rightarrow> cstr option" where
  "number_to_datetime v =
     (let days = v div DAY_MS; ms = v - days * DAY_MS in
      case ns_dt_civil_from_days days of
        (y, m, d) \<Rightarrow> if year_ok y then Some (date_text y m d @ ''T'' @ ns_form_serialize_time ms) else None)"

definition ns_input_number_to_value :: "ns_form_input_kind \<Rightarrow> int \<Rightarrow> nat \<Rightarrow> cstr option" where
  "ns_input_number_to_value kind v buflen =
     do { s \<leftarrow> (case kind of
                   NS_FORM_INPUT_DATE \<Rightarrow> number_to_date v
                 | NS_FORM_INPUT_MONTH \<Rightarrow> number_to_month v
                 | NS_FORM_INPUT_WEEK \<Rightarrow> number_to_week v
                 | NS_FORM_INPUT_TIME \<Rightarrow> number_to_time v
                 | NS_FORM_INPUT_DATETIME \<Rightarrow> number_to_datetime v
                 | _ \<Rightarrow> None);
          _ \<leftarrow> guard_opt (length s < buflen); Some s }"

section \<open>Reading back what was written\<close>

lemma rd_digits_append:
  assumes "list_all g_ascii_isdigit ds" "lo \<le> length ds" "length ds \<le> hi"
    and "length ds = hi \<or> rest = [] \<or> \<not> g_ascii_isdigit (hd rest)"
  shows "ns_dt_rd_digits (ds @ rest) lo hi = Some (int (dec_value 0 ds), rest)"
proof -
  have "takeWhile g_ascii_isdigit (take hi (ds @ rest)) = ds @ takeWhile g_ascii_isdigit (take (hi - length ds) rest)"
    using assms(1,3) by (simp add: list_all_iff takeWhile_append)
  also have "takeWhile g_ascii_isdigit (take (hi - length ds) rest) = []"
    using assms(4) by (cases rest) (auto simp: take_Cons split: nat.split)
  finally show ?thesis using assms(2) by (simp add: ns_dt_rd_digits_def Let_def)
qed

lemma pad_digits: "list_all g_ascii_isdigit (pad n i)"
  by (auto simp: pad_def Let_def list_all_iff ascii_simps dest: dec_digits_isdigit split: if_splits)

lemma dec_value_zeros: "dec_value 0 (replicate k (CHR ''0'') @ ds) = dec_value 0 ds"
  by (induction k) (simp_all add: digit_val_def code_of_def)

lemma pad_value: "0 \<le> i \<Longrightarrow> int (dec_value 0 (pad n i)) = i"
  unfolding pad_def Let_def dec_value_zeros by simp

lemma dec_digits_length: "n < 10 ^ Suc k \<Longrightarrow> length (dec_digits n) \<le> Suc k"
proof (induction n arbitrary: k rule: dec_digits.induct)
  case (1 n)
  show ?case
  proof (cases "n < 10")
    case True
    then show ?thesis by (subst dec_digits.simps) simp
  next
    case False
    then obtain k' where k: "k = Suc k'" using 1(2) by (cases k) auto
    then have "n div 10 < 10 ^ Suc k'" using 1(2) by auto
    with 1(1) [OF False, of k'] False k show ?thesis by (subst dec_digits.simps) simp
  qed
qed

lemma pad_length:
  "0 \<le> i \<Longrightarrow> i < 100 \<Longrightarrow> length (pad 2 i) = 2" "0 \<le> i \<Longrightarrow> i < 1000 \<Longrightarrow> length (pad 3 i) = 3"
  "0 \<le> i \<Longrightarrow> i < 1000000 \<Longrightarrow> 4 \<le> length (pad 4 i) \<and> length (pad 4 i) \<le> 6"
  using dec_digits_length [of "nat i" 1] dec_digits_length [of "nat i" 2] dec_digits_length [of "nat i" 5]
  by (simp_all add: pad_def Let_def nat_less_iff) linarith

lemma rd_pad:
  "0 \<le> i \<Longrightarrow> i < 100 \<Longrightarrow> ns_dt_rd_digits (pad 2 i @ rest) 2 2 = Some (i, rest)"
  "0 \<le> i \<Longrightarrow> i < 100 \<Longrightarrow> ns_dt_rd_digits (pad 2 i) 2 2 = Some (i, [])"
  "1 \<le> y \<Longrightarrow> y \<le> NS_DT_MAX_YEAR \<Longrightarrow> \<not> g_ascii_isdigit c \<Longrightarrow>
     ns_dt_rd_digits (pad 4 y @ c # rest) 4 9 = Some (y, c # rest)"
  using rd_digits_append [of "pad 2 i" 2 2 rest] rd_digits_append [of "pad 2 i" 2 2 "[]"]
    rd_digits_append [of "pad 4 y" 4 9 "c # rest"]
    pad_length(3) [of y]
  by (auto simp: pad_digits pad_length(1) pad_value NS_DT_MAX_YEAR_def)

lemma expect_simps [simp]: "expect c [] = None" "expect c (d # p) = (if d = c then Some p else None)"
  by (simp_all add: expect_def)

lemma not_digit [simp]:
  "\<not> g_ascii_isdigit (CHR ''-'')" "\<not> g_ascii_isdigit (CHR '':'')" "\<not> g_ascii_isdigit (CHR ''.'')"
  by (simp_all add: ascii_simps)

lemma rd_date_text:
  assumes "valid_date y m d" "year_ok y"
  shows "ns_dt_rd_date (date_text y m d @ rest) = Some ((y, m, d), rest)"
proof -
  have "1 \<le> m" "m \<le> 12" "1 \<le> d" "d \<le> 31" using assms(1) valid_bounds(1) [OF assms(1)] by (simp_all add: valid_date_def)
  with assms show ?thesis
    by (simp add: ns_dt_rd_date_def date_text_def rd_pad year_ok_def)
qed

lemma rd_date_facts: "ns_dt_rd_date s = Some ((y, m, d), rest) \<Longrightarrow> valid_date y m d \<and> year_ok y"
  by (auto simp: ns_dt_rd_date_def year_ok_def split: bind_splits if_splits)

lemma round_div_multiple: "0 < n \<Longrightarrow> round_div (k * n) n = k"
  unfolding round_div_def by (rule int_div_pos_eq [where r = n]) (simp_all add: algebra_simps)


lemma date_value_facts:
  "date_value s = Some v \<Longrightarrow> \<exists>y m d. valid_date y m d \<and> year_ok y \<and> v = ns_dt_days_from_civil y m d * DAY_MS"
  by (auto simp: date_value_def split: bind_splits) (blast dest: rd_date_facts)

lemma date_value_text:
  "valid_date y m d \<Longrightarrow> year_ok y \<Longrightarrow> date_value (date_text y m d) = Some (ns_dt_days_from_civil y m d * DAY_MS)"
  using rd_date_text [of y m d "[]"] by (simp add: date_value_def at_end_def)

lemma number_to_date_valid:
  "valid_date y m d \<Longrightarrow> year_ok y \<Longrightarrow> number_to_date (ns_dt_days_from_civil y m d * DAY_MS) = Some (date_text y m d)"
  by (simp add: number_to_date_def round_div_multiple DAY_MS_def civil_from_days_valid)

lemma month_value_facts:
  "month_value s = Some v \<Longrightarrow> \<exists>y m. year_ok y \<and> 1 \<le> m \<and> m \<le> 12 \<and> v = (y - 1970) * 12 + (m - 1)"
  by (auto simp: month_value_def guard_opt_def year_ok_def split: bind_splits if_splits) blast

lemma month_value_text:
  "year_ok y \<Longrightarrow> 1 \<le> m \<Longrightarrow> m \<le> 12 \<Longrightarrow> month_value (pad 4 y @ ''-'' @ pad 2 m) = Some ((y - 1970) * 12 + (m - 1))"
  by (simp add: month_value_def rd_pad year_ok_def at_end_def guard_opt_def)

lemma number_to_month_valid:
  assumes "year_ok y" "1 \<le> m" "m \<le> 12"
  shows "number_to_month ((y - 1970) * 12 + (m - 1)) = Some (pad 4 y @ ''-'' @ pad 2 m)"
proof -
  define v where "v = (y - 1970) * 12 + (m - 1)"
  have "ns_dt_floormod v 12 + 1 = m"
  proof -
    have "v mod 12 = m - 1"
      by (rule int_mod_pos_eq [where q = "y - 1970"]) (use assms(2,3) in \<open>simp_all add: v_def\<close>)
    then show ?thesis by (simp add: floormod_mod)
  qed
  moreover have "1970 + (if v \<ge> 0 then v sdiv 12 else - ((- v + 11) sdiv 12)) = y"
  proof (cases "v \<ge> 0")
    case True
    have "v div 12 = y - 1970"
      by (rule int_div_pos_eq [where r = "m - 1"]) (use assms(2,3) in \<open>simp_all add: v_def\<close>)
    with True show ?thesis by (simp add: sdiv_nonneg)
  next
    case False
    then have "(- v + 11) sdiv 12 = (- v + 11) div 12" by (simp add: sdiv_nonneg)
    also have "\<dots> = 1970 - y"
      by (rule int_div_pos_eq [where r = "12 - m"]) (use assms(2,3) in \<open>simp_all add: v_def algebra_simps\<close>)
    finally show ?thesis using False by simp
  qed
  ultimately show ?thesis using assms(1) unfolding v_def [symmetric] number_to_month_def Let_def by simp
qed

lemma week_value_facts:
  "week_value s = Some v \<Longrightarrow> \<exists>y w. year_ok y \<and> 1 \<le> w \<and> w \<le> ns_dt_iso_weeks_in_year y \<and>
     v = (ns_dt_iso_week1_monday y + (w - 1) * 7) * DAY_MS"
  by (auto simp: week_value_def guard_opt_def year_ok_def split: bind_splits if_splits) blast

lemma iso_weeks_bound: "ns_dt_iso_weeks_in_year y \<le> 53"
  by (simp add: ns_dt_iso_weeks_in_year_def Let_def)

lemma week_value_text:
  "year_ok y \<Longrightarrow> 1 \<le> w \<Longrightarrow> w \<le> ns_dt_iso_weeks_in_year y \<Longrightarrow>
     week_value (pad 4 y @ ''-W'' @ pad 2 w) = Some ((ns_dt_iso_week1_monday y + (w - 1) * 7) * DAY_MS)"
  using iso_weeks_bound [of y] by (simp add: week_value_def rd_pad year_ok_def at_end_def guard_opt_def)


lemma year_days_mono: "x \<le> y \<Longrightarrow> year_days x \<le> year_days y"
proof (induction y rule: int_ge_induct)
  case (step i)
  then show ?case using year_days_Suc [of i] by (simp split: if_splits)
qed simp

lemma civil_year_bounds:
  assumes "valid_date y m d"
  shows "year_days (y - 1) + 307 - 719469 \<le> ns_dt_days_from_civil y m d"
    "ns_dt_days_from_civil y m d < year_days y + 307 - 719469"
proof -
  have m: "1 \<le> m" "m \<le> 12" "1 \<le> d" "d \<le> ns_dt_days_in_month y m" using assms by (simp_all add: valid_date_def)
  show "year_days (y - 1) + 307 - 719469 \<le> ns_dt_days_from_civil y m d"
    unfolding days_valid [OF assms]
    using month_cases [OF m(1,2)] m(3) year_days_Suc [of "y - 1"]
    by (elim disjE; simp add: month_days_def split: if_splits)
  show "ns_dt_days_from_civil y m d < year_days y + 307 - 719469"
    unfolding days_valid [OF assms]
    using month_cases [OF m(1,2)] m(4) year_days_Suc [of "y - 1"]
    by (elim disjE; simp add: days_in_month_eq month_days_def split: if_splits)
qed

lemma week_thursday:
  assumes "1 \<le> y" "1 \<le> w" "w \<le> ns_dt_iso_weeks_in_year y"
  shows "fst (ns_dt_civil_from_days (ns_dt_iso_week1_monday y + (w - 1) * 7 + 3)) = y"
proof -
  define z where "z = ns_dt_iso_week1_monday y + (w - 1) * 7 + 3"
  obtain Y m d where z: "valid_date Y m d" "ns_dt_days_from_civil Y m d = z" using every_day by blast
  have jan4: "ns_dt_days_from_civil x 1 4 = year_days (x - 1) + 310 - 719469" for x
    using days_from_civil_closed [of 1 4 x] by (simp add: month_days_def)
  have week1: "ns_dt_days_from_civil x 1 4 - 6 \<le> ns_dt_iso_week1_monday x"
    "ns_dt_iso_week1_monday x \<le> ns_dt_days_from_civil x 1 4" for x
    by (simp_all add: ns_dt_iso_week1_monday_def Let_def floormod_mod)
  have "z \<le> ns_dt_iso_week1_monday (y + 1) - 4"
    using iso_weeks_facts [OF assms(1)] assms(3) by (simp add: z_def)
  then have hi: "z < year_days y + 307 - 719469" using week1(2) [of "y + 1"] jan4 [of "y + 1"] by simp
  have lo: "year_days (y - 1) + 307 - 719469 \<le> z" using week1(1) [of y] jan4 [of y] assms(2) by (simp add: z_def)
  have "Y = y"
  proof (rule ccontr)
    assume "Y \<noteq> y"
    then consider "Y \<le> y - 1" | "y \<le> Y - 1" by linarith
    then show False
    proof cases
      case 1
      with year_days_mono [OF 1] civil_year_bounds(2) [OF z(1)] lo z(2) show False by simp
    next
      case 2
      with year_days_mono [OF 2] civil_year_bounds(1) [OF z(1)] hi z(2) show False by simp
    qed
  qed
  then show ?thesis using civil_from_days_valid [OF z(1)] z(2) by (simp add: z_def)
qed

lemma number_to_week_valid:
  assumes "year_ok y" "1 \<le> w" "w \<le> ns_dt_iso_weeks_in_year y"
  shows "number_to_week ((ns_dt_iso_week1_monday y + (w - 1) * 7) * DAY_MS) = Some (pad 4 y @ ''-W'' @ pad 2 w)"
proof -
  define monday where "monday = ns_dt_iso_week1_monday y + (w - 1) * 7"
  have y: "1 \<le> y" using assms(1) by (simp add: year_ok_def)
  have "(ns_dt_iso_week1_monday y + 3) mod 7 = 0" using iso_weeks_facts [OF y] by simp
  then obtain k where "ns_dt_iso_week1_monday y + 3 = 7 * k" by (auto simp: mod_eq_0_iff_dvd dvd_def)
  then obtain j where j: "monday = 7 * j - 3" by (intro that [of "k + w - 1"]) (simp add: monday_def)
  have "round_div (monday * DAY_MS) (7 * DAY_MS) = j"
    unfolding round_div_def
    by (rule int_div_pos_eq [where r = DAY_MS]) (simp_all add: j DAY_MS_def algebra_simps)
  then have m: "round_div (monday * DAY_MS) (7 * DAY_MS) * 7 - 3 = monday" by (simp add: j)
  obtain Y m' d where c: "ns_dt_civil_from_days (monday + 3) = (Y, m', d)" by (metis prod.exhaust)
  with week_thursday [OF y assms(2,3)] have "Y = y" by (simp add: monday_def)
  moreover have "(monday - ns_dt_iso_week1_monday y) sdiv 7 + 1 = w"
    using assms(2) by (simp add: monday_def sdiv_nonneg)
  ultimately show ?thesis
    using assms unfolding number_to_week_def Let_def monday_def [symmetric] m c by simp
qed


lemma rd_digits_range: "ns_dt_rd_digits p 2 2 = Some (i, r) \<Longrightarrow> 0 \<le> i"
  by (auto simp: ns_dt_rd_digits_def Let_def split: if_splits)

lemma dec_value_bound: "list_all g_ascii_isdigit ds \<Longrightarrow> dec_value acc ds < (acc + 1) * 10 ^ length ds"
proof (induction ds arbitrary: acc)
  case (Cons c ds)
  then have "digit_val c \<le> 9" by (auto simp: digit_val_def g_ascii_isdigit_def)
  then have "(acc * 10 + digit_val c + 1) * 10 ^ length ds \<le> (acc + 1) * 10 * 10 ^ length ds"
    by (intro mult_right_mono) simp_all
  moreover have "dec_value (acc * 10 + digit_val c) ds < (acc * 10 + digit_val c + 1) * 10 ^ length ds"
    using Cons by simp
  ultimately have "dec_value (acc * 10 + digit_val c) ds < (acc + 1) * 10 * 10 ^ length ds" by (rule order_less_le_trans [rotated])
  then show ?case by (simp only: power_Suc length_Cons dec_value_simps mult.assoc)
qed simp

lemma rd_fraction_range: "rd_fraction p = Some (i, r) \<Longrightarrow> 0 \<le> i \<and> i < 1000"
proof -
  assume a: "rd_fraction p = Some (i, r)"
  define ds where "ds = takeWhile g_ascii_isdigit (take 3 p)"
  have i: "ds \<noteq> []" "i = int (dec_value 0 ds) * 10 ^ (3 - length ds)"
    using a by (auto simp: rd_fraction_def Let_def ds_def split: if_splits)
  have "list_all g_ascii_isdigit ds" by (auto simp: ds_def list_all_iff dest: set_takeWhileD)
  then have v: "dec_value 0 ds < 10 ^ length ds" using dec_value_bound [of ds 0] by simp
  have "length ds \<le> 3" using length_takeWhile_le [of g_ascii_isdigit "take 3 p"] by (simp add: ds_def)
  moreover have "length ds \<noteq> 0" using i(1) by simp
  ultimately have "length ds = 1 \<or> length ds = 2 \<or> length ds = 3" by arith
  with v i(2) show ?thesis by (elim disjE) simp_all
qed

lemma rd_time_range: "ns_dt_rd_time p = Some (ms, r) \<Longrightarrow> 0 \<le> ms \<and> ms < DAY_MS"
  unfolding ns_dt_rd_time_def DAY_MS_def
  by (auto split: bind_splits option.splits if_splits dest!: rd_digits_range rd_fraction_range)

lemma serialize_time:
  assumes "0 \<le> ms" "ms < DAY_MS"
  shows "ns_dt_rd_time (ns_form_serialize_time ms) = Some (ms, [])"
proof -
  define h mi s f where "h = ms div 3600000" and "mi = ms div 60000 mod 60" and "s = ms div 1000 mod 60" and "f = ms mod 1000"
  have r: "0 \<le> h" "h \<le> 23" "0 \<le> mi" "mi \<le> 59" "0 \<le> s" "s \<le> 59" "0 \<le> f" "f < 1000"
    using assms by (simp_all add: h_def mi_def s_def f_def DAY_MS_def)
  have ms: "((h * 60 + mi) * 60 + s) * 1000 + f = ms"
  proof -
    define a b where "a = ms div 1000" and "b = a div 60"
    have "ms div 60000 = b" "ms div 3600000 = b div 60"
      using zdiv_zmult2_eq [of 60 ms 1000] zdiv_zmult2_eq [of 60 "ms" 60000] by (simp_all add: a_def b_def)
    then have "h * 60 + mi = b" "b * 60 + s = a" "a * 1000 + f = ms"
      by (simp_all add: h_def mi_def s_def f_def a_def b_def)
    then show ?thesis by simp
  qed
  have ser: "ns_form_serialize_time ms = pad 2 h @ '':'' @ pad 2 mi @
      (if s \<noteq> 0 \<or> f \<noteq> 0 then '':'' @ pad 2 s else []) @ (if f \<noteq> 0 then ''.'' @ pad 3 f else [])"
    using assms(1) by (simp add: ns_form_serialize_time_def Let_def sdiv_nonneg smod_nonneg h_def mi_def s_def f_def)
  have frac: "rd_fraction (pad 3 f) = Some (f, [])"
  proof -
    have t: "takeWhile g_ascii_isdigit (pad 3 f) = pad 3 f"
      using pad_digits [of 3 f] by (simp add: takeWhile_eq_all_conv list_all_iff)
    have l: "length (pad 3 f) = 3" using r pad_length(2) [of f] by simp
    then have "pad 3 f \<noteq> []" by auto
    with l show ?thesis
      using r pad_value [of f 3] by (simp add: rd_fraction_def Let_def t)
  qed
  show ?thesis
    unfolding ser ns_dt_rd_time_def
    using r ms by (simp add: rd_pad frac)
qed


lemma datetime_value_facts:
  assumes "datetime_value s = Some v"
  shows "\<exists>y m d ms. valid_date y m d \<and> year_ok y \<and> 0 \<le> ms \<and> ms < DAY_MS \<and> v = ns_dt_days_from_civil y m d * DAY_MS + ms"
proof -
  obtain y m d p ms r where "ns_dt_rd_date s = Some ((y, m, d), p)" "ns_dt_rd_time (tl p) = Some (ms, r)"
    "v = ns_dt_days_from_civil y m d * DAY_MS + ms"
    using assms by (auto simp: datetime_value_def guard_opt_def split: bind_splits if_splits)
  with rd_date_facts [of s y m d p] rd_time_range [of "tl p" ms r] show ?thesis by blast
qed

lemma number_to_datetime_valid:
  assumes "valid_date y m d" "year_ok y" "0 \<le> ms" "ms < DAY_MS"
  shows "number_to_datetime (ns_dt_days_from_civil y m d * DAY_MS + ms) =
           Some (date_text y m d @ ''T'' @ ns_form_serialize_time ms)"
proof -
  have "(ns_dt_days_from_civil y m d * DAY_MS + ms) div DAY_MS = ns_dt_days_from_civil y m d"
    by (rule int_div_pos_eq [where r = ms]) (use assms in simp_all)
  then show ?thesis using assms by (simp add: number_to_datetime_def Let_def civil_from_days_valid)
qed

lemma datetime_value_text:
  assumes "valid_date y m d" "year_ok y" "0 \<le> ms" "ms < DAY_MS"
  shows "datetime_value (date_text y m d @ ''T'' @ ns_form_serialize_time ms) =
           Some (ns_dt_days_from_civil y m d * DAY_MS + ms)"
  using assms rd_date_text [of y m d "''T'' @ ns_form_serialize_time ms"] serialize_time [of ms]
  by (simp add: datetime_value_def guard_opt_def at_end_def)

lemma time_value_facts: "time_value s = Some v \<Longrightarrow> 0 \<le> v \<and> v < DAY_MS"
  by (auto simp: time_value_def split: bind_splits dest: rd_time_range)

lemma time_value_text: "0 \<le> v \<Longrightarrow> v < DAY_MS \<Longrightarrow> number_to_time v = Some (ns_form_serialize_time v) \<and>
    time_value (ns_form_serialize_time v) = Some v"
  by (simp add: number_to_time_def floormod_mod DAY_MS_def [symmetric] time_value_def serialize_time at_end_def)


lemma value_text_length:
  "year_ok y \<Longrightarrow> valid_date y m d \<Longrightarrow> length (date_text y m d) \<le> 12"
  "year_ok y \<Longrightarrow> 0 \<le> i \<Longrightarrow> i < 100 \<Longrightarrow> length (pad 4 y @ x @ pad 2 i) \<le> 8 + length x"
  "0 \<le> ms \<Longrightarrow> ms < DAY_MS \<Longrightarrow> length (ns_form_serialize_time ms) \<le> 12"
proof -
  show "length (date_text y m d) \<le> 12" if "year_ok y" "valid_date y m d"
  proof -
    have "1 \<le> m" "m \<le> 12" "1 \<le> d" "d \<le> 31" using that valid_bounds(1) [of y m d] by (simp_all add: valid_date_def)
    with that pad_length(1) [of m] pad_length(1) [of d] pad_length(3) [of y] show ?thesis
      by (simp add: date_text_def year_ok_def NS_DT_MAX_YEAR_def)
  qed
  show "length (pad 4 y @ x @ pad 2 i) \<le> 8 + length x" if "year_ok y" "0 \<le> i" "i < 100"
    using that pad_length(1) [of i] pad_length(3) [of y] by (simp add: year_ok_def NS_DT_MAX_YEAR_def)
  show "length (ns_form_serialize_time ms) \<le> 12" if "0 \<le> ms" "ms < DAY_MS"
  proof -
    have "0 \<le> ms div 3600000" "ms div 3600000 < 100" using that by (simp_all add: DAY_MS_def)
    with that show ?thesis
      by (simp add: ns_form_serialize_time_def Let_def sdiv_nonneg smod_nonneg pad_length)
  qed
qed

text \<open>
  for every date, month, week, time and date-and-time input, the number the browser reads from a
  valid value is written back as a valid value with the same number (leading zeros of the year and
  digits beyond the millisecond are what may change), so stepping an input never drifts.
\<close>

theorem form_value_roundtrip:
  assumes "ns_input_value_to_number kind (Some s) = Some v" "32 \<le> buflen"
  shows "\<exists>s'. ns_input_number_to_value kind v buflen = Some s' \<and> ns_input_value_to_number kind (Some s') = Some v"
proof (cases kind)
  case NS_FORM_INPUT_DATE
  with assms obtain y m d where "valid_date y m d" "year_ok y" "v = ns_dt_days_from_civil y m d * DAY_MS"
    by (auto simp: ns_input_value_to_number_def split: if_splits dest: date_value_facts)
  with NS_FORM_INPUT_DATE assms(2) show ?thesis
    using value_text_length(1) [of y m d]
    by (auto simp: ns_input_number_to_value_def number_to_date_valid guard_opt_def ns_input_value_to_number_def date_value_text)
      (simp add: date_text_def)
next
  case NS_FORM_INPUT_MONTH
  with assms obtain y m where "year_ok y" "1 \<le> m" "m \<le> 12" "v = (y - 1970) * 12 + (m - 1)"
    by (auto simp: ns_input_value_to_number_def split: if_splits dest: month_value_facts)
  with NS_FORM_INPUT_MONTH assms(2) show ?thesis
    using value_text_length(2) [of y m "''-''"] number_to_month_valid [of y m] month_value_text [of y m]
    by (simp add: ns_input_number_to_value_def guard_opt_def ns_input_value_to_number_def)
next
  case NS_FORM_INPUT_WEEK
  with assms obtain y w where "year_ok y" "1 \<le> w" "w \<le> ns_dt_iso_weeks_in_year y"
    "v = (ns_dt_iso_week1_monday y + (w - 1) * 7) * DAY_MS"
    by (auto simp: ns_input_value_to_number_def split: if_splits dest: week_value_facts)
  with NS_FORM_INPUT_WEEK assms(2) show ?thesis
    using value_text_length(2) [of y w "''-W''"] number_to_week_valid [of y w] week_value_text [of y w] iso_weeks_bound [of y]
    by (simp add: ns_input_number_to_value_def guard_opt_def ns_input_value_to_number_def)
next
  case NS_FORM_INPUT_TIME
  with assms have "0 \<le> v" "v < DAY_MS"
    by (auto simp: ns_input_value_to_number_def split: if_splits dest: time_value_facts)
  with NS_FORM_INPUT_TIME assms(2) show ?thesis
    using value_text_length(3) [of v] time_value_text [of v]
    by (auto simp: ns_input_number_to_value_def guard_opt_def ns_input_value_to_number_def)
      (simp add: time_value_def ns_dt_rd_time_def ns_dt_rd_digits_def)
next
  case NS_FORM_INPUT_DATETIME
  with assms obtain y m d ms where "valid_date y m d" "year_ok y" "0 \<le> ms" "ms < DAY_MS"
    "v = ns_dt_days_from_civil y m d * DAY_MS + ms"
    by (auto simp: ns_input_value_to_number_def split: if_splits dest: datetime_value_facts)
  with NS_FORM_INPUT_DATETIME assms(2) show ?thesis
    using value_text_length(1) [of y m d] value_text_length(3) [of ms] number_to_datetime_valid [of y m d ms]
      datetime_value_text [of y m d ms]
    by (simp add: ns_input_number_to_value_def guard_opt_def ns_input_value_to_number_def)
qed (use assms in \<open>simp_all add: ns_input_value_to_number_def split: if_splits\<close>)

lemma form_value_roundtrip_witness:
  "\<exists>v s'. ns_input_value_to_number NS_FORM_INPUT_MONTH (Some ''0001970-03'') = Some v \<and>
     ns_input_number_to_value NS_FORM_INPUT_MONTH v 64 = Some s' \<and>
     ns_input_value_to_number NS_FORM_INPUT_MONTH (Some s') = Some v"
proof -
  have "ns_input_value_to_number NS_FORM_INPUT_MONTH (Some ''0001970-03'') = Some 2"
    by (simp add: ns_input_value_to_number_def month_value_def ns_dt_rd_digits_def Let_def digit_val_def ascii_simps
        expect_def guard_opt_def at_end_def NS_DT_MAX_YEAR_def)
  with form_value_roundtrip [OF this, of 64] show ?thesis by auto
qed

end
