(* ===== verification/Media.thy ===== *)
theory Media
  imports Complex_Main Prelude
begin

text \<open>
  What the demuxers share: tracks and samples (\<^verbatim>\<open>mp4.h\<close>), big-endian integers and floating-point
  numbers given by their bits.  Bytes are 8-bit words; sizes, identifiers and durations are natural
  numbers, timestamps integers.
\<close>

definition be_value :: "nat \<Rightarrow> u8 list \<Rightarrow> nat" where
  "be_value acc bs = foldl (\<lambda>v b. v * 256 + unat b) acc bs"

text \<open>The number IEEE 754 gives the bits, None for an infinity or a NaN.\<close>

definition ieee_value :: "nat \<Rightarrow> nat \<Rightarrow> nat \<Rightarrow> rat option" where
  "ieee_value ebits mbits bits =
     (let s = bits div 2 ^ (ebits + mbits); e = bits div 2 ^ mbits mod 2 ^ ebits; m = bits mod 2 ^ mbits;
          bias = 2 ^ (ebits - 1) - 1;
          mag = (if e = 0 then of_nat m / 2 ^ mbits * 2 / 2 ^ bias
                 else (of_nat m / 2 ^ mbits + 1) * 2 ^ e / 2 ^ bias)
      in if e = 2 ^ ebits - 1 then None else Some (if s = 1 then - mag else mag))"

record ns_mp4_track =
  track_ident :: nat
  handler :: cstr
  codec :: cstr
  timescale :: nat
  width :: nat
  height :: nat
  channels :: nat
  sample_rate :: nat
  codec_config :: "u8 list option"
  config_obus :: "u8 list option"
  edit_media_time :: int

record ns_mp4_sample =
  smp_track :: nat
  dts :: int
  pts :: int
  duration :: nat
  keyframe :: bool
  smp_data :: "u8 list"

definition g_ascii_isprint :: "char \<Rightarrow> bool" where
  "g_ascii_isprint c \<longleftrightarrow> 32 \<le> code_of c \<and> code_of c \<le> 126"

end
