(* ===== verification/Webm.thy ===== *)
theory Webm
  imports Media "HOL-Library.Monad_Syntax"
begin

text \<open>
  The incremental WebM demuxer (\<^verbatim>\<open>webm.c\<close>): EBML variable-size integers and element headers, the
  parsers of the headers, tracks, clusters and laced blocks, and the state machine that is fed with
  bytes and queues samples.  Bytes are lists of 8-bit words and a pointer into them is the list from
  there on; sizes, positions and EBML integers are natural numbers, timestamps and durations are
  integers, and section "Ranges" shows that they stay in the ranges of their C types.  The buffer and its
  read offset are one list, the bytes not yet consumed.  A Boolean function that fills in results
  returns an option.
\<close>

unbundle bit_operations_syntax

section \<open>Identifiers and limits\<close>

definition WEBM_ID_EBML :: nat where "WEBM_ID_EBML = 0x1A45DFA3"
definition WEBM_ID_EBML_READ_VERSION :: nat where "WEBM_ID_EBML_READ_VERSION = 0x42F7"
definition WEBM_ID_EBML_MAX_ID_LENGTH :: nat where "WEBM_ID_EBML_MAX_ID_LENGTH = 0x42F2"
definition WEBM_ID_EBML_MAX_SIZE_LENGTH :: nat where "WEBM_ID_EBML_MAX_SIZE_LENGTH = 0x42F3"
definition WEBM_ID_DOC_TYPE :: nat where "WEBM_ID_DOC_TYPE = 0x4282"
definition WEBM_ID_SEGMENT :: nat where "WEBM_ID_SEGMENT = 0x18538067"
definition WEBM_ID_SEEK_HEAD :: nat where "WEBM_ID_SEEK_HEAD = 0x114D9B74"
definition WEBM_ID_INFO :: nat where "WEBM_ID_INFO = 0x1549A966"
definition WEBM_ID_TIMECODE_SCALE :: nat where "WEBM_ID_TIMECODE_SCALE = 0x2AD7B1"
definition WEBM_ID_DURATION :: nat where "WEBM_ID_DURATION = 0x4489"
definition WEBM_ID_TRACKS :: nat where "WEBM_ID_TRACKS = 0x1654AE6B"
definition WEBM_ID_TRACK_ENTRY :: nat where "WEBM_ID_TRACK_ENTRY = 0xAE"
definition WEBM_ID_TRACK_NUMBER :: nat where "WEBM_ID_TRACK_NUMBER = 0xD7"
definition WEBM_ID_TRACK_TYPE :: nat where "WEBM_ID_TRACK_TYPE = 0x83"
definition WEBM_ID_CODEC_ID :: nat where "WEBM_ID_CODEC_ID = 0x86"
definition WEBM_ID_CODEC_PRIVATE :: nat where "WEBM_ID_CODEC_PRIVATE = 0x63A2"
definition WEBM_ID_DEFAULT_DURATION :: nat where "WEBM_ID_DEFAULT_DURATION = 0x23E383"
definition WEBM_ID_VIDEO :: nat where "WEBM_ID_VIDEO = 0xE0"
definition WEBM_ID_PIXEL_WIDTH :: nat where "WEBM_ID_PIXEL_WIDTH = 0xB0"
definition WEBM_ID_PIXEL_HEIGHT :: nat where "WEBM_ID_PIXEL_HEIGHT = 0xBA"
definition WEBM_ID_AUDIO :: nat where "WEBM_ID_AUDIO = 0xE1"
definition WEBM_ID_SAMPLING_FREQUENCY :: nat where "WEBM_ID_SAMPLING_FREQUENCY = 0xB5"
definition WEBM_ID_CHANNELS :: nat where "WEBM_ID_CHANNELS = 0x9F"
definition WEBM_ID_CLUSTER :: nat where "WEBM_ID_CLUSTER = 0x1F43B675"
definition WEBM_ID_CLUSTER_TIMECODE :: nat where "WEBM_ID_CLUSTER_TIMECODE = 0xE7"
definition WEBM_ID_SIMPLE_BLOCK :: nat where "WEBM_ID_SIMPLE_BLOCK = 0xA3"
definition WEBM_ID_BLOCK_GROUP :: nat where "WEBM_ID_BLOCK_GROUP = 0xA0"
definition WEBM_ID_BLOCK :: nat where "WEBM_ID_BLOCK = 0xA1"
definition WEBM_ID_BLOCK_DURATION :: nat where "WEBM_ID_BLOCK_DURATION = 0x9B"
definition WEBM_ID_REFERENCE_BLOCK :: nat where "WEBM_ID_REFERENCE_BLOCK = 0xFB"
definition WEBM_ID_CUES :: nat where "WEBM_ID_CUES = 0x1C53BB6B"
definition WEBM_ID_ATTACHMENTS :: nat where "WEBM_ID_ATTACHMENTS = 0x1941A469"
definition WEBM_ID_CHAPTERS :: nat where "WEBM_ID_CHAPTERS = 0x1043A770"
definition WEBM_ID_TAGS :: nat where "WEBM_ID_TAGS = 0x1254C367"

lemmas webm_ids = WEBM_ID_EBML_def WEBM_ID_EBML_READ_VERSION_def WEBM_ID_EBML_MAX_ID_LENGTH_def
  WEBM_ID_EBML_MAX_SIZE_LENGTH_def WEBM_ID_DOC_TYPE_def WEBM_ID_SEGMENT_def WEBM_ID_SEEK_HEAD_def
  WEBM_ID_INFO_def WEBM_ID_TIMECODE_SCALE_def WEBM_ID_DURATION_def WEBM_ID_TRACKS_def WEBM_ID_TRACK_ENTRY_def
  WEBM_ID_TRACK_NUMBER_def WEBM_ID_TRACK_TYPE_def WEBM_ID_CODEC_ID_def WEBM_ID_CODEC_PRIVATE_def
  WEBM_ID_DEFAULT_DURATION_def WEBM_ID_VIDEO_def WEBM_ID_PIXEL_WIDTH_def WEBM_ID_PIXEL_HEIGHT_def
  WEBM_ID_AUDIO_def WEBM_ID_SAMPLING_FREQUENCY_def WEBM_ID_CHANNELS_def WEBM_ID_CLUSTER_def
  WEBM_ID_CLUSTER_TIMECODE_def WEBM_ID_SIMPLE_BLOCK_def WEBM_ID_BLOCK_GROUP_def WEBM_ID_BLOCK_def
  WEBM_ID_BLOCK_DURATION_def WEBM_ID_REFERENCE_BLOCK_def WEBM_ID_CUES_def WEBM_ID_ATTACHMENTS_def
  WEBM_ID_CHAPTERS_def WEBM_ID_TAGS_def

definition WEBM_MAX_TRACKS :: nat where "WEBM_MAX_TRACKS = 64"
definition WEBM_MAX_CODEC_PRIVATE_BYTES :: nat where "WEBM_MAX_CODEC_PRIVATE_BYTES = 1048576"
definition WEBM_MAX_BLOCK_BYTES :: nat where "WEBM_MAX_BLOCK_BYTES = 16777216"
definition WEBM_MAX_BLOCK_GROUP_BYTES :: nat where "WEBM_MAX_BLOCK_GROUP_BYTES = WEBM_MAX_BLOCK_BYTES + 262144"
definition WEBM_MAX_TRACKS_BYTES :: nat where "WEBM_MAX_TRACKS_BYTES = 33554432"
definition WEBM_MAX_INFO_BYTES :: nat where "WEBM_MAX_INFO_BYTES = 1048576"
definition WEBM_MAX_EBML_HEADER_BYTES :: nat where "WEBM_MAX_EBML_HEADER_BYTES = 65536"
definition WEBM_MAX_LACED_FRAMES :: nat where "WEBM_MAX_LACED_FRAMES = 256"
definition WEBM_MAX_APPEND_CHUNK_BYTES :: nat where "WEBM_MAX_APPEND_CHUNK_BYTES = 16777216"
definition WEBM_NANOSECONDS_PER_SECOND :: nat where "WEBM_NANOSECONDS_PER_SECOND = 1000000000"
definition WEBM_DEFAULT_TIMECODE_SCALE :: nat where "WEBM_DEFAULT_TIMECODE_SCALE = 1000000"
definition WEBM_MAX_TIMECODE_SCALE :: nat where "WEBM_MAX_TIMECODE_SCALE = 1000000000000"
definition WEBM_MAX_TIMESTAMP :: int where "WEBM_MAX_TIMESTAMP = 4611686018427387904"
definition WEBM_MAX_OPUS_PACKET_NS :: nat where "WEBM_MAX_OPUS_PACKET_NS = 120000000"
definition U32_MAX :: nat where "U32_MAX = 4294967295"

section \<open>Variable-size integers and element headers\<close>

datatype 'a header_result = HEADER_NEED_MORE | HEADER_COMPLETE 'a | HEADER_INVALID

definition vint_length :: "u8 \<Rightarrow> nat" where
  "vint_length first_byte =
     (case find (\<lambda>l. first_byte AND drop_bit (l - 1) 0x80 \<noteq> 0) [1, 2, 3, 4, 5, 6, 7, 8] of
        None \<Rightarrow> 0 | Some l \<Rightarrow> l)"

text \<open>The value, its length and whether all its bits are ones.\<close>

definition read_vint :: "u8 list \<Rightarrow> nat \<Rightarrow> bool \<Rightarrow> (nat \<times> nat \<times> bool) header_result" where
  "read_vint data max_length keep_marker =
     (if data = [] then HEADER_NEED_MORE
      else
        let n = vint_length (hd data) in
        if n = 0 \<or> n > max_length then HEADER_INVALID
        else if length data < n then HEADER_NEED_MORE
        else
          let raw = be_value (unat (hd data)) (take (n - 1) (tl data));
              bits = be_value (unat (hd data AND drop_bit n 0xFF)) (take (n - 1) (tl data))
          in HEADER_COMPLETE (if keep_marker then raw else bits, n, bits = 2 ^ (7 * n) - 1))"

record element_header =
  eh_id :: nat
  eh_size :: nat
  unknown_size :: bool
  header_length :: nat

definition read_element_header :: "u8 list \<Rightarrow> element_header header_result" where
  "read_element_header data =
     (case read_vint data 4 True of
        HEADER_NEED_MORE \<Rightarrow> HEADER_NEED_MORE
      | HEADER_INVALID \<Rightarrow> HEADER_INVALID
      | HEADER_COMPLETE (i, id_length, id_all_ones) \<Rightarrow>
          if id_all_ones \<or> i mod 2 ^ (7 * id_length) = 0 then HEADER_INVALID
          else (case read_vint (drop id_length data) 8 False of
                  HEADER_NEED_MORE \<Rightarrow> HEADER_NEED_MORE
                | HEADER_INVALID \<Rightarrow> HEADER_INVALID
                | HEADER_COMPLETE (sz, size_length, size_all_ones) \<Rightarrow>
                    HEADER_COMPLETE \<lparr> eh_id = i, eh_size = (if size_all_ones then 0 else sz),
                      unknown_size = size_all_ones, header_length = id_length + size_length \<rparr>))"

section \<open>Elements inside an element\<close>

type_synonym child_element = "nat \<times> u8 list"

datatype child_step = Child_End | Child_Bad | Child child_element "u8 list"

definition iterator_next :: "u8 list \<Rightarrow> child_step" where
  "iterator_next data =
     (if data = [] then Child_End
      else (case read_element_header data of
              HEADER_COMPLETE h \<Rightarrow>
                if unknown_size h \<or> eh_size h > length data - header_length h then Child_Bad
                else Child (eh_id h, take (eh_size h) (drop (header_length h) data))
                       (drop (header_length h + eh_size h) data)
            | _ \<Rightarrow> Child_Bad))"

lemma vint_length_le: "vint_length b \<le> 8"
  by (auto simp: vint_length_def)

lemma read_vint_length: "read_vint data m k = HEADER_COMPLETE (v, n, a) \<Longrightarrow> 1 \<le> n \<and> n \<le> length data \<and> n \<le> m \<and> n \<le> 8"
  using vint_length_le [of "hd data"] by (auto simp: read_vint_def Let_def split: if_splits)

lemma header_length_bounds:
  "read_element_header data = HEADER_COMPLETE h \<Longrightarrow> 2 \<le> header_length h \<and> header_length h \<le> length data"
  by (auto simp: read_element_header_def split: header_result.splits prod.splits if_splits dest!: read_vint_length)

lemma iterator_next_shorter: "iterator_next data = Child c rest \<Longrightarrow> length rest < length data"
  using header_length_bounds [of data]
  by (auto simp: iterator_next_def split: header_result.splits if_splits)

text \<open>
  The loop over the children: the handler gets each child and the loop's variables; it and a malformed
  child end it with failure.
\<close>

function for_children :: "(child_element \<Rightarrow> 's \<Rightarrow> 's option) \<Rightarrow> u8 list \<Rightarrow> 's \<Rightarrow> 's option" where
  "for_children f data s =
     (case iterator_next data of
        Child_End \<Rightarrow> Some s
      | Child_Bad \<Rightarrow> None
      | Child c rest \<Rightarrow> (case f c s of None \<Rightarrow> None | Some s' \<Rightarrow> for_children f rest s'))"
  by pat_completeness auto
termination
  by (relation "measure (\<lambda>(f, data, s). length data)") (auto dest: iterator_next_shorter)

declare for_children.simps [simp del]

definition read_unsigned :: "child_element \<Rightarrow> nat option" where
  "read_unsigned e = (if length (snd e) > 8 then None else Some (be_value 0 (snd e)))"

definition read_signed :: "child_element \<Rightarrow> int option" where
  "read_signed e =
     (if length (snd e) > 8 then None
      else if snd e = [] then Some 0
      else Some (int (be_value 0 (snd e)) - (if hd (snd e) AND 0x80 \<noteq> 0 then 256 ^ length (snd e) else 0)))"

text \<open>A floating-point number: its bits, as single or as double.\<close>

datatype ebml_float = Float_Zero | Float_Single nat | Float_Double nat

definition read_float :: "child_element \<Rightarrow> ebml_float option" where
  "read_float e =
     (case read_unsigned e of None \<Rightarrow> None
      | Some bits \<Rightarrow>
          if length (snd e) = 0 then Some Float_Zero
          else if length (snd e) = 4 then Some (Float_Single bits)
          else if length (snd e) = 8 then Some (Float_Double bits)
          else None)"

definition float_value :: "ebml_float \<Rightarrow> rat option" where
  "float_value f =
     (case f of Float_Zero \<Rightarrow> Some 0 | Float_Single b \<Rightarrow> ieee_value 8 23 b | Float_Double b \<Rightarrow> ieee_value 11 52 b)"

definition read_string :: "child_element \<Rightarrow> nat \<Rightarrow> cstr" where
  "read_string e out_size =
     map (\<lambda>b. char_at (unat b)) (take (out_size - 1) (takeWhile (\<lambda>b. b \<noteq> 0) (snd e)))"

section \<open>Tracks and samples\<close>

record webm_track =
  public :: ns_mp4_track
  default_duration_ns :: nat
  is_opus :: bool
  last_frame_duration :: int
  has_held_block :: bool
  held_timestamp :: int
  held_keyframe :: bool
  held_frames :: "u8 list list"

definition release_held_block :: "webm_track \<Rightarrow> webm_track" where
  "release_held_block t = t\<lparr> held_frames := [], has_held_block := False \<rparr>"

definition find_track :: "webm_track list \<Rightarrow> nat \<Rightarrow> webm_track option" where
  "find_track ts number = find (\<lambda>t. track_ident (public t) = number) ts"

definition timecode_scale_is_exact :: "nat \<Rightarrow> bool" where
  "timecode_scale_is_exact scale \<longleftrightarrow> WEBM_NANOSECONDS_PER_SECOND mod scale = 0"

definition timescale_for :: "nat \<Rightarrow> nat" where
  "timescale_for scale =
     (if timecode_scale_is_exact scale then WEBM_NANOSECONDS_PER_SECOND div scale else WEBM_NANOSECONDS_PER_SECOND)"

definition tick_multiplier :: "nat \<Rightarrow> nat" where
  "tick_multiplier scale = (if timecode_scale_is_exact scale then 1 else scale)"

definition nanoseconds_to_ticks :: "nat \<Rightarrow> nat \<Rightarrow> int" where
  "nanoseconds_to_ticks ns ts =
     (let per_tick = WEBM_NANOSECONDS_PER_SECOND div ts;
          ticks = ns div per_tick + (if ns mod per_tick * 2 \<ge> per_tick then 1 else 0)
      in min (int ticks) WEBM_MAX_TIMESTAMP)"

definition fill_spread_durations :: "int \<Rightarrow> nat \<Rightarrow> int list" where
  "fill_spread_durations total0 count =
     (let total = (if total0 < 0 then 0 else total0);
          base = total div int count; remainder = total mod int count
      in map (\<lambda>i. base + (if int i < remainder then 1 else 0)) [0..<count])"

text \<open>The samples of a group of frames and the track with the duration it has seen last.\<close>

fun emit_frame_group :: "webm_track \<Rightarrow> int \<Rightarrow> bool \<Rightarrow> u8 list list \<Rightarrow> int list \<Rightarrow> webm_track \<times> ns_mp4_sample list" where
  "emit_frame_group t timestamp key (f # fs) (d # ds) =
     (let dur = max 0 (min d (int U32_MAX));
          smp = \<lparr> smp_track = track_ident (public t), dts = timestamp, pts = timestamp, duration = nat dur,
                  keyframe = key, smp_data = f \<rparr>;
          t' = (if dur > 0 then t\<lparr> last_frame_duration := dur \<rparr> else t)
      in case emit_frame_group t' (timestamp + dur) key fs ds of (t2, out) \<Rightarrow> (t2, smp # out))"
| "emit_frame_group t timestamp key _ _ = (t, [])"

text \<open>The samples of the held block; \<open>next_ts\<close> is the timestamp of the block that comes next, if any.\<close>

definition resolve_held_block :: "int option \<Rightarrow> webm_track \<Rightarrow> webm_track \<times> ns_mp4_sample list" where
  "resolve_held_block next_ts t =
     (if \<not> has_held_block t then (t, [])
      else
        let count = length (held_frames t);
            total0 = last_frame_duration t * int count;
            total = (case next_ts of None \<Rightarrow> total0
                     | Some n \<Rightarrow> if n > held_timestamp t then n - held_timestamp t else total0)
        in case emit_frame_group t (held_timestamp t) (held_keyframe t) (held_frames t) (fill_spread_durations total count) of
             (t', out) \<Rightarrow> (release_held_block t', out))"

datatype parse_context = CONTEXT_TOP | CONTEXT_CLUSTER

record ns_webm_demuxer =
  wm_input :: "u8 list"
  wm_position :: nat
  wm_error :: bool
  skip_remaining :: nat
  wm_context :: parse_context
  cluster_has_end :: bool
  cluster_end :: nat
  cluster_has_timecode :: bool
  cluster_timecode :: nat
  timecode_scale :: nat
  segment_duration :: "(ebml_float \<times> nat) option"   \<comment> \<open>the declared duration and its scale, \<open>has_segment_duration\<close> in one\<close>
  tracks :: "webm_track list"
  has_init :: bool
  ready :: "ns_mp4_sample list"

definition resolve_all_held_blocks :: "ns_webm_demuxer \<Rightarrow> ns_webm_demuxer" where
  "resolve_all_held_blocks d =
     (let rs = map (resolve_held_block None) (tracks d)
      in d\<lparr> tracks := map fst rs, ready := ready d @ concat (map snd rs) \<rparr>)"

definition drop_all_held_blocks :: "ns_webm_demuxer \<Rightarrow> ns_webm_demuxer" where
  "drop_all_held_blocks d = d\<lparr> tracks := map release_held_block (tracks d) \<rparr>"

definition set_timescale :: "nat \<Rightarrow> webm_track \<Rightarrow> webm_track" where
  "set_timescale scale t = t\<lparr> public := (public t)\<lparr> timescale := timescale_for scale \<rparr> \<rparr>"

definition apply_timecode_scale :: "nat \<Rightarrow> ns_webm_demuxer \<Rightarrow> ns_webm_demuxer" where
  "apply_timecode_scale scale d0 =
     (let d = (if scale \<noteq> timecode_scale d0 then resolve_all_held_blocks d0 else d0)
      in d\<lparr> timecode_scale := scale, tracks := map (set_timescale scale) (tracks d) \<rparr>)"

section \<open>Blocks\<close>

definition opus_packet_duration_ns :: "u8 list \<Rightarrow> nat" where
  "opus_packet_duration_ns packet =
     (if packet = [] then 0
      else
        let configuration = unat (drop_bit 3 (hd packet));
            frame_ns = (if configuration < 12 then [10000000, 20000000, 40000000, 60000000] ! (configuration mod 4)
                        else if configuration < 16 then (if odd configuration then 20000000 else 10000000)
                        else [2500000, 5000000, 10000000, 20000000] ! (configuration mod 4));
            code = unat (hd packet AND 3);
            frame_count = (if code = 0 then 1 else if code = 1 \<or> code = 2 then 2
                           else if length packet < 2 then 0 else unat (packet ! 1 AND 0x3F));
            total = frame_ns * frame_count
        in if total = 0 \<or> total > WEBM_MAX_OPUS_PACKET_NS then 0 else total)"

text \<open>One Xiph lace size: the size and the data behind it.\<close>

fun xiph_size :: "nat \<Rightarrow> u8 list \<Rightarrow> nat \<Rightarrow> (nat \<times> u8 list) option" where
  "xiph_size len [] acc = None"
| "xiph_size len (b # r) acc =
     (let acc' = acc + unat b in
      if acc' > len then None else if b = 255 then xiph_size len r acc' else Some (acc', r))"

fun read_xiph_lace_sizes :: "nat \<Rightarrow> nat \<Rightarrow> u8 list \<Rightarrow> nat \<Rightarrow> (nat list \<times> nat \<times> u8 list) option" where
  "read_xiph_lace_sizes 0 len data used = Some ([], used, data)"
| "read_xiph_lace_sizes (Suc k) len data used =
     do { (sz, r) \<leftarrow> xiph_size len data 0;
          if used + sz > len then None
          else do { (szs, used_end, r') \<leftarrow> read_xiph_lace_sizes k len r (used + sz); Some (sz # szs, used_end, r') } }"

text \<open>\<open>previous\<close> is None for the first size.\<close>

fun read_ebml_lace_sizes :: "nat \<Rightarrow> nat \<Rightarrow> u8 list \<Rightarrow> int option \<Rightarrow> nat \<Rightarrow> (nat list \<times> nat \<times> u8 list) option" where
  "read_ebml_lace_sizes 0 len data previous used = Some ([], used, data)"
| "read_ebml_lace_sizes (Suc k) len data previous used =
     (case read_vint data 8 False of
        HEADER_COMPLETE (raw, n, all_ones) \<Rightarrow>
          let sz = (case previous of None \<Rightarrow> int raw | Some p \<Rightarrow> p + (int raw - (2 ^ (7 * n - 1) - 1))) in
          if previous = None \<and> raw > len then None
          else if sz < 0 \<or> nat sz > len then None
          else if used + nat sz > len then None
          else do { (szs, used_end, r') \<leftarrow> read_ebml_lace_sizes k len (drop n data) (Some sz) (used + nat sz);
                    Some (nat sz # szs, used_end, r') }
      | _ \<Rightarrow> None)"

record parsed_block =
  track_number :: nat
  relative_timecode :: int
  flags :: u8
  frame_offsets :: "nat list"
  frame_sizes :: "nat list"

text \<open>The offsets of consecutive frames.\<close>

fun offsets_from :: "nat \<Rightarrow> nat list \<Rightarrow> nat list" where
  "offsets_from off [] = []"
| "offsets_from off (s # ss) = off # offsets_from (off + s) ss"

definition lace_sizes :: "nat \<Rightarrow> nat \<Rightarrow> nat \<Rightarrow> u8 list \<Rightarrow> (nat list \<times> nat \<times> u8 list) option" where
  "lace_sizes lacing count len data =
     (if lacing = 1 then read_xiph_lace_sizes (count - 1) len data 0
      else if lacing = 3 then read_ebml_lace_sizes (count - 1) len data None 0
      else
        let remaining = length data in
        if remaining mod count \<noteq> 0 then None
        else Some (replicate (count - 1) (remaining div count), remaining - remaining div count, data))"

definition parse_block_payload :: "u8 list \<Rightarrow> parsed_block option" where
  "parse_block_payload data =
     (case read_vint data 8 False of
        HEADER_COMPLETE (number, n, all_ones) \<Rightarrow>
          if all_ones then None
          else if length data - n < 3 then None
          else
            let rel = sint ((ucast (data ! n) :: u16) * 256 OR ucast (data ! (n + 1)));
                fl = data ! (n + 2);
                off = n + 3;
                lacing = unat (drop_bit 1 fl AND 3);
                mk = (\<lambda>offs szs. \<lparr> track_number = number, relative_timecode = rel, flags = fl,
                        frame_offsets = offs, frame_sizes = szs \<rparr>)
            in if lacing = 0 then Some (mk [off] [length data - off])
               else if off \<ge> length data then None
               else
                 let count = unat (data ! off) + 1 in
                 (case lace_sizes lacing count (length data) (drop (off + 1) data) of
                    None \<Rightarrow> None
                  | Some (szs, used, rest) \<Rightarrow>
                      let off' = length data - length rest in
                      if used > length data - off' then None
                      else
                        let szs2 = szs @ [length data - off' - used]
                        in Some (mk (offsets_from off' szs2) szs2))
      | _ \<Rightarrow> None)"

definition block_timestamp :: "ns_webm_demuxer \<Rightarrow> int \<Rightarrow> int option" where
  "block_timestamp d rel =
     (let ticks = int (cluster_timecode d) + rel;
          multiplier = int (tick_multiplier (timecode_scale d));
          limit = WEBM_MAX_TIMESTAMP div multiplier
      in if ticks > limit \<or> ticks < - limit then None else Some (ticks * multiplier))"

fun opus_durations :: "nat \<Rightarrow> u8 list list \<Rightarrow> int list option" where
  "opus_durations ts [] = Some []"
| "opus_durations ts (f # fs) =
     (let ns = opus_packet_duration_ns f in
      if ns = 0 then None
      else (case opus_durations ts fs of None \<Rightarrow> None | Some ds \<Rightarrow> Some (nanoseconds_to_ticks ns ts # ds)))"

text \<open>The durations of the frames of a block, None where nothing tells them.\<close>

definition known_durations :: "ns_webm_demuxer \<Rightarrow> webm_track \<Rightarrow> nat option \<Rightarrow> u8 list list \<Rightarrow> int list option" where
  "known_durations d t block_duration frames =
     (case block_duration of
        Some bd \<Rightarrow>
          let multiplier = tick_multiplier (timecode_scale d);
              cap = U32_MAX * WEBM_MAX_LACED_FRAMES;
              total = (if bd > cap div multiplier then cap else bd * multiplier)
          in Some (fill_spread_durations (int total) (length frames))
      | None \<Rightarrow>
          if default_duration_ns t > 0
          then Some (replicate (length frames) (nanoseconds_to_ticks (default_duration_ns t) (timescale (public t))))
          else if is_opus t then opus_durations (timescale (public t)) frames
          else None)"

definition block_frames :: "u8 list \<Rightarrow> parsed_block \<Rightarrow> u8 list list" where
  "block_frames data b = map2 (\<lambda>off sz. take sz (drop off data)) (frame_offsets b) (frame_sizes b)"

fun put_track :: "webm_track \<Rightarrow> webm_track list \<Rightarrow> webm_track list" where
  "put_track t [] = []"
| "put_track t (u # us) =
     (if track_ident (public u) = track_ident (public t) then t # us else u # put_track t us)"

definition store_block :: "ns_webm_demuxer \<Rightarrow> webm_track \<Rightarrow> int \<Rightarrow> bool \<Rightarrow> nat option \<Rightarrow> u8 list list \<Rightarrow> ns_webm_demuxer" where
  "store_block d t0 timestamp key block_duration frames =
     (case resolve_held_block (Some timestamp) t0 of
        (t1, out1) \<Rightarrow>
          (case known_durations d t1 block_duration frames of
             Some ds \<Rightarrow>
               (case emit_frame_group t1 timestamp key frames ds of
                  (t2, out2) \<Rightarrow> d\<lparr> tracks := put_track t2 (tracks d), ready := ready d @ out1 @ out2 \<rparr>)
           | None \<Rightarrow>
               let t2 = t1\<lparr> has_held_block := True, held_timestamp := timestamp, held_keyframe := key,
                            held_frames := frames \<rparr>
               in d\<lparr> tracks := put_track t2 (tracks d), ready := ready d @ out1 \<rparr>))"

definition handle_block :: "ns_webm_demuxer \<Rightarrow> u8 list \<Rightarrow> bool \<Rightarrow> nat option \<Rightarrow> bool \<Rightarrow> ns_webm_demuxer option" where
  "handle_block d data is_simple block_duration has_reference =
     (case parse_block_payload data of
        None \<Rightarrow> None
      | Some b \<Rightarrow>
          if \<not> cluster_has_timecode d then None
          else (case block_timestamp d (relative_timecode b) of
                  None \<Rightarrow> None
                | Some timestamp \<Rightarrow>
                    (case find_track (tracks d) (track_number b) of
                       None \<Rightarrow> Some d
                     | Some t \<Rightarrow>
                         let key = (if is_simple then flags b AND 0x80 \<noteq> 0 else \<not> has_reference)
                         in Some (store_block d t timestamp key block_duration (block_frames data b)))))"

text \<open>The variables of the loop over a block group.\<close>

record block_group =
  bg_block :: "u8 list option"
  bg_duration :: "nat option"
  bg_reference :: bool

definition block_group_child :: "child_element \<Rightarrow> block_group \<Rightarrow> block_group option" where
  "block_group_child c g =
     (if fst c = WEBM_ID_BLOCK then (if bg_block g \<noteq> None then None else Some (g\<lparr> bg_block := Some (snd c) \<rparr>))
      else if fst c = WEBM_ID_BLOCK_DURATION then
        (case read_unsigned c of None \<Rightarrow> None | Some v \<Rightarrow> Some (g\<lparr> bg_duration := Some v \<rparr>))
      else if fst c = WEBM_ID_REFERENCE_BLOCK then
        (case read_signed c of None \<Rightarrow> None | Some _ \<Rightarrow> Some (g\<lparr> bg_reference := True \<rparr>))
      else Some g)"

definition parse_block_group :: "ns_webm_demuxer \<Rightarrow> u8 list \<Rightarrow> ns_webm_demuxer option" where
  "parse_block_group d payload =
     (case for_children block_group_child payload \<lparr> bg_block = None, bg_duration = None, bg_reference = False \<rparr> of
        None \<Rightarrow> None
      | Some g \<Rightarrow>
          (case bg_block g of
             None \<Rightarrow> None
           | Some data \<Rightarrow>
               if length data > WEBM_MAX_BLOCK_BYTES then None
               else handle_block d data False (bg_duration g) (bg_reference g)))"

section \<open>Headers\<close>

definition ebml_header_child :: "child_element \<Rightarrow> cstr \<Rightarrow> cstr option" where
  "ebml_header_child c doc_type =
     (let limited = (\<lambda>m. case read_unsigned c of None \<Rightarrow> None | Some v \<Rightarrow> if v > m then None else Some doc_type) in
      if fst c = WEBM_ID_DOC_TYPE then Some (read_string c 16)
      else if fst c = WEBM_ID_EBML_READ_VERSION then limited 1
      else if fst c = WEBM_ID_EBML_MAX_ID_LENGTH then limited 4
      else if fst c = WEBM_ID_EBML_MAX_SIZE_LENGTH then limited 8
      else Some doc_type)"

definition parse_ebml_header :: "u8 list \<Rightarrow> bool" where
  "parse_ebml_header payload =
     (case for_children ebml_header_child payload ''matroska'' of
        None \<Rightarrow> False
      | Some doc_type \<Rightarrow> doc_type = ''webm'' \<or> doc_type = ''matroska'')"

text \<open>The timecode scale and the duration, None where it is missing, negative or not finite.\<close>

definition info_child :: "child_element \<Rightarrow> nat \<times> ebml_float option \<Rightarrow> (nat \<times> ebml_float option) option" where
  "info_child c v =
     (if fst c = WEBM_ID_TIMECODE_SCALE then
        (case read_unsigned c of None \<Rightarrow> None
         | Some scale \<Rightarrow> if scale = 0 \<or> scale > WEBM_MAX_TIMECODE_SCALE then None else Some (scale, snd v))
      else if fst c = WEBM_ID_DURATION then
        (case read_float c of None \<Rightarrow> None
         | Some f \<Rightarrow> Some (fst v, case float_value f of None \<Rightarrow> None | Some r \<Rightarrow> if r \<ge> 0 then Some f else None))
      else Some v)"

definition parse_info :: "ns_webm_demuxer \<Rightarrow> u8 list \<Rightarrow> ns_webm_demuxer option" where
  "parse_info d payload =
     (case for_children info_child payload (WEBM_DEFAULT_TIMECODE_SCALE, None) of
        None \<Rightarrow> None
      | Some (scale, dur) \<Rightarrow>
          Some ((apply_timecode_scale scale d)\<lparr> segment_duration := map_option (\<lambda>f. (f, scale)) dur \<rparr>))"

definition known_codecs :: "(cstr \<times> cstr) list" where
  "known_codecs =
     [(''V_VP9'', ''vp09''), (''V_VP8'', ''vp08''), (''V_AV1'', ''av01''), (''A_OPUS'', ''Opus''),
      (''A_VORBIS'', ''Vorb''), (''A_FLAC'', ''fLaC''), (''V_MPEG4/ISO/AVC'', ''avc1''),
      (''V_MPEGH/ISO/HEVC'', ''hvc1''), (''A_AAC'', ''mp4a'')]"

definition assign_codec_name :: "cstr \<Rightarrow> cstr" where
  "assign_codec_name codec_ident =
     (case find (\<lambda>(k, n). codec_ident = k \<or> g_str_has_prefix codec_ident ''A_AAC/'' \<and> k = ''A_AAC'') known_codecs of
        Some (k, n) \<Rightarrow> n
      | None \<Rightarrow>
          let name = (case strchr codec_ident (CHR ''_'') of Some u \<Rightarrow> tl u | None \<Rightarrow> codec_ident)
          in map (\<lambda>c. if g_ascii_isprint c then c else CHR ''?'') (take 4 name))"

definition track_video_child :: "child_element \<Rightarrow> webm_track \<Rightarrow> webm_track option" where
  "track_video_child c t =
     (if fst c \<noteq> WEBM_ID_PIXEL_WIDTH \<and> fst c \<noteq> WEBM_ID_PIXEL_HEIGHT then Some t
      else (case read_unsigned c of None \<Rightarrow> None
            | Some v \<Rightarrow>
                let clamped = min v 2147483647 in
                Some (if fst c = WEBM_ID_PIXEL_WIDTH then t\<lparr> public := (public t)\<lparr> width := clamped \<rparr> \<rparr>
                      else t\<lparr> public := (public t)\<lparr> height := clamped \<rparr> \<rparr>)))"

definition parse_track_video :: "webm_track \<Rightarrow> child_element \<Rightarrow> webm_track option" where
  "parse_track_video t video = for_children track_video_child (snd video) t"

definition plausible_rate :: "ebml_float \<Rightarrow> nat" where
  "plausible_rate f =
     (case float_value f of None \<Rightarrow> 0
      | Some r \<Rightarrow> if r > 0 \<and> r < 10000000 then nat \<lfloor>r + 1 / 2\<rfloor> else 0)"

definition track_audio_child :: "child_element \<Rightarrow> webm_track \<Rightarrow> webm_track option" where
  "track_audio_child c t =
     (if fst c = WEBM_ID_SAMPLING_FREQUENCY then
        (case read_float c of None \<Rightarrow> None
         | Some f \<Rightarrow> Some (t\<lparr> public := (public t)\<lparr> sample_rate := plausible_rate f \<rparr> \<rparr>))
      else if fst c = WEBM_ID_CHANNELS then
        (case read_unsigned c of None \<Rightarrow> None
         | Some v \<Rightarrow> Some (t\<lparr> public := (public t)\<lparr> channels := min v 1024 \<rparr> \<rparr>))
      else Some t)"

definition parse_track_audio :: "webm_track \<Rightarrow> child_element \<Rightarrow> webm_track option" where
  "parse_track_audio t audio = for_children track_audio_child (snd audio) t"

text \<open>The variables of the loop over a track entry.\<close>

record track_vars =
  tv_track :: webm_track
  tv_number :: nat
  tv_type :: nat
  tv_codec :: "cstr option"

definition track_entry_child :: "child_element \<Rightarrow> track_vars \<Rightarrow> track_vars option" where
  "track_entry_child c v =
     (if fst c = WEBM_ID_TRACK_NUMBER then map_option (\<lambda>n. v\<lparr> tv_number := n \<rparr>) (read_unsigned c)
      else if fst c = WEBM_ID_TRACK_TYPE then map_option (\<lambda>n. v\<lparr> tv_type := n \<rparr>) (read_unsigned c)
      else if fst c = WEBM_ID_CODEC_ID then Some (v\<lparr> tv_codec := Some (read_string c 64) \<rparr>)
      else if fst c = WEBM_ID_CODEC_PRIVATE then
        (if length (snd c) > WEBM_MAX_CODEC_PRIVATE_BYTES then None
         else Some (v\<lparr> tv_track := (tv_track v)\<lparr> public := (public (tv_track v))\<lparr> codec_config := Some (snd c) \<rparr> \<rparr> \<rparr>))
      else if fst c = WEBM_ID_DEFAULT_DURATION then
        map_option (\<lambda>n. v\<lparr> tv_track := (tv_track v)\<lparr> default_duration_ns := n \<rparr> \<rparr>) (read_unsigned c)
      else if fst c = WEBM_ID_VIDEO then map_option (\<lambda>t. v\<lparr> tv_track := t \<rparr>) (parse_track_video (tv_track v) c)
      else if fst c = WEBM_ID_AUDIO then map_option (\<lambda>t. v\<lparr> tv_track := t \<rparr>) (parse_track_audio (tv_track v) c)
      else Some v)"

definition new_track :: "nat \<Rightarrow> webm_track" where
  "new_track scale =
     \<lparr> public = \<lparr> track_ident = 0, handler = [], codec = [], timescale = timescale_for scale, width = 0, height = 0,
         channels = 1, sample_rate = 8000, codec_config = None, config_obus = None, edit_media_time = -1 \<rparr>,
       default_duration_ns = 0, is_opus = False, last_frame_duration = 0, has_held_block = False,
       held_timestamp = 0, held_keyframe = False, held_frames = [] \<rparr>"

definition finish_track :: "nat \<Rightarrow> nat \<Rightarrow> cstr \<Rightarrow> webm_track \<Rightarrow> webm_track" where
  "finish_track number type codec_ident t =
     (let pub = public t;
          pub = pub\<lparr> track_ident := number, handler := (if type = 1 then ''vide'' else ''soun''),
                     codec := assign_codec_name codec_ident \<rparr>;
          pub = (if type = 1 then pub\<lparr> channels := 0, sample_rate := 0 \<rparr> else pub);
          pub = (case codec_config pub of
                   Some cfg \<Rightarrow> if codec_ident = ''V_AV1'' \<and> length cfg \<ge> 4 then pub\<lparr> config_obus := Some (drop 4 cfg) \<rparr> else pub
                 | None \<Rightarrow> pub)
      in t\<lparr> public := pub, is_opus := codec_ident = ''A_OPUS'' \<rparr>)"

text \<open>None for an entry that is refused; no track for one that is neither video nor audio.\<close>

definition parse_track_entry :: "nat \<Rightarrow> child_element \<Rightarrow> webm_track option option" where
  "parse_track_entry scale entry =
     (case for_children track_entry_child (snd entry)
             \<lparr> tv_track = new_track scale, tv_number = 0, tv_type = 0, tv_codec = None \<rparr> of
        None \<Rightarrow> None
      | Some v \<Rightarrow>
          (case tv_codec v of
             None \<Rightarrow> None
           | Some codec_ident \<Rightarrow>
               if tv_number v = 0 \<or> tv_number v > U32_MAX then None
               else if tv_type v \<noteq> 1 \<and> tv_type v \<noteq> 2 then Some None
               else Some (Some (finish_track (tv_number v) (tv_type v) codec_ident (tv_track v)))))"

definition tracks_child :: "nat \<Rightarrow> child_element \<Rightarrow> webm_track list \<Rightarrow> webm_track list option" where
  "tracks_child scale c ts =
     (if fst c \<noteq> WEBM_ID_TRACK_ENTRY then Some ts
      else (case parse_track_entry scale c of
              None \<Rightarrow> None
            | Some None \<Rightarrow> Some ts
            | Some (Some t) \<Rightarrow>
                if length ts \<ge> WEBM_MAX_TRACKS \<or> find_track ts (track_ident (public t)) \<noteq> None then None
                else Some (ts @ [t])))"

definition parse_tracks :: "ns_webm_demuxer \<Rightarrow> u8 list \<Rightarrow> ns_webm_demuxer option" where
  "parse_tracks d payload =
     (case for_children (tracks_child (timecode_scale d)) payload [] of
        None \<Rightarrow> None
      | Some ts \<Rightarrow> Some ((resolve_all_held_blocks d)\<lparr> tracks := ts, has_init := True \<rparr>))"

section \<open>The state machine\<close>

definition consume_input :: "nat \<Rightarrow> ns_webm_demuxer \<Rightarrow> ns_webm_demuxer" where
  "consume_input n d = d\<lparr> wm_input := drop n (wm_input d), wm_position := wm_position d + n \<rparr>"

definition enter_skip :: "element_header \<Rightarrow> ns_webm_demuxer \<Rightarrow> ns_webm_demuxer" where
  "enter_skip h d = (consume_input (header_length h) d)\<lparr> skip_remaining := eh_size h \<rparr>"

definition id_is_top_level :: "nat \<Rightarrow> bool" where
  "id_is_top_level i \<longleftrightarrow>
     i \<in> {WEBM_ID_EBML, WEBM_ID_SEGMENT, WEBM_ID_SEEK_HEAD, WEBM_ID_INFO, WEBM_ID_TRACKS, WEBM_ID_CLUSTER,
          WEBM_ID_CUES, WEBM_ID_ATTACHMENTS, WEBM_ID_CHAPTERS, WEBM_ID_TAGS}"

definition end_cluster :: "ns_webm_demuxer \<Rightarrow> ns_webm_demuxer" where
  "end_cluster d =
     (resolve_all_held_blocks d)\<lparr> wm_context := CONTEXT_TOP, cluster_has_end := False, cluster_end := 0,
        cluster_has_timecode := False, cluster_timecode := 0 \<rparr>"

text \<open>What handling one element gives: failure, more input needed, or the state to go on with.\<close>

datatype element_result = El_Fail ns_webm_demuxer | El_More ns_webm_demuxer | El_Next ns_webm_demuxer

text \<open>The work on a payload: the state, changed or not, and whether it succeeded.\<close>

definition handled :: "ns_webm_demuxer \<Rightarrow> ns_webm_demuxer option \<Rightarrow> ns_webm_demuxer \<times> bool" where
  "handled d r = (case r of None \<Rightarrow> (d, False) | Some d' \<Rightarrow> (d', True))"

definition parse_payload :: "nat \<Rightarrow> u8 list \<Rightarrow> ns_webm_demuxer \<Rightarrow> ns_webm_demuxer \<times> bool" where
  "parse_payload i payload d =
     (if i = WEBM_ID_EBML then (d, parse_ebml_header payload)
      else if i = WEBM_ID_INFO then handled d (parse_info d payload)
      else if i = WEBM_ID_TRACKS then handled d (parse_tracks d payload)
      else if i = WEBM_ID_CLUSTER_TIMECODE then
        (case read_unsigned (i, payload) of
           None \<Rightarrow> (d\<lparr> cluster_has_timecode := False \<rparr>, False)
         | Some v \<Rightarrow>
             let ok = int v \<le> WEBM_MAX_TIMESTAMP in
             (d\<lparr> cluster_timecode := v, cluster_has_timecode := ok \<rparr>, ok))
      else if i = WEBM_ID_SIMPLE_BLOCK then handled d (handle_block d payload True None False)
      else if i = WEBM_ID_BLOCK_GROUP then handled d (parse_block_group d payload)
      else (d, False))"

definition parse_buffered_element :: "element_header \<Rightarrow> nat \<Rightarrow> ns_webm_demuxer \<Rightarrow> element_result" where
  "parse_buffered_element h limit d =
     (if unknown_size h \<or> eh_size h > limit then El_Fail d
      else if length (wm_input d) - header_length h < eh_size h then El_More d
      else (case parse_payload (eh_id h) (take (eh_size h) (drop (header_length h) (wm_input d))) d of
              (d', ok) \<Rightarrow>
                let d'' = consume_input (header_length h + eh_size h) d' in
                if ok then El_Next d'' else El_Fail d''))"

definition process_top_level_element :: "element_header \<Rightarrow> ns_webm_demuxer \<Rightarrow> element_result" where
  "process_top_level_element h d =
     (let i = eh_id h in
      if i = WEBM_ID_EBML then parse_buffered_element h WEBM_MAX_EBML_HEADER_BYTES d
      else if i = WEBM_ID_SEGMENT then
        El_Next ((apply_timecode_scale WEBM_DEFAULT_TIMECODE_SCALE (consume_input (header_length h) d))
                   \<lparr> segment_duration := None \<rparr>)
      else if i = WEBM_ID_INFO then parse_buffered_element h WEBM_MAX_INFO_BYTES d
      else if i = WEBM_ID_TRACKS then parse_buffered_element h WEBM_MAX_TRACKS_BYTES d
      else if i = WEBM_ID_CLUSTER then
        let d' = consume_input (header_length h) d in
        El_Next (d'\<lparr> wm_context := CONTEXT_CLUSTER, cluster_has_end := \<not> unknown_size h,
                     cluster_end := wm_position d' + eh_size h, cluster_has_timecode := False,
                     cluster_timecode := 0 \<rparr>)
      else if unknown_size h then El_Fail d
      else El_Next (enter_skip h d))"

definition process_cluster_element :: "element_header \<Rightarrow> ns_webm_demuxer \<Rightarrow> element_result" where
  "process_cluster_element h d =
     (let i = eh_id h in
      if id_is_top_level i then El_Next (end_cluster d)
      else if unknown_size h then El_Fail d
      else if cluster_has_end d \<and>
              (header_length h > cluster_end d - wm_position d \<or>
               eh_size h > cluster_end d - wm_position d - header_length h) then El_Fail d
      else if i = WEBM_ID_CLUSTER_TIMECODE then parse_buffered_element h 8 d
      else if i = WEBM_ID_SIMPLE_BLOCK then parse_buffered_element h WEBM_MAX_BLOCK_BYTES d
      else if i = WEBM_ID_BLOCK_GROUP then parse_buffered_element h WEBM_MAX_BLOCK_GROUP_BYTES d
      else El_Next (enter_skip h d))"

text \<open>One round of the loop of \<^verbatim>\<open>process_input\<close>.\<close>

definition skip_input :: "ns_webm_demuxer \<Rightarrow> ns_webm_demuxer" where
  "skip_input d =
     (let n = min (skip_remaining d) (length (wm_input d))
      in (consume_input n d)\<lparr> skip_remaining := skip_remaining d - n \<rparr>)"

definition input_round :: "ns_webm_demuxer \<Rightarrow> element_result" where
  "input_round d0 =
     (let d = (if skip_remaining d0 > 0 then skip_input d0 else d0) in
      if skip_remaining d > 0 then El_More d
      else if wm_context d = CONTEXT_CLUSTER \<and> cluster_has_end d \<and> wm_position d \<ge> cluster_end d
      then El_Next (end_cluster d)
      else (case read_element_header (wm_input d) of
              HEADER_NEED_MORE \<Rightarrow> El_More d
            | HEADER_INVALID \<Rightarrow> El_Fail d
            | HEADER_COMPLETE h \<Rightarrow>
                if wm_context d = CONTEXT_CLUSTER then process_cluster_element h d
                else process_top_level_element h d))"

partial_function (option) process_input :: "ns_webm_demuxer \<Rightarrow> (bool \<times> ns_webm_demuxer) option" where
  "process_input d =
     (case input_round d of
        El_Fail d' \<Rightarrow> Some (False, d')
      | El_More d' \<Rightarrow> Some (True, d')
      | El_Next d' \<Rightarrow> process_input d')"

definition clear_parser_state :: "ns_webm_demuxer \<Rightarrow> ns_webm_demuxer" where
  "clear_parser_state d =
     d\<lparr> wm_input := [], wm_position := 0, wm_error := False, skip_remaining := 0, wm_context := CONTEXT_TOP,
        cluster_has_end := False, cluster_end := 0, cluster_has_timecode := False, cluster_timecode := 0 \<rparr>"

definition enter_error_state :: "ns_webm_demuxer \<Rightarrow> ns_webm_demuxer" where
  "enter_error_state d = drop_all_held_blocks (d\<lparr> wm_error := True, wm_input := [], skip_remaining := 0 \<rparr>)"

definition ns_webm_demuxer_new :: ns_webm_demuxer where
  "ns_webm_demuxer_new =
     clear_parser_state
       \<lparr> wm_input = [], wm_position = 0, wm_error = False, skip_remaining = 0, wm_context = CONTEXT_TOP,
         cluster_has_end = False, cluster_end = 0, cluster_has_timecode = False, cluster_timecode = 0,
         timecode_scale = WEBM_DEFAULT_TIMECODE_SCALE, segment_duration = None, tracks = [], has_init = False,
         ready = [] \<rparr>"

partial_function (option) append_loop :: "ns_webm_demuxer \<Rightarrow> u8 list \<Rightarrow> (bool \<times> ns_webm_demuxer) option" where
  "append_loop d data =
     (if data = [] then Some (True, d)
      else if skip_remaining d > 0 \<and> wm_input d = [] then
        (let skipped = min (skip_remaining d) (length data) in
         append_loop (d\<lparr> skip_remaining := skip_remaining d - skipped, wm_position := wm_position d + skipped \<rparr>)
           (drop skipped data))
      else
        (let chunk = min (length data) WEBM_MAX_APPEND_CHUNK_BYTES in
         case process_input (d\<lparr> wm_input := wm_input d @ take chunk data \<rparr>) of
           None \<Rightarrow> None
         | Some (ok, d') \<Rightarrow>
             if ok then append_loop d' (drop chunk data) else Some (False, enter_error_state d')))"

definition ns_webm_demuxer_append :: "ns_webm_demuxer \<Rightarrow> u8 list \<Rightarrow> (bool \<times> ns_webm_demuxer) option" where
  "ns_webm_demuxer_append d data = (if wm_error d then Some (False, d) else append_loop d data)"

definition ns_webm_demuxer_n_tracks :: "ns_webm_demuxer \<Rightarrow> nat" where
  "ns_webm_demuxer_n_tracks d = (if has_init d then length (tracks d) else 0)"

definition ns_webm_demuxer_track :: "ns_webm_demuxer \<Rightarrow> nat \<Rightarrow> ns_mp4_track option" where
  "ns_webm_demuxer_track d i =
     (if \<not> has_init d \<or> i \<ge> length (tracks d) then None else Some (public (tracks d ! i)))"

definition ns_webm_demuxer_pop_sample :: "ns_webm_demuxer \<Rightarrow> (ns_mp4_sample \<times> ns_webm_demuxer) option" where
  "ns_webm_demuxer_pop_sample d =
     (case ready d of [] \<Rightarrow> None | s # ss \<Rightarrow> Some (s, d\<lparr> ready := ss \<rparr>))"

definition ns_webm_demuxer_flush :: "ns_webm_demuxer \<Rightarrow> ns_webm_demuxer" where
  "ns_webm_demuxer_flush d = (if wm_error d then d else resolve_all_held_blocks d)"

definition ns_webm_demuxer_reset_parser :: "ns_webm_demuxer \<Rightarrow> ns_webm_demuxer" where
  "ns_webm_demuxer_reset_parser d =
     clear_parser_state (if wm_error d then d else resolve_all_held_blocks d)"

section \<open>The handlers leave the input alone\<close>

abbreviation with_input :: "u8 list \<Rightarrow> ns_webm_demuxer \<Rightarrow> ns_webm_demuxer" where
  "with_input x d \<equiv> d\<lparr> wm_input := x \<rparr>"

lemma resolve_all_input [simp]: "resolve_all_held_blocks (with_input x d) = with_input x (resolve_all_held_blocks d)"
  by (simp add: resolve_all_held_blocks_def Let_def)

lemma resolve_all_fields [simp]:
  "wm_input (resolve_all_held_blocks d) = wm_input d" "wm_context (resolve_all_held_blocks d) = wm_context d"
  "wm_position (resolve_all_held_blocks d) = wm_position d" "skip_remaining (resolve_all_held_blocks d) = skip_remaining d"
  "cluster_has_end (resolve_all_held_blocks d) = cluster_has_end d" "cluster_end (resolve_all_held_blocks d) = cluster_end d"
  "wm_error (resolve_all_held_blocks d) = wm_error d" "timecode_scale (resolve_all_held_blocks d) = timecode_scale d"
  by (simp_all add: resolve_all_held_blocks_def Let_def)

lemma apply_scale_input [simp]: "apply_timecode_scale s (with_input x d) = with_input x (apply_timecode_scale s d)"
  by (simp add: apply_timecode_scale_def Let_def)

lemma apply_scale_fields [simp]:
  "wm_input (apply_timecode_scale s d) = wm_input d" "wm_context (apply_timecode_scale s d) = wm_context d"
  "wm_position (apply_timecode_scale s d) = wm_position d" "skip_remaining (apply_timecode_scale s d) = skip_remaining d"
  "cluster_has_end (apply_timecode_scale s d) = cluster_has_end d" "cluster_end (apply_timecode_scale s d) = cluster_end d"
  "wm_error (apply_timecode_scale s d) = wm_error d"
  by (simp_all add: apply_timecode_scale_def Let_def)

lemma store_block_input [simp]:
  "store_block (with_input x d) t ts k bd fs = with_input x (store_block d t ts k bd fs)"
proof -
  have "known_durations (with_input x d) t' bd fs = known_durations d t' bd fs" for t'
    by (simp add: known_durations_def Let_def split: option.split)
  then show ?thesis by (auto simp: store_block_def Let_def split: prod.split option.split)
qed

lemma store_block_fields [simp]:
  "wm_input (store_block d t ts k bd fs) = wm_input d" "wm_context (store_block d t ts k bd fs) = wm_context d"
  "wm_position (store_block d t ts k bd fs) = wm_position d" "skip_remaining (store_block d t ts k bd fs) = skip_remaining d"
  "cluster_has_end (store_block d t ts k bd fs) = cluster_has_end d" "cluster_end (store_block d t ts k bd fs) = cluster_end d"
  "wm_error (store_block d t ts k bd fs) = wm_error d"
  by (auto simp: store_block_def Let_def split: prod.split option.split)

lemma handle_block_input [simp]:
  "handle_block (with_input x d) data s bd r = map_option (with_input x) (handle_block d data s bd r)"
proof -
  have "block_timestamp (with_input x d) rel = block_timestamp d rel" for rel
    by (simp add: block_timestamp_def Let_def)
  then show ?thesis by (auto simp: handle_block_def Let_def split: option.split)
qed

lemma parse_payload_input:
  "parse_payload i p (with_input x d) = (case parse_payload i p d of (d', ok) \<Rightarrow> (with_input x d', ok))"
  by (auto simp: parse_payload_def handled_def parse_info_def parse_tracks_def parse_block_group_def Let_def
      split: option.split prod.split)

lemma parse_payload_fields:
  assumes "parse_payload i p d = (d', ok)"
  shows "wm_input d' = wm_input d" "wm_context d' = wm_context d" "wm_position d' = wm_position d"
    "skip_remaining d' = skip_remaining d" "cluster_has_end d' = cluster_has_end d" "cluster_end d' = cluster_end d"
    "wm_error d' = wm_error d"
  using assms
  by (auto simp: parse_payload_def handled_def parse_info_def parse_tracks_def parse_block_group_def handle_block_def Let_def
      split: option.splits prod.splits if_splits)

section \<open>Termination\<close>

lemma consume_fields [simp]:
  "wm_input (consume_input n d) = drop n (wm_input d)" "wm_context (consume_input n d) = wm_context d"
  "skip_remaining (consume_input n d) = skip_remaining d" "wm_position (consume_input n d) = wm_position d + n"
  "cluster_has_end (consume_input n d) = cluster_has_end d" "cluster_end (consume_input n d) = cluster_end d"
  "wm_error (consume_input n d) = wm_error d"
  by (simp_all add: consume_input_def)

lemma end_cluster_fields [simp]:
  "wm_input (end_cluster d) = wm_input d" "wm_context (end_cluster d) = CONTEXT_TOP"
  "skip_remaining (end_cluster d) = skip_remaining d" "wm_error (end_cluster d) = wm_error d"
  "cluster_has_end (end_cluster d) = False" "wm_position (end_cluster d) = wm_position d"
  by (simp_all add: end_cluster_def)

definition work_left :: "ns_webm_demuxer \<Rightarrow> nat" where
  "work_left d = 2 * length (wm_input d) + (if wm_context d = CONTEXT_CLUSTER then 1 else 0)"

text \<open>The loop's body behind the skipping.\<close>

definition input_body :: "ns_webm_demuxer \<Rightarrow> element_result" where
  "input_body d =
     (if skip_remaining d > 0 then El_More d
      else if wm_context d = CONTEXT_CLUSTER \<and> cluster_has_end d \<and> wm_position d \<ge> cluster_end d
      then El_Next (end_cluster d)
      else (case read_element_header (wm_input d) of
              HEADER_NEED_MORE \<Rightarrow> El_More d
            | HEADER_INVALID \<Rightarrow> El_Fail d
            | HEADER_COMPLETE h \<Rightarrow>
                if wm_context d = CONTEXT_CLUSTER then process_cluster_element h d
                else process_top_level_element h d))"

definition skipped :: "ns_webm_demuxer \<Rightarrow> ns_webm_demuxer" where
  "skipped d = (if skip_remaining d > 0 then skip_input d else d)"

lemma input_round_body: "input_round d = input_body (skipped d)"
  by (simp add: input_round_def input_body_def skipped_def Let_def)

lemma skipped_less: "work_left (skipped d) \<le> work_left d" "wm_error (skipped d) = wm_error d"
  by (simp_all add: skipped_def skip_input_def work_left_def Let_def)

lemma buffered_next:
  assumes "parse_buffered_element h limit d = El_Next d'" "2 \<le> header_length h" "header_length h \<le> length (wm_input d)"
  shows "length (wm_input d') < length (wm_input d)" "wm_context d' = wm_context d"
  using assms parse_payload_fields
  by (auto simp: parse_buffered_element_def Let_def split: if_splits prod.splits)

lemma enter_skip_fields [simp]:
  "wm_input (enter_skip h d) = drop (header_length h) (wm_input d)" "wm_context (enter_skip h d) = wm_context d"
  "wm_error (enter_skip h d) = wm_error d"
  by (simp_all add: enter_skip_def)

lemma top_level_next:
  assumes "process_top_level_element h d = El_Next d'" "2 \<le> header_length h" "header_length h \<le> length (wm_input d)"
    "wm_context d = CONTEXT_TOP"
  shows "work_left d' < work_left d"
  using assms buffered_next [OF _ assms(2,3)]
  by (auto simp: process_top_level_element_def Let_def work_left_def split: if_splits)

lemma cluster_next:
  assumes "process_cluster_element h d = El_Next d'" "2 \<le> header_length h" "header_length h \<le> length (wm_input d)"
    "wm_context d = CONTEXT_CLUSTER"
  shows "work_left d' < work_left d"
  using assms buffered_next [OF _ assms(2,3)]
  by (auto simp: process_cluster_element_def Let_def work_left_def split: if_splits)

lemma context_cases: "wm_context d \<noteq> CONTEXT_CLUSTER \<longleftrightarrow> wm_context d = CONTEXT_TOP"
  by (cases "wm_context d") simp_all

lemma input_round_less:
  assumes "input_round d = El_Next d'"
  shows "work_left d' < work_left d"
proof -
  let ?d = "skipped d"
  have "work_left d' < work_left ?d"
  proof (cases "wm_context ?d = CONTEXT_CLUSTER \<and> cluster_has_end ?d \<and> wm_position ?d \<ge> cluster_end ?d")
    case True
    with assms show ?thesis
      by (auto simp: input_round_body input_body_def work_left_def split: if_splits)
  next
    case False
    then obtain h where h: "read_element_header (wm_input ?d) = HEADER_COMPLETE h"
      and e: "(if wm_context ?d = CONTEXT_CLUSTER then process_cluster_element h ?d else process_top_level_element h ?d) = El_Next d'"
      using assms by (auto simp: input_round_body input_body_def split: if_splits header_result.splits)
    note len = header_length_bounds [OF h]
    show ?thesis
      using e len top_level_next [of h ?d d'] cluster_next [of h ?d d'] by (auto simp: context_cases split: if_splits)
  qed
  with skipped_less(1) [of d] show ?thesis by simp
qed

lemma process_input_returns: "process_input d \<noteq> None"
proof (induction d rule: measure_induct_rule [where f = work_left])
  case (less d)
  show ?case
  proof (cases "input_round d")
    case (El_Next d')
    with less [OF input_round_less [OF El_Next]] show ?thesis by (simp add: process_input.simps [of d])
  qed (simp_all add: process_input.simps [of d])
qed

lemma append_loop_returns: "append_loop d data \<noteq> None"
proof (induction data arbitrary: d rule: measure_induct_rule [where f = length])
  case (less data)
  show ?case
  proof (cases "data = []")
    case True
    then show ?thesis by (simp add: append_loop.simps [of d "[]"])
  next
    case False
    show ?thesis
    proof (cases "skip_remaining d > 0 \<and> wm_input d = []")
      case True
      have "length (drop (min (skip_remaining d) (length data)) data) < length data" using False True by simp
      from less [OF this] False True show ?thesis by (simp add: append_loop.simps [of d data] Let_def)
    next
      case no: False
      obtain ok d' where p: "process_input (d\<lparr> wm_input := wm_input d @ take (min (length data) WEBM_MAX_APPEND_CHUNK_BYTES) data \<rparr>)
          = Some (ok, d')" using process_input_returns by (metis not_None_eq prod.exhaust)
      have "length (drop (min (length data) WEBM_MAX_APPEND_CHUNK_BYTES) data) < length data"
        using False by (simp add: WEBM_MAX_APPEND_CHUNK_BYTES_def)
      from less [OF this, of d'] show ?thesis
        using False p by (subst append_loop.simps) (simp only: no if_False Let_def, cases ok, auto)
    qed
  qed
qed

text \<open>
  C12: feeding the demuxer always returns, whatever the bytes: no malformed, truncated or endless
  element can keep its loops running.
\<close>

theorem webm_append_terminates: "\<exists>ok d'. ns_webm_demuxer_append d data = Some (ok, d')"
  using append_loop_returns [of d data] by (auto simp: ns_webm_demuxer_append_def)


section \<open>Chunks\<close>

definition ext :: "u8 list \<Rightarrow> ns_webm_demuxer \<Rightarrow> ns_webm_demuxer" where
  "ext b d = d\<lparr> wm_input := wm_input d @ b \<rparr>"

lemma ext_fields [simp]:
  "wm_input (ext b d) = wm_input d @ b" "skip_remaining (ext b d) = skip_remaining d" "wm_context (ext b d) = wm_context d"
  "cluster_has_end (ext b d) = cluster_has_end d" "cluster_end (ext b d) = cluster_end d"
  "wm_position (ext b d) = wm_position d" "wm_error (ext b d) = wm_error d"
  by (simp_all add: ext_def)

lemma ext_Nil [simp]: "ext [] d = d" and ext_ext [simp]: "ext c (ext b d) = ext (b @ c) d"
  by (simp_all add: ext_def)

lemma read_vint_append:
  "read_vint data m k = HEADER_COMPLETE r \<Longrightarrow> read_vint (data @ b) m k = HEADER_COMPLETE r"
  "read_vint data m k = HEADER_INVALID \<Longrightarrow> read_vint (data @ b) m k = HEADER_INVALID"
  by (auto simp: read_vint_def Let_def split: if_splits)

lemma header_append:
  assumes "read_element_header data \<noteq> HEADER_NEED_MORE"
  shows "read_element_header (data @ b) = read_element_header data"
proof (cases "read_vint data 4 True")
  case (HEADER_COMPLETE r)
  obtain i n a where r: "r = (i, n, a)" by (cases r)
  have n: "n \<le> length data" using read_vint_length [of data 4 True i n a] HEADER_COMPLETE r by simp
  show ?thesis
  proof (cases "read_vint (drop n data) 8 False")
    case (HEADER_COMPLETE r2)
    then show ?thesis
      using \<open>read_vint data 4 True = HEADER_COMPLETE r\<close> r n read_vint_append(1) [of data 4 True r b]
        read_vint_append(1) [OF HEADER_COMPLETE, of b]
      by (simp add: read_element_header_def)
  next
    case HEADER_INVALID
    then show ?thesis
      using \<open>read_vint data 4 True = HEADER_COMPLETE r\<close> r n read_vint_append(1) [of data 4 True r b]
        read_vint_append(2) [OF HEADER_INVALID, of b]
      by (simp add: read_element_header_def)
  next
    case HEADER_NEED_MORE
    then show ?thesis
      using \<open>read_vint data 4 True = HEADER_COMPLETE r\<close> r assms read_vint_append(1) [of data 4 True r b]
      by (auto simp: read_element_header_def split: if_splits)
  qed
qed (use assms read_vint_append(2) [of data 4 True b] in \<open>simp_all add: read_element_header_def\<close>)

lemma ext_commute [simp]:
  "ext b (end_cluster d) = end_cluster (ext b d)" "ext b (resolve_all_held_blocks d) = resolve_all_held_blocks (ext b d)"
  "ext b (apply_timecode_scale s d) = apply_timecode_scale s (ext b d)"
  by (simp_all add: ext_def end_cluster_def)

lemma consume_ext: "n \<le> length (wm_input d) \<Longrightarrow> consume_input n (ext b d) = ext b (consume_input n d)"
  by (simp add: consume_input_def ext_def)


lemma ext_updates [simp]:
  "ext b (segment_duration_update f d) = segment_duration_update f (ext b d)"
  "ext b (wm_context_update g d) = wm_context_update g (ext b d)"
  "ext b (skip_remaining_update n d) = skip_remaining_update n (ext b d)"
  "ext b (cluster_has_end_update c d) = cluster_has_end_update c (ext b d)"
  "ext b (cluster_end_update n d) = cluster_end_update n (ext b d)"
  "ext b (cluster_has_timecode_update c d) = cluster_has_timecode_update c (ext b d)"
  "ext b (cluster_timecode_update n d) = cluster_timecode_update n (ext b d)"
  by (simp_all add: ext_def)

lemma parse_payload_ext:
  assumes "parse_payload i p d = (d', ok)"
  shows "parse_payload i p (ext b d) = (ext b d', ok)"
  unfolding ext_def parse_payload_input parse_payload_fields(1) [OF assms] assms by simp

lemma buffered_ext:
  assumes "header_length h \<le> length (wm_input d)"
  shows "parse_buffered_element h limit d = El_Next d' \<Longrightarrow> parse_buffered_element h limit (ext b d) = El_Next (ext b d')"
    "parse_buffered_element h limit d = El_Fail d' \<Longrightarrow> parse_buffered_element h limit (ext b d) = El_Fail (ext b d')"
proof -
  obtain d1 ok where p: "parse_payload (eh_id h) (take (eh_size h) (drop (header_length h) (wm_input d))) d = (d1, ok)"
    by (cases "parse_payload (eh_id h) (take (eh_size h) (drop (header_length h) (wm_input d))) d")
  have i: "wm_input d1 = wm_input d" using parse_payload_fields(1) [OF p] .
  show "parse_buffered_element h limit d = El_Next d' \<Longrightarrow> parse_buffered_element h limit (ext b d) = El_Next (ext b d')"
    using assms p parse_payload_ext [OF p, of b] consume_ext [of "header_length h + eh_size h" d1 b] i
    by (simp add: parse_buffered_element_def Let_def split: if_splits)
  show "parse_buffered_element h limit d = El_Fail d' \<Longrightarrow> parse_buffered_element h limit (ext b d) = El_Fail (ext b d')"
    using assms p parse_payload_ext [OF p, of b] consume_ext [of "header_length h + eh_size h" d1 b] i
    by (auto simp: parse_buffered_element_def Let_def split: if_splits)
qed

lemma top_level_ext:
  assumes "header_length h \<le> length (wm_input d)"
  shows "process_top_level_element h d = El_Next d' \<Longrightarrow> process_top_level_element h (ext b d) = El_Next (ext b d')"
    "process_top_level_element h d = El_Fail d' \<Longrightarrow> process_top_level_element h (ext b d) = El_Fail (ext b d')"
  using buffered_ext [OF assms, of _ d' b] consume_ext [OF assms, of b]
  by (auto simp: process_top_level_element_def Let_def enter_skip_def split: if_splits)

lemma cluster_ext:
  assumes "header_length h \<le> length (wm_input d)"
  shows "process_cluster_element h d = El_Next d' \<Longrightarrow> process_cluster_element h (ext b d) = El_Next (ext b d')"
    "process_cluster_element h d = El_Fail d' \<Longrightarrow> process_cluster_element h (ext b d) = El_Fail (ext b d')"
  using buffered_ext [OF assms, of _ d' b] consume_ext [OF assms, of b]
  by (auto simp: process_cluster_element_def Let_def enter_skip_def split: if_splits)

lemma skipped_ext:
  "skipped (ext b d) = skipped (ext b (skipped d))"
  "skip_remaining (skipped d) = 0 \<Longrightarrow> skipped (ext b d) = ext b (skipped d)"
  by (auto simp: skipped_def skip_input_def consume_input_def Let_def ext_def min_def)

lemma input_body_ext:
  assumes "skip_remaining d = 0"
  shows "input_body d = El_Next d' \<Longrightarrow> input_body (ext b d) = El_Next (ext b d')"
    "input_body d = El_Fail d' \<Longrightarrow> input_body (ext b d) = El_Fail (ext b d')"
proof -
  have len: "read_element_header (wm_input d) = HEADER_COMPLETE h \<Longrightarrow> header_length h \<le> length (wm_input d)" for h
    using header_length_bounds by blast
  show "input_body d = El_Next d' \<Longrightarrow> input_body (ext b d) = El_Next (ext b d')"
    using assms len header_append [of "wm_input d" b] top_level_ext(1) cluster_ext(1)
    by (auto simp: input_body_def split: if_splits header_result.splits)
  show "input_body d = El_Fail d' \<Longrightarrow> input_body (ext b d) = El_Fail (ext b d')"
    using assms len header_append [of "wm_input d" b] top_level_ext(2) cluster_ext(2)
    by (auto simp: input_body_def split: if_splits header_result.splits)
qed


lemma input_body_skipping: "skip_remaining d > 0 \<Longrightarrow> input_body d = El_More d"
  by (simp add: input_body_def)

lemma input_body_more: "input_body d = El_More d' \<Longrightarrow> d' = d"
  by (auto simp: input_body_def process_cluster_element_def process_top_level_element_def parse_buffered_element_def Let_def
      split: if_splits header_result.splits prod.splits)

lemma input_round_ext:
  "input_round d = El_Next d' \<Longrightarrow> input_round (ext b d) = El_Next (ext b d')"
  "input_round d = El_Fail d' \<Longrightarrow> input_round (ext b d) = El_Fail (ext b d')"
  "input_round d = El_More d' \<Longrightarrow> input_round (ext b d) = input_round (ext b d')"
proof -
  have settled: "skip_remaining (skipped d) = 0" if "input_body (skipped d) \<noteq> El_More (skipped d)"
    using that input_body_skipping [of "skipped d"] by auto
  show "input_round d = El_Next d' \<Longrightarrow> input_round (ext b d) = El_Next (ext b d')"
    using settled skipped_ext(2) [of d b] input_body_ext(1) by (simp add: input_round_body)
  show "input_round d = El_Fail d' \<Longrightarrow> input_round (ext b d) = El_Fail (ext b d')"
    using settled skipped_ext(2) [of d b] input_body_ext(2) by (simp add: input_round_body)
  show "input_round d = El_More d' \<Longrightarrow> input_round (ext b d) = input_round (ext b d')"
    using skipped_ext(1) [of b d] input_body_more [of "skipped d" d'] by (simp add: input_round_body)
qed

lemma process_input_ext:
  "process_input d = Some (ok, d') \<Longrightarrow>
   process_input (ext b d) = (if ok then process_input (ext b d') else Some (False, ext b d'))"
proof (induction d rule: measure_induct_rule [where f = work_left])
  case (less d)
  show ?case
  proof (cases "input_round d")
    case (El_Fail d1)
    with less.prems input_round_ext(2) [OF El_Fail, of b] show ?thesis
      by (simp add: process_input.simps [of d] process_input.simps [of "ext b d"])
  next
    case (El_More d1)
    with less.prems have "ok" "d' = d1" by (simp_all add: process_input.simps [of d])
    with input_round_ext(3) [OF El_More, of b] show ?thesis
      by (simp add: process_input.simps [of "ext b d"] process_input.simps [of "ext b d1"])
  next
    case (El_Next d1)
    with less.prems have "process_input d1 = Some (ok, d')" by (simp add: process_input.simps [of d])
    from less.IH [OF input_round_less [OF El_Next] this] input_round_ext(1) [OF El_Next, of b]
    show ?thesis by (simp add: process_input.simps [of "ext b d"])
  qed
qed

lemma input_body_error: "input_body d = El_Next d' \<or> input_body d = El_Fail d' \<Longrightarrow> wm_error d' = wm_error d"
  using parse_payload_fields(7)
  by (auto simp: input_body_def process_cluster_element_def process_top_level_element_def parse_buffered_element_def Let_def
      split: if_splits header_result.splits prod.splits)

lemma process_input_error: "process_input d = Some (ok, d') \<Longrightarrow> wm_error d' = wm_error d"
proof (induction d rule: measure_induct_rule [where f = work_left])
  case (less d)
  show ?case
  proof (cases "input_round d")
    case (El_Fail d1)
    with less.prems input_body_error [of "skipped d" d1] skipped_less(2) [of d] show ?thesis
      by (simp add: process_input.simps [of d] input_round_body)
  next
    case (El_More d1)
    with less.prems input_body_more [of "skipped d" d1] skipped_less(2) [of d] show ?thesis
      by (simp add: process_input.simps [of d] input_round_body)
  next
    case (El_Next d1)
    with less.prems less.IH [OF input_round_less [OF El_Next]] input_body_error [of "skipped d" d1] skipped_less(2) [of d]
    show ?thesis by (simp add: process_input.simps [of d] input_round_body)
  qed
qed

lemma fast_skip:
  assumes "skip_remaining d > 0" "wm_input d = []" "n \<le> skip_remaining d" "n \<le> length a"
  shows "process_input (ext (drop n a) (d\<lparr> skip_remaining := skip_remaining d - n, wm_position := wm_position d + n \<rparr>))
    = process_input (ext a d)"
proof -
  have "skipped (ext (drop n a) (d\<lparr> skip_remaining := skip_remaining d - n, wm_position := wm_position d + n \<rparr>))
      = skipped (ext a d)"
    using assms by (auto simp: skipped_def skip_input_def consume_input_def Let_def ext_def min_def)
  then show ?thesis by (simp add: process_input.simps [of "ext _ _"] input_round_body)
qed

lemma enter_error_ext [simp]: "enter_error_state (ext b d) = enter_error_state d"
  by (simp add: enter_error_state_def ext_def drop_all_held_blocks_def)

lemma append_loop_process:
  "append_loop d a = Some (ok, d') \<Longrightarrow>
   (if ok then wm_error d' = wm_error d \<and> (\<forall>b. process_input (ext b d') = process_input (ext (a @ b) d))
    else \<exists>d1. process_input (ext a d) = Some (False, d1) \<and> d' = enter_error_state d1)"
proof (induction a arbitrary: d rule: measure_induct_rule [where f = length])
  case (less a)
  show ?case
  proof (cases "a = []")
    case True
    with less.prems show ?thesis by (simp add: append_loop.simps [of d "[]"])
  next
    case a: False
    show ?thesis
    proof (cases "skip_remaining d > 0 \<and> wm_input d = []")
      case True
      define n where "n = min (skip_remaining d) (length a)"
      define d1 where "d1 = d\<lparr> skip_remaining := skip_remaining d - n, wm_position := wm_position d + n \<rparr>"
      have l: "length (drop n a) < length a" using a True by (simp add: n_def)
      have "append_loop d1 (drop n a) = Some (ok, d')"
        using less.prems a True by (simp add: append_loop.simps [of d a] Let_def n_def d1_def)
      note IH = less.IH [OF l this]
      have skip: "process_input (ext (drop n a @ b) d1) = process_input (ext (a @ b) d)" for b
        using fast_skip [of d n "a @ b"] True by (simp add: d1_def n_def)
      show ?thesis using IH skip skip [of "[]"] by (simp add: d1_def split: if_splits)
    next
      case no: False
      define n where "n = min (length a) WEBM_MAX_APPEND_CHUNK_BYTES"
      obtain ok1 d1 where p: "process_input (ext (take n a) d) = Some (ok1, d1)"
        using process_input_returns by (metis not_None_eq prod.exhaust)
      have l: "length (drop n a) < length a" using a by (simp add: n_def WEBM_MAX_APPEND_CHUNK_BYTES_def)
      have e: "append_loop d a = (if ok1 then append_loop d1 (drop n a) else Some (False, enter_error_state d1))"
        using a p by (subst append_loop.simps) (simp only: no if_False Let_def n_def ext_def, simp)
      have joined: "take n a @ drop n a @ b = a @ b" for b by simp
      show ?thesis
      proof (cases ok1)
        case True
        with e less.prems have "append_loop d1 (drop n a) = Some (ok, d')" by simp
        note IH = less.IH [OF l this]
        have "process_input (ext (drop n a @ b) d1) = process_input (ext (a @ b) d)" for b
          using process_input_ext [OF p, of "drop n a @ b"] True by (simp del: append_take_drop_id add: joined)
        moreover from this [of "[]"] have "process_input (ext (drop n a) d1) = process_input (ext a d)" by simp
        moreover have "wm_error d1 = wm_error d" using process_input_error [OF p] by simp
        ultimately show ?thesis using IH by (simp split: if_splits)
      next
        case False
        with e less.prems have "ok = False" "d' = enter_error_state d1" by simp_all
        moreover have "process_input (ext a d) = Some (False, ext (drop n a) d1)"
          using process_input_ext [OF p, of "drop n a"] False by simp
        ultimately show ?thesis by simp
      qed
    qed
  qed
qed

text \<open>Feeding pieces one after the other; a failed piece ends it.\<close>

fun webm_feed :: "ns_webm_demuxer \<Rightarrow> u8 list list \<Rightarrow> (bool \<times> ns_webm_demuxer) option" where
  "webm_feed d [] = Some (True, d)"
| "webm_feed d (c # cs) =
     (case ns_webm_demuxer_append d c of
        None \<Rightarrow> None
      | Some (ok, d') \<Rightarrow> if ok then webm_feed d' cs else Some (False, d'))"

text \<open>The demuxers a client can get.\<close>

inductive webm_reachable :: "ns_webm_demuxer \<Rightarrow> bool" where
  reach_new: "webm_reachable ns_webm_demuxer_new"
| reach_append: "webm_reachable d \<Longrightarrow> ns_webm_demuxer_append d data = Some (ok, d') \<Longrightarrow> webm_reachable d'"
| reach_pop: "webm_reachable d \<Longrightarrow> ns_webm_demuxer_pop_sample d = Some (s, d') \<Longrightarrow> webm_reachable d'"
| reach_flush: "webm_reachable d \<Longrightarrow> webm_reachable (ns_webm_demuxer_flush d)"
| reach_reset: "webm_reachable d \<Longrightarrow> webm_reachable (ns_webm_demuxer_reset_parser d)"

text \<open>A demuxer that waits for input: its next round wants more, or it has none.\<close>

definition waiting :: "ns_webm_demuxer \<Rightarrow> bool" where
  "waiting d \<longleftrightarrow> wm_input d = [] \<or> input_round d = El_More (skipped d)"

lemma read_header_Nil [simp]: "read_element_header [] = HEADER_NEED_MORE"
  by (simp add: read_element_header_def read_vint_def)

lemma skipped_Nil: "wm_input d = [] \<Longrightarrow> skipped d = d"
  by (simp add: skipped_def skip_input_def consume_input_def)

lemma waiting_process: "waiting d \<Longrightarrow> \<exists>d'. process_input d = Some (True, d')"
proof (cases "wm_input d = []")
  case True
  then have r: "input_round d = El_More d \<or> input_round d = El_Next (end_cluster d)"
    by (simp add: input_round_body skipped_Nil input_body_def)
  have "input_round (end_cluster d) = El_More (end_cluster d)"
    using True by (simp add: input_round_body skipped_Nil input_body_def)
  then have "process_input (end_cluster d) = Some (True, end_cluster d)" by (simp add: process_input.simps [of "end_cluster d"])
  with r show ?thesis by (auto simp: process_input.simps [of d])
qed (simp add: waiting_def process_input.simps [of d])

lemma process_waiting: "process_input d = Some (True, d') \<Longrightarrow> waiting d'"
proof (induction d rule: measure_induct_rule [where f = work_left])
  case (less d)
  show ?case
  proof (cases "input_round d")
    case (El_More d1)
    with less.prems have d1: "d' = d1" by (simp add: process_input.simps [of d])
    have "input_round d1 = El_More d1" using input_round_ext(3) [OF El_More, of "[]"] El_More by simp
    with d1 input_body_more [of "skipped d1" d1] show ?thesis by (simp add: waiting_def input_round_body)
  next
    case (El_Next d1)
    with less.prems less.IH [OF input_round_less [OF El_Next]] show ?thesis by (simp add: process_input.simps [of d])
  qed (use less.prems in \<open>simp add: process_input.simps [of d]\<close>)
qed

lemma append_loop_waiting: "append_loop d a = Some (True, d') \<Longrightarrow> waiting d \<Longrightarrow> waiting d'"
proof (induction a arbitrary: d rule: measure_induct_rule [where f = length])
  case (less a)
  show ?case
  proof (cases "a = []")
    case True
    with less.prems show ?thesis by (simp add: append_loop.simps [of d "[]"])
  next
    case a: False
    show ?thesis
    proof (cases "skip_remaining d > 0 \<and> wm_input d = []")
      case True
      define n where "n = min (skip_remaining d) (length a)"
      define d1 where "d1 = d\<lparr> skip_remaining := skip_remaining d - n, wm_position := wm_position d + n \<rparr>"
      have "append_loop d1 (drop n a) = Some (True, d')"
        using less.prems(1) a True by (simp add: append_loop.simps [of d a] Let_def n_def d1_def)
      moreover have "waiting d1" using True by (simp add: waiting_def d1_def)
      ultimately show ?thesis using less.IH [of "drop n a" d1] a True by (simp add: n_def)
    next
      case no: False
      define n where "n = min (length a) WEBM_MAX_APPEND_CHUNK_BYTES"
      obtain ok1 d1 where p: "process_input (ext (take n a) d) = Some (ok1, d1)"
        using process_input_returns by (metis not_None_eq prod.exhaust)
      have "append_loop d a = (if ok1 then append_loop d1 (drop n a) else Some (False, enter_error_state d1))"
        using a p by (subst append_loop.simps) (simp only: no if_False Let_def n_def ext_def, simp)
      with less.prems(1) have "append_loop d1 (drop n a) = Some (True, d')" ok1 by (simp_all split: if_splits)
      moreover have "length (drop n a) < length a" using a by (simp add: n_def WEBM_MAX_APPEND_CHUNK_BYTES_def)
      ultimately show ?thesis using less.IH [of "drop n a" d1] process_waiting [of _ d1] p by simp
    qed
  qed
qed

definition same_front :: "ns_webm_demuxer \<Rightarrow> ns_webm_demuxer \<Rightarrow> bool" where
  "same_front d d' \<longleftrightarrow> wm_input d' = wm_input d \<and> wm_context d' = wm_context d \<and> wm_position d' = wm_position d \<and>
     skip_remaining d' = skip_remaining d \<and> cluster_has_end d' = cluster_has_end d \<and> cluster_end d' = cluster_end d"

lemma skipped_front: "same_front d d' \<Longrightarrow> same_front (skipped d) (skipped d')"
  by (simp add: same_front_def skipped_def skip_input_def Let_def)

lemma buffered_more:
  "parse_buffered_element h l d = El_More x \<longleftrightarrow>
     x = d \<and> \<not> unknown_size h \<and> eh_size h \<le> l \<and> length (wm_input d) - header_length h < eh_size h"
  by (auto simp: parse_buffered_element_def Let_def split: prod.splits)

lemma element_more:
  "process_top_level_element h d = El_More d \<Longrightarrow> wm_input d' = wm_input d \<Longrightarrow> process_top_level_element h d' = El_More d'"
  "process_cluster_element h d = El_More d \<Longrightarrow> same_front d d' \<Longrightarrow> process_cluster_element h d' = El_More d'"
  by (auto simp: process_top_level_element_def process_cluster_element_def Let_def buffered_more same_front_def split: if_splits)

lemma input_body_front:
  assumes "same_front d d'" "input_body d = El_More d"
  shows "input_body d' = El_More d'"
proof -
  have f: "wm_input d' = wm_input d" "wm_context d' = wm_context d" "wm_position d' = wm_position d"
     "skip_remaining d' = skip_remaining d" "cluster_has_end d' = cluster_has_end d" "cluster_end d' = cluster_end d"
    using assms(1) by (simp_all add: same_front_def)
  show ?thesis
    using assms(2) element_more [of _ d d'] assms(1) f
    by (cases "read_element_header (wm_input d)") (simp_all add: input_body_def split: if_splits)
qed

lemma waiting_front: "same_front d d' \<Longrightarrow> waiting d \<Longrightarrow> waiting d'"
  using input_body_front [OF skipped_front] by (auto simp: waiting_def input_round_body same_front_def)

lemma reachable_waiting: "webm_reachable d \<Longrightarrow> \<not> wm_error d \<Longrightarrow> waiting d"
proof (induction rule: webm_reachable.induct)
  case reach_new
  show ?case by (simp add: waiting_def ns_webm_demuxer_new_def clear_parser_state_def)
next
  case (reach_append d data ok d')
  have l: "append_loop d data = Some (ok, d')" "\<not> wm_error d"
    using reach_append.hyps(2) reach_append.prems by (auto simp: ns_webm_demuxer_append_def split: if_splits)
  have "ok"
    using append_loop_process [OF l(1)] reach_append.prems by (auto simp: enter_error_state_def drop_all_held_blocks_def split: if_splits)
  with l append_loop_waiting reach_append.IH show ?case by simp
next
  case (reach_pop d s d')
  then have "same_front d d'" "wm_error d = wm_error d'"
    by (auto simp: ns_webm_demuxer_pop_sample_def same_front_def split: list.splits)
  with reach_pop waiting_front show ?case by simp
next
  case (reach_flush d)
  moreover have "same_front d (resolve_all_held_blocks d)" by (simp add: same_front_def)
  ultimately show ?case using waiting_front [of d] by (simp add: ns_webm_demuxer_flush_def split: if_splits)
next
  case (reach_reset d)
  show ?case by (simp add: waiting_def ns_webm_demuxer_reset_parser_def clear_parser_state_def)
qed

lemma webm_feed_process:
  assumes "\<not> wm_error d"
  shows "\<exists>ok d'. webm_feed d cs = Some (ok, d') \<and>
    (if ok then \<forall>b. process_input (ext b d') = process_input (ext (concat cs @ b) d)
     else \<exists>d1. process_input (ext (concat cs) d) = Some (False, d1) \<and> d' = enter_error_state d1)"
  using assms
proof (induction cs arbitrary: d)
  case Nil
  then show ?case by (intro exI [of _ True] exI [of _ d]) simp
next
  case (Cons c cs)
  obtain ok1 d1 where p: "append_loop d c = Some (ok1, d1)"
    using append_loop_returns by (metis not_None_eq prod.exhaust)
  note lp = append_loop_process [OF p]
  show ?case
  proof (cases ok1)
    case True
    with lp Cons.prems have e: "\<not> wm_error d1" "\<And>b. process_input (ext b d1) = process_input (ext (c @ b) d)" by simp_all
    from Cons.IH [OF e(1)] obtain ok d' where "webm_feed d1 cs = Some (ok, d')"
      "if ok then \<forall>b. process_input (ext b d') = process_input (ext (concat cs @ b) d1)
       else \<exists>d2. process_input (ext (concat cs) d1) = Some (False, d2) \<and> d' = enter_error_state d2" by blast
    with p True Cons.prems e(2) show ?thesis by (cases ok) (auto simp: ns_webm_demuxer_append_def)
  next
    case False
    with lp obtain d2 where d2: "process_input (ext c d) = Some (False, d2)" "d1 = enter_error_state d2" by auto
    from process_input_ext [OF d2(1), of "concat cs"]
    have "process_input (ext (c @ concat cs) d) = Some (False, ext (concat cs) d2)" by simp
    with p False Cons.prems d2 show ?thesis
      by (intro exI [of _ False] exI [of _ d1]) (simp add: ns_webm_demuxer_append_def)
  qed
qed

lemma webm_feed_waiting: "webm_feed d cs = Some (True, d') \<Longrightarrow> waiting d \<Longrightarrow> waiting d'"
proof (induction cs arbitrary: d)
  case (Cons c cs)
  then obtain d1 where "append_loop d c = Some (True, d1)" "webm_feed d1 cs = Some (True, d')"
    by (auto simp: ns_webm_demuxer_append_def split: option.splits if_splits)
  with Cons.IH Cons.prems(2) append_loop_waiting show ?case by blast
qed simp

lemma webm_feed_total:
  assumes "\<not> wm_error d" "waiting d"
  obtains ok d' where "webm_feed d cs = Some (ok, d')"
    "ok \<longrightarrow> (\<forall>b. process_input (ext b d') = process_input (ext (concat cs @ b) d))"
    "ok \<longrightarrow> (\<exists>d2. process_input (ext (concat cs) d) = Some (True, d2))"
    "\<not> ok \<longrightarrow> (\<exists>d2. process_input (ext (concat cs) d) = Some (False, d2) \<and> d' = enter_error_state d2)"
proof -
  obtain ok d' where 1: "webm_feed d cs = Some (ok, d')"
    "if ok then \<forall>b. process_input (ext b d') = process_input (ext (concat cs @ b) d)
     else \<exists>d2. process_input (ext (concat cs) d) = Some (False, d2) \<and> d' = enter_error_state d2"
    using webm_feed_process [OF assms(1)] by blast
  have "\<exists>d2. process_input (ext (concat cs) d) = Some (True, d2)" if ok
  proof -
    have "waiting d'" using webm_feed_waiting [of d cs d'] 1(1) that assms(2) by simp
    then obtain d2 where "process_input d' = Some (True, d2)" using waiting_process by blast
    moreover have "process_input (ext [] d') = process_input (ext (concat cs @ []) d)" using 1(2) that by metis
    ultimately show ?thesis by (metis append_Nil2 ext_Nil)
  qed
  with 1 that show thesis by (auto split: if_splits)
qed

text \<open>
  C10: how the network cuts a stream into pieces does not matter to a demuxer that has not failed: two
  cuttings of the same bytes both fail, and then leave the same state, or both succeed, and then parse
  whatever follows in the same way, to the same state and the same samples.
\<close>

theorem webm_chunks:
  assumes "webm_reachable d" "\<not> wm_error d" "concat cs = concat cs'"
  shows "\<exists>ok d1 d2. webm_feed d cs = Some (ok, d1) \<and> webm_feed d cs' = Some (ok, d2) \<and>
    (if ok then \<forall>b. process_input (ext b d1) = process_input (ext b d2) else d1 = d2)"
proof -
  note w = reachable_waiting [OF assms(1,2)]
  obtain ok1 d1 where 1: "webm_feed d cs = Some (ok1, d1)"
    "ok1 \<longrightarrow> (\<forall>b. process_input (ext b d1) = process_input (ext (concat cs @ b) d))"
    "ok1 \<longrightarrow> (\<exists>d2. process_input (ext (concat cs) d) = Some (True, d2))"
    "\<not> ok1 \<longrightarrow> (\<exists>d2. process_input (ext (concat cs) d) = Some (False, d2) \<and> d1 = enter_error_state d2)"
    using webm_feed_total [OF assms(2) w, of cs] by metis
  obtain ok2 d2 where 2: "webm_feed d cs' = Some (ok2, d2)"
    "ok2 \<longrightarrow> (\<forall>b. process_input (ext b d2) = process_input (ext (concat cs' @ b) d))"
    "ok2 \<longrightarrow> (\<exists>d3. process_input (ext (concat cs') d) = Some (True, d3))"
    "\<not> ok2 \<longrightarrow> (\<exists>d3. process_input (ext (concat cs') d) = Some (False, d3) \<and> d2 = enter_error_state d3)"
    using webm_feed_total [OF assms(2) w, of cs'] by metis
  have same: "ok1 = ok2" using 1(3,4) 2(3,4) assms(3) by (cases ok1; cases ok2) auto
  have "if ok1 then \<forall>b. process_input (ext b d1) = process_input (ext b d2) else d1 = d2"
    using 1(2,4) 2(2,4) same assms(3) by (cases ok1) auto
  with 1(1) 2(1) same show ?thesis by blast
qed

theorem webm_chunks_witness:
  "\<exists>ok d1 d2. webm_feed ns_webm_demuxer_new [[0x1A], [0x45, 0xDF]] = Some (ok, d1) \<and>
     webm_feed ns_webm_demuxer_new [[0x1A, 0x45, 0xDF]] = Some (ok, d2) \<and>
     (if ok then \<forall>b. process_input (ext b d1) = process_input (ext b d2) else d1 = d2)"
  by (rule webm_chunks [OF reach_new]) (simp_all add: ns_webm_demuxer_new_def clear_parser_state_def)

section \<open>Laces\<close>

lemma xiph_size_suffix: "xiph_size len data acc = Some (n, r) \<Longrightarrow> n \<le> len \<and> (\<exists>p. data = p @ r)"
  by (induction len data acc rule: xiph_size.induct) (auto simp: Let_def split: if_splits)

lemma read_xiph_sizes:
  "read_xiph_lace_sizes k len data used = Some (szs, used', r) \<Longrightarrow>
   length szs = k \<and> used' = used + sum_list szs \<and> (\<exists>p. data = p @ r)"
proof (induction k arbitrary: data used szs)
  case (Suc k)
  then obtain sz r1 szs1 where 1: "xiph_size len data 0 = Some (sz, r1)"
    "read_xiph_lace_sizes k len r1 (used + sz) = Some (szs1, used', r)" "szs = sz # szs1"
    by (auto simp: Option.bind_eq_Some_conv split: if_splits)
  obtain p where p: "data = p @ r1" using xiph_size_suffix [OF 1(1)] by blast
  obtain q where q: "r1 = q @ r" using Suc.IH [OF 1(2)] by blast
  have "data = (p @ q) @ r" using p q by simp
  with Suc.IH [OF 1(2)] 1(3) show ?case by auto
qed simp

lemma read_ebml_sizes:
  "read_ebml_lace_sizes k len data prev used = Some (szs, used', r) \<Longrightarrow>
   length szs = k \<and> used' = used + sum_list szs \<and> (\<exists>p. data = p @ r)"
proof (induction k arbitrary: data prev used szs)
  case (Suc k)
  obtain raw n a where v: "read_vint data 8 False = HEADER_COMPLETE (raw, n, a)"
    using Suc.prems by (auto split: header_result.splits)
  define sz where "sz = (case prev of None \<Rightarrow> int raw | Some p \<Rightarrow> p + (int raw - (2 ^ (7 * n - 1) - 1)))"
  obtain szs1 where 1: "read_ebml_lace_sizes k len (drop n data) (Some sz) (used + nat sz) = Some (szs1, used', r)"
      "szs = nat sz # szs1"
    using Suc.prems v by (auto simp: sz_def Let_def Option.bind_eq_Some_conv split: if_splits)
  obtain q where "drop n data = q @ r" using Suc.IH [OF 1(1)] by blast
  then have "\<exists>p. data = p @ r" by (metis append.assoc append_take_drop_id)
  with Suc.IH [OF 1(1)] 1(2) show ?case by simp
qed simp

lemma lace_sizes_sound:
  assumes "lace_sizes lacing count len data = Some (szs, used, r)" "1 \<le> count"
  shows "length szs = count - 1 \<and> used = sum_list szs \<and> (\<exists>p. data = p @ r)"
proof (cases "lacing = 1 \<or> lacing = 3")
  case True
  with assms read_xiph_sizes [of "count - 1" len data 0] read_ebml_sizes [of "count - 1" len data None 0] show ?thesis
    by (auto simp: lace_sizes_def)
next
  case False
  define q where "q = length data div count"
  from False assms have d: "length data mod count = 0" "szs = replicate (count - 1) q" "used = length data - q" "r = data"
    by (auto simp: lace_sizes_def Let_def q_def split: if_splits)
  have "length data = count * q" using d(1) by (metis q_def mod_0_imp_dvd dvd_mult_div_cancel)
  then have "used = (count - 1) * q" using d(3) by (simp add: diff_mult_distrib)
  with d show ?thesis by (simp add: sum_list_replicate)
qed

lemma slices_concat:
  "concat (map2 (\<lambda>off sz. take sz (drop off data)) (offsets_from off szs) szs) = take (sum_list szs) (drop off data)"
proof (induction szs arbitrary: off)
  case (Cons s szs)
  then show ?case by (simp add: take_add add.commute)
qed simp

lemma offsets_length [simp]: "length (offsets_from off szs) = length szs"
  by (induction szs arbitrary: off) auto

lemma offsets_bound:
  "i < length szs \<Longrightarrow> offsets_from off szs ! i + szs ! i \<le> off + sum_list szs"
proof (induction szs arbitrary: off i)
  case (Cons s szs)
  show ?case
  proof (cases i)
    case (Suc j)
    then show ?thesis using Cons.IH [of j "off + s"] Cons.prems by (simp add: add.assoc)
  qed simp
qed simp

lemma block_layout:
  assumes "parse_block_payload data = Some b"
  shows "\<exists>off. frame_offsets b = offsets_from off (frame_sizes b) \<and> off + sum_list (frame_sizes b) = length data \<and>
    1 \<le> length (frame_sizes b) \<and> length (frame_sizes b) \<le> WEBM_MAX_LACED_FRAMES"
proof -
  obtain number n a where v: "read_vint data 8 False = HEADER_COMPLETE (number, n, a)"
    using assms by (auto simp: parse_block_payload_def split: header_result.splits)
  define lacing where "lacing = unat (drop_bit 1 (data ! (n + 2)) AND 3)"
  have len: "3 \<le> length data - n" using assms v by (auto simp: parse_block_payload_def split: if_splits)
  show ?thesis
  proof (cases "lacing = 0")
    case True
    then have "frame_offsets b = [n + 3]" "frame_sizes b = [length data - (n + 3)]"
      using assms v by (auto simp: parse_block_payload_def Let_def lacing_def split: if_splits)
    with len show ?thesis by (intro exI [of _ "n + 3"]) (simp add: WEBM_MAX_LACED_FRAMES_def)
  next
    case False
    define count where "count = unat (data ! (n + 3)) + 1"
    define rest where "rest = drop (4 + n) data"
    have n3: "n + 3 < length data"
      using assms v False by (auto simp: parse_block_payload_def Let_def lacing_def split: if_splits)
    then obtain szs used r where l: "lace_sizes lacing count (length data) rest = Some (szs, used, r)"
      using assms v False
      by (cases "lace_sizes lacing count (length data) rest")
         (auto simp: parse_block_payload_def Let_def lacing_def count_def rest_def split: if_splits)
    then have l2: "used \<le> length data - (length data - length r)"
        "frame_sizes b = szs @ [length data - (length data - length r) - used]"
        "frame_offsets b = offsets_from (length data - length r) (frame_sizes b)"
      using assms v False n3
      by (auto simp: parse_block_payload_def Let_def lacing_def count_def rest_def split: if_splits)
    have s: "length szs = count - 1" "used = sum_list szs" "\<exists>p. rest = p @ r"
      using lace_sizes_sound [OF l] by (simp_all add: count_def)
    have "unat (data ! (n + 3)) < 256" by (rule order_less_le_trans [OF unsigned_less]) simp
    moreover have "length r \<le> length data" using s(3) n3 by (auto simp: rest_def dest: arg_cong [of _ _ length])
    ultimately show ?thesis using l2 s
      by (intro exI [of _ "length data - length r"]) (auto simp: count_def WEBM_MAX_LACED_FRAMES_def)
  qed
qed

lemma block_frames_facts:
  assumes "parse_block_payload data = Some b"
  shows "1 \<le> length (block_frames data b)" "length (block_frames data b) \<le> WEBM_MAX_LACED_FRAMES"
    "length (block_frames data b) = length (frame_sizes b)"
    "length (frame_offsets b) = length (frame_sizes b)"
    "\<exists>off. concat (block_frames data b) = drop off data"
    "\<forall>i < length (frame_sizes b). frame_offsets b ! i + frame_sizes b ! i \<le> length data"
proof -
  obtain off where o: "frame_offsets b = offsets_from off (frame_sizes b)" "off + sum_list (frame_sizes b) = length data"
    "1 \<le> length (frame_sizes b)" "length (frame_sizes b) \<le> WEBM_MAX_LACED_FRAMES"
    using block_layout [OF assms] by blast
  then show "1 \<le> length (block_frames data b)" "length (block_frames data b) \<le> WEBM_MAX_LACED_FRAMES"
    "length (block_frames data b) = length (frame_sizes b)" "length (frame_offsets b) = length (frame_sizes b)"
    by (simp_all add: block_frames_def)
  show "\<exists>off. concat (block_frames data b) = drop off data"
    using o by (intro exI [of _ off]) (simp add: block_frames_def slices_concat)
  show "\<forall>i < length (frame_sizes b). frame_offsets b ! i + frame_sizes b ! i \<le> length data"
    using offsets_bound [of _ "frame_sizes b" off] o by simp
qed



section \<open>Ranges\<close>

definition track_ok :: "nat \<Rightarrow> webm_track \<Rightarrow> bool" where
  "track_ok scale t \<longleftrightarrow>
     0 < track_ident (public t) \<and> track_ident (public t) \<le> U32_MAX \<and>
     handler (public t) \<in> {''vide'', ''soun''} \<and> timescale (public t) = timescale_for scale \<and>
     0 \<le> last_frame_duration t \<and> last_frame_duration t \<le> int U32_MAX \<and>
     (if has_held_block t
      then 0 < length (held_frames t) \<and> length (held_frames t) \<le> WEBM_MAX_LACED_FRAMES \<and> \<bar>held_timestamp t\<bar> \<le> WEBM_MAX_TIMESTAMP
      else held_frames t = [])"

definition sample_ok :: "ns_mp4_sample \<Rightarrow> bool" where
  "sample_ok s \<longleftrightarrow> pts s = dts s \<and> duration s \<le> U32_MAX \<and> - WEBM_MAX_TIMESTAMP \<le> dts s \<and> dts s < 2 ^ 63 - int U32_MAX"

definition webm_ok :: "ns_webm_demuxer \<Rightarrow> bool" where
  "webm_ok d \<longleftrightarrow>
     1 \<le> timecode_scale d \<and> timecode_scale d \<le> WEBM_MAX_TIMECODE_SCALE \<and>
     length (tracks d) \<le> WEBM_MAX_TRACKS \<and> distinct (map (track_ident \<circ> public) (tracks d)) \<and>
     (\<forall>t \<in> set (tracks d). track_ok (timecode_scale d) t) \<and> (\<forall>s \<in> set (ready d). sample_ok s) \<and>
     (cluster_has_timecode d \<longrightarrow> int (cluster_timecode d) \<le> WEBM_MAX_TIMESTAMP)"

lemma emit_frame_group_ok:
  assumes "emit_frame_group t ts key fs ds = (t', out)"
    "- WEBM_MAX_TIMESTAMP \<le> ts" "ts + int (length fs) * int U32_MAX < 2 ^ 63"
    "0 \<le> last_frame_duration t" "last_frame_duration t \<le> int U32_MAX"
  shows "(\<forall>s \<in> set out. sample_ok s) \<and> public t' = public t \<and> has_held_block t' = has_held_block t \<and>
    held_timestamp t' = held_timestamp t \<and> held_frames t' = held_frames t \<and>
    0 \<le> last_frame_duration t' \<and> last_frame_duration t' \<le> int U32_MAX"
  using assms
proof (induction t ts key fs ds arbitrary: t' out rule: emit_frame_group.induct)
  case (1 t ts key f fs d ds)
  define dur where "dur = max 0 (min d (int U32_MAX))"
  define t1 where "t1 = (if dur > 0 then t\<lparr> last_frame_duration := dur \<rparr> else t)"
  obtain t2 out2 where e: "emit_frame_group t1 (ts + dur) key fs ds = (t2, out2)" by fastforce
  have dur: "0 \<le> dur" "dur \<le> int U32_MAX" by (simp_all add: dur_def)
  have room: "ts + int (length fs) * int U32_MAX + int U32_MAX < 2 ^ 63" using 1(4) by (simp add: algebra_simps)
  have "0 \<le> int (length fs) * int U32_MAX" by simp
  with room have own: "ts < 2 ^ 63 - int U32_MAX" by linarith
  have t1: "public t1 = public t" "has_held_block t1 = has_held_block t" "held_timestamp t1 = held_timestamp t"
    "held_frames t1 = held_frames t" "0 \<le> last_frame_duration t1" "last_frame_duration t1 \<le> int U32_MAX"
    using dur 1(5,6) by (simp_all add: t1_def)
  have "(\<forall>s \<in> set out2. sample_ok s) \<and> public t2 = public t1 \<and> has_held_block t2 = has_held_block t1 \<and>
      held_timestamp t2 = held_timestamp t1 \<and> held_frames t2 = held_frames t1 \<and>
      0 \<le> last_frame_duration t2 \<and> last_frame_duration t2 \<le> int U32_MAX"
    using 1(1) [OF dur_def refl t1_def] e 1(3) room dur t1(5,6) by auto
  moreover have "t' = t2" "out = \<lparr> smp_track = track_ident (public t), dts = ts, pts = ts, duration = nat dur,
       keyframe = key, smp_data = f \<rparr> # out2"
    using 1(2) e by (simp_all add: Let_def flip: dur_def t1_def)
  moreover have "nat dur \<le> U32_MAX" using dur by linarith
  ultimately show ?case using t1 own 1(3) by (simp add: sample_ok_def)
qed simp_all


lemma release_held_ok: "track_ok sc t \<Longrightarrow> track_ok sc (release_held_block t)"
  by (simp add: track_ok_def release_held_block_def)

lemma resolve_held_ok:
  assumes "resolve_held_block n t = (t', out)" "track_ok sc t"
  shows "(\<forall>s \<in> set out. sample_ok s) \<and> track_ok sc t' \<and> public t' = public t \<and> \<not> has_held_block t'"
proof (cases "has_held_block t")
  case False
  with assms show ?thesis by (simp add: resolve_held_block_def)
next
  case True
  define ds where "ds = fill_spread_durations (let total0 = last_frame_duration t * int (length (held_frames t)) in
      case n of None \<Rightarrow> total0 | Some m \<Rightarrow> if m > held_timestamp t then m - held_timestamp t else total0) (length (held_frames t))"
  obtain t1 out1 where e: "emit_frame_group t (held_timestamp t) (held_keyframe t) (held_frames t) ds = (t1, out1)" by fastforce
  have r: "t' = release_held_block t1" "out = out1"
    using assms(1) True e by (simp_all add: resolve_held_block_def Let_def ds_def)
  have h: "\<bar>held_timestamp t\<bar> \<le> WEBM_MAX_TIMESTAMP" "length (held_frames t) \<le> 256"
    "0 \<le> last_frame_duration t" "last_frame_duration t \<le> int U32_MAX"
    using assms(2) True by (simp_all add: track_ok_def WEBM_MAX_LACED_FRAMES_def)
  have "int (length (held_frames t)) * int U32_MAX \<le> 256 * int U32_MAX"
    using h(2) by (intro mult_right_mono) simp_all
  then have "held_timestamp t + int (length (held_frames t)) * int U32_MAX < 2 ^ 63"
    using h(1) by (simp add: U32_MAX_def WEBM_MAX_TIMESTAMP_def)
  with emit_frame_group_ok [OF e] h have "(\<forall>s \<in> set out1. sample_ok s) \<and> public t1 = public t \<and>
      0 \<le> last_frame_duration t1 \<and> last_frame_duration t1 \<le> int U32_MAX" by simp
  with r assms(2) show ?thesis by (simp add: track_ok_def release_held_block_def)
qed

lemma resolve_all_ok: "webm_ok d \<Longrightarrow> webm_ok (resolve_all_held_blocks d)"
proof -
  assume d: "webm_ok d"
  have t: "track_ok (timecode_scale d) (fst (resolve_held_block None t)) \<and>
      public (fst (resolve_held_block None t)) = public t \<and>
      (\<forall>s \<in> set (snd (resolve_held_block None t)). sample_ok s)" if "t \<in> set (tracks d)" for t
    using resolve_held_ok [of None t "fst (resolve_held_block None t)" "snd (resolve_held_block None t)"] d that
    by (auto simp: webm_ok_def)
  have i: "map (track_ident \<circ> public) (map (fst \<circ> resolve_held_block None) (tracks d)) = map (track_ident \<circ> public) (tracks d)"
    using t by (simp add: map_eq_conv)
  show ?thesis
    using d t i by (auto simp: webm_ok_def resolve_all_held_blocks_def Let_def simp flip: map_map)
qed

lemma drop_all_ok: "webm_ok d \<Longrightarrow> webm_ok (drop_all_held_blocks d)"
  by (auto simp: webm_ok_def drop_all_held_blocks_def release_held_ok comp_def release_held_block_def track_ok_def)

lemma set_timescale_ok: "track_ok sc t \<Longrightarrow> track_ok scale (set_timescale scale t)"
  by (auto simp: track_ok_def set_timescale_def split: if_splits)

lemma apply_scale_ok:
  assumes "webm_ok d" "1 \<le> scale" "scale \<le> WEBM_MAX_TIMECODE_SCALE"
  shows "webm_ok (apply_timecode_scale scale d)"
proof -
  define d1 where "d1 = (if scale \<noteq> timecode_scale d then resolve_all_held_blocks d else d)"
  have "webm_ok d1" using assms(1) resolve_all_ok by (simp add: d1_def)
  then show ?thesis
    using assms(2,3) set_timescale_ok
    by (auto simp: webm_ok_def apply_timecode_scale_def Let_def comp_def simp flip: d1_def)
       (simp_all add: set_timescale_def)
qed

lemma put_track_idents: "map (track_ident \<circ> public) (put_track t ts) = map (track_ident \<circ> public) ts"
  by (induction ts) auto

lemma put_track_set: "set (put_track t ts) \<subseteq> insert t (set ts)"
  by (induction ts) auto

lemma put_track_length [simp]: "length (put_track t ts) = length ts"
  by (induction ts) auto

lemma store_block_ok:
  assumes d: "webm_ok d" and t: "track_ok (timecode_scale d) t0"
    and ts: "\<bar>ts\<bar> \<le> WEBM_MAX_TIMESTAMP" and fs: "1 \<le> length fs" "length fs \<le> WEBM_MAX_LACED_FRAMES"
  shows "webm_ok (store_block d t0 ts key bd fs)"
proof -
  obtain t1 out1 where r: "resolve_held_block (Some ts) t0 = (t1, out1)" by fastforce
  note r1 = resolve_held_ok [OF r t]
  have put: "webm_ok (d\<lparr> tracks := put_track t2 (tracks d), ready := ready d @ out \<rparr>)"
    if "track_ok (timecode_scale d) t2" "\<forall>s \<in> set out. sample_ok s" for t2 out
    using d that put_track_set [of t2 "tracks d"] by (auto simp: webm_ok_def put_track_idents)
  show ?thesis
  proof (cases "known_durations d t1 bd fs")
    case None
    have "track_ok (timecode_scale d) (t1\<lparr> has_held_block := True, held_timestamp := ts, held_keyframe := key, held_frames := fs \<rparr>)"
      using r1 ts fs by (auto simp: track_ok_def)
    from put [OF this] r1 None r show ?thesis by (simp add: store_block_def Let_def)
  next
    case (Some ds)
    obtain t2 out2 where e: "emit_frame_group t1 ts key fs ds = (t2, out2)" by fastforce
    have "int (length fs) * int U32_MAX \<le> 256 * int U32_MAX"
      using fs by (intro mult_right_mono) (simp_all add: WEBM_MAX_LACED_FRAMES_def)
    then have "ts + int (length fs) * int U32_MAX < 2 ^ 63"
      using ts by (simp add: U32_MAX_def WEBM_MAX_TIMESTAMP_def)
    with emit_frame_group_ok [OF e] r1 ts have "(\<forall>s \<in> set out2. sample_ok s)" "track_ok (timecode_scale d) t2"
      by (auto simp: track_ok_def)
    with put [of t2 "out1 @ out2"] r1 Some r e show ?thesis by (auto simp: store_block_def)
  qed
qed


lemma for_children_inv:
  assumes step: "\<And>c s s'. f c s = Some s' \<Longrightarrow> P s \<Longrightarrow> P s'"
  shows "for_children f data s = Some s' \<Longrightarrow> P s \<Longrightarrow> P s'"
proof (induction data arbitrary: s rule: measure_induct_rule [where f = length])
  case (less data)
  show ?case
  proof (cases "iterator_next data")
    case (Child c rest)
    with less.prems obtain s1 where "f c s = Some s1" "for_children f rest s1 = Some s'"
      by (auto simp: for_children.simps [of f data] split: option.splits)
    with less.IH [OF iterator_next_shorter [OF Child]] step less.prems(2) show ?thesis by blast
  qed (use less.prems in \<open>simp_all add: for_children.simps [of f data]\<close>)
qed

text \<open>What the loop over a track entry leaves of a new track.\<close>

definition fresh :: "nat \<Rightarrow> webm_track \<Rightarrow> bool" where
  "fresh sc t \<longleftrightarrow> timescale (public t) = timescale_for sc \<and> last_frame_duration t = 0 \<and> \<not> has_held_block t \<and> held_frames t = []"

lemma fresh_media:
  "parse_track_video t c = Some t' \<Longrightarrow> fresh sc t \<Longrightarrow> fresh sc t'"
  "parse_track_audio t c = Some t' \<Longrightarrow> fresh sc t \<Longrightarrow> fresh sc t'"
proof -
  have v: "track_video_child c t = Some t' \<Longrightarrow> fresh sc t \<Longrightarrow> fresh sc t'" for c t t'
    by (auto simp: track_video_child_def fresh_def Let_def split: if_splits option.splits)
  have a: "track_audio_child c t = Some t' \<Longrightarrow> fresh sc t \<Longrightarrow> fresh sc t'" for c t t'
    by (auto simp: track_audio_child_def fresh_def Let_def split: if_splits option.splits)
  show "parse_track_video t c = Some t' \<Longrightarrow> fresh sc t \<Longrightarrow> fresh sc t'"
    unfolding parse_track_video_def by (rule for_children_inv [OF v])
  show "parse_track_audio t c = Some t' \<Longrightarrow> fresh sc t \<Longrightarrow> fresh sc t'"
    unfolding parse_track_audio_def by (rule for_children_inv [OF a])
qed

lemma fresh_entry: "track_entry_child c v = Some v' \<Longrightarrow> fresh sc (tv_track v) \<Longrightarrow> fresh sc (tv_track v')"
  by (auto simp: track_entry_child_def fresh_media split: if_splits) (simp_all add: fresh_def)

lemma finish_track_ok:
  "fresh sc t \<Longrightarrow> 0 < n \<Longrightarrow> n \<le> U32_MAX \<Longrightarrow> ty = 1 \<or> ty = 2 \<Longrightarrow>
   track_ok sc (finish_track n ty c t) \<and> track_ident (public (finish_track n ty c t)) = n"
  by (auto simp: fresh_def track_ok_def finish_track_def Let_def split: option.splits)

lemma parse_track_entry_ok:
  assumes "parse_track_entry sc e = Some (Some t)"
  shows "track_ok sc t"
proof -
  have n: "fresh sc (new_track sc)" by (simp add: fresh_def new_track_def)
  obtain v c where v: "for_children track_entry_child (snd e)
      \<lparr> tv_track = new_track sc, tv_number = 0, tv_type = 0, tv_codec = None \<rparr> = Some v" "tv_codec v = Some c"
    "0 < tv_number v" "tv_number v \<le> U32_MAX" "tv_type v = 1 \<or> tv_type v = 2" "t = finish_track (tv_number v) (tv_type v) c (tv_track v)"
    using assms by (auto simp: parse_track_entry_def split: option.splits if_splits)
  have "fresh sc (tv_track v)" 
    using for_children_inv [where P = "\<lambda>v. fresh sc (tv_track v)", OF fresh_entry v(1)] n by simp
  with finish_track_ok v show ?thesis by blast
qed

lemma find_track_None: "find_track ts n = None \<longleftrightarrow> n \<notin> set (map (track_ident \<circ> public) ts)"
  by (auto simp: find_track_def find_None_iff)

lemma find_track_in: "find_track ts n = Some t \<Longrightarrow> t \<in> set ts"
  by (auto simp: find_track_def find_Some_iff)

definition tracks_ok :: "nat \<Rightarrow> webm_track list \<Rightarrow> bool" where
  "tracks_ok sc ts \<longleftrightarrow> length ts \<le> WEBM_MAX_TRACKS \<and> distinct (map (track_ident \<circ> public) ts) \<and> (\<forall>t \<in> set ts. track_ok sc t)"

lemma tracks_child_ok: "tracks_child sc c ts = Some ts' \<Longrightarrow> tracks_ok sc ts \<Longrightarrow> tracks_ok sc ts'"
  by (auto simp: tracks_child_def tracks_ok_def find_track_None parse_track_entry_ok split: if_splits option.splits)

lemma parse_tracks_ok: "parse_tracks d p = Some d' \<Longrightarrow> webm_ok d \<Longrightarrow> webm_ok d'"
proof -
  assume p: "parse_tracks d p = Some d'" and d: "webm_ok d"
  then obtain ts where ts: "for_children (tracks_child (timecode_scale d)) p [] = Some ts"
    "d' = (resolve_all_held_blocks d)\<lparr> tracks := ts, has_init := True \<rparr>"
    by (auto simp: parse_tracks_def split: option.splits)
  have "tracks_ok (timecode_scale d) ts"
    using for_children_inv [where P = "tracks_ok (timecode_scale d)", OF tracks_child_ok ts(1)] by (simp add: tracks_ok_def)
  with resolve_all_ok [OF d] ts(2) show ?thesis by (simp add: webm_ok_def tracks_ok_def)
qed


lemma webm_ok_front:
  assumes "webm_ok d" "timecode_scale d' = timecode_scale d" "tracks d' = tracks d" "ready d' = ready d"
    "cluster_has_timecode d' \<longrightarrow> int (cluster_timecode d') \<le> WEBM_MAX_TIMESTAMP"
  shows "webm_ok d'"
  using assms by (simp add: webm_ok_def)

lemma parse_info_ok: "parse_info d p = Some d' \<Longrightarrow> webm_ok d \<Longrightarrow> webm_ok d'"
proof -
  assume p: "parse_info d p = Some d'" and d: "webm_ok d"
  then obtain sc du where v: "for_children info_child p (WEBM_DEFAULT_TIMECODE_SCALE, None) = Some (sc, du)"
    "d' = (apply_timecode_scale sc d)\<lparr> segment_duration := map_option (\<lambda>f. (f, sc)) du \<rparr>"
    by (auto simp: parse_info_def split: option.splits)
  have step: "info_child c v = Some v' \<Longrightarrow> 1 \<le> fst v \<and> fst v \<le> WEBM_MAX_TIMECODE_SCALE \<Longrightarrow>
      1 \<le> fst v' \<and> fst v' \<le> WEBM_MAX_TIMECODE_SCALE" for c v v'
    by (auto simp: info_child_def split: if_splits option.splits)
  have "1 \<le> sc \<and> sc \<le> WEBM_MAX_TIMECODE_SCALE"
    using for_children_inv [where P = "\<lambda>v. 1 \<le> fst v \<and> fst v \<le> WEBM_MAX_TIMECODE_SCALE", OF step v(1)]
    by (simp add: WEBM_DEFAULT_TIMECODE_SCALE_def WEBM_MAX_TIMECODE_SCALE_def)
  then have "webm_ok (apply_timecode_scale sc d)" using apply_scale_ok [OF d] by simp
  from webm_ok_front [OF this] this show ?thesis by (simp add: v(2) webm_ok_def)
qed

lemma block_timestamp_bound:
  assumes "block_timestamp d rel = Some ts"
  shows "\<bar>ts\<bar> \<le> WEBM_MAX_TIMESTAMP"
proof -
  define m where "m = int (tick_multiplier (timecode_scale d))"
  define l where "l = WEBM_MAX_TIMESTAMP div m"
  have t: "int (cluster_timecode d) + rel \<le> l" "- l \<le> int (cluster_timecode d) + rel"
    "ts = (int (cluster_timecode d) + rel) * m" and m: "0 \<le> m"
    using assms by (simp_all add: block_timestamp_def Let_def l_def m_def split: if_splits)
  have "l * m + WEBM_MAX_TIMESTAMP mod m = WEBM_MAX_TIMESTAMP" by (simp add: l_def div_mult_mod_eq)
  moreover have "0 \<le> WEBM_MAX_TIMESTAMP mod m" using m by (cases "m = 0") (simp_all add: WEBM_MAX_TIMESTAMP_def)
  ultimately have "l * m \<le> WEBM_MAX_TIMESTAMP" by linarith
  moreover have "ts \<le> l * m" "- l * m \<le> ts"
    using t mult_right_mono [OF t(1) m] mult_right_mono [OF t(2) m] by simp_all
  ultimately show ?thesis by simp
qed

lemma handle_block_ok: "handle_block d p s bd r = Some d' \<Longrightarrow> webm_ok d \<Longrightarrow> webm_ok d'"
proof -
  assume h: "handle_block d p s bd r = Some d'" and d: "webm_ok d"
  then obtain b ts where b: "parse_block_payload p = Some b" "block_timestamp d (relative_timecode b) = Some ts"
    by (auto simp: handle_block_def split: option.splits if_splits)
  show ?thesis
  proof (cases "find_track (tracks d) (track_number b)")
    case (Some t)
    with d find_track_in [OF Some] have t: "track_ok (timecode_scale d) t" by (simp add: webm_ok_def)
    obtain key where "d' = store_block d t ts key bd (block_frames p b)"
      using h b Some by (auto simp: handle_block_def Let_def split: if_splits)
    with store_block_ok [OF d t block_timestamp_bound [OF b(2)]] block_frames_facts(1,2) [OF b(1)] show ?thesis by simp
  qed (use h b d in \<open>auto simp: handle_block_def split: if_splits\<close>)
qed

lemma parse_payload_ok:
  assumes "parse_payload i p d = (d', ok)" "webm_ok d"
  shows "webm_ok d'"
proof -
  have "parse_block_group d p = Some d' \<Longrightarrow> webm_ok d'" for d'
    using handle_block_ok assms(2) by (auto simp: parse_block_group_def split: option.splits if_splits)
  with assms parse_info_ok parse_tracks_ok handle_block_ok show ?thesis
    by (auto simp: parse_payload_def handled_def Let_def split: if_splits option.splits) (auto simp: webm_ok_def)
qed


lemma buffered_ok:
  assumes "parse_buffered_element h l d = r" "webm_ok d" "r = El_Next d' \<or> r = El_Fail d' \<or> r = El_More d'"
  shows "webm_ok d'"
proof -
  obtain d1 ok where p: "parse_payload (eh_id h) (take (eh_size h) (drop (header_length h) (wm_input d))) d = (d1, ok)"
    by fastforce
  have "webm_ok d1" using parse_payload_ok [OF p assms(2)] .
  moreover from this have "webm_ok (consume_input n d1)" for n by (simp add: webm_ok_def consume_input_def)
  ultimately show ?thesis using assms p by (auto simp: parse_buffered_element_def Let_def split: if_splits)
qed

lemma consume_ok: "webm_ok d \<Longrightarrow> webm_ok (consume_input n d)"
  by (simp add: webm_ok_def consume_input_def)

lemma end_cluster_ok: "webm_ok d \<Longrightarrow> webm_ok (end_cluster d)"
  using resolve_all_ok [of d] by (simp add: webm_ok_def end_cluster_def)

lemma enter_skip_ok: "webm_ok d \<Longrightarrow> webm_ok (enter_skip h d)"
  by (simp add: webm_ok_def enter_skip_def consume_input_def)

lemma segment_ok: "webm_ok d \<Longrightarrow> webm_ok ((apply_timecode_scale WEBM_DEFAULT_TIMECODE_SCALE d)\<lparr> segment_duration := x \<rparr>)"
  using apply_scale_ok [of d WEBM_DEFAULT_TIMECODE_SCALE]
  by (simp add: webm_ok_def WEBM_DEFAULT_TIMECODE_SCALE_def WEBM_MAX_TIMECODE_SCALE_def)

lemma top_level_ok:
  assumes "process_top_level_element h d = r" "webm_ok d" "r = El_Next d' \<or> r = El_Fail d' \<or> r = El_More d'"
  shows "webm_ok d'"
proof -
  have c: "webm_ok ((consume_input n d)\<lparr> wm_context := CONTEXT_CLUSTER, cluster_has_end := e, cluster_end := m,
      cluster_has_timecode := False, cluster_timecode := 0 \<rparr>)" for n e m
    using consume_ok [OF assms(2)] by (simp add: webm_ok_def)
  show ?thesis
    using assms(1,3) c enter_skip_ok [OF assms(2)] segment_ok [OF consume_ok [OF assms(2)]] assms(2)
      buffered_ok [OF _ assms(2)]
    by (simp add: process_top_level_element_def Let_def split: if_splits) blast+
qed

lemma cluster_ok:
  assumes "process_cluster_element h d = r" "webm_ok d" "r = El_Next d' \<or> r = El_Fail d' \<or> r = El_More d'"
  shows "webm_ok d'"
  using assms(1,3) end_cluster_ok [OF assms(2)] enter_skip_ok [OF assms(2)] assms(2) buffered_ok [OF _ assms(2)]
  by (simp add: process_cluster_element_def Let_def split: if_splits) blast+

lemma input_round_ok:
  assumes "input_round d = r" "webm_ok d" "r = El_Next d' \<or> r = El_Fail d' \<or> r = El_More d'"
  shows "webm_ok d'"
proof -
  have s: "webm_ok (skipped d)" using assms(2) by (simp add: skipped_def skip_input_def consume_input_def webm_ok_def Let_def)
  show ?thesis
    using assms(1,3) s end_cluster_ok [OF s] top_level_ok [OF _ s] cluster_ok [OF _ s]
    by (auto simp: input_round_body input_body_def split: if_splits header_result.splits)
qed

lemma process_input_ok: "process_input d = Some (ok, d') \<Longrightarrow> webm_ok d \<Longrightarrow> webm_ok d'"
proof (induction d rule: measure_induct_rule [where f = work_left])
  case (less d)
  show ?case
  proof (cases "input_round d")
    case (El_Next d1)
    have "webm_ok d1" using input_round_ok [OF El_Next less.prems(2)] by simp
    with less.IH [OF input_round_less [OF El_Next]] less.prems El_Next show ?thesis by (simp add: process_input.simps [of d])
  qed (use less.prems input_round_ok [OF _ less.prems(2)] in \<open>auto simp: process_input.simps [of d]\<close>)
qed

lemma append_loop_ok: "append_loop d a = Some (ok, d') \<Longrightarrow> webm_ok d \<Longrightarrow> webm_ok d'"
proof (induction a arbitrary: d rule: measure_induct_rule [where f = length])
  case (less a)
  show ?case
  proof (cases "a = []")
    case True
    with less.prems show ?thesis by (simp add: append_loop.simps [of d "[]"])
  next
    case a: False
    show ?thesis
    proof (cases "skip_remaining d > 0 \<and> wm_input d = []")
      case True
      define n where "n = min (skip_remaining d) (length a)"
      define d1 where "d1 = d\<lparr> skip_remaining := skip_remaining d - n, wm_position := wm_position d + n \<rparr>"
      have "append_loop d1 (drop n a) = Some (ok, d')"
        using less.prems(1) a True by (simp add: append_loop.simps [of d a] Let_def n_def d1_def)
      moreover have "webm_ok d1" using less.prems(2) by (simp add: webm_ok_def d1_def)
      ultimately show ?thesis using less.IH [of "drop n a" d1] a True by (simp add: n_def)
    next
      case no: False
      define n where "n = min (length a) WEBM_MAX_APPEND_CHUNK_BYTES"
      obtain ok1 d1 where p: "process_input (ext (take n a) d) = Some (ok1, d1)"
        using process_input_returns by (metis not_None_eq prod.exhaust)
      have e: "append_loop d a = (if ok1 then append_loop d1 (drop n a) else Some (False, enter_error_state d1))"
        using a p by (subst append_loop.simps) (simp only: no if_False Let_def n_def ext_def, simp)
      have "webm_ok (ext (take n a) d)" using less.prems(2) by (simp add: webm_ok_def ext_def)
      then have d1: "webm_ok d1" using process_input_ok [OF p] by simp
      have "webm_ok (d1\<lparr> wm_error := True, wm_input := [], skip_remaining := 0 \<rparr>)"
        using d1 by (simp add: webm_ok_def)
      then have f: "webm_ok (enter_error_state d1)" by (simp add: enter_error_state_def drop_all_ok)
      have "length (drop n a) < length a" using a by (simp add: n_def WEBM_MAX_APPEND_CHUNK_BYTES_def)
      with less.IH [of "drop n a" d1] e f d1 less.prems(1) show ?thesis by (auto split: if_splits)
    qed
  qed
qed

lemma reachable_ok: "webm_reachable d \<Longrightarrow> webm_ok d"
proof (induction rule: webm_reachable.induct)
  case reach_new
  show ?case
    by (simp add: webm_ok_def ns_webm_demuxer_new_def clear_parser_state_def WEBM_DEFAULT_TIMECODE_SCALE_def
        WEBM_MAX_TIMECODE_SCALE_def)
next
  case (reach_append d data ok d')
  then show ?case using append_loop_ok by (auto simp: ns_webm_demuxer_append_def split: if_splits)
next
  case (reach_pop d s d')
  then show ?case by (auto simp: ns_webm_demuxer_pop_sample_def webm_ok_def split: list.splits)
next
  case (reach_flush d)
  then show ?case using resolve_all_ok by (simp add: ns_webm_demuxer_flush_def)
next
  case (reach_reset d)
  have "webm_ok (if wm_error d then d else resolve_all_held_blocks d)" using reach_reset.IH resolve_all_ok by simp
  then show ?case by (simp add: ns_webm_demuxer_reset_parser_def clear_parser_state_def webm_ok_def)
qed

text \<open>
  C11: in every demuxer a client can get, whatever bytes it was fed and whatever calls were made, the
  tracks are at most 64 with distinct numbers between 1 and \<open>2^32 - 1\<close>, each with the timescale of the
  current timecode scale; a held block has between 1 and 256 frames, so no division by its frame count is
  one by zero; and every sample that waits has a duration of 32 bits and a timestamp to which that duration
  can be added without leaving the 64 bits of a gint64.
\<close>

theorem webm_ranges: "webm_reachable d \<Longrightarrow> webm_ok d"
  by (rule reachable_ok)

theorem webm_ranges_witness: "webm_ok (ns_webm_demuxer_flush ns_webm_demuxer_new)"
  by (rule webm_ranges [OF reach_flush [OF reach_new]])

section \<open>Errors\<close>

definition grows :: "ns_webm_demuxer \<Rightarrow> ns_webm_demuxer \<Rightarrow> bool" where
  "grows d d' \<longleftrightarrow> (\<exists>more. ready d' = ready d @ more)"

lemma grows_same: "ready d' = ready d \<Longrightarrow> grows d d'"
  by (simp add: grows_def)

lemma grows_trans [trans]: "grows d e \<Longrightarrow> grows e f \<Longrightarrow> grows d f"
  by (auto simp: grows_def)

lemma grows_resolve: "grows d (resolve_all_held_blocks d)"
  by (simp add: grows_def resolve_all_held_blocks_def Let_def)

lemma grows_scale: "grows d (apply_timecode_scale sc d)"
  using grows_resolve [of d] by (simp add: grows_def apply_timecode_scale_def Let_def)

lemma grows_block: "handle_block d p s bd r = Some d' \<Longrightarrow> grows d d'"
  by (auto simp: handle_block_def store_block_def grows_def Let_def split: option.splits if_splits prod.splits)

lemma grows_payload: "parse_payload i p d = (d', ok) \<Longrightarrow> grows d d'"
  using grows_block grows_resolve [of d] grows_scale [of d]
  by (auto simp: parse_payload_def handled_def parse_info_def parse_tracks_def parse_block_group_def Let_def
      split: if_splits option.splits) (simp_all add: grows_def)

lemma ready_front [simp]:
  "ready (consume_input n d) = ready d" "ready (enter_skip h d) = ready d" "ready (skipped d) = ready d"
  "ready (ext b d) = ready d" "ready (enter_error_state d) = ready d"
  by (simp_all add: consume_input_def enter_skip_def skipped_def skip_input_def Let_def ext_def
      enter_error_state_def drop_all_held_blocks_def)

lemma grows_end: "grows d (end_cluster d)"
  using grows_resolve [of d] by (simp add: grows_def end_cluster_def)

lemma grows_buffered:
  assumes "parse_buffered_element h l d = r" "r = El_Next d' \<or> r = El_Fail d' \<or> r = El_More d'"
  shows "grows d d'"
proof -
  obtain d1 ok where p: "parse_payload (eh_id h) (take (eh_size h) (drop (header_length h) (wm_input d))) d = (d1, ok)"
    by fastforce
  show ?thesis using assms p grows_payload [OF p]
    by (auto simp: parse_buffered_element_def Let_def grows_def split: if_splits)
qed

lemma grows_segment: "grows d ((apply_timecode_scale sc (consume_input n d))\<lparr> segment_duration := x \<rparr>)"
  using grows_scale [of "consume_input n d" sc] by (simp add: grows_def)

lemma grows_element:
  assumes "r = El_Next d' \<or> r = El_Fail d' \<or> r = El_More d'"
  shows "process_top_level_element h d = r \<Longrightarrow> grows d d'" "process_cluster_element h d = r \<Longrightarrow> grows d d'"
proof -
  have e: "grows d (enter_skip h d)" "grows d d"
     "grows d ((consume_input n d)\<lparr> wm_context := CONTEXT_CLUSTER, cluster_has_end := e, cluster_end := m,
      cluster_has_timecode := False, cluster_timecode := 0 \<rparr>)" for n e m
    by (simp_all add: grows_same)
  show "process_top_level_element h d = r \<Longrightarrow> grows d d'"
    using assms e grows_segment [of d] grows_buffered [of h _ d]
    by (simp add: process_top_level_element_def Let_def split: if_splits) blast+
  show "process_cluster_element h d = r \<Longrightarrow> grows d d'"
    using assms e grows_end [of d] grows_buffered [of h _ d]
    by (simp add: process_cluster_element_def Let_def split: if_splits) blast+
qed

lemma grows_round:
  assumes "input_round d = r" "r = El_Next d' \<or> r = El_Fail d' \<or> r = El_More d'"
  shows "grows d d'"
proof -
  have "grows (skipped d) d'"
    using assms grows_end [of "skipped d"] grows_element grows_same [of "skipped d" "skipped d"]
    by (auto simp: input_round_body input_body_def split: if_splits header_result.splits)
  then show ?thesis by (simp add: grows_def)
qed

lemma grows_process: "process_input d = Some (ok, d') \<Longrightarrow> grows d d'"
proof (induction d rule: measure_induct_rule [where f = work_left])
  case (less d)
  show ?case
  proof (cases "input_round d")
    case (El_Next d1)
    have "grows d d1" using grows_round [OF El_Next] by simp
    with less.IH [OF input_round_less [OF El_Next]] less.prems El_Next grows_trans show ?thesis
      by (auto simp: process_input.simps [of d])
  qed (use less.prems grows_round in \<open>auto simp: process_input.simps [of d]\<close>)
qed

lemma append_loop_grows: "append_loop d a = Some (ok, d') \<Longrightarrow> grows d d'"
proof (induction a arbitrary: d rule: measure_induct_rule [where f = length])
  case (less a)
  show ?case
  proof (cases "a = []")
    case True
    with less.prems show ?thesis by (simp add: append_loop.simps [of d "[]"] grows_same)
  next
    case a: False
    show ?thesis
    proof (cases "skip_remaining d > 0 \<and> wm_input d = []")
      case True
      define n where "n = min (skip_remaining d) (length a)"
      define d1 where "d1 = d\<lparr> skip_remaining := skip_remaining d - n, wm_position := wm_position d + n \<rparr>"
      have "append_loop d1 (drop n a) = Some (ok, d')"
        using less.prems(1) a True by (simp add: append_loop.simps [of d a] Let_def n_def d1_def)
      then have "grows d1 d'" using less.IH [of "drop n a" d1] a True by (simp add: n_def)
      then show ?thesis by (simp add: grows_def d1_def)
    next
      case no: False
      define n where "n = min (length a) WEBM_MAX_APPEND_CHUNK_BYTES"
      obtain ok1 d1 where p: "process_input (ext (take n a) d) = Some (ok1, d1)"
        using process_input_returns by (metis not_None_eq prod.exhaust)
      have e: "append_loop d a = (if ok1 then append_loop d1 (drop n a) else Some (False, enter_error_state d1))"
        using a p by (subst append_loop.simps) (simp only: no if_False Let_def n_def ext_def, simp)
      have "grows d d1" using grows_process [OF p] by (simp add: grows_def)
      moreover have "length (drop n a) < length a" using a by (simp add: n_def WEBM_MAX_APPEND_CHUNK_BYTES_def)
      then have "grows d1 d'"
        using less.IH [of "drop n a" d1] e less.prems by (cases ok1) (auto intro: grows_same)
      ultimately show ?thesis by (rule grows_trans)
    qed
  qed
qed

text \<open>
  C14: a failed append is one the demuxer remembers: it fails exactly when the demuxer is left in the error
  state, in which it has given up the blocks it held back and its input and refuses more bytes without a
  change; but the samples that were ready stay ready and in front, whether the append fails or not.
\<close>

theorem webm_failure:
  assumes "ns_webm_demuxer_append d data = Some (ok, d')"
  shows "(ok \<longleftrightarrow> \<not> wm_error d') \<and> (\<exists>more. ready d' = ready d @ more) \<and>
    (\<not> wm_error d \<and> \<not> ok \<longrightarrow> wm_input d' = [] \<and> (\<forall>t \<in> set (tracks d'). \<not> has_held_block t)) \<and>
    (\<not> ok \<longrightarrow> (\<forall>b. ns_webm_demuxer_append d' b = Some (False, d')))"
proof (cases "wm_error d")
  case True
  with assms show ?thesis by (simp add: ns_webm_demuxer_append_def)
next
  case False
  with assms have l: "append_loop d data = Some (ok, d')" by (simp add: ns_webm_demuxer_append_def)
  have "wm_error (enter_error_state d1) \<and> wm_input (enter_error_state d1) = [] \<and>
      (\<forall>t \<in> set (tracks (enter_error_state d1)). \<not> has_held_block t)" for d1
    by (simp add: enter_error_state_def drop_all_held_blocks_def release_held_block_def)
  with append_loop_process [OF l] append_loop_grows [OF l] False show ?thesis
    by (auto simp: grows_def ns_webm_demuxer_append_def split: if_splits)
qed

theorem webm_failure_witness:
  "\<exists>d'. ns_webm_demuxer_append ns_webm_demuxer_new [0] = Some (False, d') \<and> wm_error d' \<and>
     ns_webm_demuxer_append d' [0x1A] = Some (False, d')"
proof -
  define d0 where "d0 = ns_webm_demuxer_new\<lparr> wm_input := [0] \<rparr>"
  have h: "read_element_header [0] = HEADER_INVALID" by code_simp
  have f: "skip_remaining d0 = 0" "wm_context d0 = CONTEXT_TOP" "wm_input d0 = [0]"
    by (simp_all add: d0_def ns_webm_demuxer_new_def clear_parser_state_def)
  have "input_round d0 = El_Fail d0" using f h by (simp add: input_round_def)
  then have p: "process_input d0 = Some (False, d0)" by (simp add: process_input.simps [of d0])
  have n: "\<not> wm_error ns_webm_demuxer_new" "wm_input ns_webm_demuxer_new = []" "skip_remaining ns_webm_demuxer_new = 0"
    by (simp_all add: ns_webm_demuxer_new_def clear_parser_state_def)
  have "append_loop ns_webm_demuxer_new [0] = Some (False, enter_error_state d0)"
    using p n by (simp add: append_loop.simps [of ns_webm_demuxer_new "[0]"] WEBM_MAX_APPEND_CHUNK_BYTES_def flip: d0_def)
  with n have "ns_webm_demuxer_append ns_webm_demuxer_new [0] = Some (False, enter_error_state d0)"
    by (simp add: ns_webm_demuxer_append_def)
  with webm_failure [OF this] show ?thesis by simp
qed

end
