(* ===== verification/CssSyntax.thy ===== *)
theory CssSyntax
  imports Prelude "HOL-Library.Sublist"
begin

text \<open>
  The CSS tokenizer and component-value parser (\<^verbatim>\<open>css_syntax.c\<close>).  An offset into the input is the
  list from there on, together with the length of the input where the code stores the offset itself.  The
  number of a numeric token is kept as the text that \<^verbatim>\<open>g_ascii_strtod\<close> reads.  The two functions
  that call each other, for a list and for one value, are one loop with the recursion in it; that it
  returns is proved, and \<open>css_syntax_consume\<close> and \<open>css_syntax_parse_list\<close> are defined by it.
\<close>

section \<open>Characters and escapes\<close>

definition BACKSLASH :: char where "BACKSLASH = CHR 0x5C"

definition is_newline :: "char \<Rightarrow> bool" where
  "is_newline c \<longleftrightarrow> code_of c \<in> {10, 13, 12}"

definition css_syntax_name_start :: "char \<Rightarrow> bool" where
  "css_syntax_name_start c \<longleftrightarrow> g_ascii_isalpha c \<or> c = CHR ''_'' \<or> code_of c \<ge> 128"

definition css_syntax_name :: "char \<Rightarrow> bool" where
  "css_syntax_name c \<longleftrightarrow> css_syntax_name_start c \<or> g_ascii_isdigit c \<or> c = CHR ''-''"

text \<open>Up to \<open>n\<close> hexadecimal digits.\<close>

fun skip_hex :: "nat \<Rightarrow> cstr \<Rightarrow> cstr" where
  "skip_hex (Suc n) (c # s) = (if g_ascii_isxdigit c then skip_hex n s else c # s)"
| "skip_hex _ s = s"

definition css_syntax_escape_end :: "cstr \<Rightarrow> cstr" where
  "css_syntax_escape_end s =
     (if s = [] \<or> hd s \<noteq> BACKSLASH then s
      else if tl s = [] then []
      else
        let c = hd (tl s) in
        if g_ascii_isxdigit c then
          (let r = skip_hex 6 (tl s) in if r \<noteq> [] \<and> ns_is_ascii_ws (hd r) then tl r else r)
        else if is_newline c then s
        else tl (tl s))"

lemma skip_hex_length: "length (skip_hex n s) \<le> length s"
  by (induction n s rule: skip_hex.induct) auto

lemma escape_end_length: "length (css_syntax_escape_end s) \<le> length s"
  using skip_hex_length [of 6 "tl s"] by (auto simp: css_syntax_escape_end_def Let_def)

function css_syntax_name_end :: "cstr \<Rightarrow> cstr" where
  "css_syntax_name_end s =
     (if s = [] then []
      else if css_syntax_name (hd s) then css_syntax_name_end (tl s)
      else if hd s = BACKSLASH then
        (let next = css_syntax_escape_end s in
         if length next = length s then s else css_syntax_name_end next)
      else s)"
  by pat_completeness auto
termination
  by (relation "measure length") (auto intro: le_neq_implies_less [OF escape_end_length])

declare css_syntax_name_end.simps [simp del]

definition css_syntax_valid_escape :: "cstr \<Rightarrow> bool" where
  "css_syntax_valid_escape s \<longleftrightarrow> length s > 1 \<and> hd s = BACKSLASH \<and> \<not> is_newline (s ! 1)"

definition css_syntax_starts_ident :: "cstr \<Rightarrow> bool" where
  "css_syntax_starts_ident s =
     (if s = [] then False
      else
        let a = hd s in
        if css_syntax_name_start a then True
        else if a = BACKSLASH then css_syntax_valid_escape s
        else if a \<noteq> CHR ''-'' then False
        else if length s \<le> 1 then False
        else
          let b = s ! 1 in
          css_syntax_name_start b \<or> b = CHR ''-'' \<or> css_syntax_valid_escape (tl s))"

text \<open>The character at an offset, NUL behind the end.\<close>

definition char_or_nul :: "cstr \<Rightarrow> nat \<Rightarrow> char" where
  "char_or_nul s i = (if i < length s then s ! i else CHR 0x00)"

definition css_syntax_starts_number :: "cstr \<Rightarrow> bool" where
  "css_syntax_starts_number s =
     (if s = [] then False
      else
        let a = hd s; b = char_or_nul s 1; c = char_or_nul s 2 in
        if g_ascii_isdigit a then True
        else if a = CHR ''.'' then g_ascii_isdigit b
        else if a = CHR ''+'' \<or> a = CHR ''-'' then g_ascii_isdigit b \<or> b = CHR ''.'' \<and> g_ascii_isdigit c
        else False)"

definition skip_sign :: "cstr \<Rightarrow> cstr" where
  "skip_sign s = (if s \<noteq> [] \<and> (hd s = CHR ''+'' \<or> hd s = CHR ''-'') then tl s else s)"

definition skip_fraction :: "cstr \<Rightarrow> cstr" where
  "skip_fraction s =
     (if length s > 1 \<and> hd s = CHR ''.'' \<and> g_ascii_isdigit (s ! 1) then dropWhile g_ascii_isdigit (tl s) else s)"

definition skip_exponent :: "cstr \<Rightarrow> cstr" where
  "skip_exponent s =
     (if s \<noteq> [] \<and> (hd s = CHR ''e'' \<or> hd s = CHR ''E'') then
        (let x = skip_sign (tl s) in
         if x \<noteq> [] \<and> g_ascii_isdigit (hd x) then dropWhile g_ascii_isdigit (tl x) else s)
      else s)"

definition css_syntax_number_end :: "cstr \<Rightarrow> cstr" where
  "css_syntax_number_end s = skip_exponent (skip_fraction (dropWhile g_ascii_isdigit (skip_sign s)))"

section \<open>Component values\<close>

datatype ns_css_component_type =
  NS_CSS_COMPONENT_WHITESPACE | NS_CSS_COMPONENT_IDENT | NS_CSS_COMPONENT_FUNCTION | NS_CSS_COMPONENT_STRING
| NS_CSS_COMPONENT_NUMBER | NS_CSS_COMPONENT_PERCENTAGE | NS_CSS_COMPONENT_DIMENSION | NS_CSS_COMPONENT_HASH
| NS_CSS_COMPONENT_AT_KEYWORD | NS_CSS_COMPONENT_COLON | NS_CSS_COMPONENT_SEMICOLON | NS_CSS_COMPONENT_COMMA
| NS_CSS_COMPONENT_DELIM | NS_CSS_COMPONENT_BLOCK

text \<open>\<open>comp_value\<close> holds the bytes between the offsets the code copies from; \<open>comp_delimiter\<close> is NUL where
  the code leaves it zero.\<close>

datatype ns_css_component =
  Component (comp_type: ns_css_component_type) (comp_start: nat) (comp_end: nat) (comp_value: "cstr option")
    (comp_number: "cstr option") (comp_children: "ns_css_component list option") (comp_delimiter: char)

record ns_css_syntax_parser =
  ps_input :: cstr      \<comment> \<open>the input from \<open>offset\<close> on\<close>
  ps_length :: nat
  ps_depth :: nat
  ps_valid :: bool

definition CSS_SYNTAX_MAX_DEPTH :: nat where "CSS_SYNTAX_MAX_DEPTH = 512"

definition offset_at :: "ns_css_syntax_parser \<Rightarrow> cstr \<Rightarrow> nat" where
  "offset_at p s = ps_length p - length s"

abbreviation ps_offset :: "ns_css_syntax_parser \<Rightarrow> nat" where
  "ps_offset p \<equiv> offset_at p (ps_input p)"

text \<open>The input behind a comment's \<open>/*\<close>, then behind its \<open>*/\<close>.\<close>

fun comment_rest :: "cstr \<Rightarrow> cstr" where
  "comment_rest (a # b # s) = (if a = CHR ''*'' \<and> b = CHR ''/'' then s else comment_rest (b # s))"
| "comment_rest _ = []"

definition css_syntax_skip_comment :: "ns_css_syntax_parser \<Rightarrow> ns_css_syntax_parser" where
  "css_syntax_skip_comment p = p\<lparr> ps_input := comment_rest (drop 2 (ps_input p)) \<rparr>"

text \<open>The loop of \<^verbatim>\<open>css_syntax_consume_string\<close>: the value, the rest and whether the string is well-formed.\<close>

function string_loop :: "char \<Rightarrow> cstr \<Rightarrow> cstr \<Rightarrow> cstr \<times> cstr \<times> bool" where
  "string_loop quote s val =
     (if s = [] then (val, [], True)
      else
        let c = hd s; r = tl s in
        if c = quote then (val, r, True)
        else if is_newline c then (val, r, False)
        else if c = BACKSLASH \<and> r \<noteq> [] then
          (let next = css_syntax_escape_end s in
           if length next = length s then (val, r, False)
           else string_loop quote next (val @ text_between s next))
        else string_loop quote r (val @ [c]))"
  by pat_completeness auto
termination
  by (relation "measure (\<lambda>(q, s, v). length s)") (auto intro: le_neq_implies_less [OF escape_end_length])

declare string_loop.simps [simp del]

definition css_syntax_consume_string :: "ns_css_syntax_parser \<Rightarrow> ns_css_component \<times> ns_css_syntax_parser" where
  "css_syntax_consume_string p =
     (let quote = hd (ps_input p) in
      case string_loop quote (tl (ps_input p)) [] of
        (val, rest, ok) \<Rightarrow>
          (Component NS_CSS_COMPONENT_STRING (ps_offset p) (offset_at p rest) (Some val) None None quote,
           p\<lparr> ps_input := rest, ps_valid := ps_valid p \<and> ok \<rparr>))"

definition css_syntax_consume_numeric :: "ns_css_syntax_parser \<Rightarrow> ns_css_component \<times> ns_css_syntax_parser" where
  "css_syntax_consume_numeric p =
     (let start = ps_input p;
          number_end = css_syntax_number_end start;
          (ty, rest) = (if number_end \<noteq> [] \<and> hd number_end = CHR ''%'' then (NS_CSS_COMPONENT_PERCENTAGE, tl number_end)
                        else if css_syntax_starts_ident number_end
                        then (NS_CSS_COMPONENT_DIMENSION, css_syntax_name_end number_end)
                        else (NS_CSS_COMPONENT_NUMBER, number_end))
      in (Component ty (ps_offset p) (offset_at p rest) (Some (text_between number_end rest))
            (Some (text_between start number_end)) None (CHR 0x00),
          p\<lparr> ps_input := rest \<rparr>))"

text \<open>
  \<^verbatim>\<open>css_syntax_consume_ident\<close> up to the children of a function: the type, the value and the parser behind
  the name and, for a function, behind its parenthesis.
\<close>

definition consume_name ::
  "bool \<Rightarrow> bool \<Rightarrow> ns_css_syntax_parser \<Rightarrow> ns_css_component_type \<times> cstr \<times> ns_css_syntax_parser" where
  "consume_name at hash p =
     (let name_start = (if at \<or> hash then tl (ps_input p) else ps_input p);
          rest = css_syntax_name_end name_start;
          ty = (if at then NS_CSS_COMPONENT_AT_KEYWORD else if hash then NS_CSS_COMPONENT_HASH else NS_CSS_COMPONENT_IDENT)
      in if \<not> at \<and> \<not> hash \<and> rest \<noteq> [] \<and> hd rest = CHR ''(''
         then (NS_CSS_COMPONENT_FUNCTION, text_between name_start rest, p\<lparr> ps_input := tl rest \<rparr>)
         else (ty, text_between name_start rest, p\<lparr> ps_input := rest \<rparr>))"

text \<open>
  What one value begins with: it is complete, or its children up to \<open>closing\<close> are still to be parsed.
\<close>

datatype css_head =
  Whole ns_css_component ns_css_syntax_parser
| Opening ns_css_component_type "cstr option" char ns_css_syntax_parser

definition ident_head :: "bool \<Rightarrow> bool \<Rightarrow> ns_css_syntax_parser \<Rightarrow> css_head" where
  "ident_head at hash p =
     (case consume_name at hash p of
        (ty, val, p1) \<Rightarrow>
          if ty = NS_CSS_COMPONENT_FUNCTION then Opening ty (Some val) (CHR '')'') p1
          else Whole (Component ty (ps_offset p) (ps_offset p1) (Some val) None None (CHR 0x00)) p1)"

definition closing_of :: "char \<Rightarrow> char" where
  "closing_of c = (if c = CHR ''('' then CHR '')'' else if c = CHR ''['' then CHR '']'' else CHR ''}'')"

definition css_syntax_head :: "ns_css_syntax_parser \<Rightarrow> css_head" where
  "css_syntax_head p =
     (let s = ps_input p; c = hd s in
      if ns_is_ascii_ws c then
        (let rest = dropWhile ns_is_ascii_ws s in
         Whole (Component NS_CSS_COMPONENT_WHITESPACE (ps_offset p) (offset_at p rest) None None None (CHR 0x00))
           (p\<lparr> ps_input := rest \<rparr>))
      else if c = CHR 0x22 \<or> c = CHR 0x27 then (case css_syntax_consume_string p of (cmp, p1) \<Rightarrow> Whole cmp p1)
      else if css_syntax_starts_number s then (case css_syntax_consume_numeric p of (cmp, p1) \<Rightarrow> Whole cmp p1)
      else if c = CHR ''@'' \<and> css_syntax_starts_ident (tl s) then ident_head True False p
      else if c = CHR ''#'' \<and> length s > 1 \<and> (css_syntax_name (s ! 1) \<or> css_syntax_valid_escape (tl s))
      then ident_head False True p
      else if css_syntax_starts_ident s then ident_head False False p
      else
        let p1 = p\<lparr> ps_input := tl s \<rparr>;
            ty = (if c = CHR '':'' then NS_CSS_COMPONENT_COLON else if c = CHR '';'' then NS_CSS_COMPONENT_SEMICOLON
                  else if c = CHR '','' then NS_CSS_COMPONENT_COMMA else NS_CSS_COMPONENT_DELIM)
        in if c = CHR ''('' \<or> c = CHR ''['' \<or> c = CHR ''{''
           then Opening NS_CSS_COMPONENT_BLOCK None (closing_of c) p1
           else Whole (Component ty (ps_offset p) (ps_offset p1) None None None c) p1)"

text \<open>The step of a list in front of the next value.\<close>

datatype list_step = List_End ns_css_syntax_parser | List_Skip ns_css_syntax_parser | List_Value

definition list_step :: "char option \<Rightarrow> ns_css_syntax_parser \<Rightarrow> list_step" where
  "list_step closing p =
     (let s = ps_input p in
      if s = [] then List_End p
      else if hd s = CHR ''/'' \<and> length s > 1 \<and> s ! 1 = CHR ''*'' then List_Skip (css_syntax_skip_comment p)
      else if closing = Some (hd s) then List_End (p\<lparr> ps_input := tl s \<rparr>)
      else if hd s = CHR '')'' \<or> hd s = CHR '']'' \<or> hd s = CHR ''}'' then
        (if closing \<noteq> None then List_End (p\<lparr> ps_input := tl s, ps_valid := False \<rparr>)
         else List_Skip (p\<lparr> ps_input := tl s, ps_valid := False \<rparr>))
      else List_Value)"

definition enter_list :: "ns_css_syntax_parser \<Rightarrow> ns_css_syntax_parser option" where
  "enter_list p =
     (if ps_depth p + 1 > CSS_SYNTAX_MAX_DEPTH then None else Some (p\<lparr> ps_depth := ps_depth p + 1 \<rparr>))"

definition too_deep :: "ns_css_syntax_parser \<Rightarrow> ns_css_syntax_parser" where
  "too_deep p = p\<lparr> ps_valid := False, ps_input := [] \<rparr>"

definition leave_list :: "ns_css_syntax_parser \<Rightarrow> ns_css_syntax_parser" where
  "leave_list p = p\<lparr> ps_depth := ps_depth p - 1 \<rparr>"

definition opened_component ::
  "ns_css_syntax_parser \<Rightarrow> ns_css_component_type \<Rightarrow> cstr option \<Rightarrow> char \<Rightarrow> ns_css_component list \<Rightarrow>
   ns_css_syntax_parser \<Rightarrow> ns_css_component" where
  "opened_component p ty val cl cs p2 = Component ty (ps_offset p) (ps_offset p2) val None (Some cs) cl"

text \<open>The loop of \<^verbatim>\<open>css_syntax_parse_list\<close>, with \<^verbatim>\<open>css_syntax_consume\<close> and the lists inside in it.\<close>

partial_function (option) parse_loop ::
  "char option \<Rightarrow> ns_css_syntax_parser \<Rightarrow> (ns_css_component list \<times> ns_css_syntax_parser) option" where
  "parse_loop closing p =
     (case list_step closing p of
        List_End p1 \<Rightarrow> Some ([], p1)
      | List_Skip p1 \<Rightarrow> parse_loop closing p1
      | List_Value \<Rightarrow>
          (case css_syntax_head p of
             Whole cmp p1 \<Rightarrow>
               Option.bind (parse_loop closing p1) (\<lambda>(cs, p2). Some (cmp # cs, p2))
           | Opening ty val cl p1 \<Rightarrow>
               Option.bind
                 (case enter_list p1 of
                    None \<Rightarrow> Some ([], too_deep p1)
                  | Some p2 \<Rightarrow> Option.bind (parse_loop (Some cl) p2) (\<lambda>(ch, p3). Some (ch, leave_list p3)))
                 (\<lambda>(ch, p4). Option.bind (parse_loop closing p4)
                    (\<lambda>(cs, p5). Some (opened_component p ty val cl ch p4 # cs, p5)))))"

definition css_syntax_parse_list ::
  "ns_css_syntax_parser \<Rightarrow> char option \<Rightarrow> (ns_css_component list \<times> ns_css_syntax_parser) option" where
  "css_syntax_parse_list p closing =
     (case enter_list p of
        None \<Rightarrow> Some ([], too_deep p)
      | Some p1 \<Rightarrow> map_option (\<lambda>(cs, p2). (cs, leave_list p2)) (parse_loop closing p1))"

definition css_syntax_consume ::
  "ns_css_syntax_parser \<Rightarrow> (ns_css_component \<times> ns_css_syntax_parser) option" where
  "css_syntax_consume p =
     (case css_syntax_head p of
        Whole cmp p1 \<Rightarrow> Some (cmp, p1)
      | Opening ty val cl p1 \<Rightarrow>
          map_option (\<lambda>(ch, p4). (opened_component p ty val cl ch p4, p4)) (css_syntax_parse_list p1 (Some cl)))"

definition ns_css_component_values_parse :: "cstr option \<Rightarrow> (ns_css_component list \<times> bool) option" where
  "ns_css_component_values_parse input =
     (let s = (case input of None \<Rightarrow> [] | Some s \<Rightarrow> s) in
      map_option (\<lambda>(cs, p). (cs, ps_valid p))
        (css_syntax_parse_list \<lparr> ps_input = s, ps_length = length s, ps_depth = 0, ps_valid = True \<rparr> None))"

definition ns_css_component_value_valid :: "cstr option \<Rightarrow> bool option" where
  "ns_css_component_value_valid input = map_option snd (ns_css_component_values_parse input)"

section \<open>Suffixes\<close>

text \<open>Every function that skips leaves a suffix of what it is given.\<close>

lemma tail_skip_hex: "tail_of (skip_hex n s) s"
proof (induction n s rule: skip_hex.induct)
  case (1 n c s)
  then show ?case using tail_of_tl [of _ "c # s"] by simp
qed auto

lemma tail_escape: "tail_of (css_syntax_escape_end s) s"
  using tail_skip_hex [of 6 "tl s"]
  by (auto simp: css_syntax_escape_end_def Let_def intro: tl_tail_of tail_of_tl)

lemma name_end_steps:
  "s \<noteq> [] \<Longrightarrow> css_syntax_name (hd s) \<Longrightarrow> css_syntax_name_end s = css_syntax_name_end (tl s)"
  "s = [] \<or> \<not> css_syntax_name (hd s) \<and> hd s \<noteq> BACKSLASH \<Longrightarrow> css_syntax_name_end s = s"
  "s \<noteq> [] \<Longrightarrow> \<not> css_syntax_name (hd s) \<Longrightarrow> hd s = BACKSLASH \<Longrightarrow>
     css_syntax_name_end s = (if length (css_syntax_escape_end s) = length s then s
       else css_syntax_name_end (css_syntax_escape_end s))"
  by (subst css_syntax_name_end.simps; auto simp: Let_def)+

lemma tail_name: "tail_of (css_syntax_name_end s) s"
proof (induction s rule: measure_induct_rule [where f = length])
  case (less s)
  consider "s = [] \<or> \<not> css_syntax_name (hd s) \<and> hd s \<noteq> BACKSLASH" | "s \<noteq> []" "css_syntax_name (hd s)"
    | "s \<noteq> []" "\<not> css_syntax_name (hd s)" "hd s = BACKSLASH" by blast
  then show ?case
  proof cases
    case 1
    then show ?thesis by (simp add: name_end_steps(2))
  next
    case 2
    then show ?thesis using less [of "tl s"] tail_of_tl by (simp add: name_end_steps(1))
  next
    case 3
    have "length (css_syntax_escape_end s) = length s \<or> length (css_syntax_escape_end s) < length s"
      using escape_end_length [of s] by linarith
    with less [of "css_syntax_escape_end s"] tail_of_trans [OF _ tail_escape [of s]] show ?thesis
      by (auto simp: name_end_steps(3) [OF 3])
  qed
qed

lemma tail_sign: "tail_of (skip_sign s) s"
  by (auto simp: skip_sign_def intro: tail_of_tl)

lemma tail_fraction: "tail_of (skip_fraction s) s"
  by (auto simp: skip_fraction_def intro: tail_of_tl tail_dropWhile)

lemma tail_exponent: "tail_of (skip_exponent s) s"
proof -
  have "tail_of (dropWhile g_ascii_isdigit (tl (skip_sign (tl s)))) s"
    using tail_dropWhile [of g_ascii_isdigit "tl (skip_sign (tl s))"] tail_sign [of "tl s"]
    by (meson tail_of_tl tail_of_trans)
  then show ?thesis by (simp add: skip_exponent_def Let_def)
qed

lemma tail_number: "tail_of (css_syntax_number_end s) s"
  unfolding css_syntax_number_end_def
  using tail_exponent tail_fraction tail_dropWhile tail_sign tail_of_trans by meson

lemma tail_comment: "tail_of (comment_rest s) s"
proof (induction s rule: comment_rest.induct)
  case (1 a b s)
  then show ?case using tail_of_tl [of _ "a # b # s"] by (auto simp: tail_of_def)
qed auto

lemma tail_string: "string_loop q s val = (v, r, ok) \<Longrightarrow> tail_of r s"
proof (induction q s val rule: string_loop.induct)
  case (1 q s val)
  have e: "tail_of (css_syntax_escape_end s) s" by (rule tail_escape)
  show ?case
    using 1 e by (auto simp: string_loop.simps [of q s] Let_def split: if_splits intro: tail_of_tl tail_of_trans)
qed

lemma name_end_shorter: "css_syntax_starts_ident s \<Longrightarrow> length (css_syntax_name_end s) < length s"
proof -
  assume s: "css_syntax_starts_ident s"
  have t: "length (css_syntax_name_end r) \<le> length r" for r using tail_of_length [OF tail_name] .
  have ne: "s \<noteq> []" using s by (auto simp: css_syntax_starts_ident_def)
  show ?thesis
  proof (cases "css_syntax_name (hd s)")
    case True
    have "length (css_syntax_name_end (tl s)) < length s" using ne t [of "tl s"] by (cases s) simp_all
    then show ?thesis by (simp add: name_end_steps(1) [OF ne True])
  next
    case False
    with s ne have b: "hd s = BACKSLASH" "css_syntax_valid_escape s"
      by (auto simp: css_syntax_starts_ident_def css_syntax_name_def Let_def split: if_splits)
    then have "length (css_syntax_escape_end s) < length s"
      using skip_hex_length [of 6 "tl s"] ne
      by (cases s; cases "tl s") (auto simp: css_syntax_valid_escape_def css_syntax_escape_end_def Let_def)
    with False ne b t [of "css_syntax_escape_end s"] show ?thesis
      by (simp add: name_end_steps(3))
  qed
qed


lemma number_end_shorter: "css_syntax_starts_number s \<Longrightarrow> length (css_syntax_number_end s) < length s"
proof -
  assume s: "css_syntax_starts_number s"
  define a where "a = dropWhile g_ascii_isdigit (skip_sign s)"
  define b where "b = skip_fraction a"
  have ab: "length b \<le> length a" using tail_of_length [OF tail_fraction] by (simp add: b_def)
  have as: "length a \<le> length (skip_sign s)" by (simp add: a_def length_dropWhile_le)
  have e: "length (css_syntax_number_end s) \<le> length b"
    using tail_of_length [OF tail_exponent] by (simp add: css_syntax_number_end_def a_def b_def)
  have ne: "s \<noteq> []" using s by (auto simp: css_syntax_starts_number_def)
  show ?thesis
  proof (cases "hd s = CHR ''+'' \<or> hd s = CHR ''-''")
    case True
    then have "length (skip_sign s) < length s" using ne by (auto simp: skip_sign_def)
    with e ab as show ?thesis by linarith
  next
    case False
    then have k: "skip_sign s = s" by (simp add: skip_sign_def)
    show ?thesis
    proof (cases "g_ascii_isdigit (hd s)")
      case True
      then have "length a < length s" using ne k length_dropWhile_le [of g_ascii_isdigit "tl s"]
        by (cases s) (simp_all add: a_def less_Suc_eq_le)
      with e ab show ?thesis by linarith
    next
      case nd: False
      with s ne False have d: "hd s = CHR ''.''" "length s > 1" "g_ascii_isdigit (s ! 1)"
        by (auto simp: css_syntax_starts_number_def char_or_nul_def Let_def split: if_splits simp: g_ascii_isdigit_def code_of_def)
      have "a = s" using nd k ne by (cases s) (simp_all add: a_def)
      with d have "b = dropWhile g_ascii_isdigit (tl s)" by (simp add: b_def skip_fraction_def)
      then have "length b < length s"
        using ne length_dropWhile_le [of g_ascii_isdigit "tl s"] by (cases s) (simp_all add: less_Suc_eq_le)
      with e show ?thesis by linarith
    qed
  qed
qed

section \<open>One value\<close>

text \<open>The parser \<open>q\<close> is \<open>p\<close> further on in the same input.\<close>

definition further :: "ns_css_syntax_parser \<Rightarrow> ns_css_syntax_parser \<Rightarrow> bool" where
  "further p q \<longleftrightarrow> tail_of (ps_input q) (ps_input p) \<and> ps_length q = ps_length p \<and> ps_depth q = ps_depth p \<and>
     (ps_valid q \<longrightarrow> ps_valid p)"

lemma further_trans: "further p q \<Longrightarrow> further q r \<Longrightarrow> further p r"
  using tail_of_trans by (auto simp: further_def)

lemma further_length: "further p q \<Longrightarrow> length (ps_input q) \<le> length (ps_input p)"
  using tail_of_length by (auto simp: further_def)

definition strictly_further :: "ns_css_syntax_parser \<Rightarrow> ns_css_syntax_parser \<Rightarrow> bool" where
  "strictly_further p q \<longleftrightarrow> further p q \<and> length (ps_input q) < length (ps_input p)"

lemma further_input [simp]: "further p (p\<lparr> ps_input := s \<rparr>) \<longleftrightarrow> tail_of s (ps_input p)"
  by (simp add: further_def)

lemma ident_head_further:
  assumes "length (css_syntax_name_end (if at \<or> hash then tl (ps_input p) else ps_input p)) < length (ps_input p)"
  shows "ident_head at hash p = Whole c p1 \<Longrightarrow> strictly_further p p1 \<and> comp_start c = ps_offset p \<and>
      comp_end c = ps_offset p1 \<and> comp_children c = None"
    "ident_head at hash p = Opening ty v cl p1 \<Longrightarrow> strictly_further p p1"
proof -
  define n where "n = (if at \<or> hash then tl (ps_input p) else ps_input p)"
  define r where "r = css_syntax_name_end n"
  have t: "tail_of r (ps_input p)" using tail_name [of n] tail_of_tl by (auto simp: r_def n_def split: if_splits)
  have tt: "tail_of (tl r) (ps_input p)" using tl_tail_of [OF t] .
  have l: "length r < length (ps_input p)" using assms by (simp add: r_def n_def)
  then have lt: "length (tl r) < length (ps_input p)" by simp
  show "ident_head at hash p = Whole c p1 \<Longrightarrow> strictly_further p p1 \<and> comp_start c = ps_offset p \<and>
      comp_end c = ps_offset p1 \<and> comp_children c = None"
    using t l by (auto simp: ident_head_def consume_name_def Let_def strictly_further_def offset_at_def simp flip: n_def r_def split: if_splits)
  show "ident_head at hash p = Opening ty v cl p1 \<Longrightarrow> strictly_further p p1"
    using tt lt by (auto simp: ident_head_def consume_name_def Let_def strictly_further_def simp flip: n_def r_def split: if_splits)
qed

lemma head_whole:
  assumes "css_syntax_head p = Whole c p1" "ps_input p \<noteq> []"
  shows "strictly_further p p1 \<and> comp_start c = ps_offset p \<and> comp_end c = ps_offset p1 \<and> comp_children c = None"
proof -
  define s where "s = ps_input p"
  have ne: "s \<noteq> []" using assms(2) by (simp add: s_def)
  have one: "length (css_syntax_name_end r) \<le> length r" for r using tail_of_length [OF tail_name] .
  consider (ws) "ns_is_ascii_ws (hd s)"
    | (str) "\<not> ns_is_ascii_ws (hd s)" "hd s = CHR 0x22 \<or> hd s = CHR 0x27"
    | (num) "css_syntax_starts_number s" "css_syntax_head p = (case css_syntax_consume_numeric p of (c, p1) \<Rightarrow> Whole c p1)"
    | (name) at hash where "css_syntax_head p = ident_head at hash p"
        "length (css_syntax_name_end (if at \<or> hash then tl s else s)) < length s"
    | (delim) "css_syntax_head p = Whole c (p\<lparr> ps_input := tl s \<rparr>)" "comp_start c = ps_offset p"
        "comp_end c = offset_at p (tl s)" "comp_children c = None"
  proof -
    assume a: "ns_is_ascii_ws (hd s) \<Longrightarrow> thesis" "\<not> ns_is_ascii_ws (hd s) \<Longrightarrow> hd s = CHR 0x22 \<or> hd s = CHR 0x27 \<Longrightarrow> thesis"
      "css_syntax_starts_number s \<Longrightarrow> css_syntax_head p = (case css_syntax_consume_numeric p of (c, p1) \<Rightarrow> Whole c p1) \<Longrightarrow> thesis"
      "\<And>at hash. css_syntax_head p = ident_head at hash p \<Longrightarrow>
         length (css_syntax_name_end (if at \<or> hash then tl s else s)) < length s \<Longrightarrow> thesis"
      "css_syntax_head p = Whole c (p\<lparr> ps_input := tl s \<rparr>) \<Longrightarrow> comp_start c = ps_offset p \<Longrightarrow>
        comp_end c = offset_at p (tl s) \<Longrightarrow> comp_children c = None \<Longrightarrow> thesis"
    have t: "length (css_syntax_name_end (tl s)) < length s" using one [of "tl s"] ne by (cases s) simp_all
    show thesis
      using a(1,2,3) a(4) [of True False] a(4) [of False True] a(4) [of False False] a(5) t name_end_shorter [of s] assms(1)
      by (auto simp: css_syntax_head_def Let_def offset_at_def simp flip: s_def split: if_splits)
  qed
  then show ?thesis
  proof cases
    case ws
    have "length (dropWhile ns_is_ascii_ws s) < length s"
      using ws ne length_dropWhile_le [of ns_is_ascii_ws "tl s"] by (cases s) (simp_all add: less_Suc_eq_le)
    with ws assms(1) show ?thesis
      by (auto simp: css_syntax_head_def Let_def strictly_further_def offset_at_def tail_dropWhile simp flip: s_def)
  next
    case str
    obtain v r ok where l: "string_loop (hd s) (tl s) [] = (v, r, ok)" using prod_cases3 by blast
    have t: "tail_of r s" "length r < length s"
      using tail_of_tl [OF tail_string [OF l]] tail_of_length [OF tail_string [OF l]] ne by (auto simp: less_le_trans) (cases s; simp)
    from str assms(1) l t show ?thesis
      by (auto simp: css_syntax_head_def css_syntax_consume_string_def Let_def strictly_further_def further_def offset_at_def simp flip: s_def)
  next
    case num
    define e where "e = css_syntax_number_end s"
    have t: "tail_of e s" "length e < length s" using tail_number number_end_shorter [OF num(1)] by (simp_all add: e_def)
    have t2: "tail_of (tl e) s" "length (tl e) < length s" using tl_tail_of t by auto
    have t3: "tail_of (css_syntax_name_end e) s" "length (css_syntax_name_end e) < length s"
      using tail_of_trans [OF tail_name t(1)] one [of e] t(2) by auto
    show ?thesis
      using num(2) assms(1) t t2 t3
      by (auto simp: css_syntax_consume_numeric_def Let_def strictly_further_def offset_at_def simp flip: s_def e_def split: if_splits)
  next
    case (name at hash)
    with assms(1) have "ident_head at hash p = Whole c p1" by simp
    from ident_head_further(1) [OF name(2) [unfolded s_def] this] show ?thesis .
  next
    case delim
    with assms(1) ne show ?thesis by (auto simp: strictly_further_def offset_at_def s_def tl_tail_of)
  qed
qed

lemma head_opening:
  assumes "css_syntax_head p = Opening ty v cl p1" "ps_input p \<noteq> []"
  shows "strictly_further p p1"
proof -
  have n: "strictly_further p p1" if "ident_head at hash p = Opening ty v cl p1"
    "length (css_syntax_name_end (if at \<or> hash then tl (ps_input p) else ps_input p)) < length (ps_input p)" for at hash
    using ident_head_further(2) that by blast
  have t: "length (css_syntax_name_end (tl (ps_input p))) < length (ps_input p)"
    using tail_of_length [OF tail_name [of "tl (ps_input p)"]] assms(2) by (cases "ps_input p") simp_all
  have d: "strictly_further p (p\<lparr> ps_input := tl (ps_input p) \<rparr>)"
    using assms(2) by (auto simp: strictly_further_def intro: tail_of_tl)
  show ?thesis
    using assms n [of True False] n [of False True] n [of False False] t d name_end_shorter [of "ps_input p"]
    by (auto simp: css_syntax_head_def Let_def split: if_splits prod.splits)
qed

lemma comment_shorter: "length (comment_rest s) \<le> length s"
  using tail_of_length [OF tail_comment] .

lemma list_step_further:
  "list_step closing p = List_End p1 \<Longrightarrow> further p p1"
  "list_step closing p = List_Skip p1 \<Longrightarrow> strictly_further p p1"
  "list_step closing p = List_Value \<Longrightarrow> ps_input p \<noteq> []"
proof -
  show "list_step closing p = List_End p1 \<Longrightarrow> further p p1" "list_step closing p = List_Value \<Longrightarrow> ps_input p \<noteq> []"
    by (auto simp: list_step_def Let_def further_def intro: tail_of_tl split: if_splits)
  have "tail_of (comment_rest (drop 2 (ps_input p))) (ps_input p)"
    using tail_comment [of "drop 2 (ps_input p)"] tail_of_tl by (simp add: numeral_2_eq_2 drop_Suc)
  moreover have "length (comment_rest (drop 2 (ps_input p))) < length (ps_input p)" if "ps_input p \<noteq> []"
    using comment_shorter [of "drop 2 (ps_input p)"] that by (cases "ps_input p") simp_all
  ultimately show "list_step closing p = List_Skip p1 \<Longrightarrow> strictly_further p p1"
    by (auto simp: list_step_def Let_def strictly_further_def further_def css_syntax_skip_comment_def
        intro: tail_of_tl split: if_splits)
qed


section \<open>The tree tiles the text\<close>

text \<open>A comment, or one that the end of the input leaves open.\<close>

definition closed_comment :: "cstr \<Rightarrow> bool" where
  "closed_comment t \<longleftrightarrow> (\<exists>body. t = ''/*'' @ body @ ''*/'' \<and> \<not> sublist ''*/'' body)"

definition open_comment :: "cstr \<Rightarrow> bool" where
  "open_comment t \<longleftrightarrow> (\<exists>body. t = ''/*'' @ body \<and> \<not> sublist ''*/'' body)"

text \<open>What may stand between two values: comments, the last of them open only at the end.\<close>

definition only_comments :: "cstr \<Rightarrow> nat \<Rightarrow> nat \<Rightarrow> bool" where
  "only_comments s i j \<longleftrightarrow> i \<le> j \<and> j \<le> length s \<and>
     (\<exists>cs z. take (j - i) (drop i s) = concat cs @ z \<and> (\<forall>t \<in> set cs. closed_comment t) \<and>
        (z = [] \<or> open_comment z \<and> j = length s))"

fun tiled :: "cstr \<Rightarrow> ns_css_component \<Rightarrow> bool"
and tiles :: "cstr \<Rightarrow> nat \<Rightarrow> nat \<Rightarrow> ns_css_component list \<Rightarrow> bool" where
  "tiled s (Component ty i j v n ch d) \<longleftrightarrow> i < j \<and> j \<le> length s \<and>
     (case ch of None \<Rightarrow> True
      | Some cs \<Rightarrow> \<exists>a b. i < a \<and> (b + 1 = j \<and> s ! b = d \<or> b = j \<and> j = length s) \<and> tiles s a b cs)"
| "tiles s i j [] \<longleftrightarrow> only_comments s i j"
| "tiles s i j (c # cs) \<longleftrightarrow> only_comments s i (comp_start c) \<and> tiled s c \<and> tiles s (comp_end c) j cs"

text \<open>Between two points of the same input there are only comments.\<close>

inductive comments_to :: "cstr \<Rightarrow> cstr \<Rightarrow> bool" where
  no_comment: "comments_to s s"
| one_comment: "s \<noteq> [] \<Longrightarrow> hd s = CHR ''/'' \<Longrightarrow> length s > 1 \<Longrightarrow> s ! 1 = CHR ''*'' \<Longrightarrow>
    comments_to (comment_rest (drop 2 s)) e \<Longrightarrow> comments_to s e"

lemma comment_rest_text:
  "(\<exists>body. s = body @ ''*/'' @ comment_rest s \<and> \<not> sublist ''*/'' body) \<or>
   comment_rest s = [] \<and> \<not> sublist ''*/'' s"
proof (induction s rule: comment_rest.induct)
  case (1 a b s)
  show ?case
  proof (cases "a = CHR ''*'' \<and> b = CHR ''/''")
    case True
    then show ?thesis by (intro disjI1 exI [of _ "[]"]) simp
  next
    case False
    have skip: "sublist ''*/'' (a # x) \<longleftrightarrow> sublist ''*/'' x" if "x = [] \<or> hd x = b" for x
      using False that by (cases x) (auto simp: sublist_Cons_right)
    from 1 [OF False] show ?thesis
    proof (elim disjE exE conjE)
      fix body assume b: "b # s = body @ ''*/'' @ comment_rest (b # s)" "\<not> sublist ''*/'' body"
      then have "body = [] \<or> hd body = b" by (cases body) auto
      with skip [of body] b False show ?thesis by (intro disjI1 exI [of _ "a # body"]) auto
    next
      assume "comment_rest (b # s) = []" "\<not> sublist ''*/'' (b # s)"
      with skip [of "b # s"] False show ?thesis by auto
    qed
  qed
qed (auto simp: sublist_Cons_right)


lemma comments_text:
  "comments_to s e \<Longrightarrow> \<exists>cs z. s = concat cs @ z @ e \<and> (\<forall>t \<in> set cs. closed_comment t) \<and> (z = [] \<or> open_comment z \<and> e = [])"
proof (induction rule: comments_to.induct)
  case (no_comment s)
  show ?case by (intro exI [of _ "[]"]) simp
next
  case (one_comment s e)
  define r where "r = drop 2 s"
  have s: "s = ''/*'' @ r" using one_comment.hyps(1-4) unfolding r_def by (cases s; cases "tl s") auto
  obtain cs z where IH: "comment_rest r = concat cs @ z @ e" "\<forall>t \<in> set cs. closed_comment t" "z = [] \<or> open_comment z \<and> e = []"
    using one_comment.IH by (auto simp: r_def)
  from comment_rest_text [of r] show ?case
  proof (elim disjE exE conjE)
    fix body assume b: "r = body @ ''*/'' @ comment_rest r" "\<not> sublist ''*/'' body"
    then have "s = concat ((''/*'' @ body @ ''*/'') # cs) @ z @ e" "closed_comment (''/*'' @ body @ ''*/'')"
      using s IH(1) by (auto simp: closed_comment_def)
    with IH(2,3) show ?thesis by (intro exI [of _ "(''/*'' @ body @ ''*/'') # cs"] exI [of _ z]) auto
  next
    assume b: "comment_rest r = []" "\<not> sublist ''*/'' r"
    with IH(1) have "e = []" by simp
    with b s show ?thesis by (intro exI [of _ "[]"] exI [of _ s]) (auto simp: open_comment_def)
  qed
qed

lemma comments_snoc:
  "comments_to s e \<Longrightarrow> e \<noteq> [] \<Longrightarrow> hd e = CHR ''/'' \<Longrightarrow> length e > 1 \<Longrightarrow> e ! 1 = CHR ''*'' \<Longrightarrow>
   comments_to s (comment_rest (drop 2 e))"
  by (induction rule: comments_to.induct) (auto intro: comments_to.intros)

lemma tail_comments: "comments_to s e \<Longrightarrow> tail_of e s"
  using comments_text [of s e] by (auto simp: tail_of_def)

definition pos :: "cstr \<Rightarrow> cstr \<Rightarrow> nat" where
  "pos w s = length w - length s"

lemma pos_only_comments:
  assumes "tail_of s w" "comments_to s e"
  shows "only_comments w (pos w s) (pos w e)"
proof -
  obtain p where p: "w = p @ s" using assms(1) by (auto simp: tail_of_def)
  obtain cs z where s: "s = concat cs @ z @ e" "\<forall>t \<in> set cs. closed_comment t" "z = [] \<or> open_comment z \<and> e = []"
    using comments_text [OF assms(2)] by blast
  have "pos w s = length p" "pos w e = length p + length (concat cs @ z)" using p s by (simp_all add: pos_def)
  with p s show ?thesis by (auto simp: only_comments_def intro!: exI [of _ cs] exI [of _ z])
qed

lemma pos_nth: "tail_of s w \<Longrightarrow> s \<noteq> [] \<Longrightarrow> w ! pos w s = hd s \<and> pos w (tl s) = pos w s + 1"
  by (cases s) (auto simp: tail_of_def pos_def nth_append)

lemma pos_less: "tail_of s w \<Longrightarrow> length e < length s \<Longrightarrow> pos w s < pos w e \<and> pos w e \<le> length w"
  by (auto simp: tail_of_def pos_def)

text \<open>Where the values of a list end: in front of its closing character or at the end of the input.\<close>

definition list_end :: "char option \<Rightarrow> cstr \<Rightarrow> nat \<Rightarrow> ns_css_syntax_parser \<Rightarrow> bool" where
  "list_end closing w b p \<longleftrightarrow>
     (\<exists>d. closing = Some d \<and> b + 1 = pos w (ps_input p) \<and> w ! b = d) \<or> b = length w \<and> ps_input p = []"

definition tiling :: "char option \<Rightarrow> cstr \<Rightarrow> cstr \<Rightarrow> ns_css_component list \<Rightarrow> ns_css_syntax_parser \<Rightarrow> bool" where
  "tiling closing w s cs p \<longleftrightarrow> (\<exists>b. list_end closing w b p \<and>
     (\<forall>s0. comments_to s0 s \<and> tail_of s0 w \<longrightarrow> tiles w (pos w s0) b cs))"

lemma tiling_end:
  assumes "tail_of (ps_input p) w" "list_step closing p = List_End p1" "ps_valid p1"
  shows "tiling closing w (ps_input p) [] p1"
proof (cases "ps_input p = []")
  case True
  with assms have "p1 = p" by (simp add: list_step_def)
  with True pos_only_comments [of _ w "[]"] show ?thesis
    by (auto simp: tiling_def list_end_def pos_def intro!: exI [of _ "length w"])
next
  case False
  with assms(2,3) have "closing = Some (hd (ps_input p))" "p1 = p\<lparr> ps_input := tl (ps_input p) \<rparr>"
    by (auto simp: list_step_def Let_def split: if_splits)
  with pos_nth [OF assms(1) False] pos_only_comments [of _ w "ps_input p"] show ?thesis
    by (auto simp: tiling_def list_end_def intro!: exI [of _ "pos w (ps_input p)"])
qed

lemma tiling_skip:
  assumes "list_step closing p = List_Skip p1" "tiling closing w (ps_input p1) cs p'" "ps_valid p1"
  shows "tiling closing w (ps_input p) cs p'"
proof -
  have "ps_input p1 = comment_rest (drop 2 (ps_input p))" "ps_input p \<noteq> []" "hd (ps_input p) = CHR ''/''"
     "length (ps_input p) > 1" "ps_input p ! 1 = CHR ''*''"
    using assms(1,3) by (auto simp: list_step_def Let_def css_syntax_skip_comment_def split: if_splits)
  with assms(2) comments_snoc [of _ "ps_input p"] show ?thesis unfolding tiling_def by metis
qed

lemma tiling_value:
  assumes "tail_of (ps_input p) w" "comp_start c = pos w (ps_input p)" "tiled w c"
    "comp_end c = pos w (ps_input p1)" "tail_of (ps_input p1) w" "tiling closing w (ps_input p1) cs p'"
  shows "tiling closing w (ps_input p) (c # cs) p'"
proof -
  obtain b where b: "list_end closing w b p'" "tiles w (pos w (ps_input p1)) b cs"
    using assms(5,6) no_comment by (auto simp: tiling_def)
  with assms(2-4) pos_only_comments show ?thesis by (auto simp: tiling_def intro!: exI [of _ b])
qed


lemma further_tail: "further p q \<Longrightarrow> tail_of (ps_input p) w \<Longrightarrow> tail_of (ps_input q) w"
  using tail_of_trans by (auto simp: further_def)

lemma offset_pos: "ps_length p = length w \<Longrightarrow> offset_at p s = pos w s"
  by (simp add: offset_at_def pos_def)

lemma parse_loop_tiling:
  assumes "tail_of (ps_input p) w" "ps_length p = length w"
  shows "\<exists>cs p'. parse_loop closing p = Some (cs, p') \<and> further p p' \<and> (ps_valid p' \<longrightarrow> tiling closing w (ps_input p) cs p')"
  using assms
proof (induction p arbitrary: closing rule: measure_induct_rule [where f = "\<lambda>p. length (ps_input p)"])
  case (less p)
  have IH: "\<exists>cs p'. parse_loop cl q = Some (cs, p') \<and> further q p' \<and> (ps_valid p' \<longrightarrow> tiling cl w (ps_input q) cs p')"
    if "length (ps_input q) < length (ps_input p)" "tail_of (ps_input q) w" "ps_length q = length w" for cl q
    using less.IH that by blast
  have sub: "length (ps_input q) < length (ps_input p) \<and> tail_of (ps_input q) w \<and> ps_length q = length w"
    if "strictly_further p q" for q
    using that less.prems further_tail [of p q w] by (simp add: strictly_further_def further_def)
  show ?case
  proof (cases "list_step closing p")
    case (List_End p1)
    with tiling_end [OF less.prems(1) List_End] list_step_further(1) [OF List_End] show ?thesis
      by (simp add: parse_loop.simps [of closing p])
  next
    case (List_Skip p1)
    note sf = list_step_further(2) [OF List_Skip]
    obtain cs p' where r: "parse_loop closing p1 = Some (cs, p')" "further p1 p'"
      "ps_valid p' \<longrightarrow> tiling closing w (ps_input p1) cs p'"
      using IH [of p1 closing] sub [OF sf] by blast
    with sf have "further p p'" using further_trans by (auto simp: strictly_further_def)
    with r List_Skip tiling_skip [OF List_Skip] show ?thesis
      by (auto simp: parse_loop.simps [of closing p] further_def)
  next
    case List_Value
    note ne = list_step_further(3) [OF List_Value]
    show ?thesis
    proof (cases "css_syntax_head p")
      case (Whole c p1)
      note h = head_whole [OF Whole ne]
      obtain cs p' where r: "parse_loop closing p1 = Some (cs, p')" "further p1 p'"
        "ps_valid p' \<longrightarrow> tiling closing w (ps_input p1) cs p'"
        using IH [of p1 closing] sub h by blast
      have f: "further p p'" using h r(2) further_trans by (auto simp: strictly_further_def)
      have o: "comp_start c = pos w (ps_input p)" "comp_end c = pos w (ps_input p1)" "comp_children c = None"
        using h sub [of p1] less.prems(2) by (auto simp: offset_pos)
      have "tiled w c"
        using o pos_less [OF less.prems(1), of "ps_input p1"] sub [of p1] h by (cases c) simp
      with r f o tiling_value [OF less.prems(1) o(1) _ o(2)] sub [of p1] h show ?thesis
        using List_Value Whole by (auto simp: parse_loop.simps [of closing p])
    next
      case (Opening ty v cl p1)
      note h = head_opening [OF Opening ne]
      have s1: "length (ps_input p1) < length (ps_input p)" "tail_of (ps_input p1) w" "ps_length p1 = length w"
        using sub [OF h] by auto
      define children where "children = (case enter_list p1 of None \<Rightarrow> Some ([], too_deep p1)
          | Some p2 \<Rightarrow> Option.bind (parse_loop (Some cl) p2) (\<lambda>(ch, p3). Some (ch, leave_list p3)))"
      obtain ch p4 where c4: "children = Some (ch, p4)" "further p1 p4"
        "ps_valid p4 \<longrightarrow> tiling (Some cl) w (ps_input p1) ch p4"
      proof (cases "enter_list p1")
        case None
        then show thesis using that [of "[]" "too_deep p1"] by (simp add: children_def too_deep_def further_def)
      next
        case (Some p2)
        then have p2: "p2 = p1\<lparr> ps_depth := ps_depth p1 + 1 \<rparr>" by (auto simp: enter_list_def split: if_splits)
        obtain ch p3 where r: "parse_loop (Some cl) p2 = Some (ch, p3)" "further p2 p3"
          "ps_valid p3 \<longrightarrow> tiling (Some cl) w (ps_input p2) ch p3"
          using IH [of p2 "Some cl"] s1 p2 by auto
        then show thesis
          using that [of ch "leave_list p3"] Some p2
          by (auto simp: children_def leave_list_def further_def tiling_def list_end_def)
      qed
      have f4: "further p p4" using h c4(2) further_trans by (auto simp: strictly_further_def)
      have s4: "length (ps_input p4) < length (ps_input p)" "tail_of (ps_input p4) w" "ps_length p4 = length w"
        using s1 further_length [OF c4(2)] further_tail [OF f4 less.prems(1)] f4 less.prems(2) by (auto simp: further_def)
      obtain cs p' where r: "parse_loop closing p4 = Some (cs, p')" "further p4 p'"
        "ps_valid p' \<longrightarrow> tiling closing w (ps_input p4) cs p'"
        using IH [of p4 closing] s4 by blast
      define c where "c = opened_component p ty v cl ch p4"
      have run: "parse_loop closing p = Some (c # cs, p')"
        using List_Value Opening c4(1) r(1) by (simp add: parse_loop.simps [of closing p] c_def flip: children_def)
      have "tiling closing w (ps_input p) (c # cs) p'" if v: "ps_valid p'"
      proof -
        have v4: "ps_valid p4" using v r(2) by (simp add: further_def)
        obtain b where b: "list_end (Some cl) w b p4" "tiles w (pos w (ps_input p1)) b ch"
          using c4(3) v4 s1(2) no_comment by (auto simp: tiling_def)
        have "\<exists>i j. pos w (ps_input p) < i \<and> (j + 1 = pos w (ps_input p4) \<and> w ! j = cl \<or>
            j = pos w (ps_input p4) \<and> pos w (ps_input p4) = length w) \<and> tiles w i j ch"
          using b pos_less [OF less.prems(1) s1(1)]
          by (intro exI [of _ "pos w (ps_input p1)"] exI [of _ b]) (auto simp: list_end_def pos_def)
        then have "tiled w c"
          using pos_less [OF less.prems(1) s4(1)] s4(3) less.prems(2)
          by (simp add: c_def opened_component_def offset_pos)
        then show ?thesis
          using tiling_value [OF less.prems(1), of c p4 closing cs p'] r(3) v s4(2,3) less.prems(2)
          by (simp add: c_def opened_component_def offset_pos)
      qed
      with run f4 r(2) further_trans show ?thesis by blast
    qed
  qed
qed



declare parse_loop.simps [code]


section \<open>Scanning without a tree\<close>

text \<open>\<open>quote\<close> is the quote of the string the scanner is in, \<open>stack\<close> the closers it expects, innermost first.\<close>

definition STACK_SIZE :: nat where "STACK_SIZE = 128"

definition is_opener :: "char \<Rightarrow> bool" where
  "is_opener c \<longleftrightarrow> c = CHR ''('' \<or> c = CHR ''['' \<or> c = CHR ''{''"

definition is_quote :: "char \<Rightarrow> bool" where
  "is_quote c \<longleftrightarrow> c = CHR 0x22 \<or> c = CHR 0x27"

definition starts_comment :: "cstr \<Rightarrow> bool" where
  "starts_comment s \<longleftrightarrow> length s > 1 \<and> hd s = CHR ''/'' \<and> s ! 1 = CHR ''*''"

text \<open>\<^verbatim>\<open>strchr\<close> finds the terminating NUL too, so a NUL byte counts as a terminator.\<close>

function scan_loop :: "cstr \<Rightarrow> char option \<Rightarrow> char list \<Rightarrow> cstr \<Rightarrow> cstr \<times> char" where
  "scan_loop terminators quote stack s =
     (if s = [] then ([], CHR 0x00)
      else
        let c = hd s in
        case quote of
          Some q \<Rightarrow>
            if c = BACKSLASH \<and> length s > 1 then scan_loop terminators quote stack (drop 2 s)
            else scan_loop terminators (if c = q \<or> is_newline c then None else quote) stack (tl s)
        | None \<Rightarrow>
            if starts_comment s then scan_loop terminators None stack (comment_rest (drop 2 s))
            else if c = BACKSLASH \<and> length s > 1 then scan_loop terminators None stack (drop 2 s)
            else if is_quote c then scan_loop terminators (Some c) stack (tl s)
            else if stack = [] \<and> (c \<in> set terminators \<or> c = CHR 0x00) then (s, c)
            else if is_opener c then
              scan_loop terminators None (if length stack < STACK_SIZE then closing_of c # stack else stack) (tl s)
            else scan_loop terminators None (if stack \<noteq> [] \<and> c = hd stack then tl stack else stack) (tl s))"
  by pat_completeness auto

lemma comment_rest_drop: "s \<noteq> [] \<Longrightarrow> length (comment_rest (drop 2 s)) < length s"
  using comment_shorter [of "drop 2 s"] by (cases s) simp_all

termination scan_loop
  by (relation "measure (\<lambda>(t, q, k, s). length s)") (auto simp: comment_rest_drop)

declare scan_loop.simps [simp del]

definition ns_css_syntax_scan :: "cstr \<Rightarrow> cstr \<Rightarrow> cstr \<times> char" where
  "ns_css_syntax_scan input terminators = scan_loop terminators None [] input"

text \<open>The rest behind a comment's end, if it ends.\<close>

fun comment_close :: "cstr \<Rightarrow> cstr option" where
  "comment_close (a # b # s) = (if a = CHR ''*'' \<and> b = CHR ''/'' then Some s else comment_close (b # s))"
| "comment_close _ = None"

lemma comment_close_shorter: "comment_close s = Some r \<Longrightarrow> length r < length s"
  by (induction s rule: comment_close.induct) (auto split: if_splits)

datatype stmt = STMT_NONE | STMT_AT | STMT_QUALIFIED

text \<open>
  The statement the character at \<open>s\<close> belongs to, or None if an HTML comment delimiter of \<open>n\<close> characters
  is skipped instead.
\<close>

definition html_comment_length :: "cstr \<Rightarrow> nat" where
  "html_comment_length s = (if take 4 s = ''<!--'' then 4 else if take 3 s = ''-->'' then 3 else 0)"

definition stmt_at :: "stmt \<Rightarrow> char list \<Rightarrow> char \<Rightarrow> stmt" where
  "stmt_at stmt stack c =
     (if stack = [] \<and> stmt = STMT_NONE then (if c = CHR ''@'' then STMT_AT else STMT_QUALIFIED) else stmt)"

text \<open>One plain character outside strings and comments.\<close>

definition plain_state :: "char list \<Rightarrow> stmt \<Rightarrow> char \<Rightarrow> (char option \<times> char list \<times> stmt) option" where
  "plain_state stack st c =
     (if is_quote c then Some (Some c, stack, st)
      else if is_opener c then (if length stack = STACK_SIZE then None else Some (None, closing_of c # stack, st))
      else if stack \<noteq> [] \<and> c = hd stack then
        Some (None, tl stack, if tl stack = [] \<and> c = CHR ''}'' then STMT_NONE else st)
      else if c = CHR '';'' \<and> stack = [] \<and> st = STMT_AT then Some (None, stack, STMT_NONE)
      else Some (None, stack, st))"

function contained_loop :: "char option \<Rightarrow> char list \<Rightarrow> stmt \<Rightarrow> cstr \<Rightarrow> bool" where
  "contained_loop quote stack stmt s =
     (if s = [] then quote = None \<and> stack = [] \<and> stmt = STMT_NONE
      else
        let c = hd s in
        case quote of
          Some q \<Rightarrow>
            if c = BACKSLASH \<and> length s > 1 then contained_loop quote stack stmt (drop 2 s)
            else contained_loop (if c = q \<or> is_newline c then None else quote) stack stmt (tl s)
        | None \<Rightarrow>
            if starts_comment s then
              (case comment_close (drop 2 s) of None \<Rightarrow> False | Some r \<Rightarrow> contained_loop None stack stmt r)
            else if g_ascii_isspace c then contained_loop None stack stmt (tl s)
            else if stack = [] \<and> stmt = STMT_NONE \<and> html_comment_length s > 0
            then contained_loop None stack stmt (drop (html_comment_length s) s)
            else
              let st = stmt_at stmt stack c in
              if c = BACKSLASH then (if length s \<le> 1 then False else contained_loop None stack st (drop 2 s))
              else (case plain_state stack st c of
                      None \<Rightarrow> False
                    | Some (q, k, st') \<Rightarrow> contained_loop q k st' (tl s)))"
  by pat_completeness auto
termination
  by (relation "measure (\<lambda>(q, k, st, s). length s)")
     (auto simp: html_comment_length_def split: if_splits dest!: comment_close_shorter)

declare contained_loop.simps [simp del]

definition ns_css_syntax_is_self_contained :: "cstr \<Rightarrow> bool" where
  "ns_css_syntax_is_self_contained input = contained_loop None [] STMT_NONE input"

section \<open>Self-contained sheets\<close>

lemma comment_close_append: "comment_close s = Some r \<Longrightarrow> comment_close (s @ b) = Some (r @ b)"
  by (induction s rule: comment_close.induct) (auto split: if_splits)

lemma append_LF_simps:
  assumes "s \<noteq> []"
  shows "hd (s @ x) = hd s" "tl (s @ x) = tl s @ x" "starts_comment (s @ CHR 0x0A # b) = starts_comment s"
    "html_comment_length (s @ CHR 0x0A # b) = html_comment_length s"
proof -
  show "hd (s @ x) = hd s" "tl (s @ x) = tl s @ x" using assms by simp_all
  show "starts_comment (s @ CHR 0x0A # b) = starts_comment s"
    using assms by (cases s; cases "tl s") (auto simp: starts_comment_def)
  show "html_comment_length (s @ CHR 0x0A # b) = html_comment_length s"
  proof -
    have "take n (s @ CHR 0x0A # b) = t \<longleftrightarrow> take n s = t" if "length t = n" "CHR 0x0A \<notin> set t" for n t
    proof (cases "n \<le> length s")
      case False
      then have "CHR 0x0A \<in> set (take n (s @ CHR 0x0A # b))" by (simp add: take_Cons')
      moreover have "length (take n s) \<noteq> n" using False by simp
      ultimately show ?thesis using that by metis
    qed simp
    from this [of "''<!--''" 4] this [of "''-->''" 3] show ?thesis by (simp add: html_comment_length_def)
  qed
qed

lemma not_quote_backslash: "is_quote c \<Longrightarrow> c \<noteq> BACKSLASH"
  by (auto simp: is_quote_def BACKSLASH_def)

lemma html_length_le: "html_comment_length s \<le> length s"
  by (auto simp: html_comment_length_def dest: arg_cong [of _ _ length])

lemma contained_steps:
  assumes "s \<noteq> []"
  shows "starts_comment s \<Longrightarrow> contained_loop None stack stmt s =
      (case comment_close (drop 2 s) of None \<Rightarrow> False | Some r \<Rightarrow> contained_loop None stack stmt r)"
    "\<not> starts_comment s \<Longrightarrow> g_ascii_isspace (hd s) \<Longrightarrow> contained_loop None stack stmt s = contained_loop None stack stmt (tl s)"
    "\<not> starts_comment s \<Longrightarrow> \<not> g_ascii_isspace (hd s) \<Longrightarrow> stack = [] \<Longrightarrow> stmt = STMT_NONE \<Longrightarrow> html_comment_length s > 0 \<Longrightarrow>
      contained_loop None stack stmt s = contained_loop None stack stmt (drop (html_comment_length s) s)"
    "\<not> starts_comment s \<Longrightarrow> \<not> g_ascii_isspace (hd s) \<Longrightarrow> \<not> (stack = [] \<and> stmt = STMT_NONE \<and> html_comment_length s > 0) \<Longrightarrow>
      contained_loop None stack stmt s =
        (if hd s = BACKSLASH then length s > 1 \<and> contained_loop None stack (stmt_at stmt stack (hd s)) (drop 2 s)
         else case plain_state stack (stmt_at stmt stack (hd s)) (hd s) of
                None \<Rightarrow> False | Some (q, k, st) \<Rightarrow> contained_loop q k st (tl s))"
  by (subst contained_loop.simps; use assms in \<open>auto simp: Let_def\<close>)+

lemma plain_state_quote: "plain_state stack st c = Some (q, k, st') \<Longrightarrow> q \<noteq> Some BACKSLASH"
  using not_quote_backslash [of c] by (auto simp: plain_state_def split: if_splits)

lemma contained_append:
  "contained_loop quote stack stmt s \<Longrightarrow> quote \<noteq> Some BACKSLASH \<Longrightarrow>
   contained_loop quote stack stmt (s @ CHR 0x0A # b) = contained_loop None [] STMT_NONE b"
proof (induction s arbitrary: quote stack stmt rule: measure_induct_rule [where f = length])
  case (less s)
  let ?x = "CHR 0x0A # b"
  have IH: "contained_loop q k st r \<Longrightarrow> q \<noteq> Some BACKSLASH \<Longrightarrow> length r < length s \<Longrightarrow>
      contained_loop q k st (r @ ?x) = contained_loop None [] STMT_NONE b" for q k st r
    using less.IH by blast
  show ?case
  proof (cases "s = []")
    case True
    with less.prems have "quote = None" "stack = []" "stmt = STMT_NONE" by (simp_all add: contained_loop.simps [of quote])
    with True show ?thesis
      by (simp add: contained_loop.simps [of None "[]" STMT_NONE "?x"] starts_comment_def g_ascii_isspace_def code_of_def)
  next
    case ne: False
    note app = append_LF_simps [OF ne]
    have d2: "length s > 1 \<Longrightarrow> drop 2 (s @ ?x) = drop 2 s @ ?x" by simp
    have short: "length (tl s) < length s" "length (drop 2 s) < length s" using ne by (cases s; simp)+
    show ?thesis
    proof (cases quote)
      case (Some q)
      have nb: "\<not> (hd s = BACKSLASH \<and> length s = 1)"
      proof
        assume h: "hd s = BACKSLASH \<and> length s = 1"
        then have "tl s = []" by (cases s) simp_all
        with less.prems Some h ne have "contained_loop (Some q) stack stmt []"
          by (simp add: contained_loop.simps [of "Some q" stack stmt s] is_newline_def BACKSLASH_def code_of_def)
        then show False by (simp add: contained_loop.simps [of _ _ _ "[]"])
      qed
      have nb2: "hd s = BACKSLASH \<Longrightarrow> length s > 1" using nb ne by (cases s; cases "tl s") auto
      with ne less.prems Some IH short app d2 show ?thesis
        by (auto simp: contained_loop.simps [of "Some q" stack stmt s] contained_loop.simps [of "Some q" stack stmt "s @ ?x"] Let_def
            split: if_splits)
    next
      case None
      define c where "c = hd s"
      have c: "hd (s @ ?x) = c" "hd s = c" "s @ ?x \<noteq> []" using ne by (simp_all add: c_def)
      have hc: "length (drop (html_comment_length s) s) < length s" "drop (html_comment_length s) (s @ ?x) = drop (html_comment_length s) s @ ?x"
        if "html_comment_length s > 0" using that ne html_length_le [of s] by auto
      have cc: "comment_close (drop 2 (s @ ?x)) = Some (r @ ?x) \<and> length r < length s"
        if "comment_close (drop 2 s) = Some r" "starts_comment s" for r
        using comment_close_append [OF that(1), of ?x] comment_close_shorter [OF that(1)] that(2) d2
        by (simp add: starts_comment_def)
      have ne2: "s @ ?x \<noteq> []" by simp
      consider (comment) "starts_comment s" | (space) "\<not> starts_comment s" "g_ascii_isspace c"
        | (html) "\<not> starts_comment s" "\<not> g_ascii_isspace c" "stack = []" "stmt = STMT_NONE" "html_comment_length s > 0"
        | (plain) "\<not> starts_comment s" "\<not> g_ascii_isspace c"
            "\<not> (stack = [] \<and> stmt = STMT_NONE \<and> html_comment_length s > 0)" by argo
      then show ?thesis
      proof cases
        case comment
        with less.prems None contained_steps(1) [OF ne] obtain r
          where r: "comment_close (drop 2 s) = Some r" "contained_loop None stack stmt r" by (auto split: option.splits)
        with IH [OF r(2)] cc [OF r(1) comment] contained_steps(1) [OF ne2] comment app(3) None show ?thesis by simp
      next
        case space
        with less.prems None contained_steps(2) [OF ne space(1)] contained_steps(2) [OF ne2] app c IH short(1) show ?thesis by simp
      next
        case html
        with less.prems None contained_steps(3) [OF ne html(1)] contained_steps(3) [OF ne2] app c IH hc show ?thesis by simp
      next
        case plain
        note f = plain
        have e: "contained_loop None stack stmt s =
            (if c = BACKSLASH then length s > 1 \<and> contained_loop None stack (stmt_at stmt stack c) (drop 2 s)
             else case plain_state stack (stmt_at stmt stack c) c of
                    None \<Rightarrow> False | Some (q, k, st) \<Rightarrow> contained_loop q k st (tl s))"
          using contained_steps(4) [OF ne f(1)] f(2,3) by (simp add: c_def)
        have e2: "contained_loop None stack stmt (s @ ?x) =
            (if c = BACKSLASH then length (s @ ?x) > 1 \<and> contained_loop None stack (stmt_at stmt stack c) (drop 2 (s @ ?x))
             else case plain_state stack (stmt_at stmt stack c) c of
                    None \<Rightarrow> False | Some (q, k, st) \<Rightarrow> contained_loop q k st (tl s @ ?x))"
          using contained_steps(4) [OF ne2, of stack stmt, unfolded app] f by (simp add: c_def)
        show ?thesis
        proof (cases "c = BACKSLASH")
          case True
          with ne less.prems None e e2 d2 IH short show ?thesis by simp
        next
          case False
          with less.prems None e obtain q k st where p: "plain_state stack (stmt_at stmt stack c) c = Some (q, k, st)"
              "contained_loop q k st (tl s)" by (auto split: option.splits)
          from IH [OF p(2) plain_state_quote [OF p(1)]] short False p(1) None e2 show ?thesis by simp
        qed
      qed
    qed
  qed
qed

lemma self_contained_append:
  "ns_css_syntax_is_self_contained a \<Longrightarrow>
   ns_css_syntax_is_self_contained (a @ CHR 0x0A # b) = ns_css_syntax_is_self_contained b"
  by (simp add: ns_css_syntax_is_self_contained_def contained_append)

lemma self_contained_join:
  "list_all ns_css_syntax_is_self_contained sheets \<Longrightarrow>
   ns_css_syntax_is_self_contained (concat (map (\<lambda>c. c @ [CHR 0x0A]) sheets) @ b) = ns_css_syntax_is_self_contained b"
  by (induction sheets) (simp_all add: self_contained_append)



section \<open>The scanner and the parser agree\<close>

definition is_closer :: "char \<Rightarrow> bool" where
  "is_closer c \<longleftrightarrow> c = CHR '')'' \<or> c = CHR '']'' \<or> c = CHR ''}''"

text \<open>Characters that are a value of their own wherever they stand outside strings and comments.\<close>

definition own_delimiter :: "char \<Rightarrow> bool" where
  "own_delimiter c \<longleftrightarrow> \<not> css_syntax_name c \<and> \<not> ns_is_ascii_ws c \<and> \<not> is_quote c \<and> \<not> is_opener c \<and> \<not> is_closer c \<and>
     c \<noteq> BACKSLASH \<and> c \<noteq> CHR 0x00 \<and> c \<notin> {CHR ''+'', CHR ''-'', CHR ''.'', CHR ''%'', CHR ''#'', CHR ''@'', CHR ''/''}"

text \<open>Neither escapes nor NUL bytes.\<close>

definition plain_text :: "cstr \<Rightarrow> bool" where
  "plain_text s \<longleftrightarrow> BACKSLASH \<notin> set s \<and> CHR 0x00 \<notin> set s"

definition word_char :: "char \<Rightarrow> bool" where
  "word_char c \<longleftrightarrow> css_syntax_name c \<or> ns_is_ascii_ws c \<or> c \<in> {CHR ''+'', CHR ''-'', CHR ''.'', CHR ''%'', CHR ''#'', CHR ''@''}"

definition word_to :: "cstr \<Rightarrow> cstr \<Rightarrow> bool" where
  "word_to s e \<longleftrightarrow> (\<exists>u. s = u @ e \<and> (\<forall>c \<in> set u. word_char c))"

lemma word_to_refl: "word_to s s"
  by (simp add: word_to_def)

lemma word_to_trans: "word_to s e \<Longrightarrow> word_to e f \<Longrightarrow> word_to s f"
  by (fastforce simp: word_to_def)

lemma word_to_tl:
  assumes "s \<noteq> []" "word_char (hd s)" "word_to (tl s) e"
  shows "word_to s e"
proof -
  obtain u where "tl s = u @ e" "\<forall>c \<in> set u. word_char c" using assms(3) by (auto simp: word_to_def)
  with assms(1,2) have "s = (hd s # u) @ e" "\<forall>c \<in> set (hd s # u). word_char c" by (cases s; simp)+
  then show ?thesis unfolding word_to_def by blast
qed

lemma word_to_dropWhile: "(\<And>c. P c \<Longrightarrow> word_char c) \<Longrightarrow> word_to s (dropWhile P s)"
  unfolding word_to_def by (intro exI [of _ "takeWhile P s"]) (auto dest: set_takeWhileD)

lemma plain_tail: "plain_text s \<Longrightarrow> tail_of e s \<Longrightarrow> plain_text e"
  by (auto simp: plain_text_def tail_of_def)

lemma plain_hd: "plain_text s \<Longrightarrow> s \<noteq> [] \<Longrightarrow> hd s \<noteq> BACKSLASH \<and> hd s \<noteq> CHR 0x00 \<and> plain_text (tl s)"
  by (cases s) (auto simp: plain_text_def)

lemma word_name: "css_syntax_name c \<Longrightarrow> word_char c" and word_digit: "g_ascii_isdigit c \<Longrightarrow> word_char c"
  by (auto simp: word_char_def css_syntax_name_def)

lemma word_name_end: "plain_text s \<Longrightarrow> word_to s (css_syntax_name_end s)"
proof (induction s)
  case Nil
  then show ?case by (simp add: name_end_steps(2) word_to_refl)
next
  case (Cons c s)
  then show ?case
    using plain_hd [of "c # s"] name_end_steps(1,2) [of "c # s"] word_to_tl [of "c # s"] word_name word_to_refl
    by (cases "css_syntax_name c") auto
qed

lemma word_sign: "word_to s (skip_sign s)"
  using word_to_tl [of s "tl s", OF _ _ word_to_refl] by (auto simp: skip_sign_def word_to_refl word_char_def)

lemma word_fraction: "word_to s (skip_fraction s)"
  using word_to_tl [of s, OF _ _ word_to_dropWhile [of g_ascii_isdigit "tl s", OF word_digit]]
  by (cases "s = []") (auto simp: skip_fraction_def word_to_refl word_char_def)

lemma word_exponent: "word_to s (skip_exponent s)"
proof -
  have "word_to s (dropWhile g_ascii_isdigit (tl (skip_sign (tl s))))"
    if "s \<noteq> []" "hd s = CHR ''e'' \<or> hd s = CHR ''E''" "skip_sign (tl s) \<noteq> []" "g_ascii_isdigit (hd (skip_sign (tl s)))"
  proof -
    have "word_char (hd s)"
      using that(2) by (auto simp: word_char_def css_syntax_name_def css_syntax_name_start_def ascii_simps)
    moreover have "word_to (tl s) (dropWhile g_ascii_isdigit (tl (skip_sign (tl s))))"
      using word_to_trans [OF word_sign word_to_tl [OF that(3) _ word_to_dropWhile]] word_digit that(4) by blast
    ultimately show ?thesis using word_to_tl that(1) by blast
  qed
  then show ?thesis by (auto simp: skip_exponent_def Let_def word_to_refl)
qed

lemma word_number: "word_to s (css_syntax_number_end s)"
  unfolding css_syntax_number_end_def
  using word_to_trans [OF word_sign word_to_trans [OF word_to_dropWhile word_to_trans [OF word_fraction word_exponent]]]
    word_digit by blast

text \<open>The scanner goes on over a word.\<close>

lemma scan_step:
  assumes "s \<noteq> []" "\<not> starts_comment s" "hd s \<noteq> BACKSLASH" "\<not> is_quote (hd s)"
    "stack \<noteq> [] \<or> hd s \<notin> set ts \<and> hd s \<noteq> CHR 0x00"
  shows "scan_loop ts None stack s =
    (if is_opener (hd s) then scan_loop ts None (if length stack < STACK_SIZE then closing_of (hd s) # stack else stack) (tl s)
     else scan_loop ts None (if stack \<noteq> [] \<and> hd s = hd stack then tl stack else stack) (tl s))"
proof (cases "stack = []")
  case True
  with assms show ?thesis by (simp add: scan_loop.simps [of ts None "[]" s] Let_def)
next
  case False
  with assms(1-4) show ?thesis by (simp add: scan_loop.simps [of ts None stack s] Let_def)
qed

lemma word_char_neutral:
  assumes "word_char c" "c \<noteq> BACKSLASH" "c \<noteq> CHR 0x00" "list_all own_delimiter ts" "list_all is_closer stack"
  shows "c \<noteq> CHR ''/''" "\<not> is_quote c" "\<not> is_opener c" "c \<notin> set ts" "\<not> (stack \<noteq> [] \<and> c = hd stack)"
proof -
  show "c \<notin> set ts"
  proof
    assume "c \<in> set ts"
    with assms(4) have "own_delimiter c" by (simp add: list_all_iff)
    with assms(1) show False by (simp add: word_char_def own_delimiter_def)
  qed
  have n: "\<not> word_char (CHR ''/'')" "\<not> word_char (CHR 0x22)" "\<not> word_char (CHR 0x27)" "\<not> word_char (CHR ''('')"
    "\<not> word_char (CHR ''['')" "\<not> word_char (CHR ''{'')" "\<not> word_char (CHR '')'')" "\<not> word_char (CHR '']'')" "\<not> word_char (CHR ''}'')"
    by code_simp+
  from n assms(1) show "c \<noteq> CHR ''/''" "\<not> is_quote c" "\<not> is_opener c" by (auto simp: is_quote_def is_opener_def)
  have "\<not> is_closer c" using n assms(1) by (auto simp: is_closer_def)
  with assms(5) show "\<not> (stack \<noteq> [] \<and> c = hd stack)" by (cases stack) auto
qed

lemma scan_word:
  assumes "word_to s e" "plain_text s" "list_all own_delimiter ts" "list_all is_closer stack"
  shows "scan_loop ts None stack s = scan_loop ts None stack e"
proof -
  obtain u where u: "s = u @ e" "\<forall>c \<in> set u. word_char c" using assms(1) by (auto simp: word_to_def)
  have "plain_text (u @ e) \<Longrightarrow> scan_loop ts None stack (u @ e) = scan_loop ts None stack e"
    using u(2)
  proof (induction u)
    case (Cons c u)
    from Cons.prems have c: "word_char c" "c \<noteq> BACKSLASH" "c \<noteq> CHR 0x00" and p: "plain_text (u @ e)"
      by (auto simp: plain_text_def)
    note n = word_char_neutral [OF c assms(3,4)]
    have "scan_loop ts None stack ((c # u) @ e) = scan_loop ts None stack (u @ e)"
      using scan_step [of "(c # u) @ e" stack ts] n c by (simp add: starts_comment_def)
    with Cons.IH p Cons.prems(2) show ?case by simp
  qed simp
  with u(1) assms(2) show ?thesis by simp
qed

lemma scan_string:
  "string_loop q s val = (v, r, True) \<Longrightarrow> plain_text s \<Longrightarrow>
   scan_loop ts (Some q) stack s = scan_loop ts None stack r"
proof (induction q s val rule: string_loop.induct)
  case (1 q s val)
  show ?case
  proof (cases "s = []")
    case True
    with 1(3) show ?thesis by (simp add: string_loop.simps [of q "[]"] scan_loop.simps [of _ _ _ "[]"])
  next
    case False
    note h = plain_hd [OF 1(4) False]
    have e: "scan_loop ts (Some q) stack s = scan_loop ts (if hd s = q \<or> is_newline (hd s) then None else Some q) stack (tl s)"
      using False h by (simp add: scan_loop.simps [of ts "Some q" stack s] Let_def)
    show ?thesis
    proof (cases "hd s = q")
      case True
      with 1(3) False e show ?thesis by (simp add: string_loop.simps [of q s] Let_def)
    next
      case nq: False
      with 1(3) False h have "\<not> is_newline (hd s)" "string_loop q (tl s) (val @ [hd s]) = (v, r, True)"
        by (auto simp: string_loop.simps [of q s] Let_def split: if_splits)
      with 1(2) [OF False refl refl nq] h e nq show ?thesis by simp
    qed
  qed
qed


section \<open>Trees and stacks\<close>

text \<open>How deep the brackets of a list of values are nested.\<close>

fun nesting :: "ns_css_component \<Rightarrow> nat" and nestings :: "ns_css_component list \<Rightarrow> nat" where
  "nesting (Component ty i j v n ch d) = (case ch of None \<Rightarrow> 0 | Some cs \<Rightarrow> Suc (nestings cs))"
| "nestings [] = 0"
| "nestings (c # cs) = max (nesting c) (nestings cs)"

lemma scan_plain_char:
  assumes "s \<noteq> []" "\<not> starts_comment s" "plain_text s" "\<not> is_quote (hd s)" "\<not> is_opener (hd s)" "\<not> is_closer (hd s)"
    "list_all is_closer stack"
  shows "scan_loop ts None stack s =
    (if stack = [] \<and> hd s \<in> set ts then (s, hd s) else scan_loop ts None stack (tl s))"
proof -
  have h: "hd s \<noteq> BACKSLASH" "hd s \<noteq> CHR 0x00" using plain_hd [OF assms(3,1)] by simp_all
  have "\<not> (stack \<noteq> [] \<and> hd s = hd stack)" using assms(6,7) by (cases stack) auto
  with h assms(1,2,4,5) show ?thesis
    by (cases stack) (simp_all add: scan_loop.simps [of ts None _ s] Let_def)
qed

lemma scan_Nil [simp]: "scan_loop ts q k [] = ([], CHR 0x00)"
  by (simp add: scan_loop.simps)

text \<open>A value without children: it stops the scanner exactly when it is one of the delimiters looked for.\<close>

lemma scan_whole:
  assumes h: "css_syntax_head p = Whole c p1" and ne: "ps_input p \<noteq> []" and v: "ps_valid p1"
    and pl: "plain_text (ps_input p)" and nc: "\<not> starts_comment (ps_input p)" and ncl: "\<not> is_closer (hd (ps_input p))"
    and ts: "list_all own_delimiter ts" and k: "list_all is_closer stack"
  shows "scan_loop ts None stack (ps_input p) =
    (if stack = [] \<and> comp_delimiter c \<in> set ts then (ps_input p, comp_delimiter c)
     else scan_loop ts None stack (ps_input p1))"
proof -
  define s where "s = ps_input p"
  note hd = plain_hd [OF pl ne, folded s_def]
  have tsn: "CHR 0x00 \<notin> set ts" "CHR 0x22 \<notin> set ts" "CHR 0x27 \<notin> set ts"
    using ts by (auto simp: own_delimiter_def list_all_iff is_quote_def)
  have word: ?thesis if "word_to s (ps_input p1)" "comp_delimiter c = CHR 0x00"
    using that scan_word [OF _ pl [folded s_def] ts k] tsn by (simp add: s_def)
  have name: "word_to s (css_syntax_name_end s)" "word_to (tl s) (css_syntax_name_end (tl s))"
    using word_name_end pl plain_tail [OF pl, of "tl s"] tl_tail_of [of s s] by (auto simp: s_def)
  show ?thesis
  proof (cases "ns_is_ascii_ws (hd s)")
    case True
    with h have "ps_input p1 = dropWhile ns_is_ascii_ws s" "comp_delimiter c = CHR 0x00"
      by (auto simp: css_syntax_head_def Let_def simp flip: s_def)
    with word word_to_dropWhile [of ns_is_ascii_ws s] show ?thesis by (simp add: word_char_def)
  next
    case nws: False
    show ?thesis
    proof (cases "is_quote (hd s)")
      case True
      obtain v' r ok where l: "string_loop (hd s) (tl s) [] = (v', r, ok)" using prod_cases3 by blast
      with True nws h v have r: "ok" "ps_input p1 = r" "comp_delimiter c = hd s"
        by (auto simp: css_syntax_head_def css_syntax_consume_string_def Let_def is_quote_def simp flip: s_def)
      have "scan_loop ts None stack s = scan_loop ts (Some (hd s)) stack (tl s)"
        using ne [folded s_def] nc [folded s_def] hd True by (simp add: scan_loop.simps [of ts None stack s] Let_def)
      also have "\<dots> = scan_loop ts None stack r" using scan_string [of "hd s" "tl s" "[]" v' r] l r(1) hd by simp
      finally show ?thesis using r True tsn by (auto simp: s_def is_quote_def)
    next
      case nq: False
      then have nq': "hd s \<noteq> CHR 0x22" "hd s \<noteq> CHR 0x27" by (simp_all add: is_quote_def)
      show ?thesis
      proof (cases "css_syntax_starts_number s")
        case True
        define e where "e = css_syntax_number_end s"
        have pe: "plain_text e" using plain_tail [OF pl [folded s_def] tail_number] by (simp add: e_def)
        have n: "word_to s e" using word_number by (simp add: e_def)
        have pc: "e \<noteq> [] \<Longrightarrow> hd e = CHR ''%'' \<Longrightarrow> word_to e (tl e)"
          using word_to_tl [of e "tl e"] word_to_refl by (simp add: word_char_def)
        from True nws nq' h have i: "ps_input p1 = (if e \<noteq> [] \<and> hd e = CHR ''%'' then tl e
            else if css_syntax_starts_ident e then css_syntax_name_end e else e)" "comp_delimiter c = CHR 0x00"
          by (auto simp: css_syntax_head_def css_syntax_consume_numeric_def Let_def simp flip: s_def e_def split: if_splits)
        have "word_to e (ps_input p1)" unfolding i(1) using pc word_name_end [OF pe] word_to_refl
          by (auto simp: name_end_steps(2) [of "[]"])
        from word [OF word_to_trans [OF n this] i(2)] show ?thesis .
      next
        case nn: False
        have ident: ?thesis if "ident_head at hash p = Whole c p1" "at \<or> hash \<Longrightarrow> word_char (hd s)" for at hash
        proof -
          have "ps_input p1 = css_syntax_name_end (if at \<or> hash then tl s else s)" "comp_delimiter c = CHR 0x00"
            using that(1) by (auto simp: ident_head_def consume_name_def Let_def simp flip: s_def split: if_splits)
          moreover have "word_to s (css_syntax_name_end (if at \<or> hash then tl s else s))"
            using name that(2) word_to_tl [of s] ne by (auto simp: s_def)
          ultimately show ?thesis using word by simp
        qed
        have at: "word_char (CHR ''@'')" "word_char (CHR ''#'')" by (simp_all add: word_char_def)
        consider (id) at hash where "ident_head at hash p = Whole c p1" "at \<or> hash \<Longrightarrow> word_char (hd s)"
          | (delim) "ps_input p1 = tl s" "comp_delimiter c = hd s" "\<not> is_opener (hd s)"
          using h nws nq' nn at by (auto simp: css_syntax_head_def Let_def is_opener_def simp flip: s_def split: if_splits)
        then show ?thesis
        proof cases
          case id
          then show ?thesis using ident by blast
        next
          case delim
          with scan_plain_char [of s stack ts] ne nc pl nq ncl k show ?thesis by (simp add: s_def)
        qed
      qed
    qed
  qed
qed


lemma scan_opener:
  assumes "s \<noteq> []" "plain_text s" "is_opener (hd s)" "length stack < STACK_SIZE" "list_all own_delimiter ts"
  shows "scan_loop ts None stack s = scan_loop ts None (closing_of (hd s) # stack) (tl s)"
proof -
  have "hd s \<noteq> BACKSLASH" "hd s \<noteq> CHR 0x00" using plain_hd [OF assms(2,1)] by simp_all
  moreover have "\<not> starts_comment s" "\<not> is_quote (hd s)" using assms(3) by (auto simp: starts_comment_def is_opener_def is_quote_def)
  moreover have "hd s \<notin> set ts" using assms(3,5) by (auto simp: own_delimiter_def list_all_iff)
  ultimately show ?thesis using assms(1,3,4) by (simp add: scan_step)
qed

lemma closer_closing_of [simp]: "is_closer (closing_of c)"
  by (simp add: closing_of_def is_closer_def)

lemma scan_opening:
  assumes h: "css_syntax_head p = Opening ty v cl p1" and ne: "ps_input p \<noteq> []" and pl: "plain_text (ps_input p)"
    and ts: "list_all own_delimiter ts" and k: "list_all is_closer stack" "length stack < STACK_SIZE"
  shows "scan_loop ts None stack (ps_input p) = scan_loop ts None (cl # stack) (ps_input p1) \<and> is_closer cl"
proof -
  define s where "s = ps_input p"
  have name: "scan_loop ts None stack s = scan_loop ts None (CHR '')'' # stack) (ps_input p1) \<and> cl = CHR '')''"
    if i: "ident_head at hash p = Opening ty v cl p1" for at hash
  proof -
    define r where "r = css_syntax_name_end s"
    have r: "r \<noteq> []" "hd r = CHR ''(''" "ps_input p1 = tl r" "cl = CHR '')''"
      using i by (auto simp: ident_head_def consume_name_def Let_def r_def s_def split: if_splits)
    have pr: "plain_text r" using plain_tail [OF pl tail_name] by (simp add: r_def s_def)
    have "scan_loop ts None stack s = scan_loop ts None stack r"
      using scan_word [OF word_name_end] pl ts k(1) by (simp add: r_def s_def)
    also have "\<dots> = scan_loop ts None (CHR '')'' # stack) (tl r)"
      using scan_opener [OF r(1) pr _ k(2) ts] r(2) by (simp add: is_opener_def closing_of_def)
    finally show ?thesis using r by simp
  qed
  have block: "scan_loop ts None stack s = scan_loop ts None (cl # stack) (ps_input p1)"
    if "is_opener (hd s)" "cl = closing_of (hd s)" "ps_input p1 = tl s"
    using scan_opener [of s stack ts] that ne pl k(2) ts by (simp add: s_def)
  show ?thesis
    using h name block
    by (auto simp: css_syntax_head_def Let_def is_opener_def is_closer_def closing_of_def simp flip: s_def split: if_splits prod.splits)
qed


text \<open>What the scanner finds, told by the values of a list.\<close>

definition first_delimiter :: "cstr \<Rightarrow> cstr \<Rightarrow> ns_css_component list \<Rightarrow> cstr \<times> char" where
  "first_delimiter ts w cs =
     (case find (\<lambda>c. comp_delimiter c \<in> set ts) cs of
        None \<Rightarrow> ([], CHR 0x00)
      | Some c \<Rightarrow> (drop (comp_start c) w, comp_delimiter c))"

definition scan_goal :: "cstr \<Rightarrow> char option \<Rightarrow> char list \<Rightarrow> cstr \<Rightarrow> ns_css_component list \<Rightarrow> ns_css_syntax_parser \<Rightarrow> cstr \<Rightarrow> bool" where
  "scan_goal ts closing k w cs p' s \<longleftrightarrow>
     (case closing of
        None \<Rightarrow> scan_loop ts None [] s = first_delimiter ts w cs
      | Some cl \<Rightarrow> scan_loop ts None (cl # k) s = scan_loop ts None k (ps_input p'))"

definition the_stack :: "char option \<Rightarrow> char list \<Rightarrow> char list" where
  "the_stack closing k = (case closing of None \<Rightarrow> [] | Some cl \<Rightarrow> cl # k)"

lemma tail_pos: "tail_of s w \<Longrightarrow> drop (pos w s) w = s"
  by (auto simp: tail_of_def pos_def)

lemma scan_goal_cons:
  assumes "scan_goal ts closing k w cs p' (ps_input p1)" "comp_start c = pos w (ps_input p)" "tail_of (ps_input p) w"
    "scan_loop ts None (the_stack closing k) (ps_input p) =
       (if the_stack closing k = [] \<and> comp_delimiter c \<in> set ts then (ps_input p, comp_delimiter c)
        else scan_loop ts None (the_stack closing k) (ps_input p1))"
  shows "scan_goal ts closing k w (c # cs) p' (ps_input p)"
  using assms by (cases closing) (auto simp: scan_goal_def the_stack_def first_delimiter_def tail_pos)

lemma parse_loop_further:
  assumes "parse_loop closing p = Some (cs, p')" "tail_of (ps_input p) w" "ps_length p = length w"
  shows "further p p'"
  using parse_loop_tiling [OF assms(2,3), of closing] assms(1) by auto

lemma scan_parse:
  assumes "parse_loop closing p = Some (cs, p')" "ps_valid p'" "tail_of (ps_input p) w" "ps_length p = length w"
    "plain_text w" "list_all own_delimiter ts" "list_all is_closer (the_stack closing k)"
    "length (the_stack closing k) + nestings cs \<le> STACK_SIZE"
  shows "scan_goal ts closing k w cs p' (ps_input p)"
  using assms(1-4,7,8)
proof (induction p arbitrary: closing k cs p' rule: measure_induct_rule [where f = "\<lambda>p. length (ps_input p)"])
  case (less p)
  note pl = plain_tail [OF assms(5) less.prems(3)]
  have sub: "length (ps_input q) < length (ps_input p) \<and> tail_of (ps_input q) w \<and> ps_length q = length w"
    if "strictly_further p q" for q
    using that less.prems(3,4) further_tail [of p q w] by (simp add: strictly_further_def further_def)
  show ?case
  proof (cases "list_step closing p")
    case (List_End p1)
    then have r: "cs = []" "p' = p1" using less.prems(1) by (simp_all add: parse_loop.simps [of closing p])
    show ?thesis
    proof (cases "ps_input p = []")
      case True
      with List_End r show ?thesis
        by (cases closing) (simp_all add: scan_goal_def first_delimiter_def list_step_def)
    next
      case False
      with List_End r less.prems(2) obtain cl where c: "closing = Some cl" "hd (ps_input p) = cl"
          "ps_input p1 = tl (ps_input p)" "\<not> starts_comment (ps_input p)"
        by (auto simp: list_step_def Let_def starts_comment_def split: if_splits)
      have "is_closer cl" using less.prems(5) c(1) by (simp add: the_stack_def)
      then have n: "cl \<noteq> BACKSLASH" "\<not> is_quote cl" "\<not> is_opener cl"
        by (auto simp: is_closer_def BACKSLASH_def is_quote_def is_opener_def)
      have "scan_loop ts None (cl # k) (ps_input p) = scan_loop ts None k (tl (ps_input p))"
        using scan_step [OF False c(4), of "cl # k" ts] c(2) n by simp
      with c(1,3) r show ?thesis by (simp add: scan_goal_def)
    qed
  next
    case (List_Skip p1)
    note sf = list_step_further(2) [OF List_Skip]
    have r: "parse_loop closing p1 = Some (cs, p')" using less.prems(1) List_Skip by (simp add: parse_loop.simps [of closing p])
    have s1: "tail_of (ps_input p1) w" "ps_length p1 = length w" using sub [OF sf] by blast+
    have v1: "ps_valid p1" using parse_loop_further [OF r s1] less.prems(2) by (simp add: further_def)
    have c: "ps_input p1 = comment_rest (drop 2 (ps_input p))" "starts_comment (ps_input p)" "ps_input p \<noteq> []"
      using List_Skip v1 by (auto simp: list_step_def Let_def css_syntax_skip_comment_def starts_comment_def split: if_splits)
    have "scan_loop ts None x (ps_input p) = scan_loop ts None x (ps_input p1)" for x
      using c by (simp add: scan_loop.simps [of ts None x "ps_input p"] Let_def)
    with less.IH [of p1 closing cs p' k] r sub [OF sf] less.prems(2,5,6) show ?thesis
      by (cases closing) (simp_all add: scan_goal_def)
  next
    case List_Value
    note ne = list_step_further(3) [OF List_Value]
    have at: "\<not> starts_comment (ps_input p)" "\<not> is_closer (hd (ps_input p))"
      using List_Value by (auto simp: list_step_def Let_def starts_comment_def is_closer_def split: if_splits)
    show ?thesis
    proof (cases "css_syntax_head p")
      case (Whole c p1)
      note h = head_whole [OF Whole ne]
      obtain cs1 where r: "parse_loop closing p1 = Some (cs1, p')" "cs = c # cs1"
        using less.prems(1) List_Value Whole by (auto simp: parse_loop.simps [of closing p] bind_eq_Some_conv)
      have s1: "length (ps_input p1) < length (ps_input p)" "tail_of (ps_input p1) w" "ps_length p1 = length w"
        using sub h by blast+
      have v1: "ps_valid p1" using parse_loop_further [OF r(1) s1(2,3)] less.prems(2) by (simp add: further_def)
      have g: "scan_goal ts closing k w cs1 p' (ps_input p1)"
        using less.IH [OF s1(1) r(1) less.prems(2) s1(2,3) less.prems(5)] less.prems(6) r(2) by simp
      have "comp_start c = pos w (ps_input p)" using h less.prems(4) by (simp add: offset_pos)
      from scan_goal_cons [OF g this less.prems(3) scan_whole [OF Whole ne v1 pl at assms(6) less.prems(5)]] r(2)
      show ?thesis by simp
    next
      case (Opening ty v cl p1)
      define st where "st = the_stack closing k"
      note h = head_opening [OF Opening ne]
      have s1: "length (ps_input p1) < length (ps_input p)" "tail_of (ps_input p1) w" "ps_length p1 = length w"
        using sub [OF h] by blast+
      obtain ch p4 cs1 where q: "(case enter_list p1 of None \<Rightarrow> Some ([], too_deep p1)
            | Some p2 \<Rightarrow> Option.bind (parse_loop (Some cl) p2) (\<lambda>(ch, p3). Some (ch, leave_list p3))) = Some (ch, p4)"
          "parse_loop closing p4 = Some (cs1, p')" "cs = opened_component p ty v cl ch p4 # cs1"
        using less.prems(1) List_Value Opening by (auto simp: parse_loop.simps [of closing p] bind_eq_Some_conv)
      have deep: "\<not> ps_valid p'" if "p4 = too_deep p1"
        using parse_loop_further [OF q(2), of w] that s1(3) by (auto simp: too_deep_def further_def)
      obtain p2 p3 where e: "enter_list p1 = Some p2" "parse_loop (Some cl) p2 = Some (ch, p3)" "p4 = leave_list p3"
        using q(1) deep less.prems(2) by (auto simp: bind_eq_Some_conv split: option.splits)
      have p2: "ps_input p2 = ps_input p1" "ps_length p2 = length w"
        using e(1) s1(3) by (auto simp: enter_list_def split: if_splits)
      have t2: "tail_of (ps_input p2) w" using p2(1) s1(2) by simp
      have f3: "further p2 p3" by (rule parse_loop_further [OF e(2) t2 p2(2)])
      have p4: "ps_input p4 = ps_input p3" "ps_length p4 = length w" "ps_valid p4 = ps_valid p3"
        using e(3) f3 p2(2) by (auto simp: leave_list_def further_def)
      have t4: "tail_of (ps_input p4) w" using further_tail [OF f3 t2] p4(1) by simp
      have l4: "length (ps_input p4) < length (ps_input p)" using further_length [OF f3] p4(1) p2(1) s1(1) by simp
      have v4: "ps_valid p4" using parse_loop_further [OF q(2) t4 p4(2)] less.prems(2) by (simp add: further_def)
      have n: "Suc (nestings ch) \<le> nestings cs" "nestings cs1 \<le> nestings cs"
        using q(3) by (simp_all add: opened_component_def)
      have room: "length st < STACK_SIZE" using less.prems(6) n(1) by (simp add: st_def)
      from scan_opening [OF Opening ne pl assms(6) less.prems(5) [folded st_def] room]
      have o: "scan_loop ts None st (ps_input p) = scan_loop ts None (cl # st) (ps_input p1)" "is_closer cl" by auto
      have "scan_goal ts (Some cl) st w ch p3 (ps_input p2)"
        using less.IH [of p2 "Some cl" ch p3 st] s1(1) p2 t2 e(2) v4 p4(3) o(2) less.prems(5,6) n(1)
        by (simp add: the_stack_def [of "Some _"] st_def)
      with p2(1) p4(1) o(1) have step: "scan_loop ts None st (ps_input p) = scan_loop ts None st (ps_input p4)"
        by (simp add: scan_goal_def)
      have g: "scan_goal ts closing k w cs1 p' (ps_input p4)"
        using less.IH [OF l4 q(2) less.prems(2) t4 p4(2) less.prems(5)] less.prems(6) n(2) by simp
      have cl: "cl \<notin> set ts" using o(2) assms(6) by (auto simp: own_delimiter_def list_all_iff)
      show ?thesis
        using scan_goal_cons [OF g _ less.prems(3), of "opened_component p ty v cl ch p4"] step cl less.prems(4) q(3)
        by (simp add: opened_component_def offset_pos st_def)
    qed
  qed
qed




text \<open>
  Where the hypothesis on escapes is needed: a newline that ends a hexadecimal escape inside a string is
  part of the escape for the parser, but ends the string for the scanner.
\<close>

lemma scanner_splits_escape:
  "ns_css_component_value_valid (Some [CHR 0x22, BACKSLASH, CHR ''4'', CHR 0x0A, CHR '';'', CHR 0x22]) = Some True \<and>
   ns_css_syntax_scan [CHR 0x22, BACKSLASH, CHR ''4'', CHR 0x0A, CHR '';'', CHR 0x22] '';'' = ([CHR '';'', CHR 0x22], CHR '';'')"
  by code_simp

text \<open>A string continued on the next line with a backslash, which CSS allows, is called invalid.\<close>

lemma continued_string_invalid:
  "ns_css_component_value_valid (Some [CHR 0x22, BACKSLASH, CHR 0x0A, CHR 0x22]) = Some False"
  by code_simp


text \<open>And beyond the stack of 128: a terminator inside the outermost of 129 parentheses is found.\<close>

lemma scanner_stack_overflows:
  "ns_css_syntax_scan (replicate 129 (CHR ''('') @ replicate 128 (CHR '')'') @ '';)'') '';'' = ('';)'', CHR '';'')"
  by code_simp

end
