(* ===== verification/Extensions.thy ===== *)
theory Extensions
  imports Prelude "HOL-Library.Sublist"
begin

text \<open>
  The matching side of the extensions (\<^verbatim>\<open>ext.c\<close>): match patterns and globs of content scripts,
  Adblock filter lists, declarativeNetRequest rules and the verdict whether a request is blocked.  A hash
  table used as a set is a list, a list that may be \<^verbatim>\<open>NULL\<close> an option.  Parameters: a compiled
  regular expression is the predicate \<^verbatim>\<open>g_regex_match\<close> decides, compiling is a function that may
  fail, and \<^verbatim>\<open>psl_registrable_domain\<close> is a function from hosts.  Rules that come from a JSON rule
  file are parsed through the JavaScript engine and are given here.
\<close>

section \<open>Globs\<close>

text \<open>
  The loop of \<^verbatim>\<open>ns_ext_wildcard\<close>; the last argument is the one backtrack point, \<open>star_p\<close> and
  \<open>star_s\<close>.
\<close>

definition stars :: "cstr \<Rightarrow> nat" where
  "stars p = length (filter (\<lambda>c. c = CHR ''*'') p)"

lemma stars_tl: "stars (tl p) \<le> stars p"
  by (cases p) (auto simp: stars_def)

lemma stars_skip: "p \<noteq> [] \<Longrightarrow> hd p = CHR ''*'' \<Longrightarrow> stars (dropWhile (\<lambda>c. c = CHR ''*'') p) < stars p"
proof (induction p)
  case (Cons c p)
  have "stars (dropWhile (\<lambda>c. c = CHR ''*'') p) \<le> stars p"
    by (metis takeWhile_dropWhile_id filter_append length_append le_add2 stars_def)
  with Cons.prems show ?case by (simp add: stars_def)
qed simp

definition star_bound :: "cstr \<Rightarrow> (cstr \<times> cstr) option \<Rightarrow> nat" where
  "star_bound p bt = (case bt of None \<Rightarrow> stars p | Some (sp, ss) \<Rightarrow> max (stars p) (stars sp))"

definition star_left :: "(cstr \<times> cstr) option \<Rightarrow> nat" where
  "star_left bt = (case bt of None \<Rightarrow> 0 | Some (sp, ss) \<Rightarrow> length ss)"

function wildcard_loop :: "cstr \<Rightarrow> cstr \<Rightarrow> (cstr \<times> cstr) option \<Rightarrow> bool" where
  "wildcard_loop pat str bt =
     (if pat \<noteq> [] \<and> hd pat = CHR ''*'' then
        (let p = dropWhile (\<lambda>c. c = CHR ''*'') pat in
         if p = [] then True else wildcard_loop p str (Some (p, str)))
      else if pat = [] \<and> str = [] then True
      else if pat \<noteq> [] \<and> str \<noteq> [] \<and> (hd pat = CHR ''?'' \<or> hd pat = hd str)
      then wildcard_loop (tl pat) (tl str) bt
      else (case bt of
              None \<Rightarrow> False
            | Some (star_p, star_s) \<Rightarrow>
                if star_s = [] then False
                else wildcard_loop star_p (tl star_s) (Some (star_p, tl star_s))))"
  by pat_completeness auto

lemma star_bound_star: "p \<noteq> [] \<Longrightarrow> hd p = CHR ''*'' \<Longrightarrow>
    star_bound (dropWhile (\<lambda>c. c = CHR ''*'') p) (Some (dropWhile (\<lambda>c. c = CHR ''*'') p, s)) < star_bound p bt"
  using stars_skip [of p] by (auto simp: star_bound_def split: option.split)

lemma star_bound_tl: "\<not> star_bound (tl p) bt < star_bound p bt \<Longrightarrow> star_bound (tl p) bt = star_bound p bt"
  using stars_tl [of p] by (auto simp: star_bound_def split: option.splits)

lemma star_bound_back: "\<not> star_bound sp (Some (sp, s)) < star_bound p (Some (sp, t)) \<Longrightarrow>
    star_bound sp (Some (sp, s)) = star_bound p (Some (sp, t))"
  by (auto simp: star_bound_def)

termination wildcard_loop
  by (relation "measures [\<lambda>(p, s, b). star_bound p b, \<lambda>(p, s, b). star_left b, \<lambda>(p, s, b). length p]")
     (auto simp: star_left_def intro: star_bound_star star_bound_tl star_bound_back)

declare wildcard_loop.simps [simp del]

definition ns_ext_wildcard :: "cstr \<Rightarrow> cstr \<Rightarrow> bool" where
  "ns_ext_wildcard pat str = wildcard_loop pat str None"

section \<open>Match patterns\<close>

text \<open>Scheme, host and path of a URL.\<close>

definition ns_ext_url_split :: "cstr option \<Rightarrow> (cstr \<times> cstr \<times> cstr) option" where
  "ns_ext_url_split url =
     (case url of
        None \<Rightarrow> None
      | Some u \<Rightarrow>
          (case strstr u ''://'' of
             None \<Rightarrow> None
           | Some sep \<Rightarrow>
               let scheme = g_ascii_strdown (take (length u - length sep) u);
                   authority = drop 3 sep;
                   stop = (\<lambda>c. c = CHR ''/'' \<or> c = CHR ''?'' \<or> c = CHR ''#'');
                   he = dropWhile (\<lambda>c. \<not> stop c) authority;
                   h = rev (takeWhile (\<lambda>c. c \<noteq> CHR ''@'') (rev (takeWhile (\<lambda>c. \<not> stop c) authority)));
                   hst = (if h \<noteq> [] \<and> hd h = CHR ''['' then
                            (if CHR '']'' \<in> set h then takeWhile (\<lambda>c. c \<noteq> CHR '']'') h @ '']'' else h)
                          else takeWhile (\<lambda>c. c \<noteq> CHR '':'') h);
                   path = (if he \<noteq> [] \<and> hd he = CHR ''/''
                           then takeWhile (\<lambda>c. c \<noteq> CHR ''?'' \<and> c \<noteq> CHR ''#'') he else ''/'')
               in Some (scheme, g_ascii_strdown hst, path)))"

definition ns_ext_scheme_generic :: "cstr \<Rightarrow> bool" where
  "ns_ext_scheme_generic scheme \<longleftrightarrow> scheme = ''http'' \<or> scheme = ''https'' \<or> scheme = ''ws'' \<or> scheme = ''wss''"

text \<open>\<open>host\<close> is \<open>dot + suffix\<close> for a proper subdomain.\<close>

definition subdomain_of :: "cstr \<Rightarrow> cstr \<Rightarrow> bool" where
  "subdomain_of sfx host \<longleftrightarrow> length host > length sfx \<and>
     host ! (length host - length sfx - 1) = CHR ''.'' \<and> drop (length host - length sfx) host = sfx"

definition ns_ext_host_match :: "cstr \<Rightarrow> cstr \<Rightarrow> bool" where
  "ns_ext_host_match pat host =
     (if pat = ''*'' then True
      else if g_str_has_prefix pat ''*.'' then
        (let sfx = drop 2 pat in host = sfx \<or> subdomain_of sfx host)
      else pat = host)"

definition ns_ext_pattern_match :: "cstr \<Rightarrow> cstr option \<Rightarrow> bool" where
  "ns_ext_pattern_match pattern url =
     (case ns_ext_url_split url of
        None \<Rightarrow> False
      | Some (uscheme, uhost, upath) \<Rightarrow>
          if pattern = ''<all_urls>'' then
            ns_ext_scheme_generic uscheme \<or> uscheme = ''ftp'' \<or> uscheme = ''file'' \<or> uscheme = ''data''
          else
            (case ns_ext_url_split (Some pattern) of
               None \<Rightarrow> False
             | Some (pscheme, phost, ppath) \<Rightarrow>
                 if pscheme = ''*'' \<and> \<not> ns_ext_scheme_generic uscheme then False
                 else if pscheme \<noteq> ''*'' \<and> pscheme \<noteq> uscheme then False
                 else if \<not> ns_ext_host_match phost uhost then False
                 else ns_ext_wildcard ppath upath))"

record ns_ext_cs =
  cs_matches :: "cstr list"
  exclude_matches :: "cstr list"
  include_globs :: "cstr list"
  exclude_globs :: "cstr list"
  all_js :: "cstr option"
  all_css :: "cstr option"
  at_start :: bool

definition ns_ext_pattern_list_matches :: "cstr list \<Rightarrow> cstr \<Rightarrow> bool" where
  "ns_ext_pattern_list_matches patterns url = list_ex (\<lambda>p. ns_ext_pattern_match p (Some url)) patterns"

definition ns_ext_glob_list_matches :: "cstr list \<Rightarrow> cstr \<Rightarrow> bool" where
  "ns_ext_glob_list_matches patterns url = list_ex (\<lambda>p. ns_ext_wildcard p url) patterns"

definition ns_ext_content_script_matches :: "ns_ext_cs \<Rightarrow> cstr \<Rightarrow> bool" where
  "ns_ext_content_script_matches cs url =
     (if \<not> ns_ext_pattern_list_matches (cs_matches cs) url then False
      else if ns_ext_pattern_list_matches (exclude_matches cs) url then False
      else if include_globs cs \<noteq> [] \<and> \<not> ns_ext_glob_list_matches (include_globs cs) url then False
      else \<not> ns_ext_glob_list_matches (exclude_globs cs) url)"

section \<open>Resources a page may load\<close>

definition skip_slashes :: "cstr \<Rightarrow> cstr" where
  "skip_slashes s = dropWhile (\<lambda>c. c = CHR ''/'') s"

definition ns_ext_relative_path_is_plain :: "cstr \<Rightarrow> bool" where
  "ns_ext_relative_path_is_plain relative =
     (if CHR 0x5C \<in> set relative then False
      else if skip_slashes relative = [] then False
      else list_all (\<lambda>s. s \<noteq> [] \<and> s \<noteq> ''.'' \<and> s \<noteq> ''..'') (g_strsplit (skip_slashes relative) (CHR ''/'')))"

definition ns_ext_is_web_accessible :: "cstr list \<Rightarrow> cstr \<Rightarrow> bool" where
  "ns_ext_is_web_accessible web_accessible relative =
     list_ex (\<lambda>g. ns_ext_wildcard (skip_slashes g) (skip_slashes relative)) web_accessible"

section \<open>Request rules\<close>

record ns_dnr_rule =
  priority :: int
  rule_action :: int
  third_party :: int
  url_filter :: "cstr option"
  regex :: "(cstr \<Rightarrow> bool) option"
  case_sensitive :: bool
  request_domains :: "cstr list option"
  excluded_request_domains :: "cstr list option"
  initiator_domains :: "cstr list option"
  excluded_initiator_domains :: "cstr list option"
  resource_types :: "cstr list option"
  excluded_resource_types :: "cstr list option"

record ns_cosmetic_rule =
  domains :: "cstr list option"
  excluded_domains :: "cstr list option"
  selector :: cstr

record ns_ext =
  ext_id :: cstr
  url_id :: cstr
  base_dir :: cstr
  content_scripts :: "ns_ext_cs list"
  dnr_rules :: "ns_dnr_rule list"
  cosmetic_rules :: "ns_cosmetic_rule list"
  web_accessible :: "cstr list"

definition ns_dnr_sep :: "char \<Rightarrow> bool" where
  "ns_dnr_sep c \<longleftrightarrow> \<not> (g_ascii_isalnum c \<or> c = CHR ''_'' \<or> c = CHR ''-'' \<or> c = CHR ''.'' \<or> c = CHR ''%'')"

text \<open>
  The loop of \<^verbatim>\<open>ns_dnr_match_here\<close>.  One turn either moves on in the filter and the text or goes
  back to the backtrack point one character further.
\<close>

function match_loop :: "bool \<Rightarrow> cstr \<Rightarrow> cstr \<Rightarrow> (cstr \<times> cstr) option \<Rightarrow> bool" where
  "match_loop end_anchor p s bt =
     (if p \<noteq> [] \<and> hd p = CHR ''*'' then
        (let q = dropWhile (\<lambda>c. c = CHR ''*'') p in
         if q = [] then True else match_loop end_anchor q s (Some (q, s)))
      else if p = [] \<and> (\<not> end_anchor \<or> s = []) then True
      else if p \<noteq> [] \<and> hd p = CHR ''^'' \<and> s = [] then match_loop end_anchor (tl p) s bt
      else if p \<noteq> [] \<and> s \<noteq> [] \<and> (if hd p = CHR ''^'' then ns_dnr_sep (hd s) else hd s = hd p)
      then match_loop end_anchor (tl p) (tl s) bt
      else (case bt of
              None \<Rightarrow> False
            | Some (star_p, star_s) \<Rightarrow>
                if star_s = [] then False
                else match_loop end_anchor star_p (tl star_s) (Some (star_p, tl star_s))))"
  by pat_completeness auto

termination match_loop
  by (relation "measures [\<lambda>(e, p, s, b). star_bound p b, \<lambda>(e, p, s, b). star_left b, \<lambda>(e, p, s, b). length p]")
     (auto simp: star_left_def intro: star_bound_star star_bound_tl star_bound_back)

declare match_loop.simps [simp del]

definition ns_dnr_match_here :: "cstr \<Rightarrow> cstr \<Rightarrow> bool \<Rightarrow> bool" where
  "ns_dnr_match_here p s end_anchor = match_loop end_anchor p s None"

text \<open>
  The domain anchor is tried at \<open>hs\<close> and after every dot up to \<open>he\<close>, a filter without anchor at every
  position, the end included.
\<close>

definition authority_length :: "cstr \<Rightarrow> nat" where
  "authority_length s = length (takeWhile (\<lambda>c. c \<noteq> CHR ''/'' \<and> c \<noteq> CHR ''?'' \<and> c \<noteq> CHR ''#'') s)"

definition domain_anchored :: "cstr \<Rightarrow> cstr \<Rightarrow> bool \<Rightarrow> bool" where
  "domain_anchored pat hs end_anchor =
     list_ex (\<lambda>i. (i = 0 \<or> hs ! (i - 1) = CHR ''.'') \<and> ns_dnr_match_here pat (drop i hs) end_anchor)
             [0..<authority_length hs + 1]"

fun match_anywhere :: "cstr \<Rightarrow> cstr \<Rightarrow> bool \<Rightarrow> bool" where
  "match_anywhere pat [] end_anchor = ns_dnr_match_here pat [] end_anchor"
| "match_anywhere pat (c # u) end_anchor =
     (ns_dnr_match_here pat (c # u) end_anchor \<or> match_anywhere pat u end_anchor)"

definition ns_dnr_urlfilter_match :: "cstr \<Rightarrow> cstr \<Rightarrow> bool \<Rightarrow> bool" where
  "ns_dnr_urlfilter_match filter0 url cs =
     (if filter0 = [] then True
      else
        let u = (if cs then url else g_ascii_strdown url);
            f = (if cs then filter0 else g_ascii_strdown filter0);
            domain_anchor = g_str_has_prefix f ''||'';
            start_anchor = (\<not> domain_anchor \<and> g_str_has_prefix f ''|'');
            p = drop (if domain_anchor then 2 else if start_anchor then 1 else 0) f;
            end_anchor = (p \<noteq> [] \<and> last p = CHR ''|'');
            pat = (if end_anchor then butlast p else p)
        in if domain_anchor then
             domain_anchored pat (case strstr u ''://'' of None \<Rightarrow> u | Some h \<Rightarrow> drop 3 h) end_anchor
           else if start_anchor then ns_dnr_match_here pat u end_anchor
           else match_anywhere pat u end_anchor)"

definition ns_dnr_domain_match :: "cstr \<Rightarrow> cstr \<Rightarrow> bool" where
  "ns_dnr_domain_match domain host \<longleftrightarrow> domain = host \<or> subdomain_of domain host"

definition ns_dnr_domain_list_match :: "cstr list \<Rightarrow> cstr option \<Rightarrow> bool" where
  "ns_dnr_domain_list_match ds host =
     (case host of None \<Rightarrow> False | Some h \<Rightarrow> list_ex (\<lambda>d. ns_dnr_domain_match d h) ds)"

text \<open>The extension after the last dot of the last segment.\<close>

fun extension_of :: "cstr \<Rightarrow> cstr option \<Rightarrow> cstr option" where
  "extension_of [] dot = dot"
| "extension_of (c # s) dot =
     extension_of s (if c = CHR ''.'' then Some s else if c = CHR ''/'' then None else dot)"

definition type_map :: "(cstr \<times> cstr) list" where
  "type_map =
     [(''js'', ''script''), (''mjs'', ''script''), (''css'', ''stylesheet''),
      (''png'', ''image''), (''jpg'', ''image''), (''jpeg'', ''image''), (''gif'', ''image''), (''svg'', ''image''),
      (''ico'', ''image''), (''bmp'', ''image''), (''avif'', ''image''), (''apng'', ''image''),
      (''woff'', ''font''), (''woff2'', ''font''), (''ttf'', ''font''), (''otf'', ''font''), (''eot'', ''font''),
      (''mp4'', ''media''), (''webm'', ''media''), (''mp3'', ''media''), (''ogg'', ''media''), (''oga'', ''media''),
      (''ogv'', ''media''), (''wav'', ''media''), (''m4a'', ''media''), (''m4v'', ''media''), (''mpg'', ''media''),
      (''mpeg'', ''media''), (''mov'', ''media'')]"

definition ns_dnr_infer_type :: "cstr \<Rightarrow> cstr option" where
  "ns_dnr_infer_type url =
     (case extension_of (takeWhile (\<lambda>c. c \<noteq> CHR ''?'' \<and> c \<noteq> CHR ''#'') url) None of
        None \<Rightarrow> None
      | Some ext \<Rightarrow> map_of type_map (g_ascii_strdown ext))"

definition ns_dnr_type_in_list :: "cstr list \<Rightarrow> cstr option \<Rightarrow> bool" where
  "ns_dnr_type_in_list ts type = (case type of None \<Rightarrow> False | Some t \<Rightarrow> List.member ts t)"

definition ns_ext_strip_port :: "cstr \<Rightarrow> cstr" where
  "ns_ext_strip_port host =
     (if host \<noteq> [] \<and> hd host = CHR ''['' \<and> CHR '']'' \<in> set host
      then takeWhile (\<lambda>c. c \<noteq> CHR '']'') host @ '']''
      else takeWhile (\<lambda>c. c \<noteq> CHR '':'') host)"

definition ns_ext_third_party :: "(cstr \<Rightarrow> cstr option) option \<Rightarrow> cstr option \<Rightarrow> cstr option \<Rightarrow> int" where
  "ns_ext_third_party psl req_host init_host =
     (case (req_host, init_host) of
        (Some rq, Some ini) \<Rightarrow>
          (let rh = ns_ext_strip_port rq; ih = ns_ext_strip_port ini in
           if rh = [] \<or> ih = [] then -1
           else if rh = ih then 0
           else (case psl of
                   None \<Rightarrow> 1
                 | Some registrable \<Rightarrow>
                     (case (registrable rh, registrable ih) of
                        (Some rr, Some ir) \<Rightarrow> if rr = ir then 0 else 1
                      | _ \<Rightarrow> 1)))
      | _ \<Rightarrow> -1)"

text \<open>The host and what follows each of its dots, up to an empty rest.\<close>

function indexed_loop :: "cstr list \<Rightarrow> cstr \<Rightarrow> bool" where
  "indexed_loop blocked p =
     (if p = [] then False
      else if p \<in> set blocked then True
      else (case strchr p (CHR ''.'') of None \<Rightarrow> False | Some dot \<Rightarrow> indexed_loop blocked (tl dot)))"
  by pat_completeness auto

termination indexed_loop
proof (relation "measure (\<lambda>(b, p). length p)", simp, goal_cases)
  case (1 blocked p dot)
  from strchr_Some_append [OF 1(3)] obtain u where "p = u @ dot" "dot \<noteq> []" by auto
  then show ?case by (cases dot) auto
qed

declare indexed_loop.simps [simp del]

definition ns_ext_host_indexed :: "cstr list \<Rightarrow> cstr option \<Rightarrow> bool" where
  "ns_ext_host_indexed blocked host =
     (case host of
        None \<Rightarrow> False
      | Some h \<Rightarrow> if blocked = [] then False else indexed_loop blocked (ns_ext_strip_port h))"

definition ns_dnr_rule_matches :: "ns_dnr_rule \<Rightarrow> cstr \<Rightarrow> cstr option \<Rightarrow> cstr option \<Rightarrow> int \<Rightarrow> bool" where
  "ns_dnr_rule_matches r url host init_host tp =
     (if third_party r = 1 \<and> tp \<noteq> 1 then False
      else if third_party r = -1 \<and> tp \<noteq> 0 then False
      else if (case request_domains r of None \<Rightarrow> False | Some l \<Rightarrow> \<not> ns_dnr_domain_list_match l host) then False
      else if (case excluded_request_domains r of None \<Rightarrow> False | Some l \<Rightarrow> ns_dnr_domain_list_match l host) then False
      else if (case initiator_domains r of None \<Rightarrow> False | Some l \<Rightarrow> \<not> ns_dnr_domain_list_match l init_host) then False
      else if (case excluded_initiator_domains r of None \<Rightarrow> False
               | Some l \<Rightarrow> init_host \<noteq> None \<and> ns_dnr_domain_list_match l init_host) then False
      else if (case url_filter r of None \<Rightarrow> False
               | Some f \<Rightarrow> \<not> ns_dnr_urlfilter_match f url (case_sensitive r)) then False
      else if (case regex r of None \<Rightarrow> False | Some m \<Rightarrow> \<not> m url) then False
      else if (case resource_types r of None \<Rightarrow> False
               | Some l \<Rightarrow> \<not> ns_dnr_type_in_list l (ns_dnr_infer_type url)) then False
      else if (case excluded_resource_types r of None \<Rightarrow> False
               | Some l \<Rightarrow> ns_dnr_type_in_list l (ns_dnr_infer_type url)) then False
      else True)"

text \<open>The best priority seen, whether an allow rule and whether a block rule has it.\<close>

record verdict =
  best_pri :: int
  best_allow :: bool
  best_block :: bool

definition weigh :: "ns_dnr_rule \<Rightarrow> verdict \<Rightarrow> verdict" where
  "weigh r v =
     (if priority r > best_pri v then
        \<lparr>best_pri = priority r, best_allow = (rule_action r = 1), best_block = (rule_action r = 0)\<rparr>
      else if priority r = best_pri v then
        (if rule_action r = 1 then v\<lparr>best_allow := True\<rparr> else v\<lparr>best_block := True\<rparr>)
      else v)"

fun weigh_rules :: "(ns_dnr_rule \<Rightarrow> bool) \<Rightarrow> ns_dnr_rule list \<Rightarrow> verdict \<Rightarrow> verdict" where
  "weigh_rules matches [] v = v"
| "weigh_rules matches (r # rs) v = weigh_rules matches rs (if matches r then weigh r v else v)"

fun weigh_exts :: "(ns_dnr_rule \<Rightarrow> bool) \<Rightarrow> ns_ext list \<Rightarrow> verdict \<Rightarrow> verdict" where
  "weigh_exts matches [] v = v"
| "weigh_exts matches (e # es) v = weigh_exts matches es (weigh_rules matches (dnr_rules e) v)"

definition url_host :: "cstr option \<Rightarrow> cstr option" where
  "url_host url = (case ns_ext_url_split url of None \<Rightarrow> None | Some (s, h, p) \<Rightarrow> Some h)"

definition ns_ext_should_block ::
  "(cstr \<Rightarrow> cstr option) option \<Rightarrow> cstr list \<Rightarrow> ns_ext list \<Rightarrow> cstr option \<Rightarrow> cstr option \<Rightarrow> bool" where
  "ns_ext_should_block psl blocked exts url initiator =
     (case url of
        None \<Rightarrow> False
      | Some u \<Rightarrow>
          if exts = [] then False
          else if \<not> g_str_has_prefix u ''http://'' \<and> \<not> g_str_has_prefix u ''https://'' then False
          else
            let uh = url_host url; ih = url_host initiator;
                tp = ns_ext_third_party psl uh ih;
                uh_np = map_option ns_ext_strip_port uh; ih_np = map_option ns_ext_strip_port ih;
                v0 = (if ns_ext_host_indexed blocked uh
                      then \<lparr>best_pri = 1, best_allow = False, best_block = True\<rparr>
                      else \<lparr>best_pri = -1, best_allow = False, best_block = False\<rparr>);
                v = weigh_exts (\<lambda>r. ns_dnr_rule_matches r u uh_np ih_np tp) exts v0
            in best_pri v \<ge> 0 \<and> best_block v \<and> \<not> best_allow v)"

section \<open>Filter lists\<close>

text \<open>The lists of \<^verbatim>\<open>ns_abp_split_domains\<close> start as \<^verbatim>\<open>NULL\<close> and stay so while they are empty.\<close>

definition ptr_array_add :: "cstr \<Rightarrow> cstr list option \<Rightarrow> cstr list option" where
  "ptr_array_add x l = Some (case l of None \<Rightarrow> [x] | Some xs \<Rightarrow> xs @ [x])"

fun split_domain_parts :: "cstr list \<Rightarrow> cstr list option \<times> cstr list option \<Rightarrow> cstr list option \<times> cstr list option" where
  "split_domain_parts [] (inc, exc) = (inc, exc)"
| "split_domain_parts (p # ps) (inc, exc) =
     (let d = g_strstrip p in
      if d = [] then split_domain_parts ps (inc, exc)
      else if hd d = CHR ''~'' then
        (if tl d = [] then split_domain_parts ps (inc, exc)
         else split_domain_parts ps (inc, ptr_array_add (g_ascii_strdown (tl d)) exc))
      else split_domain_parts ps (ptr_array_add (g_ascii_strdown d) inc, exc))"

definition ns_abp_split_domains ::
  "cstr \<Rightarrow> char \<Rightarrow> cstr list option \<times> cstr list option \<Rightarrow> cstr list option \<times> cstr list option" where
  "ns_abp_split_domains spec sep acc =
     (if spec = [] then acc
      else split_domain_parts (g_strsplit spec (if sep = CHR '','' then CHR '','' else CHR ''|'')) acc)"

definition ns_abp_type_token :: "cstr \<Rightarrow> cstr option" where
  "ns_abp_type_token t =
     (if t = ''script'' then Some ''script''
      else if t = ''stylesheet'' then Some ''stylesheet''
      else if t = ''image'' then Some ''image''
      else if t = ''font'' then Some ''font''
      else if t = ''media'' then Some ''media''
      else None)"

definition ns_abp_option_unsupported :: "cstr \<Rightarrow> bool" where
  "ns_abp_option_unsupported opt = List.member
     [''redirect'', ''redirect-rule'', ''removeparam'', ''csp'', ''replace'',
      ''rewrite'', ''removeheader'', ''cookie'', ''header'', ''empty'', ''mp4'',
      ''popup'', ''popunder'', ''webrtc'', ''inline-script'', ''inline-font'',
      ''genericblock'', ''generichide'', ''specifichide'', ''elemhide'',
      ''ehide'', ''document'', ''doc''] opt"

definition ns_abp_is_simple_host :: "cstr \<Rightarrow> bool" where
  "ns_abp_is_simple_host pat =
     (if \<not> g_str_has_prefix pat ''||'' \<or> \<not> g_str_has_suffix pat ''^'' then False
      else if \<not> list_all (\<lambda>c. g_ascii_isalnum c \<or> c = CHR ''.'' \<or> c = CHR ''-'') (butlast (drop 2 pat)) then False
      else length pat > 3)"

text \<open>
  The blocked hosts and the rules of the extension whose lists are read.  A filter is cut into its
  pattern and its options; \<open>g_regex_new\<close> compiles the text of a caseless expression.
\<close>

record filters =
  blocked_hosts :: "cstr list"
  f_dnr :: "ns_dnr_rule list"
  f_cosmetic :: "ns_cosmetic_rule list"

text \<open>\<^verbatim>\<open>strrchr\<close>: the text from the last occurrence on.\<close>

definition strrchr_rest :: "cstr \<Rightarrow> char \<Rightarrow> cstr" where
  "strrchr_rest s c = rev (takeWhile (\<lambda>x. x \<noteq> c) (rev s))"

definition cut_filter :: "cstr \<Rightarrow> cstr \<times> cstr option" where
  "cut_filter pat =
     (if pat \<noteq> [] \<and> hd pat = CHR ''/'' then
        (let rest = strrchr_rest pat (CHR ''/''); n = length pat - length rest in
         if n > 1
         then (take n pat, if rest \<noteq> [] \<and> hd rest = CHR ''$'' then Some (tl rest) else None)
         else (pat, None))
      else (case strchr pat (CHR ''$'') of
              Some dollar \<Rightarrow> (take (length pat - length dollar) pat, Some (tl dollar))
            | None \<Rightarrow> (pat, None)))"

definition new_rule :: ns_dnr_rule where
  "new_rule = \<lparr>priority = 1, rule_action = 0, third_party = 0, url_filter = None, regex = None,
     case_sensitive = False, request_domains = None, excluded_request_domains = None,
     initiator_domains = None, excluded_initiator_domains = None, resource_types = None,
     excluded_resource_types = None\<rparr>"

definition apply_option :: "cstr \<Rightarrow> ns_dnr_rule \<Rightarrow> ns_dnr_rule option" where
  "apply_option opt0 rule =
     (let opt1 = g_strstrip opt0;
          neg = (opt1 \<noteq> [] \<and> hd opt1 = CHR ''~'');
          opt = (if neg then tl opt1 else opt1)
      in if g_str_has_prefix opt ''domain='' then
           (case ns_abp_split_domains (drop 7 opt) (CHR ''|'') (initiator_domains rule, excluded_initiator_domains rule) of
              (inc, exc) \<Rightarrow> Some (rule\<lparr>initiator_domains := inc, excluded_initiator_domains := exc\<rparr>))
         else if opt = ''third-party'' then Some (rule\<lparr>third_party := if neg then -1 else 1\<rparr>)
         else if opt = ''match-case'' then Some (rule\<lparr>case_sensitive := True\<rparr>)
         else (case ns_abp_type_token opt of
                 Some t \<Rightarrow>
                   Some (if neg then rule\<lparr>excluded_resource_types := ptr_array_add t (excluded_resource_types rule)\<rparr>
                         else rule\<lparr>resource_types := ptr_array_add t (resource_types rule)\<rparr>)
               | None \<Rightarrow> if ns_abp_option_unsupported opt then None else Some rule))"

fun apply_options :: "cstr list \<Rightarrow> ns_dnr_rule \<Rightarrow> ns_dnr_rule option" where
  "apply_options [] rule = Some rule"
| "apply_options (p # ps) rule =
     (case apply_option p rule of None \<Rightarrow> None | Some rule' \<Rightarrow> apply_options ps rule')"

definition ns_abp_parse_network :: "(cstr \<Rightarrow> (cstr \<Rightarrow> bool) option) \<Rightarrow> cstr \<Rightarrow> filters \<Rightarrow> filters" where
  "ns_abp_parse_network g_regex_new line st =
     (let exception = g_str_has_prefix line ''@@'';
          pat = (if exception then drop 2 line else line);
          (pattern, options) = cut_filter pat
      in if pattern = [] then st
         else if \<not> exception \<and> options = None \<and> ns_abp_is_simple_host pattern then
           st\<lparr>blocked_hosts := g_ascii_strdown (take (length pattern - 3) (drop 2 pattern)) # blocked_hosts st\<rparr>
         else
           let rule = new_rule\<lparr>rule_action := if exception then 1 else 0\<rparr>;
               is_regex = (hd pattern = CHR ''/'' \<and> g_str_has_suffix pattern ''/'' \<and> length pattern > 1);
               body = (if is_regex
                       then (case g_regex_new (take (length pattern - 2) (tl pattern)) of
                               None \<Rightarrow> None
                             | Some m \<Rightarrow> Some (rule\<lparr>regex := Some m\<rparr>))
                       else Some (rule\<lparr>url_filter := Some pattern\<rparr>))
           in (case body of
                 None \<Rightarrow> st
               | Some rule1 \<Rightarrow>
                   (case (case options of None \<Rightarrow> Some rule1 | Some ops \<Rightarrow> apply_options (g_strsplit ops (CHR '','')) rule1) of
                      None \<Rightarrow> st
                    | Some rule2 \<Rightarrow> st\<lparr>f_dnr := f_dnr st @ [rule2]\<rparr>)))"

definition ns_abp_parse_cosmetic :: "cstr \<Rightarrow> cstr \<Rightarrow> filters \<Rightarrow> filters" where
  "ns_abp_parse_cosmetic line sep st =
     (case strstr line sep of
        None \<Rightarrow> st
      | Some at \<Rightarrow>
          let dom_spec = take (length line - length at) line;
              sel = dropWhile (\<lambda>c. c = CHR '' '') (drop (length sep) at)
          in if sel = [] \<or> list_ex (\<lambda>c. List.member ''{};@'' c) sel \<or> strstr sel ''/*'' \<noteq> None then st
             else if g_str_has_prefix sel ''+js'' \<or> g_str_has_prefix sel ''script:'' then st
             else (case ns_abp_split_domains dom_spec (CHR '','') (None, None) of
                     (inc, exc) \<Rightarrow>
                       st\<lparr>f_cosmetic := f_cosmetic st @
                            [\<lparr>domains = inc, excluded_domains = exc, selector = g_strstrip sel\<rparr>]\<rparr>))"

definition load_filter_line :: "(cstr \<Rightarrow> (cstr \<Rightarrow> bool) option) \<Rightarrow> cstr \<Rightarrow> filters \<Rightarrow> filters" where
  "load_filter_line g_regex_new line0 st =
     (let line = g_strstrip line0 in
      if line = [] \<or> hd line = CHR ''!'' \<or> hd line = CHR ''['' then st
      else if strstr line ''#@#'' \<noteq> None \<or> strstr line ''#?#'' \<noteq> None \<or>
              strstr line ''#$#'' \<noteq> None \<or> strstr line ''#%#'' \<noteq> None then st
      else if strstr line ''##'' \<noteq> None then ns_abp_parse_cosmetic line ''##'' st
      else ns_abp_parse_network g_regex_new line st)"

definition ns_ext_load_filter_list :: "(cstr \<Rightarrow> (cstr \<Rightarrow> bool) option) \<Rightarrow> cstr \<Rightarrow> filters \<Rightarrow> filters" where
  "ns_ext_load_filter_list g_regex_new raw st =
     fold (load_filter_line g_regex_new) (g_strsplit raw (CHR 0x0A)) st"

section \<open>What is injected into a page\<close>

definition cosmetic_applies :: "cstr option \<Rightarrow> ns_cosmetic_rule \<Rightarrow> bool" where
  "cosmetic_applies host c \<longleftrightarrow>
     \<not> (case excluded_domains c of None \<Rightarrow> False | Some l \<Rightarrow> ns_dnr_domain_list_match l host) \<and>
     \<not> (case domains c of None \<Rightarrow> False | Some l \<Rightarrow> \<not> ns_dnr_domain_list_match l host)"

definition ns_ext_cosmetic_css_for_host :: "ns_ext list \<Rightarrow> cstr option \<Rightarrow> cstr option" where
  "ns_ext_cosmetic_css_for_host exts host =
     (if \<not> nonempty host then None
      else
        let css = concat (map (\<lambda>e. concat (map (\<lambda>c. selector c @ ''{display:none !important}'' @ [CHR 0x0A])
                    (filter (cosmetic_applies host) (cosmetic_rules e)))) exts)
        in if css = [] then None else Some css)"

definition js_escape :: "char \<Rightarrow> cstr" where
  "js_escape c =
     (if c = CHR 0x5C then [CHR 0x5C, CHR 0x5C]
      else if c = CHR 0x22 then [CHR 0x5C, CHR 0x22]
      else if c = CHR 0x0A then [CHR 0x5C, CHR ''n'']
      else if c = CHR 0x0D then [CHR 0x5C, CHR ''r'']
      else if c = CHR 0x09 then [CHR 0x5C, CHR ''t'']
      else [c])"

definition ns_ext_append_js_string :: "cstr \<Rightarrow> cstr \<Rightarrow> cstr" where
  "ns_ext_append_js_string out s = out @ [CHR 0x22] @ concat (map js_escape s) @ [CHR 0x22]"

definition ns_ext_append_id :: "cstr \<Rightarrow> cstr \<Rightarrow> cstr" where
  "ns_ext_append_id out ident =
     out @ concat (map (\<lambda>c. if c = CHR 0x5C \<or> c = CHR 0x22 then [CHR 0x5C, c] else [c]) ident)"

section \<open>Files and storage of an extension\<close>

definition ns_ext_area_ok :: "cstr option \<Rightarrow> bool" where
  "ns_ext_area_ok area \<longleftrightarrow> area = Some ''local'' \<or> area = Some ''sync'' \<or> area = Some ''managed''"

definition ns_ext_lookup :: "ns_ext list \<Rightarrow> cstr \<Rightarrow> ns_ext option" where
  "ns_ext_lookup exts ident = List.find (\<lambda>e. ext_id e = ident) exts"

definition ns_ext_lookup_url_id :: "ns_ext list \<Rightarrow> cstr \<Rightarrow> ns_ext option" where
  "ns_ext_lookup_url_id exts ident = List.find (\<lambda>e. url_id e = ident) exts"

definition ns_ext_storage_key :: "cstr option \<Rightarrow> cstr option \<Rightarrow> cstr" where
  "ns_ext_storage_key ident area = str_or ident [] @ [CHR 0x0A] @ str_or area []"

text \<open>
  The path below the base directory; \<open>real_path\<close> resolves a path (or fails) and \<open>build_filename\<close> joins
  two.
\<close>

definition ns_ext_safe_path ::
  "(cstr \<Rightarrow> cstr option) \<Rightarrow> (cstr \<Rightarrow> cstr \<Rightarrow> cstr) \<Rightarrow> cstr \<Rightarrow> cstr \<Rightarrow> cstr option" where
  "ns_ext_safe_path real_path build_filename base rel =
     (if rel = [] then None
      else case real_path base of
        None \<Rightarrow> None
      | Some canon_base \<Rightarrow>
          (case real_path (build_filename base rel) of
             None \<Rightarrow> None
           | Some canon \<Rightarrow>
               let blen = length canon_base in
               if \<not> strneq canon canon_base blen \<or> (length canon > blen \<and> canon ! blen \<noteq> CHR ''/'')
               then None else Some canon))"

text \<open>
  A resource an extension serves: \<open>None\<close> for a URL of another scheme, otherwise the error or the path
  and the bytes of the file; \<open>unescape\<close> is \<^verbatim>\<open>g_uri_unescape_string\<close>, \<open>contents\<close> the file system.
\<close>

definition ns_ext_resource_load ::
  "(cstr \<Rightarrow> cstr option) \<Rightarrow> (cstr \<Rightarrow> cstr \<Rightarrow> cstr) \<Rightarrow> (cstr \<Rightarrow> cstr option) \<Rightarrow> (cstr \<Rightarrow> cstr option) \<Rightarrow>
   ns_ext list \<Rightarrow> cstr option \<Rightarrow> (cstr + cstr \<times> cstr) option" where
  "ns_ext_resource_load real_path build_filename unescape contents exts url =
     (case url of
        None \<Rightarrow> None
      | Some u \<Rightarrow>
          if \<not> g_str_has_prefix u ''northstar-extension://'' then None
          else
            let id_start = drop 22 u in
            (case strchr id_start (CHR ''/'') of
               None \<Rightarrow> Some (Inl ''invalid extension resource URL'')
             | Some slash \<Rightarrow>
                 if slash = id_start then Some (Inl ''invalid extension resource URL'')
                 else (case ns_ext_lookup_url_id exts (take (length id_start - length slash) id_start) of
                         None \<Rightarrow> Some (Inl ''extension is not loaded'')
                       | Some e \<Rightarrow>
                           let escaped = takeWhile (\<lambda>c. c \<noteq> CHR ''?'' \<and> c \<noteq> CHR ''#'') (tl slash) in
                           (case unescape escaped of
                              None \<Rightarrow> Some (Inl ''extension resource is not web-accessible'')
                            | Some relative \<Rightarrow>
                                if \<not> ns_ext_relative_path_is_plain relative \<or>
                                   \<not> ns_ext_is_web_accessible (web_accessible e) relative
                                then Some (Inl ''extension resource is not web-accessible'')
                                else (case ns_ext_safe_path real_path build_filename (base_dir e) relative of
                                        None \<Rightarrow> Some (Inl ''extension resource is unavailable'')
                                      | Some path \<Rightarrow>
                                          (case contents path of
                                             None \<Rightarrow> Some (Inl ''extension resource is unavailable'')
                                           | Some data \<Rightarrow>
                                               if int (length data) > 32 * 1024 * 1024
                                               then Some (Inl ''extension resource is unavailable'')
                                               else Some (Inr (path, data))))))))"

section \<open>Globs: the loops decide the declarative meaning\<close>

text \<open>
  The meaning of a glob: a star is any text, another character of the pattern accepts one character of
  the text (\<open>acc\<close>) or the end of it (\<open>at_end\<close>), and the whole text has to be used when the pattern is
  anchored at its end.
\<close>

fun glob :: "(char \<Rightarrow> char \<Rightarrow> bool) \<Rightarrow> (char \<Rightarrow> bool) \<Rightarrow> bool \<Rightarrow> cstr \<Rightarrow> cstr \<Rightarrow> bool" where
  "glob acc at_end anchored [] s = (\<not> anchored \<or> s = [])"
| "glob acc at_end anchored (c # p) s =
     (if c = CHR ''*'' then
        glob acc at_end anchored p s \<or> (case s of [] \<Rightarrow> False | x # t \<Rightarrow> glob acc at_end anchored (c # p) t)
      else case s of
        [] \<Rightarrow> at_end c \<and> glob acc at_end anchored p []
      | x # t \<Rightarrow> acc c x \<and> glob acc at_end anchored p t)"

lemma glob_star:
  "glob acc at_end anch (CHR ''*'' # p) s \<longleftrightarrow> (\<exists>k \<le> length s. glob acc at_end anch p (drop k s))"
proof (induction s)
  case (Cons x s)
  have "(\<exists>k \<le> length (x # s). glob acc at_end anch p (drop k (x # s))) \<longleftrightarrow>
        glob acc at_end anch p (x # s) \<or> (\<exists>k \<le> length s. glob acc at_end anch p (drop k s))"
    by (metis Suc_le_mono drop0 drop_Suc_Cons length_Cons not0_implies_Suc zero_le)
  with Cons show ?case by simp
qed simp

lemma glob_star_star: "glob acc at_end anch (CHR ''*'' # CHR ''*'' # p) s = glob acc at_end anch (CHR ''*'' # p) s"
  by (induction s) auto

lemma glob_skip_stars:
  "glob acc at_end anch (CHR ''*'' # dropWhile (\<lambda>c. c = CHR ''*'') p) s = glob acc at_end anch (CHR ''*'' # p) s"
proof (induction p)
  case (Cons c p)
  then show ?case using glob_star_star [of acc at_end anch p s] by (cases "c = CHR ''*''") auto
qed simp

lemma glob_star_end: "glob acc at_end anch [CHR ''*''] s"
  by (induction s) auto

text \<open>A stretch without stars consumes one character for each of its own, or stays at the end.\<close>

definition glob_char :: "(char \<Rightarrow> char \<Rightarrow> bool) \<Rightarrow> (char \<Rightarrow> bool) \<Rightarrow> char \<Rightarrow> cstr \<Rightarrow> bool" where
  "glob_char acc at_end c s \<longleftrightarrow> c \<noteq> CHR ''*'' \<and> (case s of [] \<Rightarrow> at_end c | x # t \<Rightarrow> acc c x)"

fun reach :: "(char \<Rightarrow> char \<Rightarrow> bool) \<Rightarrow> (char \<Rightarrow> bool) \<Rightarrow> cstr \<Rightarrow> cstr \<Rightarrow> bool" where
  "reach acc at_end [] s = True"
| "reach acc at_end (c # u) s = (glob_char acc at_end c s \<and> reach acc at_end u (tl s))"

lemma glob_plain:
  "c \<noteq> CHR ''*'' \<Longrightarrow> glob acc at_end anch (c # p) s = (glob_char acc at_end c s \<and> glob acc at_end anch p (tl s))"
  by (cases s) (auto simp: glob_char_def)

lemma glob_append:
  "CHR ''*'' \<notin> set u \<Longrightarrow>
   glob acc at_end anch (u @ p) s = (reach acc at_end u s \<and> glob acc at_end anch p (drop (length u) s))"
proof (induction u arbitrary: s)
  case (Cons c u)
  then have "c \<noteq> CHR ''*''" "CHR ''*'' \<notin> set u" by auto
  then show ?case using Cons.IH [of "tl s"] by (simp add: glob_plain drop_Suc del: glob.simps)
qed simp

lemma reach_snoc:
  "reach acc at_end (u @ [c]) s = (reach acc at_end u s \<and> glob_char acc at_end c (drop (length u) s))"
  by (induction u arbitrary: s) (auto simp: drop_Suc)

lemma reach_no_star: "reach acc at_end u s \<Longrightarrow> CHR ''*'' \<notin> set u"
  by (induction u arbitrary: s) (auto simp: glob_char_def)

lemma reach_glob: "reach acc at_end u s \<Longrightarrow>
    glob acc at_end anch (u @ p) s = glob acc at_end anch p (drop (length u) s)"
  using glob_append [OF reach_no_star] by metis

text \<open>
  What both loops do: the law of one turn.  Any function with it, started without a backtrack point,
  decides the glob.
\<close>

locale backtracking_glob =
  fixes acc :: "char \<Rightarrow> char \<Rightarrow> bool"
    and at_end :: "char \<Rightarrow> bool"
    and anchored :: bool
    and loop :: "cstr \<Rightarrow> cstr \<Rightarrow> (cstr \<times> cstr) option \<Rightarrow> bool"
  assumes turn: "loop p s bt =
     (if p \<noteq> [] \<and> hd p = CHR ''*'' then
        (let q = dropWhile (\<lambda>c. c = CHR ''*'') p in if q = [] then True else loop q s (Some (q, s)))
      else if p = [] \<and> (\<not> anchored \<or> s = []) then True
      else if p \<noteq> [] \<and> glob_char acc at_end (hd p) s then loop (tl p) (tl s) bt
      else (case bt of
              None \<Rightarrow> False
            | Some (star_p, star_s) \<Rightarrow>
                if star_s = [] then False else loop star_p (tl star_s) (Some (star_p, tl star_s))))"
begin

abbreviation "G \<equiv> glob acc at_end anchored"

text \<open>From the backtrack point the stretch \<open>u\<close> has been matched.\<close>

definition on_track :: "cstr \<Rightarrow> cstr \<Rightarrow> (cstr \<times> cstr) option \<Rightarrow> bool" where
  "on_track p s bt = (case bt of
     None \<Rightarrow> True
   | Some (sp, ss) \<Rightarrow> \<exists>u. sp = u @ p \<and> reach acc at_end u ss \<and> s = drop (length u) ss)"

definition meaning :: "cstr \<Rightarrow> cstr \<Rightarrow> (cstr \<times> cstr) option \<Rightarrow> bool" where
  "meaning p s bt = (case bt of None \<Rightarrow> G p s | Some (sp, ss) \<Rightarrow> G (CHR ''*'' # sp) ss)"

lemma meaning_Some: "on_track p s (Some (sp, ss)) \<Longrightarrow> G sp ss = G p s"
  by (auto simp: on_track_def reach_glob)

lemma meaning_here: "on_track p s bt \<Longrightarrow> G p s \<Longrightarrow> meaning p s bt"
  using meaning_Some by (auto simp: meaning_def split: option.split)

text \<open>At a star the backtrack point can be forgotten.\<close>

lemma meaning_star:
  assumes t: "on_track p s bt" and p: "p \<noteq> []" "hd p = CHR ''*''"
  shows "meaning p s bt = G p s"
proof (cases bt)
  case (Some b)
  obtain sp ss where b: "b = (sp, ss)" by (cases b)
  obtain p' where p': "p = CHR ''*'' # p'" using p by (cases p) auto
  obtain u where u: "sp = u @ p" "reach acc at_end u ss" "s = drop (length u) ss"
    using t by (auto simp: on_track_def Some b)
  have "G p s" if st: "G (CHR ''*'' # sp) ss"
  proof -
    obtain k where k: "G (u @ p) (drop k ss)"
      using st unfolding glob_star u(1) by blast
    then have "G p (drop (length u) (drop k ss))"
      using glob_append [OF reach_no_star [OF u(2)]] by blast
    then have 1: "G p (drop k s)" by (simp add: u add.commute)
    then obtain j where "G p' (drop j (drop k s))" by (auto simp: p' glob_star simp del: glob.simps)
    then have j: "G p' (drop (j + k) s)" by simp
    show ?thesis
    proof (cases "j + k \<le> length s")
      case True then show ?thesis using j by (auto simp: p' glob_star simp del: glob.simps)
    next
      case False
      then have "G p' (drop (length s) s)" using j by simp
      then show ?thesis by (auto simp: p' glob_star simp del: glob.simps)
    qed
  qed
  moreover have "G (CHR ''*'' # sp) ss" if "G p s"
    using meaning_here [OF t that] by (simp add: meaning_def Some b)
  ultimately show ?thesis by (auto simp: meaning_def Some b simp del: glob.simps)
qed (simp add: meaning_def)

lemma on_track_step:
  assumes "on_track p s bt" "p \<noteq> []" "glob_char acc at_end (hd p) s"
  shows "on_track (tl p) (tl s) bt"
proof (cases bt)
  case (Some b)
  obtain sp ss where b: "b = (sp, ss)" by (cases b)
  obtain u where u: "sp = u @ p" "reach acc at_end u ss" "s = drop (length u) ss"
    using assms(1) by (auto simp: on_track_def Some b)
  have "sp = (u @ [hd p]) @ tl p" "reach acc at_end (u @ [hd p]) ss" "tl s = drop (length (u @ [hd p])) ss"
    using u assms by (auto simp: reach_snoc tl_drop drop_Suc)
  then show ?thesis unfolding on_track_def Some b option.case prod.case by blast
qed (simp add: on_track_def)

lemma meaning_step:
  assumes "p \<noteq> []" "glob_char acc at_end (hd p) s"
  shows "meaning (tl p) (tl s) bt = meaning p s bt"
  using assms glob_plain [of "hd p" acc at_end anchored "tl p" s]
  by (auto simp: meaning_def glob_char_def split: option.split simp del: glob.simps)

lemma meaning_back:
  assumes t: "on_track p s (Some (sp, ss))" and n: "\<not> G p s"
  shows "meaning p s (Some (sp, ss)) \<longleftrightarrow> ss \<noteq> [] \<and> meaning sp (tl ss) (Some (sp, tl ss))"
  using n meaning_Some [OF t] by (cases ss) (auto simp: meaning_def)

lemma on_track_start: "on_track q s (Some (q, s))"
  by (auto simp: on_track_def)

lemma stuck:
  assumes "\<not> (p \<noteq> [] \<and> hd p = CHR ''*'')" "\<not> (p = [] \<and> (\<not> anchored \<or> s = []))"
    "\<not> (p \<noteq> [] \<and> glob_char acc at_end (hd p) s)"
  shows "\<not> G p s"
proof (cases p)
  case (Cons c q)
  then show ?thesis using assms glob_plain [of c acc at_end anchored q s] by (auto simp del: glob.simps)
qed (use assms in auto)

lemma loop_meaning: "on_track p s bt \<Longrightarrow> loop p s bt = meaning p s bt"
proof (induction "(p, s, bt)" arbitrary: p s bt rule: wf_induct_rule
    [OF wf_measures [of "[\<lambda>(p, s, b). star_bound p b, \<lambda>(p, s, b). star_left b, \<lambda>(p, s, b). length p]"]])
  case (1 p s bt)
  let ?q = "dropWhile (\<lambda>c. c = CHR ''*'') p"
  consider (star) "p \<noteq> [] \<and> hd p = CHR ''*''"
    | (fin) "\<not> (p \<noteq> [] \<and> hd p = CHR ''*'')" "p = [] \<and> (\<not> anchored \<or> s = [])"
    | (step) "\<not> (p \<noteq> [] \<and> hd p = CHR ''*'')" "p \<noteq> [] \<and> glob_char acc at_end (hd p) s"
    | (fail) "\<not> (p \<noteq> [] \<and> hd p = CHR ''*'')" "\<not> (p = [] \<and> (\<not> anchored \<or> s = []))"
        "\<not> (p \<noteq> [] \<and> glob_char acc at_end (hd p) s)"
    by blast
  then show ?case
  proof cases
    case star
    have eq: "G (CHR ''*'' # ?q) s = G p s"
      using glob_skip_stars [of acc at_end anchored "tl p" s] star by (cases p) auto
    show ?thesis
    proof (cases "?q = []")
      case True
      then have "G p s" using eq glob_star_end by metis
      then show ?thesis using True star meaning_star [OF 1(2)] by (subst turn) simp
    next
      case False
      have "loop ?q s (Some (?q, s)) = meaning ?q s (Some (?q, s))"
        by (rule 1(1)) (use star star_bound_star [of p s bt] on_track_start in auto)
      then show ?thesis using False star eq meaning_star [OF 1(2)]
        by (subst turn) (simp add: meaning_def del: glob.simps)
    qed
  next
    case fin
    then have "G p s" by auto
    then show ?thesis using meaning_here [OF 1(2)] fin by (subst turn) simp
  next
    case step
    have "loop (tl p) (tl s) bt = meaning (tl p) (tl s) bt"
      by (rule 1(1)) (use step on_track_step [OF 1(2)] star_bound_tl [of p bt] in auto)
    then show ?thesis using step meaning_step by (subst turn) auto
  next
    case fail
    have n: "\<not> G p s" by (rule stuck [OF fail])
    show ?thesis
    proof (cases bt)
      case None
      then show ?thesis using fail n by (subst turn) (auto simp: meaning_def)
    next
      case (Some b)
      obtain sp ss where b: "b = (sp, ss)" by (cases b)
      have "loop sp (tl ss) (Some (sp, tl ss)) = meaning sp (tl ss) (Some (sp, tl ss))" if "ss \<noteq> []"
        by (rule 1(1)) (use that on_track_start star_bound_back [of sp "tl ss" p ss] in
            \<open>auto simp: Some b star_left_def\<close>)
      then show ?thesis using fail meaning_back [of p s sp ss] n 1(2) unfolding Some b
        by (subst turn) auto
    qed
  qed
qed

lemma loop_decides: "loop p s None = G p s"
  using loop_meaning [of p s None] by (simp add: on_track_def meaning_def)

end

interpretation wildcard: backtracking_glob "\<lambda>c x. c = CHR ''?'' \<or> c = x" "\<lambda>c. False" True wildcard_loop
proof
  fix p s bt
  show "wildcard_loop p s bt =
     (if p \<noteq> [] \<and> hd p = CHR ''*'' then
        (let q = dropWhile (\<lambda>c. c = CHR ''*'') p in if q = [] then True else wildcard_loop q s (Some (q, s)))
      else if p = [] \<and> (\<not> True \<or> s = []) then True
      else if p \<noteq> [] \<and> glob_char (\<lambda>c x. c = CHR ''?'' \<or> c = x) (\<lambda>c. False) (hd p) s
      then wildcard_loop (tl p) (tl s) bt
      else (case bt of
              None \<Rightarrow> False
            | Some (star_p, star_s) \<Rightarrow>
                if star_s = [] then False else wildcard_loop star_p (tl star_s) (Some (star_p, tl star_s))))"
    by (subst wildcard_loop.simps)
       (simp add: glob_char_def split: list.split option.split)
qed

interpretation urlfilter: backtracking_glob
    "\<lambda>c x. if c = CHR ''^'' then ns_dnr_sep x else x = c" "\<lambda>c. c = CHR ''^''" e "match_loop e" for e
proof
  fix p s bt
  show "match_loop e p s bt =
     (if p \<noteq> [] \<and> hd p = CHR ''*'' then
        (let q = dropWhile (\<lambda>c. c = CHR ''*'') p in if q = [] then True else match_loop e q s (Some (q, s)))
      else if p = [] \<and> (\<not> e \<or> s = []) then True
      else if p \<noteq> [] \<and> glob_char (\<lambda>c x. if c = CHR ''^'' then ns_dnr_sep x else x = c) (\<lambda>c. c = CHR ''^'') (hd p) s
      then match_loop e (tl p) (tl s) bt
      else (case bt of
              None \<Rightarrow> False
            | Some (star_p, star_s) \<Rightarrow>
                if star_s = [] then False else match_loop e star_p (tl star_s) (Some (star_p, tl star_s))))"
    by (subst match_loop.simps)
       (simp add: glob_char_def split: list.split option.split)
qed

text \<open>
  C35: The two iterative matchers with a single backtrack point decide the declarative meaning of their
  patterns for every pattern and text: \<open>ns_ext_wildcard\<close> that of a glob with \<open>?\<close>, and
  \<open>ns_dnr_match_here\<close> that of a url filter body, in which \<open>^\<close> stands for a separator or the end of the
  URL, whether or not the filter is anchored at its end.
\<close>

theorem ext_glob_matchers:
  "(ns_ext_wildcard pat str \<longleftrightarrow> glob (\<lambda>c x. c = CHR ''?'' \<or> c = x) (\<lambda>c. False) True pat str) \<and>
   (ns_dnr_match_here p s end_anchor \<longleftrightarrow>
      glob (\<lambda>c x. if c = CHR ''^'' then ns_dnr_sep x else x = c) (\<lambda>c. c = CHR ''^'') end_anchor p s)"
  by (simp add: ns_ext_wildcard_def ns_dnr_match_here_def wildcard.loop_decides urlfilter.loop_decides)

section \<open>The verdict on a request\<close>

lemma weigh_rules_append: "weigh_rules m (xs @ ys) v = weigh_rules m ys (weigh_rules m xs v)"
  by (induction xs arbitrary: v) auto

lemma weigh_exts_flat: "weigh_exts m es v = weigh_rules m (concat (map dnr_rules es)) v"
  by (induction es arbitrary: v) (auto simp: weigh_rules_append)

text \<open>
  The verdict as a summary of the votes cast so far, a vote being a priority and whether it allows: the
  best priority is an upper bound, and the flags say who voted with it.
\<close>

definition summary :: "verdict \<Rightarrow> (int \<times> bool) set \<Rightarrow> bool" where
  "summary v votes \<longleftrightarrow>
     (\<forall>(p, a)\<in>votes. p \<le> best_pri v) \<and>
     (best_pri v = -1 \<or> (\<exists>a. (best_pri v, a) \<in> votes)) \<and>
     (best_allow v \<longleftrightarrow> (best_pri v, True) \<in> votes) \<and>
     (best_block v \<longleftrightarrow> (best_pri v, False) \<in> votes)"

lemma summary_weigh:
  assumes "summary v votes" "rule_action r = 0 \<or> rule_action r = 1"
  shows "summary (weigh r v) (insert (priority r, rule_action r = 1) votes)"
proof -
  note s = assms(1) [unfolded summary_def]
  consider (above) "priority r > best_pri v" | (equal) "priority r = best_pri v" | (below) "priority r < best_pri v"
    by linarith
  then show ?thesis
  proof cases
    case above
    then have "(priority r, a) \<notin> votes" for a using s by fastforce
    then show ?thesis using above s assms(2) by (force simp: summary_def weigh_def)
  next
    case equal
    then show ?thesis using s assms(2) by (auto simp: summary_def weigh_def)
  next
    case below
    then show ?thesis using s by (auto simp: summary_def weigh_def)
  qed
qed

definition votes_of :: "(ns_dnr_rule \<Rightarrow> bool) \<Rightarrow> ns_dnr_rule list \<Rightarrow> (int \<times> bool) set" where
  "votes_of matches rs = {(priority r, rule_action r = 1) | r. r \<in> set rs \<and> matches r}"

lemma summary_rules:
  "summary v votes \<Longrightarrow> list_all (\<lambda>r. rule_action r = 0 \<or> rule_action r = 1) rs \<Longrightarrow>
   summary (weigh_rules m rs v) (votes \<union> votes_of m rs)"
proof (induction rs arbitrary: v votes)
  case (Cons r rs)
  show ?case
  proof (cases "m r")
    case True
    have "votes \<union> votes_of m (r # rs) = insert (priority r, rule_action r = 1) votes \<union> votes_of m rs"
      using True by (auto simp: votes_of_def)
    then show ?thesis
      using Cons.IH [of "weigh r v" "insert (priority r, rule_action r = 1) votes"] Cons.prems True
        summary_weigh [of v votes r] by simp
  next
    case False
    then have "votes_of m (r # rs) = votes_of m rs" by (auto simp: votes_of_def)
    then show ?thesis using Cons False by simp
  qed
qed (simp add: votes_of_def)

lemma summary_blocks:
  assumes "summary v votes"
  shows "best_pri v \<ge> 0 \<and> best_block v \<and> \<not> best_allow v \<longleftrightarrow>
    (\<exists>p\<ge>0. (p, False) \<in> votes \<and> (\<forall>q. (q, True) \<in> votes \<longrightarrow> q < p))"
proof
  assume "best_pri v \<ge> 0 \<and> best_block v \<and> \<not> best_allow v"
  then show "\<exists>p\<ge>0. (p, False) \<in> votes \<and> (\<forall>q. (q, True) \<in> votes \<longrightarrow> q < p)"
    using assms by (intro exI [of _ "best_pri v"]) (force simp: summary_def order.strict_iff_order)
next
  assume "\<exists>p\<ge>0. (p, False) \<in> votes \<and> (\<forall>q. (q, True) \<in> votes \<longrightarrow> q < p)"
  then obtain p where p: "p \<ge> 0" "(p, False) \<in> votes" "\<forall>q. (q, True) \<in> votes \<longrightarrow> q < p" by blast
  have "p \<le> best_pri v" using assms p by (auto simp: summary_def)
  show "best_pri v \<ge> 0 \<and> best_block v \<and> \<not> best_allow v"
  proof (cases "best_allow v")
    case True
    then show ?thesis using assms p \<open>p \<le> best_pri v\<close> by (fastforce simp: summary_def)
  next
    case False
    with assms p \<open>p \<le> best_pri v\<close> obtain a where "(best_pri v, a) \<in> votes"
      by (auto simp: summary_def)
    with False show ?thesis using assms p \<open>p \<le> best_pri v\<close> by (cases a) (auto simp: summary_def)
  qed
qed


definition matching_rules :: "(cstr \<Rightarrow> cstr option) option \<Rightarrow> ns_ext list \<Rightarrow> cstr \<Rightarrow> cstr option \<Rightarrow> ns_dnr_rule list" where
  "matching_rules psl exts u init =
     filter (\<lambda>r. ns_dnr_rule_matches r u (map_option ns_ext_strip_port (url_host (Some u)))
                 (map_option ns_ext_strip_port (url_host init))
                 (ns_ext_third_party psl (url_host (Some u)) (url_host init))) (concat (map dnr_rules exts))"

definition block_or_allow :: "ns_ext list \<Rightarrow> bool" where
  "block_or_allow exts = list_all (\<lambda>e. list_all (\<lambda>r. rule_action r = 0 \<or> rule_action r = 1) (dnr_rules e)) exts"

lemma should_block_votes:
  assumes "block_or_allow exts"
  shows "ns_ext_should_block psl blocked exts (Some u) init \<longleftrightarrow>
     exts \<noteq> [] \<and> (g_str_has_prefix u ''http://'' \<or> g_str_has_prefix u ''https://'') \<and>
     (\<exists>p\<ge>0. (p = 1 \<and> ns_ext_host_indexed blocked (url_host (Some u)) \<or>
              (\<exists>r\<in>set (matching_rules psl exts u init). rule_action r = 0 \<and> priority r = p)) \<and>
             (\<forall>r\<in>set (matching_rules psl exts u init). rule_action r = 1 \<longrightarrow> priority r < p))"
proof -
  define m where "m = (\<lambda>r. ns_dnr_rule_matches r u (map_option ns_ext_strip_port (url_host (Some u)))
                 (map_option ns_ext_strip_port (url_host init))
                 (ns_ext_third_party psl (url_host (Some u)) (url_host init)))"
  define all where "all = concat (map dnr_rules exts)"
  define idx where "idx = ns_ext_host_indexed blocked (url_host (Some u))"
  define rs where "rs = matching_rules psl exts u init"
  define v0 where "v0 = (if idx then \<lparr>best_pri = 1, best_allow = False, best_block = True\<rparr>
                      else \<lparr>best_pri = -1, best_allow = False, best_block = False\<rparr>)"
  define votes0 where "votes0 = (if idx then {(1::int, False)} else {})"
  let ?v = "weigh_rules m all v0"
  have rs: "set rs = {r \<in> set all. m r}" by (simp add: rs_def matching_rules_def m_def all_def)
  have acts: "list_all (\<lambda>r. rule_action r = 0 \<or> rule_action r = 1) all"
    using assms by (auto simp: all_def list_all_iff block_or_allow_def)
  have "summary v0 votes0" by (auto simp: summary_def v0_def votes0_def intro: exI [of _ False])
  from summary_blocks [OF summary_rules [OF this acts, of m]]
  have "best_pri ?v \<ge> 0 \<and> best_block ?v \<and> \<not> best_allow ?v \<longleftrightarrow>
    (\<exists>p\<ge>0. (p, False) \<in> votes0 \<union> votes_of m all \<and> (\<forall>q. (q, True) \<in> votes0 \<union> votes_of m all \<longrightarrow> q < p))" .
  moreover have "(p, False) \<in> votes0 \<union> votes_of m all \<longleftrightarrow>
      p = 1 \<and> idx \<or> (\<exists>r\<in>set rs. rule_action r = 0 \<and> priority r = p)" for p
  proof -
    have "(p, False) \<in> votes_of m all \<longleftrightarrow> (\<exists>r\<in>set all. m r \<and> rule_action r \<noteq> 1 \<and> priority r = p)"
      by (auto simp: votes_of_def)
    also have "\<dots> \<longleftrightarrow> (\<exists>r\<in>set rs. rule_action r = 0 \<and> priority r = p)"
      unfolding rs using acts by (metis (mono_tags, lifting) list_all_iff mem_Collect_eq zero_neq_one)
    finally show ?thesis by (auto simp: votes0_def)
  qed
  moreover have "(\<forall>q. (q, True) \<in> votes0 \<union> votes_of m all \<longrightarrow> q < p) \<longleftrightarrow>
      (\<forall>r\<in>set rs. rule_action r = 1 \<longrightarrow> priority r < p)" for p
    by (auto simp: votes0_def votes_of_def rs)
  ultimately show ?thesis
    unfolding ns_ext_should_block_def option.case Let_def weigh_exts_flat m_def [symmetric] all_def [symmetric] rs_def [symmetric]
      idx_def [symmetric] v0_def [symmetric]
    by auto
qed


text \<open>
  C34: A request is blocked exactly when there is an extension, the URL is an http or https URL, and some
  matching block rule (or the host index, which counts as one of priority 1) of priority 0 or more
  stands above every matching allow rule: higher priority wins and an allow rule wins ties.  The order of
  the extensions and of their rules does not matter.
\<close>

theorem should_block_verdict:
  "block_or_allow exts \<Longrightarrow>
   ns_ext_should_block psl blocked exts (Some u) init \<longleftrightarrow>
     exts \<noteq> [] \<and> (g_str_has_prefix u ''http://'' \<or> g_str_has_prefix u ''https://'') \<and>
     (\<exists>p\<ge>0. (p = 1 \<and> ns_ext_host_indexed blocked (url_host (Some u)) \<or>
              (\<exists>r\<in>set (matching_rules psl exts u init). rule_action r = 0 \<and> priority r = p)) \<and>
             (\<forall>r\<in>set (matching_rules psl exts u init). rule_action r = 1 \<longrightarrow> priority r < p))"
  by (rule should_block_votes)

definition example_ext :: "ns_dnr_rule list \<Rightarrow> ns_ext" where
  "example_ext rs = \<lparr>ext_id = ''x'', url_id = ''u'', base_dir = ''/x'', content_scripts = [], dnr_rules = rs,
     cosmetic_rules = [], web_accessible = []\<rparr>"

theorem should_block_verdict_witness:
  "\<not> ns_ext_should_block None [''ads.example''] [example_ext [new_rule\<lparr>rule_action := 1, url_filter := Some ''/ok''\<rparr>]]
       (Some ''https://ads.example/ok'') None"
proof -
  let ?exts = "[example_ext [new_rule\<lparr>rule_action := 1, url_filter := Some ''/ok''\<rparr>]]"
  have "block_or_allow ?exts" by code_simp
  note v = should_block_verdict [OF this, of None "[''ads.example'']" "''https://ads.example/ok''" None]
  have "\<not> (\<exists>p\<ge>0. (p = 1 \<and> ns_ext_host_indexed [''ads.example''] (url_host (Some ''https://ads.example/ok'')) \<or>
              (\<exists>r\<in>set (matching_rules None ?exts ''https://ads.example/ok'' None). rule_action r = 0 \<and> priority r = p)) \<and>
             (\<forall>r\<in>set (matching_rules None ?exts ''https://ads.example/ok'' None). rule_action r = 1 \<longrightarrow> priority r < p))"
  proof -
    have "list_all (\<lambda>r. rule_action r = 1 \<and> priority r = 1) (matching_rules None ?exts ''https://ads.example/ok'' None)"
      "list_ex (\<lambda>r. rule_action r = 1 \<and> priority r = 1) (matching_rules None ?exts ''https://ads.example/ok'' None)"
      by code_simp+
    then show ?thesis unfolding list_all_iff list_ex_iff by force
  qed
  with v show ?thesis by blast
qed

section \<open>The host index is the url filter\<close>

lemma indexed_loop_iff:
  "indexed_loop blocked p \<longleftrightarrow> (\<exists>t\<in>set blocked. t \<noteq> [] \<and> (t = p \<or> (\<exists>a. p = a @ CHR ''.'' # t)))"
proof (induction blocked p rule: indexed_loop.induct)
  case (1 blocked p)
  show ?case
  proof (cases "p = [] \<or> p \<in> set blocked")
    case True
    then show ?thesis by (subst indexed_loop.simps) auto
  next
    case False
    show ?thesis
    proof (cases "strchr p (CHR ''.'')")
      case None
      then have "CHR ''.'' \<notin> set p" by (simp add: strchr_None_iff)
      then show ?thesis using False None by (subst indexed_loop.simps) auto
    next
      case (Some dot)
      from strchr_Some_append [OF this] obtain u where u: "p = u @ dot" "CHR ''.'' \<notin> set u" "dot \<noteq> []" "hd dot = CHR ''.''"
        by auto
      define r where "r = tl dot"
      have p: "p = u @ CHR ''.'' # r" using u by (cases dot) (auto simp: r_def)
      have "(\<exists>a. p = a @ CHR ''.'' # t) \<longleftrightarrow> t = r \<or> (\<exists>a. r = a @ CHR ''.'' # t)" for t
      proof
        assume "\<exists>a. p = a @ CHR ''.'' # t"
        then obtain a where "u @ CHR ''.'' # r = a @ CHR ''.'' # t" by (auto simp: p)
        then show "t = r \<or> (\<exists>a. r = a @ CHR ''.'' # t)"
          using u(2) by (auto simp: append_eq_append_conv2 Cons_eq_append_conv append_eq_Cons_conv)
      next
        assume "t = r \<or> (\<exists>a. r = a @ CHR ''.'' # t)"
        then show "\<exists>a. p = a @ CHR ''.'' # t"
          by (metis p append.assoc append_Cons)
      qed
      then show ?thesis using 1 [of dot] False Some by (subst indexed_loop.simps) (auto simp: r_def)
    qed
  qed
qed

lemma glob_literal:
  "list_all (\<lambda>c. \<not> ns_dnr_sep c) d \<Longrightarrow>
   glob (\<lambda>c x. if c = CHR ''^'' then ns_dnr_sep x else x = c) (\<lambda>c. c = CHR ''^'') False (d @ ''^'') s \<longleftrightarrow>
   (\<exists>s'. s = d @ s' \<and> (s' = [] \<or> ns_dnr_sep (hd s')))"
proof (induction d arbitrary: s)
  case Nil
  then show ?case by (cases s) auto
next
  case (Cons c d)
  have "ns_dnr_sep (CHR ''*'')" "ns_dnr_sep (CHR ''^'')" by code_simp+
  then have "c \<noteq> CHR ''*''" "c \<noteq> CHR ''^''" using Cons.prems by auto
  then show ?case using Cons by (cases s) auto
qed

lemma split_at_sep:
  assumes "a @ b = c @ d" "list_all (\<lambda>c. \<not> P c) a" "list_all (\<lambda>c. \<not> P c) c"
    "b = [] \<or> P (hd b)" "d = [] \<or> P (hd d)"
  shows "a = c"
proof -
  have "takeWhile (\<lambda>c. \<not> P c) (x @ y) = x"
    if "list_all (\<lambda>c. \<not> P c) x" "y = [] \<or> P (hd y)" for x y
    using that by (induction x) (cases y, auto)
  from this [of a b] this [of c d] show ?thesis using assms by metis
qed

lemma strstr_scheme: "CHR '':'' \<notin> set sch \<Longrightarrow> strstr (sch @ '':'' @ s) (''://'') = strstr ('':'' @ s) ''://''"
  by (induction sch) (auto simp: strstr.simps [of "_ # _"] g_str_has_prefix_def)

text \<open>The part of a URL before its path: a host of plain characters, perhaps a port.\<close>

definition plain_authority :: "cstr \<Rightarrow> cstr \<Rightarrow> bool" where
  "plain_authority h prt \<longleftrightarrow> list_all (\<lambda>c. \<not> ns_dnr_sep c) h \<and>
     (prt = [] \<or> hd prt = CHR '':'' \<and> list_all g_ascii_isdigit (tl prt))"

definition authority_end :: "cstr \<Rightarrow> bool" where
  "authority_end rest \<longleftrightarrow> rest = [] \<or> hd rest = CHR ''/'' \<or> hd rest = CHR ''?'' \<or> hd rest = CHR ''#''"

lemma plain_chars:
  assumes "plain_authority h prt" "c \<in> set (h @ prt)"
  shows "c \<noteq> CHR ''/''" "c \<noteq> CHR ''?''" "c \<noteq> CHR ''#''" "c \<noteq> CHR ''@''" "c \<noteq> CHR ''[''"
proof -
  have "ns_dnr_sep (CHR ''/'')" "ns_dnr_sep (CHR ''?'')" "ns_dnr_sep (CHR ''#'')" "ns_dnr_sep (CHR ''@'')" "ns_dnr_sep (CHR ''['')"
    "\<not> g_ascii_isdigit (CHR ''/'')" "\<not> g_ascii_isdigit (CHR ''?'')" "\<not> g_ascii_isdigit (CHR ''#'')"
    "\<not> g_ascii_isdigit (CHR ''@'')" "\<not> g_ascii_isdigit (CHR ''['')"
    by code_simp+
  moreover have "\<not> ns_dnr_sep c \<or> c = CHR '':'' \<or> g_ascii_isdigit c"
    using assms by (cases prt) (auto simp: plain_authority_def list_all_iff)
  ultimately show "c \<noteq> CHR ''/''" "c \<noteq> CHR ''?''" "c \<noteq> CHR ''#''" "c \<noteq> CHR ''@''" "c \<noteq> CHR ''[''" by auto
qed

lemma plain_host_chars:
  assumes "plain_authority h prt" "c \<in> set h" shows "c \<noteq> CHR '':''"
proof -
  have "ns_dnr_sep (CHR '':'')" by code_simp
  then show ?thesis using assms by (auto simp: plain_authority_def list_all_iff)
qed

lemma takeWhile_authority:
  assumes "plain_authority h prt" "authority_end rest"
  shows "takeWhile (\<lambda>c. c \<noteq> CHR ''/'' \<and> c \<noteq> CHR ''?'' \<and> c \<noteq> CHR ''#'') (h @ prt @ rest) = h @ prt"
proof -
  have "takeWhile (\<lambda>c. c \<noteq> CHR ''/'' \<and> c \<noteq> CHR ''?'' \<and> c \<noteq> CHR ''#'') ((h @ prt) @ rest) = h @ prt"
    using plain_chars [OF assms(1)] assms(2)
    by (subst takeWhile_append2, blast) (cases rest; auto simp: authority_end_def)
  then show ?thesis by simp
qed

lemma url_host_plain:
  assumes "CHR '':'' \<notin> set sch" "plain_authority h prt" "authority_end rest"
  shows "url_host (Some (sch @ ''://'' @ h @ prt @ rest)) = Some (g_ascii_strdown h)"
proof -
  have s: "strstr (sch @ ''://'' @ h @ prt @ rest) ''://'' = Some (''://'' @ h @ prt @ rest)"
    using strstr_scheme [OF assms(1), of "''//'' @ h @ prt @ rest"]
    by (simp add: strstr.simps [of "CHR '':'' # _"] g_str_has_prefix_def)
  have a: "rev (takeWhile (\<lambda>c. c \<noteq> CHR ''@'') (rev (h @ prt))) = h @ prt"
    using plain_chars(4) [OF assms(2)] by (subst takeWhile_eq_all_conv [THEN iffD2]) auto
  have hd: "\<not> (h @ prt \<noteq> [] \<and> hd (h @ prt) = CHR ''['')"
    using plain_chars(5) [OF assms(2)] by (metis list.set_sel(1))
  have c: "takeWhile (\<lambda>c. c \<noteq> CHR '':'') (h @ prt) = h"
    using plain_host_chars [OF assms(2)] assms(2)
    by (subst takeWhile_append2) (auto simp: plain_authority_def, cases prt, auto)
  show ?thesis
    unfolding url_host_def ns_ext_url_split_def option.case s Let_def
    using takeWhile_authority [OF assms(2,3)] a hd c by (auto simp del: append_is_Nil_conv)
qed

lemma strdown_sep [simp]: "ns_dnr_sep (g_ascii_tolower c) = ns_dnr_sep c"
proof -
  have n: "\<not> g_ascii_isalpha CHR ''_''" "\<not> g_ascii_isalpha CHR ''%''" by code_simp+
  have "g_ascii_isalnum (g_ascii_tolower c) = g_ascii_isalnum c"
    by (auto simp: g_ascii_isalnum_def g_ascii_isalpha_def g_ascii_isupper_def g_ascii_islower_def
        g_ascii_isdigit_def code_of_tolower)
  then show ?thesis by (simp add: ns_dnr_sep_def tolower_eq_nonalpha [OF n(1)] tolower_eq_nonalpha [OF n(2)])
qed

lemma plain_authority_strdown:
  assumes "plain_authority h prt" shows "plain_authority (g_ascii_strdown h) (g_ascii_strdown prt)"
proof -
  have "g_ascii_isdigit (g_ascii_tolower c) = g_ascii_isdigit c" for c
    by (auto simp: g_ascii_isdigit_def code_of_tolower g_ascii_isupper_def)
  then show ?thesis using assms
    by (cases prt) (auto simp: plain_authority_def g_ascii_strdown_def list_all_iff)
qed

lemma authority_end_strdown:
  assumes "authority_end rest" shows "authority_end (g_ascii_strdown rest)"
proof -
  have "g_ascii_tolower CHR ''?'' = CHR ''?''" "g_ascii_tolower CHR ''#'' = CHR ''#''" by code_simp+
  then show ?thesis using assms by (cases rest) (auto simp: authority_end_def g_ascii_strdown_def)
qed

text \<open>A host as the index stores it.\<close>

definition index_entry :: "cstr \<Rightarrow> bool" where
  "index_entry d \<longleftrightarrow> ns_abp_is_simple_host (''||'' @ d @ ''^'') \<and> g_ascii_strdown d = d"

lemma index_entry_chars:
  assumes "index_entry d" shows "d \<noteq> []" "list_all (\<lambda>c. \<not> ns_dnr_sep c) d"
  using assms by (auto simp: index_entry_def ns_abp_is_simple_host_def ns_dnr_sep_def list_all_iff
      split: if_splits)

lemma no_dot_in_port: "plain_authority h prt \<Longrightarrow> CHR ''.'' \<notin> set prt"
  by (cases prt) (auto simp: plain_authority_def list_all_iff g_ascii_isdigit_def code_of_def)

lemma rest_separates:
  assumes "plain_authority h prt" "authority_end rest"
  shows "prt @ rest = [] \<or> ns_dnr_sep (hd (prt @ rest))"
proof -
  have "ns_dnr_sep (CHR '':'')" "ns_dnr_sep (CHR ''/'')" "ns_dnr_sep (CHR ''?'')" "ns_dnr_sep (CHR ''#'')"
    by code_simp+
  then show ?thesis using assms by (cases prt) (auto simp: plain_authority_def authority_end_def)
qed

lemma domain_anchored_plain:
  assumes h: "plain_authority h prt" "authority_end rest" and d: "d \<noteq> []" "list_all (\<lambda>c. \<not> ns_dnr_sep c) d"
  shows "domain_anchored (d @ ''^'') (h @ prt @ rest) False \<longleftrightarrow> d = h \<or> (\<exists>a. h = a @ CHR ''.'' # d)"
proof -
  let ?s = "h @ prt @ rest"
  have len: "authority_length ?s = length h + length prt"
    by (simp add: authority_length_def takeWhile_authority [OF h])
  have m: "ns_dnr_match_here (d @ ''^'') s False \<longleftrightarrow> (\<exists>s'. s = d @ s' \<and> (s' = [] \<or> ns_dnr_sep (hd s')))" for s
    unfolding ns_dnr_match_here_def urlfilter.loop_decides by (rule glob_literal [OF d(2)])
  have hs: "list_all (\<lambda>c. \<not> ns_dnr_sep c) h" using h(1) by (simp add: plain_authority_def)
  show ?thesis
  proof
    assume "domain_anchored (d @ ''^'') ?s False"
    then obtain i where "i \<in> set [0..<authority_length ?s + 1]"
      "(i = 0 \<or> ?s ! (i - 1) = CHR ''.'') \<and> ns_dnr_match_here (d @ ''^'') (drop i ?s) False"
      unfolding domain_anchored_def list_ex_iff by blast
    then obtain s' where i: "i \<le> length h + length prt" "i = 0 \<or> ?s ! (i - 1) = CHR ''.''"
      and s': "drop i ?s = d @ s'" "s' = [] \<or> ns_dnr_sep (hd s')"
      unfolding m len by (metis Suc_eq_plus1 atLeastLessThan_iff less_Suc_eq_le set_upt)
    have ih: "i \<le> length h"
    proof (rule ccontr)
      assume "\<not> i \<le> length h"
      then have "?s ! (i - 1) = prt ! (i - 1 - length h)" "i - 1 - length h < length prt"
        using i(1) by (auto simp: nth_append)
      then show False using no_dot_in_port [OF h(1)] i(2) \<open>\<not> i \<le> length h\<close> by (metis le0 nth_mem)
    qed
    have "drop i h @ prt @ rest = d @ s'" using s'(1) ih by simp
    moreover have "list_all (\<lambda>c. \<not> ns_dnr_sep c) (drop i h)"
      using hs by (auto simp: list_all_iff dest: in_set_dropD)
    ultimately have eq: "drop i h = d"
      by (rule split_at_sep [where P = ns_dnr_sep]) (use d(2) rest_separates [OF h] s'(2) in auto)
    show "d = h \<or> (\<exists>a. h = a @ CHR ''.'' # d)"
    proof (cases "i = 0")
      case False
      then have "h ! (i - 1) = CHR ''.''" using i(2) ih by (auto simp: nth_append split: if_splits)
      then have "h = take (i - 1) h @ CHR ''.'' # d"
        using False ih eq id_take_nth_drop [of "i - 1" h] by simp
      then show ?thesis by blast
    qed (use eq in simp)
  next
    assume "d = h \<or> (\<exists>a. h = a @ CHR ''.'' # d)"
    then obtain i where i: "i \<le> length h" "i = 0 \<or> h ! (i - 1) = CHR ''.''" "drop i h = d"
    proof (elim disjE exE)
      assume "d = h" then show ?thesis using that [of 0] by simp
    next
      fix a assume "h = a @ CHR ''.'' # d" then show ?thesis using that [of "length a + 1"] by simp
    qed
    then have "drop i ?s = d @ prt @ rest" "i = 0 \<or> ?s ! (i - 1) = CHR ''.''"
      by (auto simp: nth_append)
    then show "domain_anchored (d @ ''^'') ?s False"
      unfolding domain_anchored_def list_ex_iff len m
      using i(1) rest_separates [OF h] by (intro bexI [of _ i]) auto
  qed
qed

lemma urlfilter_plain:
  assumes "CHR '':'' \<notin> set sch" "plain_authority h prt" "authority_end rest" "index_entry d"
  shows "ns_dnr_urlfilter_match (''||'' @ d @ ''^'') (sch @ ''://'' @ h @ prt @ rest) False \<longleftrightarrow>
     d = g_ascii_strdown h \<or> (\<exists>a. g_ascii_strdown h = a @ CHR ''.'' # d)"
proof -
  let ?L = g_ascii_strdown
  have punct: "g_ascii_tolower CHR ''|'' = CHR ''|''" "g_ascii_tolower CHR ''^'' = CHR ''^''" by code_simp+
  have f: "?L (''||'' @ d @ ''^'') = ''||'' @ d @ ''^''"
    using assms(4) punct by (simp add: index_entry_def)
  have u: "?L (sch @ ''://'' @ h @ prt @ rest) = ?L sch @ ''://'' @ ?L h @ ?L prt @ ?L rest"
    by (simp add: g_ascii_strdown_def)
  have "CHR '':'' \<notin> set (?L sch)" using assms(1) 
    by (metis (no_types, lifting) g_ascii_strdown_def image_iff list.set_map tolower_punct(4))
  then have s: "strstr (?L sch @ ''://'' @ ?L h @ ?L prt @ ?L rest) ''://'' = Some (''://'' @ ?L h @ ?L prt @ ?L rest)"
    using strstr_scheme [of "?L sch" "''//'' @ ?L h @ ?L prt @ ?L rest"]
    by (simp add: strstr.simps [of "CHR '':'' # _"] g_str_has_prefix_def)
  have "ns_dnr_urlfilter_match (''||'' @ d @ ''^'') (sch @ ''://'' @ h @ prt @ rest) False \<longleftrightarrow>
        domain_anchored (d @ ''^'') (?L h @ ?L prt @ ?L rest) False"
    unfolding ns_dnr_urlfilter_match_def if_False f u Let_def s by (simp add: g_str_has_prefix_def)
  then show ?thesis
    using domain_anchored_plain [OF plain_authority_strdown [OF assms(2)] authority_end_strdown [OF assms(3)]
        index_entry_chars [OF assms(4)]] by simp
qed

lemma host_index_entries:
  assumes "CHR '':'' \<notin> set sch" "plain_authority h prt" "authority_end rest" "list_all index_entry blocked"
  shows "ns_ext_host_indexed blocked (url_host (Some (sch @ ''://'' @ h @ prt @ rest))) \<longleftrightarrow>
    (\<exists>d\<in>set blocked. ns_dnr_urlfilter_match (''||'' @ d @ ''^'') (sch @ ''://'' @ h @ prt @ rest) False)"
proof -
  let ?H = "g_ascii_strdown h"
  have "CHR '':'' \<notin> set ?H" "CHR ''['' \<notin> set ?H"
    using plain_host_chars [OF plain_authority_strdown [OF assms(2)]] plain_chars(5) [OF plain_authority_strdown [OF assms(2)]]
    by auto
  then have sp: "ns_ext_strip_port ?H = ?H"
    by (cases ?H) (auto simp: ns_ext_strip_port_def takeWhile_eq_all_conv)
  have "ns_ext_host_indexed blocked (url_host (Some (sch @ ''://'' @ h @ prt @ rest))) \<longleftrightarrow>
    (\<exists>t\<in>set blocked. t \<noteq> [] \<and> (t = ?H \<or> (\<exists>a. ?H = a @ CHR ''.'' # t)))"
    unfolding url_host_plain [OF assms(1-3)] ns_ext_host_indexed_def option.case sp indexed_loop_iff by auto
  also have "\<dots> \<longleftrightarrow> (\<exists>d\<in>set blocked. ns_dnr_urlfilter_match (''||'' @ d @ ''^'') (sch @ ''://'' @ h @ prt @ rest) False)"
    using assms(4) urlfilter_plain [OF assms(1-3)] index_entry_chars(1) by (auto simp: list_all_iff)
  finally show ?thesis .
qed

text \<open>
  C38: The index of blocked hosts is a faithful shortcut: for a URL with a plain authority (host
  characters and perhaps a port) the host is in the index, itself or by one of its parents, exactly when
  one of the filters \<open>||host^\<close> the index was built from matches the URL as a url filter.
\<close>

theorem host_index_is_filter:
  assumes "CHR '':'' \<notin> set sch" "plain_authority h prt" "authority_end rest" "list_all index_entry blocked"
  shows "ns_ext_host_indexed blocked (url_host (Some (sch @ ''://'' @ h @ prt @ rest))) \<longleftrightarrow>
    (\<exists>d\<in>set blocked. ns_dnr_urlfilter_match (''||'' @ d @ ''^'') (sch @ ''://'' @ h @ prt @ rest) False)"
  by (rule host_index_entries [OF assms])

theorem host_index_is_filter_witness:
  "ns_ext_host_indexed [''b.org'', ''ads.net''] (url_host (Some ''https://X.Ads.net:8443/p?q'')) \<and>
   ns_dnr_urlfilter_match ''||ads.net^'' ''https://X.Ads.net:8443/p?q'' False"
proof -
  have 1: "CHR '':'' \<notin> set ''https''" by simp
  have 2: "plain_authority ''X.Ads.net'' '':8443''" "authority_end ''/p?q''" by code_simp+
  have 3: "list_all index_entry [''b.org'', ''ads.net'']" by code_simp
  have "ns_dnr_urlfilter_match ''||ads.net^'' ''https://X.Ads.net:8443/p?q'' False" by code_simp
  then show ?thesis using host_index_is_filter [OF 1 2 3] by auto
qed

section \<open>What a filter list can put into an extension\<close>

lemma strstr_None_iff: "strstr s t = None \<longleftrightarrow> \<not> sublist t s"
proof (induction s)
  case Nil
  then show ?case by (subst strstr.simps) (auto simp: g_str_has_prefix_def)
next
  case (Cons c s)
  then show ?case
    by (subst strstr.simps) (auto simp: sublist_Cons_right has_prefix_iff prefix_def)
qed

lemma strip_sublist: "sublist (g_strstrip s) s"
proof -
  have "sublist (g_strchug s) s" unfolding g_strchug_def by (metis sublist_appendI append_Nil2 takeWhile_dropWhile_id)
  moreover have "sublist (g_strchomp x) x" for x
    unfolding g_strchomp_def by (metis rev_rev_ident sublist_rev suffix_dropWhile suffix_imp_sublist)
  ultimately show ?thesis unfolding g_strstrip_def using sublist_order.order_trans by blast
qed

text \<open>A selector that cannot leave its place in \<open>selector{...}\<close> by a block, a statement or a comment.\<close>

definition contained_selector :: "cstr \<Rightarrow> bool" where
  "contained_selector s \<longleftrightarrow>
     list_all (\<lambda>c. \<not> List.member ''{};@'' c \<and> c \<noteq> CHR 0x0A) s \<and> \<not> sublist ''/*'' s"

lemma contained_sublist: "contained_selector s \<Longrightarrow> sublist t s \<Longrightarrow> contained_selector t"
  using set_mono_sublist [of t s] sublist_order.order_trans [of "''/*''" t s]
  by (auto simp: contained_selector_def list_all_iff)

definition filters_ok :: "filters \<Rightarrow> bool" where
  "filters_ok st \<longleftrightarrow> list_all index_entry (blocked_hosts st) \<and>
     list_all (\<lambda>r. (rule_action r = 0 \<or> rule_action r = 1) \<and> priority r = 1) (f_dnr st) \<and>
     list_all (\<lambda>c. contained_selector (selector c)) (f_cosmetic st)"

lemma apply_option_keeps:
  "apply_option p r = Some r' \<Longrightarrow>
   rule_action r' = rule_action r \<and> priority r' = priority r \<and> url_filter r' = url_filter r \<and> regex r' = regex r"
  by (auto simp: apply_option_def Let_def split: if_splits option.splits prod.splits)

lemma apply_options_keep:
  "apply_options ps r = Some r' \<Longrightarrow> rule_action r' = rule_action r \<and> priority r' = priority r"
  by (induction ps arbitrary: r) (auto split: option.splits dest: apply_option_keeps)

lemma simple_host_form:
  assumes "ns_abp_is_simple_host pat"
  obtains d where "pat = ''||'' @ d @ ''^''" "d = take (length pat - 3) (drop 2 pat)"
proof -
  from assms have p: "g_str_has_prefix pat ''||''" "g_str_has_suffix pat ''^''" "length pat > 3"
    by (auto simp: ns_abp_is_simple_host_def split: if_splits)
  from p(2) obtain y where y: "pat = y @ ''^''" unfolding has_suffix_iff by blast
  have "take 2 y = ''||''" using p(1,3) y by (simp add: g_str_has_prefix_def numeral_2_eq_2)
  then have "y = ''||'' @ drop 2 y" by (metis append_take_drop_id)
  then have "pat = ''||'' @ drop 2 y @ ''^''" using y by simp
  moreover have "drop 2 y = take (length pat - 3) (drop 2 pat)" using y p(3) by simp
  ultimately show ?thesis by (rule that)
qed

lemma index_entry_strdown:
  assumes "ns_abp_is_simple_host (''||'' @ d @ ''^'')"
  shows "index_entry (g_ascii_strdown d)"
proof -
  have "g_ascii_isalnum (g_ascii_tolower c) = g_ascii_isalnum c" for c
    by (auto simp: g_ascii_isalnum_def g_ascii_isalpha_def g_ascii_isupper_def g_ascii_islower_def
        g_ascii_isdigit_def code_of_tolower)
  then show ?thesis using assms
    by (auto simp: index_entry_def ns_abp_is_simple_host_def g_ascii_strdown_def list_all_iff
        g_str_has_prefix_def g_str_has_suffix_def split: if_splits)
qed

lemma parse_network_ok:
  assumes "filters_ok st" shows "filters_ok (ns_abp_parse_network rx line st)"
proof -
  obtain pat ops where cut: "cut_filter (if g_str_has_prefix line ''@@'' then drop 2 line else line) = (pat, ops)"
    by (meson surj_pair)
  define act :: int where "act = (if g_str_has_prefix line ''@@'' then 1 else 0)"
  have act: "act = 0 \<or> act = 1" by (simp add: act_def)
  have rule: "filters_ok (st\<lparr>f_dnr := f_dnr st @ [r']\<rparr>)"
    if "rule_action r' = act" "priority r' = 1" for r'
    using assms that act by (auto simp: filters_ok_def)
  show ?thesis
  proof (cases "\<not> g_str_has_prefix line ''@@'' \<and> ops = None \<and> ns_abp_is_simple_host pat")
    case True
    then obtain d where d: "pat = ''||'' @ d @ ''^''" "d = take (length pat - 3) (drop 2 pat)"
      by (meson simple_host_form)
    then have "index_entry (g_ascii_strdown (take (length pat - 3) (drop 2 pat)))"
      using True index_entry_strdown by metis
    then have "filters_ok (st\<lparr>blocked_hosts := g_ascii_strdown (take (length pat - 3) (drop 2 pat)) # blocked_hosts st\<rparr>)"
      using assms by (simp add: filters_ok_def)
    then show ?thesis using True cut assms by (auto simp: ns_abp_parse_network_def)
  next
    case False
    have r: "rule_action (new_rule\<lparr>rule_action := act, regex := m\<rparr>) = act"
      "priority (new_rule\<lparr>rule_action := act, regex := m\<rparr>) = 1"
      "rule_action (new_rule\<lparr>rule_action := act, url_filter := f\<rparr>) = act"
      "priority (new_rule\<lparr>rule_action := act, url_filter := f\<rparr>) = 1" for m f
      by (simp_all add: new_rule_def)
    show ?thesis using False cut assms r
      unfolding ns_abp_parse_network_def Let_def act_def [symmetric]
      by (auto split: option.splits if_splits intro!: rule dest: apply_options_keep)
  qed
qed

lemma parse_cosmetic_ok:
  assumes "filters_ok st" "CHR 0x0A \<notin> set line"
  shows "filters_ok (ns_abp_parse_cosmetic line sep st)"
proof (cases "strstr line sep")
  case None
  then show ?thesis using assms(1) by (simp add: ns_abp_parse_cosmetic_def)
next
  case (Some at)
  define sel where "sel = dropWhile (\<lambda>c. c = CHR '' '') (drop (length sep) at)"
  have "set at \<subseteq> set line" using Some
    by (induction line) (subst (asm) strstr.simps, auto split: if_splits)+
  then have "set sel \<subseteq> set line" unfolding sel_def by (meson set_dropWhileD set_drop_subset subset_iff)
  then have "contained_selector sel"
    if "\<not> list_ex (List.member ''{};@'') sel" "strstr sel ''/*'' = None"
    using that assms(2) by (auto simp: contained_selector_def list_all_iff list_ex_iff strstr_None_iff)
  then have "contained_selector (g_strstrip sel)"
    if "\<not> list_ex (List.member ''{};@'') sel" "strstr sel ''/*'' = None"
    using that contained_sublist strip_sublist by blast
  then show ?thesis using assms(1) Some
    unfolding ns_abp_parse_cosmetic_def Some option.case Let_def sel_def [symmetric]
    by (auto simp: filters_ok_def split: prod.splits)
qed

lemma load_line_ok:
  assumes "filters_ok st" "CHR 0x0A \<notin> set line"
  shows "filters_ok (load_filter_line rx line st)"
proof -
  have "CHR 0x0A \<notin> set (g_strstrip line)" using assms(2) set_strip [of line] by blast
  then show ?thesis using assms(1) parse_cosmetic_ok parse_network_ok
    by (auto simp: load_filter_line_def Let_def)
qed

lemma fold_invariant: "P st \<Longrightarrow> (\<And>x st. x \<in> set xs \<Longrightarrow> P st \<Longrightarrow> P (f x st)) \<Longrightarrow> P (fold f xs st)"
  by (induction xs arbitrary: st) auto

lemma load_list_ok: "filters_ok st \<Longrightarrow> filters_ok (ns_ext_load_filter_list rx raw st)"
  unfolding ns_ext_load_filter_list_def
  by (rule fold_invariant) (auto intro: load_line_ok dest: split_on_no_sep simp: g_strsplit_def split: if_splits)

definition no_filters :: filters where
  "no_filters = \<lparr>blocked_hosts = [], f_dnr = [], f_cosmetic = []\<rparr>"

definition hiding_css :: "cstr list \<Rightarrow> cstr" where
  "hiding_css sels = concat (map (\<lambda>s. s @ ''{display:none !important}'' @ [CHR 0x0A]) sels)"

lemma hiding_css_append: "hiding_css (xs @ ys) = hiding_css xs @ hiding_css ys"
  by (simp add: hiding_css_def)

lemma cosmetic_css_concat:
  "concat (map (\<lambda>e. concat (map (\<lambda>c. selector c @ ''{display:none !important}'' @ [CHR 0x0A])
      (filter (cosmetic_applies host) (cosmetic_rules e)))) exts) =
   hiding_css (map selector (filter (cosmetic_applies host) (concat (map cosmetic_rules exts))))"
  by (induction exts) (auto simp: hiding_css_def comp_def)

lemma load_lists_ok: "filters_ok (fold (ns_ext_load_filter_list rx) raws no_filters)"
  by (rule fold_invariant) (simp_all add: load_list_ok, simp add: filters_ok_def no_filters_def)

text \<open>
  Whatever text a filter list holds, reading it keeps the filters well formed: an entry of the index
  of blocked hosts is the lower-case host of a filter \<open>||host^\<close>, a request rule blocks or allows with
  priority 1, and a hiding rule has a selector without block, statement, at-rule, comment or newline.
\<close>

theorem filter_list_keeps_filters:
  "filters_ok st \<Longrightarrow> filters_ok (ns_ext_load_filter_list rx raw st)"
  by (rule load_list_ok)

theorem filter_list_keeps_filters_witness:
  "filters_ok (ns_ext_load_filter_list (\<lambda>r. None) ''||Ads.com^'' no_filters)"
  by (rule filter_list_keeps_filters) code_simp

text \<open>
  Hiding rules can only hide: the style sheet an extension's filter lists give a page is a sequence
  of \<open>selector{display:none !important}\<close> rules, one per applicable rule, whose selectors contain no
  brace, semicolon, at sign, comment opener or newline.
\<close>

theorem cosmetic_css_hides:
  assumes "list_all (\<lambda>e. \<exists>rx raws. cosmetic_rules e = f_cosmetic (fold (ns_ext_load_filter_list rx) raws no_filters)) exts"
    and "ns_ext_cosmetic_css_for_host exts host = Some css"
  shows "\<exists>sels. sels \<noteq> [] \<and> css = hiding_css sels \<and>
           (\<forall>s\<in>set sels. contained_selector s \<and>
              (\<exists>e\<in>set exts. \<exists>c\<in>set (cosmetic_rules e). selector c = s \<and> cosmetic_applies host c))"
proof -
  let ?cs = "filter (cosmetic_applies host) (concat (map cosmetic_rules exts))"
  have css: "css = hiding_css (map selector ?cs)" "css \<noteq> []"
    using assms(2) unfolding ns_ext_cosmetic_css_for_host_def Let_def cosmetic_css_concat
    by (auto split: if_splits)
  have "contained_selector (selector c)" if "c \<in> set ?cs" for c
    using that assms(1) load_lists_ok by (fastforce simp: list_all_iff filters_ok_def)
  moreover have "?cs \<noteq> []" using css by (metis concat.simps(1) hiding_css_def list.simps(8))
  ultimately show ?thesis using css(1)
    by (intro exI [of _ "map selector ?cs"]) (auto simp del: filter_concat)
qed

theorem cosmetic_css_hides_witness:
  "\<exists>sels. sels \<noteq> [] \<and> ''.ad{display:none !important}'' @ [CHR 0x0A] = hiding_css sels"
proof -
  let ?e = "(example_ext [])\<lparr>cosmetic_rules := f_cosmetic (ns_ext_load_filter_list (\<lambda>r. None) ''a.org##.ad'' no_filters)\<rparr>"
  have "\<exists>rx raws. cosmetic_rules ?e = f_cosmetic (fold (ns_ext_load_filter_list rx) raws no_filters)"
    by (rule exI [of _ "\<lambda>r. None"], rule exI [of _ "[''a.org##.ad'']"]) simp
  then have 1: "list_all (\<lambda>e. \<exists>rx raws. cosmetic_rules e = f_cosmetic (fold (ns_ext_load_filter_list rx) raws no_filters)) [?e]"
    by simp
  have 2: "ns_ext_cosmetic_css_for_host [?e] (Some ''www.a.org'') = Some (''.ad{display:none !important}'' @ [CHR 0x0A])"
    by code_simp
  from cosmetic_css_hides [OF 1 2] show ?thesis by blast
qed

text \<open>
  A resource an extension serves to a page was declared: it matches a glob the loaded extension of
  that URL lists as web accessible, its path has no empty, \<open>.\<close> or \<open>..\<close> segment and no backslash, and the
  file read is the resolved base directory of the extension or below it.
\<close>

theorem resource_load_declared:
  assumes "ns_ext_resource_load real_path build_filename unescape contents exts url = Some (Inr (path, data))"
  shows "\<exists>e\<in>set exts. \<exists>rel base. (\<exists>g\<in>set (web_accessible e). ns_ext_wildcard (skip_slashes g) (skip_slashes rel)) \<and>
     (\<forall>s\<in>set (g_strsplit (skip_slashes rel) (CHR ''/'')). s \<noteq> [] \<and> s \<noteq> ''.'' \<and> s \<noteq> ''..'') \<and> CHR 0x5C \<notin> set rel \<and>
     real_path (base_dir e) = Some base \<and> real_path (build_filename (base_dir e) rel) = Some path \<and>
     (path = base \<or> (\<exists>t. path = base @ CHR ''/'' # t)) \<and> contents path = Some data"
proof -
  obtain u where u: "url = Some u" using assms by (cases url) (simp_all add: ns_ext_resource_load_def)
  note l = assms [unfolded u ns_ext_resource_load_def option.case Let_def]
  from l obtain slash where slash: "strchr (drop 22 u) (CHR ''/'') = Some slash"
    by (cases "strchr (drop 22 u) (CHR ''/'')") (simp_all split: if_splits)
  note l = l [unfolded slash option.case]
  define uid where "uid = take (length (drop 22 u) - length slash) (drop 22 u)"
  note l = l [folded uid_def]
  from l obtain e where e: "ns_ext_lookup_url_id exts uid = Some e"
    by (cases "ns_ext_lookup_url_id exts uid") (simp_all split: if_splits)
  note l = l [unfolded e option.case]
  define esc where "esc = takeWhile (\<lambda>c. c \<noteq> CHR ''?'' \<and> c \<noteq> CHR ''#'') (tl slash)"
  note l = l [folded esc_def]
  from l obtain rel where "unescape esc = Some rel"
    by (cases "unescape esc") (simp_all split: if_splits)
  note l = l [unfolded this option.case]
  from l have rel: "ns_ext_relative_path_is_plain rel" "ns_ext_is_web_accessible (web_accessible e) rel"
    and safe: "ns_ext_safe_path real_path build_filename (base_dir e) rel = Some path" "contents path = Some data"
    by (simp_all split: option.splits if_splits)
  have mem: "e \<in> set exts" using e unfolding ns_ext_lookup_url_id_def by (metis find_Some_iff nth_mem)
  from safe obtain base where base: "real_path (base_dir e) = Some base"
      "real_path (build_filename (base_dir e) rel) = Some path" "strneq path base (length base)"
      "\<not> (length path > length base \<and> path ! length base \<noteq> CHR ''/'')"
    by (auto simp: ns_ext_safe_path_def Let_def split: option.splits if_splits)
  have "path = base \<or> (\<exists>t. path = base @ CHR ''/'' # t)"
  proof (cases "length path > length base")
    case True
    have "path = take (length base) path @ path ! length base # drop (Suc (length base)) path"
      by (rule id_take_nth_drop [OF True])
    then show ?thesis using base(3,4) True by (auto simp: strneq_def)
  next
    case False
    then show ?thesis using base(3) by (simp add: strneq_def)
  qed
  moreover have "\<exists>g\<in>set (web_accessible e). ns_ext_wildcard (skip_slashes g) (skip_slashes rel)"
    using rel(2) by (simp add: ns_ext_is_web_accessible_def list_ex_iff)
  moreover have "\<forall>s\<in>set (g_strsplit (skip_slashes rel) (CHR ''/'')). s \<noteq> [] \<and> s \<noteq> ''.'' \<and> s \<noteq> ''..''"
      "CHR 0x5C \<notin> set rel"
    using rel(1) unfolding ns_ext_relative_path_is_plain_def list_all_iff by (simp_all split: if_splits)
  ultimately show ?thesis using mem safe(2) base(1,2) by blast
qed

theorem resource_load_declared_witness:
  "\<exists>e\<in>set [(example_ext [])\<lparr>web_accessible := [''img/*'']\<rparr>]. \<exists>rel.
     (\<exists>g\<in>set (web_accessible e). ns_ext_wildcard (skip_slashes g) (skip_slashes rel)) \<and>
     base_dir e @ ''/'' @ rel = ''/x/img/a''"
proof -
  have "ns_ext_resource_load Some (\<lambda>a b. a @ ''/'' @ b) Some (\<lambda>p. Some ''data'')
      [(example_ext [])\<lparr>web_accessible := [''img/*'']\<rparr>] (Some ''northstar-extension://u/img/a?v=1'') =
      Some (Inr (''/x/img/a'', ''data''))"
    by code_simp
  from resource_load_declared [OF this] show ?thesis
    apply (elim bexE exE conjE)
    subgoal for e rel base g
      by (rule bexI [of _ e], rule exI [of _ rel]) (unfold option.inject, auto)
    done
qed

section \<open>Filters read as something else\<close>

text \<open>
  A filter that begins with a slash and holds another one is cut at its last slash and read as a regular
  expression, although it is one only when it also ends with a slash: \<open>/ads/banner.gif\<close> becomes the
  expression \<open>ads\<close>, which also blocks downloads.  With one slash only, its options stay in the pattern.
\<close>

lemma path_filter_truncated: "cut_filter ''/ads/banner.gif'' = (''/ads/'', None)"
  by code_simp

lemma path_filter_blocks_more:
  "\<exists>r. ns_abp_parse_network (\<lambda>rx. Some (\<lambda>u. sublist rx u)) ''/ads/banner.gif'' no_filters = no_filters\<lparr>f_dnr := [r]\<rparr> \<and>
       url_filter r = None \<and> ns_dnr_rule_matches r ''https://a.org/downloads'' (Some ''a.org'') None (-1)"
proof -
  have s: "ns_abp_is_simple_host ''/ads/'' = False" by code_simp
  have p: "ns_abp_parse_network (\<lambda>rx. Some (\<lambda>u. sublist rx u)) ''/ads/banner.gif'' no_filters =
     no_filters\<lparr>f_dnr := [new_rule\<lparr>rule_action := 0, regex := Some (\<lambda>u. sublist ''ads'' u)\<rparr>]\<rparr>"
    by (simp add: ns_abp_parse_network_def g_str_has_prefix_def g_str_has_suffix_def path_filter_truncated s
        no_filters_def new_rule_def)
  have "sublist ''ads'' ''https://a.org/downloads''" by code_simp
  then show ?thesis unfolding p
    by (intro exI [of _ "new_rule\<lparr>rule_action := 0, regex := Some (\<lambda>u. sublist ''ads'' u)\<rparr>"])
       (simp add: ns_dnr_rule_matches_def new_rule_def)
qed

lemma options_kept_in_pattern: "cut_filter ''/banner$image'' = (''/banner$image'', None)"
  by code_simp

text \<open>
  Options for request types that are neither types the engine infers nor on the list of unsupported
  options are skipped, and the filter then applies to every type.
\<close>

lemma type_option_ignored:
  "ns_abp_parse_network rx ''||ads.org^$subdocument'' st = ns_abp_parse_network rx ''||ads.org^$'' st"
proof -
  have "cut_filter ''||ads.org^$subdocument'' = (''||ads.org^'', Some ''subdocument'')"
    "cut_filter ''||ads.org^$'' = (''||ads.org^'', Some '''')" by code_simp+
  moreover have "g_strsplit ''subdocument'' (CHR '','') = [''subdocument'']" "g_strsplit '''' (CHR '','') = []" by code_simp+
  moreover have "apply_option ''subdocument'' r = Some r" for r
  proof -
    have "g_strstrip ''subdocument'' = ''subdocument''" "ns_abp_type_token ''subdocument'' = None"
      "\<not> ns_abp_option_unsupported ''subdocument''" "\<not> g_str_has_prefix ''subdocument'' ''domain=''" by code_simp+
    then show ?thesis by (simp add: apply_option_def)
  qed
  moreover have "\<not> g_str_has_prefix ''||ads.org^$subdocument'' ''@@''" "\<not> g_str_has_prefix ''||ads.org^$'' ''@@''"
    by code_simp+
  ultimately show ?thesis by (simp add: ns_abp_parse_network_def)
qed

section \<open>The hosts a match pattern covers\<close>

definition no_delims :: "cstr \<Rightarrow> bool" where
  "no_delims h \<longleftrightarrow> list_all (\<lambda>c. c \<noteq> CHR ''/'' \<and> c \<noteq> CHR ''?'' \<and> c \<noteq> CHR ''#'' \<and> c \<noteq> CHR ''@'' \<and> c \<noteq> CHR ''['' \<and> c \<noteq> CHR '':'') h"

lemma strstr_separator: "CHR '':'' \<notin> set sch \<Longrightarrow> strstr (sch @ ''://'' @ h @ rest) ''://'' = Some (''://'' @ h @ rest)"
    using strstr_scheme [of sch "''//'' @ h @ rest"]
    by (simp add: strstr.simps [of "CHR '':'' # _"] g_str_has_prefix_def)

lemma no_delims_authority: "no_delims h \<Longrightarrow> hd rest = CHR ''/'' \<or> rest = [] \<Longrightarrow> takeWhile (\<lambda>c. \<not> (c = CHR ''/'' \<or> c = CHR ''?'' \<or> c = CHR ''#'')) (h @ rest) = h"
   by (induction h) (auto simp: no_delims_def takeWhile_eq_Nil_iff dropWhile_eq_self_iff)

lemma no_delims_rest: "no_delims h \<Longrightarrow> hd rest = CHR ''/'' \<or> rest = [] \<Longrightarrow> dropWhile (\<lambda>c. \<not> (c = CHR ''/'' \<or> c = CHR ''?'' \<or> c = CHR ''#'')) (h @ rest) = rest"
   by (induction h) (auto simp: no_delims_def takeWhile_eq_Nil_iff dropWhile_eq_self_iff)

lemma no_delims_userinfo: "no_delims h \<Longrightarrow> rev (takeWhile (\<lambda>c. c \<noteq> CHR ''@'') (rev h)) = h" 
    by (subst takeWhile_eq_all_conv [THEN iffD2]) (auto simp:  no_delims_def list_all_iff)

lemma no_delims_port: "no_delims h \<Longrightarrow> takeWhile (\<lambda>c. c \<noteq> CHR '':'') h = h"
    by (auto simp: takeWhile_eq_all_conv no_delims_def list_all_iff)

lemma no_delims_bracket: "no_delims h \<Longrightarrow> h \<noteq> [] \<Longrightarrow> hd h \<noteq> CHR ''[''" by (cases h) (auto simp: no_delims_def)

lemma drop_3_sep: "drop 3 (''://'' @ s) = s" "take (length (sch @ ''://'' @ s) - length (''://'' @ s)) (sch @ ''://'' @ s) = sch"
  by simp_all

lemma url_split_host:
  assumes "CHR '':'' \<notin> set sch" "no_delims h" "hd rest = CHR ''/'' \<or> rest = []"
  shows "ns_ext_url_split (Some (sch @ ''://'' @ h @ rest)) =
    Some (g_ascii_strdown sch, g_ascii_strdown h,
      if rest = [] then ''/'' else takeWhile (\<lambda>c. c \<noteq> CHR ''?'' \<and> c \<noteq> CHR ''#'') rest)"
proof -
  have sc: "\<not> (h \<noteq> [] \<and> hd h = CHR ''['')" using no_delims_bracket [OF assms(2)] by blast
  show ?thesis
    unfolding ns_ext_url_split_def option.case strstr_separator [OF assms(1)] Let_def list.sel drop_3_sep
      no_delims_authority [OF assms(2,3)] no_delims_rest [OF assms(2,3)] no_delims_userinfo [OF assms(2)]
      no_delims_port [OF assms(2)] if_not_P [OF sc]
    using assms(3) by auto
qed

lemma wildcard_any_path: "hd p = CHR ''/'' \<Longrightarrow> p \<noteq> [] \<Longrightarrow> ns_ext_wildcard ''/*'' p"
  unfolding ns_ext_wildcard_def wildcard.loop_decides using glob_star_end
  by (cases p) (auto simp del: glob.simps(2) simp: glob_plain glob_char_def)

lemma subdomain_iff: "subdomain_of d h \<longleftrightarrow> (\<exists>a. h = a @ CHR ''.'' # d)"
proof
  assume s: "subdomain_of d h"
  define i where "i = length h - length d - 1"
  have "i < length h" "h ! i = CHR ''.''" "drop (Suc i) h = d"
    using s by (auto simp: subdomain_of_def i_def Suc_diff_Suc)
  then show "\<exists>a. h = a @ CHR ''.'' # d" using id_take_nth_drop [of i h] by metis
qed (auto simp: subdomain_of_def)

lemma host_pattern:
  assumes "CHR '':'' \<notin> set sch" "no_delims h" "hd rest = CHR ''/'' \<or> rest = []" "no_delims d"
  shows "ns_ext_pattern_match (''*://*.'' @ d @ ''/*'') (Some (sch @ ''://'' @ h @ rest)) \<longleftrightarrow>
    ns_ext_scheme_generic (g_ascii_strdown sch) \<and>
    (g_ascii_strdown h = g_ascii_strdown d \<or> (\<exists>a. g_ascii_strdown h = a @ CHR ''.'' # g_ascii_strdown d))"
proof -
  have nd: "no_delims (''*.'' @ d)" using assms(4) by (simp add: no_delims_def)
  have p: "ns_ext_url_split (Some (''*://*.'' @ d @ ''/*'')) = Some (''*'', ''*.'' @ g_ascii_strdown d, ''/*'')"
    using url_split_host [OF _ nd, of "''*''" "''/*''"] by (simp add: g_ascii_strdown_def)
  have u: "ns_ext_url_split (Some (sch @ ''://'' @ h @ rest)) =
    Some (g_ascii_strdown sch, g_ascii_strdown h,
      if rest = [] then ''/'' else takeWhile (\<lambda>c. c \<noteq> CHR ''?'' \<and> c \<noteq> CHR ''#'') rest)"
    by (rule url_split_host [OF assms(1-3)])
  have w: "ns_ext_wildcard ''/*'' (if rest = [] then ''/'' else takeWhile (\<lambda>c. c \<noteq> CHR ''?'' \<and> c \<noteq> CHR ''#'') rest)"
    by (rule wildcard_any_path) (use assms(3) in \<open>cases rest; auto\<close>)+
  have n: "''*://*.'' @ d @ ''/*'' \<noteq> ''<all_urls>''" by simp
  have hm: "ns_ext_host_match (''*.'' @ g_ascii_strdown d) H \<longleftrightarrow> H = g_ascii_strdown d \<or> subdomain_of (g_ascii_strdown d) H" for H
    by (simp add: ns_ext_host_match_def g_str_has_prefix_def Let_def)
  show ?thesis
    unfolding ns_ext_pattern_match_def u option.case prod.case p hm subdomain_iff using n w by simp
qed

text \<open>
  The match pattern \<open>*://*.d/*\<close> of a content script covers exactly the http, https and web socket
  URLs of the domain \<open>d\<close> and of its subdomains, at a dot boundary and whatever the case in which either is
  written: not those of a host that only ends with the same letters.
\<close>

theorem subdomain_pattern_scope:
  assumes "CHR '':'' \<notin> set sch" "no_delims h" "hd rest = CHR ''/'' \<or> rest = []" "no_delims d"
  shows "ns_ext_pattern_match (''*://*.'' @ d @ ''/*'') (Some (sch @ ''://'' @ h @ rest)) \<longleftrightarrow>
    ns_ext_scheme_generic (g_ascii_strdown sch) \<and>
    (g_ascii_strdown h = g_ascii_strdown d \<or> (\<exists>a. g_ascii_strdown h = a @ CHR ''.'' # g_ascii_strdown d))"
  by (rule host_pattern [OF assms])

theorem subdomain_pattern_scope_witness:
  "ns_ext_pattern_match ''*://*.bank.org/*'' (Some ''https://www.Bank.org/a'') \<and>
   \<not> ns_ext_pattern_match ''*://*.bank.org/*'' (Some ''https://evilbank.org/a'')"
proof -
  have nd: "no_delims ''www.Bank.org''" "no_delims ''evilbank.org''" "no_delims ''bank.org''" by code_simp+
  have 1: "g_ascii_strdown ''www.Bank.org'' = ''www'' @ CHR ''.'' # g_ascii_strdown ''bank.org''"
    "g_ascii_strdown ''evilbank.org'' = ''evilbank.org''" "g_ascii_strdown ''bank.org'' = ''bank.org''"
    "ns_ext_scheme_generic (g_ascii_strdown ''https'')" by code_simp+
  have "\<nexists>a. ''evilbank.org'' = a @ ''.bank.org''"
    by (simp add: append_eq_Cons_conv Cons_eq_append_conv)
  then show ?thesis
    using subdomain_pattern_scope [OF _ nd(1) _ nd(3), of "''https''" "''/a''"]
      subdomain_pattern_scope [OF _ nd(2) _ nd(3), of "''https''" "''/a''"] 1 by auto
qed

end
