(* ===== verification/Mp4.thy ===== *)
theory Mp4
  imports Media "HOL-Library.State_Monad" "HOL-Library.Product_Lexorder" "HOL-Library.Code_Target_Nat"
begin

text \<open>
  The MP4 demuxer (\<^verbatim>\<open>mp4.c\<close>): boxes and their headers, the tracks of a \<^verbatim>\<open>moov\<close> box with their
  sample tables and the merged sample index, the track runs of a \<^verbatim>\<open>moof\<close> box, and the state machine
  that is fed with bytes and queues samples.  A cursor is the bytes from its offset on and the overrun
  flag, and reading from it is a state monad.  The rest of a box that a loop walks over is the list of
  its children.  Sizes and positions are natural numbers, times integers.
\<close>

section \<open>Limits\<close>

definition FOURCC :: "cstr \<Rightarrow> nat" where
  "FOURCC s = foldl (\<lambda>v c. v * 256 + code_of c) 0 s"

definition NS_MP4_MAX_HEADER_BOX_BYTES :: nat where "NS_MP4_MAX_HEADER_BOX_BYTES = 67108864"
definition NS_MP4_MAX_MDAT_BUFFER_BYTES :: nat where "NS_MP4_MAX_MDAT_BUFFER_BYTES = 536870912"
definition NS_MP4_MAX_TRACKS :: nat where "NS_MP4_MAX_TRACKS = 64"
definition NS_MP4_MAX_PENDING_SAMPLES :: nat where "NS_MP4_MAX_PENDING_SAMPLES = 262144"
definition NS_MP4_MAX_INDEXED_SAMPLES :: nat where "NS_MP4_MAX_INDEXED_SAMPLES = 2097152"
definition NS_MP4_MAX_STREAM_POSITION :: nat where "NS_MP4_MAX_STREAM_POSITION = 4611686018427387904"
definition NS_MP4_MAX_TIMESTAMP :: int where "NS_MP4_MAX_TIMESTAMP = 4611686018427387904"

lemmas mp4_limits = NS_MP4_MAX_HEADER_BOX_BYTES_def NS_MP4_MAX_MDAT_BUFFER_BYTES_def NS_MP4_MAX_TRACKS_def
  NS_MP4_MAX_PENDING_SAMPLES_def NS_MP4_MAX_INDEXED_SAMPLES_def NS_MP4_MAX_STREAM_POSITION_def
  NS_MP4_MAX_TIMESTAMP_def

section \<open>The cursor\<close>

record byte_cursor =
  cur_data :: "u8 list"
  overrun :: bool

type_synonym 'a reader = "(byte_cursor, 'a) state"

definition cursor_init :: "u8 list \<Rightarrow> byte_cursor" where
  "cursor_init data = \<lparr>cur_data = data, overrun = False\<rparr>"

definition cursor_remaining :: "byte_cursor \<Rightarrow> nat" where
  "cursor_remaining c = (if overrun c then 0 else length (cur_data c))"

definition cursor_skip :: "nat \<Rightarrow> bool reader" where
  "cursor_skip n = State (\<lambda>c.
     if cursor_remaining c < n then (False, \<lparr>cur_data = [], overrun = True\<rparr>)
     else (True, c\<lparr>cur_data := drop n (cur_data c)\<rparr>))"

definition cursor_read_be :: "nat \<Rightarrow> nat reader" where
  "cursor_read_be n = State (\<lambda>c.
     if cursor_remaining c < n then (0, \<lparr>cur_data = [], overrun = True\<rparr>)
     else (be_value 0 (take n (cur_data c)), c\<lparr>cur_data := drop n (cur_data c)\<rparr>))"

definition cursor_u8 :: "nat reader" where "cursor_u8 = cursor_read_be 1"
definition cursor_u16 :: "nat reader" where "cursor_u16 = cursor_read_be 2"
definition cursor_u24 :: "nat reader" where "cursor_u24 = cursor_read_be 3"
definition cursor_u32 :: "nat reader" where "cursor_u32 = cursor_read_be 4"
definition cursor_u64 :: "nat reader" where "cursor_u64 = cursor_read_be 8"

text \<open>Whether a read went past the end, and a read that is optional.\<close>

definition cursor_overrun :: "bool reader" where
  "cursor_overrun = State (\<lambda>c. (overrun c, c))"

definition read_if :: "bool \<Rightarrow> nat reader \<Rightarrow> nat \<Rightarrow> nat reader" where
  "read_if b m v = (if b then m else State_Monad.return v)"

text \<open>The signed reading of 32 and 64 bits.\<close>

definition gint32_of :: "nat \<Rightarrow> int" where
  "gint32_of v = (if v < 2 ^ 31 then int v else int v - 2 ^ 32)"

definition gint64_of :: "nat \<Rightarrow> int" where
  "gint64_of v = (if v < 2 ^ 63 then int v else int v - 2 ^ 64)"

section \<open>Boxes\<close>

record child_box =
  box_type :: nat
  payload :: "u8 list"

datatype box_step = Box_End | Box_Bad | Box child_box "u8 list"

definition cursor_next_box :: "u8 list \<Rightarrow> box_step" where
  "cursor_next_box start =
     (let remaining = length start in
      if remaining < 8 then Box_End
      else
        let ((size0, ty), h0) = run_state (do { s \<leftarrow> cursor_u32; t \<leftarrow> cursor_u32; State_Monad.return (s, t) })
                                   (cursor_init start);
            (size, h1) = (if size0 = 1 then run_state cursor_u64 h0
                          else if size0 = 0 then (remaining, h0) else (size0, h0));
            (ok, h2) = (if ty = FOURCC ''uuid'' then run_state (cursor_skip 16) h1 else (True, h1));
            offset = remaining - length (cur_data h2)
        in if overrun h1 \<or> \<not> ok then Box_Bad
           else if size < offset \<or> size > remaining then Box_Bad
           else Box \<lparr>box_type = ty, payload = take (size - offset) (drop offset start)\<rparr> (drop size start))"

text \<open>The header of a box at the top level, of which more bytes may be to come.\<close>

datatype peek_result = PEEK_NEED_MORE | PEEK_INVALID | PEEK_COMPLETE nat nat nat bool

definition peek_top_level_box :: "u8 list \<Rightarrow> peek_result" where
  "peek_top_level_box data =
     (if length data < 8 then PEEK_NEED_MORE
      else
        let ((size0, ty), h0) = run_state (do { s \<leftarrow> cursor_u32; t \<leftarrow> cursor_u32; State_Monad.return (s, t) })
                                   (cursor_init data)
        in if size0 = 1 \<and> length (cur_data h0) < 8 then PEEK_NEED_MORE
           else
             let (size, h1) = (if size0 = 1 then run_state cursor_u64 h0 else (size0, h0));
                 extends_to_end = (size0 = 0)
             in if ty = FOURCC ''uuid'' \<and> length (cur_data h1) < 16 then PEEK_NEED_MORE
                else
                  let h2 = (if ty = FOURCC ''uuid'' then snd (run_state (cursor_skip 16) h1) else h1);
                      header_length = length data - length (cur_data h2)
                  in if \<not> extends_to_end \<and> size < header_length then PEEK_INVALID
                     else if size \<ge> NS_MP4_MAX_STREAM_POSITION then PEEK_INVALID
                     else PEEK_COMPLETE ty size header_length extends_to_end)"

definition fourcc_to_string :: "nat \<Rightarrow> cstr" where
  "fourcc_to_string fourcc =
     map (\<lambda>i. let ch = char_at (fourcc div 2 ^ (24 - 8 * i) mod 256) in if g_ascii_isprint ch then ch else CHR ''?'')
         [0, 1, 2, 3]"

lemma run_cursor_skip:
  "run_state (cursor_skip n) c = (if cursor_remaining c < n then (False, \<lparr>cur_data = [], overrun = True\<rparr>)
     else (True, c\<lparr>cur_data := drop n (cur_data c)\<rparr>))"
  by (simp add: cursor_skip_def)

lemma run_read_be:
  "run_state (cursor_read_be n) c = (if cursor_remaining c < n then (0, \<lparr>cur_data = [], overrun = True\<rparr>)
     else (be_value 0 (take n (cur_data c)), c\<lparr>cur_data := drop n (cur_data c)\<rparr>))"
  by (simp add: cursor_read_be_def)

lemmas run_cursor [simp] = run_cursor_skip run_read_be

lemmas cursor_reads = cursor_u8_def cursor_u16_def cursor_u24_def cursor_u32_def cursor_u64_def

lemma cursor_init_fields [simp]: "cur_data (cursor_init d) = d" "overrun (cursor_init d) = False"
  by (simp_all add: cursor_init_def)

text \<open>A box has a header of at least 8 bytes and is a part of the bytes it is read from.\<close>

lemma next_box_cases:
  assumes "cursor_next_box start = Box b rest"
  obtains size offset where "8 \<le> offset" "offset \<le> size" "size \<le> length start"
    "payload b = take (size - offset) (drop offset start)" "rest = drop size start"
proof -
  have len: "\<not> length start < 8"
    using assms by (auto simp: cursor_next_box_def)
  define r where "r = run_state (do { s \<leftarrow> cursor_u32; t \<leftarrow> cursor_u32; State_Monad.return (s, t) }) (cursor_init start)"
  obtain size0 ty h0 where r: "r = ((size0, ty), h0)" by (metis surj_pair)
  have h0: "h0 = \<lparr>cur_data = drop 8 start, overrun = False\<rparr>"
    using r len unfolding r_def
    by (simp add: cursor_reads cursor_remaining_def State_Monad.return_def cursor_init_def split: prod.splits if_splits)
  define s1 where "s1 = (if size0 = 1 then run_state cursor_u64 h0
                          else if size0 = 0 then (length start, h0) else (size0, h0))"
  obtain size h1 where s1: "s1 = (size, h1)" by (metis surj_pair)
  define s2 where "s2 = (if ty = FOURCC ''uuid'' then run_state (cursor_skip 16) h1 else (True, h1))"
  obtain ok h2 where s2: "s2 = (ok, h2)" by (metis surj_pair)
  let ?offset = "length start - length (cur_data h2)"
  have eq: "cursor_next_box start =
    (if overrun h1 \<or> \<not> ok then Box_Bad
     else if size < ?offset \<or> size > length start then Box_Bad
     else Box \<lparr>box_type = ty, payload = take (size - ?offset) (drop ?offset start)\<rparr> (drop size start))"
    unfolding cursor_next_box_def Let_def r_def [symmetric] r prod.case s1_def [symmetric] s1 s2_def [symmetric] s2
    using len by simp
  have h1: "length (cur_data h1) \<le> length start - 8"
    using s1 unfolding s1_def h0 by (auto simp: cursor_reads split: if_splits)
  have h2: "length (cur_data h2) \<le> length start - 8"
    using s2 h1 unfolding s2_def by (auto split: if_splits)
  have "\<not> (overrun h1 \<or> \<not> ok)" "\<not> (size < ?offset \<or> size > length start)"
    using assms eq by (auto split: if_splits)
  with assms eq show ?thesis using that [of ?offset size] h2 len by (auto split: if_splits)
qed

lemma next_box_shorter: "cursor_next_box start = Box b rest \<Longrightarrow> length rest < length start"
  by (erule next_box_cases) auto

lemma next_box_payload: "cursor_next_box start = Box b rest \<Longrightarrow> length (payload b) + 8 + length rest \<le> length start"
  by (erule next_box_cases) auto

text \<open>The boxes in some bytes, and whether they go on to the end.\<close>

function boxes :: "u8 list \<Rightarrow> child_box list \<times> bool" where
  "boxes data =
     (case cursor_next_box data of
        Box_End \<Rightarrow> ([], True)
      | Box_Bad \<Rightarrow> ([], False)
      | Box b rest \<Rightarrow> (case boxes rest of (bs, ok) \<Rightarrow> (b # bs, ok)))"
  by pat_completeness auto
termination by (relation "measure length") (auto dest: next_box_shorter)

declare boxes.simps [simp del]

section \<open>Tracks\<close>

record indexed_sample =
  ix_position :: nat
  ix_dts :: int
  ix_pts :: int
  ix_size :: nat
  ix_duration :: nat
  ix_track :: nat
  ix_keyframe :: bool

record demux_track =
  public :: ns_mp4_track
  default_sample_duration :: nat
  default_sample_size :: nat
  default_sample_flags :: nat
  has_next_decode_time :: bool
  next_decode_time :: int
  samples :: "indexed_sample list option"

definition mp4_find_track :: "demux_track list \<Rightarrow> nat \<Rightarrow> demux_track option" where
  "mp4_find_track tracks ident = List.find (\<lambda>t. track_ident (public t) = ident) tracks"

definition sample_flags_mean_sync :: "nat \<Rightarrow> bool" where
  "sample_flags_mean_sync flags \<longleftrightarrow> \<not> flags div 2 ^ 16 mod 2 = 1 \<and> flags div 2 ^ 24 mod 4 \<noteq> 1"

fun varlen :: "nat \<Rightarrow> nat \<Rightarrow> nat reader" where
  "varlen 0 v = State_Monad.return v"
| "varlen (Suc n) v =
     do { part \<leftarrow> cursor_u8;
          (if part < 128 then State_Monad.return (v * 128 + part mod 128) else varlen n (v * 128 + part mod 128)) }"

definition read_descriptor_header :: "byte_cursor \<Rightarrow> (nat \<times> nat \<times> byte_cursor) option" where
  "read_descriptor_header c =
     (case run_state (do { t \<leftarrow> cursor_u8; l \<leftarrow> varlen 4 0; State_Monad.return (t, l) }) c of
        ((t, l), c') \<Rightarrow> if overrun c' then None else Some (t, min l (cursor_remaining c'), c'))"

lemma reads_shorter: "length (cur_data (snd (run_state (cursor_read_be n) c))) \<le> length (cur_data c)"
  "length (cur_data (snd (run_state (cursor_skip n) c))) \<le> length (cur_data c)"
  by simp_all

lemma varlen_shorter: "length (cur_data (snd (run_state (varlen n v) c))) \<le> length (cur_data c)"
proof (induction n arbitrary: v c)
  case (Suc n)
  obtain part c' where p: "run_state cursor_u8 c = (part, c')" by (metis surj_pair)
  have "length (cur_data c') \<le> length (cur_data c)" using reads_shorter(1) [of 1 c] p by (simp add: cursor_u8_def)
  then show ?case using Suc [of "v * 128 + part mod 128" c'] p by (simp add: State_Monad.return_def)
qed (simp add: State_Monad.return_def)

lemma descriptor_header_shorter:
  assumes "read_descriptor_header c = Some (t, l, c')" "cursor_remaining c \<ge> 2"
  shows "length (cur_data c') < length (cur_data c)" "\<not> overrun c'"
proof -
  obtain t0 c0 where t0: "run_state cursor_u8 c = (t0, c0)" by (metis surj_pair)
  have "length (cur_data c0) < length (cur_data c)" using t0 assms(2)
    by (auto simp: cursor_u8_def cursor_remaining_def split: if_splits)
  moreover obtain l0 c1 where "run_state (varlen 4 0) c0 = (l0, c1)" by (metis surj_pair)
  moreover from this have "length (cur_data c1) \<le> length (cur_data c0)" using varlen_shorter [of 4 0 c0] by simp
  ultimately show "length (cur_data c') < length (cur_data c)" "\<not> overrun c'"
    using assms(1) t0 by (auto simp: read_descriptor_header_def State_Monad.return_def split: if_splits)
qed

text \<open>The body of the first descriptor with the wanted tag.\<close>

function find_descriptor :: "byte_cursor \<Rightarrow> nat \<Rightarrow> u8 list option" where
  "find_descriptor c wanted_tag =
     (if cursor_remaining c \<ge> 2 then
        (case read_descriptor_header c of
           None \<Rightarrow> None
         | Some (t, l, c') \<Rightarrow>
             if t = wanted_tag then Some (take l (cur_data c'))
             else find_descriptor (snd (run_state (cursor_skip l) c')) wanted_tag)
      else None)"
  by pat_completeness auto
termination
proof (relation "measure (\<lambda>(c, w). length (cur_data c))", simp, goal_cases)
  case (1 c w h t r l c')
  then have "length (cur_data c') < length (cur_data c)" using descriptor_header_shorter(1) by blast
  with reads_shorter(2) [of l c'] show ?case by simp
qed

declare find_descriptor.simps [simp del]

definition parse_decoder_config_descriptor :: "demux_track \<Rightarrow> u8 list \<Rightarrow> demux_track" where
  "parse_decoder_config_descriptor track body =
     (case run_state (cursor_skip 13) (cursor_init body) of
        (ok, c) \<Rightarrow>
          if \<not> ok then track
          else (case find_descriptor c 0x05 of
                  None \<Rightarrow> track
                | Some info \<Rightarrow> track\<lparr>public := (public track)\<lparr>codec_config := Some info\<rparr>\<rparr>))"

definition parse_esds :: "demux_track \<Rightarrow> u8 list \<Rightarrow> demux_track" where
  "parse_esds track body =
     (case run_state (cursor_skip 4) (cursor_init body) of
        (ok, c) \<Rightarrow>
          if \<not> ok then track
          else (case find_descriptor c 0x03 of
                  None \<Rightarrow>
                    (case find_descriptor c 0x04 of
                       None \<Rightarrow> track | Some config \<Rightarrow> parse_decoder_config_descriptor track config)
                | Some es \<Rightarrow>
                    (case run_state
                        (do { cursor_skip 2; flags \<leftarrow> cursor_u8;
                              (if flags div 128 mod 2 = 1 then cursor_skip 2 else State_Monad.return True);
                              (if flags div 64 mod 2 = 1 then do { n \<leftarrow> cursor_u8; cursor_skip n } else State_Monad.return True);
                              (if flags div 32 mod 2 = 1 then cursor_skip 2 else State_Monad.return True) })
                        (cursor_init es) of
                       (_, d) \<Rightarrow>
                         if overrun d then track
                         else (case find_descriptor d 0x04 of
                                 None \<Rightarrow> track | Some config \<Rightarrow> parse_decoder_config_descriptor track config))))"

definition store_codec_config :: "demux_track \<Rightarrow> child_box \<Rightarrow> demux_track" where
  "store_codec_config track b = track\<lparr>public := (public track)\<lparr>codec_config := Some (payload b)\<rparr>\<rparr>"

definition box_type_is_codec_config :: "nat \<Rightarrow> bool" where
  "box_type_is_codec_config t = List.member
     (map FOURCC [''avcC'', ''hvcC'', ''vvcC'', ''vpcC'', ''dOps'', ''dfLa'', ''dac3'', ''dec3'', ''av1C'', ''esds'']) t"

text \<open>
  The children of a sample entry; the number is how many more \<^verbatim>\<open>wave\<close> boxes may be entered, one at
  depth 0 and none at depth 1.
\<close>

fun parse_sample_entry_children :: "demux_track \<Rightarrow> child_box list \<Rightarrow> nat \<Rightarrow> demux_track" where
  "parse_sample_entry_children track [] levels = track"
| "parse_sample_entry_children track (child # cs) levels =
     (if box_type child = FOURCC ''av1C'' then
        (let t = store_codec_config track child
         in t\<lparr>public := (public t)\<lparr>config_obus := if length (payload child) \<ge> 4 then Some (drop 4 (payload child)) else None\<rparr>\<rparr>)
      else if box_type child = FOURCC ''esds'' then parse_esds track (payload child)
      else if box_type child = FOURCC ''wave'' \<and> levels > 0 then
        (let t = parse_sample_entry_children track (fst (boxes (payload child))) (levels - 1)
         in if codec_config (public t) \<noteq> None then t else parse_sample_entry_children t cs levels)
      else if box_type_is_codec_config (box_type child) then store_codec_config track child
      else parse_sample_entry_children track cs levels)"

text \<open>The bytes a cursor has left.\<close>

definition cursor_rest :: "byte_cursor \<Rightarrow> u8 list" where
  "cursor_rest c = (if overrun c then [] else cur_data c)"

definition parse_sample_entry :: "demux_track \<Rightarrow> nat \<Rightarrow> child_box \<Rightarrow> demux_track" where
  "parse_sample_entry track0 hdlr entry =
     (let track = track0\<lparr>public := (public track0)\<lparr>codec := fourcc_to_string (box_type entry)\<rparr>\<rparr>;
          (ok, c) = run_state (cursor_skip 8) (cursor_init (payload entry))
      in if \<not> ok then track
         else if hdlr = FOURCC ''vide'' then
           (case run_state (do { cursor_skip 16; w \<leftarrow> cursor_u16; h \<leftarrow> cursor_u16; ok2 \<leftarrow> cursor_skip 50;
                                 State_Monad.return (w, h, ok2) }) c of
              ((w, h, ok2), d) \<Rightarrow>
                let t = track\<lparr>public := (public track)\<lparr>width := w, height := h\<rparr>\<rparr>
                in if \<not> ok2 then t else parse_sample_entry_children t (fst (boxes (cursor_rest d))) 1)
         else if hdlr = FOURCC ''soun'' then
           (case run_state (do { v \<leftarrow> cursor_u16; cursor_skip 6; ch \<leftarrow> cursor_u16; cursor_skip 6; r \<leftarrow> cursor_u32;
                                 State_Monad.return (v, ch, r) }) c of
              ((v, ch, r), d) \<Rightarrow>
                let t = track\<lparr>public := (public track)\<lparr>channels := ch, sample_rate := r div 2 ^ 16\<rparr>\<rparr>
                in if overrun d then t
                   else if v = 1 then
                     (case run_state (cursor_skip 16) d of
                        (ok2, d2) \<Rightarrow>
                          if \<not> ok2 then t else parse_sample_entry_children t (fst (boxes (cursor_rest d2))) 1)
                   else if v = 2 then
                     (case run_state (do { cursor_skip 4; bits \<leftarrow> cursor_u64; n \<leftarrow> cursor_u32; ok2 \<leftarrow> cursor_skip 20;
                                           State_Monad.return (bits, n, ok2) }) d of
                        ((bits, n, ok2), d2) \<Rightarrow>
                          if \<not> ok2 then t
                          else
                            let p = public t;
                                p1 = (case ieee_value 11 52 bits of
                                        Some rate \<Rightarrow> if 0 < rate \<and> rate < 10000000 then p\<lparr>sample_rate := nat \<lfloor>rate\<rfloor>\<rparr> else p
                                      | None \<Rightarrow> p);
                                p2 = (if 0 < n \<and> n < 1024 then p1\<lparr>channels := n\<rparr> else p1)
                            in parse_sample_entry_children (t\<lparr>public := p2\<rparr>) (fst (boxes (cursor_rest d2))) 1)
                   else parse_sample_entry_children t (fst (boxes (cursor_rest d))) 1)
         else track)"

definition parse_stsd :: "demux_track \<Rightarrow> nat \<Rightarrow> u8 list \<Rightarrow> demux_track" where
  "parse_stsd track hdlr stsd =
     (case run_state (do { cursor_skip 4; cursor_u32 }) (cursor_init stsd) of
        (entry_count, c) \<Rightarrow>
          if overrun c \<or> entry_count = 0 then track
          else (case cursor_next_box (cur_data c) of
                  Box entry _ \<Rightarrow> parse_sample_entry track hdlr entry
                | _ \<Rightarrow> track))"

definition parse_container_for :: "u8 list \<Rightarrow> cstr \<Rightarrow> u8 list option" where
  "parse_container_for parent wanted =
     map_option payload (List.find (\<lambda>b. box_type b = FOURCC wanted) (fst (boxes parent)))"

section \<open>Sample tables\<close>

text \<open>A table with its entry count, if the count fits what is left.\<close>

definition table_open :: "u8 list \<Rightarrow> nat \<Rightarrow> nat \<Rightarrow> (byte_cursor \<times> nat) option" where
  "table_open body skip entry_size =
     (case run_state (do { cursor_skip skip; cursor_u32 }) (cursor_init body) of
        (count, c) \<Rightarrow>
          if \<not> overrun c \<and> count \<le> cursor_remaining c div entry_size then Some (c, count) else None)"

record sample_tables =
  stsz :: "u8 list option"
  stz2 :: "u8 list option"
  stco :: "u8 list option"
  co64 :: "u8 list option"
  stsc :: "u8 list option"
  stts :: "u8 list option"
  ctts :: "u8 list option"
  stss :: "u8 list option"

definition no_tables :: sample_tables where
  "no_tables = \<lparr>stsz = None, stz2 = None, stco = None, co64 = None, stsc = None, stts = None, ctts = None, stss = None\<rparr>"

definition collect_table :: "child_box \<Rightarrow> sample_tables \<Rightarrow> sample_tables" where
  "collect_table b t =
     (if box_type b = FOURCC ''stsz'' then t\<lparr>stsz := Some (payload b)\<rparr>
      else if box_type b = FOURCC ''stz2'' then t\<lparr>stz2 := Some (payload b)\<rparr>
      else if box_type b = FOURCC ''stco'' then t\<lparr>stco := Some (payload b)\<rparr>
      else if box_type b = FOURCC ''co64'' then t\<lparr>co64 := Some (payload b)\<rparr>
      else if box_type b = FOURCC ''stsc'' then t\<lparr>stsc := Some (payload b)\<rparr>
      else if box_type b = FOURCC ''stts'' then t\<lparr>stts := Some (payload b)\<rparr>
      else if box_type b = FOURCC ''ctts'' then t\<lparr>ctts := Some (payload b)\<rparr>
      else if box_type b = FOURCC ''stss'' then t\<lparr>stss := Some (payload b)\<rparr>
      else t)"

definition collect_sample_tables :: "u8 list \<Rightarrow> sample_tables" where
  "collect_sample_tables stbl = fold collect_table (fst (boxes stbl)) no_tables"

record size_reader =
  sz_cursor :: byte_cursor
  sz_constant :: nat
  sz_count :: nat
  field_bits :: nat
  sz_read :: nat
  pending_nibble :: nat

definition size_reader_open :: "sample_tables \<Rightarrow> size_reader option" where
  "size_reader_open tables =
     (case stsz tables of
        Some body \<Rightarrow>
          (case run_state (do { cursor_skip 4; k \<leftarrow> cursor_u32; n \<leftarrow> cursor_u32; State_Monad.return (k, n) }) (cursor_init body) of
             ((k, n), c) \<Rightarrow>
               if overrun c then None
               else if k \<noteq> 0 \<or> n \<le> cursor_remaining c div 4
               then Some \<lparr>sz_cursor = c, sz_constant = k, sz_count = n, field_bits = 32, sz_read = 0, pending_nibble = 0\<rparr>
               else None)
      | None \<Rightarrow>
          (case stz2 tables of
             None \<Rightarrow> None
           | Some body \<Rightarrow>
               (case run_state (do { cursor_skip 7; b \<leftarrow> cursor_u8; n \<leftarrow> cursor_u32; State_Monad.return (b, n) }) (cursor_init body) of
                  ((b, n), c) \<Rightarrow>
                    if overrun c then None
                    else if b \<noteq> 4 \<and> b \<noteq> 8 \<and> b \<noteq> 16 then None
                    else if n * b \<le> cursor_remaining c * 8
                    then Some \<lparr>sz_cursor = c, sz_constant = 0, sz_count = n, field_bits = b, sz_read = 0, pending_nibble = 0\<rparr>
                    else None)))"

definition size_reader_next :: "(size_reader, nat) state" where
  "size_reader_next = State (\<lambda>r0.
     let index = sz_read r0; r = r0\<lparr>sz_read := sz_read r0 + 1\<rparr> in
     if sz_constant r \<noteq> 0 then (sz_constant r, r)
     else if field_bits r = 4 then
       (if index mod 2 = 0 then
          (case run_state cursor_u8 (sz_cursor r) of
             (v, c) \<Rightarrow> (v div 16, r\<lparr>sz_cursor := c, pending_nibble := v\<rparr>))
        else (pending_nibble r mod 16, r))
     else
       (case run_state (if field_bits r = 8 then cursor_u8 else if field_bits r = 16 then cursor_u16 else cursor_u32)
          (sz_cursor r) of
          (v, c) \<Rightarrow> (v, r\<lparr>sz_cursor := c\<rparr>)))"

record run_reader =
  run_cursor :: byte_cursor
  entries :: nat
  run_left :: nat
  run_value :: nat

definition run_reader_open :: "u8 list option \<Rightarrow> run_reader option" where
  "run_reader_open box0 =
     (case box0 of
        None \<Rightarrow> Some \<lparr>run_cursor = cursor_init [], entries = 0, run_left = 0, run_value = 0\<rparr>
      | Some body \<Rightarrow>
          (case table_open body 4 8 of
             None \<Rightarrow> None
           | Some (c, n) \<Rightarrow> Some \<lparr>run_cursor = c, entries = n, run_left = 0, run_value = 0\<rparr>))"

function run_reader_fill :: "run_reader \<Rightarrow> run_reader" where
  "run_reader_fill r =
     (if run_left r = 0 \<and> entries r > 0 then
        (case run_state (do { n \<leftarrow> cursor_u32; v \<leftarrow> cursor_u32; State_Monad.return (n, v) }) (run_cursor r) of
           ((n, v), c) \<Rightarrow>
             run_reader_fill (r\<lparr>run_cursor := c, run_left := n, run_value := v, entries := entries r - 1\<rparr>))
      else r)"
  by pat_completeness auto
termination by (relation "measure entries") auto

declare run_reader_fill.simps [simp del]

definition run_reader_next :: "(run_reader, nat) state" where
  "run_reader_next = State (\<lambda>r0.
     let r = run_reader_fill r0
     in (run_value r, if run_left r > 0 then r\<lparr>run_left := run_left r - 1\<rparr> else r))"

text \<open>The variables of the loops of \<^verbatim>\<open>build_sample_index\<close>.\<close>

record index_state =
  bi_sizes :: size_reader
  bi_offsets :: byte_cursor
  bi_stsc :: byte_cursor
  stsc_entries :: nat
  entry_first_chunk :: nat
  entry_samples :: nat
  following_first_chunk :: nat
  bi_durations :: run_reader
  offsets_in_time :: run_reader
  bi_sync :: byte_cursor
  sync_left :: nat
  next_sync :: nat
  bi_dts :: int
  sample_number :: nat
  bi_out :: "indexed_sample list"

function advance_stsc :: "nat \<Rightarrow> index_state \<Rightarrow> index_state" where
  "advance_stsc chunk s =
     (if stsc_entries s > 0 \<and> chunk \<ge> following_first_chunk s then
        (case run_state (do { n \<leftarrow> cursor_u32; cursor_skip 4; State_Monad.return n }) (bi_stsc s) of
           (n, c) \<Rightarrow>
             let left = stsc_entries s - 1;
                 (f, c2) = (if left > 0 then run_state cursor_u32 c else (0, c))
             in advance_stsc chunk (s\<lparr>entry_first_chunk := following_first_chunk s, entry_samples := n,
                  stsc_entries := left, following_first_chunk := f, bi_stsc := c2\<rparr>))
      else s)"
  by pat_completeness auto
termination by (relation "measure (\<lambda>(chunk, s). stsc_entries s)") auto

function advance_sync :: "index_state \<Rightarrow> index_state" where
  "advance_sync s =
     (if sync_left s > 0 \<and> next_sync s < sample_number s then
        (let left = sync_left s - 1;
             (n, c) = (if left > 0 then run_state cursor_u32 (bi_sync s) else (0, bi_sync s))
         in advance_sync (s\<lparr>sync_left := left, next_sync := n, bi_sync := c\<rparr>))
      else s)"
  by pat_completeness auto
termination by (relation "measure sync_left") auto

declare advance_stsc.simps [simp del] advance_sync.simps [simp del]

text \<open>The samples of one chunk: \<open>left\<close> of the entry's are to come, the next one is at \<open>pos\<close>.\<close>

definition next_sample :: "bool \<Rightarrow> nat \<Rightarrow> index_state \<Rightarrow> indexed_sample \<times> index_state" where
  "next_sample all_sync pos s0 =
     (let s1 = s0\<lparr>sample_number := sample_number s0 + 1\<rparr>;
          (size, szs) = run_state size_reader_next (bi_sizes s1);
          (dur, drs) = run_state run_reader_next (bi_durations s1);
          (off, ofs) = run_state run_reader_next (offsets_in_time s1);
          s2 = s1\<lparr>bi_sizes := szs, bi_durations := drs, offsets_in_time := ofs\<rparr>;
          s3 = (if all_sync then s2 else advance_sync s2);
          key = (all_sync \<or> sync_left s3 > 0 \<and> next_sync s3 = sample_number s3)
      in (\<lparr>ix_position = pos, ix_dts = bi_dts s3, ix_pts = bi_dts s3 + gint32_of off, ix_size = size,
           ix_duration = dur, ix_track = 0, ix_keyframe = key\<rparr>, s3))"

lemma next_sample_number: "sample_number (snd (next_sample all_sync pos s)) = sample_number s + 1"
proof -
  have "sample_number (advance_sync s) = sample_number s" for s
    by (induction s rule: advance_sync.induct) (subst advance_sync.simps, auto split: prod.split)
  then show ?thesis by (auto simp: next_sample_def Let_def split: prod.split)
qed

function chunk_samples :: "bool \<Rightarrow> nat \<Rightarrow> nat \<Rightarrow> nat \<Rightarrow> index_state \<Rightarrow> index_state" where
  "chunk_samples all_sync count left pos s0 =
     (if left > 0 \<and> sample_number s0 < count then
        (case next_sample all_sync pos s0 of
           (smp, s) \<Rightarrow>
             if overrun (sz_cursor (bi_sizes s)) \<or> pos \<ge> NS_MP4_MAX_STREAM_POSITION \<or> bi_dts s > NS_MP4_MAX_TIMESTAMP
             then s
             else chunk_samples all_sync count (left - 1) (pos + ix_size smp)
                    (s\<lparr>bi_out := bi_out s @ [smp], bi_dts := bi_dts s + int (ix_duration smp)\<rparr>))
      else s0)"
  by pat_completeness auto
termination by (relation "measure (\<lambda>(a, count, left, pos, s). left)") auto

declare chunk_samples.simps [simp del]

fun chunk_loop :: "bool \<Rightarrow> bool \<Rightarrow> nat \<Rightarrow> nat list \<Rightarrow> index_state \<Rightarrow> index_state" where
  "chunk_loop wide all_sync count [] s = s"
| "chunk_loop wide all_sync count (chunk # chunks) s0 =
     (if sample_number s0 < count then
        (let s1 = advance_stsc chunk s0;
             (pos, c) = run_state (if wide then cursor_u64 else cursor_u32) (bi_offsets s1);
             s2 = s1\<lparr>bi_offsets := c\<rparr>
         in if overrun c \<or> overrun (bi_stsc s2) \<or> chunk < entry_first_chunk s2 then s2
            else chunk_loop wide all_sync count chunks (chunk_samples all_sync count (entry_samples s2) pos s2))
      else s0)"

text \<open>The readers of the tables, or failure; and the loops over the chunks.\<close>

definition open_readers :: "sample_tables \<Rightarrow> (index_state \<times> nat) option" where
  "open_readers tables =
     (case size_reader_open tables of
        None \<Rightarrow> None
      | Some sizes \<Rightarrow>
          if sz_count sizes = 0 \<or> sz_count sizes > NS_MP4_MAX_INDEXED_SAMPLES then None
          else
            let wide = (co64 tables \<noteq> None) in
            (case (case if wide then co64 tables else stco tables of
                     None \<Rightarrow> None | Some b \<Rightarrow> table_open b 4 (if wide then 8 else 4)) of
               None \<Rightarrow> None
             | Some (offsets, chunk_count) \<Rightarrow>
                 (case (case stsc tables of None \<Rightarrow> None | Some b \<Rightarrow> table_open b 4 12) of
                    None \<Rightarrow> None
                  | Some (sc, n) \<Rightarrow>
                      if n = 0 then None
                      else (case (if stts tables = None then None else run_reader_open (stts tables),
                                  run_reader_open (ctts tables),
                                  case stss tables of None \<Rightarrow> Some (cursor_init [], 0) | Some b \<Rightarrow> table_open b 4 4) of
                              (Some durations, Some offs, Some (sync, left)) \<Rightarrow>
                                (let (ns, sync1) = (if left > 0 then run_state cursor_u32 sync else (0, sync));
                                     ((ef, es), sc1) = run_state (do { a \<leftarrow> cursor_u32; b \<leftarrow> cursor_u32; cursor_skip 4;
                                                          State_Monad.return (a, b) }) sc;
                                     (ff, sc2) = (if n - 1 > 0 then run_state cursor_u32 sc1 else (0, sc1))
                                 in Some (\<lparr>bi_sizes = sizes, bi_offsets = offsets, bi_stsc = sc2, stsc_entries = n - 1,
                                      entry_first_chunk = ef, entry_samples = es, following_first_chunk = ff,
                                      bi_durations = durations, offsets_in_time = offs, bi_sync = sync1,
                                      sync_left = left, next_sync = ns, bi_dts = 0, sample_number = 0, bi_out = []\<rparr>,
                                    chunk_count))
                            | _ \<Rightarrow> None))))"

definition build_sample_index :: "sample_tables \<Rightarrow> indexed_sample list option" where
  "build_sample_index tables =
     (case open_readers tables of
        None \<Rightarrow> None
      | Some (s, chunk_count) \<Rightarrow>
          let out = bi_out (chunk_loop (co64 tables \<noteq> None) (stss tables = None) (sz_count (bi_sizes s))
                      [1..<chunk_count + 1] s)
          in if out = [] then None else Some out)"

section \<open>The boxes of a track\<close>

definition parse_minf :: "demux_track \<Rightarrow> nat \<Rightarrow> u8 list \<Rightarrow> demux_track" where
  "parse_minf track hdlr minf =
     (case parse_container_for minf ''stbl'' of
        None \<Rightarrow> track
      | Some stbl \<Rightarrow>
          let t = (case parse_container_for stbl ''stsd'' of None \<Rightarrow> track | Some stsd \<Rightarrow> parse_stsd track hdlr stsd)
          in t\<lparr>samples := build_sample_index (collect_sample_tables stbl)\<rparr>)"

definition parse_mdhd :: "demux_track \<Rightarrow> u8 list \<Rightarrow> bool \<times> demux_track" where
  "parse_mdhd track body =
     (case run_state (do { v \<leftarrow> cursor_u8; cursor_skip 3; cursor_skip (if v = 1 then 16 else 8); cursor_u32 })
        (cursor_init body) of
        (ts, c) \<Rightarrow> (\<not> overrun c, track\<lparr>public := (public track)\<lparr>timescale := ts\<rparr>\<rparr>))"

definition parse_hdlr :: "u8 list \<Rightarrow> nat" where
  "parse_hdlr body =
     (case run_state (do { cursor_skip 8; cursor_u32 }) (cursor_init body) of
        (h, c) \<Rightarrow> if overrun c then 0 else h)"

text \<open>The loop of \<^verbatim>\<open>parse_mdia\<close>; the Boolean is false when \<^verbatim>\<open>mdhd\<close> was refused.\<close>

fun mdia_children :: "child_box list \<Rightarrow> demux_track \<Rightarrow> nat \<Rightarrow> bool \<times> demux_track \<times> nat" where
  "mdia_children [] track hdlr = (True, track, hdlr)"
| "mdia_children (child # cs) track hdlr =
     (if box_type child = FOURCC ''mdhd'' then
        (case parse_mdhd track (payload child) of
           (ok, t) \<Rightarrow> if \<not> ok then (False, t, hdlr) else mdia_children cs t hdlr)
      else if box_type child = FOURCC ''hdlr'' then mdia_children cs track (parse_hdlr (payload child))
      else mdia_children cs track hdlr)"

definition parse_mdia :: "demux_track \<Rightarrow> u8 list \<Rightarrow> bool \<times> demux_track" where
  "parse_mdia track mdia =
     (case boxes mdia of
        (cs, whole) \<Rightarrow>
          (case mdia_children cs track 0 of
             (ok, t, hdlr) \<Rightarrow>
               if \<not> ok \<or> \<not> whole then (False, t)
               else
                 let t1 = t\<lparr>public := (public t)\<lparr>handler := fourcc_to_string hdlr\<rparr>\<rparr>
                 in (True, case parse_container_for mdia ''minf'' of None \<Rightarrow> t1 | Some minf \<Rightarrow> parse_minf t1 hdlr minf)))"

definition parse_tkhd :: "demux_track \<Rightarrow> u8 list \<Rightarrow> nat \<times> nat \<Rightarrow> bool \<times> demux_track \<times> nat \<times> nat" where
  "parse_tkhd track body dims =
     (case run_state (do { v \<leftarrow> cursor_u8; cursor_skip 3; cursor_skip (if v = 1 then 16 else 8); i \<leftarrow> cursor_u32;
                           State_Monad.return (v, i) }) (cursor_init body) of
        ((v, i), c) \<Rightarrow>
          let t = track\<lparr>public := (public track)\<lparr>track_ident := i\<rparr>\<rparr>
          in if overrun c then (False, t, dims)
             else (case run_state (do { cursor_skip (4 + (if v = 1 then 8 else 4) + 8 + 2 + 2 + 2 + 2 + 36);
                                        w \<leftarrow> cursor_u32; h \<leftarrow> cursor_u32; State_Monad.return (w, h) }) c of
                     ((w, h), d) \<Rightarrow> (True, t, if overrun d then dims else (w div 2 ^ 16, h div 2 ^ 16))))"

text \<open>The first entry of an edit list that has a media time.\<close>

fun elst_entries :: "nat \<Rightarrow> nat \<Rightarrow> byte_cursor \<Rightarrow> int option" where
  "elst_entries v 0 c = None"
| "elst_entries v (Suc n) c =
     (case (if v = 1
            then run_state (do { cursor_skip 8; t \<leftarrow> cursor_u64; cursor_skip 4; State_Monad.return (gint64_of t) }) c
            else run_state (do { cursor_skip 4; t \<leftarrow> cursor_u32; cursor_skip 4; State_Monad.return (gint32_of t) }) c) of
        (time, d) \<Rightarrow> if overrun d then None else if time \<ge> 0 then Some time else elst_entries v n d)"

definition parse_elst :: "demux_track \<Rightarrow> u8 list \<Rightarrow> demux_track" where
  "parse_elst track body =
     (case run_state (do { v \<leftarrow> cursor_u8; cursor_skip 3; n \<leftarrow> cursor_u32; State_Monad.return (v, n) }) (cursor_init body) of
        ((v, n), c) \<Rightarrow>
          if overrun c then track
          else (case elst_entries v (min n (cursor_remaining c div (if v = 1 then 20 else 12))) c of
                  None \<Rightarrow> track
                | Some t \<Rightarrow> track\<lparr>public := (public track)\<lparr>edit_media_time := t\<rparr>\<rparr>))"

record trak_vars =
  tv_track :: demux_track
  header_size :: "nat \<times> nat"
  has_tkhd :: bool
  has_mdia :: bool

text \<open>The loop of \<^verbatim>\<open>parse_trak\<close>; the Boolean tells whether it came to the end of the children.\<close>

fun trak_children :: "child_box list \<Rightarrow> trak_vars \<Rightarrow> bool \<times> trak_vars" where
  "trak_children [] s = (True, s)"
| "trak_children (child # cs) s =
     (if box_type child = FOURCC ''tkhd'' then
        (case parse_tkhd (tv_track s) (payload child) (header_size s) of
           (ok, t, dims) \<Rightarrow>
             let s1 = s\<lparr>tv_track := t, header_size := dims\<rparr>
             in if \<not> ok then (False, s1) else trak_children cs (s1\<lparr>has_tkhd := True\<rparr>))
      else if box_type child = FOURCC ''mdia'' then
        (case parse_mdia (tv_track s) (payload child) of
           (ok, t) \<Rightarrow>
             if \<not> ok then (False, s\<lparr>tv_track := t\<rparr>) else trak_children cs (s\<lparr>tv_track := t, has_mdia := True\<rparr>))
      else if box_type child = FOURCC ''edts'' then
        trak_children cs (case parse_container_for (payload child) ''elst'' of
                            None \<Rightarrow> s | Some elst \<Rightarrow> s\<lparr>tv_track := parse_elst (tv_track s) elst\<rparr>)
      else trak_children cs s)"

definition new_demux_track :: demux_track where
  "new_demux_track =
     \<lparr>public = \<lparr>track_ident = 0, handler = fourcc_to_string 0, codec = fourcc_to_string 0, timescale = 0, width = 0,
        height = 0, channels = 0, sample_rate = 0, codec_config = None, config_obus = None, edit_media_time = -1\<rparr>,
      default_sample_duration = 0, default_sample_size = 0, default_sample_flags = 0, has_next_decode_time = False,
      next_decode_time = 0, samples = None\<rparr>"

definition parse_trak :: "u8 list \<Rightarrow> demux_track option" where
  "parse_trak trak =
     (case boxes trak of
        (cs, whole) \<Rightarrow>
          (case trak_children cs \<lparr>tv_track = new_demux_track, header_size = (0, 0), has_tkhd = False, has_mdia = False\<rparr> of
             (ended, s) \<Rightarrow>
               let p = public (tv_track s)
               in if ended \<and> \<not> whole \<or> \<not> has_tkhd s \<or> \<not> has_mdia s \<or> track_ident p = 0 \<or> timescale p = 0 then None
                  else Some ((tv_track s)\<lparr>public :=
                         p\<lparr>width := if width p = 0 then fst (header_size s) else width p,
                           height := if height p = 0 then snd (header_size s) else height p\<rparr>\<rparr>)))"

section \<open>The movie header\<close>

record track_extends =
  te_track :: nat
  te_duration :: nat
  te_size :: nat
  te_flags :: nat

fun mvex_children :: "child_box list \<Rightarrow> track_extends list \<Rightarrow> track_extends list option" where
  "mvex_children [] ex = Some ex"
| "mvex_children (child # cs) ex =
     (if box_type child \<noteq> FOURCC ''trex'' then mvex_children cs ex
      else (case run_state (do { cursor_skip 4; i \<leftarrow> cursor_u32; cursor_skip 4; d \<leftarrow> cursor_u32; z \<leftarrow> cursor_u32; f \<leftarrow> cursor_u32;
                                 State_Monad.return \<lparr>te_track = i, te_duration = d, te_size = z, te_flags = f\<rparr> })
              (cursor_init (payload child)) of
              (entry, c) \<Rightarrow>
                if overrun c then None
                else mvex_children cs (if length ex < NS_MP4_MAX_TRACKS then ex @ [entry] else ex)))"

definition parse_mvex :: "track_extends list \<Rightarrow> u8 list \<Rightarrow> track_extends list option" where
  "parse_mvex ex mvex =
     (case boxes mvex of (cs, whole) \<Rightarrow>
        (case mvex_children cs ex of None \<Rightarrow> None | Some ex' \<Rightarrow> if whole then Some ex' else None))"

text \<open>\<^verbatim>\<open>indexed_sample_cmp\<close> is the lexicographic order of these keys; \<^verbatim>\<open>g_array_sort\<close> is stable.\<close>

definition indexed_sample_key :: "indexed_sample \<Rightarrow> nat \<times> nat \<times> int" where
  "indexed_sample_key s = (ix_position s, ix_track s, ix_dts s)"

definition table_length :: "demux_track \<Rightarrow> nat" where
  "table_length t = (case samples t of None \<Rightarrow> 0 | Some l \<Rightarrow> length l)"

definition merge_sample_indexes :: "demux_track list \<Rightarrow> indexed_sample list option \<times> demux_track list" where
  "merge_sample_indexes tracks =
     (let total = sum_list (map table_length tracks) in
      if total > NS_MP4_MAX_INDEXED_SAMPLES \<or> total = 0 then (None, tracks)
      else (Some (sort_key indexed_sample_key
              (concat (map (\<lambda>t. case samples t of None \<Rightarrow> []
                 | Some l \<Rightarrow> map (\<lambda>s. s\<lparr>ix_track := track_ident (public t)\<rparr>) l) tracks))),
            map (\<lambda>t. t\<lparr>samples := None\<rparr>) tracks))"

definition claim_index_budget ::
  "demux_track list \<Rightarrow> demux_track \<Rightarrow> nat \<Rightarrow> demux_track list \<times> demux_track \<times> nat" where
  "claim_index_budget tracks track indexed =
     (case samples track of
        None \<Rightarrow> (tracks, track, indexed)
      | Some l \<Rightarrow>
          if indexed \<le> NS_MP4_MAX_INDEXED_SAMPLES \<and> length l \<le> NS_MP4_MAX_INDEXED_SAMPLES - indexed
          then (tracks, track, indexed + length l)
          else (map (\<lambda>t. t\<lparr>samples := None\<rparr>) tracks, track\<lparr>samples := None\<rparr>, NS_MP4_MAX_INDEXED_SAMPLES + 1))"

fun moov_children ::
  "child_box list \<Rightarrow> demux_track list \<Rightarrow> track_extends list \<Rightarrow> nat \<Rightarrow> (demux_track list \<times> track_extends list) option" where
  "moov_children [] tracks ex indexed = Some (tracks, ex)"
| "moov_children (child # cs) tracks ex indexed =
     (if box_type child = FOURCC ''trak'' then
        (case (if length tracks < NS_MP4_MAX_TRACKS then parse_trak (payload child) else None) of
           None \<Rightarrow> None
         | Some track \<Rightarrow>
             if mp4_find_track tracks (track_ident (public track)) \<noteq> None then None
             else (case claim_index_budget tracks track indexed of
                     (tracks', track', indexed') \<Rightarrow> moov_children cs (tracks' @ [track']) ex indexed'))
      else if box_type child = FOURCC ''mvex'' then
        (case parse_mvex ex (payload child) of None \<Rightarrow> None | Some ex' \<Rightarrow> moov_children cs tracks ex' indexed)
      else moov_children cs tracks ex indexed)"

text \<open>\<open>find_track\<close> and the assignments behind the pointer it returns: the first track with the id.\<close>

fun update_track :: "nat \<Rightarrow> (demux_track \<Rightarrow> demux_track) \<Rightarrow> demux_track list \<Rightarrow> demux_track list" where
  "update_track ident f [] = []"
| "update_track ident f (t # ts) =
     (if track_ident (public t) = ident then f t # ts else t # update_track ident f ts)"

definition apply_extends :: "track_extends \<Rightarrow> demux_track list \<Rightarrow> demux_track list" where
  "apply_extends e =
     update_track (te_track e) (\<lambda>t. t\<lparr>default_sample_duration := te_duration e, default_sample_size := te_size e,
       default_sample_flags := te_flags e\<rparr>)"

section \<open>The demuxer\<close>

datatype parse_state = PARSE_BOX_HEADER | PARSE_SKIP | PARSE_MDAT | PARSE_ERROR

record pending_sample =
  pd_track :: nat
  pd_dts :: int
  pd_pts :: int
  pd_duration :: nat
  pd_keyframe :: bool
  pd_position :: nat
  pd_size :: nat

record ns_mp4_demuxer =
  mp_input :: "u8 list"
  input_position :: nat
  mp_state :: parse_state
  mp_skip :: nat
  skip_forever :: bool
  mdat_payload_position :: nat
  mdat_payload_length :: nat
  mdat_unbounded :: bool
  mp_tracks :: "demux_track list"
  mp_has_init :: bool
  pending :: "pending_sample list"
  pending_head :: nat
  mp_ready :: "ns_mp4_sample list"
  sample_index :: "indexed_sample list option"

definition parse_moov :: "ns_mp4_demuxer \<Rightarrow> u8 list \<Rightarrow> ns_mp4_demuxer option" where
  "parse_moov d body =
     (case boxes body of (cs, whole) \<Rightarrow>
        (case moov_children cs [] [] 0 of
           None \<Rightarrow> None
         | Some (tracks0, ex) \<Rightarrow>
             if \<not> whole \<or> tracks0 = [] then None
             else
               let tracks1 = fold apply_extends ex tracks0;
                   (index, tracks2) = merge_sample_indexes tracks1
               in Some (d\<lparr>sample_index := index, mp_tracks := tracks2, mp_has_init := True\<rparr>)))"

definition checked_position :: "nat \<Rightarrow> int \<Rightarrow> nat option" where
  "checked_position base offset =
     (if base \<ge> NS_MP4_MAX_STREAM_POSITION then None
      else if offset < 0 \<and> nat (- offset) > base then None
      else
        let position = (if offset < 0 then base - nat (- offset) else base + nat offset)
        in if position \<ge> NS_MP4_MAX_STREAM_POSITION then None else Some position)"

section \<open>Fragments\<close>

record fragment_run_context =
  rc_track :: "demux_track option"
  base_data_offset :: nat
  default_duration :: nat
  default_size :: nat
  default_flags :: nat
  decode_time :: int
  next_data_position :: nat
  seen_trun :: bool

text \<open>
  The loop of \<^verbatim>\<open>parse_trun\<close>: \<open>n\<close> samples are to come, the next one is at \<open>pos\<close>; the result is false at
  the first sample that cannot be, with the samples queued so far.
\<close>

fun trun_samples ::
  "nat \<Rightarrow> nat \<Rightarrow> nat option \<Rightarrow> nat \<Rightarrow> nat \<Rightarrow> byte_cursor \<Rightarrow> fragment_run_context \<Rightarrow> pending_sample list \<Rightarrow>
   bool \<times> fragment_run_context \<times> pending_sample list" where
  "trun_samples version flags first_flags 0 pos c run pend = (True, run\<lparr>next_data_position := pos\<rparr>, pend)"
| "trun_samples version flags first_flags (Suc n) pos c run pend =
     (case run_state
        (do { dur \<leftarrow> read_if (flags div 0x100 mod 2 = 1) cursor_u32 (default_duration run);
              sz \<leftarrow> read_if (flags div 0x200 mod 2 = 1) cursor_u32 (default_size run);
              sflags \<leftarrow> read_if (flags div 0x400 mod 2 = 1) cursor_u32 (default_flags run);
              raw \<leftarrow> read_if (flags div 0x800 mod 2 = 1) cursor_u32 0;
              State_Monad.return (dur, sz, sflags, raw) }) c of
        ((dur, sz, sflags, raw), d) \<Rightarrow>
          let sflags1 = (case first_flags of None \<Rightarrow> sflags | Some f \<Rightarrow> f);
              off = (if flags div 0x800 mod 2 = 1 then if version = 0 then int raw else gint32_of raw else 0)
          in if overrun d then (False, run, pend)
             else if pos + sz \<ge> NS_MP4_MAX_STREAM_POSITION then (False, run, pend)
             else if decode_time run > NS_MP4_MAX_TIMESTAMP \<or> decode_time run < - NS_MP4_MAX_TIMESTAMP then (False, run, pend)
             else
               let pend' = (case rc_track run of
                              None \<Rightarrow> pend
                            | Some t \<Rightarrow> pend @ [\<lparr>pd_track = track_ident (public t), pd_dts = decode_time run,
                                pd_pts = decode_time run + off, pd_duration = dur,
                                pd_keyframe = sample_flags_mean_sync sflags1, pd_position = pos, pd_size = sz\<rparr>])
               in trun_samples version flags None n (pos + sz) d (run\<lparr>decode_time := decode_time run + int dur\<rparr>) pend')"

definition parse_trun ::
  "nat \<Rightarrow> fragment_run_context \<Rightarrow> u8 list \<Rightarrow> pending_sample list \<Rightarrow> bool \<times> fragment_run_context \<times> pending_sample list" where
  "parse_trun head run body pend =
     (case run_state
        (do { version \<leftarrow> cursor_u8; flags \<leftarrow> cursor_u24; n \<leftarrow> cursor_u32;
              off \<leftarrow> read_if (flags mod 2 = 1) cursor_u32 0;
              first \<leftarrow> read_if (flags div 4 mod 2 = 1) cursor_u32 0;
              State_Monad.return (version, flags, n, off, first) }) (cursor_init body) of
        ((version, flags, n, off, first), c) \<Rightarrow>
          let per_sample = (if flags div 0x100 mod 2 = 1 then 4 else 0) + (if flags div 0x200 mod 2 = 1 then 4 else 0) +
                (if flags div 0x400 mod 2 = 1 then 4 else 0) + (if flags div 0x800 mod 2 = 1 then 4 else 0);
              first_flags = (if flags div 4 mod 2 = 1 then Some first else None)
          in if overrun c then (False, run, pend)
             else if per_sample > 0 \<and> n > cursor_remaining c div per_sample then (False, run, pend)
             else if n > NS_MP4_MAX_PENDING_SAMPLES - (length pend - head) then (False, run, pend)
             else (case (if flags mod 2 = 1 then checked_position (base_data_offset run) (gint32_of off)
                         else Some (if seen_trun run then next_data_position run else base_data_offset run)) of
                     None \<Rightarrow> (False, run, pend)
                   | Some pos \<Rightarrow>
                       let run1 = run\<lparr>seen_trun := True\<rparr>
                       in if rc_track run = None \<and> per_sample = 0 then
                            (let span = n * default_size run; elapsed = int (n * default_duration run)
                             in if pos + span \<ge> NS_MP4_MAX_STREAM_POSITION \<or> decode_time run + elapsed > NS_MP4_MAX_TIMESTAMP \<or>
                                   decode_time run < - NS_MP4_MAX_TIMESTAMP
                                then (False, run1, pend)
                                else (True, run1\<lparr>decode_time := decode_time run + elapsed, next_data_position := pos + span\<rparr>, pend))
                          else trun_samples version flags first_flags n pos c run1 pend))"

fun traf_children ::
  "nat \<Rightarrow> child_box list \<Rightarrow> fragment_run_context \<Rightarrow> pending_sample list \<Rightarrow>
   bool \<times> fragment_run_context \<times> pending_sample list" where
  "traf_children head [] run pend = (True, run, pend)"
| "traf_children head (child # cs) run pend =
     (if box_type child = FOURCC ''trun'' then
        (case parse_trun head run (payload child) pend of
           (ok, run', pend') \<Rightarrow> if \<not> ok then (False, run', pend') else traf_children head cs run' pend')
      else traf_children head cs run pend)"

text \<open>The context a track fragment starts its runs with: its header, the track's defaults, the start time.\<close>

definition traf_header :: "demux_track list \<Rightarrow> u8 list \<Rightarrow> nat \<Rightarrow> bool \<Rightarrow> nat \<Rightarrow> fragment_run_context option" where
  "traf_header tracks tfhd moof_position first_traf previous_end =
     (case run_state
        (do { cursor_skip 1; flags \<leftarrow> cursor_u24; i \<leftarrow> cursor_u32; base \<leftarrow> read_if (flags mod 2 = 1) cursor_u64 0;
              (if flags div 2 mod 2 = 1 then cursor_skip 4 else State_Monad.return True);
              State_Monad.return (flags, i, base) }) (cursor_init tfhd) of
        ((flags, i, base), c) \<Rightarrow>
          let track = mp4_find_track tracks i;
              (dd, ds, df) = (case track of None \<Rightarrow> (0, 0, 0)
                | Some t \<Rightarrow> (default_sample_duration t, default_sample_size t, default_sample_flags t))
          in (case run_state
                (do { d \<leftarrow> read_if (flags div 8 mod 2 = 1) cursor_u32 dd;
                      s \<leftarrow> read_if (flags div 0x10 mod 2 = 1) cursor_u32 ds;
                      f \<leftarrow> read_if (flags div 0x20 mod 2 = 1) cursor_u32 df;
                      State_Monad.return (d, s, f) }) c of
                ((d, s, f), c2) \<Rightarrow>
                  let start = (if flags mod 2 = 1 then base
                               else if flags div 0x20000 mod 2 = 1 \<or> first_traf then moof_position else previous_end)
                  in if overrun c2 then None
                     else if start \<ge> NS_MP4_MAX_STREAM_POSITION then None
                     else Some \<lparr>rc_track = track, base_data_offset = start, default_duration = d, default_size = s,
                            default_flags = f,
                            decode_time = (case track of None \<Rightarrow> 0
                              | Some t \<Rightarrow> if has_next_decode_time t then next_decode_time t else 0),
                            next_data_position = start, seen_trun = False\<rparr>))"

definition traf_time :: "u8 list \<Rightarrow> int option" where
  "traf_time body =
     (case run_state (do { v \<leftarrow> cursor_u8; cursor_skip 3; (if v = 1 then cursor_u64 else cursor_u32) }) (cursor_init body) of
        (t, c) \<Rightarrow> if overrun c \<or> int t > NS_MP4_MAX_TIMESTAMP then None else Some (int t))"

record fragment_state =
  fs_tracks :: "demux_track list"
  fs_pending :: "pending_sample list"
  previous_traf_data_end :: nat

definition parse_traf :: "nat \<Rightarrow> u8 list \<Rightarrow> nat \<Rightarrow> bool \<Rightarrow> fragment_state \<Rightarrow> bool \<times> fragment_state" where
  "parse_traf head traf moof_position first_traf s =
     (case parse_container_for traf ''tfhd'' of
        None \<Rightarrow> (False, s)
      | Some tfhd \<Rightarrow>
          (case traf_header (fs_tracks s) tfhd moof_position first_traf (previous_traf_data_end s) of
             None \<Rightarrow> (False, s)
           | Some run0 \<Rightarrow>
               (case (case parse_container_for traf ''tfdt'' of None \<Rightarrow> Some (decode_time run0) | Some b \<Rightarrow> traf_time b) of
                  None \<Rightarrow> (False, s)
                | Some t0 \<Rightarrow>
                    (case boxes traf of (cs, whole) \<Rightarrow>
                       (case traf_children head cs (run0\<lparr>decode_time := t0\<rparr>) (fs_pending s) of
                          (ok, run, pend) \<Rightarrow>
                            if \<not> ok \<or> \<not> whole then (False, s\<lparr>fs_pending := pend\<rparr>)
                            else (True, s\<lparr>fs_pending := pend, previous_traf_data_end := next_data_position run,
                                   fs_tracks := (case rc_track run of
                                      None \<Rightarrow> fs_tracks s
                                    | Some t \<Rightarrow> update_track (track_ident (public t))
                                        (\<lambda>x. x\<lparr>has_next_decode_time := True, next_decode_time := decode_time run\<rparr>) (fs_tracks s))\<rparr>))))))"

fun moof_children :: "nat \<Rightarrow> child_box list \<Rightarrow> nat \<Rightarrow> bool \<Rightarrow> fragment_state \<Rightarrow> bool \<times> fragment_state" where
  "moof_children head [] moof_position first_traf s = (True, s)"
| "moof_children head (child # cs) moof_position first_traf s =
     (if box_type child \<noteq> FOURCC ''traf'' then moof_children head cs moof_position first_traf s
      else (case parse_traf head (payload child) moof_position first_traf s of
              (ok, s') \<Rightarrow> if \<not> ok then (False, s') else moof_children head cs moof_position False s'))"

definition parse_moof :: "ns_mp4_demuxer \<Rightarrow> u8 list \<Rightarrow> nat \<Rightarrow> bool \<times> ns_mp4_demuxer" where
  "parse_moof d body moof_position =
     (if \<not> mp_has_init d then (False, d)
      else
        (case boxes body of (cs, whole) \<Rightarrow>
           (case moof_children (pending_head d) cs moof_position True
                   \<lparr>fs_tracks = mp_tracks d, fs_pending = pending d, previous_traf_data_end = moof_position\<rparr> of
              (ok, s) \<Rightarrow>
                if \<not> ok \<or> \<not> whole
                then (False, d\<lparr>mp_tracks := fs_tracks s, pending := take (length (pending d)) (fs_pending s)\<rparr>)
                else (True, d\<lparr>mp_tracks := fs_tracks s, pending := fs_pending s\<rparr>))))"

section \<open>The state machine\<close>

definition drop_input :: "nat \<Rightarrow> ns_mp4_demuxer \<Rightarrow> ns_mp4_demuxer" where
  "drop_input count d =
     (let n = min count (length (mp_input d))
      in d\<lparr>mp_input := drop n (mp_input d), input_position := input_position d + n\<rparr>)"

definition compact_pending :: "ns_mp4_demuxer \<Rightarrow> ns_mp4_demuxer" where
  "compact_pending d = d\<lparr>pending := drop (pending_head d) (pending d), pending_head := 0\<rparr>"

definition emit_sample :: "pending_sample \<Rightarrow> ns_mp4_demuxer \<Rightarrow> ns_mp4_demuxer" where
  "emit_sample p d =
     d\<lparr>mp_ready := mp_ready d @ [\<lparr>smp_track = pd_track p, dts = pd_dts p, pts = pd_pts p, duration = pd_duration p,
         keyframe = pd_keyframe p, smp_data = take (pd_size p) (drop (pd_position p - input_position d) (mp_input d))\<rparr>]\<rparr>"

definition sample_fits_in_mdat :: "ns_mp4_demuxer \<Rightarrow> pending_sample \<Rightarrow> bool" where
  "sample_fits_in_mdat d p =
     (if pd_position p < mdat_payload_position d then False
      else if mdat_unbounded d then True
      else
        let relative = pd_position p - mdat_payload_position d
        in relative \<le> mdat_payload_length d \<and> pd_size p \<le> mdat_payload_length d - relative)"

function emit_available_mdat_samples :: "ns_mp4_demuxer \<Rightarrow> ns_mp4_demuxer" where
  "emit_available_mdat_samples d =
     (if pending_head d < length (pending d) then
        (let p = pending d ! pending_head d in
         if \<not> sample_fits_in_mdat d p then d
         else if pd_position p + pd_size p > input_position d + length (mp_input d) then d
         else emit_available_mdat_samples ((emit_sample p d)\<lparr>pending_head := pending_head d + 1\<rparr>))
      else d)"
  by pat_completeness auto
termination
  by (relation "measure (\<lambda>d. length (pending d) - pending_head d)") (auto simp: emit_sample_def)

declare emit_available_mdat_samples.simps [simp del]

fun finish_loop :: "nat \<Rightarrow> pending_sample list \<Rightarrow> pending_sample list \<Rightarrow> ns_mp4_demuxer \<Rightarrow> bool \<times> pending_sample list \<times> ns_mp4_demuxer" where
  "finish_loop mdat_end [] remaining d = (True, remaining, d)"
| "finish_loop mdat_end (p # ps) remaining d =
     (if sample_fits_in_mdat d p then finish_loop mdat_end ps remaining (emit_sample p d)
      else if pd_position p \<ge> mdat_end then finish_loop mdat_end ps (remaining @ [p]) d
      else (False, remaining, d))"

definition finish_mdat :: "ns_mp4_demuxer \<Rightarrow> bool \<times> ns_mp4_demuxer" where
  "finish_mdat d =
     (case finish_loop (mdat_payload_position d + mdat_payload_length d) (drop (pending_head d) (pending d)) [] d of
        (ok, remaining, d1) \<Rightarrow>
          (ok, (drop_input (mdat_payload_length d1) (d1\<lparr>pending := if ok then remaining else [], pending_head := 0\<rparr>))
                 \<lparr>mp_state := PARSE_BOX_HEADER\<rparr>))"

definition mp4_enter_skip :: "nat \<Rightarrow> bool \<Rightarrow> ns_mp4_demuxer \<Rightarrow> ns_mp4_demuxer" where
  "mp4_enter_skip n forever d = d\<lparr>mp_state := PARSE_SKIP, mp_skip := n, skip_forever := forever\<rparr>"

definition process_mdat :: "ns_mp4_demuxer \<Rightarrow> bool \<times> ns_mp4_demuxer" where
  "process_mdat d0 =
     (let d = emit_available_mdat_samples d0 in
      if \<not> mdat_unbounded d \<and> length (mp_input d) \<ge> mdat_payload_length d then finish_mdat d
      else if pending_head d \<ge> length (pending d) then
        (let left = (if mdat_unbounded d then 0 else mdat_payload_length d - length (mp_input d))
         in (True, mp4_enter_skip left (mdat_unbounded d) (drop_input (length (mp_input d)) (compact_pending d))))
      else
        let d1 = (if pending_head d > 1024 \<and> pending_head d * 2 > length (pending d) then compact_pending d else d)
        in (length (mp_input d1) \<le> NS_MP4_MAX_MDAT_BUFFER_BYTES, d1))"

datatype round_result = Rd_Fail ns_mp4_demuxer | Rd_Wait ns_mp4_demuxer | Rd_Next ns_mp4_demuxer

definition process_top_level_box :: "ns_mp4_demuxer \<Rightarrow> round_result" where
  "process_top_level_box d =
     (case peek_top_level_box (mp_input d) of
        PEEK_NEED_MORE \<Rightarrow> Rd_Wait d
      | PEEK_INVALID \<Rightarrow> Rd_Fail d
      | PEEK_COMPLETE ty total_size header_length extends_to_end \<Rightarrow>
          if ty = FOURCC ''mdat'' then
            (let payload_length = (if extends_to_end then 0 else total_size - header_length);
                 d1 = drop_input header_length d
             in if pending_head d1 \<ge> length (pending d1)
                then Rd_Next (mp4_enter_skip payload_length extends_to_end (compact_pending d1))
                else if \<not> extends_to_end \<and> payload_length > NS_MP4_MAX_MDAT_BUFFER_BYTES then Rd_Fail d1
                else Rd_Next (d1\<lparr>mp_state := PARSE_MDAT, mdat_payload_position := input_position d1,
                       mdat_payload_length := payload_length, mdat_unbounded := extends_to_end\<rparr>))
          else if ty = FOURCC ''moov'' \<or> ty = FOURCC ''moof'' then
            (if extends_to_end \<or> total_size > NS_MP4_MAX_HEADER_BOX_BYTES then Rd_Fail d
             else if length (mp_input d) < total_size then Rd_Wait d
             else
               let body = take (total_size - header_length) (drop header_length (mp_input d));
                   (ok, d1) = (if ty = FOURCC ''moov''
                               then (case parse_moov d body of None \<Rightarrow> (False, d) | Some d' \<Rightarrow> (True, d'))
                               else parse_moof d body (input_position d));
                   d2 = drop_input total_size d1
               in if ok then Rd_Next d2 else Rd_Fail d2)
          else if extends_to_end then Rd_Next (mp4_enter_skip 0 True (drop_input (length (mp_input d)) d))
          else Rd_Next (mp4_enter_skip total_size False d))"

text \<open>One turn of the loop of \<^verbatim>\<open>process_input\<close>.\<close>

definition mp4_round :: "ns_mp4_demuxer \<Rightarrow> round_result" where
  "mp4_round d =
     (case mp_state d of
        PARSE_ERROR \<Rightarrow> Rd_Fail d
      | PARSE_SKIP \<Rightarrow>
          if skip_forever d then Rd_Wait (drop_input (length (mp_input d)) d)
          else
            let count = min (mp_skip d) (length (mp_input d));
                d1 = (drop_input count d)\<lparr>mp_skip := mp_skip d - count\<rparr>
            in if mp_skip d1 > 0 then Rd_Wait d1 else Rd_Next (d1\<lparr>mp_state := PARSE_BOX_HEADER\<rparr>)
      | PARSE_MDAT \<Rightarrow>
          (case process_mdat d of
             (ok, d1) \<Rightarrow> if \<not> ok then Rd_Fail d1 else if mp_state d1 = PARSE_MDAT then Rd_Wait d1 else Rd_Next d1)
      | PARSE_BOX_HEADER \<Rightarrow> process_top_level_box d)"

section \<open>Termination\<close>

lemma peek_header:
  assumes "peek_top_level_box data = PEEK_COMPLETE ty tot hl e"
  shows "8 \<le> hl \<and> hl \<le> length data \<and> (\<not> e \<longrightarrow> hl \<le> tot) \<and> tot < NS_MP4_MAX_STREAM_POSITION"
proof -
  have len: "\<not> length data < 8" using assms by (auto simp: peek_top_level_box_def)
  define r where "r = run_state (do { s \<leftarrow> cursor_u32; t \<leftarrow> cursor_u32; State_Monad.return (s, t) }) (cursor_init data)"
  obtain size0 t h0 where r: "r = ((size0, t), h0)" by (metis surj_pair)
  have h0: "h0 = \<lparr>cur_data = drop 8 data, overrun = False\<rparr>"
    using r len unfolding r_def
    by (simp add: cursor_reads cursor_remaining_def State_Monad.return_def cursor_init_def split: prod.splits if_splits)
  define s1 where "s1 = (if size0 = 1 then run_state cursor_u64 h0 else (size0, h0))"
  obtain size h1 where s1: "s1 = (size, h1)" by (metis surj_pair)
  define h2 where "h2 = (if t = FOURCC ''uuid'' then snd (run_state (cursor_skip 16) h1) else h1)"
  let ?hl = "length data - length (cur_data h2)"
  have eq: "peek_top_level_box data =
    (if size0 = 1 \<and> length (cur_data h0) < 8 then PEEK_NEED_MORE
     else if t = FOURCC ''uuid'' \<and> length (cur_data h1) < 16 then PEEK_NEED_MORE
     else if \<not> (size0 = 0) \<and> size < ?hl then PEEK_INVALID
     else if size \<ge> NS_MP4_MAX_STREAM_POSITION then PEEK_INVALID
     else PEEK_COMPLETE t size ?hl (size0 = 0))"
    unfolding peek_top_level_box_def Let_def r_def [symmetric] r prod.case s1_def [symmetric] s1 h2_def [symmetric]
    using len by simp
  have "length (cur_data h1) \<le> length data - 8"
    using s1 unfolding s1_def h0 by (auto simp: cursor_reads split: if_splits)
  then have "length (cur_data h2) \<le> length data - 8"
    unfolding h2_def using reads_shorter(2) [of 16 h1] by (auto simp del: run_cursor)
  with assms eq len show ?thesis by (auto split: if_splits)
qed

lemma emit_sample_fields [simp]:
  "mp_input (emit_sample p d) = mp_input d" "mp_state (emit_sample p d) = mp_state d"
  "pending (emit_sample p d) = pending d" "pending_head (emit_sample p d) = pending_head d"
  "input_position (emit_sample p d) = input_position d" "mdat_unbounded (emit_sample p d) = mdat_unbounded d"
  "mdat_payload_position (emit_sample p d) = mdat_payload_position d"
  "mdat_payload_length (emit_sample p d) = mdat_payload_length d" "mp_tracks (emit_sample p d) = mp_tracks d"
  "mp_has_init (emit_sample p d) = mp_has_init d" "sample_index (emit_sample p d) = sample_index d"
  "mp_skip (emit_sample p d) = mp_skip d" "skip_forever (emit_sample p d) = skip_forever d"
  by (simp_all add: emit_sample_def)

lemma drop_input_fields [simp]:
  "mp_input (drop_input n d) = drop n (mp_input d)" "mp_state (drop_input n d) = mp_state d"
  "pending (drop_input n d) = pending d" "pending_head (drop_input n d) = pending_head d"
  "mp_skip (drop_input n d) = mp_skip d" "skip_forever (drop_input n d) = skip_forever d"
  "mp_ready (drop_input n d) = mp_ready d" "mp_tracks (drop_input n d) = mp_tracks d"
  "mp_has_init (drop_input n d) = mp_has_init d" "sample_index (drop_input n d) = sample_index d"
  "mdat_unbounded (drop_input n d) = mdat_unbounded d"
  "mdat_payload_position (drop_input n d) = mdat_payload_position d"
  "mdat_payload_length (drop_input n d) = mdat_payload_length d"
  "input_position (drop_input n d) = input_position d + min n (length (mp_input d))"
  by (simp_all add: drop_input_def Let_def min_def)

lemma compact_pending_fields [simp]:
  "mp_input (compact_pending d) = mp_input d" "mp_state (compact_pending d) = mp_state d"
  "input_position (compact_pending d) = input_position d" "mp_ready (compact_pending d) = mp_ready d"
  "pending_head (compact_pending d) = 0" "pending (compact_pending d) = drop (pending_head d) (pending d)"
  "mdat_unbounded (compact_pending d) = mdat_unbounded d"
  "mdat_payload_position (compact_pending d) = mdat_payload_position d"
  "mdat_payload_length (compact_pending d) = mdat_payload_length d"
  "mp_tracks (compact_pending d) = mp_tracks d" "mp_has_init (compact_pending d) = mp_has_init d"
  "sample_index (compact_pending d) = sample_index d"
  by (simp_all add: compact_pending_def)

lemma enter_skip_mp4 [simp]:
  "mp_input (mp4_enter_skip n f d) = mp_input d" "mp_state (mp4_enter_skip n f d) = PARSE_SKIP"
  "mp_skip (mp4_enter_skip n f d) = n" "skip_forever (mp4_enter_skip n f d) = f"
  "input_position (mp4_enter_skip n f d) = input_position d" "pending (mp4_enter_skip n f d) = pending d"
  "pending_head (mp4_enter_skip n f d) = pending_head d" "mp_ready (mp4_enter_skip n f d) = mp_ready d"
  "mp_tracks (mp4_enter_skip n f d) = mp_tracks d" "mp_has_init (mp4_enter_skip n f d) = mp_has_init d"
  "sample_index (mp4_enter_skip n f d) = sample_index d"
  by (simp_all add: mp4_enter_skip_def)

lemma emit_available_frame:
  "\<exists>r h. emit_available_mdat_samples d = d\<lparr>mp_ready := r, pending_head := h\<rparr>"
proof (induction d rule: emit_available_mdat_samples.induct)
  case (1 d)
  show ?case
  proof (cases "pending_head d < length (pending d) \<and> sample_fits_in_mdat d (pending d ! pending_head d) \<and>
     \<not> pd_position (pending d ! pending_head d) + pd_size (pending d ! pending_head d) > input_position d + length (mp_input d)")
    case True
    let ?d = "(emit_sample (pending d ! pending_head d) d)\<lparr>pending_head := pending_head d + 1\<rparr>"
    have e: "emit_available_mdat_samples d = emit_available_mdat_samples ?d"
      using True by (subst emit_available_mdat_samples.simps) (simp add: Let_def)
    from 1 True obtain r h where "emit_available_mdat_samples ?d = ?d\<lparr>mp_ready := r, pending_head := h\<rparr>" by auto
    then have "emit_available_mdat_samples d = d\<lparr>mp_ready := r, pending_head := h\<rparr>"
      unfolding e by (simp add: emit_sample_def)
    then show ?thesis by blast
  next
    case False
    then have "emit_available_mdat_samples d = d\<lparr>mp_ready := mp_ready d, pending_head := pending_head d\<rparr>"
      by (subst emit_available_mdat_samples.simps) (auto simp: Let_def)
    then show ?thesis by blast
  qed
qed

lemma emit_available_fields [simp]:
  "mp_input (emit_available_mdat_samples d) = mp_input d" "mp_state (emit_available_mdat_samples d) = mp_state d"
  "input_position (emit_available_mdat_samples d) = input_position d"
  "pending (emit_available_mdat_samples d) = pending d"
  "mdat_unbounded (emit_available_mdat_samples d) = mdat_unbounded d"
  "mdat_payload_length (emit_available_mdat_samples d) = mdat_payload_length d"
  "mdat_payload_position (emit_available_mdat_samples d) = mdat_payload_position d"
  using emit_available_frame [of d] by auto

lemma finish_loop_frame: "finish_loop e ps rem d = (ok, rem', d') \<Longrightarrow> \<exists>r. d' = d\<lparr>mp_ready := r\<rparr>"
proof (induction ps arbitrary: rem d)
  case Nil
  then show ?case by (auto intro: exI [of _ "mp_ready d"])
next
  case (Cons p ps)
  show ?case
  proof (cases "sample_fits_in_mdat d p")
    case True
    with Cons obtain r where "d' = (emit_sample p d)\<lparr>mp_ready := r\<rparr>" by fastforce
    then show ?thesis by (auto simp: emit_sample_def)
  next
    case False
    then show ?thesis using Cons by (auto split: if_splits intro: exI [of _ "mp_ready d"])
  qed
qed

lemma finish_mdat_fields:
  assumes "finish_mdat d = (ok, d')"
  shows "mp_input d' = drop (mdat_payload_length d) (mp_input d)" "mp_state d' = PARSE_BOX_HEADER"
proof -
  obtain ok1 rem d1 where f: "finish_loop (mdat_payload_position d + mdat_payload_length d)
      (drop (pending_head d) (pending d)) [] d = (ok1, rem, d1)" by (metis surj_pair)
  from finish_loop_frame [OF f] obtain r where "d1 = d\<lparr>mp_ready := r\<rparr>" by blast
  with assms f show "mp_input d' = drop (mdat_payload_length d) (mp_input d)" "mp_state d' = PARSE_BOX_HEADER"
    by (auto simp: finish_mdat_def drop_input_def Let_def min_def)
qed

lemma parse_moov_fields: "parse_moov d body = Some d' \<Longrightarrow> mp_input d' = mp_input d \<and> mp_state d' = mp_state d"
  by (auto simp: parse_moov_def Let_def split: prod.splits option.splits if_splits)

lemma parse_moof_fields: "parse_moof d body pos = (ok, d') \<Longrightarrow> mp_input d' = mp_input d \<and> mp_state d' = mp_state d"
  by (auto simp: parse_moof_def split: prod.splits if_splits)

text \<open>What is left to do: bytes, and whether a turn without any can still follow.\<close>

definition mp4_work :: "ns_mp4_demuxer \<Rightarrow> nat" where
  "mp4_work d = 3 * length (mp_input d) +
     (case mp_state d of PARSE_BOX_HEADER \<Rightarrow> 1 | PARSE_SKIP \<Rightarrow> if skip_forever d \<or> mp_skip d > 0 then 0 else 2
      | PARSE_MDAT \<Rightarrow> 2 | PARSE_ERROR \<Rightarrow> 0)"

lemma top_level_work:
  assumes "process_top_level_box d = Rd_Next d'" "mp_state d = PARSE_BOX_HEADER"
  shows "mp4_work d' < mp4_work d"
proof -
  from assms(1) obtain ty tot hl e where p: "peek_top_level_box (mp_input d) = PEEK_COMPLETE ty tot hl e"
    by (cases "peek_top_level_box (mp_input d)") (auto simp: process_top_level_box_def)
  note b = peek_header [OF p]
  consider (mdat) "ty = FOURCC ''mdat''" | (hdr) "ty \<noteq> FOURCC ''mdat''" "ty = FOURCC ''moov'' \<or> ty = FOURCC ''moof''"
    | (other) "ty \<noteq> FOURCC ''mdat''" "\<not> (ty = FOURCC ''moov'' \<or> ty = FOURCC ''moof'')" by blast
  then show ?thesis
  proof cases
    case mdat
    have "length (mp_input d') = length (mp_input d) - hl"
      using assms(1) p mdat by (auto simp: process_top_level_box_def Let_def split: if_splits)
    then have "3 * length (mp_input d') + 24 \<le> 3 * length (mp_input d)" using b by linarith
    then show ?thesis using assms(2) by (auto simp: mp4_work_def split: parse_state.split)
  next
    case hdr
    have sz: "\<not> (e \<or> tot > NS_MP4_MAX_HEADER_BOX_BYTES)" "\<not> length (mp_input d) < tot"
      using assms(1) p hdr by (auto simp: process_top_level_box_def split: if_splits)
    then have "mp_input d' = drop tot (mp_input d) \<and> mp_state d' = mp_state d"
      using assms(1) p hdr unfolding process_top_level_box_def
      by (auto simp: Let_def dest: parse_moov_fields parse_moof_fields split: if_splits option.splits prod.splits)
    then show ?thesis using b sz assms(2) by (simp add: mp4_work_def) linarith
  next
    case other
    then show ?thesis using assms p b
      by (auto simp: process_top_level_box_def mp4_work_def split: if_splits)
  qed
qed

lemma mp4_round_work:
  assumes "mp4_round d = Rd_Next d'"
  shows "mp4_work d' < mp4_work d"
proof (cases "mp_state d")
  case PARSE_BOX_HEADER
  then show ?thesis using assms top_level_work by (simp add: mp4_round_def)
next
  case PARSE_SKIP
  then show ?thesis using assms
    by (auto simp: mp4_round_def mp4_work_def Let_def min_def split: if_splits)
next
  case PARSE_MDAT
  let ?e = "emit_available_mdat_samples d"
  obtain ok where p: "process_mdat d = (ok, d')" "ok" "mp_state d' \<noteq> PARSE_MDAT"
    using assms PARSE_MDAT by (auto simp: mp4_round_def split: prod.splits if_splits)
  show ?thesis
  proof (cases "\<not> mdat_unbounded ?e \<and> length (mp_input ?e) \<ge> mdat_payload_length ?e")
    case True
    with p have "finish_mdat ?e = (ok, d')" by (simp add: process_mdat_def Let_def)
    from finish_mdat_fields [OF this] show ?thesis using PARSE_MDAT by (simp add: mp4_work_def)
  next
    case False
    then show ?thesis using p PARSE_MDAT
      by (auto simp: process_mdat_def Let_def mp4_work_def split: if_splits)
  qed
qed (use assms in \<open>simp add: mp4_round_def\<close>)

section \<open>Feeding the demuxer\<close>

function mp4_process_input :: "ns_mp4_demuxer \<Rightarrow> bool \<times> ns_mp4_demuxer" where
  "mp4_process_input d =
     (case mp4_round d of
        Rd_Fail d' \<Rightarrow> (False, d')
      | Rd_Wait d' \<Rightarrow> (True, d')
      | Rd_Next d' \<Rightarrow> mp4_process_input d')"
  by pat_completeness auto
termination by (relation "measure mp4_work") (auto dest: mp4_round_work)

declare mp4_process_input.simps [simp del]

definition mp4_clear_parser_state :: "ns_mp4_demuxer \<Rightarrow> ns_mp4_demuxer" where
  "mp4_clear_parser_state d =
     d\<lparr>mp_input := [], input_position := 0, mp_state := PARSE_BOX_HEADER, mp_skip := 0, skip_forever := False,
       mdat_payload_position := 0, mdat_payload_length := 0, mdat_unbounded := False, pending := [], pending_head := 0\<rparr>"

definition ns_mp4_demuxer_new :: ns_mp4_demuxer where
  "ns_mp4_demuxer_new =
     \<lparr>mp_input = [], input_position = 0, mp_state = PARSE_BOX_HEADER, mp_skip = 0, skip_forever = False,
      mdat_payload_position = 0, mdat_payload_length = 0, mdat_unbounded = False, mp_tracks = [], mp_has_init = False,
      pending = [], pending_head = 0, mp_ready = [], sample_index = None\<rparr>"

definition MP4_APPEND_CHUNK :: nat where "MP4_APPEND_CHUNK = 16777216"

function mp4_append_loop :: "ns_mp4_demuxer \<Rightarrow> u8 list \<Rightarrow> bool \<times> ns_mp4_demuxer" where
  "mp4_append_loop d data =
     (if data = [] then (True, d)
      else
        (case mp4_process_input (d\<lparr>mp_input := mp_input d @ take MP4_APPEND_CHUNK data\<rparr>) of
           (ok, d') \<Rightarrow>
             if \<not> ok then (False, d'\<lparr>mp_state := PARSE_ERROR, mp_input := [], pending := [], pending_head := 0\<rparr>)
             else mp4_append_loop d' (drop MP4_APPEND_CHUNK data)))"
  by pat_completeness auto
termination by (relation "measure (\<lambda>(d, data). length data)") (auto simp: MP4_APPEND_CHUNK_def)

declare mp4_append_loop.simps [simp del]

definition ns_mp4_demuxer_append :: "ns_mp4_demuxer \<Rightarrow> u8 list \<Rightarrow> bool \<times> ns_mp4_demuxer" where
  "ns_mp4_demuxer_append d data = (if mp_state d = PARSE_ERROR then (False, d) else mp4_append_loop d data)"

definition ns_mp4_demuxer_n_tracks :: "ns_mp4_demuxer \<Rightarrow> nat" where
  "ns_mp4_demuxer_n_tracks d = (if mp_has_init d then length (mp_tracks d) else 0)"

definition ns_mp4_demuxer_track :: "ns_mp4_demuxer \<Rightarrow> nat \<Rightarrow> ns_mp4_track option" where
  "ns_mp4_demuxer_track d i =
     (if \<not> mp_has_init d \<or> i \<ge> length (mp_tracks d) then None else Some (public (mp_tracks d ! i)))"

definition ns_mp4_demuxer_pop_sample :: "ns_mp4_demuxer \<Rightarrow> (ns_mp4_sample \<times> ns_mp4_demuxer) option" where
  "ns_mp4_demuxer_pop_sample d =
     (case mp_ready d of [] \<Rightarrow> None | s # ss \<Rightarrow> Some (s, d\<lparr>mp_ready := ss\<rparr>))"

definition ns_mp4_demuxer_reset_parser :: "ns_mp4_demuxer \<Rightarrow> ns_mp4_demuxer" where
  "ns_mp4_demuxer_reset_parser d =
     (let d1 = mp4_clear_parser_state d
      in d1\<lparr>mp_tracks := map (\<lambda>t. t\<lparr>has_next_decode_time := False, next_decode_time := 0\<rparr>) (mp_tracks d1)\<rparr>)"

definition ns_mp4_demuxer_has_sample_index :: "ns_mp4_demuxer \<Rightarrow> bool" where
  "ns_mp4_demuxer_has_sample_index d \<longleftrightarrow> mp_has_init d \<and> sample_index d \<noteq> None"

text \<open>The first index entry from \<open>lo\<close> on that is not before the position, as the bisection finds it.\<close>

function index_bisect :: "indexed_sample list \<Rightarrow> nat \<Rightarrow> nat \<Rightarrow> nat \<Rightarrow> nat" where
  "index_bisect index position lo hi =
     (if lo < hi then
        (let mid = lo + (hi - lo) div 2 in
         if ix_position (index ! mid) < position then index_bisect index position (mid + 1) hi
         else index_bisect index position lo mid)
      else lo)"
  by pat_completeness auto
termination by (relation "measure (\<lambda>(index, position, lo, hi). hi - lo)") auto

declare index_bisect.simps [simp del]

text \<open>The samples whose bytes are there; \<^verbatim>\<open>NS_MP4_INDEX_END\<close> is \<open>None\<close>.\<close>

definition extracted :: "nat \<Rightarrow> u8 list \<Rightarrow> indexed_sample \<Rightarrow> ns_mp4_sample" where
  "extracted position data s =
     \<lparr>smp_track = ix_track s, dts = ix_dts s, pts = ix_pts s, duration = ix_duration s, keyframe = ix_keyframe s,
      smp_data = take (ix_size s) (drop (ix_position s - position) data)\<rparr>"

fun extract_loop :: "indexed_sample list \<Rightarrow> nat \<Rightarrow> u8 list \<Rightarrow> ns_mp4_sample list \<Rightarrow> nat option \<times> ns_mp4_sample list" where
  "extract_loop [] position data queue = (None, queue)"
| "extract_loop (s # ss) position data queue =
     (let offset = ix_position s - position in
      if offset > length data \<or> ix_size s > length data - offset then (Some (ix_position s), queue)
      else extract_loop ss position data (queue @ [extracted position data s]))"

definition ns_mp4_demuxer_index_extract :: "ns_mp4_demuxer \<Rightarrow> nat \<Rightarrow> u8 list \<Rightarrow> nat option \<times> ns_mp4_demuxer" where
  "ns_mp4_demuxer_index_extract d position data =
     (case (mp_has_init d, sample_index d) of
        (True, Some index) \<Rightarrow>
          (case extract_loop (drop (index_bisect index position 0 (length index)) index) position data (mp_ready d) of
             (next_offset, queue) \<Rightarrow> (next_offset, d\<lparr>mp_ready := queue\<rparr>))
      | _ \<Rightarrow> (None, d))"

end
