(* ===== verification/Mp4Stream.thy ===== *)
theory Mp4Stream
  imports Mp4 "HOL-Library.Multiset"
begin

text \<open>
  What the MP4 demuxer of \<open>Mp4\<close> does with a stream: the samples it queues are pieces of the stream, none
  of those announced is lost or queued twice by a media data box, its buffers stay within their limits,
  and the samples of the index are extracted as they are asked for.
\<close>

section \<open>The bytes of the samples\<close>

text \<open>
  A sample cut from the whole stream \<open>S\<close>, and the demuxer as a window on that stream: what it holds is
  the stream from its position on.
\<close>

definition stream_sample :: "u8 list \<Rightarrow> pending_sample \<Rightarrow> ns_mp4_sample" where
  "stream_sample S p =
     \<lparr>smp_track = pd_track p, dts = pd_dts p, pts = pd_pts p, duration = pd_duration p,
      keyframe = pd_keyframe p, smp_data = take (pd_size p) (drop (pd_position p) S)\<rparr>"

definition in_stream :: "u8 list \<Rightarrow> pending_sample \<Rightarrow> bool" where
  "in_stream S p \<longleftrightarrow> pd_position p + pd_size p \<le> length S"

definition window :: "u8 list \<Rightarrow> ns_mp4_demuxer \<Rightarrow> bool" where
  "window S d \<longleftrightarrow> mp_input d = drop (input_position d) S \<and> input_position d \<le> length S \<and>
     (mp_state d = PARSE_MDAT \<longrightarrow> mdat_payload_position d = input_position d)"

definition outstanding :: "ns_mp4_demuxer \<Rightarrow> pending_sample list" where
  "outstanding d = drop (pending_head d) (pending d)"

text \<open>What a step may do: queue samples of the stream, taken from those outstanding.\<close>

definition emits :: "u8 list \<Rightarrow> ns_mp4_demuxer \<Rightarrow> pending_sample list \<Rightarrow> ns_mp4_demuxer \<Rightarrow> bool" where
  "emits S d ps d' \<longleftrightarrow> mp_ready d' = mp_ready d @ map (stream_sample S) ps \<and> list_all (in_stream S) ps"

lemma emits_none: "mp_ready d' = mp_ready d \<Longrightarrow> emits S d [] d'"
  by (simp add: emits_def)

lemma emits_trans: "emits S d ps d' \<Longrightarrow> emits S d' qs d'' \<Longrightarrow> emits S d (ps @ qs) d''"
  by (simp add: emits_def)

lemma window_length: "window S d \<Longrightarrow> input_position d + length (mp_input d) = length S"
  by (auto simp: window_def)

lemma emit_sample_stream:
  assumes "window S d" "input_position d \<le> pd_position p" "in_stream S p"
  shows "emits S d [p] (emit_sample p d)"
proof -
  have "drop (pd_position p - input_position d) (mp_input d) = drop (pd_position p) S"
    using assms by (simp add: window_def)
  then show ?thesis using assms(3) by (simp add: emits_def emit_sample_def stream_sample_def)
qed

lemma fits_position: "sample_fits_in_mdat d p \<Longrightarrow> mdat_payload_position d \<le> pd_position p"
  by (auto simp: sample_fits_in_mdat_def split: if_splits)

lemma fits_end:
  assumes "sample_fits_in_mdat d p" "\<not> mdat_unbounded d"
  shows "pd_position p + pd_size p \<le> mdat_payload_position d + mdat_payload_length d"
  using assms by (auto simp: sample_fits_in_mdat_def Let_def split: if_splits)

lemma window_emit: "window S (emit_sample p d) = window S d"
  by (simp add: window_def)

lemma emit_available_emits:
  assumes "window S d" "mdat_payload_position d = input_position d"
  shows "\<exists>ps. emits S d ps (emit_available_mdat_samples d) \<and>
    ps @ outstanding (emit_available_mdat_samples d) = outstanding d"
  using assms
proof (induction d rule: emit_available_mdat_samples.induct)
  case (1 d)
  let ?p = "pending d ! pending_head d"
  show ?case
  proof (cases "pending_head d < length (pending d) \<and> sample_fits_in_mdat d ?p \<and>
     \<not> pd_position ?p + pd_size ?p > input_position d + length (mp_input d)")
    case True
    let ?d = "(emit_sample ?p d)\<lparr>pending_head := pending_head d + 1\<rparr>"
    have e: "emit_available_mdat_samples d = emit_available_mdat_samples ?d"
      using True by (subst emit_available_mdat_samples.simps) (simp add: Let_def)
    have w: "window S ?d" using 1(2) by (simp add: window_def)
    have "\<exists>ps. emits S ?d ps (emit_available_mdat_samples ?d) \<and>
        ps @ outstanding (emit_available_mdat_samples ?d) = outstanding ?d"
      by (rule 1(1)) (use True w 1(3) in \<open>auto simp: window_def\<close>)
    then obtain ps where ps: "emits S ?d ps (emit_available_mdat_samples ?d)"
      "ps @ outstanding (emit_available_mdat_samples ?d) = outstanding ?d" by blast
    have "in_stream S ?p" "input_position d \<le> pd_position ?p"
      using True window_length [OF 1(2)] fits_position [of d ?p] 1(3) by (auto simp: in_stream_def)
    then have "emits S d [?p] ?d" using emit_sample_stream [OF 1(2)] by (simp add: emits_def)
    from emits_trans [OF this ps(1)] have em: "emits S d (?p # ps) (emit_available_mdat_samples d)" by (simp add: e)
    have "outstanding d = ?p # outstanding ?d"
      using True by (simp add: outstanding_def Cons_nth_drop_Suc)
    then have "(?p # ps) @ outstanding (emit_available_mdat_samples d) = outstanding d" using ps(2) e by simp
    with em show ?thesis by blast
  next
    case False
    then have "emit_available_mdat_samples d = d"
      by (subst emit_available_mdat_samples.simps) (auto simp: Let_def)
    then show ?thesis using emits_none [of d d S] by (intro exI [of _ "[]"]) simp
  qed
qed

lemma finish_loop_emits:
  assumes "finish_loop e ps rem d = (ok, rem', d')" "window S d" "mdat_payload_position d = input_position d"
    "\<not> mdat_unbounded d" "mdat_payload_length d \<le> length (mp_input d)"
  shows "\<exists>qs. emits S d qs d' \<and> set qs \<subseteq> set ps \<and> (ok \<longrightarrow> mset qs + mset rem' = mset ps + mset rem)"
  using assms
proof (induction ps arbitrary: rem d)
  case Nil
  then show ?case using emits_none [of d' d S] by (intro exI [of _ "[]"]) simp
next
  case (Cons p ps)
  show ?case
  proof (cases "sample_fits_in_mdat d p")
    case True
    let ?d = "emit_sample p d"
    have "in_stream S p" "input_position d \<le> pd_position p"
      using fits_end [OF True Cons.prems(4)] fits_position [OF True] Cons.prems window_length [OF Cons.prems(2)]
      by (auto simp: in_stream_def)
    then have 1: "emits S d [p] ?d" using emit_sample_stream [OF Cons.prems(2)] by simp
    have "finish_loop e ps rem ?d = (ok, rem', d')" using Cons.prems(1) True by simp
    from Cons.IH [OF this] Cons.prems obtain qs where qs: "emits S ?d qs d'" "set qs \<subseteq> set ps"
      "ok \<longrightarrow> mset qs + mset rem' = mset ps + mset rem" by (auto simp: window_emit)
    from emits_trans [OF 1 qs(1)] have "emits S d (p # qs) d'" by simp
    moreover have "ok \<longrightarrow> mset (p # qs) + mset rem' = mset (p # ps) + mset rem" using qs(3) by simp
    ultimately show ?thesis using qs(2) by (intro exI [of _ "p # qs"]) auto
  next
    case no: False
    show ?thesis
    proof (cases "pd_position p \<ge> e")
      case True
      with no Cons.prems(1) have "finish_loop e ps (rem @ [p]) d = (ok, rem', d')" by simp
      from Cons.IH [OF this Cons.prems(2-5)] obtain qs where "emits S d qs d'" "set qs \<subseteq> set ps"
        "ok \<longrightarrow> mset qs + mset rem' = mset ps + mset (rem @ [p])" by blast
      then show ?thesis by (intro exI [of _ qs]) auto
    next
      case False
      with no Cons.prems(1) have "\<not> ok" "d' = d" by auto
      then show ?thesis using emits_none [of d d S] by (intro exI [of _ "[]"]) simp
    qed
  qed
qed

lemma window_drop: "window S d \<Longrightarrow> mp_state d \<noteq> PARSE_MDAT \<Longrightarrow> window S (drop_input n d)"
  by (auto simp: window_def min_def add.commute)

lemma window_fields:
  "window S d \<Longrightarrow> mp_input d' = mp_input d \<Longrightarrow> input_position d' = input_position d \<Longrightarrow> mp_state d' \<noteq> PARSE_MDAT \<Longrightarrow>
   window S d'"
  by (simp add: window_def)

lemma finish_mdat_emits:
  assumes "finish_mdat d = (ok, d')" "window S d" "mdat_payload_position d = input_position d"
    "\<not> mdat_unbounded d" "mdat_payload_length d \<le> length (mp_input d)"
  shows "\<exists>qs. emits S d qs d' \<and> set qs \<subseteq> set (outstanding d) \<and>
    (ok \<longrightarrow> mset qs + mset (outstanding d') = mset (outstanding d) \<and> window S d')"
proof -
  let ?e = "mdat_payload_position d + mdat_payload_length d"
  obtain rem d1 where f: "finish_loop ?e (outstanding d) [] d = (ok, rem, d1)"
    and d': "d' = (drop_input (mdat_payload_length d1) (d1\<lparr>pending := if ok then rem else [], pending_head := 0\<rparr>))
                 \<lparr>mp_state := PARSE_BOX_HEADER\<rparr>"
    using assms(1) by (auto simp: finish_mdat_def outstanding_def split: prod.splits)
  obtain qs where qs: "emits S d qs d1" "set qs \<subseteq> set (outstanding d)"
    "ok \<longrightarrow> mset qs + mset rem = mset (outstanding d)"
    using finish_loop_emits [OF f assms(2-5)] by auto
  obtain r where r: "d1 = d\<lparr>mp_ready := r\<rparr>" using finish_loop_frame [OF f] by blast
  have "emits S d qs d'" using qs(1) by (simp add: emits_def d')
  moreover have "ok \<longrightarrow> mset qs + mset (outstanding d') = mset (outstanding d)"
    using qs(3) by (simp add: d' outstanding_def)
  moreover have "window S d'" using assms(2,5) by (auto simp: d' r window_def min_def add.commute)
  ultimately show ?thesis using qs(2) by blast
qed

lemma process_mdat_emits:
  assumes "process_mdat d = (ok, d')" "window S d" "mdat_payload_position d = input_position d"
  shows "\<exists>ps. emits S d ps d' \<and> set ps \<subseteq> set (outstanding d) \<and>
    (ok \<longrightarrow> mset ps + mset (outstanding d') = mset (outstanding d) \<and> window S d')"
proof -
  let ?d = "emit_available_mdat_samples d"
  obtain ps where ps: "emits S d ps ?d" "ps @ outstanding ?d = outstanding d"
    using emit_available_emits [OF assms(2,3)] by blast
  have w: "window S ?d" "mdat_payload_position ?d = input_position ?d"
    using assms(2,3) by (simp_all add: window_def)
  consider (finish) "\<not> mdat_unbounded ?d \<and> length (mp_input ?d) \<ge> mdat_payload_length ?d"
    | (skip) "\<not> (\<not> mdat_unbounded ?d \<and> length (mp_input ?d) \<ge> mdat_payload_length ?d)"
        "pending_head ?d \<ge> length (pending ?d)"
    | (wait) "\<not> (\<not> mdat_unbounded ?d \<and> length (mp_input ?d) \<ge> mdat_payload_length ?d)"
        "\<not> pending_head ?d \<ge> length (pending ?d)" by blast
  then show ?thesis
  proof cases
    case finish
    with assms(1) have "finish_mdat ?d = (ok, d')" by (simp add: process_mdat_def Let_def)
    from finish_mdat_emits [OF this w] finish obtain qs where qs: "emits S ?d qs d'" "set qs \<subseteq> set (outstanding ?d)"
      "ok \<longrightarrow> mset qs + mset (outstanding d') = mset (outstanding ?d) \<and> window S d'" by auto
    have "set (ps @ qs) \<subseteq> set (outstanding d)" using qs(2) unfolding ps(2) [symmetric] by auto
    moreover have "ok \<longrightarrow> mset (ps @ qs) + mset (outstanding d') = mset (outstanding d) \<and> window S d'"
      using qs(3) unfolding ps(2) [symmetric] by auto
    ultimately show ?thesis using emits_trans [OF ps(1) qs(1)] by blast
  next
    case skip
    obtain n f where d': "ok" "d' = mp4_enter_skip n f (drop_input (length (mp_input ?d)) (compact_pending ?d))"
      using assms(1) skip by (auto simp: process_mdat_def Let_def)
    have "outstanding ?d = []" using skip by (simp add: outstanding_def)
    then have "ps = outstanding d" using ps(2) by simp
    moreover have "outstanding d' = []" using skip by (simp add: d' outstanding_def)
    moreover have "emits S d ps d'" using ps(1) by (simp add: emits_def d')
    moreover have "window S d'" using w(1) by (auto simp: window_def d')
    ultimately show ?thesis by (intro exI [of _ ps]) simp
  next
    case wait
    then have d': "d' = (if pending_head ?d > 1024 \<and> pending_head ?d * 2 > length (pending ?d) then compact_pending ?d else ?d)"
      using assms(1) by (auto simp: process_mdat_def Let_def)
    have "outstanding d' = outstanding ?d" by (simp add: d' outstanding_def)
    moreover have "emits S d ps d'" using ps(1) by (simp add: emits_def d')
    moreover have "window S d'" using w by (auto simp: window_def d')
    moreover have "mset ps + mset (outstanding ?d) = mset (outstanding d)" unfolding ps(2) [symmetric] by simp
    moreover have "set ps \<subseteq> set (outstanding d)" unfolding ps(2) [symmetric] by simp
    ultimately show ?thesis by (intro exI [of _ ps]) simp
  qed
qed

lemma parse_moov_keeps:
  "parse_moov d body = Some d' \<Longrightarrow> input_position d' = input_position d \<and> mp_ready d' = mp_ready d \<and>
     pending d' = pending d \<and> pending_head d' = pending_head d"
  by (auto simp: parse_moov_def Let_def split: prod.splits option.splits if_splits)

lemma parse_moof_keeps:
  "parse_moof d body pos = (ok, d') \<Longrightarrow> input_position d' = input_position d \<and> mp_ready d' = mp_ready d \<and>
     pending_head d' = pending_head d \<and> mp_has_init d' = mp_has_init d \<and> sample_index d' = sample_index d"
  by (auto simp: parse_moof_def split: prod.splits if_splits)

lemma top_level_window:
  assumes "window S d" "mp_state d = PARSE_BOX_HEADER"
  shows "case process_top_level_box d of
      Rd_Fail d' \<Rightarrow> mp_ready d' = mp_ready d
    | Rd_Wait d' \<Rightarrow> d' = d
    | Rd_Next d' \<Rightarrow> mp_ready d' = mp_ready d \<and> window S d'"
proof (cases "peek_top_level_box (mp_input d)")
  case (PEEK_COMPLETE ty tot hl e)
  note b = peek_header [OF PEEK_COMPLETE]
  have drop_header: "window S ((drop_input hl d)\<lparr>mp_state := PARSE_MDAT, mdat_payload_position := input_position (drop_input hl d),
      mdat_payload_length := l, mdat_unbounded := e\<rparr>)" for l
    using assms b by (auto simp: window_def min_def add.commute)
  have skip: "window S (mp4_enter_skip n f (compact_pending (drop_input hl d)))" for n f
    using assms b by (auto simp: window_def min_def add.commute)
  consider (mdat) "ty = FOURCC ''mdat''" | (hdr) "ty \<noteq> FOURCC ''mdat''" "ty = FOURCC ''moov'' \<or> ty = FOURCC ''moof''"
    | (other) "ty \<noteq> FOURCC ''mdat''" "\<not> (ty = FOURCC ''moov'' \<or> ty = FOURCC ''moof'')" by blast
  then show ?thesis
  proof cases
    case mdat
    then show ?thesis using drop_header skip
      unfolding process_top_level_box_def PEEK_COMPLETE Let_def by simp
  next
    case other
    have "window S (mp4_enter_skip 0 True (drop_input (length (mp_input d)) d))"
      "window S (mp4_enter_skip tot False d)"
      using assms by (auto simp: window_def)
    then show ?thesis using other by (simp add: process_top_level_box_def PEEK_COMPLETE)
  next
    case hdr
    let ?body = "take (tot - hl) (drop hl (mp_input d))"
    define r where "r = (if ty = FOURCC ''moov''
         then (case parse_moov d ?body of None \<Rightarrow> (False, d) | Some d' \<Rightarrow> (True, d'))
         else parse_moof d ?body (input_position d))"
    obtain ok d1 where r1: "r = (ok, d1)" by (metis surj_pair)
    have k: "mp_input d1 = mp_input d" "mp_state d1 = mp_state d" "input_position d1 = input_position d"
      "mp_ready d1 = mp_ready d"
      using r1 unfolding r_def
      by (auto dest: parse_moov_fields parse_moov_keeps parse_moof_fields parse_moof_keeps split: if_splits option.splits)
    have "window S (drop_input tot d1)"
      using assms k by (intro window_drop) (auto simp: window_def)
    moreover have "process_top_level_box d =
      (if e \<or> tot > NS_MP4_MAX_HEADER_BOX_BYTES then Rd_Fail d else if length (mp_input d) < tot then Rd_Wait d
       else if ok then Rd_Next (drop_input tot d1) else Rd_Fail (drop_input tot d1))"
      unfolding process_top_level_box_def PEEK_COMPLETE peek_result.case Let_def if_not_P [OF hdr(1)] if_P [OF hdr(2)]
        r_def [symmetric] r1 prod.case ..
    ultimately show ?thesis using k by simp
  qed
qed (simp_all add: process_top_level_box_def)

lemma mp4_round_emits:
  assumes "window S d"
  shows "case mp4_round d of
      Rd_Fail d' \<Rightarrow> \<exists>ps. emits S d ps d'
    | Rd_Wait d' \<Rightarrow> \<exists>ps. emits S d ps d' \<and> window S d'
    | Rd_Next d' \<Rightarrow> \<exists>ps. emits S d ps d' \<and> window S d'"
proof (cases "mp_state d")
  case PARSE_ERROR
  then show ?thesis using emits_none by (fastforce simp: mp4_round_def)
next
  case PARSE_BOX_HEADER
  have "mp4_round d = process_top_level_box d" by (simp add: mp4_round_def PARSE_BOX_HEADER)
  then show ?thesis using top_level_window [OF assms PARSE_BOX_HEADER] emits_none assms
    by (auto split: round_result.splits)
next
  case PARSE_SKIP
  have w: "window S (drop_input n d)" for n using window_drop [OF assms] PARSE_SKIP by simp
  have w2: "window S ((drop_input n d)\<lparr>mp_skip := k\<rparr>)" "window S ((drop_input n d)\<lparr>mp_skip := k, mp_state := PARSE_BOX_HEADER\<rparr>)"
    for n k using w [of n] by (simp_all add: window_def PARSE_SKIP)
  have e: "emits S d [] d'" if "mp_ready d' = mp_ready d" for d' using that by (rule emits_none)
  show ?thesis using w w2 e
    by (auto simp: mp4_round_def PARSE_SKIP Let_def intro!: exI [of _ "[]"])
next
  case PARSE_MDAT
  obtain ok d1 where p: "process_mdat d = (ok, d1)" by (metis surj_pair)
  have "mdat_payload_position d = input_position d" using assms PARSE_MDAT by (simp add: window_def)
  from process_mdat_emits [OF p assms this] obtain ps where "emits S d ps d1" "ok \<longrightarrow> window S d1" by blast
  then show ?thesis by (auto simp: mp4_round_def PARSE_MDAT p)
qed

lemma process_input_emits:
  "window S d \<Longrightarrow> mp4_process_input d = (ok, d') \<Longrightarrow> \<exists>ps. emits S d ps d' \<and> (ok \<longrightarrow> window S d')"
proof (induction d rule: mp4_process_input.induct)
  case (1 d)
  show ?case
  proof (cases "mp4_round d")
    case (Rd_Next d1)
    then obtain ps where ps: "emits S d ps d1" "window S d1" using mp4_round_emits [OF 1(2)] by auto
    have "mp4_process_input d1 = (ok, d')" using 1(3) Rd_Next by (simp add: mp4_process_input.simps [of d])
    from 1(1) [OF Rd_Next ps(2) this] obtain qs where "emits S d1 qs d'" "ok \<longrightarrow> window S d'" by blast
    with emits_trans [OF ps(1)] show ?thesis by blast
  qed (use 1 mp4_round_emits [OF 1(2)] in \<open>auto simp: mp4_process_input.simps [of d]\<close>)
qed

lemma window_append:
  assumes "window S d" shows "window (S @ x) (d\<lparr>mp_input := mp_input d @ x\<rparr>)"
  using assms by (simp add: window_def)

lemma stream_sample_append: "in_stream S p \<Longrightarrow> stream_sample (S @ x) p = stream_sample S p"
  by (simp add: in_stream_def stream_sample_def)

lemma emits_append: "emits S d ps d' \<Longrightarrow> emits (S @ x) d ps d'"
proof -
  assume "emits S d ps d'"
  moreover from this have "map (stream_sample (S @ x)) ps = map (stream_sample S) ps"
    by (auto simp: emits_def list_all_iff stream_sample_append)
  ultimately show ?thesis by (auto simp: emits_def list_all_iff in_stream_def intro: le_trans)
qed

lemma append_loop_emits:
  "window S d \<Longrightarrow> mp4_append_loop d data = (ok, d') \<Longrightarrow> \<exists>ps. emits (S @ data) d ps d' \<and> (ok \<longrightarrow> window (S @ data) d')"
proof (induction d data arbitrary: S rule: mp4_append_loop.induct)
  case (1 d data)
  show ?case
  proof (cases "data = []")
    case True
    then show ?thesis using 1 emits_none [of d d S] by (simp add: mp4_append_loop.simps [of d "[]"]) blast
  next
    case False
    let ?chunk = "take MP4_APPEND_CHUNK data" and ?rest = "drop MP4_APPEND_CHUNK data"
    let ?d = "d\<lparr>mp_input := mp_input d @ ?chunk\<rparr>"
    obtain ok1 d1 where p: "mp4_process_input ?d = (ok1, d1)" by (metis surj_pair)
    obtain ps where ps: "emits (S @ ?chunk) ?d ps d1" "ok1 \<longrightarrow> window (S @ ?chunk) d1"
      using process_input_emits [OF window_append [OF 1(2)] p] by blast
    have e1: "emits (S @ data) d ps d1" using emits_append [OF ps(1), of ?rest] by (simp add: emits_def)
    show ?thesis
    proof (cases ok1)
      case True
      have l: "mp4_append_loop d1 ?rest = (ok, d')"
        using 1(3) False True p by (simp add: mp4_append_loop.simps [of d data])
      have "\<exists>qs. emits ((S @ ?chunk) @ ?rest) d1 qs d' \<and> (ok \<longrightarrow> window ((S @ ?chunk) @ ?rest) d')"
        by (rule 1(1) [OF False p [symmetric] _ _ l]) (use True ps in auto)
      then obtain qs where "emits (S @ data) d1 qs d'" "ok \<longrightarrow> window (S @ data) d'" by auto
      with emits_trans [OF e1] show ?thesis by blast
    next
      case no: False
      then have "ok = False" "mp_ready d' = mp_ready d1"
        using 1(3) False p by (auto simp: mp4_append_loop.simps [of d data])
      with e1 have "emits (S @ data) d ps d'" by (simp add: emits_def)
      with \<open>ok = False\<close> show ?thesis by blast
    qed
  qed
qed

section \<open>Reachable demuxers\<close>

text \<open>The states a client can bring the demuxer to, with the bytes fed since it was new or last reset.\<close>

inductive mp4_reach :: "u8 list \<Rightarrow> ns_mp4_demuxer \<Rightarrow> bool" where
  mr_new: "mp4_reach [] ns_mp4_demuxer_new"
| mr_append: "mp4_reach S d \<Longrightarrow> ns_mp4_demuxer_append d data = (ok, d') \<Longrightarrow> mp4_reach (S @ data) d'"
| mr_pop: "mp4_reach S d \<Longrightarrow> ns_mp4_demuxer_pop_sample d = Some (s, d') \<Longrightarrow> mp4_reach S d'"
| mr_reset: "mp4_reach S d \<Longrightarrow> mp4_reach [] (ns_mp4_demuxer_reset_parser d)"
| mr_extract: "mp4_reach S d \<Longrightarrow> ns_mp4_demuxer_index_extract d pos data = (n, d') \<Longrightarrow> mp4_reach S d'"

lemma extract_fields:
  assumes "ns_mp4_demuxer_index_extract d pos data = (n, d')"
  obtains q where "d' = d\<lparr>mp_ready := q\<rparr>"
  using assms that [of "mp_ready d"]
  by (auto simp: ns_mp4_demuxer_index_extract_def split: bool.splits option.splits prod.splits)

lemma pop_fields:
  assumes "ns_mp4_demuxer_pop_sample d = Some (s, d')"
  obtains q where "d' = d\<lparr>mp_ready := q\<rparr>"
  using assms that by (auto simp: ns_mp4_demuxer_pop_sample_def split: list.splits)

lemma append_failed_state: "mp4_append_loop d data = (False, d') \<Longrightarrow> mp_state d' = PARSE_ERROR"
proof (induction d data rule: mp4_append_loop.induct)
  case (1 d data)
  show ?case
  proof (cases "data = []")
    case True
    then show ?thesis using 1 by (simp add: mp4_append_loop.simps [of d "[]"])
  next
    case False
    obtain ok1 d1 where p: "mp4_process_input (d\<lparr>mp_input := mp_input d @ take MP4_APPEND_CHUNK data\<rparr>) = (ok1, d1)"
      by (metis surj_pair)
    show ?thesis
    proof (cases ok1)
      case True
      then have "mp4_append_loop d1 (drop MP4_APPEND_CHUNK data) = (False, d')"
        using 1(2) False p by (simp add: mp4_append_loop.simps [of d data])
      then show ?thesis using 1(1) [OF False p [symmetric]] True by simp
    next
      case no: False
      then show ?thesis using 1(2) False p by (auto simp: mp4_append_loop.simps [of d data])
    qed
  qed
qed

lemma append_emits:
  assumes "mp_state d \<noteq> PARSE_ERROR \<Longrightarrow> window S d" "ns_mp4_demuxer_append d data = (ok, d')"
  shows "\<exists>ps. emits (S @ data) d ps d'" "mp_state d' \<noteq> PARSE_ERROR \<Longrightarrow> window (S @ data) d'"
proof -
  have "(\<exists>ps. emits (S @ data) d ps d') \<and> (mp_state d' \<noteq> PARSE_ERROR \<longrightarrow> window (S @ data) d')"
  proof (cases "mp_state d = PARSE_ERROR")
    case True
    then show ?thesis using assms(2) emits_none [of d d "S @ data"] by (auto simp: ns_mp4_demuxer_append_def)
  next
    case False
    have l: "mp4_append_loop d data = (ok, d')" using assms(2) False by (simp add: ns_mp4_demuxer_append_def)
    then obtain ps where "emits (S @ data) d ps d'" "ok \<longrightarrow> window (S @ data) d'"
      using append_loop_emits [OF assms(1) [OF False]] by blast
    moreover have "\<not> ok \<longrightarrow> mp_state d' = PARSE_ERROR"
      using append_failed_state l by (cases ok) auto
    ultimately show ?thesis by blast
  qed
  then show "\<exists>ps. emits (S @ data) d ps d'" "mp_state d' \<noteq> PARSE_ERROR \<Longrightarrow> window (S @ data) d'" by blast+
qed

lemma reach_window: "mp4_reach S d \<Longrightarrow> mp_state d \<noteq> PARSE_ERROR \<Longrightarrow> window S d"
proof (induction rule: mp4_reach.induct)
  case mr_new
  show ?case by (simp add: window_def ns_mp4_demuxer_new_def)
next
  case (mr_append S d data ok d')
  then show ?case using append_emits(2) [of d S data ok d'] by blast
next
  case (mr_pop S d s d')
  obtain q where "d' = d\<lparr>mp_ready := q\<rparr>" by (rule pop_fields [OF mr_pop.hyps(2)])
  then show ?case using mr_pop by (simp add: window_def)
next
  case (mr_reset S d)
  show ?case by (simp add: window_def ns_mp4_demuxer_reset_parser_def mp4_clear_parser_state_def)
next
  case (mr_extract S d pos data n d')
  obtain q where "d' = d\<lparr>mp_ready := q\<rparr>" by (rule extract_fields [OF mr_extract.hyps(2)])
  then show ?case using mr_extract by (simp add: window_def)
qed


definition example_init :: "u8 list" where
  "example_init =
     [0,0,0,72, 109,111,111,118, 0,0,0,64, 116,114,97,107,
      0,0,0,24, 116,107,104,100, 0,0,0,0, 0,0,0,0, 0,0,0,0, 0,0,0,1,
      0,0,0,32, 109,100,105,97, 0,0,0,24, 109,100,104,100, 0,0,0,0, 0,0,0,0, 0,0,0,0, 0,0,3,232]"

definition example_fragment :: "u8 list" where
  "example_fragment =
     [0,0,0,56, 109,111,111,102, 0,0,0,48, 116,114,97,102, 0,0,0,16, 116,102,104,100, 0,0,0,0, 0,0,0,1,
      0,0,0,24, 116,114,117,110, 0,0,2,1, 0,0,0,1, 0,0,0,64, 0,0,0,3]"

definition example_mdat :: "u8 list" where
  "example_mdat = [0,0,0,11, 109,100,97,116, 7,8,9]"


text \<open>
  C20: A media data box neither loses nor duplicates samples: as long as the box is accepted, the samples
  outstanding before handling the buffered part of it are exactly those queued by it and those still
  outstanding.
\<close>

theorem mp4_mdat_conserves:
  assumes "window S d" "mp_state d = PARSE_MDAT" "process_mdat d = (True, d')"
  shows "\<exists>ps. mp_ready d' = mp_ready d @ map (stream_sample S) ps \<and>
    mset ps + mset (outstanding d') = mset (outstanding d)"
proof -
  have "mdat_payload_position d = input_position d" using assms(1,2) by (simp add: window_def)
  from process_mdat_emits [OF assms(3,1) this] show ?thesis by (auto simp: emits_def)
qed


definition example_in_mdat :: ns_mp4_demuxer where
  "example_in_mdat = ns_mp4_demuxer_new\<lparr>mp_input := [7, 8, 9], input_position := 8, mp_state := PARSE_MDAT,
     mdat_payload_position := 8, mdat_payload_length := 3,
     pending := [\<lparr>pd_track = 1, pd_dts = 0, pd_pts = 0, pd_duration = 1, pd_keyframe = True, pd_position = 9, pd_size = 2\<rparr>]\<rparr>"

theorem mp4_mdat_conserves_witness:
  "\<exists>d'. process_mdat example_in_mdat = (True, d') \<and>
     (\<exists>ps. mp_ready d' = map (stream_sample ([0,0,0,11, 109,100,97,116, 7,8,9])) ps \<and>
       mset ps + mset (outstanding d') = mset (outstanding example_in_mdat))"
proof -
  have "fst (process_mdat example_in_mdat)" by code_simp
  then obtain d' where p: "process_mdat example_in_mdat = (True, d')" by (metis eq_fst_iff)
  have "window [0,0,0,11, 109,100,97,116, 7,8,9] example_in_mdat" "mp_state example_in_mdat = PARSE_MDAT"
    "mp_ready example_in_mdat = []"
    by (simp_all add: window_def example_in_mdat_def ns_mp4_demuxer_new_def)
  with mp4_mdat_conserves [OF _ _ p] p show ?thesis by fastforce
qed

section \<open>Limits\<close>

lemma be_value_bound: "be_value acc bs < (acc + 1) * 256 ^ length bs"
proof (induction bs arbitrary: acc)
  case (Cons b bs)
  have "unat b < 256" using unsigned_less [of b] by simp
  then have le: "acc * 256 + unat b + 1 \<le> (acc + 1) * 256" by simp
  have "be_value acc (b # bs) < (acc * 256 + unat b + 1) * 256 ^ length bs"
    using Cons [of "acc * 256 + unat b"] by (simp add: be_value_def)
  also have "\<dots> \<le> (acc + 1) * 256 * 256 ^ length bs" by (rule mult_le_mono1 [OF le])
  also have "\<dots> = (acc + 1) * 256 ^ length (b # bs)"
    by (simp only: list.size power_Suc mult.assoc add_0_right add_Suc_right)
  finally show ?case .
qed (simp add: be_value_def)

lemma read_be_bound: "run_state (cursor_read_be n) c = (v, c') \<Longrightarrow> v < 256 ^ n"
proof -
  have "be_value 0 (take n (cur_data c)) < 256 ^ n" if "n \<le> length (cur_data c)"
    using be_value_bound [of 0 "take n (cur_data c)"] that by (simp add: min_absorb2)
  then show "run_state (cursor_read_be n) c = (v, c') \<Longrightarrow> v < 256 ^ n"
    by (auto simp: cursor_remaining_def split: if_splits)
qed

definition track_valid :: "demux_track \<Rightarrow> bool" where
  "track_valid t \<longleftrightarrow> track_ident (public t) \<noteq> 0 \<and> timescale (public t) \<noteq> 0"

definition tracks_valid :: "demux_track list \<Rightarrow> bool" where
  "tracks_valid ts \<longleftrightarrow> list_all track_valid ts \<and> distinct (map (\<lambda>t. track_ident (public t)) ts) \<and>
     length ts \<le> NS_MP4_MAX_TRACKS"

definition pending_valid :: "pending_sample \<Rightarrow> bool" where
  "pending_valid p \<longleftrightarrow> pd_position p + pd_size p < NS_MP4_MAX_STREAM_POSITION \<and>
     \<bar>pd_dts p\<bar> \<le> NS_MP4_MAX_TIMESTAMP \<and> \<bar>pd_pts p\<bar> < NS_MP4_MAX_TIMESTAMP + 2 ^ 32"

definition index_valid :: "indexed_sample list option \<Rightarrow> bool" where
  "index_valid i \<longleftrightarrow> (case i of None \<Rightarrow> True
     | Some l \<Rightarrow> sorted (map ix_position l) \<and> length l \<le> NS_MP4_MAX_INDEXED_SAMPLES)"

definition mp4_valid :: "ns_mp4_demuxer \<Rightarrow> bool" where
  "mp4_valid d \<longleftrightarrow> tracks_valid (mp_tracks d) \<and> index_valid (sample_index d) \<and>
     pending_head d \<le> length (pending d) \<and> length (outstanding d) \<le> NS_MP4_MAX_PENDING_SAMPLES \<and>
     list_all pending_valid (pending d)"

lemma tracks_valid_map:
  assumes "tracks_valid ts" "\<And>t. public (f t) = public t"
  shows "tracks_valid (map f ts)"
  using assms by (auto simp: tracks_valid_def track_valid_def list_all_iff comp_def)

lemma update_track_public:
  assumes "\<And>t. public (f t) = public t" shows "map public (update_track i f ts) = map public ts"
  using assms by (induction ts) auto

lemma tracks_valid_public: "map public ts = map public ts' \<Longrightarrow> tracks_valid ts = tracks_valid ts'"
proof -
  have eq: "tracks_valid ts \<longleftrightarrow> list_all (\<lambda>p. track_ident p \<noteq> 0 \<and> timescale p \<noteq> 0) (map public ts) \<and>
      distinct (map track_ident (map public ts)) \<and> length (map public ts) \<le> NS_MP4_MAX_TRACKS" for ts
    unfolding tracks_valid_def track_valid_def by (simp add: list.pred_map comp_def)
  assume m: "map public ts = map public ts'"
  show "tracks_valid ts = tracks_valid ts'" unfolding eq m ..
qed

lemma parse_trak_valid: "parse_trak body = Some t \<Longrightarrow> track_valid t"
  by (auto simp: parse_trak_def track_valid_def Let_def split: prod.splits if_splits)

lemma mp4_find_track_None: "mp4_find_track ts i = None \<longleftrightarrow> i \<notin> set (map (\<lambda>t. track_ident (public t)) ts)"
  by (auto simp: mp4_find_track_def find_None_iff)

lemma claim_public:
  assumes "claim_index_budget ts t n = (ts', t', n')"
  shows "map public ts' = map public ts" "public t' = public t"
  using assms by (auto simp: claim_index_budget_def split: option.splits if_splits)

lemma moov_children_valid:
  "moov_children cs ts ex n = Some (ts', ex') \<Longrightarrow> tracks_valid ts \<Longrightarrow> tracks_valid ts'"
proof (induction cs arbitrary: ts ex n)
  case (Cons c cs)
  show ?case
  proof (cases "box_type c = FOURCC ''trak''")
    case True
    then obtain t where t: "length ts < NS_MP4_MAX_TRACKS" "parse_trak (payload c) = Some t"
      "mp4_find_track ts (track_ident (public t)) = None"
      using Cons.prems(1) by (auto split: if_splits option.splits)
    obtain ts1 t1 n1 where cl: "claim_index_budget ts t n = (ts1, t1, n1)" by (metis surj_pair)
    note p = claim_public [OF cl]
    have "tracks_valid (ts @ [t])"
      using Cons.prems(2) t parse_trak_valid [OF t(2)] unfolding mp4_find_track_None by (auto simp: tracks_valid_def)
    then have "tracks_valid (ts1 @ [t1])" using tracks_valid_public [of "ts1 @ [t1]" "ts @ [t]"] p by simp
    moreover have "moov_children cs (ts1 @ [t1]) ex n1 = Some (ts', ex')"
      using Cons.prems(1) True t cl by simp
    ultimately show ?thesis using Cons.IH by blast
  next
    case False
    then show ?thesis using Cons by (auto split: if_splits option.splits)
  qed
qed simp

lemma merge_valid:
  assumes "merge_sample_indexes ts = (i, ts')"
  shows "index_valid i" "map public ts' = map public ts"
proof -
  show "map public ts' = map public ts"
    using assms by (auto simp: merge_sample_indexes_def Let_def split: if_splits)
  define l where "l = concat (map (\<lambda>t. case samples t of None \<Rightarrow> []
                 | Some l \<Rightarrow> map (\<lambda>s. s\<lparr>ix_track := track_ident (public t)\<rparr>) l) ts)"
  have len: "length l = sum_list (map table_length ts)"
    unfolding l_def length_concat map_map comp_def table_length_def by (rule arg_cong [of _ _ sum_list]) (auto split: option.split)
  have "sorted (map indexed_sample_key (sort_key indexed_sample_key l))" by simp
  then have "sorted (map fst (map indexed_sample_key (sort_key indexed_sample_key l)))"
    by (rule sorted_map_mono [where f = fst, unfolded mono_on_def]) auto
  then have "sorted (map ix_position (sort_key indexed_sample_key l))"
    by (simp add: comp_def indexed_sample_key_def)
  then show "index_valid i"
    using assms len by (auto simp: merge_sample_indexes_def Let_def index_valid_def l_def [symmetric] split: if_splits)
qed

lemma parse_moov_valid:
  assumes "parse_moov d body = Some d'" "mp4_valid d" shows "mp4_valid d'"
proof -
  obtain cs whole ts0 ex i ts2 where p: "boxes body = (cs, whole)" "moov_children cs [] [] 0 = Some (ts0, ex)"
    "merge_sample_indexes (fold apply_extends ex ts0) = (i, ts2)"
    "d' = d\<lparr>sample_index := i, mp_tracks := ts2, mp_has_init := True\<rparr>"
    using assms(1) by (auto simp: parse_moov_def Let_def split: prod.splits option.splits if_splits)
  have "tracks_valid ts0" using moov_children_valid [OF p(2)] by (simp add: tracks_valid_def)
  moreover have "map public (fold apply_extends ex ts) = map public ts" for ts
    by (induction ex arbitrary: ts) (simp_all add: apply_extends_def update_track_public)
  ultimately have "tracks_valid ts2" using tracks_valid_public merge_valid(2) [OF p(3)] by metis
  then show ?thesis using assms(2) merge_valid(1) [OF p(3)] by (simp add: mp4_valid_def p(4) outstanding_def)
qed


text \<open>What a fragment may do to the queue: add valid samples at its end, as many as there is room for.\<close>

definition queue_grows :: "nat \<Rightarrow> pending_sample list \<Rightarrow> pending_sample list \<Rightarrow> bool" where
  "queue_grows head pend pend' \<longleftrightarrow> (\<exists>q. pend' = pend @ q \<and> list_all pending_valid q) \<and>
     (length pend - head \<le> NS_MP4_MAX_PENDING_SAMPLES \<longrightarrow> length pend' - head \<le> NS_MP4_MAX_PENDING_SAMPLES)"

lemma queue_grows_refl: "queue_grows head pend pend"
  by (simp add: queue_grows_def)

lemma queue_grows_trans: "queue_grows h a b \<Longrightarrow> queue_grows h b c \<Longrightarrow> queue_grows h a c"
  by (auto simp: queue_grows_def)

lemma read_if_bound: "run_state (read_if b cursor_u32 0) c = (v, c') \<Longrightarrow> v < 2 ^ 32"
  using read_be_bound [of 4 c v c'] by (auto simp: read_if_def cursor_u32_def State_Monad.return_def split: if_splits)

lemma gint32_bound: "v < 2 ^ 32 \<Longrightarrow> \<bar>gint32_of v\<bar> < 2 ^ 32"
  by (auto simp: gint32_of_def)

lemma trun_samples_valid:
  "trun_samples v flags ff n pos c run pend = (ok, run', pend') \<Longrightarrow>
   \<exists>q. pend' = pend @ q \<and> list_all pending_valid q \<and> length q \<le> n"
proof (induction n arbitrary: ff pos c run pend)
  case (Suc n)
  obtain dur sz sflags raw d where r:
    "run_state (do { dur \<leftarrow> read_if (flags div 0x100 mod 2 = 1) cursor_u32 (default_duration run);
              sz \<leftarrow> read_if (flags div 0x200 mod 2 = 1) cursor_u32 (default_size run);
              sflags \<leftarrow> read_if (flags div 0x400 mod 2 = 1) cursor_u32 (default_flags run);
              raw \<leftarrow> read_if (flags div 0x800 mod 2 = 1) cursor_u32 0;
              State_Monad.return (dur, sz, sflags, raw) }) c = ((dur, sz, sflags, raw), d)"
    by (metis surj_pair)
  have raw: "raw < 2 ^ 32"
    using r by (auto split: prod.splits simp: State_Monad.return_def dest: read_if_bound)
  define off where "off = (if flags div 0x800 mod 2 = 1 then if v = 0 then int raw else gint32_of raw else 0)"
  have off: "\<bar>off\<bar> < 2 ^ 32" using raw gint32_bound [OF raw] by (auto simp: off_def)
  define p where "p = \<lparr>pd_track = (case rc_track run of None \<Rightarrow> 0 | Some t \<Rightarrow> track_ident (public t)),
     pd_dts = decode_time run, pd_pts = decode_time run + off, pd_duration = dur,
     pd_keyframe = sample_flags_mean_sync (case ff of None \<Rightarrow> sflags | Some f \<Rightarrow> f), pd_position = pos, pd_size = sz\<rparr>"
  define pend1 where "pend1 = (case rc_track run of None \<Rightarrow> pend | Some t \<Rightarrow> pend @ [p])"
  define bad where "bad \<longleftrightarrow> overrun d \<or> pos + sz \<ge> NS_MP4_MAX_STREAM_POSITION \<or>
     decode_time run > NS_MP4_MAX_TIMESTAMP \<or> decode_time run < - NS_MP4_MAX_TIMESTAMP"
  have eq: "trun_samples v flags ff (Suc n) pos c run pend =
     (if bad then (False, run, pend)
      else trun_samples v flags None n (pos + sz) d (run\<lparr>decode_time := decode_time run + int dur\<rparr>) pend1)"
    unfolding trun_samples.simps(2) r prod.case Let_def off_def [symmetric]
    by (simp add: bad_def pend1_def p_def split: option.split)
  show ?case
  proof (cases bad)
    case True
    then show ?thesis using Suc.prems eq by auto
  next
    case False
    then obtain q where q: "pend' = pend1 @ q" "list_all pending_valid q" "length q \<le> n"
      using Suc.IH [of None "pos + sz" d "run\<lparr>decode_time := decode_time run + int dur\<rparr>" pend1] Suc.prems eq by auto
    have "pending_valid p" using False off by (auto simp: pending_valid_def bad_def p_def)
    then show ?thesis using q by (cases "rc_track run") (auto simp: pend1_def)
  qed
qed simp

lemma parse_trun_grows:
  assumes "parse_trun head run body pend = (ok, run', pend')" "head \<le> length pend"
  shows "queue_grows head pend pend'"
proof -
  define M where "M = do { version \<leftarrow> cursor_u8; flags \<leftarrow> cursor_u24; n \<leftarrow> cursor_u32;
              off \<leftarrow> read_if (flags mod 2 = 1) cursor_u32 0;
              first \<leftarrow> read_if (flags div 4 mod 2 = 1) cursor_u32 0;
              State_Monad.return (version, flags, n, off, first) }"
  obtain version flags n off first c where r: "run_state M (cursor_init body) = ((version, flags, n, off, first), c)"
    by (cases "run_state M (cursor_init body)") (auto simp: split_paired_all)
  note r = r [unfolded M_def]
  show ?thesis
  proof (cases "pend' = pend")
    case True
    then show ?thesis using queue_grows_refl by simp
  next
    case False
    define ps :: nat where "ps = (if flags div 0x100 mod 2 = 1 then 4 else 0) + (if flags div 0x200 mod 2 = 1 then 4 else 0) +
                (if flags div 0x400 mod 2 = 1 then 4 else 0) + (if flags div 0x800 mod 2 = 1 then 4 else 0)"
    define ff where "ff = (if flags div 4 mod 2 = 1 then Some first else None)"
    define start where "start = (if flags mod 2 = 1 then checked_position (base_data_offset run) (gint32_of off)
                         else Some (if seen_trun run then next_data_position run else base_data_offset run))"
    define run1 where "run1 = run\<lparr>seen_trun := True\<rparr>"
    define untracked where "untracked pos = (let span = n * default_size run; elapsed = int (n * default_duration run)
                             in if pos + span \<ge> NS_MP4_MAX_STREAM_POSITION \<or> decode_time run + elapsed > NS_MP4_MAX_TIMESTAMP \<or>
                                   decode_time run < - NS_MP4_MAX_TIMESTAMP
                                then (False, run1, pend)
                                else (True, run1\<lparr>decode_time := decode_time run + elapsed, next_data_position := pos + span\<rparr>, pend))" for pos
    have eq: "parse_trun head run body pend =
      (if overrun c then (False, run, pend)
       else if ps > 0 \<and> n > cursor_remaining c div ps then (False, run, pend)
       else if n > NS_MP4_MAX_PENDING_SAMPLES - (length pend - head) then (False, run, pend)
       else (case start of None \<Rightarrow> (False, run, pend)
             | Some pos \<Rightarrow> if rc_track run = None \<and> ps = 0 then untracked pos
                           else trun_samples version flags ff n pos c run1 pend))"
      unfolding parse_trun_def r prod.case Let_def ps_def [symmetric] ff_def [symmetric] start_def [symmetric]
        run1_def [symmetric] untracked_def ..
    have "snd (snd (untracked pos)) = pend" for pos by (simp add: untracked_def Let_def)
    then have u: "untracked pos \<noteq> (ok, run', pend')" for pos using False by (metis snd_conv)
    obtain pos where t: "n \<le> NS_MP4_MAX_PENDING_SAMPLES - (length pend - head)"
      "trun_samples version flags ff n pos c run1 pend = (ok, run', pend')"
      using assms(1) False u unfolding eq by (cases start) (simp_all split: if_splits)
    from trun_samples_valid [OF t(2)] t(1) assms(2) show ?thesis by (auto simp: queue_grows_def)
  qed
qed

lemma queue_grows_length: "queue_grows h a b \<Longrightarrow> length a \<le> length b"
  by (auto simp: queue_grows_def)

lemma traf_children_grows:
  "traf_children head cs run pend = (ok, run', pend') \<Longrightarrow> head \<le> length pend \<Longrightarrow> queue_grows head pend pend'"
proof (induction cs arbitrary: run pend)
  case (Cons c cs)
  show ?case
  proof (cases "box_type c = FOURCC ''trun''")
    case True
    obtain ok1 run1 pend1 where t: "parse_trun head run (payload c) pend = (ok1, run1, pend1)" by (metis surj_pair)
    note g = parse_trun_grows [OF t Cons.prems(2)]
    show ?thesis
    proof (cases ok1)
      case ok: True
      then have "traf_children head cs run1 pend1 = (ok, run', pend')" using Cons.prems(1) True t by simp
      moreover have "head \<le> length pend1" using queue_grows_length [OF g] Cons.prems(2) by simp
      ultimately show ?thesis using Cons.IH queue_grows_trans [OF g] by blast
    qed (use Cons.prems(1) True t g in auto)
  qed (use Cons in auto)
qed (simp add: queue_grows_refl)

lemma parse_traf_grows:
  assumes "parse_traf head body pos first s = (ok, s')" "head \<le> length (fs_pending s)"
  shows "queue_grows head (fs_pending s) (fs_pending s')" "map public (fs_tracks s') = map public (fs_tracks s)"
proof -
  have "queue_grows head (fs_pending s) (fs_pending s') \<and> map public (fs_tracks s') = map public (fs_tracks s)"
    using assms traf_children_grows queue_grows_refl
    by (auto simp: parse_traf_def update_track_public split: option.splits prod.splits if_splits)
  then show "queue_grows head (fs_pending s) (fs_pending s')" "map public (fs_tracks s') = map public (fs_tracks s)" by auto
qed

lemma moof_children_grows:
  "moof_children head cs pos first s = (ok, s') \<Longrightarrow> head \<le> length (fs_pending s) \<Longrightarrow>
   queue_grows head (fs_pending s) (fs_pending s') \<and> map public (fs_tracks s') = map public (fs_tracks s)"
proof (induction cs arbitrary: first s)
  case (Cons c cs)
  show ?case
  proof (cases "box_type c = FOURCC ''traf''")
    case True
    obtain ok1 s1 where t: "parse_traf head (payload c) pos first s = (ok1, s1)" by (metis surj_pair)
    note g = parse_traf_grows [OF t Cons.prems(2)]
    show ?thesis
    proof (cases ok1)
      case ok: True
      then have "moof_children head cs pos False s1 = (ok, s')" using Cons.prems(1) True t by simp
      moreover have "head \<le> length (fs_pending s1)" using queue_grows_length [OF g(1)] Cons.prems(2) by simp
      ultimately have "queue_grows head (fs_pending s1) (fs_pending s') \<and> map public (fs_tracks s') = map public (fs_tracks s1)"
        using Cons.IH by blast
      then show ?thesis using queue_grows_trans [OF g(1)] g(2) by simp
    qed (use Cons.prems(1) True t g in auto)
  qed (use Cons in auto)
qed (simp add: queue_grows_refl)

lemma parse_moof_valid:
  assumes "parse_moof d body pos = (ok, d')" "mp4_valid d" shows "mp4_valid d'"
proof (cases "mp_has_init d")
  case True
  obtain cs whole where b: "boxes body = (cs, whole)" by (metis surj_pair)
  let ?s = "\<lparr>fs_tracks = mp_tracks d, fs_pending = pending d, previous_traf_data_end = pos\<rparr>"
  obtain ok1 s where m: "moof_children (pending_head d) cs pos True ?s = (ok1, s)" by (metis surj_pair)
  have h: "pending_head d \<le> length (fs_pending ?s)" using assms(2) by (simp add: mp4_valid_def)
  from moof_children_grows [OF m h] have g: "queue_grows (pending_head d) (pending d) (fs_pending s)"
    "map public (fs_tracks s) = map public (mp_tracks d)" by simp_all
  have ts: "tracks_valid (fs_tracks s)" using tracks_valid_public [OF g(2)] assms(2) by (simp add: mp4_valid_def)
  obtain q where q: "fs_pending s = pending d @ q" "list_all pending_valid q" using g(1) by (auto simp: queue_grows_def)
  have d': "d' = d\<lparr>mp_tracks := fs_tracks s, pending := pending d\<rparr> \<or> d' = d\<lparr>mp_tracks := fs_tracks s, pending := fs_pending s\<rparr>"
    using assms(1) True b m q(1) by (auto simp: parse_moof_def split: if_splits)
  have "length (fs_pending s) - pending_head d \<le> NS_MP4_MAX_PENDING_SAMPLES"
    using g(1) assms(2) by (simp add: queue_grows_def mp4_valid_def outstanding_def)
  then have "mp4_valid (d\<lparr>mp_tracks := fs_tracks s, pending := fs_pending s\<rparr>)"
    using ts q assms(2) by (simp add: mp4_valid_def outstanding_def)
  moreover have "mp4_valid (d\<lparr>mp_tracks := fs_tracks s, pending := pending d\<rparr>)"
    using ts assms(2) by (simp add: mp4_valid_def outstanding_def)
  ultimately show ?thesis using d' by auto
qed (use assms in \<open>simp add: parse_moof_def\<close>)

lemma mp4_valid_fields:
  "mp4_valid d \<Longrightarrow> mp_tracks d' = mp_tracks d \<Longrightarrow> sample_index d' = sample_index d \<Longrightarrow>
   pending_head d' \<le> length (pending d') \<Longrightarrow> length (outstanding d') \<le> length (outstanding d) \<Longrightarrow>
   set (pending d') \<subseteq> set (pending d) \<Longrightarrow> mp4_valid d'"
  by (auto simp: mp4_valid_def list_all_iff)

lemma drop_input_valid: "mp4_valid (drop_input n d) = mp4_valid d"
  by (simp add: mp4_valid_def outstanding_def)

lemma compact_pending_valid: "mp4_valid d \<Longrightarrow> mp4_valid (compact_pending d)"
  by (erule mp4_valid_fields) (auto simp: outstanding_def dest: in_set_dropD)

lemma enter_skip_valid: "mp4_valid (mp4_enter_skip n f d) = mp4_valid d"
  by (simp add: mp4_valid_def outstanding_def)

lemma emit_available_head:
  "pending_head d \<le> length (pending d) \<Longrightarrow>
   pending_head d \<le> pending_head (emit_available_mdat_samples d) \<and>
   pending_head (emit_available_mdat_samples d) \<le> length (pending d)"
proof (induction d rule: emit_available_mdat_samples.induct)
  case (1 d)
  let ?p = "pending d ! pending_head d"
  let ?d = "(emit_sample ?p d)\<lparr>pending_head := pending_head d + 1\<rparr>"
  show ?case
  proof (cases "pending_head d < length (pending d) \<and> sample_fits_in_mdat d ?p \<and>
     \<not> pd_position ?p + pd_size ?p > input_position d + length (mp_input d)")
    case True
    then have e: "emit_available_mdat_samples d = emit_available_mdat_samples ?d"
      by (subst emit_available_mdat_samples.simps) (simp add: Let_def)
    have "pending_head ?d \<le> pending_head (emit_available_mdat_samples ?d) \<and>
      pending_head (emit_available_mdat_samples ?d) \<le> length (pending ?d)"
      by (rule 1(1)) (use True in auto)
    then show ?thesis using e by simp
  next
    case False
    then have "emit_available_mdat_samples d = d"
      by (subst emit_available_mdat_samples.simps) (auto simp: Let_def)
    then show ?thesis using 1 by simp
  qed
qed

lemma emit_available_valid: "mp4_valid d \<Longrightarrow> mp4_valid (emit_available_mdat_samples d)"
proof -
  assume v: "mp4_valid d"
  obtain r h where e: "emit_available_mdat_samples d = d\<lparr>mp_ready := r, pending_head := h\<rparr>"
    using emit_available_frame by blast
  have "pending_head d \<le> h \<and> h \<le> length (pending d)"
    using emit_available_head [of d] v by (simp add: e mp4_valid_def)
  with v show ?thesis unfolding e by (elim mp4_valid_fields) (auto simp: outstanding_def)
qed

lemma finish_loop_remaining:
  "finish_loop e ps rem d = (ok, rem', d') \<Longrightarrow> length rem' \<le> length ps + length rem \<and> set rem' \<subseteq> set ps \<union> set rem"
proof (induction ps arbitrary: rem d)
  case (Cons p ps)
  then show ?case
    by (cases "sample_fits_in_mdat d p"; cases "pd_position p \<ge> e") fastforce+
qed auto

lemma finish_mdat_valid:
  assumes "finish_mdat d = (ok, d')" "mp4_valid d" shows "mp4_valid d'"
proof -
  obtain rem d1 where f: "finish_loop (mdat_payload_position d + mdat_payload_length d) (outstanding d) [] d = (ok, rem, d1)"
    and d': "d' = (drop_input (mdat_payload_length d1) (d1\<lparr>pending := if ok then rem else [], pending_head := 0\<rparr>))
                 \<lparr>mp_state := PARSE_BOX_HEADER\<rparr>"
    using assms(1) by (auto simp: finish_mdat_def outstanding_def split: prod.splits)
  obtain r where r: "d1 = d\<lparr>mp_ready := r\<rparr>" using finish_loop_frame [OF f] by blast
  have "length rem \<le> length (outstanding d)" "set rem \<subseteq> set (outstanding d)"
    using finish_loop_remaining [OF f] by auto
  then have "length rem \<le> length (outstanding d)" "set rem \<subseteq> set (pending d)"
    by (auto simp: outstanding_def dest: in_set_dropD)
  with assms(2) show ?thesis unfolding d' r by (elim mp4_valid_fields) (auto simp: outstanding_def)
qed

lemma process_mdat_valid:
  assumes "process_mdat d = (ok, d')" "mp4_valid d"
  shows "mp4_valid d'"
proof -
  let ?e = "emit_available_mdat_samples d"
  have v: "mp4_valid ?e" by (rule emit_available_valid [OF assms(2)])
  show ?thesis
  proof (cases "\<not> mdat_unbounded ?e \<and> length (mp_input ?e) \<ge> mdat_payload_length ?e")
    case True
    then have "finish_mdat ?e = (ok, d')" using assms(1) by (simp add: process_mdat_def Let_def)
    from finish_mdat_valid [OF this v] show ?thesis .
  next
    case False
    then show ?thesis using assms(1) v compact_pending_valid [OF v]
      by (auto simp: process_mdat_def Let_def enter_skip_valid drop_input_valid split: if_splits)
  qed
qed

lemma mp4_valid_state: "mp4_valid (d\<lparr>mp_state := s, mdat_payload_position := a, mdat_payload_length := b, mdat_unbounded := c\<rparr>) = mp4_valid d"
  "mp4_valid (d\<lparr>mp_skip := n\<rparr>) = mp4_valid d" "mp4_valid (d\<lparr>mp_skip := n, mp_state := s\<rparr>) = mp4_valid d"
  "mp4_valid (d\<lparr>mp_input := i\<rparr>) = mp4_valid d" "mp4_valid (d\<lparr>mp_ready := q\<rparr>) = mp4_valid d"
  by (simp_all add: mp4_valid_def outstanding_def)

fun result_state :: "round_result \<Rightarrow> ns_mp4_demuxer" where
  "result_state (Rd_Fail d) = d"
| "result_state (Rd_Wait d) = d"
| "result_state (Rd_Next d) = d"

lemma top_level_valid:
  assumes "mp4_valid d" shows "mp4_valid (result_state (process_top_level_box d))"
proof (cases "peek_top_level_box (mp_input d)")
  case (PEEK_COMPLETE ty tot hl e)
  consider (mdat) "ty = FOURCC ''mdat''" | (hdr) "ty \<noteq> FOURCC ''mdat''" "ty = FOURCC ''moov'' \<or> ty = FOURCC ''moof''"
    | (other) "ty \<noteq> FOURCC ''mdat''" "\<not> (ty = FOURCC ''moov'' \<or> ty = FOURCC ''moof'')" by blast
  then show ?thesis
  proof cases
    case mdat
    have "mp4_valid (drop_input hl d)" using assms by (simp add: drop_input_valid)
    then show ?thesis using mdat compact_pending_valid
      unfolding process_top_level_box_def PEEK_COMPLETE Let_def
      by (simp add: enter_skip_valid mp4_valid_state)
  next
    case other
    then show ?thesis using assms unfolding process_top_level_box_def PEEK_COMPLETE
      by (simp add: enter_skip_valid drop_input_valid)
  next
    case hdr
    let ?body = "take (tot - hl) (drop hl (mp_input d))"
    define r where "r = (if ty = FOURCC ''moov''
         then (case parse_moov d ?body of None \<Rightarrow> (False, d) | Some d' \<Rightarrow> (True, d'))
         else parse_moof d ?body (input_position d))"
    obtain ok d1 where r1: "r = (ok, d1)" by (metis surj_pair)
    have v: "mp4_valid d1"
      using r1 assms parse_moov_valid parse_moof_valid unfolding r_def by (auto split: if_splits option.splits)
    have "process_top_level_box d =
      (if e \<or> tot > NS_MP4_MAX_HEADER_BOX_BYTES then Rd_Fail d else if length (mp_input d) < tot then Rd_Wait d
       else if ok then Rd_Next (drop_input tot d1) else Rd_Fail (drop_input tot d1))"
      unfolding process_top_level_box_def PEEK_COMPLETE peek_result.case Let_def if_not_P [OF hdr(1)] if_P [OF hdr(2)]
        r_def [symmetric] r1 prod.case ..
    then show ?thesis using v assms by (simp add: drop_input_valid)
  qed
qed (use assms in \<open>simp_all add: process_top_level_box_def\<close>)

lemma round_valid:
  assumes "mp4_valid d" shows "mp4_valid (result_state (mp4_round d))"
proof (cases "mp_state d")
  case PARSE_MDAT
  obtain ok d1 where p: "process_mdat d = (ok, d1)" by (metis surj_pair)
  with process_mdat_valid [OF p assms] show ?thesis by (simp add: mp4_round_def PARSE_MDAT)
next
  case PARSE_SKIP
  then show ?thesis using assms by (simp add: mp4_round_def Let_def drop_input_valid mp4_valid_state)
qed (use assms top_level_valid in \<open>simp_all add: mp4_round_def\<close>)

text \<open>How much input a turn can leave behind when it asks for more.\<close>

lemma peek_more: "peek_top_level_box data = PEEK_NEED_MORE \<Longrightarrow> length data < 32"
proof -
  assume a: "peek_top_level_box data = PEEK_NEED_MORE"
  show ?thesis
  proof (rule ccontr)
    assume "\<not> length data < 32"
    then have "\<exists>s t. run_state (do { s \<leftarrow> cursor_u32; t \<leftarrow> cursor_u32; State_Monad.return (s, t) }) (cursor_init data) =
      ((s, t), \<lparr>cur_data = drop 8 data, overrun = False\<rparr>)"
      by (simp add: cursor_reads cursor_remaining_def State_Monad.return_def cursor_init_def)
    then obtain s t where r: "run_state (do { s \<leftarrow> cursor_u32; t \<leftarrow> cursor_u32; State_Monad.return (s, t) }) (cursor_init data) =
      ((s, t), \<lparr>cur_data = drop 8 data, overrun = False\<rparr>)" by blast
    show False using a \<open>\<not> length data < 32\<close> unfolding peek_top_level_box_def r
      by (auto simp: Let_def cursor_reads cursor_remaining_def split: if_splits prod.splits)
  qed
qed

lemma round_wait_input:
  assumes "mp4_round d = Rd_Wait d'"
  shows "length (mp_input d') \<le> NS_MP4_MAX_MDAT_BUFFER_BYTES"
proof (cases "mp_state d")
  case PARSE_BOX_HEADER
  then have p: "process_top_level_box d = Rd_Wait d'" using assms by (simp add: mp4_round_def)
  show ?thesis
  proof (cases "peek_top_level_box (mp_input d)")
    case PEEK_NEED_MORE
    then show ?thesis using p peek_more [OF PEEK_NEED_MORE]
      by (simp add: process_top_level_box_def NS_MP4_MAX_MDAT_BUFFER_BYTES_def)
  next
    case (PEEK_COMPLETE ty tot hl e)
    then have "d' = d \<and> length (mp_input d) < tot \<and> tot \<le> NS_MP4_MAX_HEADER_BOX_BYTES"
      using p by (auto simp: process_top_level_box_def Let_def split: if_splits prod.splits)
    then show ?thesis by (simp add: NS_MP4_MAX_MDAT_BUFFER_BYTES_def NS_MP4_MAX_HEADER_BOX_BYTES_def)
  qed (use p in \<open>simp add: process_top_level_box_def\<close>)
next
  case PARSE_SKIP
  then show ?thesis using assms by (auto simp: mp4_round_def Let_def split: if_splits)
next
  case PARSE_MDAT
  then obtain ok where p: "process_mdat d = (ok, d')" "ok" "mp_state d' = PARSE_MDAT"
    using assms by (auto simp: mp4_round_def split: prod.splits if_splits)
  let ?e = "emit_available_mdat_samples d"
  show ?thesis
  proof (cases "\<not> mdat_unbounded ?e \<and> length (mp_input ?e) \<ge> mdat_payload_length ?e")
    case True
    then have "finish_mdat ?e = (ok, d')" using p(1) by (simp add: process_mdat_def Let_def)
    with finish_mdat_fields(2) [OF this] p(3) show ?thesis by simp
  next
    case False
    then show ?thesis using p by (auto simp: process_mdat_def Let_def split: if_splits)
  qed
qed (use assms in \<open>simp add: mp4_round_def\<close>)

lemma process_input_valid:
  "mp4_process_input d = (ok, d') \<Longrightarrow> mp4_valid d \<Longrightarrow>
   mp4_valid d' \<and> (ok \<longrightarrow> length (mp_input d') \<le> NS_MP4_MAX_MDAT_BUFFER_BYTES)"
proof (induction d rule: mp4_process_input.induct)
  case (1 d)
  show ?case
  proof (cases "mp4_round d")
    case (Rd_Next d1)
    then have "mp4_process_input d1 = (ok, d')" using 1(2) by (simp add: mp4_process_input.simps [of d])
    with 1(1) [OF Rd_Next this] round_valid [OF 1(3)] Rd_Next show ?thesis by simp
  next
    case (Rd_Wait d1)
    then have "ok" "d' = d1" using 1(2) by (simp_all add: mp4_process_input.simps [of d])
    with round_valid [OF 1(3)] round_wait_input [OF Rd_Wait] Rd_Wait show ?thesis by simp
  next
    case (Rd_Fail d1)
    then have "\<not> ok" "d' = d1" using 1(2) by (simp_all add: mp4_process_input.simps [of d])
    with round_valid [OF 1(3)] Rd_Fail show ?thesis by simp
  qed
qed

definition mp4_buffered :: "ns_mp4_demuxer \<Rightarrow> bool" where
  "mp4_buffered d \<longleftrightarrow> length (mp_input d) \<le> NS_MP4_MAX_MDAT_BUFFER_BYTES"

lemma append_loop_valid:
  "mp4_append_loop d data = (ok, d') \<Longrightarrow> mp4_valid d \<Longrightarrow> mp4_buffered d \<Longrightarrow> mp4_valid d' \<and> mp4_buffered d'"
proof (induction d data rule: mp4_append_loop.induct)
  case (1 d data)
  show ?case
  proof (cases "data = []")
    case True
    then show ?thesis using 1 by (simp add: mp4_append_loop.simps [of d "[]"])
  next
    case False
    obtain ok1 d1 where p: "mp4_process_input (d\<lparr>mp_input := mp_input d @ take MP4_APPEND_CHUNK data\<rparr>) = (ok1, d1)"
      by (metis surj_pair)
    have v: "mp4_valid d1 \<and> (ok1 \<longrightarrow> mp4_buffered d1)"
      using process_input_valid [OF p] 1(3) by (simp add: mp4_valid_state mp4_buffered_def)
    show ?thesis
    proof (cases ok1)
      case True
      then have "mp4_append_loop d1 (drop MP4_APPEND_CHUNK data) = (ok, d')"
        using 1(2) False p by (simp add: mp4_append_loop.simps [of d data])
      then show ?thesis using 1(1) [OF False p [symmetric]] True v by simp
    next
      case no: False
      then have "d' = d1\<lparr>mp_state := PARSE_ERROR, mp_input := [], pending := [], pending_head := 0\<rparr>"
        using 1(2) False p by (simp add: mp4_append_loop.simps [of d data])
      then show ?thesis using v by (simp add: mp4_valid_def mp4_buffered_def outstanding_def)
    qed
  qed
qed

lemma reach_valid: "mp4_reach S d \<Longrightarrow> mp4_valid d \<and> mp4_buffered d"
proof (induction rule: mp4_reach.induct)
  case mr_new
  show ?case
    by (simp add: mp4_valid_def mp4_buffered_def ns_mp4_demuxer_new_def tracks_valid_def index_valid_def outstanding_def)
next
  case (mr_append S d data ok d')
  then show ?case using append_loop_valid [of d data ok d'] by (auto simp: ns_mp4_demuxer_append_def split: if_splits)
next
  case (mr_pop S d s d')
  obtain q where "d' = d\<lparr>mp_ready := q\<rparr>" by (rule pop_fields [OF mr_pop.hyps(2)])
  then show ?case using mr_pop by (simp add: mp4_valid_state mp4_buffered_def)
next
  case (mr_reset S d)
  have "tracks_valid (map (\<lambda>t. t\<lparr>has_next_decode_time := False, next_decode_time := 0\<rparr>) (mp_tracks d))"
    by (rule tracks_valid_map) (use mr_reset in \<open>simp_all add: mp4_valid_def\<close>)
  then show ?case using mr_reset
    by (simp add: ns_mp4_demuxer_reset_parser_def mp4_clear_parser_state_def mp4_valid_def mp4_buffered_def outstanding_def Let_def)
next
  case (mr_extract S d pos data n d')
  obtain q where "d' = d\<lparr>mp_ready := q\<rparr>" by (rule extract_fields [OF mr_extract.hyps(2)])
  then show ?case using mr_extract by (simp add: mp4_valid_state mp4_buffered_def)
qed

text \<open>
  C17: Whatever bytes it is fed, the MP4 demuxer stays within its limits: at most 64 tracks with distinct
  nonzero identifiers and time scales, a sample index of at most 2^21 entries ordered by position, at most
  2^18 announced samples whose positions and times cannot overflow 64 bits, and at most 512 MiB of
  buffered input.
\<close>

theorem mp4_limits_kept: "mp4_reach S d \<Longrightarrow> mp4_valid d \<and> mp4_buffered d"
  by (rule reach_valid)

theorem mp4_limits_kept_witness:
  "mp4_valid (snd (ns_mp4_demuxer_append ns_mp4_demuxer_new example_init)) \<and>
   length (mp_tracks (snd (ns_mp4_demuxer_append ns_mp4_demuxer_new example_init))) = 1"
proof -
  obtain ok d' where a: "ns_mp4_demuxer_append ns_mp4_demuxer_new example_init = (ok, d')" by (metis surj_pair)
  have "length (mp_tracks (snd (ns_mp4_demuxer_append ns_mp4_demuxer_new example_init))) = 1" by code_simp
  with mp4_limits_kept [OF mr_append [OF mr_new a]] a show ?thesis by simp
qed

end
