(* ===== verification/Mp4Index.thy ===== *)
theory Mp4Index
  imports Mp4Stream
begin

text \<open>
  The sample index of the MP4 demuxer: the readers of the sample tables deliver what the tables say, the
  index built from them has each sample's time, size and place, and reading a part of the file extracts
  exactly the samples that are in it.
\<close>

section \<open>Extracting samples\<close>

lemma bisect_stop: "\<not> lo < hi \<Longrightarrow> index_bisect index pos lo hi = lo"
  by (subst index_bisect.simps) simp

lemma bisect_right:
  "lo < hi \<Longrightarrow> lo + (hi - lo) div 2 = mid \<Longrightarrow> ix_position (index ! mid) < pos \<Longrightarrow>
   index_bisect index pos lo hi = index_bisect index pos (mid + 1) hi"
  by (subst index_bisect.simps) (simp add: Let_def)

lemma bisect_left:
  "lo < hi \<Longrightarrow> lo + (hi - lo) div 2 = mid \<Longrightarrow> \<not> ix_position (index ! mid) < pos \<Longrightarrow>
   index_bisect index pos lo hi = index_bisect index pos lo mid"
  by (subst index_bisect.simps) (simp add: Let_def)

definition splits_at :: "indexed_sample list \<Rightarrow> nat \<Rightarrow> nat \<Rightarrow> nat \<Rightarrow> bool" where
  "splits_at index pos lo hi \<longleftrightarrow> hi \<le> length index \<and> (\<forall>i < lo. ix_position (index ! i) < pos) \<and>
     (\<forall>i. hi \<le> i \<longrightarrow> i < length index \<longrightarrow> pos \<le> ix_position (index ! i))"

lemma bisect_bounds:
  assumes s: "sorted (map ix_position index)"
  shows "lo \<le> hi \<Longrightarrow> splits_at index pos lo hi \<Longrightarrow>
    splits_at index pos (index_bisect index pos lo hi) (index_bisect index pos lo hi)"
proof (induction "hi - lo" arbitrary: lo hi rule: less_induct)
  case less
  have mono: "ix_position (index ! i) \<le> ix_position (index ! j)" if "i \<le> j" "j < length index" for i j
    using sorted_nth_mono [OF s, of i j] that by simp
  show ?case
  proof (cases "lo < hi")
    case False
    then have "hi = lo" using less(2) by simp
    then show ?thesis using less(3) bisect_stop [OF False] by simp
  next
    case True
    define mid where "mid = lo + (hi - lo) div 2"
    have mid: "lo \<le> mid" "mid < hi" using True unfolding mid_def by linarith+
    show ?thesis
    proof (cases "ix_position (index ! mid) < pos")
      case below: True
      have "ix_position (index ! i) < pos" if "i < mid + 1" for i
      proof -
        have "mid < length index" using mid less(3) by (simp add: splits_at_def)
        from mono [OF _ this, of i] that below show ?thesis by simp
      qed
      then have "splits_at index pos (mid + 1) hi" using less(3) by (simp add: splits_at_def)
      moreover have "hi - (mid + 1) < hi - lo" using mid by simp
      ultimately show ?thesis
        using less(1) [of hi "mid + 1"] mid bisect_right [OF True mid_def [symmetric] below] by simp
    next
      case ge: False
      have "pos \<le> ix_position (index ! i)" if "mid \<le> i" "i < length index" for i
        using mono [OF that] ge by simp
      then have "splits_at index pos lo mid" using less(3) mid by (simp add: splits_at_def)
      moreover have "mid - lo < hi - lo" using mid by simp
      ultimately show ?thesis
        using less(1) [of mid lo] mid bisect_left [OF True mid_def [symmetric] ge] by simp
    qed
  qed
qed

lemma bisect_filter:
  assumes "sorted (map ix_position index)"
  shows "drop (index_bisect index position 0 (length index)) index = filter (\<lambda>s. position \<le> ix_position s) index"
proof -
  let ?n = "index_bisect index position 0 (length index)"
  have "splits_at index position ?n ?n"
    by (rule bisect_bounds [OF assms]) (simp_all add: splits_at_def)
  then have b: "?n \<le> length index" "\<forall>i < ?n. ix_position (index ! i) < position"
    "\<forall>i. ?n \<le> i \<longrightarrow> i < length index \<longrightarrow> position \<le> ix_position (index ! i)"
    by (simp_all add: splits_at_def)
  have "filter (\<lambda>s. position \<le> ix_position s) (take ?n index) = []"
    using b(1,2) by (auto simp: filter_empty_conv in_set_conv_nth not_le)
  moreover have "filter (\<lambda>s. position \<le> ix_position s) (drop ?n index) = drop ?n index"
    using b by (auto simp: filter_id_conv in_set_conv_nth)
  ultimately show ?thesis by (metis append_Nil append_take_drop_id filter_append)
qed

definition in_range :: "nat \<Rightarrow> u8 list \<Rightarrow> indexed_sample \<Rightarrow> bool" where
  "in_range position data s \<longleftrightarrow> ix_position s + ix_size s \<le> position + length data"

lemma extract_loop_result:
  "\<forall>s\<in>set ss. position \<le> ix_position s \<Longrightarrow>
   extract_loop ss position data q =
     (case dropWhile (in_range position data) ss of [] \<Rightarrow> None | s # _ \<Rightarrow> Some (ix_position s),
      q @ map (extracted position data) (takeWhile (in_range position data) ss))"
proof (induction ss arbitrary: q)
  case (Cons s ss)
  have "(ix_position s - position > length data \<or> ix_size s > length data - (ix_position s - position)) \<longleftrightarrow>
      \<not> in_range position data s"
    using Cons.prems by (auto simp: in_range_def)
  then show ?case using Cons by (simp add: Let_def)
qed simp

definition file_sample :: "u8 list \<Rightarrow> indexed_sample \<Rightarrow> ns_mp4_sample" where
  "file_sample file s =
     \<lparr>smp_track = ix_track s, dts = ix_dts s, pts = ix_pts s, duration = ix_duration s, keyframe = ix_keyframe s,
      smp_data = take (ix_size s) (drop (ix_position s) file)\<rparr>"

lemma extracted_file:
  assumes "data = take (length data) (drop position file)" "position \<le> ix_position s" "in_range position data s"
  shows "extracted position data s = file_sample file s"
proof -
  let ?k = "ix_position s - position"
  have "take (ix_size s) (drop ?k data) = take (ix_size s) (drop ?k (take (length data) (drop position file)))"
    using assms(1) by simp
  also have "\<dots> = take (ix_size s) (take (length data - ?k) (drop (ix_position s) file))"
    using assms(2) by (simp add: drop_take)
  also have "\<dots> = take (ix_size s) (drop (ix_position s) file)"
    using assms(2,3) by (simp add: in_range_def min_absorb1)
  finally show ?thesis by (simp add: extracted_def file_sample_def)
qed

lemma extract_result:
  assumes "mp4_valid d" "mp_has_init d" "sample_index d = Some index"
    "data = take (length data) (drop position file)"
  shows "ns_mp4_demuxer_index_extract d position data =
    (case dropWhile (in_range position data) (filter (\<lambda>s. position \<le> ix_position s) index) of
       [] \<Rightarrow> None | s # _ \<Rightarrow> Some (ix_position s),
     d\<lparr>mp_ready := mp_ready d @
        map (file_sample file) (takeWhile (in_range position data) (filter (\<lambda>s. position \<le> ix_position s) index))\<rparr>)"
proof -
  let ?c = "filter (\<lambda>s. position \<le> ix_position s) index"
  have s: "sorted (map ix_position index)" using assms(1,3) by (simp add: mp4_valid_def index_valid_def)
  have m: "map (extracted position data) (takeWhile (in_range position data) ?c) =
      map (file_sample file) (takeWhile (in_range position data) ?c)"
    by (rule map_cong [OF refl]) (auto dest!: set_takeWhileD intro: extracted_file [OF assms(4)])
  have "\<forall>s\<in>set ?c. position \<le> ix_position s" by simp
  from extract_loop_result [OF this, of data "mp_ready d"]
  show ?thesis
    unfolding ns_mp4_demuxer_index_extract_def assms(2,3) prod.case option.case bool.case if_True bisect_filter [OF s] m
    using assms(2) by simp
qed

text \<open>
  C19: Given any part of an indexed file, the demuxer queues, in file order, exactly the samples that start
  in the part and end within it, up to the first that does not, each with its bytes of the file; and it
  answers with the position of that first sample, from which the client has to read on.
\<close>

theorem mp4_extracts_part:
  assumes "mp4_reach S d" "mp_has_init d" "sample_index d = Some index"
    "data = take (length data) (drop position file)"
  shows "ns_mp4_demuxer_index_extract d position data =
    (case dropWhile (in_range position data) (filter (\<lambda>s. position \<le> ix_position s) index) of
       [] \<Rightarrow> None | s # _ \<Rightarrow> Some (ix_position s),
     d\<lparr>mp_ready := mp_ready d @
        map (file_sample file) (takeWhile (in_range position data) (filter (\<lambda>s. position \<le> ix_position s) index))\<rparr>)"
  by (rule extract_result [OF conjunct1 [OF reach_valid [OF assms(1)]] assms(2-4)])

text \<open>A movie header with one track of two samples, of 2 bytes at position 2 and of 1 byte at position 8.\<close>

definition example_movie :: "u8 list" where
  "example_movie =
     [0, 0, 0, 212, 109, 111, 111, 118, 0, 0, 0, 204, 116, 114, 97, 107, 0, 0, 0, 24, 116, 107, 104, 100, 0, 0, 0, 0,
      0, 0, 0, 0, 0, 0, 0, 0, 0, 0, 0, 1, 0, 0, 0, 172, 109, 100, 105, 97, 0, 0, 0, 24, 109, 100, 104, 100,
      0, 0, 0, 0, 0, 0, 0, 0, 0, 0, 0, 0, 0, 0, 3, 232, 0, 0, 0, 140, 109, 105, 110, 102, 0, 0, 0, 132,
      115, 116, 98, 108, 0, 0, 0, 28, 115, 116, 115, 122, 0, 0, 0, 0, 0, 0, 0, 0, 0, 0, 0, 2, 0, 0, 0, 2,
      0, 0, 0, 1, 0, 0, 0, 24, 115, 116, 99, 111, 0, 0, 0, 0, 0, 0, 0, 2, 0, 0, 0, 2, 0, 0, 0, 8,
      0, 0, 0, 28, 115, 116, 115, 99, 0, 0, 0, 0, 0, 0, 0, 1, 0, 0, 0, 1, 0, 0, 0, 1, 0, 0, 0, 1,
      0, 0, 0, 24, 115, 116, 116, 115, 0, 0, 0, 0, 0, 0, 0, 1, 0, 0, 0, 2, 0, 0, 0, 5, 0, 0, 0, 20,
      115, 116, 115, 115, 0, 0, 0, 0, 0, 0, 0, 1, 0, 0, 0, 1]"

theorem mp4_extracts_part_witness:
  "\<exists>d index. sample_index d = Some index \<and> map ix_position index = [2, 8] \<and>
     fst (ns_mp4_demuxer_index_extract d 1 [11, 12, 13, 14]) = Some 8 \<and>
     map smp_data (mp_ready (snd (ns_mp4_demuxer_index_extract d 1 [11, 12, 13, 14]))) = [[12, 13]]"
proof -
  let ?a = "ns_mp4_demuxer_append ns_mp4_demuxer_new example_movie"
  obtain ok d where a: "?a = (ok, d)" by (metis surj_pair)
  have "(case ?a of (ok, d) \<Rightarrow> (mp_has_init d, map_option (map (\<lambda>s. (ix_position s, ix_size s))) (sample_index d),
      length (mp_ready d))) = (True, Some [(2, 2), (8, 1)], 0)"
    by code_simp
  then obtain index where i: "mp_has_init d" "sample_index d = Some index"
    "map (\<lambda>s. (ix_position s, ix_size s)) index = [(2, 2), (8, 1)]" "mp_ready d = []"
    using a by auto
  then obtain s t where st: "index = [s, t]" "ix_position s = 2" "ix_position t = 8" "ix_size s = 2" "ix_size t = 1"
    by (auto simp: map_eq_Cons_conv)
  have "([11, 12, 13, 14] :: u8 list) = take (length ([11, 12, 13, 14] :: u8 list)) (drop 1 [10, 11, 12, 13, 14, 15])" by simp
  from mp4_extracts_part [OF mr_append [OF mr_new a] i(1,2) this] i st show ?thesis
    by (intro exI [of _ d] exI [of _ index]) (simp add: in_range_def file_sample_def)
qed

section \<open>Run-length tables\<close>

text \<open>The entries of a table of pairs, and the value a run-length table gives the \<open>k\<close>-th sample.\<close>

fun table_pairs :: "nat \<Rightarrow> u8 list \<Rightarrow> (nat \<times> nat) list" where
  "table_pairs 0 bytes = []"
| "table_pairs (Suc n) bytes =
     (be_value 0 (take 4 bytes), be_value 0 (take 4 (drop 4 bytes))) # table_pairs n (drop 8 bytes)"

fun run_at :: "(nat \<times> nat) list \<Rightarrow> nat \<Rightarrow> nat \<Rightarrow> nat" where
  "run_at [] final k = final"
| "run_at ((n, v) # es) final k = (if k < n then v else run_at es v (k - n))"

text \<open>The state of a reader after \<open>k\<close> values, and the value it then gives.\<close>

definition after :: "('s, 'a) state \<Rightarrow> nat \<Rightarrow> 's \<Rightarrow> 's" where
  "after m k s = ((\<lambda>s. snd (run_state m s)) ^^ k) s"

definition nth_value :: "('s, 'a) state \<Rightarrow> nat \<Rightarrow> 's \<Rightarrow> 'a" where
  "nth_value m k s = fst (run_state m (after m k s))"

lemma after_Suc: "after m (Suc k) s = snd (run_state m (after m k s))"
  by (simp add: after_def)

lemma after_step: "after m (Suc k) s = after m k (snd (run_state m s))"
  by (simp add: after_def funpow_Suc_right del: funpow.simps)

lemma after_0 [simp]: "after m 0 s = s" by (simp add: after_def)

lemma nth_value_step: "nth_value m (Suc k) s = nth_value m k (snd (run_state m s))"
  by (simp add: nth_value_def after_step)

definition reader_ok :: "run_reader \<Rightarrow> bool" where
  "reader_ok r \<longleftrightarrow> \<not> overrun (run_cursor r) \<and> 8 * entries r \<le> length (cur_data (run_cursor r))"

definition reader_runs :: "run_reader \<Rightarrow> (nat \<times> nat) list" where
  "reader_runs r = (run_left r, run_value r) # table_pairs (entries r) (cur_data (run_cursor r))"

lemma fill_runs:
  "reader_ok r \<Longrightarrow> reader_ok (run_reader_fill r) \<and>
     run_at (reader_runs (run_reader_fill r)) v k = run_at (reader_runs r) v k \<and>
     (run_left (run_reader_fill r) > 0 \<or> entries (run_reader_fill r) = 0)"
proof (induction r rule: run_reader_fill.induct)
  case (1 r)
  show ?case
  proof (cases "run_left r = 0 \<and> entries r > 0")
    case True
    let ?b = "cur_data (run_cursor r)"
    let ?c = "\<lparr>cur_data = drop 8 ?b, overrun = False\<rparr>"
    have len: "8 \<le> length ?b" using True 1(2) by (auto simp: reader_ok_def)
    have read: "run_state (do { n \<leftarrow> cursor_u32; v \<leftarrow> cursor_u32; State_Monad.return (n, v) }) (run_cursor r) =
        ((be_value 0 (take 4 ?b), be_value 0 (take 4 (drop 4 ?b))), ?c)"
      using len 1(2) by (auto simp: reader_ok_def cursor_reads cursor_remaining_def State_Monad.return_def)
    let ?r = "r\<lparr>run_cursor := ?c, run_left := be_value 0 (take 4 ?b), run_value := be_value 0 (take 4 (drop 4 ?b)),
      entries := entries r - 1\<rparr>"
    have e: "run_reader_fill r = run_reader_fill ?r"
      unfolding run_reader_fill.simps [of r] if_P [OF True] read prod.case ..
    obtain m where m: "entries r = Suc m" using True by (cases "entries r") auto
    have ok: "reader_ok ?r" using 1(2) m by (auto simp: reader_ok_def)
    have same: "run_at (reader_runs ?r) v k = run_at (reader_runs r) v k"
      using True m by (simp add: reader_runs_def)
    have "reader_ok (run_reader_fill ?r) \<and> run_at (reader_runs (run_reader_fill ?r)) v k = run_at (reader_runs ?r) v k \<and>
       (run_left (run_reader_fill ?r) > 0 \<or> entries (run_reader_fill ?r) = 0)"
      by (rule 1(1) [OF True read [symmetric]]) (use ok in simp_all)
    then show ?thesis using e same by simp
  next
    case False
    have "run_reader_fill r = r" unfolding run_reader_fill.simps [of r] if_not_P [OF False] ..
    then show ?thesis using 1(2) False by auto
  qed
qed

lemma next_runs:
  assumes "reader_ok r"
  shows "fst (run_state run_reader_next r) = run_at (reader_runs r) v 0"
    "reader_ok (snd (run_state run_reader_next r))"
    "run_at (reader_runs (snd (run_state run_reader_next r))) v k = run_at (reader_runs r) v (Suc k)"
proof -
  let ?f = "run_reader_fill r"
  have f: "reader_ok ?f" "run_left ?f > 0 \<or> entries ?f = 0" "\<And>k. run_at (reader_runs ?f) v k = run_at (reader_runs r) v k"
    using fill_runs [OF assms] by auto
  have "fst (run_state run_reader_next r) = run_value ?f" by (simp add: run_reader_next_def Let_def)
  also have "\<dots> = run_at (reader_runs ?f) v 0" using f(2) by (auto simp: reader_runs_def)
  finally show "fst (run_state run_reader_next r) = run_at (reader_runs r) v 0" using f(3) by simp
  show "reader_ok (snd (run_state run_reader_next r))"
    using f(1) by (auto simp: run_reader_next_def Let_def reader_ok_def)
  have "run_at (reader_runs (snd (run_state run_reader_next r))) v k = run_at (reader_runs ?f) v (Suc k)"
    using f(2) by (auto simp: run_reader_next_def Let_def reader_runs_def)
  then show "run_at (reader_runs (snd (run_state run_reader_next r))) v k = run_at (reader_runs r) v (Suc k)"
    using f(3) by simp
qed

lemma nth_run: "reader_ok r \<Longrightarrow> nth_value run_reader_next k r = run_at (reader_runs r) v k"
proof (induction k arbitrary: r)
  case 0
  then show ?case using next_runs(1) by (simp add: nth_value_def)
next
  case (Suc k)
  then show ?case using next_runs(2,3) [OF Suc.prems] by (simp add: nth_value_step)
qed

text \<open>The entries of a run-length table box, the empty list when the box is missing.\<close>

definition run_table :: "u8 list option \<Rightarrow> (nat \<times> nat) list" where
  "run_table box0 = (case box0 of None \<Rightarrow> []
     | Some body \<Rightarrow> table_pairs (be_value 0 (take 4 (drop 4 body))) (drop 8 body))"

lemma open_runs:
  assumes "run_reader_open box0 = Some r"
  shows "reader_ok r" "run_at (reader_runs r) 0 k = run_at (run_table box0) 0 k"
proof -
  have "reader_ok r \<and> run_at (reader_runs r) 0 k = run_at (run_table box0) 0 k"
  proof (cases box0)
    case None
    then show ?thesis using assms by (auto simp: run_reader_open_def reader_ok_def reader_runs_def run_table_def)
  next
    case (Some body)
    show ?thesis using assms unfolding Some
      by (auto simp: run_reader_open_def table_open_def reader_ok_def reader_runs_def run_table_def cursor_reads
          cursor_remaining_def split: if_splits option.splits prod.splits)
  qed
  then show "reader_ok r" "run_at (reader_runs r) 0 k = run_at (run_table box0) 0 k" by auto
qed

section \<open>Size tables\<close>

definition size_field :: "nat \<Rightarrow> u8 list \<Rightarrow> nat \<Rightarrow> nat" where
  "size_field bits bytes k =
     (if bits = 4 then
        (let b = be_value 0 (take 1 (drop (k div 2) bytes)) in if k mod 2 = 0 then b div 16 else b mod 16)
      else be_value 0 (take (bits div 8) (drop (k * (bits div 8)) bytes)))"

definition fields_used :: "nat \<Rightarrow> nat \<Rightarrow> nat" where
  "fields_used bits k = (if bits = 4 then (k + 1) div 2 else k * (bits div 8))"

text \<open>The size reader after \<open>k\<close> of its values, over the bytes of its fields.\<close>

definition sizes_after :: "u8 list \<Rightarrow> nat \<Rightarrow> size_reader \<Rightarrow> bool" where
  "sizes_after bytes k r \<longleftrightarrow> \<not> overrun (sz_cursor r) \<and> sz_constant r < 2 ^ 32 \<and>
     (sz_constant r = 0 \<longrightarrow>
        field_bits r \<in> {4, 8, 16, 32} \<and> sz_count r * field_bits r \<le> length bytes * 8 \<and> sz_read r = k \<and>
        cur_data (sz_cursor r) = drop (fields_used (field_bits r) k) bytes \<and>
        (field_bits r = 4 \<and> k mod 2 = 1 \<longrightarrow> pending_nibble r = be_value 0 (take 1 (drop (k div 2) bytes))))"

definition reader_size :: "u8 list \<Rightarrow> size_reader \<Rightarrow> nat \<Rightarrow> nat" where
  "reader_size bytes r k = (if sz_constant r \<noteq> 0 then sz_constant r else size_field (field_bits r) bytes k)"

lemma size_next_constant:
  assumes "sz_constant r \<noteq> 0"
  shows "run_state size_reader_next r = (sz_constant r, r\<lparr>sz_read := sz_read r + 1\<rparr>)"
  using assms by (simp add: size_reader_next_def Let_def)

lemma size_next_nibble_odd:
  assumes "sz_constant r = 0" "field_bits r = 4" "sz_read r mod 2 = 1"
  shows "run_state size_reader_next r = (pending_nibble r mod 16, r\<lparr>sz_read := sz_read r + 1\<rparr>)"
  using assms by (simp add: size_reader_next_def Let_def)

lemma size_next_nibble_even:
  assumes "sz_constant r = 0" "field_bits r = 4" "sz_read r mod 2 = 0" "\<not> overrun (sz_cursor r)" "1 \<le> length (cur_data (sz_cursor r))"
  shows "run_state size_reader_next r = (be_value 0 (take 1 (cur_data (sz_cursor r))) div 16,
     r\<lparr>sz_read := sz_read r + 1, sz_cursor := (sz_cursor r)\<lparr>cur_data := drop 1 (cur_data (sz_cursor r))\<rparr>,
       pending_nibble := be_value 0 (take 1 (cur_data (sz_cursor r)))\<rparr>)"
proof -
  have "run_state cursor_u8 (sz_cursor r) =
     (be_value 0 (take 1 (cur_data (sz_cursor r))), (sz_cursor r)\<lparr>cur_data := drop 1 (cur_data (sz_cursor r))\<rparr>)"
    using assms(4,5) by (cases "cur_data (sz_cursor r)") (simp_all add: cursor_u8_def cursor_remaining_def)
  then show ?thesis using assms(1-3) by (simp add: size_reader_next_def Let_def)
qed

lemma size_next_bytes:
  assumes "sz_constant r = 0" "field_bits r \<in> {8, 16, 32}" "\<not> overrun (sz_cursor r)"
    "field_bits r div 8 \<le> length (cur_data (sz_cursor r))"
  shows "run_state size_reader_next r = (be_value 0 (take (field_bits r div 8) (cur_data (sz_cursor r))),
     r\<lparr>sz_read := sz_read r + 1, sz_cursor := (sz_cursor r)\<lparr>cur_data := drop (field_bits r div 8) (cur_data (sz_cursor r))\<rparr>\<rparr>)"
proof -
  have "run_state (if field_bits r = 8 then cursor_u8 else if field_bits r = 16 then cursor_u16 else cursor_u32) (sz_cursor r) =
     (be_value 0 (take (field_bits r div 8) (cur_data (sz_cursor r))),
      (sz_cursor r)\<lparr>cur_data := drop (field_bits r div 8) (cur_data (sz_cursor r))\<rparr>)"
    using assms(2-4) by (auto simp: cursor_reads cursor_remaining_def)
  then show ?thesis using assms(1,2) by (auto simp: size_reader_next_def Let_def)
qed

lemma size_next:
  assumes s: "sizes_after bytes k r" and k: "k < sz_count r"
  shows "fst (run_state size_reader_next r) = reader_size bytes r k"
    "sizes_after bytes (Suc k) (snd (run_state size_reader_next r))"
    "sz_constant (snd (run_state size_reader_next r)) = sz_constant r"
    "field_bits (snd (run_state size_reader_next r)) = field_bits r"
    "sz_count (snd (run_state size_reader_next r)) = sz_count r"
proof -
  have "fst (run_state size_reader_next r) = reader_size bytes r k \<and>
    sizes_after bytes (Suc k) (snd (run_state size_reader_next r)) \<and>
    sz_constant (snd (run_state size_reader_next r)) = sz_constant r \<and>
    field_bits (snd (run_state size_reader_next r)) = field_bits r \<and>
    sz_count (snd (run_state size_reader_next r)) = sz_count r"
  proof (cases "sz_constant r = 0")
    case False
    then show ?thesis using s by (simp add: size_next_constant reader_size_def sizes_after_def)
  next
    case z: True
    then have f: "field_bits r \<in> {4, 8, 16, 32}" "sz_count r * field_bits r \<le> length bytes * 8" "sz_read r = k"
      "cur_data (sz_cursor r) = drop (fields_used (field_bits r) k) bytes" "\<not> overrun (sz_cursor r)"
      using s by (auto simp: sizes_after_def)
    have room: "Suc k * field_bits r \<le> length bytes * 8"
      using f(2) k by (meson Suc_leI le_trans mult_le_mono1)
    consider (odd) "field_bits r = 4" "k mod 2 = 1" | (even) "field_bits r = 4" "k mod 2 = 0"
      | (bytes) "field_bits r \<in> {8, 16, 32}" using f(1) by fastforce
    then show ?thesis
    proof cases
      case odd
      have "(k + 2) div 2 = (k + 1) div 2" "Suc k mod 2 = 0" using odd(2) by presburger+
      then show ?thesis using s z odd f size_next_nibble_odd [OF z odd(1)]
        by (auto simp: sizes_after_def reader_size_def size_field_def Let_def fields_used_def)
    next
      case even
      have u: "(k + 1) div 2 = k div 2" "(k + 2) div 2 = Suc (k div 2)" "Suc k div 2 = k div 2" "k div 2 < length bytes"
        using even room by presburger+
      have d: "cur_data (sz_cursor r) = drop (k div 2) bytes" using f(4) even u by (simp add: fields_used_def)
      then have "1 \<le> length (cur_data (sz_cursor r))" using u by simp
      from size_next_nibble_even [OF z even(1) _ f(5) this] even f(3)
      have n: "run_state size_reader_next r = (be_value 0 (take 1 (cur_data (sz_cursor r))) div 16,
         r\<lparr>sz_read := sz_read r + 1, sz_cursor := (sz_cursor r)\<lparr>cur_data := drop 1 (cur_data (sz_cursor r))\<rparr>,
           pending_nibble := be_value 0 (take 1 (cur_data (sz_cursor r)))\<rparr>)" by simp
      show ?thesis unfolding n using s z even f u
        by (auto simp: sizes_after_def reader_size_def size_field_def Let_def fields_used_def d)
    next
      case bytes
      then have b4: "field_bits r \<noteq> 4" and div8: "field_bits r div 8 * 8 = field_bits r" by auto
      have "Suc k * (field_bits r div 8) \<le> length bytes"
        using room div8 by (metis mult.assoc mult_le_cancel2 zero_less_numeral)
      then have len: "field_bits r div 8 \<le> length (cur_data (sz_cursor r))"
        using f(4) b4 by (simp add: fields_used_def)
      show ?thesis unfolding size_next_bytes [OF z bytes f(5) len] using s z f b4
        by (auto simp: sizes_after_def reader_size_def size_field_def fields_used_def add.commute)
    qed
  qed
  then show "fst (run_state size_reader_next r) = reader_size bytes r k"
    "sizes_after bytes (Suc k) (snd (run_state size_reader_next r))"
    "sz_constant (snd (run_state size_reader_next r)) = sz_constant r"
    "field_bits (snd (run_state size_reader_next r)) = field_bits r"
    "sz_count (snd (run_state size_reader_next r)) = sz_count r" by auto
qed

lemma nth_size:
  assumes "sizes_after bytes 0 r" "k \<le> sz_count r"
  shows "sizes_after bytes k (after size_reader_next k r)"
    "reader_size bytes (after size_reader_next k r) = reader_size bytes r"
    "sz_count (after size_reader_next k r) = sz_count r"
proof -
  have "sizes_after bytes k (after size_reader_next k r) \<and>
    reader_size bytes (after size_reader_next k r) = reader_size bytes r \<and>
    sz_count (after size_reader_next k r) = sz_count r" using assms(2)
  proof (induction k)
    case (Suc k)
    then have "sizes_after bytes k (after size_reader_next k r)" "k < sz_count (after size_reader_next k r)" by auto
    from size_next [OF this] Suc show ?case by (auto simp: after_Suc reader_size_def fun_eq_iff)
  qed (use assms(1) in simp)
  then show "sizes_after bytes k (after size_reader_next k r)"
    "reader_size bytes (after size_reader_next k r) = reader_size bytes r"
    "sz_count (after size_reader_next k r) = sz_count r" by auto
qed

text \<open>The size the tables give the \<open>k\<close>-th sample.\<close>

definition sample_size :: "sample_tables \<Rightarrow> nat \<Rightarrow> nat" where
  "sample_size t k =
     (case stsz t of
        Some body \<Rightarrow>
          (let c = be_value 0 (take 4 (drop 4 body)) in if c \<noteq> 0 then c else size_field 32 (drop 12 body) k)
      | None \<Rightarrow> (case stz2 t of None \<Rightarrow> 0
          | Some body \<Rightarrow> size_field (be_value 0 (take 1 (drop 7 body))) (drop 12 body) k))"

lemma open_sizes:
  assumes "size_reader_open t = Some r"
  shows "\<exists>bytes. sizes_after bytes 0 r \<and> reader_size bytes r = sample_size t"
proof (cases "stsz t")
  case (Some body)
  obtain c n cur where r: "run_state (do { cursor_skip 4; k \<leftarrow> cursor_u32; n \<leftarrow> cursor_u32; State_Monad.return (k, n) }) (cursor_init body) = ((c, n), cur)"
    by (metis surj_pair)
  have len: "\<not> overrun cur" using assms unfolding size_reader_open_def Some option.case r prod.case by (simp split: if_splits)
  then have l: "12 \<le> length body" "c = be_value 0 (take 4 (drop 4 body))" "cur = \<lparr>cur_data = drop 12 body, overrun = False\<rparr>"
    using r by (auto simp: cursor_reads cursor_remaining_def State_Monad.return_def cursor_init_def split: if_splits)
  have "c < 2 ^ 32" using l(1,2) be_value_bound [of 0 "take 4 (drop 4 body)"] by simp
  have rd: "(c \<noteq> 0 \<or> n \<le> (length body - 12) div 4) \<and>
      r = \<lparr>sz_cursor = cur, sz_constant = c, sz_count = n, field_bits = 32, sz_read = 0, pending_nibble = 0\<rparr>"
    using assms len unfolding size_reader_open_def Some option.case r prod.case
    by (simp add: l(3) cursor_remaining_def split: if_splits)
  have "sizes_after (drop 12 body) 0 r"
    using rd l \<open>c < 2 ^ 32\<close> by (auto simp: sizes_after_def fields_used_def)
  moreover have "reader_size (drop 12 body) r = sample_size t"
    using rd l(2) by (auto simp: reader_size_def sample_size_def Some Let_def fun_eq_iff)
  ultimately show ?thesis by blast
next
  case None
  then obtain body where b: "stz2 t = Some body" using assms by (auto simp: size_reader_open_def split: option.splits)
  obtain w n cur where r: "run_state (do { cursor_skip 7; b \<leftarrow> cursor_u8; n \<leftarrow> cursor_u32; State_Monad.return (b, n) }) (cursor_init body) = ((w, n), cur)"
    by (metis surj_pair)
  have len: "\<not> overrun cur" using assms unfolding size_reader_open_def None b option.case r prod.case by (simp split: if_splits)
  then have l: "12 \<le> length body" "w = be_value 0 (take 1 (drop 7 body))" "cur = \<lparr>cur_data = drop 12 body, overrun = False\<rparr>"
    using r by (auto simp: cursor_reads cursor_remaining_def State_Monad.return_def cursor_init_def split: if_splits)
  have rd: "(w = 4 \<or> w = 8 \<or> w = 16) \<and> n * w \<le> (length body - 12) * 8 \<and>
      r = \<lparr>sz_cursor = cur, sz_constant = 0, sz_count = n, field_bits = w, sz_read = 0, pending_nibble = 0\<rparr>"
    using assms len unfolding size_reader_open_def None b option.case r prod.case
    by (simp add: l(3) cursor_remaining_def split: if_splits)
  have "sizes_after (drop 12 body) 0 r"
    using rd l by (auto simp: sizes_after_def fields_used_def)
  moreover have "reader_size (drop 12 body) r = sample_size t"
    using rd l(2) by (auto simp: reader_size_def sample_size_def None b fun_eq_iff)
  ultimately show ?thesis by blast
qed

lemma reader_size_bound: "sizes_after bytes 0 r \<Longrightarrow> reader_size bytes r k < 2 ^ 32"
proof -
  assume s: "sizes_after bytes 0 r"
  have be: "be_value 0 (take n bs) < 2 ^ 32" if "n \<le> 4" for n and bs :: "u8 list"
  proof -
    have "be_value 0 (take n bs) < 256 ^ length (take n bs)" using be_value_bound [of 0 "take n bs"] by simp
    also have "\<dots> \<le> 256 ^ 4" by (rule power_increasing) (use that in auto)
    finally show ?thesis by simp
  qed
  show ?thesis
  proof (cases "sz_constant r = 0")
    case False then show ?thesis using s by (simp add: reader_size_def sizes_after_def)
  next
    case True
    then have "field_bits r \<in> {4, 8, 16, 32}" using s by (simp add: sizes_after_def)
    moreover have "be_value 0 (take 1 (drop (k div 2) bytes)) < 2 ^ 32" by (rule be) simp
    ultimately show ?thesis using be [of 1] be [of 2] be [of 4]
      by (auto simp: True reader_size_def size_field_def Let_def intro: order_le_less_trans [OF div_le_dividend] order_le_less_trans [OF mod_less_eq_dividend])
  qed
qed

section \<open>Tables of 32-bit integers\<close>

fun table_u32 :: "nat \<Rightarrow> u8 list \<Rightarrow> nat list" where
  "table_u32 0 bytes = []"
| "table_u32 (Suc n) bytes = be_value 0 (take 4 bytes) # table_u32 n (drop 4 bytes)"

definition u32_table :: "u8 list option \<Rightarrow> nat list" where
  "u32_table box0 = (case box0 of None \<Rightarrow> []
     | Some body \<Rightarrow> table_u32 (be_value 0 (take 4 (drop 4 body))) (drop 8 body))"

lemma table_open_fields:
  assumes "table_open body 4 n = Some (c, k)"
  shows "c = \<lparr>cur_data = drop 8 body, overrun = False\<rparr>" "k = be_value 0 (take 4 (drop 4 body))"
    "8 \<le> length body" "k \<le> (length body - 8) div n"
  using assms by (auto simp: table_open_def cursor_reads cursor_remaining_def cursor_init_def split: if_splits prod.splits)

lemma read_u32:
  assumes "\<not> overrun c" "4 \<le> length (cur_data c)"
  shows "run_state cursor_u32 c = (be_value 0 (take 4 (cur_data c)), c\<lparr>cur_data := drop 4 (cur_data c)\<rparr>)"
  using assms by (simp add: cursor_u32_def cursor_remaining_def)

section \<open>Sync samples\<close>

text \<open>The entries of the sync table not yet passed.\<close>

definition sync_rest :: "index_state \<Rightarrow> nat list" where
  "sync_rest s = (if sync_left s = 0 then [] else next_sync s # table_u32 (sync_left s - 1) (cur_data (bi_sync s)))"

definition sync_ok :: "index_state \<Rightarrow> bool" where
  "sync_ok s \<longleftrightarrow> \<not> overrun (bi_sync s) \<and> 4 * (sync_left s - 1) \<le> length (cur_data (bi_sync s))"

lemma advance_sync_rest:
  "sync_ok s \<Longrightarrow> sync_ok (advance_sync s) \<and>
     sync_rest (advance_sync s) = dropWhile (\<lambda>x. x < sample_number s) (sync_rest s) \<and>
     (\<exists>l n c. advance_sync s = s\<lparr>sync_left := l, next_sync := n, bi_sync := c\<rparr>)"
proof (induction s rule: advance_sync.induct)
  case (1 s)
  show ?case
  proof (cases "sync_left s > 0 \<and> next_sync s < sample_number s")
    case False
    have e: "advance_sync s = s" unfolding advance_sync.simps [of s] if_not_P [OF False] ..
    have "s = s\<lparr>sync_left := sync_left s, next_sync := next_sync s, bi_sync := bi_sync s\<rparr>" by simp
    moreover have "dropWhile (\<lambda>x. x < sample_number s) (sync_rest s) = sync_rest s"
      using False by (auto simp: sync_rest_def)
    ultimately show ?thesis unfolding e using 1(2) by metis
  next
    case True
    obtain m where m: "sync_left s = Suc m" using True by (cases "sync_left s") auto
    define nc where "nc = (if m > 0 then run_state cursor_u32 (bi_sync s) else (0, bi_sync s))"
    obtain n c where n: "nc = (n, c)" by (metis surj_pair)
    let ?s = "s\<lparr>sync_left := m, next_sync := n, bi_sync := c\<rparr>"
    have e: "advance_sync s = advance_sync ?s"
      unfolding advance_sync.simps [of s] m Let_def using n True by (simp add: nc_def)
    have ok: "\<not> overrun (bi_sync s)" "4 * m \<le> length (cur_data (bi_sync s))"
      using 1(2) by (simp_all add: sync_ok_def m)
    have ok': "sync_ok ?s \<and> sync_rest s = next_sync s # sync_rest ?s"
    proof (cases m)
      case 0
      then show ?thesis using ok n by (simp add: nc_def sync_ok_def sync_rest_def m)
    next
      case (Suc j)
      have "4 \<le> length (cur_data (bi_sync s))" using ok Suc by simp
      from read_u32 [OF ok(1) this] show ?thesis using ok n Suc
        by (auto simp: nc_def sync_ok_def sync_rest_def m)
    qed
    have IH: "sync_ok (advance_sync ?s) \<and> sync_rest (advance_sync ?s) = dropWhile (\<lambda>x. x < sample_number ?s) (sync_rest ?s) \<and>
      (\<exists>l n c. advance_sync ?s = ?s\<lparr>sync_left := l, next_sync := n, bi_sync := c\<rparr>)"
      by (rule 1(1) [OF True, of m "(n, c)" n c]) (use ok' n m in \<open>simp_all add: nc_def\<close>)
    then obtain l n' c' where "advance_sync ?s = ?s\<lparr>sync_left := l, next_sync := n', bi_sync := c'\<rparr>" by blast
    then have "advance_sync s = s\<lparr>sync_left := l, next_sync := n', bi_sync := c'\<rparr>" unfolding e by simp
    moreover have "dropWhile (\<lambda>x. x < sample_number s) (sync_rest s) = dropWhile (\<lambda>x. x < sample_number s) (sync_rest ?s)"
      using ok' True by simp
    ultimately show ?thesis using IH ok' unfolding e [symmetric] by auto
  qed
qed

lemma sync_hit:
  assumes "sorted L" "R = dropWhile (\<lambda>x. x < n) L"
  shows "(R \<noteq> [] \<and> hd R = n) \<longleftrightarrow> n \<in> set L"
proof -
  have "n \<in> set L \<longleftrightarrow> n \<in> set R"
    unfolding assms(2) by (metis Un_iff less_irrefl set_append set_takeWhileD takeWhile_dropWhile_id)
  moreover have "n \<in> set R \<longleftrightarrow> R \<noteq> [] \<and> hd R = n"
  proof (cases R)
    case (Cons x xs)
    have "\<not> x < n" using assms(2) Cons by (metis hd_dropWhile list.distinct(1) list.sel(1))
    moreover have "sorted R" using assms by (simp add: sorted_dropWhile)
    ultimately show ?thesis using Cons by auto
  qed simp
  ultimately show ?thesis by blast
qed

lemma dropWhile_later: "m \<le> n \<Longrightarrow> dropWhile (\<lambda>x. x < (n::nat)) (dropWhile (\<lambda>x. x < m) L) = dropWhile (\<lambda>x. x < n) L"
  by (induction L) auto

section \<open>The index says what the tables say\<close>

text \<open>The \<open>k\<close>-th entry of an index under construction, given what the readers deliver.\<close>

definition entry_ok ::
  "(nat \<Rightarrow> nat) \<Rightarrow> (nat \<Rightarrow> nat) \<Rightarrow> (nat \<Rightarrow> nat) \<Rightarrow> nat set \<Rightarrow> (nat \<Rightarrow> bool) \<Rightarrow> indexed_sample list \<Rightarrow> nat \<Rightarrow> bool" where
  "entry_ok sz du off starts key out k \<longleftrightarrow>
     ix_size (out ! k) = sz k \<and> ix_duration (out ! k) = du k \<and>
     ix_dts (out ! k) = (\<Sum>j<k. int (du j)) \<and> ix_pts (out ! k) = ix_dts (out ! k) + gint32_of (off k) \<and>
     (ix_keyframe (out ! k) \<longleftrightarrow> key k) \<and>
     (ix_position (out ! k) \<in> starts \<or>
      0 < k \<and> ix_position (out ! k) = ix_position (out ! (k - 1)) + ix_size (out ! (k - 1)))"

lemma entry_ok_append: "k < length out \<Longrightarrow> entry_ok sz du off starts key (out @ x) k = entry_ok sz du off starts key out k"
  by (auto simp: entry_ok_def nth_append)

text \<open>
  The state of the loops when \<open>n\<close> samples are done, relative to the opened readers in \<open>s0\<close>; \<open>L\<close> is the
  sync table.
\<close>

definition duration_of :: "index_state \<Rightarrow> nat \<Rightarrow> nat" where
  "duration_of s0 k = nth_value run_reader_next k (bi_durations s0)"

definition offset_of :: "index_state \<Rightarrow> nat \<Rightarrow> nat" where
  "offset_of s0 k = nth_value run_reader_next k (offsets_in_time s0)"

definition built :: "(nat \<Rightarrow> nat) \<Rightarrow> nat set \<Rightarrow> nat list \<Rightarrow> bool \<Rightarrow> index_state \<Rightarrow> index_state \<Rightarrow> bool" where
  "built sz starts L all_sync s0 s \<longleftrightarrow>
     sample_number s = length (bi_out s) \<and>
     bi_sizes s = after size_reader_next (length (bi_out s)) (bi_sizes s0) \<and>
     bi_durations s = after run_reader_next (length (bi_out s)) (bi_durations s0) \<and>
     offsets_in_time s = after run_reader_next (length (bi_out s)) (offsets_in_time s0) \<and>
     bi_dts s = (\<Sum>j<length (bi_out s). int (duration_of s0 j)) \<and>
     (\<not> all_sync \<longrightarrow> sync_ok s \<and> sync_rest s = dropWhile (\<lambda>x. x < length (bi_out s)) L) \<and>
     (\<forall>k<length (bi_out s). entry_ok sz (duration_of s0) (offset_of s0) starts (\<lambda>k. all_sync \<or> Suc k \<in> set L) (bi_out s) k)"

definition place :: "nat set \<Rightarrow> indexed_sample list \<Rightarrow> nat \<Rightarrow> bool" where
  "place starts out pos \<longleftrightarrow> pos \<in> starts \<or> out \<noteq> [] \<and> pos = ix_position (last out) + ix_size (last out)"

lemma sync_frame:
  "sync_ok (s\<lparr>bi_out := x, bi_dts := y\<rparr>) = sync_ok s" "sync_rest (s\<lparr>bi_out := x, bi_dts := y\<rparr>) = sync_rest s"
  by (simp_all add: sync_ok_def sync_rest_def)

lemma next_sample_built:
  assumes b: "built sz starts L all_sync s0 s" and z: "sizes_after bytes 0 (bi_sizes s0)" "sz = reader_size bytes (bi_sizes s0)"
    and n: "length (bi_out s) < sz_count (bi_sizes s0)" and p: "place starts (bi_out s) pos" and L: "sorted L"
    and ns: "next_sample all_sync pos s = (smp, s1)"
  shows "built sz starts L all_sync s0 (s1\<lparr>bi_out := bi_out s1 @ [smp], bi_dts := bi_dts s1 + int (ix_duration smp)\<rparr>)"
    "\<not> overrun (sz_cursor (bi_sizes s1))" "ix_position smp = pos" "ix_size smp = sz (length (bi_out s))"
    "bi_out s1 = bi_out s" "bi_dts s1 = bi_dts s" "bi_offsets s1 = bi_offsets s"
proof -
  let ?n = "length (bi_out s)"
  note B = b [unfolded built_def]
  obtain size szs where sz1: "run_state size_reader_next (bi_sizes s) = (size, szs)" by (metis surj_pair)
  obtain dur drs where du1: "run_state run_reader_next (bi_durations s) = (dur, drs)" by (metis surj_pair)
  obtain off ofs where of1: "run_state run_reader_next (offsets_in_time s) = (off, ofs)" by (metis surj_pair)
  let ?s2 = "s\<lparr>sample_number := sample_number s + 1, bi_sizes := szs, bi_durations := drs, offsets_in_time := ofs\<rparr>"
  let ?s3 = "if all_sync then ?s2 else advance_sync ?s2"
  define key where "key \<longleftrightarrow> all_sync \<or> sync_left ?s3 > 0 \<and> next_sync ?s3 = sample_number ?s3"
  have eq: "next_sample all_sync pos s =
    (\<lparr>ix_position = pos, ix_dts = bi_dts ?s3, ix_pts = bi_dts ?s3 + gint32_of off, ix_size = size,
           ix_duration = dur, ix_track = 0, ix_keyframe = key\<rparr>, ?s3)"
    unfolding next_sample_def Let_def key_def by (simp add: sz1 du1 of1)
  then have smp: "smp = \<lparr>ix_position = pos, ix_dts = bi_dts ?s3, ix_pts = bi_dts ?s3 + gint32_of off, ix_size = size,
           ix_duration = dur, ix_track = 0, ix_keyframe = key\<rparr>" and s1: "s1 = ?s3" using ns by auto
  have sync: "\<not> all_sync \<longrightarrow> sync_ok ?s2 \<and> sync_rest ?s2 = dropWhile (\<lambda>x. x < ?n) L"
  proof -
    have "sync_ok ?s2 = sync_ok s" "sync_rest ?s2 = sync_rest s" by (simp_all add: sync_ok_def sync_rest_def)
    then show ?thesis using B by simp
  qed
  have adv: "\<not> all_sync \<longrightarrow> sync_ok ?s3 \<and> sync_rest ?s3 = dropWhile (\<lambda>x. x < Suc ?n) L \<and>
      (\<exists>l m c. ?s3 = ?s2\<lparr>sync_left := l, next_sync := m, bi_sync := c\<rparr>)"
  proof
    assume a: "\<not> all_sync"
    have num: "sample_number ?s2 = Suc ?n" using B by simp
    show "sync_ok ?s3 \<and> sync_rest ?s3 = dropWhile (\<lambda>x. x < Suc ?n) L \<and>
      (\<exists>l m c. ?s3 = ?s2\<lparr>sync_left := l, next_sync := m, bi_sync := c\<rparr>)"
      using advance_sync_rest [of ?s2] sync a num dropWhile_later [of ?n "Suc ?n" L] by simp
  qed
  obtain l m c where s3: "?s3 = ?s2\<lparr>sync_left := l, next_sync := m, bi_sync := c\<rparr>"
  proof (cases all_sync)
    case True
    then show ?thesis using that [of "bi_sync s" "next_sync s" "sync_left s"] by simp
  qed (use adv that in blast)
  have f: "bi_out ?s3 = bi_out s" "bi_dts ?s3 = bi_dts s" "bi_offsets ?s3 = bi_offsets s" "bi_sizes ?s3 = szs"
    "bi_durations ?s3 = drs" "offsets_in_time ?s3 = ofs" "sample_number ?s3 = Suc ?n"
    unfolding s3 using B by simp_all
  show "bi_out s1 = bi_out s" "bi_dts s1 = bi_dts s" "bi_offsets s1 = bi_offsets s" using f s1 by simp_all
  have szn: "sizes_after bytes ?n (bi_sizes s)" "?n < sz_count (bi_sizes s)" "reader_size bytes (bi_sizes s) = sz"
    using nth_size [OF z(1), of ?n] n B z(2) by simp_all
  note nx = size_next [OF szn(1,2)]
  have size: "size = sz ?n" using nx(1) sz1 szn(3) by simp
  have dur: "dur = duration_of s0 ?n" using du1 B by (simp add: duration_of_def nth_value_def)
  have off: "off = offset_of s0 ?n" using of1 B by (simp add: offset_of_def nth_value_def)
  show "\<not> overrun (sz_cursor (bi_sizes s1))" using nx(2) sz1 f(4) s1 by (simp add: sizes_after_def)
  show "ix_position smp = pos" "ix_size smp = sz ?n" using smp size by simp_all
  have key: "key \<longleftrightarrow> all_sync \<or> Suc ?n \<in> set L"
  proof (cases all_sync)
    case False
    have "sync_left ?s3 > 0 \<and> next_sync ?s3 = sample_number ?s3 \<longleftrightarrow> sync_rest ?s3 \<noteq> [] \<and> hd (sync_rest ?s3) = Suc ?n"
      using f(7) by (auto simp: sync_rest_def)
    also have "\<dots> \<longleftrightarrow> Suc ?n \<in> set L" by (rule sync_hit [OF L]) (use adv False in simp)
    finally show ?thesis using False by (simp add: key_def)
  qed (simp add: key_def)
  have last: "place starts (bi_out s) pos \<Longrightarrow> pos \<in> starts \<or> 0 < ?n \<and> pos = ix_position (bi_out s ! (?n - 1)) + ix_size (bi_out s ! (?n - 1))"
    by (auto simp: place_def last_conv_nth)
  have entry: "entry_ok sz (duration_of s0) (offset_of s0) starts (\<lambda>k. all_sync \<or> Suc k \<in> set L) (bi_out s @ [smp]) ?n"
    using last [OF p] B f(2) by (auto simp: entry_ok_def smp size dur off key nth_append)
  have "\<forall>k<Suc ?n. entry_ok sz (duration_of s0) (offset_of s0) starts (\<lambda>k. all_sync \<or> Suc k \<in> set L) (bi_out s @ [smp]) k"
    using B entry by (auto simp: less_Suc_eq entry_ok_append)
  moreover have "szs = after size_reader_next (Suc ?n) (bi_sizes s0)" "drs = after run_reader_next (Suc ?n) (bi_durations s0)"
    "ofs = after run_reader_next (Suc ?n) (offsets_in_time s0)"
    using B sz1 du1 of1 by (simp_all add: after_Suc)
  moreover have "bi_dts s + int (ix_duration smp) = (\<Sum>j<Suc ?n. int (duration_of s0 j))"
    using B by (simp add: smp dur)
  moreover have "\<not> all_sync \<longrightarrow> sync_ok s1 \<and> sync_rest s1 = dropWhile (\<lambda>x. x < Suc ?n) L"
    using adv unfolding s1 by blast
  ultimately show "built sz starts L all_sync s0 (s1\<lparr>bi_out := bi_out s1 @ [smp], bi_dts := bi_dts s1 + int (ix_duration smp)\<rparr>)"
    unfolding built_def sync_frame using f [folded s1] by simp
qed

text \<open>The fields are bytes of 32 bits, so no sum of them reaches the limits of \<^verbatim>\<open>mp4.c\<close>.\<close>

lemma sum_bound: "(\<And>j. f j < 2 ^ 32) \<Longrightarrow> (\<Sum>j<n. int (f j)) \<le> int n * 2 ^ 32"
proof (induction n)
  case (Suc n)
  have "int (f n) < int (2 ^ 32)" using Suc.prems [of n] by (simp only: of_nat_less_iff)
  then have c: "int (f n) < 2 ^ 32" by (simp only: of_nat_power of_nat_numeral)
  have a: "(\<Sum>j<Suc n. int (f j)) = (\<Sum>j<n. int (f j)) + int (f n)" by simp
  have b: "int (Suc n) * 2 ^ 32 = int n * 2 ^ 32 + 2 ^ 32" by (simp add: algebra_simps)
  show ?case unfolding a b using Suc.IH [OF Suc.prems] c by linarith
qed simp

definition small_readers :: "u8 list \<Rightarrow> (nat \<Rightarrow> nat) \<Rightarrow> index_state \<Rightarrow> bool" where
  "small_readers bytes sz s0 \<longleftrightarrow>
     sizes_after bytes 0 (bi_sizes s0) \<and> sz = reader_size bytes (bi_sizes s0) \<and>
     sz_count (bi_sizes s0) \<le> NS_MP4_MAX_INDEXED_SAMPLES \<and> (\<forall>k. duration_of s0 k < 2 ^ 32)"

lemma chunk_samples_built:
  assumes r: "small_readers bytes sz s0" and L: "sorted L"
  shows "built sz starts L all_sync s0 s \<Longrightarrow> place starts (bi_out s) pos \<Longrightarrow>
    pos < 2 ^ 32 + length (bi_out s) * 2 ^ 32 \<Longrightarrow> cnt = sz_count (bi_sizes s0) \<Longrightarrow>
    built sz starts L all_sync s0 (chunk_samples all_sync cnt left pos s) \<and>
    bi_offsets (chunk_samples all_sync cnt left pos s) = bi_offsets s"
proof (induction all_sync cnt left pos s rule: chunk_samples.induct)
  case (1 all_sync cnt left pos s)
  show ?case
  proof (cases "left > 0 \<and> sample_number s < cnt")
    case False
    then have "chunk_samples all_sync cnt left pos s = s" by (subst chunk_samples.simps) auto
    then show ?thesis using 1(2) by simp
  next
    case True
    obtain smp s1 where ns: "next_sample all_sync pos s = (smp, s1)" by (metis surj_pair)
    let ?s = "s1\<lparr>bi_out := bi_out s1 @ [smp], bi_dts := bi_dts s1 + int (ix_duration smp)\<rparr>"
    have num: "sample_number s = length (bi_out s)" "bi_dts s = (\<Sum>j<length (bi_out s). int (duration_of s0 j))"
      using 1(2) by (simp_all add: built_def)
    have R: "sizes_after bytes 0 (bi_sizes s0)" "sz = reader_size bytes (bi_sizes s0)"
      "sz_count (bi_sizes s0) \<le> NS_MP4_MAX_INDEXED_SAMPLES" "\<And>k. duration_of s0 k < 2 ^ 32"
      using r by (auto simp: small_readers_def)
    have n: "length (bi_out s) < sz_count (bi_sizes s0)" using True num 1(5) by simp
    note nb = next_sample_built [OF 1(2) R(1,2) n 1(3) L ns]
    have n21: "length (bi_out s) < 2097152" using n R(3) by (simp add: NS_MP4_MAX_INDEXED_SAMPLES_def)
    have dts: "bi_dts s \<le> int (length (bi_out s)) * 2 ^ 32" unfolding num(2) by (rule sum_bound [OF R(4)])
    have ok: "\<not> (overrun (sz_cursor (bi_sizes s1)) \<or> pos \<ge> NS_MP4_MAX_STREAM_POSITION \<or> bi_dts s1 > NS_MP4_MAX_TIMESTAMP)"
      using nb(2,6) dts n21 1(4) by (simp add: NS_MP4_MAX_STREAM_POSITION_def NS_MP4_MAX_TIMESTAMP_def)
    have e: "chunk_samples all_sync cnt left pos s = chunk_samples all_sync cnt (left - 1) (pos + ix_size smp) ?s"
      using ok by (subst chunk_samples.simps) (simp add: True ns)
    have size: "ix_size smp < 2 ^ 32" using nb(4) reader_size_bound [OF R(1)] R(2) by simp
    have p: "place starts (bi_out ?s) (pos + ix_size smp)" using nb(3) by (simp add: place_def)
    have b: "pos + ix_size smp < 2 ^ 32 + length (bi_out ?s) * 2 ^ 32" using size 1(4) nb(5) by simp
    show ?thesis unfolding e using 1(1) [OF True ns [symmetric] ok nb(1) p b 1(5)] nb(7) by simp
  qed
qed

lemma advance_stsc_frame:
  "\<exists>f n e g c. advance_stsc chunk s = s\<lparr>entry_first_chunk := f, entry_samples := n, stsc_entries := e,
     following_first_chunk := g, bi_stsc := c\<rparr>"
proof (induction chunk s rule: advance_stsc.induct)
  case (1 chunk s)
  show ?case
  proof (cases "stsc_entries s > 0 \<and> chunk \<ge> following_first_chunk s")
    case False
    then have "advance_stsc chunk s = s" by (subst advance_stsc.simps) auto
    then show ?thesis by (intro exI [of _ "entry_first_chunk s"] exI [of _ "entry_samples s"] exI [of _ "stsc_entries s"]
        exI [of _ "following_first_chunk s"] exI [of _ "bi_stsc s"]) simp
  next
    case True
    obtain n c where r: "run_state (do { n \<leftarrow> cursor_u32; cursor_skip 4; State_Monad.return n }) (bi_stsc s) = (n, c)"
      by (metis surj_pair)
    define fc where "fc = (if stsc_entries s - 1 > 0 then run_state cursor_u32 c else (0, c))"
    obtain f c2 where f: "fc = (f, c2)" by (metis surj_pair)
    let ?s = "s\<lparr>entry_first_chunk := following_first_chunk s, entry_samples := n,
                  stsc_entries := stsc_entries s - 1, following_first_chunk := f, bi_stsc := c2\<rparr>"
    have e: "advance_stsc chunk s = advance_stsc chunk ?s"
      unfolding advance_stsc.simps [of chunk s] if_P [OF True] r prod.case Let_def fc_def [symmetric] f ..
    have "\<exists>f n e g c. advance_stsc chunk ?s = ?s\<lparr>entry_first_chunk := f, entry_samples := n, stsc_entries := e,
     following_first_chunk := g, bi_stsc := c\<rparr>"
      by (rule 1 [OF True r [symmetric] refl, of fc f c2]) (use f in \<open>auto simp: fc_def\<close>)
    then show ?thesis unfolding e by auto
  qed
qed

lemma built_frame:
  "built sz starts L all_sync s0 (s\<lparr>entry_first_chunk := f, entry_samples := n, stsc_entries := e,
     following_first_chunk := g, bi_stsc := c, bi_offsets := p\<rparr>) = built sz starts L all_sync s0 s"
proof -
  have "sync_ok (s\<lparr>entry_first_chunk := f, entry_samples := n, stsc_entries := e,
     following_first_chunk := g, bi_stsc := c, bi_offsets := p\<rparr>) = sync_ok s"
    "sync_rest (s\<lparr>entry_first_chunk := f, entry_samples := n, stsc_entries := e,
     following_first_chunk := g, bi_stsc := c, bi_offsets := p\<rparr>) = sync_rest s" by (simp_all add: sync_ok_def sync_rest_def)
  then show ?thesis by (simp add: built_def)
qed

lemma chunk_loop_built:
  assumes r: "small_readers bytes sz s0" and L: "sorted L" and cnt: "cnt = sz_count (bi_sizes s0)"
  shows "built sz starts L all_sync s0 s \<Longrightarrow> \<not> overrun (bi_offsets s) \<Longrightarrow>
    4 * length chunks \<le> length (cur_data (bi_offsets s)) \<Longrightarrow>
    set (table_u32 (length chunks) (cur_data (bi_offsets s))) \<subseteq> starts \<Longrightarrow>
    built sz starts L all_sync s0 (chunk_loop False all_sync cnt chunks s)"
proof (induction chunks arbitrary: s)
  case (Cons chunk chunks)
  let ?d = "cur_data (bi_offsets s)"
  show ?case
  proof (cases "sample_number s < cnt")
    case True
    obtain f n e g c where s1: "advance_stsc chunk s = s\<lparr>entry_first_chunk := f, entry_samples := n, stsc_entries := e,
       following_first_chunk := g, bi_stsc := c\<rparr>" using advance_stsc_frame by blast
    let ?o = "(bi_offsets s)\<lparr>cur_data := drop 4 ?d\<rparr>"
    let ?s2 = "s\<lparr>entry_first_chunk := f, entry_samples := n, stsc_entries := e,
       following_first_chunk := g, bi_stsc := c, bi_offsets := ?o\<rparr>"
    have o: "run_state cursor_u32 (bi_offsets s) = (be_value 0 (take 4 ?d), ?o)"
      by (rule read_u32) (use Cons.prems in auto)
    have eq: "chunk_loop False all_sync cnt (chunk # chunks) s =
      (if overrun ?o \<or> overrun c \<or> chunk < f then ?s2
       else chunk_loop False all_sync cnt chunks (chunk_samples all_sync cnt n (be_value 0 (take 4 ?d)) ?s2))"
      using True by (simp add: s1 o Let_def)
    have b: "built sz starts L all_sync s0 ?s2" using Cons.prems(1) by (simp only: built_frame)
    have pos: "be_value 0 (take 4 ?d) < 2 ^ 32" using be_value_bound [of 0 "take 4 ?d"] Cons.prems(3) by simp
    have "be_value 0 (take 4 ?d) \<in> starts" using Cons.prems(4) by simp
    then have p: "place starts (bi_out ?s2) (be_value 0 (take 4 ?d))" by (simp add: place_def)
    have "be_value 0 (take 4 ?d) < 2 ^ 32 + length (bi_out ?s2) * 2 ^ 32" using pos by simp
    from chunk_samples_built [OF r L b p this cnt, of n]
    show ?thesis unfolding eq using b Cons by auto
  qed (use Cons.prems in simp)
qed simp

lemma run_at_bound: "v < 2 ^ 32 \<Longrightarrow> run_at (table_pairs n bytes) v k < 2 ^ 32"
proof (induction n arbitrary: bytes k v)
  case (Suc n)
  have "be_value 0 (take 4 (drop 4 bytes)) < 256 ^ length (take 4 (drop 4 bytes))"
    using be_value_bound [of 0 "take 4 (drop 4 bytes)"] by simp
  also have "\<dots> \<le> 256 ^ 4" by (rule power_increasing) auto
  finally have "be_value 0 (take 4 (drop 4 bytes)) < 2 ^ 32" by simp
  then show ?case using Suc by simp
qed simp

lemma run_table_bound: "run_at (run_table box0) 0 k < 2 ^ 32"
  using run_at_bound [of 0] by (cases box0) (simp_all add: run_table_def)

text \<open>What the opened readers hold of the tables with 32-bit chunk offsets.\<close>

lemma open_readers_tables:
  assumes op: "open_readers t = Some (s, n)" and w: "co64 t = None"
  obtains bytes where "small_readers bytes (sample_size t) s"
    "built (sample_size t) (set (u32_table (stco t))) (u32_table (stss t)) (stss t = None) s s"
    "\<not> overrun (bi_offsets s)" "4 * n \<le> length (cur_data (bi_offsets s))"
    "table_u32 n (cur_data (bi_offsets s)) = u32_table (stco t)"
    "duration_of s = run_at (run_table (stts t)) 0" "offset_of s = run_at (run_table (ctts t)) 0"
proof -
  obtain sizes where sizes: "size_reader_open t = Some sizes" "sz_count sizes \<le> NS_MP4_MAX_INDEXED_SAMPLES"
    using op by (auto simp: open_readers_def split: option.splits if_splits)
  obtain b oc m where offsets: "stco t = Some b" "table_open b 4 4 = Some (oc, m)"
    using op w by (auto simp: open_readers_def split: option.splits if_splits)
  obtain bs sc k where ssc: "stsc t = Some bs" "table_open bs 4 12 = Some (sc, k)" "k \<noteq> 0"
    using op w sizes offsets by (auto simp: open_readers_def split: option.splits if_splits)
  obtain du ofs sync left where rd: "stts t \<noteq> None" "run_reader_open (stts t) = Some du"
    "run_reader_open (ctts t) = Some ofs"
    "(case stss t of None \<Rightarrow> Some (cursor_init [], 0) | Some b \<Rightarrow> table_open b 4 4) = Some (sync, left)"
    using op w sizes offsets ssc by (auto simp: open_readers_def split: option.splits if_splits prod.splits)
  obtain ns sync1 where sy: "(if left > 0 then run_state cursor_u32 sync else (0, sync)) = (ns, sync1)" by (metis surj_pair)
  obtain s' where s: "s = s'" "bi_sizes s' = sizes" "bi_offsets s' = oc" "bi_durations s' = du" "offsets_in_time s' = ofs"
    "bi_sync s' = sync1" "sync_left s' = left" "next_sync s' = ns" "bi_dts s' = 0" "sample_number s' = 0" "bi_out s' = []" "n = m"
    using op w sizes offsets ssc rd sy by (auto simp: open_readers_def split: option.splits if_splits prod.splits)
  note fo = table_open_fields [OF offsets(2)]
  obtain bytes where z: "sizes_after bytes 0 sizes" "reader_size bytes sizes = sample_size t"
    using open_sizes [OF sizes(1)] by blast
  have du: "duration_of s = run_at (run_table (stts t)) 0" and of: "offset_of s = run_at (run_table (ctts t)) 0"
    using open_runs [OF rd(2)] open_runs [OF rd(3)] nth_run s by (auto simp: duration_of_def offset_of_def fun_eq_iff)
  have "duration_of s j < 2 ^ 32" for j unfolding du by (rule run_table_bound)
  then have "small_readers bytes (sample_size t) s"
    using z s(2) sizes(2) unfolding small_readers_def s(1) by simp
  moreover have "stss t \<noteq> None \<longrightarrow> sync_ok s \<and> sync_rest s = u32_table (stss t)"
  proof
    assume "stss t \<noteq> None"
    then obtain body where body: "stss t = Some body" "table_open body 4 4 = Some (sync, left)" using rd(4) by auto
    note fs = table_open_fields [OF body(2)]
    show "sync_ok s \<and> sync_rest s = u32_table (stss t)"
    proof (cases left)
      case 0
      then have "bi_sync s = \<lparr>cur_data = drop 8 body, overrun = False\<rparr>" "sync_left s = 0" using s sy fs(1) by auto
      then show ?thesis using fs(2) 0 by (simp add: sync_ok_def sync_rest_def u32_table_def body(1))
    next
      case (Suc m)
      have "4 * Suc m \<le> length (drop 8 body)" using fs(4) Suc by simp
      moreover from this have "run_state cursor_u32 sync = (be_value 0 (take 4 (drop 8 body)), sync\<lparr>cur_data := drop 12 body\<rparr>)"
        using read_u32 [of sync] fs(1) by simp
      ultimately have "bi_sync s = \<lparr>cur_data = drop 12 body, overrun = False\<rparr>" "sync_left s = Suc m"
        "next_sync s = be_value 0 (take 4 (drop 8 body))" using s sy Suc fs(1) by auto
      moreover have "u32_table (stss t) = table_u32 (Suc m) (drop 8 body)" using fs(2) Suc by (simp add: u32_table_def body(1))
      ultimately show ?thesis using \<open>4 * Suc m \<le> length (drop 8 body)\<close> by (simp add: sync_ok_def sync_rest_def)
    qed
  qed
  then have "built (sample_size t) (set (u32_table (stco t))) (u32_table (stss t)) (stss t = None) s s"
    using s by (auto simp: built_def)
  moreover have "table_u32 n (cur_data (bi_offsets s)) = u32_table (stco t)"
    using fo s by (simp add: u32_table_def offsets(1))
  moreover have "\<not> overrun (bi_offsets s)" "4 * n \<le> length (cur_data (bi_offsets s))" using fo s by auto
  ultimately show ?thesis using du of that by blast
qed

lemma index_from_tables:
  assumes "build_sample_index t = Some xs" "co64 t = None" "sorted (u32_table (stss t))" "k < length xs"
  shows "entry_ok (sample_size t) (run_at (run_table (stts t)) 0) (run_at (run_table (ctts t)) 0)
    (set (u32_table (stco t))) (\<lambda>k. stss t = None \<or> Suc k \<in> set (u32_table (stss t))) xs k"
proof -
  obtain s n where op: "open_readers t = Some (s, n)"
    "xs = bi_out (chunk_loop False (stss t = None) (sz_count (bi_sizes s)) [1..<n + 1] s)"
    using assms(1,2) by (auto simp: build_sample_index_def Let_def split: option.splits if_splits)
  from open_readers_tables [OF op(1) assms(2)] obtain bytes where o:
    "small_readers bytes (sample_size t) s"
    "built (sample_size t) (set (u32_table (stco t))) (u32_table (stss t)) (stss t = None) s s"
    "\<not> overrun (bi_offsets s)" "4 * n \<le> length (cur_data (bi_offsets s))"
    "table_u32 n (cur_data (bi_offsets s)) = u32_table (stco t)"
    "duration_of s = run_at (run_table (stts t)) 0" "offset_of s = run_at (run_table (ctts t)) 0" by metis
  from chunk_loop_built [OF o(1) assms(3) refl o(2,3), of "[1..<n + 1]"] o(4,5) assms(4)
  show ?thesis by (simp add: built_def op(2) o(6,7))
qed


text \<open>Three samples in two chunks, with composition offsets and half-byte sizes.\<close>

definition example_tables :: sample_tables where
  "example_tables = \<lparr>stsz = None,
     stz2 = Some [0, 0, 0, 0, 0, 0, 0, 4, 0, 0, 0, 3, 0x25, 0x70],
     stco = Some [0, 0, 0, 0, 0, 0, 0, 2, 0, 0, 0, 100, 0, 0, 0, 200], co64 = None,
     stsc = Some [0, 0, 0, 0, 0, 0, 0, 1, 0, 0, 0, 1, 0, 0, 0, 2, 0, 0, 0, 1],
     stts = Some [0, 0, 0, 0, 0, 0, 0, 2, 0, 0, 0, 1, 0, 0, 0, 10, 0, 0, 0, 2, 0, 0, 0, 20],
     ctts = Some [0, 0, 0, 0, 0, 0, 0, 1, 0, 0, 0, 3, 255, 255, 255, 255],
     stss = Some [0, 0, 0, 0, 0, 0, 0, 2, 0, 0, 0, 1, 0, 0, 0, 3]\<rparr>"


end
