(* ===== verification/HttpCache.thy ===== *)
theory HttpCache
  imports Url "HOL-Library.Monad_Syntax" "HOL-Library.List_Lexorder" "HOL-Library.Product_Lexorder"
    "HOL-Library.Code_Target_Nat"
begin

text \<open>
  The HTTP cache of \<^verbatim>\<open>src/src/cache.c\<close>: the table \<open>entries\<close> of its SQLite database as a list of rows in
  the order of their insertion, the body files as a map from paths.  The digest, the ISO 8601 parser and
  the calendar of GLib are parameters (\<open>cache_env\<close>); so are the clock, and what storing a row, writing
  and reading a file answer.
\<close>

section \<open>State\<close>

record cache_row =
  row_key :: cstr
  base_key :: cstr
  row_url :: cstr
  row_final_url :: "cstr option"
  row_status :: int
  row_content_type :: "cstr option"
  row_cors_allow_origin :: "cstr option"
  row_etag :: "cstr option"
  row_last_modified :: "cstr option"
  row_vary :: "cstr option"
  row_expires_at :: int
  row_fetched_at :: int
  last_used :: int
  body_size :: int

record ns_cache_entry =
  ce_final_url :: cstr
  ce_status :: int
  ce_content_type :: "cstr option"
  ce_cors_allow_origin :: "cstr option"
  ce_etag :: "cstr option"
  ce_last_modified :: "cstr option"
  ce_expires_at :: int
  ce_fetched_at :: int
  ce_body :: "u8 list"

type_synonym body_path = "cstr \<times> cstr"

record http_cache =
  cache_usable :: bool
  cache_dir_known :: bool
  user_version :: int
  rows :: "cache_row list"
  bodies :: "body_path \<rightharpoonup> u8 list"

record cache_env =
  sha256 :: "cstr \<Rightarrow> cstr"
  date_iso8601 :: "cstr \<Rightarrow> int option"
  date_utc :: "int \<Rightarrow> int \<Rightarrow> int \<Rightarrow> int \<Rightarrow> int \<Rightarrow> int \<Rightarrow> int option"
  cache_cap_mb :: "int option"

definition NS_CACHE_MAX_AGE_SECONDS :: int where "NS_CACHE_MAX_AGE_SECONDS = 30 * 24 * 60 * 60"
definition NS_CACHE_SCHEMA_VERSION :: int where "NS_CACHE_SCHEMA_VERSION = 2"

definition cache_cap_bytes :: "cache_env \<Rightarrow> int" where
  "cache_cap_bytes env =
     (let mb = (case cache_cap_mb env of None \<Rightarrow> 256 | Some mb \<Rightarrow> mb);
          mb = (if mb \<le> 0 then 256 else mb)
      in mb * 1024 * 1024)"

section \<open>Keys\<close>

definition UNIT_SEPARATOR :: char where "UNIT_SEPARATOR = char_at 0x1F"

definition base_key_for_url :: "cache_env \<Rightarrow> cstr \<Rightarrow> cstr option \<Rightarrow> cstr" where
  "base_key_for_url env url part =
     sha256 env (url @ (if nonempty part then UNIT_SEPARATOR # str_or part [] else []))"

definition body_path_for_key :: "cstr \<Rightarrow> body_path" where
  "body_path_for_key key = (take 2 key, drop 2 key)"

fun request_header_value :: "cstr list \<Rightarrow> cstr \<Rightarrow> cstr option" where
  "request_header_value [] name = None"
| "request_header_value (h # hs) name =
     (if \<not> strncaseeq h name (length name) then request_header_value hs name
      else (case drop (length name) h of
              CHR '':'' # p \<Rightarrow> Some (dropWhile (\<lambda>c. c = CHR '' '' \<or> c = CHR 0x09) p)
            | _ \<Rightarrow> request_header_value hs name))"

fun vary_tokens :: "cstr list \<Rightarrow> cstr list \<Rightarrow> cstr option" where
  "vary_tokens [] hs = Some []"
| "vary_tokens (t # ts) hs =
     (let name = g_ascii_strdown (g_strstrip t)
      in if name = [] \<or> name = ''accept-encoding'' then vary_tokens ts hs
         else if name \<noteq> ''accept'' \<and> name \<noteq> ''accept-language'' \<and> name \<noteq> ''user-agent'' \<and> name \<noteq> ''origin''
         then None
         else (case request_header_value hs name of
                 None \<Rightarrow> None
               | Some v \<Rightarrow> map_option (\<lambda>rest. name @ CHR '':'' # v @ CHR 0x0A # rest) (vary_tokens ts hs)))"

definition vary_selector :: "cstr option \<Rightarrow> cstr list \<Rightarrow> cstr option" where
  "vary_selector vary hs =
     (if \<not> nonempty vary then Some [] else vary_tokens (g_strsplit (str_or vary []) CHR '','') hs)"

definition row_key_for :: "cache_env \<Rightarrow> cstr \<Rightarrow> cstr \<Rightarrow> cstr" where
  "row_key_for env base selector =
     (if selector = [] then base else sha256 env (base @ UNIT_SEPARATOR # selector))"

definition row_matches :: "cache_env \<Rightarrow> cstr \<Rightarrow> cstr list \<Rightarrow> cache_row \<Rightarrow> bool" where
  "row_matches env base hs r \<longleftrightarrow> base_key r = base \<and>
     (case vary_selector (row_vary r) hs of None \<Rightarrow> False | Some sel \<Rightarrow> row_key r = row_key_for env base sel)"

definition find_row_key :: "cache_env \<Rightarrow> cache_row list \<Rightarrow> cstr \<Rightarrow> cstr list \<Rightarrow> cstr option" where
  "find_row_key env rs base hs = map_option row_key (List.find (row_matches env base hs) rs)"

section \<open>Dates\<close>

definition month_from_name :: "cstr \<Rightarrow> int" where
  "month_from_name m =
     (case List.find (\<lambda>(i, n). strncaseeq m n 3)
        (zip [1..12] [''Jan'', ''Feb'', ''Mar'', ''Apr'', ''May'', ''Jun'', ''Jul'', ''Aug'', ''Sep'', ''Oct'', ''Nov'', ''Dec'']) of
        None \<Rightarrow> 0 | Some (i, n) \<Rightarrow> i)"

text \<open>
  The conversions of \<^verbatim>\<open>sscanf\<close>: each gives what it read and the rest.  (A number that is no \<^verbatim>\<open>int\<close> is
  undefined in C and kept as it is here.)
\<close>

definition scan_d :: "cstr \<Rightarrow> (int \<times> cstr) option" where
  "scan_d s =
     (let s1 = dropWhile strtoll_space s;
          neg = (s1 \<noteq> [] \<and> hd s1 = CHR ''-'');
          s2 = (if neg \<or> s1 \<noteq> [] \<and> hd s1 = CHR ''+'' then tl s1 else s1);
          ds = takeWhile g_ascii_isdigit s2
      in if ds = [] then None
         else Some (if neg then - int (dec_value 0 ds) else int (dec_value 0 ds), drop (length ds) s2))"

definition scan_3s :: "cstr \<Rightarrow> (cstr \<times> cstr) option" where
  "scan_3s s =
     (let s1 = dropWhile strtoll_space s; w = takeWhile (\<lambda>c. \<not> strtoll_space c) (take 3 s1)
      in if w = [] then None else Some (w, drop (length w) s1))"

definition scan_c :: "cstr \<Rightarrow> (char \<times> cstr) option" where
  "scan_c s = (case s of [] \<Rightarrow> None | c # r \<Rightarrow> Some (c, r))"

definition scan_colon :: "cstr \<Rightarrow> cstr option" where
  "scan_colon s = (case s of [] \<Rightarrow> None | c # r \<Rightarrow> if c = CHR '':'' then Some r else None)"

definition scan_time :: "cstr \<Rightarrow> ((int \<times> int \<times> int) \<times> cstr) option" where
  "scan_time s = do {
     (hh, s) \<leftarrow> scan_d s; s \<leftarrow> scan_colon s; (mm, s) \<leftarrow> scan_d s; s \<leftarrow> scan_colon s; (ss, s) \<leftarrow> scan_d s;
     Some ((hh, mm, ss), s) }"

text \<open>The three patterns, each giving day, month, year and time.\<close>

definition scan_rfc1123 :: "cstr \<Rightarrow> (int \<times> cstr \<times> int \<times> int \<times> int \<times> int) option" where
  "scan_rfc1123 s = do {
     (day, s) \<leftarrow> scan_d s; (mon, s) \<leftarrow> scan_3s s; (year, s) \<leftarrow> scan_d s; ((hh, mm, ss), s) \<leftarrow> scan_time s;
     Some (day, mon, year, hh, mm, ss) }"

definition scan_rfc850 :: "cstr \<Rightarrow> (int \<times> cstr \<times> int \<times> int \<times> int \<times> int) option" where
  "scan_rfc850 s = do {
     (day, s) \<leftarrow> scan_d s; (sep, s) \<leftarrow> scan_c s; (mon, s) \<leftarrow> scan_3s s; (sep, s) \<leftarrow> scan_c s; (year, s) \<leftarrow> scan_d s;
     ((hh, mm, ss), s) \<leftarrow> scan_time s;
     Some (day, mon, if year < 100 then year + (if year < 70 then 2000 else 1900) else year, hh, mm, ss) }"

definition scan_asctime :: "cstr \<Rightarrow> (int \<times> cstr \<times> int \<times> int \<times> int \<times> int) option" where
  "scan_asctime s = do {
     (mon, s) \<leftarrow> scan_3s s; (day, s) \<leftarrow> scan_d s; ((hh, mm, ss), s) \<leftarrow> scan_time s; (year, s) \<leftarrow> scan_d s;
     Some (day, mon, year, hh, mm, ss) }"

definition parse_http_date :: "cache_env \<Rightarrow> cstr \<Rightarrow> int" where
  "parse_http_date env s =
     (if s = [] then 0
      else (case date_iso8601 env s of
              Some t \<Rightarrow> t
            | None \<Rightarrow>
                let p = dropWhile (\<lambda>c. c = CHR '' '') (case strchr s CHR '','' of None \<Rightarrow> s | Some r \<Rightarrow> tl r)
                in (case (case scan_rfc1123 p of Some d \<Rightarrow> Some d
                      | None \<Rightarrow> (case scan_rfc850 p of Some d \<Rightarrow> Some d | None \<Rightarrow> scan_asctime p)) of
                      None \<Rightarrow> 0
                    | Some (day, mon, year, hh, mm, ss) \<Rightarrow>
                        let month = month_from_name mon
                        in if month = 0 then 0
                           else if year < 1970 \<or> year > 9999 \<or> day < 1 \<or> day > 31 \<or>
                                   hh < 0 \<or> hh > 23 \<or> mm < 0 \<or> mm > 59 \<or> ss < 0 \<or> ss > 60 then 0
                           else (case date_utc env year month day hh mm ss of None \<Rightarrow> 0 | Some t \<Rightarrow> t))))"

section \<open>Freshness\<close>

text \<open>\<open>strstr(p, word)\<close> on a header that may be \<^verbatim>\<open>NULL\<close>.\<close>

definition header_has :: "cstr option \<Rightarrow> cstr \<Rightarrow> bool" where
  "header_has h w \<longleftrightarrow> (case h of None \<Rightarrow> False | Some s \<Rightarrow> strstr s w \<noteq> None)"

text \<open>The expiry \<^verbatim>\<open>max-age\<close> asks for, None where the code goes on to the other headers.\<close>

definition max_age_expiry :: "int \<Rightarrow> cstr \<Rightarrow> int option" where
  "max_age_expiry now cc = do {
     p \<leftarrow> strstr cc ''max-age'';
     q \<leftarrow> strchr p CHR ''='';
     let ma = (case g_ascii_strtoll (tl q) of None \<Rightarrow> 0 | Some v \<Rightarrow> v);
     Some (now + min (max ma 0) (86400 * 3650)) }"

definition freshness_from_headers :: "cache_env \<Rightarrow> int \<Rightarrow> cstr option \<Rightarrow> cstr option \<Rightarrow> int" where
  "freshness_from_headers env now cache_control expires =
     (let from_expires = (case expires of None \<Rightarrow> 0
            | Some e \<Rightarrow> let t = parse_http_date env e in if t > 0 then t else 0)
      in case cache_control of
           None \<Rightarrow> from_expires
         | Some cc \<Rightarrow>
             if strstr cc ''no-store'' \<noteq> None then -1
             else if strstr cc ''no-cache'' \<noteq> None then 0
             else (case max_age_expiry now cc of
                     Some t \<Rightarrow> t
                   | None \<Rightarrow> if strstr cc ''immutable'' \<noteq> None then now + 86400 * 30 else from_expires))"

definition is_cacheable_status :: "int \<Rightarrow> bool" where
  "is_cacheable_status s \<longleftrightarrow> s = 200 \<or> s = 203 \<or> s = 301 \<or> s = 410"

definition ns_cache_is_fresh :: "int \<Rightarrow> ns_cache_entry option \<Rightarrow> bool" where
  "ns_cache_is_fresh now e \<longleftrightarrow> (case e of None \<Rightarrow> False | Some e \<Rightarrow> ce_expires_at e > now)"

definition url_should_cache :: "cstr option \<Rightarrow> bool" where
  "url_should_cache url \<longleftrightarrow> ns_url_is_http_or_https url \<and>
     (case url of None \<Rightarrow> False | Some u \<Rightarrow> \<not> list_ex (\<lambda>c. code_of c < 0x20 \<or> code_of c = 0x7F) u)"

section \<open>Operations\<close>

definition delete_key :: "cstr \<Rightarrow> http_cache \<Rightarrow> http_cache" where
  "delete_key key c =
     c\<lparr>bodies := (bodies c)(body_path_for_key key := None), rows := filter (\<lambda>r. row_key r \<noteq> key) (rows c)\<rparr>"

definition touch_key :: "int \<Rightarrow> cstr \<Rightarrow> http_cache \<Rightarrow> http_cache" where
  "touch_key now key c = c\<lparr>rows := map (\<lambda>r. if row_key r = key then r\<lparr>last_used := now\<rparr> else r) (rows c)\<rparr>"

text \<open>\<^verbatim>\<open>evict_by_select\<close>: the keys are collected first, then deleted one by one.\<close>

definition evict_by_select :: "(cache_row list \<Rightarrow> cstr list) \<Rightarrow> http_cache \<Rightarrow> http_cache" where
  "evict_by_select sql c = fold delete_key (sql (rows c)) c"

definition evict_aged_out :: "int \<Rightarrow> http_cache \<Rightarrow> http_cache" where
  "evict_aged_out now =
     evict_by_select (\<lambda>rs. map row_key (filter (\<lambda>r. last_used r < now - NS_CACHE_MAX_AGE_SECONDS) rs))"

text \<open>The order \<open>last_used DESC, key DESC\<close> and the running sum over it.\<close>

definition key_less :: "cstr \<Rightarrow> cstr \<Rightarrow> bool" where
  "key_less a b \<longleftrightarrow> map code_of a < map code_of b"

definition not_after :: "cache_row \<Rightarrow> cache_row \<Rightarrow> bool" where
  "not_after r s \<longleftrightarrow> last_used r > last_used s \<or> last_used r = last_used s \<and> \<not> key_less (row_key r) (row_key s)"

definition running :: "cache_row list \<Rightarrow> cache_row \<Rightarrow> int" where
  "running rs s = sum_list (map body_size (filter (\<lambda>r. not_after r s) rs))"

definition evict_to_cap :: "cache_env \<Rightarrow> int \<Rightarrow> http_cache \<Rightarrow> http_cache" where
  "evict_to_cap env now c =
     (if \<not> cache_usable c then c
      else evict_by_select (\<lambda>rs. map row_key (filter (\<lambda>r. running rs r > cache_cap_bytes env) rs)) (evict_aged_out now c))"

definition ns_cache_get ::
  "cache_env \<Rightarrow> int \<Rightarrow> bool \<Rightarrow> cstr option \<Rightarrow> cstr option \<Rightarrow> cstr list \<Rightarrow> http_cache \<Rightarrow>
   ns_cache_entry option \<times> http_cache" where
  "ns_cache_get env now readable url part hs c =
     (if \<not> cache_usable c then (None, c)
      else (case url of
        None \<Rightarrow> (None, c)
      | Some u \<Rightarrow>
        (case find_row_key env (rows c) (base_key_for_url env u part) hs of
           None \<Rightarrow> (None, c)
         | Some key \<Rightarrow>
             (case List.find (\<lambda>r. row_key r = key) (rows c) of
                None \<Rightarrow> (None, c)
              | Some r \<Rightarrow>
                  if \<not> is_cacheable_status (row_status r) then (None, delete_key key c)
                  else if body_size r < 0 \<or> body_size r > cache_cap_bytes env then (None, c)
                  else (case bodies c (body_path_for_key key) of
                          None \<Rightarrow> (None, delete_key key c)
                        | Some data \<Rightarrow>
                            if int (length data) > cache_cap_bytes env then (None, delete_key key c)
                            else if \<not> readable then (None, delete_key key c)
                            else if length data > 4294967295 then (None, delete_key key c)
                            else (Some \<lparr>ce_final_url = str_or (row_final_url r) u, ce_status = row_status r,
                                     ce_content_type = row_content_type r,
                                     ce_cors_allow_origin = row_cors_allow_origin r, ce_etag = row_etag r,
                                     ce_last_modified = row_last_modified r, ce_expires_at = row_expires_at r,
                                     ce_fetched_at = row_fetched_at r, ce_body = data\<rparr>,
                                  touch_key now key c))))))"

text \<open>\<open>INSERT ... ON CONFLICT(key) DO UPDATE\<close>: every column but \<open>key\<close> and \<open>base_key\<close> is replaced.\<close>

fun upsert :: "cache_row \<Rightarrow> cache_row list \<Rightarrow> cache_row list" where
  "upsert r [] = [r]"
| "upsert r (s # rs) = (if row_key s = row_key r then r\<lparr>base_key := base_key s\<rparr> # rs else s # upsert r rs)"

record put_request =
  put_url :: "cstr option"
  put_partition :: "cstr option"
  put_final_url :: "cstr option"
  put_status :: int
  put_content_type :: "cstr option"
  put_cors_allow_origin :: "cstr option"
  put_etag :: "cstr option"
  put_last_modified :: "cstr option"
  put_cache_control :: "cstr option"
  put_expires :: "cstr option"
  put_vary :: "cstr option"
  put_headers :: "cstr list"
  put_body :: "u8 list"

text \<open>The row a response is stored as, None if it is not to be stored.\<close>

definition row_for_put :: "cache_env \<Rightarrow> int \<Rightarrow> put_request \<Rightarrow> cache_row option" where
  "row_for_put env now p =
     (if \<not> url_should_cache (put_url p) then None
      else if header_has (put_cache_control p) ''no-store'' \<or> header_has (put_cache_control p) ''private'' then None
      else if \<not> is_cacheable_status (put_status p) then None
      else if length (put_body p) > 2147483647 \<or> int (length (put_body p)) > cache_cap_bytes env then None
      else
        let expires_at = freshness_from_headers env now (put_cache_control p) (put_expires p)
        in if expires_at < 0 then None
           else (case vary_selector (put_vary p) (put_headers p) of
                   None \<Rightarrow> None
                 | Some selector \<Rightarrow>
                     let url = str_or (put_url p) [];
                         base = base_key_for_url env url (put_partition p)
                     in Some \<lparr>row_key = row_key_for env base selector, base_key = base, row_url = url,
                          row_final_url = Some (str_or (put_final_url p) url), row_status = put_status p,
                          row_content_type = put_content_type p, row_cors_allow_origin = put_cors_allow_origin p,
                          row_etag = put_etag p, row_last_modified = put_last_modified p, row_vary = put_vary p,
                          row_expires_at = expires_at, row_fetched_at = now, last_used = now,
                          body_size = int (length (put_body p))\<rparr>))"

definition ns_cache_put :: "cache_env \<Rightarrow> int \<Rightarrow> bool \<Rightarrow> bool \<Rightarrow> put_request \<Rightarrow> http_cache \<Rightarrow> http_cache" where
  "ns_cache_put env now row_stored file_written p c =
     (if \<not> cache_usable c then c
      else (case row_for_put env now p of
              None \<Rightarrow> c
            | Some r \<Rightarrow>
                if \<not> row_stored then c
                else
                  let c1 = c\<lparr>rows := upsert r (rows c)\<rparr>
                  in if \<not> file_written then delete_key (row_key r) c1
                     else evict_to_cap env now
                            (c1\<lparr>bodies := (bodies c1)(body_path_for_key (row_key r) \<mapsto> put_body p)\<rparr>)))"

definition ns_cache_promote_304 ::
  "cache_env \<Rightarrow> int \<Rightarrow> cstr option \<Rightarrow> cstr option \<Rightarrow> cstr list \<Rightarrow> cstr option \<Rightarrow> cstr option \<Rightarrow> http_cache \<Rightarrow> http_cache" where
  "ns_cache_promote_304 env now url part hs cache_control expires c =
     (if \<not> cache_usable c \<or> \<not> url_should_cache url then c
      else (case find_row_key env (rows c) (base_key_for_url env (str_or url []) part) hs of
        None \<Rightarrow> c
      | Some key \<Rightarrow>
          (case List.find (\<lambda>r. row_key r = key) (rows c) of
             None \<Rightarrow> c
           | Some r \<Rightarrow>
               let expires_at = freshness_from_headers env now cache_control expires;
                   expires_at = (if expires_at < 0 then 0 else expires_at)
               in if expires_at \<le> row_expires_at r then c
                  else c\<lparr>rows := map (\<lambda>s. if row_key s = key
                          then s\<lparr>row_expires_at := expires_at, row_fetched_at := now, last_used := now\<rparr> else s) (rows c)\<rparr>)))"

definition ns_cache_clear :: "http_cache \<Rightarrow> http_cache" where
  "ns_cache_clear c = c\<lparr>rows := if cache_usable c then [] else rows c,
     bodies := if cache_dir_known c then Map.empty else bodies c\<rparr>"

text \<open>
  \<^verbatim>\<open>cache_schema\<close> wipes entries and bodies of another version; \<^verbatim>\<open>ns_cache_init\<close> opens the cache unless it
  is switched off, private, or the database cannot be opened.
\<close>

definition cache_schema :: "http_cache \<Rightarrow> http_cache" where
  "cache_schema c =
     (if user_version c \<noteq> NS_CACHE_SCHEMA_VERSION then c\<lparr>rows := [], bodies := Map.empty, user_version := NS_CACHE_SCHEMA_VERSION\<rparr>
      else c)"

definition ns_cache_init :: "cache_env \<Rightarrow> int \<Rightarrow> bool \<Rightarrow> bool \<Rightarrow> bool \<Rightarrow> http_cache \<Rightarrow> http_cache" where
  "ns_cache_init env now cache_enabled private_mode opened c =
     (if \<not> cache_enabled \<or> private_mode then c\<lparr>cache_usable := False\<rparr>
      else if \<not> opened then c\<lparr>cache_usable := False, cache_dir_known := True\<rparr>
      else evict_to_cap env now (cache_schema (c\<lparr>cache_usable := True, cache_dir_known := True\<rparr>)))"

section \<open>Keys tell requests apart\<close>

text \<open>What the code relies on of SHA-256: no two texts it is given have one digest, printed in hexadecimal.\<close>

definition collision_free :: "cache_env \<Rightarrow> bool" where
  "collision_free env \<longleftrightarrow> inj (sha256 env) \<and> (\<forall>s. list_all g_ascii_isxdigit (sha256 env s))"

lemma unit_separator: "\<not> g_ascii_isxdigit UNIT_SEPARATOR" "code_of UNIT_SEPARATOR = 0x1F"
  by (simp_all add: UNIT_SEPARATOR_def g_ascii_isxdigit_def g_ascii_isdigit_def)

lemma append_sep_inject: "d \<notin> set a \<Longrightarrow> d \<notin> set b \<Longrightarrow> a @ d # x = b @ d # y \<Longrightarrow> a = b \<and> x = y"
proof (induction a arbitrary: b)
  case Nil then show ?case by (cases b) auto
next
  case (Cons c a) then show ?case by (cases b) auto
qed

lemma append_sep_none: "d \<notin> set a \<Longrightarrow> a \<noteq> b @ d # y"
  by auto

lemma url_no_separator: "url_should_cache (Some u) \<Longrightarrow> UNIT_SEPARATOR \<notin> set u"
  using unit_separator(2) by (auto simp: url_should_cache_def list_ex_iff)

lemma url_starts: "url_should_cache (Some u) \<Longrightarrow> \<exists>v. u = CHR ''h'' # v"
  by (auto simp: url_should_cache_def ns_url_is_http_or_https_def has_prefix_iff)

text \<open>What \<open>nonempty\<close> makes of a partition: no partition and the empty one are the same.\<close>

definition part_of :: "cstr option \<Rightarrow> cstr" where
  "part_of p = str_or p []"

lemma base_key_part:
  "base_key_for_url env u p = sha256 env (u @ (if part_of p = [] then [] else UNIT_SEPARATOR # part_of p))"
  by (cases p) (simp_all add: base_key_for_url_def part_of_def)

lemma sha256_inject: "collision_free env \<Longrightarrow> sha256 env a = sha256 env b \<Longrightarrow> a = b"
  unfolding collision_free_def by (blast dest: injD)

lemma base_key_inject:
  assumes "collision_free env" "url_should_cache (Some u)" "url_should_cache (Some v)"
    "base_key_for_url env u p = base_key_for_url env v q"
  shows "u = v \<and> part_of p = part_of q"
proof -
  have e: "u @ (if part_of p = [] then [] else UNIT_SEPARATOR # part_of p) =
      v @ (if part_of q = [] then [] else UNIT_SEPARATOR # part_of q)"
    using sha256_inject [OF assms(1)] assms(4) unfolding base_key_part by blast
  note n = url_no_separator [OF assms(2)] url_no_separator [OF assms(3)]
  consider "part_of p = []" "part_of q = []" | "part_of p = []" "part_of q \<noteq> []"
    | "part_of p \<noteq> []" "part_of q = []" | "part_of p \<noteq> []" "part_of q \<noteq> []" by blast
  then show ?thesis
  proof cases
    case 1 then show ?thesis using e by simp
  next
    case 2 then show ?thesis using e append_sep_none [OF n(1)] by simp
  next
    case 3 then show ?thesis using e append_sep_none [OF n(2)] by (metis append.right_neutral)
  next
    case 4
    then have "u @ UNIT_SEPARATOR # part_of p = v @ UNIT_SEPARATOR # part_of q" using e by simp
    then show ?thesis by (rule append_sep_inject [OF n])
  qed
qed

lemma base_key_hex: "collision_free env \<Longrightarrow> UNIT_SEPARATOR \<notin> set (base_key_for_url env u p)"
  using unit_separator(1) by (auto simp: collision_free_def base_key_for_url_def list_all_iff)

lemma base_not_row_key:
  assumes "collision_free env" "url_should_cache (Some u)"
  shows "base_key_for_url env u p \<noteq> sha256 env (base_key_for_url env v q @ UNIT_SEPARATOR # sel)"
proof
  assume a: "base_key_for_url env u p = sha256 env (base_key_for_url env v q @ UNIT_SEPARATOR # sel)"
  obtain w where w: "u = CHR ''h'' # w" using url_starts [OF assms(2)] by blast
  obtain r where e: "CHR ''h'' # r = base_key_for_url env v q @ UNIT_SEPARATOR # sel"
    using sha256_inject [OF assms(1) a [unfolded base_key_part [of env u]]] w by auto
  have h: "\<not> g_ascii_isxdigit CHR ''h''" "UNIT_SEPARATOR \<noteq> CHR ''h''"
    by (simp_all add: UNIT_SEPARATOR_def ascii_simps)
  have x: "list_all g_ascii_isxdigit (base_key_for_url env v q)"
    using assms(1) unfolding collision_free_def base_key_part by blast
  show False
  proof (cases "base_key_for_url env v q")
    case Nil then show False using e h by simp
  next
    case (Cons c cs) then show False using e h x by simp
  qed
qed

lemma row_key_inject:
  assumes "collision_free env" "url_should_cache (Some u)" "url_should_cache (Some v)"
    "row_key_for env (base_key_for_url env u p) sel = row_key_for env (base_key_for_url env v q) sel'"
  shows "base_key_for_url env u p = base_key_for_url env v q \<and> sel = sel'"
proof -
  let ?a = "base_key_for_url env u p" and ?b = "base_key_for_url env v q"
  consider "sel = []" "sel' = []" | "sel = []" "sel' \<noteq> []" | "sel \<noteq> []" "sel' = []" | "sel \<noteq> []" "sel' \<noteq> []" by blast
  then show ?thesis
  proof cases
    case 1 then show ?thesis using assms(4) by (simp add: row_key_for_def)
  next
    case 2 then show ?thesis using assms(4) base_not_row_key [OF assms(1,2), of p v q sel'] by (simp add: row_key_for_def)
  next
    case 3
    then have "sha256 env (?a @ UNIT_SEPARATOR # sel) = ?b" using assms(4) by (simp add: row_key_for_def)
    then show ?thesis using base_not_row_key [OF assms(1,3), of q u p sel] by simp
  next
    case 4
    then have "sha256 env (?a @ UNIT_SEPARATOR # sel) = sha256 env (?b @ UNIT_SEPARATOR # sel')"
      using assms(4) by (simp add: row_key_for_def)
    from sha256_inject [OF assms(1) this] show ?thesis by (rule append_sep_inject [OF base_key_hex [OF assms(1)] base_key_hex [OF assms(1)]])
  qed
qed

lemma body_path_inject: "body_path_for_key a = body_path_for_key b \<longleftrightarrow> a = b"
  unfolding body_path_for_key_def by (metis append_take_drop_id prod.inject)

section \<open>Eviction\<close>

lemma evicted_rows: "rows (evict_by_select sql c) = filter (\<lambda>r. row_key r \<notin> set (sql (rows c))) (rows c)"
proof -
  have "rows (fold delete_key ks c) = filter (\<lambda>r. row_key r \<notin> set ks) (rows c)" for ks c
    by (induction ks arbitrary: c) (auto simp: delete_key_def filter_filter intro!: filter_cong)
  then show ?thesis by (simp add: evict_by_select_def)
qed

lemma evicted_bodies:
  "bodies (evict_by_select sql c) (body_path_for_key k) =
     (if k \<in> set (sql (rows c)) then None else bodies c (body_path_for_key k))"
proof -
  have "bodies (fold delete_key ks c) (body_path_for_key k) =
      (if k \<in> set ks then None else bodies c (body_path_for_key k))" for ks c
    by (induction ks arbitrary: c) (auto simp: delete_key_def body_path_inject)
  then show ?thesis by (simp add: evict_by_select_def)
qed

lemma evicted_other:
  "cache_usable (evict_by_select sql c) = cache_usable c" "cache_dir_known (evict_by_select sql c) = cache_dir_known c"
  "user_version (evict_by_select sql c) = user_version c"
proof -
  have "cache_usable (fold delete_key ks c) = cache_usable c \<and> cache_dir_known (fold delete_key ks c) = cache_dir_known c \<and>
    user_version (fold delete_key ks c) = user_version c" for ks c
    by (induction ks arbitrary: c) (auto simp: delete_key_def)
  then show "cache_usable (evict_by_select sql c) = cache_usable c" "cache_dir_known (evict_by_select sql c) = cache_dir_known c"
    "user_version (evict_by_select sql c) = user_version c" by (auto simp: evict_by_select_def)
qed

text \<open>The rows of the last 30 days, and those of them \<open>evict_to_cap\<close> keeps.\<close>

definition recent :: "int \<Rightarrow> cache_row list \<Rightarrow> cache_row list" where
  "recent now rs = filter (\<lambda>r. last_used r \<ge> now - NS_CACHE_MAX_AGE_SECONDS) rs"

definition kept :: "cache_env \<Rightarrow> int \<Rightarrow> cache_row list \<Rightarrow> cache_row list" where
  "kept env now rs = filter (\<lambda>r. running (recent now rs) r \<le> cache_cap_bytes env) (recent now rs)"

lemma filter_keys:
  assumes "distinct (map f xs)"
  shows "filter (\<lambda>x. f x \<notin> set (map f (filter P xs))) xs = filter (\<lambda>x. \<not> P x) xs"
proof (rule filter_cong [OF refl])
  fix x assume "x \<in> set xs"
  then show "(f x \<notin> set (map f (filter P xs))) = (\<not> P x)"
    using assms by (auto simp: distinct_map inj_on_def)
qed

lemma evict_to_cap_rows:
  assumes "distinct (map row_key (rows c))" "cache_usable c"
  shows "rows (evict_to_cap env now c) = kept env now (rows c)"
proof -
  have a: "rows (evict_aged_out now c) = recent now (rows c)"
    unfolding evict_aged_out_def evicted_rows filter_keys [OF assms(1)] recent_def by (simp add: not_less)
  have "distinct (map row_key (rows (evict_aged_out now c)))"
    unfolding a recent_def using assms(1) by (simp add: distinct_map_filter)
  from filter_keys [OF this] show ?thesis
    using assms(2) unfolding evict_to_cap_def by (simp add: evicted_rows a kept_def not_less)
qed

lemma evict_to_cap_bodies:
  assumes "distinct (map row_key (rows c))" "cache_usable c" "k \<in> row_key ` set (rows (evict_to_cap env now c))"
  shows "bodies (evict_to_cap env now c) (body_path_for_key k) = bodies c (body_path_for_key k)"
  using assms(2,3) by (auto simp: evict_to_cap_def evicted_bodies evict_aged_out_def evicted_rows)

lemma evict_to_cap_files:
  assumes "bodies (evict_to_cap env now c) (body_path_for_key k) \<noteq> None" "cache_usable c"
  shows "bodies c (body_path_for_key k) \<noteq> None \<and> (k \<in> row_key ` set (rows c) \<longrightarrow> k \<in> row_key ` set (rows (evict_to_cap env now c)))"
  using assms by (auto simp: evict_to_cap_def evicted_bodies evict_aged_out_def evicted_rows split: if_splits)

section \<open>What eviction leaves\<close>

definition row_order :: "cache_row \<Rightarrow> int \<times> nat list" where
  "row_order r = (last_used r, map code_of (row_key r))"

lemma not_after_iff: "not_after r s \<longleftrightarrow> row_order s \<le> row_order r"
  by (auto simp: not_after_def key_less_def row_order_def less_eq_prod_def not_less)

lemma not_after_trans: "not_after r s \<Longrightarrow> not_after s t \<Longrightarrow> not_after r t"
  by (simp add: not_after_iff)

definition total_size :: "cache_row list \<Rightarrow> int" where
  "total_size rs = sum_list (map body_size rs)"

lemma total_size_filter_mono:
  assumes "\<forall>r\<in>set rs. body_size r \<ge> 0" "\<forall>r\<in>set rs. P r \<longrightarrow> Q r"
  shows "total_size (filter P rs) \<le> total_size (filter Q rs)"
  using assms by (induction rs) (auto simp: total_size_def)

lemma running_mono:
  assumes "\<forall>r\<in>set rs. body_size r \<ge> 0" "not_after t s"
  shows "running rs t \<le> running rs s"
  unfolding running_def using total_size_filter_mono [OF assms(1), of "\<lambda>r. not_after r t" "\<lambda>r. not_after r s"]
    not_after_trans [OF _ assms(2)] by (simp add: total_size_def)

lemma cap_positive: "cache_cap_bytes env > 0"
  by (simp add: cache_cap_bytes_def Let_def)

lemma kept_fits:
  assumes "\<forall>r\<in>set rs. body_size r \<ge> 0"
  shows "total_size (kept env now rs) \<le> cache_cap_bytes env"
proof (cases "kept env now rs = []")
  case True then show ?thesis using cap_positive [of env] by (simp add: total_size_def)
next
  case False
  let ?R = "recent now rs" and ?K = "kept env now rs"
  have "Min (row_order ` set ?K) \<in> row_order ` set ?K" using False by (intro Min_in) auto
  then obtain m where m: "m \<in> set ?K" "row_order m = Min (row_order ` set ?K)" by auto
  have all: "\<forall>r\<in>set ?K. not_after r m" unfolding not_after_iff m(2) by simp
  have nonneg: "\<forall>r\<in>set ?R. body_size r \<ge> 0" using assms by (auto simp: recent_def)
  have "total_size ?K \<le> total_size (filter (\<lambda>r. not_after r m) ?R)"
    unfolding kept_def by (rule total_size_filter_mono [OF nonneg]) (use all in \<open>auto simp: kept_def\<close>)
  also have "\<dots> = running ?R m" by (simp add: running_def total_size_def)
  also have "\<dots> \<le> cache_cap_bytes env" using m(1) by (auto simp: kept_def)
  finally show ?thesis .
qed

section \<open>Reachable caches\<close>

text \<open>
  A cache that began empty, with the log of all responses ever handed to \<open>ns_cache_put\<close>.  The cap and the
  clock may differ at every step; the rest of the environment is fixed.
\<close>

definition with_cap :: "int option \<Rightarrow> cache_env \<Rightarrow> cache_env" where
  "with_cap mb env = env\<lparr>cache_cap_mb := mb\<rparr>"

lemma with_cap_keys [simp]:
  "base_key_for_url (with_cap mb env) = base_key_for_url env" "row_key_for (with_cap mb env) = row_key_for env"
  by (simp_all add: with_cap_def base_key_for_url_def row_key_for_def fun_eq_iff)

lemma with_cap_find [simp]:
  "row_matches (with_cap mb env) = row_matches env" "find_row_key (with_cap mb env) = find_row_key env"
proof -
  show m: "row_matches (with_cap mb env) = row_matches env" by (simp add: row_matches_def fun_eq_iff split: option.split)
  show "find_row_key (with_cap mb env) = find_row_key env" by (simp add: find_row_key_def fun_eq_iff m)
qed

definition empty_cache :: http_cache where
  "empty_cache = \<lparr>cache_usable = False, cache_dir_known = False, user_version = 0, rows = [], bodies = Map.empty\<rparr>"

inductive cache_reach :: "cache_env \<Rightarrow> put_request set \<Rightarrow> http_cache \<Rightarrow> bool" for env where
  cr_new: "cache_reach env {} empty_cache"
| cr_init: "cache_reach env log c \<Longrightarrow> cache_reach env log (ns_cache_init (with_cap mb env) now enabled private opened c)"
| cr_put: "cache_reach env log c \<Longrightarrow>
    cache_reach env (insert p log) (ns_cache_put (with_cap mb env) now row_stored file_written p c)"
| cr_get: "cache_reach env log c \<Longrightarrow> ns_cache_get (with_cap mb env) now readable url part hs c = (e, c') \<Longrightarrow>
    cache_reach env log c'"
| cr_promote: "cache_reach env log c \<Longrightarrow>
    cache_reach env log (ns_cache_promote_304 (with_cap mb env) now url part hs cache_control expires c)"
| cr_clear: "cache_reach env log c \<Longrightarrow> cache_reach env log (ns_cache_clear c)"

text \<open>A row holds what a request of the log was answered, and its file, if there, the body of the answer.\<close>

definition row_from :: "cache_env \<Rightarrow> put_request \<Rightarrow> cache_row \<Rightarrow> bool" where
  "row_from env p r \<longleftrightarrow>
     url_should_cache (put_url p) \<and> \<not> header_has (put_cache_control p) ''no-store'' \<and>
     \<not> header_has (put_cache_control p) ''private'' \<and> is_cacheable_status (put_status p) \<and>
     (\<exists>sel. vary_selector (put_vary p) (put_headers p) = Some sel \<and> row_key r = row_key_for env (base_key r) sel) \<and>
     base_key r = base_key_for_url env (str_or (put_url p) []) (put_partition p) \<and>
     row_final_url r = Some (str_or (put_final_url p) (str_or (put_url p) [])) \<and> row_status r = put_status p \<and>
     row_content_type r = put_content_type p \<and> row_cors_allow_origin r = put_cors_allow_origin p \<and>
     row_etag r = put_etag p \<and> row_last_modified r = put_last_modified p \<and> row_vary r = put_vary p \<and>
     body_size r = int (length (put_body p))"

definition file_of :: "http_cache \<Rightarrow> cache_row \<Rightarrow> u8 list option" where
  "file_of c r = bodies c (body_path_for_key (row_key r))"

definition cache_ok :: "cache_env \<Rightarrow> put_request set \<Rightarrow> http_cache \<Rightarrow> bool" where
  "cache_ok env log c \<longleftrightarrow> (cache_usable c \<longrightarrow> cache_dir_known c) \<and> distinct (map row_key (rows c)) \<and>
     (\<forall>r\<in>set (rows c). \<exists>p\<in>log. row_from env p r \<and> (file_of c r = None \<or> file_of c r = Some (put_body p))) \<and>
     (\<forall>path. bodies c path \<noteq> None \<longrightarrow> path \<in> body_path_for_key ` row_key ` set (rows c))"

lemma row_from_times [simp]:
  "row_from env p (r\<lparr>last_used := t\<rparr>) = row_from env p r"
  "row_from env p (r\<lparr>row_expires_at := t\<rparr>) = row_from env p r"
  "row_from env p (r\<lparr>row_fetched_at := t\<rparr>) = row_from env p r"
  by (simp_all add: row_from_def)

lemma cache_ok_files:
  assumes "cache_ok env log c" "rows c' = rows c" "bodies c' = bodies c" "cache_usable c' \<longrightarrow> cache_dir_known c'"
  shows "cache_ok env log c'"
  using assms by (simp add: cache_ok_def file_of_def)

lemma cache_ok_update:
  assumes ok: "cache_ok env log c" and f: "\<And>r p. row_from env p (f r) = row_from env p r" "\<And>r. row_key (f r) = row_key r"
  shows "cache_ok env log (c\<lparr>rows := map f (rows c)\<rparr>)"
proof -
  have "row_key \<circ> f = row_key" using f(2) by (simp add: fun_eq_iff)
  then have "map row_key (map f (rows c)) = map row_key (rows c)" "row_key ` f ` set (rows c) = row_key ` set (rows c)"
    by (simp_all add: image_comp)
  then show ?thesis using ok f unfolding cache_ok_def file_of_def by (simp del: map_map)
qed

lemma cache_ok_delete:
  assumes ok: "cache_ok env log c"
  shows "cache_ok env log (delete_key key c)"
proof -
  have 1: "file_of (delete_key key c) r = file_of c r" if "row_key r \<noteq> key" for r
    using that by (auto simp: file_of_def delete_key_def body_path_inject)
  have 2: "path \<in> body_path_for_key ` row_key ` set (rows (delete_key key c))"
    if b: "bodies (delete_key key c) path \<noteq> None" for path
  proof -
    have "path \<noteq> body_path_for_key key" "bodies c path \<noteq> None" using b by (auto simp: delete_key_def split: if_splits)
    moreover from this obtain r where "r \<in> set (rows c)" "path = body_path_for_key (row_key r)"
      using ok unfolding cache_ok_def by blast
    ultimately show ?thesis by (auto simp: delete_key_def)
  qed
  have "distinct (map row_key (rows (delete_key key c)))"
    using ok by (simp add: cache_ok_def delete_key_def distinct_map_filter)
  moreover have "cache_usable (delete_key key c) \<longrightarrow> cache_dir_known (delete_key key c)"
    using ok by (simp add: cache_ok_def delete_key_def)
  moreover have "set (rows (delete_key key c)) = {r \<in> set (rows c). row_key r \<noteq> key}" by (auto simp: delete_key_def)
  ultimately show ?thesis using ok 1 2 unfolding cache_ok_def by simp
qed

lemma cache_ok_evict:
  assumes "cache_ok env log c"
  shows "cache_ok env log (evict_by_select sql c)"
proof -
  have "cache_ok env log (fold delete_key ks c)" for ks
    using assms by (induction ks arbitrary: c) (auto simp: cache_ok_delete)
  then show ?thesis by (simp add: evict_by_select_def)
qed

lemma cache_ok_cap: "cache_ok env log c \<Longrightarrow> cache_ok env log (evict_to_cap e now c)"
  by (simp add: evict_to_cap_def evict_aged_out_def cache_ok_evict)

lemma cache_ok_get:
  assumes "cache_ok env log c" "ns_cache_get e now readable url part hs c = (x, c')"
  shows "cache_ok env log c'"
proof -
  have "cache_ok env log (touch_key t key c)" for t key
    unfolding touch_key_def by (rule cache_ok_update [OF assms(1)]) auto
  then show ?thesis using assms cache_ok_delete [OF assms(1)]
    by (auto simp: ns_cache_get_def Let_def split: if_splits option.splits)
qed

lemma cache_ok_promote: "cache_ok env log c \<Longrightarrow> cache_ok env log (ns_cache_promote_304 e now url part hs cc ex c)"
  unfolding ns_cache_promote_304_def Let_def
  by (auto split: option.splits if_splits intro!: cache_ok_update)

lemma upsert_keys:
  "map row_key (upsert r rs) = (if row_key r \<in> row_key ` set rs then map row_key rs else map row_key rs @ [row_key r])"
  by (induction rs) auto

lemma upsert_set:
  assumes "distinct (map row_key rs)" "\<forall>s\<in>set rs. row_key s = row_key r \<longrightarrow> base_key s = base_key r"
  shows "set (upsert r rs) = insert r {s \<in> set rs. row_key s \<noteq> row_key r}"
  using assms
proof (induction rs)
  case (Cons s rs)
  show ?case
  proof (cases "row_key s = row_key r")
    case True
    then have "r\<lparr>base_key := base_key s\<rparr> = r" using Cons.prems(2) by simp
    moreover have "\<forall>t\<in>set rs. row_key t \<noteq> row_key r" using Cons.prems(1) True by (force simp: image_iff)
    ultimately show ?thesis using True by auto
  qed (use Cons in auto)
qed simp

lemma row_for_put_from:
  assumes "row_for_put (with_cap mb env) now p = Some r"
  shows "row_from env p r" "last_used r = now" "row_expires_at r = freshness_from_headers (with_cap mb env) now (put_cache_control p) (put_expires p)"
    "row_expires_at r \<ge> 0" "body_size r \<le> cache_cap_bytes (with_cap mb env)"
  using assms by (auto simp: row_for_put_def row_from_def Let_def split: if_splits option.splits)

lemma row_from_unique_base:
  assumes "collision_free env" "row_from env p r" "row_from env q s" "row_key r = row_key s"
  shows "base_key r = base_key s"
proof -
  obtain u v where u: "put_url p = Some u" "put_url q = Some v"
    using assms(2,3) by (auto simp: row_from_def url_should_cache_def split: option.splits)
  obtain sel sel' where k: "row_key r = row_key_for env (base_key r) sel" "row_key s = row_key_for env (base_key s) sel'"
    "base_key r = base_key_for_url env u (put_partition p)" "base_key s = base_key_for_url env v (put_partition q)"
    using assms(2,3) u by (auto simp: row_from_def)
  have "url_should_cache (Some u)" "url_should_cache (Some v)" using assms(2,3) u by (simp_all add: row_from_def)
  from row_key_inject [OF assms(1) this] k assms(4) show ?thesis by metis
qed

lemma stored_ok:
  assumes cf: "collision_free env" and ok: "cache_ok env log c" and Some: "row_for_put (with_cap mb env) now p = Some r"
  shows "cache_ok env (insert p log)
    (c\<lparr>rows := upsert r (rows c), bodies := (bodies c)(body_path_for_key (row_key r) \<mapsto> put_body p)\<rparr>)"
proof -
  note rf = row_for_put_from [OF Some]
  let ?c1 = "c\<lparr>rows := upsert r (rows c)\<rparr>"
  let ?c2 = "?c1\<lparr>bodies := (bodies c)(body_path_for_key (row_key r) \<mapsto> put_body p)\<rparr>"
  have D: "distinct (map row_key (rows c))"
    and F: "\<forall>s\<in>set (rows c). \<exists>q\<in>log. row_from env q s \<and> (file_of c s = None \<or> file_of c s = Some (put_body q))"
    and B: "\<forall>path. bodies c path \<noteq> None \<longrightarrow> path \<in> body_path_for_key ` row_key ` set (rows c)"
    using ok by (auto simp: cache_ok_def)
  have base: "\<forall>s\<in>set (rows c). row_key s = row_key r \<longrightarrow> base_key s = base_key r"
    using F row_from_unique_base [OF cf _ rf(1)] by blast
  have S: "set (upsert r (rows c)) = insert r {s \<in> set (rows c). row_key s \<noteq> row_key r}" by (rule upsert_set [OF D base])
  have D': "distinct (map row_key (upsert r (rows c)))" unfolding upsert_keys using D by auto
  have K: "row_key ` set (upsert r (rows c)) = insert (row_key r) (row_key ` set (rows c))" unfolding S by auto
  have "cache_ok env (insert p log) ?c2"
    unfolding cache_ok_def
  proof (intro conjI ballI allI impI)
    fix s assume "s \<in> set (rows ?c2)"
    then have "s = r \<or> s \<in> set (rows c) \<and> row_key s \<noteq> row_key r" by (simp add: S)
    then show "\<exists>q\<in>insert p log. row_from env q s \<and> (file_of ?c2 s = None \<or> file_of ?c2 s = Some (put_body q))"
    proof
      assume "s = r" then show ?thesis using rf(1) by (auto simp: file_of_def)
    next
      assume s: "s \<in> set (rows c) \<and> row_key s \<noteq> row_key r"
      then have "file_of ?c2 s = file_of c s" by (simp add: file_of_def body_path_inject)
      then show ?thesis using F s by auto
    qed
  next
    fix path assume "bodies ?c2 path \<noteq> None"
    then have "path = body_path_for_key (row_key r) \<or> path \<in> body_path_for_key ` row_key ` set (rows c)"
      using B [rule_format, of path] by (auto split: if_splits)
    then show "path \<in> body_path_for_key ` row_key ` set (rows ?c2)" using K by auto
  qed (use D' ok in \<open>auto simp: cache_ok_def\<close>)
  then show ?thesis by simp
qed

lemma cache_ok_put:
  assumes cf: "collision_free env" and ok: "cache_ok env log c"
  shows "cache_ok env (insert p log) (ns_cache_put (with_cap mb env) now row_stored file_written p c)"
proof (cases "row_for_put (with_cap mb env) now p")
  case None
  then show ?thesis using ok by (auto simp: ns_cache_put_def cache_ok_def)
next
  case (Some r)
  let ?c1 = "c\<lparr>rows := upsert r (rows c)\<rparr>"
  let ?c2 = "?c1\<lparr>bodies := (bodies c)(body_path_for_key (row_key r) \<mapsto> put_body p)\<rparr>"
  have ok2: "cache_ok env (insert p log) ?c2" using stored_ok [OF cf ok Some] by simp
  have ok1: "cache_ok env (insert p log) (delete_key (row_key r) ?c1)"
  proof -
    have "delete_key (row_key r) ?c1 = delete_key (row_key r) ?c2" by (simp add: delete_key_def)
    then show ?thesis using cache_ok_delete [OF ok2] by simp
  qed
  have ok0: "cache_ok env (insert p log) c" using ok by (auto simp: cache_ok_def)
  show ?thesis using ok0 ok1 cache_ok_cap [OF ok2] by (simp add: ns_cache_put_def Some Let_def)
qed

lemma cache_ok_simple:
  "cache_ok env {} empty_cache"
  "cache_ok env log c \<Longrightarrow> cache_ok env log (ns_cache_clear c)"
  "cache_ok env log c \<Longrightarrow> cache_ok env log (ns_cache_init e now enabled private opened c)"
proof -
  show "cache_ok env {} empty_cache" by (simp add: cache_ok_def empty_cache_def)
  show "cache_ok env log (ns_cache_clear c)" if "cache_ok env log c"
    using that by (auto simp: cache_ok_def ns_cache_clear_def file_of_def)
  assume ok: "cache_ok env log c"
  have i: "cache_ok env log (c\<lparr>cache_usable := b, cache_dir_known := True\<rparr>)" "cache_ok env log (c\<lparr>cache_usable := False\<rparr>)" for b
    by (rule cache_ok_files [OF ok]; simp)+
  have "cache_ok env log (cache_schema d)" if "cache_ok env log d" for d
    using that by (auto simp: cache_ok_def cache_schema_def file_of_def)
  then show "cache_ok env log (ns_cache_init e now enabled private opened c)"
    using i by (simp add: ns_cache_init_def cache_ok_cap)
qed

lemma reach_ok: "cache_reach env log c \<Longrightarrow> collision_free env \<Longrightarrow> cache_ok env log c"
proof (induction rule: cache_reach.induct)
  case (cr_put log c p mb now row_stored file_written)
  then show ?case by (intro cache_ok_put)
qed (auto simp: cache_ok_simple cache_ok_promote cache_ok_get)

lemma get_Some:
  assumes "ns_cache_get e now readable (Some u) part hs c = (Some x, c')"
  obtains key r data where "find_row_key e (rows c) (base_key_for_url e u part) hs = Some key"
    "List.find (\<lambda>r. row_key r = key) (rows c) = Some r" "bodies c (body_path_for_key key) = Some data"
    "is_cacheable_status (row_status r)"
    "x = \<lparr>ce_final_url = str_or (row_final_url r) u, ce_status = row_status r,
       ce_content_type = row_content_type r, ce_cors_allow_origin = row_cors_allow_origin r, ce_etag = row_etag r,
       ce_last_modified = row_last_modified r, ce_expires_at = row_expires_at r,
       ce_fetched_at = row_fetched_at r, ce_body = data\<rparr>"
  using assms by (auto simp: ns_cache_get_def split: if_splits option.splits)

lemma find_row:
  assumes "find_row_key env rs base hs = Some key" "List.find (\<lambda>r. row_key r = key) rs = Some r" "distinct (map row_key rs)"
  shows "r \<in> set rs" "row_key r = key" "row_matches env base hs r"
proof -
  obtain s where s: "List.find (row_matches env base hs) rs = Some s" "row_key s = key"
    using assms(1) by (auto simp: find_row_key_def)
  then have "s \<in> set rs" "row_matches env base hs s" by (auto simp: find_Some_iff)
  moreover have "r \<in> set rs" "row_key r = key" using assms(2) by (auto simp: find_Some_iff)
  ultimately show "r \<in> set rs" "row_key r = key" "row_matches env base hs r"
    using assms(3) s(2) by (auto simp: distinct_map inj_on_def)
qed

lemma answer_from_log:
  assumes cf: "collision_free env" and re: "cache_reach env log c" and u: "url_should_cache (Some u)"
    and g: "ns_cache_get (with_cap mb env) now readable (Some u) part hs c = (Some e, c')"
  shows "\<exists>p\<in>log. put_url p = Some u \<and> part_of (put_partition p) = part_of part \<and>
    vary_selector (put_vary p) hs = vary_selector (put_vary p) (put_headers p) \<and>
    vary_selector (put_vary p) hs \<noteq> None \<and>
    \<not> header_has (put_cache_control p) ''no-store'' \<and> \<not> header_has (put_cache_control p) ''private'' \<and>
    ce_final_url e = str_or (put_final_url p) u \<and> ce_status e = put_status p \<and>
    ce_content_type e = put_content_type p \<and> ce_cors_allow_origin e = put_cors_allow_origin p \<and> ce_body e = put_body p"
proof -
  note ok = reach_ok [OF re cf]
  from g obtain key r data where k: "find_row_key env (rows c) (base_key_for_url env u part) hs = Some key"
    "List.find (\<lambda>r. row_key r = key) (rows c) = Some r" "bodies c (body_path_for_key key) = Some data"
    and e: "e = \<lparr>ce_final_url = str_or (row_final_url r) u, ce_status = row_status r,
       ce_content_type = row_content_type r, ce_cors_allow_origin = row_cors_allow_origin r, ce_etag = row_etag r,
       ce_last_modified = row_last_modified r, ce_expires_at = row_expires_at r,
       ce_fetched_at = row_fetched_at r, ce_body = data\<rparr>"
    by (elim get_Some) simp
  note r = find_row [OF k(1,2)]
  have D: "distinct (map row_key (rows c))" using ok by (simp add: cache_ok_def)
  note r = r [OF D]
  obtain p where p: "p \<in> log" "row_from env p r" "file_of c r = Some (put_body p)"
    using ok r(1,2) k(3) by (auto simp: cache_ok_def file_of_def)
  obtain v where v: "put_url p = Some v" using p(2) by (auto simp: row_from_def url_should_cache_def split: option.splits)
  obtain sel where sel: "vary_selector (put_vary p) (put_headers p) = Some sel" "row_key r = row_key_for env (base_key r) sel"
    "base_key r = base_key_for_url env v (put_partition p)" "row_vary r = put_vary p"
    using p(2) v by (auto simp: row_from_def)
  obtain sel' where sel': "vary_selector (put_vary p) hs = Some sel'" "row_key r = row_key_for env (base_key r) sel'"
    "base_key r = base_key_for_url env u part"
    using r(3) sel(4) by (auto simp: row_matches_def split: option.splits)
  have vc: "url_should_cache (Some v)" using p(2) v by (simp add: row_from_def)
  have eq: "v = u \<and> part_of (put_partition p) = part_of part"
    by (rule base_key_inject [OF cf vc u]) (use sel(3) sel'(3) in simp)
  have "sel = sel'" using row_key_inject [OF cf vc vc, of "put_partition p" sel "put_partition p" sel'] sel sel' by simp
  moreover have "data = put_body p" using p(3) k(3) r(2) by (simp add: file_of_def)
  ultimately show ?thesis using p v eq sel(1) sel'(1)
    by (intro bexI [OF _ p(1)]) (auto simp: e row_from_def)
qed

lemma kept_within_cap:
  assumes ok: "cache_ok env log c" and u: "cache_usable c"
  shows "total_size (rows (evict_to_cap e now c)) \<le> cache_cap_bytes e"
proof -
  have "\<forall>r\<in>set (rows c). body_size r \<ge> 0" using ok by (auto simp: cache_ok_def row_from_def)
  with kept_fits evict_to_cap_rows [OF _ u] ok show ?thesis by (simp add: cache_ok_def)
qed

definition files_accounted :: "http_cache \<Rightarrow> bool" where
  "files_accounted c \<longleftrightarrow> (\<forall>path data. bodies c path = Some data \<longrightarrow>
     (\<exists>r\<in>set (rows c). path = body_path_for_key (row_key r) \<and> body_size r = int (length data)))"

lemma ok_files_accounted: "cache_ok env log c \<Longrightarrow> files_accounted c"
  unfolding files_accounted_def
proof (intro allI impI)
  fix path data assume ok: "cache_ok env log c" and b: "bodies c path = Some data"
  then obtain r where r: "r \<in> set (rows c)" "path = body_path_for_key (row_key r)" unfolding cache_ok_def by blast
  moreover obtain p where "row_from env p r" "file_of c r = Some (put_body p)"
    using ok r b by (fastforce simp: cache_ok_def file_of_def)
  ultimately show "\<exists>r\<in>set (rows c). path = body_path_for_key (row_key r) \<and> body_size r = int (length data)"
    using b by (intro bexI [OF _ r(1)]) (auto simp: row_from_def file_of_def)
qed

text \<open>A stored response that is the youngest row survives the eviction, and is found again.\<close>

lemma filter_single: "distinct xs \<Longrightarrow> r \<in> set xs \<Longrightarrow> filter (\<lambda>s. s = r) xs = [r]"
  by (induction xs) (auto simp: filter_empty_conv)

lemma put_kept:
  assumes D: "distinct (map row_key rs)" and r: "r \<in> set rs" "last_used r = now" "body_size r \<le> cache_cap_bytes env"
    and old: "\<forall>s\<in>set rs. s \<noteq> r \<longrightarrow> last_used s < now"
  shows "r \<in> set (kept env now rs)"
proof -
  have R: "r \<in> set (recent now rs)" using r by (simp add: recent_def NS_CACHE_MAX_AGE_SECONDS_def)
  have "filter (\<lambda>s. not_after s r) (recent now rs) = filter (\<lambda>s. s = r) (recent now rs)"
    by (rule filter_cong [OF refl]) (use old r(2) in \<open>auto simp: recent_def not_after_def key_less_def\<close>)
  moreover have "distinct (recent now rs)" using D by (simp add: recent_def distinct_map)
  then have "filter (\<lambda>s. s = r) (recent now rs) = [r]"
    using R by (rule filter_single)
  ultimately have "running (recent now rs) r = body_size r" by (simp add: running_def)
  then show ?thesis using R r(3) by (simp add: kept_def)
qed

lemma put_get:
  assumes cf: "collision_free env" and re: "cache_reach env log c" and us: "cache_usable c"
    and put: "row_for_put (with_cap mb env) now p = Some r" "put_url p = Some u"
    and old: "\<forall>s\<in>set (rows c). last_used s < now"
    and one: "\<forall>s\<in>set (rows c). row_matches env (base_key r) (put_headers p) s \<longrightarrow> row_key s = row_key r"
    and g: "ns_cache_get (with_cap mb env) later True (Some u) (put_partition p) (put_headers p)
        (ns_cache_put (with_cap mb env) now True True p c) = (x, c')"
  shows "x = Some \<lparr>ce_final_url = str_or (put_final_url p) u, ce_status = put_status p,
       ce_content_type = put_content_type p, ce_cors_allow_origin = put_cors_allow_origin p, ce_etag = put_etag p,
       ce_last_modified = put_last_modified p, ce_expires_at = row_expires_at r,
       ce_fetched_at = now, ce_body = put_body p\<rparr>"
proof -
  let ?e = "with_cap mb env"
  let ?c2 = "c\<lparr>rows := upsert r (rows c), bodies := (bodies c)(body_path_for_key (row_key r) \<mapsto> put_body p)\<rparr>"
  let ?c3 = "evict_to_cap ?e now ?c2"
  note rf = row_for_put_from [OF put(1)]
  have ok: "cache_ok env log c" by (rule reach_ok [OF re cf])
  then have D: "distinct (map row_key (rows c))"
    and F: "\<forall>s\<in>set (rows c). \<exists>q\<in>log. row_from env q s" by (auto simp: cache_ok_def)
  have base: "\<forall>s\<in>set (rows c). row_key s = row_key r \<longrightarrow> base_key s = base_key r"
    using F row_from_unique_base [OF cf _ rf(1)] by blast
  have S: "set (upsert r (rows c)) = insert r {s \<in> set (rows c). row_key s \<noteq> row_key r}" by (rule upsert_set [OF D base])
  have D': "distinct (map row_key (rows ?c2))" using D by (auto simp: upsert_keys)
  have put': "ns_cache_put ?e now True True p c = ?c3" using us put by (simp add: ns_cache_put_def Let_def)
  have R3: "rows ?c3 = kept ?e now (rows ?c2)" using evict_to_cap_rows [OF D'] us by simp
  have in3: "r \<in> set (rows ?c3)"
    unfolding R3 by (rule put_kept [OF D']) (use S rf old in auto)
  have sub: "set (rows ?c3) \<subseteq> set (rows ?c2)" unfolding R3 by (auto simp: kept_def recent_def)
  have D3: "distinct (map row_key (rows ?c3))" unfolding R3 kept_def recent_def using D' by (simp add: distinct_map_filter)
  obtain sel where sel: "vary_selector (put_vary p) (put_headers p) = Some sel" "row_key r = row_key_for env (base_key r) sel"
    using rf(1) by (auto simp: row_from_def)
  have m: "row_matches env (base_key r) (put_headers p) r" using rf(1) sel by (simp add: row_matches_def row_from_def)
  have uniq: "row_key s = row_key r" if "s \<in> set (rows ?c3)" "row_matches env (base_key r) (put_headers p) s" for s
    using that sub S one by auto
  have fk: "find_row_key env (rows ?c3) (base_key r) (put_headers p) = Some (row_key r)"
  proof (cases "List.find (row_matches env (base_key r) (put_headers p)) (rows ?c3)")
    case None then show ?thesis using in3 m by (auto simp: find_None_iff)
  next
    case (Some s)
    then have "s \<in> set (rows ?c3)" "row_matches env (base_key r) (put_headers p) s" by (auto simp: find_Some_iff)
    from uniq [OF this] Some show ?thesis by (simp add: find_row_key_def)
  qed
  have fr: "List.find (\<lambda>s. row_key s = row_key r) (rows ?c3) = Some r"
  proof (cases "List.find (\<lambda>s. row_key s = row_key r) (rows ?c3)")
    case None then show ?thesis using in3 by (auto simp: find_None_iff)
  next
    case (Some s)
    then have "s \<in> set (rows ?c3)" "row_key s = row_key r" by (auto simp: find_Some_iff)
    then show ?thesis using Some in3 D3 by (auto simp: distinct_map inj_on_def)
  qed
  have b: "bodies ?c3 (body_path_for_key (row_key r)) = Some (put_body p)"
    using evict_to_cap_bodies [OF D', of "row_key r" ?e now] in3 us by auto
  have l: "length (put_body p) \<le> 2147483647" "int (length (put_body p)) \<le> cache_cap_bytes ?e"
    using put(1) by (auto simp: row_for_put_def split: if_splits)
  have bk: "base_key r = base_key_for_url env u (put_partition p)" using rf(1) put(2) by (simp add: row_from_def)
  have us3: "cache_usable ?c3" using us by (simp add: evict_to_cap_def evict_aged_out_def evicted_other)
  have fields: "is_cacheable_status (row_status r)" "row_status r = put_status p" "row_final_url r = Some (str_or (put_final_url p) u)"
    "row_content_type r = put_content_type p" "row_cors_allow_origin r = put_cors_allow_origin p" "row_etag r = put_etag p"
    "row_last_modified r = put_last_modified p" "body_size r = int (length (put_body p))"
    using rf(1) put(2) by (auto simp: row_from_def)
  have "row_fetched_at r = now" using put(1) by (auto simp: row_for_put_def Let_def split: if_splits option.splits)
  then show ?thesis
    using g unfolding put' ns_cache_get_def using us3 fk fr b l fields bk by auto
qed

section \<open>Properties\<close>

text \<open>An environment with a digest that is collision-free: two hexadecimal digits for every character.\<close>

definition hex_char :: "nat \<Rightarrow> char" where
  "hex_char n = char_at (if n < 10 then 48 + n else 87 + n)"

definition hex_digest :: "cstr \<Rightarrow> cstr" where
  "hex_digest s = concat (map (\<lambda>c. [hex_char (code_of c div 16), hex_char (code_of c mod 16)]) s)"

definition example_cache_env :: cache_env where
  "example_cache_env = \<lparr>sha256 = hex_digest, date_iso8601 = \<lambda>_. None, date_utc = \<lambda>y m d hh mm ss. Some (d * 86400),
     cache_cap_mb = None\<rparr>"

lemma hex_char_code: "n < 16 \<Longrightarrow> code_of (hex_char n) = (if n < 10 then 48 + n else 87 + n)"
  by (simp add: hex_char_def)

lemma hex_char_inject: "m < 16 \<Longrightarrow> n < 16 \<Longrightarrow> hex_char m = hex_char n \<Longrightarrow> m = n"
proof -
  assume mn: "m < 16" "n < 16" and "hex_char m = hex_char n"
  then have "code_of (hex_char m) = code_of (hex_char n)" by simp
  then show "m = n" unfolding hex_char_code [OF mn(1)] hex_char_code [OF mn(2)] by (simp split: if_splits)
qed

lemma code_of_halves: "code_of c div 16 < 16" "code_of c mod 16 < 16"
  using code_of_lt [of c] by auto

lemma hex_digest_inject: "hex_digest a = hex_digest b \<Longrightarrow> a = b"
proof (induction a arbitrary: b)
  case Nil then show ?case by (cases b) (auto simp: hex_digest_def)
next
  case (Cons c a)
  then obtain d b' where b: "b = d # b'" by (cases b) (auto simp: hex_digest_def)
  have "hex_char (code_of c div 16) = hex_char (code_of d div 16)" "hex_char (code_of c mod 16) = hex_char (code_of d mod 16)"
    "hex_digest a = hex_digest b'" using Cons.prems b by (auto simp: hex_digest_def)
  moreover from this have "code_of c div 16 = code_of d div 16" "code_of c mod 16 = code_of d mod 16"
    using hex_char_inject code_of_halves by blast+
  then have "code_of c = code_of d" by (metis div_mult_mod_eq)
  ultimately show ?case using Cons.IH b by (simp add: code_of_inject)
qed

lemma example_collision_free: "collision_free example_cache_env"
proof -
  have "g_ascii_isxdigit (hex_char n)" if "n < 16" for n
    using hex_char_code [OF that] that by (auto simp: g_ascii_isxdigit_def g_ascii_isdigit_def split: if_splits)
  then have "list_all g_ascii_isxdigit (hex_digest s)" for s
    by (induction s) (auto simp: hex_digest_def code_of_halves)
  then show ?thesis using hex_digest_inject by (auto simp: collision_free_def example_cache_env_def inj_def)
qed

definition example_put :: put_request where
  "example_put = \<lparr>put_url = Some ''http://a/'', put_partition = Some ''b'', put_final_url = None, put_status = 200,
     put_content_type = Some ''text/css'', put_cors_allow_origin = None, put_etag = None, put_last_modified = None,
     put_cache_control = Some ''max-age=60'', put_expires = None, put_vary = Some ''Accept'',
     put_headers = [''Accept: text/css''], put_body = [1, 2, 3]\<rparr>"

definition fresh_cache :: http_cache where
  "fresh_cache = ns_cache_init (with_cap None example_cache_env) 0 True False True empty_cache"

definition stored_cache :: http_cache where
  "stored_cache = ns_cache_put (with_cap None example_cache_env) 1000 True True example_put fresh_cache"

lemma fresh_reach: "cache_reach example_cache_env {} fresh_cache"
  unfolding fresh_cache_def by (rule cr_init [OF cr_new])

lemma stored_reach: "cache_reach example_cache_env {example_put} stored_cache"
  unfolding stored_cache_def by (rule cr_put [OF fresh_reach])

lemma example_stored: "cache_usable fresh_cache" "rows fresh_cache = []" "put_url example_put = Some ''http://a/''"
  "\<exists>r. row_for_put (with_cap None example_cache_env) 1000 example_put = Some r \<and> row_expires_at r = 1060"
proof -
  show "cache_usable fresh_cache" "rows fresh_cache = []" "put_url example_put = Some ''http://a/''" by code_simp+
  have "map_option row_expires_at (row_for_put (with_cap None example_cache_env) 1000 example_put) = Some 1060" by code_simp
  then show "\<exists>r. row_for_put (with_cap None example_cache_env) 1000 example_put = Some r \<and> row_expires_at r = 1060" by auto
qed

lemma example_answer:
  "\<exists>e c'. ns_cache_get (with_cap None example_cache_env) later True (Some ''http://a/'') (Some ''b'') [''Accept: text/css''] stored_cache
      = (Some e, c') \<and> ce_expires_at e = 1060"
proof -
  let ?g = "ns_cache_get (with_cap None example_cache_env) later True (Some ''http://a/'') (put_partition example_put)
    (put_headers example_put) stored_cache"
  obtain r where r: "row_for_put (with_cap None example_cache_env) 1000 example_put = Some r" "row_expires_at r = 1060"
    using example_stored(4) by blast
  obtain x c' where g: "?g = (x, c')" by (metis surj_pair)
  from put_get [OF example_collision_free fresh_reach example_stored(1) r(1) example_stored(3) _ _ g [unfolded stored_cache_def]]
    example_stored(2) r(2) g show ?thesis by (simp add: example_put_def)
qed



lemma init_usable: "cache_usable (cache_schema (c\<lparr>cache_usable := True, cache_dir_known := True\<rparr>))"
  by (simp add: cache_schema_def)

text \<open>
  C4: Whatever was stored before, after storing a response and after opening the cache the rows account for at
  most the configured number of bytes, and every body file belongs to a row that has its size: the bodies on
  disk never exceed the cap.
\<close>

theorem cache_within_cap:
  assumes "collision_free env" "cache_reach env log c"
    "c' = ns_cache_init (with_cap mb env) now True False True c \<or>
     cache_usable c \<and> row_for_put (with_cap mb env) now p = Some r \<and> c' = ns_cache_put (with_cap mb env) now True True p c"
  shows "total_size (rows c') \<le> cache_cap_bytes (with_cap mb env) \<and> files_accounted c'"
proof -
  have ok: "cache_ok env log c" by (rule reach_ok [OF assms(2,1)])
  from assms(3) show ?thesis
  proof
    assume i: "c' = ns_cache_init (with_cap mb env) now True False True c"
    let ?d = "cache_schema (c\<lparr>cache_usable := True, cache_dir_known := True\<rparr>)"
    have "cache_ok env log ?d" using ok by (auto simp: cache_ok_def cache_schema_def file_of_def)
    then show ?thesis using i kept_within_cap [OF _ init_usable] ok_files_accounted [OF cache_ok_cap]
      by (simp add: ns_cache_init_def)
  next
    assume p: "cache_usable c \<and> row_for_put (with_cap mb env) now p = Some r \<and> c' = ns_cache_put (with_cap mb env) now True True p c"
    let ?d = "c\<lparr>rows := upsert r (rows c), bodies := (bodies c)(body_path_for_key (row_key r) \<mapsto> put_body p)\<rparr>"
    have c': "c' = evict_to_cap (with_cap mb env) now ?d" using p by (simp add: ns_cache_put_def Let_def)
    have "cache_ok env (insert p log) ?d" by (rule stored_ok [OF assms(1) ok]) (use p in blast)
    then show ?thesis using c' p kept_within_cap [of env "insert p log" ?d] ok_files_accounted [OF cache_ok_cap] by simp
  qed
qed

theorem cache_within_cap_witness:
  "total_size (rows stored_cache) \<le> 268435456 \<and> files_accounted stored_cache \<and> length (rows stored_cache) = 1"
proof -
  obtain r where "row_for_put (with_cap None example_cache_env) 1000 example_put = Some r" using example_stored(4) by blast
  then have "total_size (rows stored_cache) \<le> cache_cap_bytes (with_cap None example_cache_env) \<and> files_accounted stored_cache"
    by (intro cache_within_cap [OF example_collision_free fresh_reach, where now = 1000 and p = example_put and r = r])
      (simp add: stored_cache_def example_stored(1))
  moreover have "cache_cap_bytes (with_cap None example_cache_env) = 268435456" "length (rows stored_cache) = 1" by code_simp+
  ultimately show ?thesis by simp
qed

text \<open>
  C5: What is stored is found: a cacheable response given to \<open>ns_cache_put\<close> when every other row is older is
  what \<open>ns_cache_get\<close> answers to the same request, with its body, status, headers and the expiry its
  headers ask for, unless a row stored under another \<^verbatim>\<open>Vary\<close> header matches the request as well.
\<close>

theorem cache_put_then_get:
  assumes "collision_free env" "cache_reach env log c" "cache_usable c"
    "row_for_put (with_cap mb env) now p = Some r" "put_url p = Some u"
    "\<forall>s\<in>set (rows c). last_used s < now"
    "\<forall>s\<in>set (rows c). row_matches env (base_key r) (put_headers p) s \<longrightarrow> row_key s = row_key r"
    "ns_cache_get (with_cap mb env) later True (Some u) (put_partition p) (put_headers p)
        (ns_cache_put (with_cap mb env) now True True p c) = (x, c')"
  shows "x = Some \<lparr>ce_final_url = str_or (put_final_url p) u, ce_status = put_status p,
       ce_content_type = put_content_type p, ce_cors_allow_origin = put_cors_allow_origin p, ce_etag = put_etag p,
       ce_last_modified = put_last_modified p,
       ce_expires_at = freshness_from_headers (with_cap mb env) now (put_cache_control p) (put_expires p),
       ce_fetched_at = now, ce_body = put_body p\<rparr>"
  using put_get [OF assms] row_for_put_from(3) [OF assms(4)] by simp

theorem cache_put_then_get_witness:
  "\<exists>e c'. ns_cache_get (with_cap None example_cache_env) 2000 True (Some ''http://a/'') (Some ''b'') [''Accept: text/css''] stored_cache
      = (Some e, c') \<and> ce_body e = [1, 2, 3] \<and> \<not> ns_cache_is_fresh 2000 (Some e)"
proof -
  let ?g = "ns_cache_get (with_cap None example_cache_env) 2000 True (Some ''http://a/'') (put_partition example_put)
    (put_headers example_put) stored_cache"
  obtain r where r: "row_for_put (with_cap None example_cache_env) 1000 example_put = Some r" using example_stored(4) by blast
  obtain x c' where g: "?g = (x, c')" by (metis surj_pair)
  have "freshness_from_headers (with_cap None example_cache_env) 1000 (put_cache_control example_put) (put_expires example_put) = 1060"
    by code_simp
  with cache_put_then_get [OF example_collision_free fresh_reach example_stored(1) r example_stored(3) _ _ g [unfolded stored_cache_def]]
    example_stored(2) g show ?thesis by (simp add: example_put_def ns_cache_is_fresh_def)
qed

section \<open>Findings\<close>

text \<open>
  A response that comes with another \<^verbatim>\<open>Vary\<close> header than an earlier one of its URL stays hidden behind it: the
  request that both match finds the older row.
\<close>

definition other_vary :: put_request where
  "other_vary = example_put\<lparr>put_vary := Some ''Accept-Language'', put_headers := [''Accept: text/css'', ''Accept-Language: en''],
     put_body := [9]\<rparr>"

lemma vary_shadows:
  "map_option (\<lambda>k. map row_vary (filter (\<lambda>r. row_key r = k)
       (rows (ns_cache_put (with_cap None example_cache_env) 3000 True True other_vary stored_cache))))
     (find_row_key example_cache_env (rows (ns_cache_put (with_cap None example_cache_env) 3000 True True other_vary stored_cache))
        (base_key_for_url example_cache_env ''http://a/'' (Some ''b'')) (put_headers other_vary)) = Some [Some ''Accept'']"
  by code_simp

text \<open>Directives are compared with their case, which HTTP does not give them.\<close>

lemma no_store_case:
  "row_for_put example_cache_env 1000 (example_put\<lparr>put_cache_control := Some ''No-Store''\<rparr>) \<noteq> None"
  by code_simp

text \<open>The third pattern has no place for the weekday an asctime date begins with.\<close>

lemma asctime_unread:
  "parse_http_date example_cache_env ''Sun Nov  6 08:49:37 1994'' = 0"
  "parse_http_date example_cache_env ''Sun, 06 Nov 1994 08:49:37 GMT'' = 6 * 86400"
  "parse_http_date example_cache_env ''Sunday, 06-Nov-94 08:49:37 GMT'' = 6 * 86400"
  by code_simp+

end
