(* ===== verification/Utf8.thy ===== *)
theory Utf8
  imports Prelude
begin

text \<open>
  UTF-8 as the C code meets it: the encoder GLib's strings append code points with, and the
  validator \<^verbatim>\<open>g_utf8_validate\<close> with its exact characterisation.
\<close>

section \<open>UTF-8\<close>

text \<open>The encoding of a code point.\<close>

definition utf8_chars :: "nat \<Rightarrow> cstr" where
  "utf8_chars cp =
     (if cp < 0x80 then [char_at cp]
      else if cp < 0x800 then [char_at (0xC0 + cp div 64), char_at (0x80 + cp mod 64)]
      else if cp < 0x10000 then
        [char_at (0xE0 + cp div 4096), char_at (0x80 + cp div 64 mod 64), char_at (0x80 + cp mod 64)]
      else [char_at (0xF0 + cp div 262144), char_at (0x80 + cp div 4096 mod 64),
            char_at (0x80 + cp div 64 mod 64), char_at (0x80 + cp mod 64)])"

text \<open>The scalar values of Unicode.\<close>

definition unicode_scalar :: "nat \<Rightarrow> bool" where
  "unicode_scalar cp \<longleftrightarrow> cp < 0xD800 \<or> 0xDFFF < cp \<and> cp \<le> 0x10FFFF"

text \<open>
  \<open>g_utf8_validate(s, len, NULL)\<close>: every byte belongs to the shortest encoding of a scalar value, and
  no byte is NUL (GLib refuses NUL bytes when it is given a length).
\<close>

definition utf8_cont :: "char \<Rightarrow> bool" where
  "utf8_cont c \<longleftrightarrow> code_of c div 64 = 2"

fun utf8_next :: "cstr \<Rightarrow> (nat \<times> cstr) option" where
  "utf8_next [] = None"
| "utf8_next (c # s) =
     (let b = code_of c; lo = (\<lambda>d. code_of d mod 64) in
      if b < 0x80 then Some (b, s)
      else if b < 0xC0 then None
      else if b < 0xE0 then
        (case s of c1 # r \<Rightarrow>
           let cp = (b - 0xC0) * 64 + lo c1 in
           if utf8_cont c1 \<and> 0x80 \<le> cp then Some (cp, r) else None
         | _ \<Rightarrow> None)
      else if b < 0xF0 then
        (case s of c1 # c2 # r \<Rightarrow>
           let cp = (b - 0xE0) * 4096 + lo c1 * 64 + lo c2 in
           if utf8_cont c1 \<and> utf8_cont c2 \<and> 0x800 \<le> cp \<and> unicode_scalar cp then Some (cp, r) else None
         | _ \<Rightarrow> None)
      else if b < 0xF8 then
        (case s of c1 # c2 # c3 # r \<Rightarrow>
           let cp = (b - 0xF0) * 262144 + lo c1 * 4096 + lo c2 * 64 + lo c3 in
           if utf8_cont c1 \<and> utf8_cont c2 \<and> utf8_cont c3 \<and> 0x10000 \<le> cp \<and> unicode_scalar cp
           then Some (cp, r) else None
         | _ \<Rightarrow> None)
      else None)"

lemma utf8_next_shorter: "utf8_next s = Some (cp, r) \<Longrightarrow> length r < length s"
  by (cases s) (auto simp: Let_def split: if_splits list.splits)

function g_utf8_validate :: "cstr \<Rightarrow> bool" where
  "g_utf8_validate s =
     (if s = [] then True
      else case utf8_next s of None \<Rightarrow> False | Some (cp, r) \<Rightarrow> cp \<noteq> 0 \<and> g_utf8_validate r)"
  by pat_completeness auto
termination
  by (relation "measure length") (auto dest: utf8_next_shorter)

declare g_utf8_validate.simps [simp del]

lemma utf8_cont_char [simp]: "n < 64 \<Longrightarrow> utf8_cont (char_at (128 + n))"
  by (simp add: utf8_cont_def)

lemma low6 [simp]: "n < 64 \<Longrightarrow> (128 + n) mod 64 = (n::nat)"
  by (simp add: mod_if)

lemma cp_parts2: "(cp::nat) div 64 * 64 + cp mod 64 = cp"
  by simp

lemma cp_parts3: "(cp::nat) div 4096 * 4096 + cp div 64 mod 64 * 64 + cp mod 64 = cp"
proof -
  have "cp div 4096 = cp div 64 div 64" by (simp add: div_mult2_eq [symmetric])
  with div_mult_mod_eq [of "cp div 64" 64] div_mult_mod_eq [of cp 64] show ?thesis by linarith
qed

lemma cp_parts4:
  "(cp::nat) div 262144 * 262144 + cp div 4096 mod 64 * 4096 + cp div 64 mod 64 * 64 + cp mod 64 = cp"
proof -
  have "cp div 262144 = cp div 4096 div 64" by (simp add: div_mult2_eq [symmetric])
  with div_mult_mod_eq [of "cp div 4096" 64] cp_parts3 [of cp] show ?thesis by linarith
qed

lemma utf8_next_chars:
  assumes "unicode_scalar cp"
  shows "utf8_next (utf8_chars cp @ r) = Some (cp, r)"
proof -
  have lt: "cp < 1114112" using assms by (auto simp: unicode_scalar_def)
  consider "cp < 128" | "128 \<le> cp" "cp < 2048" | "2048 \<le> cp" "cp < 65536" | "65536 \<le> cp" by linarith
  then show ?thesis
  proof cases
    case 1
    then show ?thesis by (simp add: utf8_chars_def)
  next
    case 2
    then have "cp div 64 < 32" by simp
    with 2 show ?thesis by (simp add: utf8_chars_def Let_def cp_parts2)
  next
    case 3
    then have "cp div 4096 < 16" by simp
    with 3 assms cp_parts3 [of cp] show ?thesis by (simp add: utf8_chars_def Let_def)
  next
    case 4
    with lt have "cp div 262144 < 8" by simp
    with 4 assms cp_parts4 [of cp] show ?thesis by (simp add: utf8_chars_def Let_def)
  qed
qed

text \<open>The encoding of scalar values other than NUL is valid.\<close>

lemma utf8_validate_encoded:
  "\<forall>cp\<in>set cps. unicode_scalar cp \<and> cp \<noteq> 0 \<Longrightarrow> g_utf8_validate (concat (map utf8_chars cps))"
proof (induction cps)
  case Nil
  then show ?case by (simp add: g_utf8_validate.simps)
next
  case (Cons cp cps)
  then have "utf8_next (utf8_chars cp @ concat (map utf8_chars cps)) = Some (cp, concat (map utf8_chars cps))"
    by (intro utf8_next_chars) simp
  with Cons show ?case by (subst g_utf8_validate.simps) auto
qed

lemma cont_char: "utf8_cont c \<Longrightarrow> c = char_at (128 + code_of c mod 64)"
proof -
  assume "utf8_cont c"
  then have "128 + code_of c mod 64 = code_of c"
    using div_mult_mod_eq [of "code_of c" 64] by (simp add: utf8_cont_def)
  then show ?thesis by simp
qed

lemma lead_char: "k \<le> code_of c \<Longrightarrow> c = char_at (k + (code_of c - k))"
  by simp

lemma split64:
  fixes a b :: nat
  assumes "b < 64"
  shows "(a * 64 + b) div 64 = a" "(a * 64 + b) mod 64 = b"
  using assms by simp_all

lemma utf8_next_exact:
  assumes "utf8_next s = Some (cp, r)"
  shows "unicode_scalar cp \<and> s = utf8_chars cp @ r"
proof (cases s)
  case (Cons c t)
  let ?b = "code_of c" and ?lo = "\<lambda>d. code_of d mod 64"
  consider "?b < 128" | "192 \<le> ?b" "?b < 224" | "224 \<le> ?b" "?b < 240" | "240 \<le> ?b" "?b < 248"
    using assms Cons by (force simp: Let_def split: if_splits)
  then show ?thesis
  proof cases
    case 1
    then show ?thesis using assms Cons by (auto simp: utf8_chars_def unicode_scalar_def)
  next
    case 2
    then obtain c1 where t: "t = c1 # r" and cp: "cp = (?b - 192) * 64 + ?lo c1" and h: "utf8_cont c1" "128 \<le> cp"
      using assms Cons by (auto simp: Let_def split: list.splits if_splits)
    have *: "cp div 64 = ?b - 192" "cp mod 64 = ?lo c1" unfolding cp by (rule split64; simp)+
    have "cp < 2048" using 2 * by (simp add: div_less_iff_less_mult [symmetric])
    then show ?thesis
      using Cons t h 2 * cont_char [OF h(1)] by (simp add: utf8_chars_def unicode_scalar_def)
  next
    case 3
    then obtain c1 c2 where t: "t = c1 # c2 # r" and cp: "cp = (?b - 224) * 4096 + ?lo c1 * 64 + ?lo c2"
      and h: "utf8_cont c1" "utf8_cont c2" "2048 \<le> cp" "unicode_scalar cp"
      using assms Cons by (auto simp: Let_def split: list.splits if_splits)
    have q: "cp = ((?b - 224) * 64 + ?lo c1) * 64 + ?lo c2" using cp by simp
    have *: "cp div 64 = (?b - 224) * 64 + ?lo c1" "cp mod 64 = ?lo c2" unfolding q by (rule split64; simp)+
    have **: "cp div 64 div 64 = ?b - 224" "cp div 64 mod 64 = ?lo c1" unfolding *(1) by (rule split64; simp)+
    have d: "cp div 4096 = ?b - 224" using **(1) by (simp add: div_mult2_eq [symmetric])
    have "cp < 65536" using 3 d by (simp add: div_less_iff_less_mult [symmetric])
    then show ?thesis
      using Cons t h 3 d *(2) **(2) cont_char [OF h(1)] cont_char [OF h(2)] by (simp add: utf8_chars_def)
  next
    case 4
    then obtain c1 c2 c3 where t: "t = c1 # c2 # c3 # r"
      and cp: "cp = (?b - 240) * 262144 + ?lo c1 * 4096 + ?lo c2 * 64 + ?lo c3"
      and h: "utf8_cont c1" "utf8_cont c2" "utf8_cont c3" "65536 \<le> cp" "unicode_scalar cp"
      using assms Cons by (auto simp: Let_def split: list.splits if_splits)
    have q: "cp = (((?b - 240) * 64 + ?lo c1) * 64 + ?lo c2) * 64 + ?lo c3" using cp by simp
    have *: "cp div 64 = ((?b - 240) * 64 + ?lo c1) * 64 + ?lo c2" "cp mod 64 = ?lo c3"
      unfolding q by (rule split64; simp)+
    have **: "cp div 64 div 64 = (?b - 240) * 64 + ?lo c1" "cp div 64 mod 64 = ?lo c2"
      unfolding *(1) by (rule split64; simp)+
    have ***: "cp div 64 div 64 div 64 = ?b - 240" "cp div 64 div 64 mod 64 = ?lo c1"
      unfolding **(1) by (rule split64; simp)+
    have d: "cp div 4096 mod 64 = ?lo c1" "cp div 262144 = ?b - 240"
      using *** by (simp_all add: div_mult2_eq [symmetric])
    show ?thesis
      using Cons t h 4 d *(2) **(2) cont_char [OF h(1)] cont_char [OF h(2)] cont_char [OF h(3)]
      by (simp add: utf8_chars_def)
  qed
qed (use assms in simp)

text \<open>The validator accepts exactly the encodings of such sequences.\<close>

lemma utf8_validate_iff:
  "g_utf8_validate s \<longleftrightarrow>
     (\<exists>cps. s = concat (map utf8_chars cps) \<and> (\<forall>cp\<in>set cps. unicode_scalar cp \<and> cp \<noteq> 0))"
proof
  show "\<exists>cps. s = concat (map utf8_chars cps) \<and> (\<forall>cp\<in>set cps. unicode_scalar cp \<and> cp \<noteq> 0)"
    if "g_utf8_validate s"
    using that
  proof (induction s rule: g_utf8_validate.induct)
    case (1 s)
    show ?case
    proof (cases "utf8_next s")
      case None
      with "1.prems" have "s = []" by (simp add: g_utf8_validate.simps [of s] split: if_splits)
      then show ?thesis by (intro exI [of _ "[]"]) simp
    next
      case (Some cr)
      obtain cp r where cr: "cr = (cp, r)" by fastforce
      with Some have n: "s \<noteq> []" and e: "unicode_scalar cp" "s = utf8_chars cp @ r"
        using utf8_next_exact by auto
      from "1.prems" Some cr n have v: "cp \<noteq> 0" "g_utf8_validate r"
        by (simp_all add: g_utf8_validate.simps [of s])
      then obtain cps where "r = concat (map utf8_chars cps)" "\<forall>cp\<in>set cps. unicode_scalar cp \<and> cp \<noteq> 0"
        using "1.IH" [OF n Some cr [symmetric]] cr by auto
      with e v show ?thesis by (intro exI [of _ "cp # cps"]) simp
    qed
  qed
qed (auto intro: utf8_validate_encoded)

end
