(* ===== verification/Xml.thy ===== *)
theory Xml
  imports Utf8 "HOL-Library.Monad_Syntax" "HOL-Library.Code_Target_Nat"
begin

text \<open>
  The XML parser (\<^verbatim>\<open>xml.c\<close>) with the attributes of the tree it builds (\<^verbatim>\<open>dom.c\<close>).  The parser's point in the
  input is the rest of it.  An element is parsed with its content by one recursion, as the calls of
  \<^verbatim>\<open>xml_parse_element\<close> nest.
\<close>

section \<open>Nodes and attributes\<close>

record ns_attr =
  attr_name :: cstr
  attr_value :: cstr
  namespace_uri :: "cstr option"
  attr_prefix :: "cstr option"
  local_name :: "cstr option"

text \<open>The flag \<^verbatim>\<open>xml_apply_namespace\<close> leaves: none for XHTML, \<^verbatim>\<open>NS_NODE_SVG_NS\<close> or \<^verbatim>\<open>NS_NODE_FOREIGN_NS\<close>.\<close>

datatype ns_flag = XHTML_NS | SVG_NS | FOREIGN_NS

datatype ns_node =
    Element cstr ns_flag "ns_attr list" "ns_node list"
  | Text cstr bool
  | Comment cstr
  | PI cstr cstr
  | Doctype cstr cstr cstr

definition ns_attr_name_is_internal :: "cstr \<Rightarrow> bool" where
  "ns_attr_name_is_internal name \<longleftrightarrow> strncaseeq name ''data-nd-'' 8"

definition ns_attr_local_name :: "ns_attr \<Rightarrow> cstr" where
  "ns_attr_local_name a = str_or (local_name a) (attr_name a)"

definition ns_attr_normalize_namespace :: "cstr option \<Rightarrow> cstr option" where
  "ns_attr_normalize_namespace uri = (if nonempty uri then uri else None)"

definition ns_attr_matches_ns :: "ns_attr \<Rightarrow> cstr option \<Rightarrow> cstr \<Rightarrow> bool" where
  "ns_attr_matches_ns a uri loc \<longleftrightarrow>
     ns_attr_normalize_namespace (namespace_uri a) = ns_attr_normalize_namespace uri \<and> ns_attr_local_name a = loc"

fun ns_element_set_attr :: "cstr \<Rightarrow> cstr \<Rightarrow> ns_attr list \<Rightarrow> ns_attr list" where
  "ns_element_set_attr name val [] =
     [\<lparr>attr_name = name, attr_value = val, namespace_uri = None, attr_prefix = None, local_name = None\<rparr>]"
| "ns_element_set_attr name val (a # as) =
     (if strcaseeq (attr_name a) name then a\<lparr>attr_value := val\<rparr> # as else a # ns_element_set_attr name val as)"

fun set_attr_ns_loop :: "cstr option \<Rightarrow> cstr option \<Rightarrow> cstr \<Rightarrow> cstr \<Rightarrow> cstr \<Rightarrow> ns_attr list \<Rightarrow> ns_attr list" where
  "set_attr_ns_loop uri pfx loc name val [] =
     [\<lparr>attr_name = name, attr_value = val, namespace_uri = uri, attr_prefix = pfx, local_name = Some loc\<rparr>]"
| "set_attr_ns_loop uri pfx loc name val (a # as) =
     (if ns_attr_matches_ns a uri loc then a\<lparr>attr_value := val\<rparr> # as
      else a # set_attr_ns_loop uri pfx loc name val as)"

definition ns_element_set_attr_ns ::
  "cstr option \<Rightarrow> cstr option \<Rightarrow> cstr \<Rightarrow> cstr \<Rightarrow> cstr \<Rightarrow> ns_attr list \<Rightarrow> ns_attr list" where
  "ns_element_set_attr_ns uri pfx loc name val =
     set_attr_ns_loop (ns_attr_normalize_namespace uri) (if nonempty pfx then pfx else None) loc
       (if name \<noteq> [] then name else loc) val"

section \<open>The parser's state\<close>

definition XML_NS_XML :: cstr where "XML_NS_XML = ''http://www.w3.org/XML/1998/namespace''"
definition XML_NS_XMLNS :: cstr where "XML_NS_XMLNS = ''http://www.w3.org/2000/xmlns/''"
definition XML_NS_XHTML :: cstr where "XML_NS_XHTML = ''http://www.w3.org/1999/xhtml''"
definition XML_NS_SVG :: cstr where "XML_NS_SVG = ''http://www.w3.org/2000/svg''"

definition XML_MAX_ENTITY_EXPANSION :: nat where "XML_MAX_ENTITY_EXPANSION = 2 ^ 20"
definition XML_MAX_DEPTH :: nat where "XML_MAX_DEPTH = 256"

text \<open>The stack of bindings has its top first.\<close>

record xml_parser =
  xp_p :: cstr
  ns_stack :: "(cstr option \<times> cstr) list"
  entities :: "cstr \<rightharpoonup> cstr"
  expanded :: nat
  xp_ok :: bool

definition xml_is_space :: "char \<Rightarrow> bool" where
  "xml_is_space c \<longleftrightarrow> c = CHR '' '' \<or> c = CHR 0x09 \<or> c = CHR 0x0A \<or> c = CHR 0x0D"

definition xml_skip_space :: "xml_parser \<Rightarrow> xml_parser" where
  "xml_skip_space xp = xp\<lparr>xp_p := dropWhile xml_is_space (xp_p xp)\<rparr>"

definition xml_name_char :: "char \<Rightarrow> bool \<Rightarrow> bool" where
  "xml_name_char c first \<longleftrightarrow>
     c = CHR '':'' \<or> c = CHR ''_'' \<or> g_ascii_isalpha c \<or> code_of c \<ge> 0x80 \<or>
     \<not> first \<and> (c = CHR ''-'' \<or> c = CHR ''.'' \<or> g_ascii_isdigit c)"

text \<open>A name at a point, with the point behind it.\<close>

definition read_name_at :: "cstr \<Rightarrow> (cstr \<times> cstr) option" where
  "read_name_at p =
     (case p of [] \<Rightarrow> None
      | c # r \<Rightarrow> if \<not> xml_name_char c True then None
                 else Some (c # takeWhile (\<lambda>d. xml_name_char d False) r, dropWhile (\<lambda>d. xml_name_char d False) r))"

definition xml_read_name :: "xml_parser \<Rightarrow> cstr option \<times> xml_parser" where
  "xml_read_name xp = (case read_name_at (xp_p xp) of None \<Rightarrow> (None, xp) | Some (n, r) \<Rightarrow> (Some n, xp\<lparr>xp_p := r\<rparr>))"

definition xml_qname_valid :: "cstr \<Rightarrow> bool" where
  "xml_qname_valid name \<longleftrightarrow>
     (case strchr name CHR '':'' of None \<Rightarrow> True
      | Some colon \<Rightarrow> colon \<noteq> name \<and> tl colon \<noteq> [] \<and> strchr (tl colon) CHR '':'' = None)"

definition failed :: "xml_parser \<Rightarrow> xml_parser" where
  "failed xp = xp\<lparr>xp_ok := False\<rparr>"

section \<open>Doctypes\<close>

text \<open>A quoted literal at a point: the literal and the point behind it.\<close>

definition xml_read_quoted_range :: "cstr \<Rightarrow> (cstr \<times> cstr) option" where
  "xml_read_quoted_range p =
     (case p of [] \<Rightarrow> None
      | q # r \<Rightarrow> if q \<noteq> CHR 0x22 \<and> q \<noteq> CHR 0x27 then None
                 else (case strchr r q of None \<Rightarrow> None | Some e \<Rightarrow> Some (c_string (text_between r e), tl e)))"

definition at_subset :: "cstr \<Rightarrow> bool" where
  "at_subset p \<longleftrightarrow> p = [] \<or> hd p = CHR ''[''"

definition xml_doctype_tail_parse :: "cstr \<Rightarrow> (cstr \<times> cstr) option" where
  "xml_doctype_tail_parse p0 =
     (let p = dropWhile xml_is_space p0; r = drop 6 p;
          has_public = take 6 p = ''PUBLIC'' \<and> r \<noteq> [] \<and> xml_is_space (hd r);
          has_system = take 6 p = ''SYSTEM'' \<and> r \<noteq> [] \<and> xml_is_space (hd r)
      in if at_subset p then Some ([], [])
         else if \<not> has_public \<and> \<not> has_system then None
         else do {
           (first, p1) \<leftarrow> xml_read_quoted_range (dropWhile xml_is_space r);
           let p2 = dropWhile xml_is_space p1;
           (if has_public then do {
              (second, p3) \<leftarrow> xml_read_quoted_range p2;
              (if at_subset (dropWhile xml_is_space p3) then Some (first, second) else None) }
            else if at_subset p2 then Some ([], first) else None) })"

text \<open>What stands behind the first \<open>delim\<close>.\<close>

definition xml_skip_past :: "cstr \<Rightarrow> cstr \<Rightarrow> cstr option" where
  "xml_skip_past p delim = map_option (drop (length delim)) (strstr p delim)"

lemma strstr_tail: "strstr s t = Some r \<Longrightarrow> tail_of r s \<and> g_str_has_prefix r t"
proof (induction s)
  case Nil then show ?case by (subst (asm) strstr.simps) (auto split: if_splits)
next
  case (Cons c s)
  show ?case
  proof (cases "g_str_has_prefix (c # s) t")
    case True then show ?thesis using Cons.prems by (subst (asm) strstr.simps) auto
  next
    case False
    then have "strstr s t = Some r" using Cons.prems by (subst (asm) strstr.simps) auto
    then show ?thesis using Cons.IH tail_of_tl [of r "c # s"] by simp
  qed
qed

lemma strchr_tail: "strchr s c = Some r \<Longrightarrow> tail_of r s \<and> r \<noteq> [] \<and> hd r = c"
  by (auto simp: tail_of_def dest!: strchr_Some_append)

lemma skip_past_length: "xml_skip_past p d = Some r \<Longrightarrow> length r \<le> length p"
  by (auto simp: xml_skip_past_def dest!: strstr_tail tail_of_length)

text \<open>The point of the \<open>>\<close> that ends a doctype, \<open>bracket\<close> deep in its subset.\<close>

function ns_xml_doctype_end :: "nat \<Rightarrow> cstr \<Rightarrow> cstr option" where
  "ns_xml_doctype_end bracket [] = None"
| "ns_xml_doctype_end bracket (c # r) =
     (if c = CHR 0x22 \<or> c = CHR 0x27 then
        (case strchr r c of None \<Rightarrow> None | Some q \<Rightarrow> ns_xml_doctype_end bracket (tl q))
      else if bracket > 0 \<and> take 4 (c # r) = ''<!--'' then
        (case xml_skip_past (drop 4 (c # r)) ''-->'' of None \<Rightarrow> None | Some q \<Rightarrow> ns_xml_doctype_end bracket q)
      else if bracket > 0 \<and> take 2 (c # r) = ''<?'' then
        (case xml_skip_past (drop 2 (c # r)) ''?>'' of None \<Rightarrow> None | Some q \<Rightarrow> ns_xml_doctype_end bracket q)
      else if c = CHR ''['' then ns_xml_doctype_end (bracket + 1) r
      else if c = CHR '']'' then ns_xml_doctype_end (bracket - 1) r
      else if c = CHR ''>'' \<and> bracket = 0 then Some (c # r)
      else ns_xml_doctype_end bracket r)"
  by pat_completeness auto
termination
  by (relation "measure (\<lambda>(b, p). length p)")
    (auto dest!: skip_past_length strchr_length simp: less_Suc_eq_le)

section \<open>References\<close>

text \<open>UTF-8, with the replacement character for what is no scalar value.\<close>

definition xml_append_codepoint :: "nat \<Rightarrow> cstr" where
  "xml_append_codepoint cp =
     (if cp = 0 \<or> cp > 0x10FFFF \<or> 0xD800 \<le> cp \<and> cp \<le> 0xDFFF then [char_at 0xEF, char_at 0xBF, char_at 0xBD]
      else utf8_chars cp)"

text \<open>
  \<open>g_ascii_strtoull(s, &end, base)\<close> for base 10 and 16: white space, a sign, \<^verbatim>\<open>0x\<close> before base 16; None where
  nothing was read, else the value (the largest one on overflow, negated modulo \<open>2 ^ 64\<close> after a minus
  sign) and \<open>end\<close>.
\<close>

definition base_digit :: "nat \<Rightarrow> char \<Rightarrow> bool" where
  "base_digit base c \<longleftrightarrow> (if base = 16 then g_ascii_isxdigit c else g_ascii_isdigit c)"

definition base_value :: "nat \<Rightarrow> cstr \<Rightarrow> nat" where
  "base_value base ds = foldl (\<lambda>v c. v * base + g_ascii_xdigit_value c) 0 ds"

definition g_ascii_strtoull :: "cstr \<Rightarrow> nat \<Rightarrow> (nat \<times> cstr) option" where
  "g_ascii_strtoull s base =
     (let s1 = dropWhile strtoll_space s;
          neg = (s1 \<noteq> [] \<and> hd s1 = CHR ''-'');
          s2 = (if neg \<or> s1 \<noteq> [] \<and> hd s1 = CHR ''+'' then tl s1 else s1);
          s3 = (if base = 16 \<and> strncaseeq s2 ''0x'' 2 then drop 2 s2 else s2);
          ds = takeWhile (base_digit base) s3;
          v = base_value base ds
      in if ds = [] then None
         else Some (if v \<ge> 2 ^ 64 then 2 ^ 64 - 1 else if neg then (2 ^ 64 - v) mod 2 ^ 64 else v,
                    drop (length ds) s3))"

text \<open>The code point of a character reference, between \<open>&#\<close> and the semicolon.\<close>

definition char_reference :: "cstr \<Rightarrow> nat option" where
  "char_reference e =
     (let hex = e \<noteq> [] \<and> (hd e = CHR ''x'' \<or> hd e = CHR ''X'');
          raw = c_string (if hex then tl e else e)
      in case g_ascii_strtoull raw (if hex then 16 else 10) of
           None \<Rightarrow> None
         | Some (cp, rest) \<Rightarrow>
             if rest = [] \<and> cp \<noteq> 0 \<and> cp \<le> 0x10FFFF \<and> \<not> (0xD800 \<le> cp \<and> cp \<le> 0xDFFF) then Some cp else None)"

definition predefined :: "cstr \<Rightarrow> char option" where
  "predefined e =
     (if e = ''amp'' then Some CHR ''&'' else if e = ''lt'' then Some CHR ''<'' else if e = ''gt'' then Some CHR ''>''
      else if e = ''quot'' then Some CHR 0x22 else if e = ''apos'' then Some CHR 0x27 else None)"

text \<open>The loop of \<^verbatim>\<open>xml_decode_text\<close>: what it appends, and the parser.\<close>

function decode_loop :: "xml_parser \<Rightarrow> cstr \<Rightarrow> cstr \<times> xml_parser" where
  "decode_loop xp [] = ([], xp)"
| "decode_loop xp (c # r) =
     (if c \<noteq> CHR ''&'' then (case decode_loop xp r of (out, xp') \<Rightarrow> (c # out, xp'))
      else
        (case strchr r CHR '';'' of
           None \<Rightarrow> ([], failed xp)
         | Some semi \<Rightarrow>
             let e = text_between r semi
             in if e = [] then ([], failed xp)
                else if hd e = CHR ''#'' then
                  (case char_reference (tl e) of
                     None \<Rightarrow> ([], failed xp)
                   | Some cp \<Rightarrow> (case decode_loop xp (tl semi) of (out, xp') \<Rightarrow> (xml_append_codepoint cp @ out, xp')))
                else
                  (case predefined e of
                     Some d \<Rightarrow> (case decode_loop xp (tl semi) of (out, xp') \<Rightarrow> (d # out, xp'))
                   | None \<Rightarrow>
                       (case entities xp (c_string e) of
                          None \<Rightarrow> ([], failed xp)
                        | Some val \<Rightarrow>
                            if length val > XML_MAX_ENTITY_EXPANSION - expanded xp then ([], failed xp)
                            else (case decode_loop (xp\<lparr>expanded := expanded xp + length val\<rparr>) (tl semi) of
                                    (out, xp') \<Rightarrow> (val @ out, xp'))))))"
  by pat_completeness auto
termination
  by (relation "measure (\<lambda>(xp, p). length p)") (auto dest!: strchr_length simp: less_Suc_eq_le)

definition xml_decode_text :: "xml_parser \<Rightarrow> cstr \<Rightarrow> cstr \<times> xml_parser" where
  "xml_decode_text xp s = (case decode_loop xp s of (out, xp') \<Rightarrow> (c_string out, xp'))"

section \<open>Entities of the internal subset\<close>

text \<open>The literal of an entity declaration behind its name: the value and the point behind it.\<close>

lemma read_name_tail: "read_name_at p = Some (n, q) \<Longrightarrow> tail_of q p \<and> length q < length p"
proof (cases p)
  case (Cons c r)
  assume "read_name_at p = Some (n, q)"
  then have "q = dropWhile (\<lambda>d. xml_name_char d False) r" by (simp add: read_name_at_def Cons split: if_splits)
  then have "tail_of q (tl p)" using Cons tail_dropWhile by simp
  then show ?thesis using tail_of_length [of q "tl p"] tail_of_tl Cons by fastforce
qed (simp add: read_name_at_def)

lemma drop_while_length: "length (dropWhile P xs) \<le> length xs"
  by (rule length_dropWhile_le)

lemma after_name_length:
  "read_name_at (dropWhile P (drop n r)) = Some (a, b) \<Longrightarrow> length (dropWhile Q b) \<le> length r"
proof -
  assume "read_name_at (dropWhile P (drop n r)) = Some (a, b)"
  then have "length b < length (dropWhile P (drop n r))" using read_name_tail by blast
  also have "\<dots> \<le> length r" using drop_while_length [of P "drop n r"] by simp
  finally show ?thesis using drop_while_length [of Q b] by simp
qed

lemma entity_value_length:
  assumes "read_name_at (dropWhile P (drop n r)) = Some (a, b)" "strchr (tl (dropWhile Q b)) x = Some q"
  shows "length (tl q) \<le> length r"
  using after_name_length [OF assms(1), of Q] strchr_length [OF assms(2)] by simp

text \<open>One turn of the loop of \<^verbatim>\<open>xml_parse_internal_entities\<close>: it ends, or goes on at a point.\<close>

datatype entity_step = Entity_End xml_parser | Entity_More xml_parser cstr

definition entity_skip :: "xml_parser \<Rightarrow> cstr option \<Rightarrow> entity_step" where
  "entity_skip xp q = (case q of None \<Rightarrow> Entity_End xp | Some r \<Rightarrow> Entity_More xp r)"

text \<open>Behind \<open><!ENTITY\<close>.\<close>

definition entity_declaration :: "xml_parser \<Rightarrow> cstr \<Rightarrow> entity_step" where
  "entity_declaration xp r =
     (let p = dropWhile xml_is_space r
      in if p \<noteq> [] \<and> hd p = CHR ''%'' then Entity_More xp (tl p)
         else
           (case read_name_at p of
              None \<Rightarrow> Entity_End (failed xp)
            | Some (name, p1) \<Rightarrow>
                let p2 = dropWhile xml_is_space p1
                in if p2 = [] \<or> hd p2 \<noteq> CHR 0x22 \<and> hd p2 \<noteq> CHR 0x27 then Entity_More xp p2
                   else
                     (case strchr (tl p2) (hd p2) of
                        None \<Rightarrow> Entity_End (failed xp)
                      | Some q \<Rightarrow>
                          (case xml_decode_text xp (text_between (tl p2) q) of
                             (val, xp1) \<Rightarrow>
                               Entity_More
                                 (if xp_ok xp1 then xp1\<lparr>entities := (entities xp1)(name \<mapsto> val)\<rparr> else xp1) (tl q)))))"

definition entity_step :: "xml_parser \<Rightarrow> cstr \<Rightarrow> entity_step" where
  "entity_step xp p =
     (if p = [] \<or> \<not> xp_ok xp then Entity_End xp
      else if take 4 p = ''<!--'' then entity_skip xp (xml_skip_past (drop 4 p) ''-->'')
      else if take 2 p = ''<?'' then entity_skip xp (xml_skip_past (drop 2 p) ''?>'')
      else if hd p = CHR 0x22 \<or> hd p = CHR 0x27 then entity_skip xp (map_option tl (strchr (tl p) (hd p)))
      else if take 8 p \<noteq> ''<!ENTITY'' then Entity_More xp (tl p)
      else entity_declaration xp (drop 8 p))"

lemma entity_declaration_length: "entity_declaration xp r = Entity_More xp' q \<Longrightarrow> length q \<le> length r"
proof -
  assume more: "entity_declaration xp r = Entity_More xp' q"
  have "length (tl (dropWhile xml_is_space r)) \<le> length r" using drop_while_length [of xml_is_space r] by simp
  moreover note after_name_length [of xml_is_space 0 r _ _ xml_is_space]
    entity_value_length [of xml_is_space 0 r _ _ xml_is_space]
  ultimately show ?thesis
    using more by (auto simp: entity_declaration_def Let_def split: if_splits option.splits prod.splits)
qed

lemma entity_step_length: "entity_step xp p = Entity_More xp' q \<Longrightarrow> length q < length p"
proof (cases p)
  case (Cons c r)
  assume "entity_step xp p = Entity_More xp' q"
  then have "length q \<le> length r"
    using Cons entity_declaration_length [of xp "drop 7 r" xp' q]
    by (auto simp: entity_step_def entity_skip_def split: if_splits option.splits
        dest!: skip_past_length dest: strchr_length)
  then show ?thesis using Cons by simp
qed (simp add: entity_step_def)

function xml_parse_internal_entities :: "xml_parser \<Rightarrow> cstr \<Rightarrow> xml_parser" where
  "xml_parse_internal_entities xp p =
     (case entity_step xp p of Entity_End xp' \<Rightarrow> xp' | Entity_More xp' q \<Rightarrow> xml_parse_internal_entities xp' q)"
  by pat_completeness auto
termination
  by (relation "measure (\<lambda>(xp, p). length p)") (auto dest: entity_step_length)

section \<open>Prolog and epilog\<close>

text \<open>A processing instruction, a comment or a CDATA section at a point behind its opening.\<close>

definition up_to :: "cstr \<Rightarrow> cstr \<Rightarrow> (cstr \<times> cstr) option" where
  "up_to delim p = map_option (\<lambda>e. (text_between p e, drop (length delim) e)) (strstr p delim)"

definition pi_node :: "cstr \<Rightarrow> ns_node" where
  "pi_node t = PI (c_string (takeWhile (\<lambda>c. \<not> xml_is_space c) t))
     (c_string (dropWhile xml_is_space (dropWhile (\<lambda>c. \<not> xml_is_space c) t)))"

definition is_xml_declaration :: "cstr \<Rightarrow> bool" where
  "is_xml_declaration t \<longleftrightarrow> take 3 t = ''xml'' \<and> (drop 3 t = [] \<or> xml_is_space (hd (drop 3 t)))"

text \<open>The text between the first \<open>[\<close> and the last \<open>]\<close> of a doctype.\<close>

definition internal_subset :: "cstr \<Rightarrow> cstr option" where
  "internal_subset d =
     (case strchr d CHR ''['' of None \<Rightarrow> None
      | Some s \<Rightarrow> (case dropWhile (\<lambda>c. c \<noteq> CHR '']'') (rev s) of [] \<Rightarrow> None | _ # r \<Rightarrow> Some (tl (rev r))))"

text \<open>The doctype whose text lies behind \<open><!DOCTYPE\<close>, with the entities it declares; None is a refusal.\<close>

definition doctype_entities :: "xml_parser \<Rightarrow> cstr \<Rightarrow> xml_parser" where
  "doctype_entities xp d = (case internal_subset d of None \<Rightarrow> xp | Some s \<Rightarrow> xml_parse_internal_entities xp s)"

definition doctype_node :: "cstr \<Rightarrow> ns_node option" where
  "doctype_node d =
     (let t = dropWhile xml_is_space d;
          stop = (\<lambda>c. xml_is_space c \<or> c = CHR ''>'' \<or> c = CHR ''['');
          name = c_string (takeWhile (\<lambda>c. \<not> stop c) t); rest = dropWhile (\<lambda>c. \<not> stop c) t
      in if length rest = length t \<or> \<not> xml_qname_valid name then None
         else map_option (\<lambda>(pub, sys). Doctype name pub sys) (xml_doctype_tail_parse rest))"

text \<open>One turn of \<^verbatim>\<open>xml_skip_misc_and_doctype\<close>: it ends, or goes on with the nodes it appended.\<close>

datatype misc_step = Misc_End xml_parser | Misc_More "ns_node list" xml_parser

definition misc_step :: "xml_parser \<Rightarrow> misc_step" where
  "misc_step xp0 =
     (let xp = xml_skip_space xp0; p = xp_p xp
      in if length p < 2 \<or> hd p \<noteq> CHR ''<'' then Misc_End xp
         else if hd (tl p) = CHR ''?'' then
           (case up_to ''?>'' (drop 2 p) of
              None \<Rightarrow> Misc_End (failed (xp\<lparr>xp_p := []\<rparr>))
            | Some (t, r) \<Rightarrow> Misc_More (if is_xml_declaration t then [] else [pi_node t]) (xp\<lparr>xp_p := r\<rparr>))
         else if take 4 p = ''<!--'' then
           (case up_to ''-->'' (drop 4 p) of
              None \<Rightarrow> Misc_End (failed (xp\<lparr>xp_p := []\<rparr>))
            | Some (t, r) \<Rightarrow> Misc_More [Comment (c_string t)] (xp\<lparr>xp_p := r\<rparr>))
         else if length p \<ge> 9 \<and> strncaseeq p ''<!DOCTYPE'' 9 then
           (case ns_xml_doctype_end 0 (drop 9 p) of
              None \<Rightarrow> Misc_End (failed (xp\<lparr>xp_p := []\<rparr>))
            | Some e \<Rightarrow>
                let d = text_between (drop 9 p) e; xp1 = doctype_entities xp d
                in (case doctype_node d of
                      None \<Rightarrow> Misc_End (failed xp1)
                    | Some n \<Rightarrow> Misc_More [n] (xp1\<lparr>xp_p := tl e\<rparr>)))
         else Misc_End xp)"

lemma up_to_length: "up_to d p = Some (t, r) \<Longrightarrow> length r \<le> length p"
  by (auto simp: up_to_def dest!: strstr_tail tail_of_length)

lemma doctype_end_tail: "ns_xml_doctype_end n p = Some e \<Longrightarrow> e \<noteq> [] \<and> length e \<le> length p"
proof (induction n p rule: ns_xml_doctype_end.induct)
  case (2 bracket c r)
  then show ?case
    by (auto split: if_splits option.splits dest!: skip_past_length strchr_length simp: le_SucI)
qed simp

lemma failed_simps [simp]:
  "xp_p (failed xp) = xp_p xp" "ns_stack (failed xp) = ns_stack xp" "entities (failed xp) = entities xp"
  "expanded (failed xp) = expanded xp" "\<not> xp_ok (failed xp)"
  by (simp_all add: failed_def)

lemma skip_space_simps [simp]:
  "ns_stack (xml_skip_space xp) = ns_stack xp" "entities (xml_skip_space xp) = entities xp"
  "expanded (xml_skip_space xp) = expanded xp" "xp_ok (xml_skip_space xp) = xp_ok xp"
  "xp_p (xml_skip_space xp) = dropWhile xml_is_space (xp_p xp)"
  by (simp_all add: xml_skip_space_def)

lemma misc_step_length: "misc_step xp = Misc_More ns xp' \<Longrightarrow> length (xp_p xp') < length (xp_p xp)"
proof -
  assume more: "misc_step xp = Misc_More ns xp'"
  let ?p = "dropWhile xml_is_space (xp_p xp)"
  have "length (xp_p xp') < length ?p"
    using more
    by (auto simp: misc_step_def Let_def split: if_splits option.splits dest!: up_to_length doctype_end_tail)
  then show ?thesis using drop_while_length [of xml_is_space "xp_p xp"] by simp
qed

text \<open>The nodes before or behind the root, and the parser behind them.\<close>

function xml_skip_misc_and_doctype :: "xml_parser \<Rightarrow> ns_node list \<times> xml_parser" where
  "xml_skip_misc_and_doctype xp =
     (case misc_step xp of
        Misc_End xp' \<Rightarrow> ([], xp')
      | Misc_More ns xp' \<Rightarrow> (case xml_skip_misc_and_doctype xp' of (ms, xp2) \<Rightarrow> (ns @ ms, xp2)))"
  by pat_completeness auto
termination
  by (relation "measure (\<lambda>xp. length (xp_p xp))") (auto dest: misc_step_length)

declare xml_skip_misc_and_doctype.simps [simp del]

section \<open>Namespaces\<close>

definition xml_lookup_prefix :: "xml_parser \<Rightarrow> cstr option \<Rightarrow> cstr option" where
  "xml_lookup_prefix xp pfx =
     (if pfx = Some ''xml'' then Some XML_NS_XML
      else if pfx = Some ''xmlns'' then Some XML_NS_XMLNS
      else map_option snd (find (\<lambda>(q, uri). q = pfx) (ns_stack xp)))"

definition xml_push_binding :: "cstr option \<Rightarrow> cstr \<Rightarrow> xml_parser \<Rightarrow> xml_parser" where
  "xml_push_binding pfx uri xp = xp\<lparr>ns_stack := (if nonempty pfx then pfx else None, uri) # ns_stack xp\<rparr>"

text \<open>\<^verbatim>\<open>g_ptr_array_set_size(ns_stack, base)\<close>.\<close>

definition pop_bindings :: "nat \<Rightarrow> xml_parser \<Rightarrow> xml_parser" where
  "pop_bindings base xp = xp\<lparr>ns_stack := drop (length (ns_stack xp) - base) (ns_stack xp)\<rparr>"

section \<open>Attributes of a start tag\<close>

definition invalid_decl :: "cstr \<Rightarrow> cstr \<Rightarrow> bool" where
  "invalid_decl aname aval \<longleftrightarrow>
     (let default_decl = (aname = ''xmlns''); prefix_decl = (take 6 aname = ''xmlns:''); decl_prefix = drop 6 aname
      in prefix_decl \<and> decl_prefix = ''xmlns'' \<or>
         prefix_decl \<and> decl_prefix = ''xml'' \<and> aval \<noteq> XML_NS_XML \<or>
         prefix_decl \<and> decl_prefix \<noteq> ''xml'' \<and> (aval = [] \<or> aval = XML_NS_XML \<or> aval = XML_NS_XMLNS) \<or>
         default_decl \<and> (aval = XML_NS_XML \<or> aval = XML_NS_XMLNS))"

text \<open>One turn of the loop of \<^verbatim>\<open>xml_parse_attributes\<close>.\<close>

datatype attr_step = Attr_Fail xml_parser | Attr_Done xml_parser | Attr_More cstr cstr xml_parser

definition declare_binding :: "cstr \<Rightarrow> cstr \<Rightarrow> xml_parser \<Rightarrow> xml_parser" where
  "declare_binding aname aval xp =
     (if aname = ''xmlns'' then xml_push_binding None aval xp
      else if take 6 aname = ''xmlns:'' then xml_push_binding (Some (drop 6 aname)) aval xp
      else xp)"

text \<open>An attribute's value at a point, of which the point behind the quote is left.\<close>

definition attr_value_step :: "xml_parser \<Rightarrow> cstr list \<Rightarrow> cstr \<Rightarrow> cstr \<Rightarrow> attr_step" where
  "attr_value_step xp names aname p =
     (case strchr (tl p) (hd p) of
        None \<Rightarrow> Attr_Fail (failed (xp\<lparr>xp_p := []\<rparr>))
      | Some e \<Rightarrow>
          (case xml_decode_text xp (text_between (tl p) e) of
             (aval, xp1) \<Rightarrow>
               let xp2 = xp1\<lparr>xp_p := tl e\<rparr>
               in if \<not> xp_ok xp2 then Attr_Fail xp2
                  else if invalid_decl aname aval \<or> aname \<in> set names then Attr_Fail (failed xp2)
                  else Attr_More aname aval (declare_binding aname aval xp2)))"

definition attr_step :: "xml_parser \<Rightarrow> cstr list \<Rightarrow> attr_step" where
  "attr_step xp0 names =
     (let xp = xml_skip_space xp0; p = xp_p xp
      in if p = [] then Attr_Fail (failed xp)
         else if hd p = CHR ''>'' \<or> hd p = CHR ''/'' then Attr_Done xp
         else
           (case read_name_at p of
              None \<Rightarrow> Attr_Fail (failed xp)
            | Some (aname, p1) \<Rightarrow>
                let p2 = dropWhile xml_is_space p1; p3 = dropWhile xml_is_space (tl p2)
                in if \<not> xml_qname_valid aname then Attr_Fail (failed (xp\<lparr>xp_p := p1\<rparr>))
                   else if p2 = [] \<or> hd p2 \<noteq> CHR ''='' then Attr_Fail (failed (xp\<lparr>xp_p := p2\<rparr>))
                   else if p3 = [] \<or> hd p3 \<noteq> CHR 0x22 \<and> hd p3 \<noteq> CHR 0x27 then Attr_Fail (failed (xp\<lparr>xp_p := p3\<rparr>))
                   else attr_value_step xp names aname p3))"

lemma after_value_length:
  assumes "read_name_at (dropWhile P r) = Some (a, b)" "strchr (tl (dropWhile P' (tl (dropWhile Q b)))) x = Some q"
  shows "length (tl q) < length r"
proof -
  have b: "length b < length r"
    using read_name_tail [OF assms(1)] drop_while_length [of P r] by simp
  have "length q \<le> length b"
    using strchr_length [OF assms(2)] drop_while_length [of P' "tl (dropWhile Q b)"] drop_while_length [of Q b]
    by simp
  then show ?thesis using b by simp
qed

lemma declare_binding_simps [simp]:
  "xp_p (declare_binding a v xp) = xp_p xp" "entities (declare_binding a v xp) = entities xp"
  "expanded (declare_binding a v xp) = expanded xp" "xp_ok (declare_binding a v xp) = xp_ok xp"
  by (simp_all add: declare_binding_def xml_push_binding_def)

lemma attr_step_length: "attr_step xp names = Attr_More a v xp' \<Longrightarrow> length (xp_p xp') < length (xp_p xp)"
  by (auto simp: attr_step_def attr_value_step_def Let_def split: if_splits option.splits prod.splits dest: after_value_length)

text \<open>The attributes with their values, in order, or None after a failure; and the parser.\<close>

function xml_parse_attributes :: "xml_parser \<Rightarrow> cstr list \<Rightarrow> (cstr \<times> cstr) list option \<times> xml_parser" where
  "xml_parse_attributes xp names =
     (case attr_step xp names of
        Attr_Fail xp' \<Rightarrow> (None, xp')
      | Attr_Done xp' \<Rightarrow> (Some [], xp')
      | Attr_More a v xp' \<Rightarrow>
          (case xml_parse_attributes xp' (names @ [a]) of (as, xp2) \<Rightarrow> (map_option (Cons (a, v)) as, xp2)))"
  by pat_completeness auto
termination
  by (relation "measure (\<lambda>(xp, names). length (xp_p xp))") (auto dest: attr_step_length)

declare xml_parse_attributes.simps [simp del]

section \<open>Elements\<close>

text \<open>The attributes and the flag of a new element.\<close>

definition xml_apply_namespace :: "cstr \<Rightarrow> cstr option \<Rightarrow> ns_attr list \<times> ns_flag" where
  "xml_apply_namespace qname uri =
     (let as1 = (case strchr qname CHR '':'' of None \<Rightarrow> []
                 | Some colon \<Rightarrow> ns_element_set_attr ''data-nd-ns-prefix'' (text_between qname colon) []);
          as2 = (if nonempty uri then ns_element_set_attr ''data-nd-ns-uri'' (the uri) as1 else as1)
      in (as2, if uri = Some XML_NS_XHTML then XHTML_NS else if uri = Some XML_NS_SVG then SVG_NS else FOREIGN_NS))"

definition apply_attribute :: "cstr \<times> cstr \<Rightarrow> ns_attr list \<times> xml_parser \<Rightarrow> ns_attr list \<times> xml_parser" where
  "apply_attribute nv s =
     (case nv of (an, av) \<Rightarrow> case s of (as, xp) \<Rightarrow>
        let acolon = strchr an CHR '':''
        in if ns_attr_name_is_internal an \<or> (case acolon of None \<Rightarrow> False | Some c \<Rightarrow> ns_attr_name_is_internal (tl c))
           then (as, xp)
           else if an = ''xmlns'' then
             (ns_element_set_attr_ns (Some XML_NS_XMLNS) None ''xmlns'' ''xmlns'' av as, xp)
           else
             (case acolon of
                None \<Rightarrow> (ns_element_set_attr_ns None None an an av as, xp)
              | Some c \<Rightarrow>
                  let apfx = text_between an c; auri = xml_lookup_prefix xp (Some apfx)
                  in (ns_element_set_attr_ns auri (Some apfx) (tl c) an av as,
                      if auri = None then failed xp else xp)))"

text \<open>
  \<^verbatim>\<open>xml_parse_element\<close> up to the content: a failure; an element without content; or a start tag, with the
  qualified name the end tag has to match.
\<close>

datatype head_step =
    Head_Fail xml_parser
  | Head_Closed ns_node xml_parser
  | Head_Open cstr cstr ns_flag "ns_attr list" xml_parser

definition start_tag_end :: "cstr \<Rightarrow> cstr \<Rightarrow> ns_flag \<Rightarrow> ns_attr list \<Rightarrow> nat \<Rightarrow> xml_parser \<Rightarrow> head_step" where
  "start_tag_end qname stored flag as base xp0 =
     (let xp = xml_skip_space xp0; p = xp_p xp
      in if p \<noteq> [] \<and> hd p = CHR ''/'' then
           (if tl p = [] \<or> hd (tl p) \<noteq> CHR ''>'' then Head_Fail (pop_bindings base (failed (xp\<lparr>xp_p := tl p\<rparr>)))
            else Head_Closed (Element stored flag as []) (pop_bindings base (xp\<lparr>xp_p := tl (tl p)\<rparr>)))
         else if p = [] \<or> hd p \<noteq> CHR ''>'' then Head_Fail (failed xp)
         else Head_Open qname stored flag as (xp\<lparr>xp_p := tl p\<rparr>))"

definition element_named :: "cstr \<Rightarrow> nat \<Rightarrow> (cstr \<times> cstr) list \<Rightarrow> xml_parser \<Rightarrow> head_step" where
  "element_named qname base atts xp =
     (let colon = strchr qname CHR '':'';
          el_uri = xml_lookup_prefix xp (map_option (text_between qname) colon);
          stored = (case colon of None \<Rightarrow> qname | Some c \<Rightarrow> if el_uri = Some XML_NS_XHTML then tl c else qname)
      in if colon \<noteq> None \<and> el_uri = None then Head_Fail (pop_bindings base (failed xp))
         else
           (case xml_apply_namespace qname el_uri of
              (as0, flag) \<Rightarrow>
                (case fold apply_attribute atts (as0, xp) of
                   (as, xp1) \<Rightarrow>
                     if \<not> xp_ok xp1 then Head_Fail (pop_bindings base xp1)
                     else start_tag_end qname stored flag as base xp1)))"

definition element_head :: "xml_parser \<Rightarrow> nat \<Rightarrow> head_step" where
  "element_head xp depth =
     (if depth > XML_MAX_DEPTH then Head_Fail (failed xp)
      else
        (case xml_read_name (xp\<lparr>xp_p := tl (xp_p xp)\<rparr>) of
           (None, xp1) \<Rightarrow> Head_Fail (failed xp1)
         | (Some qname, xp1) \<Rightarrow>
             if \<not> xml_qname_valid qname \<or> g_str_has_prefix qname ''xmlns:'' then Head_Fail (failed xp1)
             else
               (case xml_parse_attributes xp1 [] of
                  (None, xp2) \<Rightarrow> Head_Fail xp2
                | (Some atts, xp2) \<Rightarrow> element_named qname (length (ns_stack xp1)) atts xp2)))"

section \<open>Content\<close>

text \<open>One turn of the loop over the content of the element \<open>qname\<close>.\<close>

datatype content_step = Content_Stop xml_parser | Content_Node ns_node xml_parser | Content_Element

definition end_tag :: "xml_parser \<Rightarrow> cstr \<Rightarrow> xml_parser" where
  "end_tag xp qname =
     (case xml_read_name (xp\<lparr>xp_p := drop 2 (xp_p xp)\<rparr>) of
        (ename, xp1) \<Rightarrow>
          let xp2 = xml_skip_space xp1; p = xp_p xp2; closes = (p \<noteq> [] \<and> hd p = CHR ''>'');
              xp3 = (if closes then xp2\<lparr>xp_p := tl p\<rparr> else failed xp2);
              xp4 = (case ename of None \<Rightarrow> xp3 | Some n \<Rightarrow> if xml_qname_valid n then xp3 else failed xp3)
          in if ename = Some qname then xp4 else failed xp4)"

definition delimited :: "xml_parser \<Rightarrow> nat \<Rightarrow> cstr \<Rightarrow> (cstr \<Rightarrow> ns_node) \<Rightarrow> content_step" where
  "delimited xp n delim node =
     (case up_to delim (drop n (xp_p xp)) of
        None \<Rightarrow> Content_Stop (failed xp)
      | Some (t, r) \<Rightarrow> Content_Node (node t) (xp\<lparr>xp_p := r\<rparr>))"

definition content_step :: "xml_parser \<Rightarrow> cstr \<Rightarrow> content_step" where
  "content_step xp qname =
     (let p = xp_p xp
      in if \<not> xp_ok xp then Content_Stop xp
         else if p = [] then Content_Stop (failed xp)
         else if hd p = CHR ''<'' then
           (if take 2 p = ''</'' then Content_Stop (end_tag xp qname)
            else if take 4 p = ''<!--'' then delimited xp 4 ''-->'' (\<lambda>t. Comment (c_string t))
            else if take 9 p = ''<![CDATA['' then delimited xp 9 '']]>'' (\<lambda>t. Text (c_string t) True)
            else if take 2 p = ''<?'' then delimited xp 2 ''?>'' pi_node
            else Content_Element)
         else
           (case xml_decode_text xp (takeWhile (\<lambda>c. c \<noteq> CHR ''<'') p) of
              (t, xp') \<Rightarrow> Content_Node (Text t False) (xp'\<lparr>xp_p := dropWhile (\<lambda>c. c \<noteq> CHR ''<'') p\<rparr>)))"

text \<open>
  The content of an element up to and with its end tag: the nodes, and the parser.  A child is parsed by
  \<^verbatim>\<open>xml_parse_element\<close>, which is this function on the content of the child.
\<close>

partial_function (option) parse_content :: "xml_parser \<Rightarrow> cstr \<Rightarrow> nat \<Rightarrow> (ns_node list \<times> xml_parser) option" where
  "parse_content xp qname depth =
     (case content_step xp qname of
        Content_Stop xp' \<Rightarrow> Some ([], xp')
      | Content_Node n xp' \<Rightarrow>
          Option.bind (parse_content xp' qname depth) (\<lambda>(ns, xp2). Some (n # ns, xp2))
      | Content_Element \<Rightarrow>
          (case element_head xp (depth + 1) of
             Head_Fail xp' \<Rightarrow> Some ([], xp')
           | Head_Closed n xp' \<Rightarrow>
               Option.bind (parse_content xp' qname depth) (\<lambda>(ns, xp2). Some (n # ns, xp2))
           | Head_Open q stored flag as xp' \<Rightarrow>
               Option.bind (parse_content xp' q (depth + 1)) (\<lambda>(kids, xp1).
                 Option.bind (parse_content (pop_bindings (length (ns_stack xp)) xp1) qname depth) (\<lambda>(ns, xp2).
                   Some (Element stored flag as kids # ns, xp2)))))"

declare parse_content.simps [code]

definition xml_parse_element :: "xml_parser \<Rightarrow> nat \<Rightarrow> (ns_node list \<times> xml_parser) option" where
  "xml_parse_element xp depth =
     (case element_head xp depth of
        Head_Fail xp' \<Rightarrow> Some ([], xp')
      | Head_Closed n xp' \<Rightarrow> Some ([n], xp')
      | Head_Open q stored flag as xp' \<Rightarrow>
          Option.bind (parse_content xp' q depth) (\<lambda>(kids, xp1).
            Some ([Element stored flag as kids], pop_bindings (length (ns_stack xp)) xp1)))"

section \<open>Documents\<close>

definition line_column_step :: "char \<Rightarrow> nat \<times> nat \<Rightarrow> nat \<times> nat" where
  "line_column_step c lc = (if c = CHR 0x0A then (fst lc + 1, 1) else (fst lc, snd lc + 1))"

definition xml_offset_to_line_column :: "cstr \<Rightarrow> nat \<Rightarrow> nat \<times> nat" where
  "xml_offset_to_line_column input offset = fold line_column_step (take offset input) (1, 1)"

definition xml_parser_init :: "cstr \<Rightarrow> xml_parser" where
  "xml_parser_init input =
     \<lparr>xp_p = (if take 3 input = [char_at 0xEF, char_at 0xBB, char_at 0xBF] then drop 3 input else input),
      ns_stack = [], entities = (\<lambda>_. None), expanded = 0, xp_ok = True\<rparr>"

text \<open>The nodes of the document with the root among them, and the parser at the end.\<close>

definition parse_document :: "xml_parser \<Rightarrow> (ns_node list \<times> xml_parser) option" where
  "parse_document xp0 =
     (case xml_skip_misc_and_doctype xp0 of
        (before, xp1) \<Rightarrow>
          if xp_p xp1 = [] \<or> hd (xp_p xp1) \<noteq> CHR ''<'' then Some (before, failed xp1)
          else
            Option.bind (xml_parse_element xp1 0) (\<lambda>(root, xp2).
              if \<not> xp_ok xp2 then Some (before @ root, xp2)
              else
                (case xml_skip_misc_and_doctype xp2 of
                   (after, xp3) \<Rightarrow>
                     Some (before @ root @ after, if xp_ok xp3 \<and> xp_p xp3 \<noteq> [] then failed xp3 else xp3))))"

text \<open>The children of the document, or the line and the column of the failure; line and column are not bounded here.\<close>

definition ns_xml_parse_reporting :: "cstr option \<Rightarrow> ((nat \<times> nat) + ns_node list) option" where
  "ns_xml_parse_reporting input =
     (case input of
        None \<Rightarrow> Some (Inl (1, 1))
      | Some s \<Rightarrow>
          Option.bind (parse_document (xml_parser_init s)) (\<lambda>(doc, xp).
            Some (if xp_ok xp then Inr doc
                  else Inl (xml_offset_to_line_column s (length s - length (xp_p xp))))))"

definition ns_xml_parse :: "cstr option \<Rightarrow> ns_node list option option" where
  "ns_xml_parse input = map_option (case_sum (\<lambda>_. None) Some) (ns_xml_parse_reporting input)"

section \<open>What one turn does to the parser\<close>

definition xp_kept :: "xml_parser \<Rightarrow> xml_parser \<Rightarrow> bool" where
  "xp_kept xp xp' \<longleftrightarrow> expanded xp \<le> expanded xp' \<and>
     (expanded xp \<le> XML_MAX_ENTITY_EXPANSION \<longrightarrow> expanded xp' \<le> XML_MAX_ENTITY_EXPANSION) \<and> (xp_ok xp' \<longrightarrow> xp_ok xp)"

lemma xp_kept_refl [simp]: "xp_kept xp xp" by (simp add: xp_kept_def)
lemma xp_kept_trans: "xp_kept a b \<Longrightarrow> xp_kept b c \<Longrightarrow> xp_kept a c" by (auto simp: xp_kept_def)
lemma xp_kept_failed [simp]: "xp_kept xp xp' \<Longrightarrow> xp_kept xp (failed xp')" by (auto simp: xp_kept_def)
lemma xp_kept_updates [simp]:
  "xp_kept a (b\<lparr>entities := e\<rparr>) = xp_kept a b" "xp_kept (a\<lparr>entities := e\<rparr>) b = xp_kept a b"
  "xp_kept a (b\<lparr>xp_p := p\<rparr>) = xp_kept a b" "xp_kept (a\<lparr>xp_p := p\<rparr>) b = xp_kept a b"
  "xp_kept a (xml_skip_space b) = xp_kept a b" "xp_kept (xml_skip_space a) b = xp_kept a b"
  "xp_kept a (pop_bindings n b) = xp_kept a b" "xp_kept (pop_bindings n a) b = xp_kept a b"
  "xp_kept a (declare_binding m v b) = xp_kept a b" "xp_kept (declare_binding m v a) b = xp_kept a b"
  by (simp_all add: xp_kept_def xml_skip_space_def pop_bindings_def declare_binding_def xml_push_binding_def)

lemma pop_bindings_simps [simp]:
  "xp_p (pop_bindings n xp) = xp_p xp" "entities (pop_bindings n xp) = entities xp"
  "expanded (pop_bindings n xp) = expanded xp" "xp_ok (pop_bindings n xp) = xp_ok xp"
  by (simp_all add: pop_bindings_def)

lemma utf8_length: "length (xml_append_codepoint cp) \<le> 4"
  by (simp add: xml_append_codepoint_def utf8_chars_def)

lemma char_reference_length: "char_reference e = Some cp \<Longrightarrow> e \<noteq> []"
  by (auto simp: char_reference_def g_ascii_strtoull_def c_string_def)

lemma between_length: "strchr s c = Some r \<Longrightarrow> length (text_between s r) + length r = length s"
  by (auto simp: text_between_def dest: strchr_length)

lemma decode_loop_kept:
  "decode_loop xp s = (out, xp') \<Longrightarrow>
     xp_kept xp xp' \<and> xp_p xp' = xp_p xp \<and> ns_stack xp' = ns_stack xp \<and> entities xp' = entities xp \<and>
     length out + expanded xp \<le> length s + expanded xp'"
proof (induction xp s arbitrary: out xp' rule: decode_loop.induct)
  case (2 xp c r)
  show ?case
  proof (cases "c = CHR ''&''")
    case False
    with 2 show ?thesis by (auto split: prod.splits)
  next
    case amp: True
    show ?thesis
    proof (cases "strchr r CHR '';''")
      case None
      with 2 amp show ?thesis by auto
    next
      case (Some semi)
      let ?e = "text_between r semi"
      note l = between_length [OF Some]
      have semi: "semi \<noteq> []" using strchr_tail [OF Some] by simp
      consider (stop) "out = []" "xp' = failed xp"
        | (ref) cp o1 where "?e \<noteq> []" "hd ?e = CHR ''#''" "char_reference (tl ?e) = Some cp"
            "decode_loop xp (tl semi) = (o1, xp')" "out = xml_append_codepoint cp @ o1"
        | (pre) d o1 where "?e \<noteq> []" "hd ?e \<noteq> CHR ''#''" "predefined ?e = Some d"
            "decode_loop xp (tl semi) = (o1, xp')" "out = d # o1"
        | (ent) val o1 where "?e \<noteq> []" "hd ?e \<noteq> CHR ''#''" "predefined ?e = None" "entities xp (c_string ?e) = Some val"
            "length val \<le> XML_MAX_ENTITY_EXPANSION - expanded xp"
            "decode_loop (xp\<lparr>expanded := expanded xp + length val\<rparr>) (tl semi) = (o1, xp')" "out = val @ o1"
        using 2(5) amp Some by (auto simp: Let_def split: if_splits option.splits prod.splits)
      then show ?thesis
      proof cases
        case ref
        have "length (tl ?e) \<ge> 1" using char_reference_length [OF ref(3)] by (cases "tl ?e") auto
        then have "length (xml_append_codepoint cp) \<le> 1 + length ?e + 1" using utf8_length [of cp] by simp
        moreover obtain x m where "semi = x # m" using semi by (cases semi) auto
        ultimately show ?thesis using 2(2) [OF _ Some refl _ _ ref(3) ref(4)] ref amp l by simp
      next
        case pre
        with 2(4) [OF _ Some refl _ _ pre(3)] amp l semi show ?thesis by (cases semi) auto
      next
        case ent
        with 2(3) [OF _ Some refl _ _ ent(3,4)] amp l semi show ?thesis by (cases semi) (auto simp: xp_kept_def)
      qed simp
    qed
  qed
qed auto

lemma decode_kept:
  assumes "xml_decode_text xp s = (out, xp')"
  shows "xp_kept xp xp'" "xp_p xp' = xp_p xp" "ns_stack xp' = ns_stack xp"
    "length out + expanded xp \<le> length s + expanded xp'"
proof -
  obtain o1 where o: "decode_loop xp s = (o1, xp')" "out = c_string o1"
    using assms by (auto simp: xml_decode_text_def split: prod.splits)
  note k = decode_loop_kept [OF o(1)]
  have "length out \<le> length o1" using o(2) length_takeWhile_le [of _ o1] by (simp add: c_string_def)
  then show "xp_kept xp xp'" "xp_p xp' = xp_p xp" "ns_stack xp' = ns_stack xp"
    "length out + expanded xp \<le> length s + expanded xp'" using k by auto
qed

definition kept_fixed :: "xml_parser \<Rightarrow> xml_parser \<Rightarrow> bool" where
  "kept_fixed xp xp' \<longleftrightarrow> xp_kept xp xp' \<and> xp_p xp' = xp_p xp \<and> ns_stack xp' = ns_stack xp"

lemma kept_fixed_updates [simp]:
  "kept_fixed xp xp" "kept_fixed a b \<Longrightarrow> kept_fixed a (failed b)" "kept_fixed a (b\<lparr>entities := e\<rparr>) = kept_fixed a b"
  by (simp_all add: kept_fixed_def)

lemma decode_fixed: "xml_decode_text xp s = (out, xp') \<Longrightarrow> kept_fixed xp xp'"
  by (simp add: kept_fixed_def decode_kept)

lemma entity_step_kept:
  "entity_step xp p = Entity_End xp' \<Longrightarrow> kept_fixed xp xp'" "entity_step xp p = Entity_More xp' q \<Longrightarrow> kept_fixed xp xp'"
  by (auto simp: entity_step_def entity_skip_def entity_declaration_def Let_def
      dest: decode_fixed split: if_splits option.splits prod.splits)

lemma internal_entities_kept: "kept_fixed xp (xml_parse_internal_entities xp s)"
proof (induction xp s rule: xml_parse_internal_entities.induct)
  case (1 xp p)
  show ?case
  proof (cases "entity_step xp p")
    case (Entity_End xp')
    with entity_step_kept(1) show ?thesis by simp
  next
    case (Entity_More xp' q)
    with 1 [OF Entity_More] entity_step_kept(2) [OF Entity_More] xp_kept_trans [of xp xp'] show ?thesis
      by (simp add: kept_fixed_def)
  qed
qed

section \<open>The size of a tree\<close>

text \<open>The characters of a tree that stand in the input or in an entity: all but what the parser adds of its own.\<close>

definition attr_size :: "ns_attr \<Rightarrow> nat" where
  "attr_size a = (if ns_attr_name_is_internal (attr_name a) then 0 else length (attr_name a) + length (attr_value a))"

definition attrs_size :: "ns_attr list \<Rightarrow> nat" where
  "attrs_size as = sum_list (map attr_size as)"

fun node_size :: "ns_node \<Rightarrow> nat" where
  "node_size (Element name flag as kids) = length name + attrs_size as + sum_list (map node_size kids)"
| "node_size (Text t cd) = length t"
| "node_size (Comment t) = length t"
| "node_size (PI t d) = length t + length d"
| "node_size (Doctype n p s) = length n + length p + length s"

definition nodes_size :: "ns_node list \<Rightarrow> nat" where
  "nodes_size ns = sum_list (map node_size ns)"

text \<open>A turn that takes \<open>k\<close> characters of output from the input and the entities.\<close>

definition pays :: "nat \<Rightarrow> xml_parser \<Rightarrow> xml_parser \<Rightarrow> bool" where
  "pays k xp xp' \<longleftrightarrow> xp_kept xp xp' \<and> length (xp_p xp') \<le> length (xp_p xp) \<and> k + length (xp_p xp') + expanded xp \<le> length (xp_p xp) + expanded xp'"

lemma pays_trans: "pays k a b \<Longrightarrow> pays m b c \<Longrightarrow> pays (k + m) a c"
  using xp_kept_trans by (fastforce simp: pays_def)

lemma pays_less: "pays k a b \<Longrightarrow> m \<le> k \<Longrightarrow> pays m a b"
  by (simp add: pays_def)

lemma pays_failed: "pays k a b \<Longrightarrow> pays k a (failed b)"
  by (simp add: pays_def)

lemma pays_pop [simp]: "pays k a (pop_bindings n b) = pays k a b" "pays k (pop_bindings n a) b = pays k a b"
  by (simp_all add: pays_def)

lemma pays_space: "pays k a b \<Longrightarrow> pays k a (xml_skip_space b)"
  using drop_while_length [of xml_is_space "xp_p b"] by (simp add: pays_def)

lemma pays_refl [simp]: "pays 0 a a" by (simp add: pays_def)

lemma c_string_length: "length (c_string t) \<le> length t"
  by (simp add: c_string_def length_takeWhile_le)

lemma up_to_size: "up_to d p = Some (t, r) \<Longrightarrow> length t + length d + length r = length p"
proof -
  assume "up_to d p = Some (t, r)"
  then obtain e where e: "strstr p d = Some e" "t = text_between p e" "r = drop (length d) e"
    by (auto simp: up_to_def)
  then obtain w where "e = d @ w" "r = w" using strstr_tail [OF e(1)] by (auto simp: has_prefix_iff)
  moreover have "length t + length e = length p"
    using text_between_append [of e p] strstr_tail [OF e(1)] e(2) by (metis length_append)
  ultimately show ?thesis by simp
qed

lemma pi_node_size: "node_size (pi_node t) \<le> length t"
proof -
  let ?P = "\<lambda>c. \<not> xml_is_space c"
  have "length (takeWhile ?P t) + length (dropWhile ?P t) = length t"
    by (metis length_append takeWhile_dropWhile_id)
  then show ?thesis
    using c_string_length [of "takeWhile ?P t"] c_string_length [of "dropWhile xml_is_space (dropWhile ?P t)"]
      drop_while_length [of xml_is_space "dropWhile ?P t"]
    by (simp add: pi_node_def)
qed


lemma quoted_size: "xml_read_quoted_range p = Some (t, q) \<Longrightarrow> length t + length q < length p"
proof -
  assume "xml_read_quoted_range p = Some (t, q)"
  then obtain c r e where e: "p = c # r" "strchr r c = Some e" "t = c_string (text_between r e)" "q = tl e"
    by (auto simp: xml_read_quoted_range_def split: list.splits if_splits option.splits)
  then show ?thesis using between_length [OF e(2)] c_string_length [of "text_between r e"] by simp
qed

lemma doctype_tail_size: "xml_doctype_tail_parse p = Some (a, b) \<Longrightarrow> length a + length b \<le> length p"
proof -
  assume parse: "xml_doctype_tail_parse p = Some (a, b)"
  let ?r = "drop 6 (dropWhile xml_is_space p)"
  have r: "length (dropWhile xml_is_space ?r) \<le> length p"
    using drop_while_length [of xml_is_space ?r] drop_while_length [of xml_is_space p] by simp
  consider "a = []" "b = []"
    | f p1 where "xml_read_quoted_range (dropWhile xml_is_space ?r) = Some (f, p1)" "a = []" "b = f"
    | f p1 g p3 where "xml_read_quoted_range (dropWhile xml_is_space ?r) = Some (f, p1)"
        "xml_read_quoted_range (dropWhile xml_is_space p1) = Some (g, p3)" "a = f" "b = g"
    using parse
    by (auto simp: xml_doctype_tail_parse_def Let_def split: if_splits option.splits prod.splits bind_splits)
  then show ?thesis
  proof cases
    case 2
    with quoted_size [OF 2(1)] r show ?thesis by simp
  next
    case 3
    with quoted_size [OF 3(1)] quoted_size [OF 3(2)] drop_while_length [of xml_is_space p1] r show ?thesis by simp
  qed simp
qed

lemma doctype_node_size: "doctype_node d = Some n \<Longrightarrow> node_size n \<le> length d"
proof -
  assume d: "doctype_node d = Some n"
  let ?S = "\<lambda>c. \<not> (xml_is_space c \<or> c = CHR ''>'' \<or> c = CHR ''['')" and ?t = "dropWhile xml_is_space d"
  obtain pub sys where n: "n = Doctype (c_string (takeWhile ?S ?t)) pub sys"
      "xml_doctype_tail_parse (dropWhile ?S ?t) = Some (pub, sys)"
    using d by (auto simp: doctype_node_def Let_def split: if_splits)
  have "length (takeWhile ?S ?t) + length (dropWhile ?S ?t) = length ?t"
    by (metis length_append takeWhile_dropWhile_id)
  then show ?thesis
    using n doctype_tail_size [OF n(2)] c_string_length [of "takeWhile ?S ?t"] drop_while_length [of xml_is_space d]
    by simp
qed

lemma doctype_entities_kept: "kept_fixed xp (doctype_entities xp d)"
  using internal_entities_kept by (auto simp: doctype_entities_def split: option.splits)

lemma pays_up_to:
  assumes "up_to d (drop n (xp_p xp)) = Some (t, r)" "k \<le> length t"
  shows "pays k xp (xp\<lparr>xp_p := r\<rparr>)"
  using up_to_size [OF assms(1)] assms(2) by (simp add: pays_def) linarith

lemma pays_from_space: "pays k (xml_skip_space xp) xp' \<Longrightarrow> pays k xp xp'"
  using drop_while_length [of xml_is_space "xp_p xp"] by (simp add: pays_def)

lemma pays_doctype:
  assumes "ns_xml_doctype_end 0 (drop 9 (xp_p xp)) = Some e" "doctype_node (text_between (drop 9 (xp_p xp)) e) = Some n"
  shows "pays (nodes_size [n]) xp ((doctype_entities xp (text_between (drop 9 (xp_p xp)) e))\<lparr>xp_p := tl e\<rparr>)"
proof -
  let ?d = "text_between (drop 9 (xp_p xp)) e"
  have "node_size n \<le> length ?d" by (rule doctype_node_size [OF assms(2)])
  moreover have "length ?d + length e = length (drop 9 (xp_p xp))"
    using doctype_end_tail [OF assms(1)] by (simp add: text_between_def del: length_drop)
  ultimately have "node_size n + length (tl e) \<le> length (xp_p xp)" by simp
  then show ?thesis
    using doctype_entities_kept [of xp ?d] by (simp add: pays_def kept_fixed_def xp_kept_def nodes_size_def del: length_tl)
qed

lemma misc_step_end: "misc_step xp = Misc_End xp' \<Longrightarrow> pays 0 xp xp'"
proof (rule pays_from_space)
  let ?x = "xml_skip_space xp"
  assume "misc_step xp = Misc_End xp'"
  then consider "xp' = ?x" | "xp' = failed (?x\<lparr>xp_p := []\<rparr>)" | d where "xp' = failed (doctype_entities ?x d)"
    by (auto simp: misc_step_def Let_def simp del: skip_space_simps split: if_splits option.splits prod.splits)
  then show "pays 0 ?x xp'"
  proof cases
    case 3
    with doctype_entities_kept [of ?x] show ?thesis by (simp add: pays_def kept_fixed_def xp_kept_def)
  qed (simp_all add: pays_def)
qed

lemma misc_step_more: "misc_step xp = Misc_More ns xp' \<Longrightarrow> pays (nodes_size ns) xp xp'"
proof (rule pays_from_space)
  let ?x = "xml_skip_space xp"
  assume more: "misc_step xp = Misc_More ns xp'"
  consider (pi) t r where "up_to ''?>'' (drop 2 (xp_p ?x)) = Some (t, r)" "ns = [] \<or> ns = [pi_node t]"
      "xp' = ?x\<lparr>xp_p := r\<rparr>"
    | (comment) t r where "up_to ''-->'' (drop 4 (xp_p ?x)) = Some (t, r)" "ns = [Comment (c_string t)]"
      "xp' = ?x\<lparr>xp_p := r\<rparr>"
    | (doctype) e n where "ns_xml_doctype_end 0 (drop 9 (xp_p ?x)) = Some e"
      "doctype_node (text_between (drop 9 (xp_p ?x)) e) = Some n" "ns = [n]"
      "xp' = (doctype_entities ?x (text_between (drop 9 (xp_p ?x)) e))\<lparr>xp_p := tl e\<rparr>"
    using more by (auto simp: misc_step_def Let_def simp del: skip_space_simps split: if_splits option.splits prod.splits)
  then show "pays (nodes_size ns) ?x xp'"
  proof cases
    case pi
    with pays_up_to [OF pi(1), of "nodes_size ns"] pi_node_size [of t] show ?thesis by (auto simp: nodes_size_def)
  next
    case comment
    with pays_up_to [OF comment(1), of "nodes_size ns"] c_string_length [of t] show ?thesis
      by (auto simp: nodes_size_def)
  next
    case doctype
    with pays_doctype [OF doctype(1,2)] show ?thesis by simp
  qed
qed

lemma nodes_size_simps [simp]:
  "nodes_size [] = 0" "nodes_size (n # ns) = node_size n + nodes_size ns" "nodes_size (ns @ ms) = nodes_size ns + nodes_size ms"
  by (simp_all add: nodes_size_def)

lemma misc_pays: "xml_skip_misc_and_doctype xp = (ns, xp') \<Longrightarrow> pays (nodes_size ns) xp xp'"
proof (induction xp arbitrary: ns xp' rule: xml_skip_misc_and_doctype.induct)
  case (1 xp)
  show ?case
  proof (cases "misc_step xp")
    case (Misc_End xp1)
    with misc_step_end [OF Misc_End] 1(2) show ?thesis by (simp add: xml_skip_misc_and_doctype.simps [of xp])
  next
    case (Misc_More ns1 xp1)
    obtain ms xp2 where m: "xml_skip_misc_and_doctype xp1 = (ms, xp2)" by fastforce
    with 1(2) Misc_More have "ns = ns1 @ ms" "xp' = xp2" by (auto simp: xml_skip_misc_and_doctype.simps [of xp])
    with pays_trans [OF misc_step_more [OF Misc_More] 1(1) [OF Misc_More m]] show ?thesis by simp
  qed
qed

section \<open>Attributes\<close>

lemma read_name_size: "read_name_at p = Some (n, q) \<Longrightarrow> n \<noteq> [] \<and> length n + length q = length p"
proof (cases p)
  case (Cons c r)
  assume "read_name_at p = Some (n, q)"
  then have "n = c # takeWhile (\<lambda>d. xml_name_char d False) r" "q = dropWhile (\<lambda>d. xml_name_char d False) r"
    by (auto simp: read_name_at_def Cons split: if_splits)
  then show ?thesis using Cons by (metis append_Cons length_append list.distinct(1) takeWhile_dropWhile_id)
qed (simp add: read_name_at_def)

lemma attr_value_fail:
  assumes "attr_value_step xp names a p = Attr_Fail xp'" "length p \<le> length (xp_p xp)"
  shows "pays 0 xp xp'"
proof -
  consider "xp' = failed (xp\<lparr>xp_p := []\<rparr>)"
    | e v xp1 where "strchr (tl p) (hd p) = Some e" "xml_decode_text xp (text_between (tl p) e) = (v, xp1)"
      "xp' = xp1\<lparr>xp_p := tl e\<rparr> \<or> xp' = failed (xp1\<lparr>xp_p := tl e\<rparr>)"
    using assms(1) by (auto simp: attr_value_step_def Let_def split: if_splits option.splits prod.splits)
  then show ?thesis
  proof cases
    case 2
    have "length (tl e) \<le> length (xp_p xp)" using between_length [OF 2(1)] assms(2) by simp
    then have "pays 0 xp (xp1\<lparr>xp_p := tl e\<rparr>)"
      using decode_kept [OF 2(2)] by (simp add: pays_def xp_kept_def del: length_tl)
    then show ?thesis using 2(3) pays_failed by blast
  qed (simp add: pays_def)
qed

lemma attr_value_more:
  assumes "attr_value_step xp names a p = Attr_More n v xp'" "p \<noteq> []"
  shows "n = a" "xp_kept xp xp'" "length v + length (xp_p xp') + expanded xp < length p + expanded xp'"
    "length (xp_p xp') < length p"
proof -
  obtain e where e1: "strchr (tl p) (hd p) = Some e"
    using assms(1) by (cases "strchr (tl p) (hd p)") (simp_all add: attr_value_step_def)
  obtain v1 xp1 where d1: "xml_decode_text xp (text_between (tl p) e) = (v1, xp1)" by fastforce
  have "v1 = v" "xp' = declare_binding a v (xp1\<lparr>xp_p := tl e\<rparr>)" "n = a"
    using assms(1) by (auto simp: attr_value_step_def e1 d1 Let_def split: if_splits)
  note e = e1 d1 [unfolded this(1)] this(2,3)
  note d = decode_kept [OF e(2)] and l = between_length [OF e(1)]
  show "n = a" "xp_kept xp xp'" using e(3,4) d(1) by simp_all
  have "length e = length (tl e) + 1" "length p = length (tl p) + 1"
    using strchr_tail [OF e(1)] assms(2) by (simp_all add: Suc_le_eq)
  moreover have "length (xp_p xp') = length (tl e)" "expanded xp' = expanded xp1" using e(3) by simp_all
  ultimately show "length v + length (xp_p xp') + expanded xp < length p + expanded xp'"
    "length (xp_p xp') < length p"
    using d(4) l by linarith+
qed

lemma attr_step_cases:
  assumes "attr_step xp names = s"
  obtains (at_end) q where "s = Attr_Fail (failed ((xml_skip_space xp)\<lparr>xp_p := q\<rparr>))" "length q \<le> length (xp_p xp)"
  | (finished) "s = Attr_Done (xml_skip_space xp)"
  | (one) n p1 p where "read_name_at (xp_p (xml_skip_space xp)) = Some (n, p1)" "xml_qname_valid n"
      "s = attr_value_step (xml_skip_space xp) names n p" "p \<noteq> []" "length p < length p1"
      "p = dropWhile xml_is_space (tl (dropWhile xml_is_space p1))" 
proof -
  let ?x = "xml_skip_space xp"
  show thesis
  proof (cases "xp_p ?x = [] \<or> hd (xp_p ?x) = CHR ''>'' \<or> hd (xp_p ?x) = CHR ''/'' \<or> read_name_at (xp_p ?x) = None")
    case True
    have "length (xp_p ?x) \<le> length (xp_p xp)" using drop_while_length by simp
    then show thesis
      using assms True at_end [of "xp_p ?x"] finished by (auto simp: attr_step_def Let_def split: if_splits)
  next
    case False
    then obtain n p1 where n: "read_name_at (xp_p ?x) = Some (n, p1)" by auto
    let ?p2 = "dropWhile xml_is_space p1"
    let ?p3 = "dropWhile xml_is_space (tl ?p2)"
    have l: "length p1 \<le> length (xp_p xp)" "length ?p2 \<le> length p1" "length ?p3 \<le> length ?p2 - 1"
      using read_name_size [OF n] drop_while_length [of xml_is_space p1] drop_while_length [of xml_is_space "tl ?p2"]
        drop_while_length [of xml_is_space "xp_p xp"] by simp_all
    consider "s = Attr_Fail (failed (?x\<lparr>xp_p := p1\<rparr>))" | "s = Attr_Fail (failed (?x\<lparr>xp_p := ?p2\<rparr>))"
      | "s = Attr_Fail (failed (?x\<lparr>xp_p := ?p3\<rparr>))"
      | "xml_qname_valid n" "s = attr_value_step ?x names n ?p3" "?p2 \<noteq> []" "?p3 \<noteq> []"
      using assms False n by (simp add: attr_step_def Let_def split: if_splits)
    then show thesis
    proof cases
      case 1 then show thesis using at_end [of p1] l by blast
    next
      case 2 then show thesis using at_end [of ?p2] l le_trans by blast
    next
      case 3 then show thesis using at_end [of ?p3] l by simp
    next
      case 4
      have "length ?p3 < length p1" using 4(3) l by (cases ?p2) simp_all
      then show thesis using one [OF n 4(1,2,4) _ refl] by blast
    qed
  qed
qed

lemma attr_step_pays:
  "attr_step xp names = Attr_Fail xp' \<Longrightarrow> pays 0 xp xp'"
  "attr_step xp names = Attr_Done xp' \<Longrightarrow> xp' = xml_skip_space xp"
  "attr_step xp names = Attr_More a v xp' \<Longrightarrow> pays (length a + length v) xp xp'"
proof -
  let ?x = "xml_skip_space xp"
  show "pays 0 xp xp'" if "attr_step xp names = Attr_Fail xp'"
    using that
  proof (cases rule: attr_step_cases)
    case (at_end q)
    then show ?thesis by (simp add: pays_def)
  next
    case (one n p1 p)
    have "length p \<le> length (xp_p ?x)" using read_name_size [OF one(1)] one(5) by simp
    then show ?thesis using attr_value_fail one(3) pays_from_space by metis
  qed simp
  show "xp' = ?x" if "attr_step xp names = Attr_Done xp'"
    using that
    by (cases rule: attr_step_cases)
      (auto simp: attr_value_step_def Let_def split: if_splits option.splits prod.splits)
  show "pays (length a + length v) xp xp'" if "attr_step xp names = Attr_More a v xp'"
    using that
  proof (cases rule: attr_step_cases)
    case (one n p1 p)
    note m = attr_value_more [OF one(3) [symmetric] one(4)]
    have "pays (length a + length v) ?x xp'"
      using m read_name_size [OF one(1)] one(5) by (simp add: pays_def)
    then show ?thesis by (rule pays_from_space)
  qed simp_all
qed

definition pairs_size :: "(cstr \<times> cstr) list \<Rightarrow> nat" where
  "pairs_size as = sum_list (map (\<lambda>(a, v). length a + length v) as)"

lemma attributes_pays:
  "xml_parse_attributes xp names = (as, xp') \<Longrightarrow> pays (case as of None \<Rightarrow> 0 | Some l \<Rightarrow> pairs_size l) xp xp'"
proof (induction xp names arbitrary: as xp' rule: xml_parse_attributes.induct)
  case (1 xp names)
  show ?case
  proof (cases "attr_step xp names")
    case (Attr_Fail xp1)
    with attr_step_pays(1) [OF Attr_Fail] 1(2) show ?thesis by (auto simp: xml_parse_attributes.simps [of xp names])
  next
    case (Attr_Done xp1)
    with attr_step_pays(2) [OF Attr_Done] 1(2) pays_space [OF pays_refl, of xp] show ?thesis
      by (auto simp: pairs_size_def xml_parse_attributes.simps [of xp names])
  next
    case (Attr_More a v xp1)
    obtain as1 xp2 where r: "xml_parse_attributes xp1 (names @ [a]) = (as1, xp2)" by fastforce
    with 1(2) Attr_More have e: "as = map_option (Cons (a, v)) as1" "xp' = xp2"
      by (auto simp: xml_parse_attributes.simps [of xp names])
    have "pays (length a + length v + (case as1 of None \<Rightarrow> 0 | Some l \<Rightarrow> pairs_size l)) xp xp2"
      by (rule pays_trans [OF attr_step_pays(3) [OF Attr_More] 1(1) [OF Attr_More r]])
    then show ?thesis
      unfolding e by (rule pays_less) (simp add: pairs_size_def split: option.split)
  qed
qed

lemma attrs_size_simps [simp]: "attrs_size [] = 0" "attrs_size (a # as) = attr_size a + attrs_size as"
  by (simp_all add: attrs_size_def)

lemma set_attr_ns_size: "attrs_size (ns_element_set_attr_ns u p l n v as) \<le> attrs_size as + length (if n \<noteq> [] then n else l) + length v"
proof -
  have "attrs_size (set_attr_ns_loop u p l n v as) \<le> attrs_size as + length n + length v" for u p l n
    by (induction u p l n v as rule: set_attr_ns_loop.induct) (auto simp: attr_size_def)
  then show ?thesis by (simp add: ns_element_set_attr_ns_def)
qed

lemma apply_attribute_size:
  assumes "apply_attribute (an, av) (as, xp) = (as', xp')"
  shows "attrs_size as' \<le> attrs_size as + length an + length av" "xp' = xp \<or> xp' = failed xp"
proof -
  show "xp' = xp \<or> xp' = failed xp"
    using assms by (auto simp: apply_attribute_def Let_def split: if_splits option.splits)
  have "as' = as \<or> (\<exists>u p l. as' = ns_element_set_attr_ns u p l an av as \<and> (an = [] \<longrightarrow> l = []))"
  proof (cases "an = []")
    case True
    then show ?thesis using assms by (auto simp: apply_attribute_def Let_def split: if_splits)
  next
    case False
    then show ?thesis using assms by (auto simp: apply_attribute_def Let_def split: if_splits option.splits)
  qed
  then show "attrs_size as' \<le> attrs_size as + length an + length av"
    using set_attr_ns_size [of _ _ _ an av as] by (force split: if_splits)
qed

lemma apply_attributes_size:
  "fold apply_attribute atts (as, xp) = (as', xp') \<Longrightarrow> attrs_size as' \<le> attrs_size as + pairs_size atts \<and> (xp' = xp \<or> xp' = failed xp)"
proof (induction atts arbitrary: as xp)
  case (Cons nv atts)
  obtain an av where nv: "nv = (an, av)" by fastforce
  obtain as1 xp1 where s: "apply_attribute (an, av) (as, xp) = (as1, xp1)" by fastforce
  have "fold apply_attribute atts (as1, xp1) = (as', xp')" using Cons.prems nv s by simp
  from Cons.IH [OF this] apply_attribute_size [OF s] nv show ?case by (auto simp: pairs_size_def failed_def)
qed (simp add: pairs_size_def)

lemma internal_cong: "strcaseeq a b \<Longrightarrow> ns_attr_name_is_internal a = ns_attr_name_is_internal b"
  by (auto simp: ns_attr_name_is_internal_def strncaseeq_def strcaseeq_def g_ascii_strdown_def take_map [symmetric])

lemma set_attr_internal_size:
  "ns_attr_name_is_internal name \<Longrightarrow> attrs_size (ns_element_set_attr name v as) \<le> attrs_size as"
proof (induction name v as rule: ns_element_set_attr.induct)
  case (2 name val a as)
  then show ?case
    using internal_cong [of "attr_name a" name] by (auto simp: attr_size_def)
qed (simp add: attr_size_def)


section \<open>Elements and content\<close>

text \<open>The stages of a successful start tag.\<close>

lemma start_tag_end_cases:
  assumes "start_tag_end qname stored flag as base xp = s"
  obtains (fails) xp' where "s = Head_Fail xp'" "pays 0 xp xp'"
  | (closed) xp' where "s = Head_Closed (Element stored flag as []) xp'" "pays 0 xp xp'"
  | (opened) xp' where "s = Head_Open qname stored flag as xp'" "pays 0 xp xp'"
proof -
  let ?x = "xml_skip_space xp"
  have p: "pays 0 xp (?x\<lparr>xp_p := q\<rparr>)" if "length q \<le> length (xp_p ?x)" for q
    using that drop_while_length [of xml_is_space "xp_p xp"] by (simp add: pays_def)
  consider "s = Head_Fail (pop_bindings base (failed (?x\<lparr>xp_p := tl (xp_p ?x)\<rparr>)))"
    | "s = Head_Closed (Element stored flag as []) (pop_bindings base (?x\<lparr>xp_p := tl (tl (xp_p ?x))\<rparr>))"
    | "s = Head_Fail (failed ?x)" | "s = Head_Open qname stored flag as (?x\<lparr>xp_p := tl (xp_p ?x)\<rparr>)"
    using assms by (auto simp: start_tag_end_def Let_def split: if_splits)
  then show thesis
  proof cases
    case 1 then show thesis using fails pays_failed [OF p [of "tl (xp_p ?x)"]] by simp
  next
    case 2 then show thesis using closed p [of "tl (tl (xp_p ?x))"] by simp
  next
    case 3 then show thesis using fails pays_failed [OF pays_space [OF pays_refl]] by blast
  next
    case 4 then show thesis using opened p [of "tl (xp_p ?x)"] by simp
  qed
qed

lemma internal_names [simp]:
  "ns_attr_name_is_internal ''data-nd-ns-prefix''" "ns_attr_name_is_internal ''data-nd-ns-uri''"
  by (code_simp, code_simp)

lemma apply_namespace_size: "attrs_size (fst (xml_apply_namespace q u)) = 0"
  by (auto simp: xml_apply_namespace_def Let_def attr_size_def split: option.splits)

definition element_of :: "cstr \<Rightarrow> cstr option \<Rightarrow> (cstr \<times> cstr) list \<Rightarrow> xml_parser \<Rightarrow> cstr \<Rightarrow> ns_flag \<Rightarrow> ns_attr list \<Rightarrow> bool" where
  "element_of qname uri atts xp stored flag as \<longleftrightarrow>
     length stored \<le> length qname \<and> xml_apply_namespace qname uri = (fst (xml_apply_namespace qname uri), flag) \<and>
     fold apply_attribute atts (fst (xml_apply_namespace qname uri), xp) = (as, xp) \<and> xp_ok xp"

lemma element_named_cases:
  assumes "element_named qname base atts xp = s"
  obtains (fails) xp' where "s = Head_Fail xp'" "pays 0 xp xp'"
  | (closed) uri stored flag as xp' where "s = Head_Closed (Element stored flag as []) xp'" "pays 0 xp xp'"
      "element_of qname uri atts xp stored flag as"
  | (opened) uri stored flag as xp' where "s = Head_Open qname stored flag as xp'" "pays 0 xp xp'"
      "element_of qname uri atts xp stored flag as"
proof -
  define colon where "colon = strchr qname CHR '':''"
  define uri where "uri = xml_lookup_prefix xp (map_option (text_between qname) colon)"
  define stored where "stored = (case colon of None \<Rightarrow> qname | Some c \<Rightarrow> if uri = Some XML_NS_XHTML then tl c else qname)"
  obtain as0 flag where n: "xml_apply_namespace qname uri = (as0, flag)" by fastforce
  obtain as xp1 where f: "fold apply_attribute atts (as0, xp) = (as, xp1)" by fastforce
  note f' = apply_attributes_size [OF f]
  have l: "length stored \<le> length qname"
    by (auto simp: stored_def colon_def split: option.splits dest: strchr_length)
  have s: "s = (if colon \<noteq> None \<and> uri = None then Head_Fail (pop_bindings base (failed xp))
     else if \<not> xp_ok xp1 then Head_Fail (pop_bindings base xp1) else start_tag_end qname stored flag as base xp1)"
    using assms [unfolded element_named_def Let_def, folded colon_def, folded uri_def, folded stored_def, unfolded n prod.case f]
    by (rule sym)
  show thesis
  proof (cases "colon \<noteq> None \<and> uri = None \<or> \<not> xp_ok xp1")
    case True
    have "pays 0 xp xp1" using f' pays_failed [OF pays_refl] by auto
    then show thesis using True s fails pays_failed [OF pays_refl, of xp] by (cases "colon \<noteq> None \<and> uri = None") auto
  next
    case False
    then have x: "xp1 = xp" "xp_ok xp" using f' by auto
    then have e: "element_of qname uri atts xp stored flag as" using l n f by (simp add: element_of_def)
    have "start_tag_end qname stored flag as base xp = s" using False s x by auto
    then show thesis
      by (cases rule: start_tag_end_cases) (use fails closed opened e in blast)+
  qed
qed


lemma element_of_size: "element_of q u atts xp stored flag as \<Longrightarrow> length stored + attrs_size as \<le> length q + pairs_size atts"
  using apply_attributes_size [of atts "fst (xml_apply_namespace q u)" xp as xp] apply_namespace_size [of q u]
  by (auto simp: element_of_def)

text \<open>A step that also shortens the input.\<close>

definition shorter :: "nat \<Rightarrow> xml_parser \<Rightarrow> xml_parser \<Rightarrow> bool" where
  "shorter k xp xp' \<longleftrightarrow> pays k xp xp' \<and> length (xp_p xp') < length (xp_p xp)"

definition clean_head :: "cstr \<Rightarrow> ns_flag \<Rightarrow> ns_attr list \<Rightarrow> bool" where
  "clean_head stored flag as \<longleftrightarrow> (\<exists>q u atts xp. element_of q u atts xp stored flag as)"

lemma element_head_cases:
  assumes "element_head xp depth = s" "xp_p xp \<noteq> []"
  obtains (fails) xp' where "s = Head_Fail xp'" "pays 0 xp xp'"
  | (closed) stored flag as xp' where "s = Head_Closed (Element stored flag as []) xp'" "depth \<le> XML_MAX_DEPTH"
      "shorter (length stored + attrs_size as) xp xp'" "clean_head stored flag as"
  | (opened) q stored flag as xp' where "s = Head_Open q stored flag as xp'" "depth \<le> XML_MAX_DEPTH"
      "shorter (length stored + attrs_size as) xp xp'" "clean_head stored flag as"
proof (cases "depth > XML_MAX_DEPTH")
  case True
  then have "s = Head_Fail (failed xp)" using assms(1) by (simp add: element_head_def)
  then show thesis using fails pays_failed [OF pays_refl] by blast
next
  case depth: False
  let ?x = "xp\<lparr>xp_p := tl (xp_p xp)\<rparr>"
  have x: "shorter 0 xp ?x" using assms(2) by (simp add: shorter_def pays_def)
  have after: "shorter k xp b" if "pays k ?x b" for k b
  proof -
    have "pays (0 + k) xp b" using x that pays_trans unfolding shorter_def by blast
    moreover have "length (xp_p b) < length (xp_p xp)" using x that by (simp add: shorter_def pays_def)
    ultimately show ?thesis by (simp add: shorter_def)
  qed
  have weak: "pays 0 xp b" if "pays k ?x b" for k b
    using after [OF that] pays_less unfolding shorter_def by blast
  show thesis
  proof (cases "read_name_at (xp_p ?x)")
    case None
    then have "s = Head_Fail (failed ?x)" using assms(1) depth by (simp add: element_head_def xml_read_name_def)
    then show thesis using fails weak [OF pays_failed [OF pays_refl]] by blast
  next
    case (Some nr)
    then obtain q r where r: "read_name_at (xp_p ?x) = Some (q, r)" by fastforce
    let ?y = "xp\<lparr>xp_p := r\<rparr>"
    have y: "pays (length q) ?x ?y" using read_name_size [OF r] by (simp add: pays_def)
    obtain at xp2 where a: "xml_parse_attributes ?y [] = (at, xp2)" by fastforce
    note ap = attributes_pays [OF a]
    have s1: "s = Head_Fail (failed ?y)" if "\<not> xml_qname_valid q \<or> g_str_has_prefix q ''xmlns:''"
      using assms(1) depth r that by (auto simp: element_head_def xml_read_name_def)
    have s2: "s = (case at of None \<Rightarrow> Head_Fail xp2 | Some atts \<Rightarrow> element_named q (length (ns_stack xp)) atts xp2)"
      if "\<not> (\<not> xml_qname_valid q \<or> g_str_has_prefix q ''xmlns:'')"
      using assms(1) depth r that by (cases at) (simp_all add: element_head_def xml_read_name_def a)
    show thesis
    proof (cases "\<not> xml_qname_valid q \<or> g_str_has_prefix q ''xmlns:''")
      case True
      then show thesis using s1 [OF True] fails weak [OF pays_failed [OF y]] by simp
    next
      case q: False
      show thesis
      proof (cases at)
        case None
        then show thesis using s2 [OF q] fails weak [OF pays_trans [OF y]] ap by simp
      next
        case (Some atts)
        have "element_named q (length (ns_stack xp)) atts xp2 = s" using s2 [OF q] Some by simp
        moreover have xp2: "pays (length q + pairs_size atts) ?x xp2" using pays_trans [OF y ap] Some by simp
        have fin: "shorter (length stored + attrs_size as) xp xp'" "clean_head stored flag as"
          if "pays 0 xp2 xp'" "element_of q uri atts xp2 stored flag as" for uri stored flag as xp'
          using that element_of_size [OF that(2)] pays_less [OF pays_trans [OF xp2 that(1)]] after
          by (auto simp: clean_head_def)
        from calculation show thesis
        proof (cases rule: element_named_cases)
          case (fails xp')
          then show thesis using that(1) weak [OF pays_trans [OF xp2 fails(2)]] by blast
        next
          case (closed uri stored flag as xp')
          then show thesis using that(2) [OF closed(1) _ fin [OF closed(2,3)]] depth by simp
        next
          case (opened uri stored flag as xp')
          then show thesis using that(3) [OF opened(1) _ fin [OF opened(2,3)]] depth by simp
        qed
      qed
    qed
  qed
qed


definition leaf :: "ns_node \<Rightarrow> bool" where
  "leaf n \<longleftrightarrow> (case n of Element nm f as ks \<Rightarrow> False | Doctype nm p s \<Rightarrow> False | _ \<Rightarrow> True)"

lemma leaf_pi: "leaf (pi_node t)"
  by (simp add: leaf_def pi_node_def)

lemma end_tag_pays: "pays 0 xp (end_tag xp qname)"
proof -
  let ?x = "xp\<lparr>xp_p := drop 2 (xp_p xp)\<rparr>"
  obtain en x1 where r: "xml_read_name ?x = (en, x1)" by fastforce
  have x1: "pays 0 xp x1"
    using r read_name_size [of "drop 2 (xp_p xp)"] by (auto simp: xml_read_name_def pays_def split: option.splits)
  let ?s = "xml_skip_space x1"
  have s: "pays 0 xp ?s" "pays 0 xp (?s\<lparr>xp_p := tl (xp_p ?s)\<rparr>)"
    using pays_space [OF x1] by (auto simp: pays_def)
  define x3 where "x3 = (if xp_p ?s \<noteq> [] \<and> hd (xp_p ?s) = CHR ''>'' then ?s\<lparr>xp_p := tl (xp_p ?s)\<rparr> else failed ?s)"
  define x4 where "x4 = (case en of None \<Rightarrow> x3 | Some n \<Rightarrow> if xml_qname_valid n then x3 else failed x3)"
  have "end_tag xp qname = (if en = Some qname then x4 else failed x4)"
    unfolding end_tag_def x4_def x3_def r Let_def prod.case by (rule refl)
  moreover have "pays 0 xp x3" using s pays_failed by (simp add: x3_def)
  moreover have "pays 0 xp x3 \<Longrightarrow> pays 0 xp x4" using pays_failed by (simp add: x4_def split: option.split)
  ultimately show ?thesis using pays_failed by simp
qed

lemma delimited_cases:
  assumes "delimited xp n d f = s" "\<And>t. node_size (f t) \<le> length t" "\<And>t. leaf (f t)" "n > 0" "xp_p xp \<noteq> []"
  obtains (stops) xp' where "s = Content_Stop xp'" "pays 0 xp xp'"
  | (node) m xp' where "s = Content_Node m xp'" "shorter (node_size m) xp xp'" "leaf m"
proof (cases "up_to d (drop n (xp_p xp))")
  case None
  with assms(1) have "s = Content_Stop (failed xp)" by (simp add: delimited_def)
  then show thesis using stops pays_failed [OF pays_refl] by blast
next
  case (Some tr)
  then obtain t r where t: "up_to d (drop n (xp_p xp)) = Some (t, r)" by (cases tr) simp
  then have "s = Content_Node (f t) (xp\<lparr>xp_p := r\<rparr>)" using assms(1) by (simp add: delimited_def)
  moreover have "length (drop n (xp_p xp)) < length (xp_p xp)" using assms(4,5) by (cases "xp_p xp") auto
  then have "length r < length (xp_p xp)" using up_to_length [OF t] by simp
  ultimately show thesis using node pays_up_to [OF t assms(2)] assms(3) by (simp add: shorter_def)
qed

lemma content_step_cases:
  assumes "content_step xp qname = s"
  obtains (stops) xp' where "s = Content_Stop xp'" "pays 0 xp xp'"
  | (node) m xp' where "s = Content_Node m xp'" "shorter (node_size m) xp xp'" "leaf m"
  | (child) "s = Content_Element" "xp_p xp \<noteq> []" "hd (xp_p xp) = CHR ''<''"
proof (cases "\<not> xp_ok xp \<or> xp_p xp = []")
  case True
  then have "s = Content_Stop xp \<or> s = Content_Stop (failed xp)" using assms by (auto simp: content_step_def Let_def)
  then show thesis using stops pays_failed [OF pays_refl] pays_refl by blast
next
  case False
  then have ne: "xp_p xp \<noteq> []" by simp
  show thesis
  proof (cases "hd (xp_p xp) = CHR ''<''")
    case True
    consider "s = Content_Stop (end_tag xp qname)" | "delimited xp 4 ''-->'' (\<lambda>t. Comment (c_string t)) = s"
      | "delimited xp 9 '']]>'' (\<lambda>t. Text (c_string t) True) = s" | "delimited xp 2 ''?>'' pi_node = s" | "s = Content_Element"
      using assms False True by (auto simp: content_step_def Let_def split: if_splits)
    then show thesis
    proof cases
      case 1 then show thesis using stops end_tag_pays by blast
    next
      case 2 then show thesis by (rule delimited_cases) (use stops node ne in \<open>auto simp: c_string_length leaf_def\<close>)
    next
      case 3 then show thesis by (rule delimited_cases) (use stops node ne in \<open>auto simp: c_string_length leaf_def\<close>)
    next
      case 4 then show thesis by (rule delimited_cases) (use stops node ne pi_node_size leaf_pi in auto)
    next
      case 5 then show thesis using child ne True by blast
    qed
  next
    case chars: False
    let ?P = "\<lambda>c. c \<noteq> CHR ''<''"
    obtain t x1 where d: "xml_decode_text xp (takeWhile ?P (xp_p xp)) = (t, x1)" by fastforce
    have s: "s = Content_Node (Text t False) (x1\<lparr>xp_p := dropWhile ?P (xp_p xp)\<rparr>)"
      using assms False chars d by (simp add: content_step_def Let_def)
    have "length (takeWhile ?P (xp_p xp)) + length (dropWhile ?P (xp_p xp)) = length (xp_p xp)"
      by (metis length_append takeWhile_dropWhile_id)
    moreover have "length (takeWhile ?P (xp_p xp)) > 0" using ne chars by (cases "xp_p xp") auto
    moreover from calculation have "length (dropWhile ?P (xp_p xp)) < length (xp_p xp)" by linarith
    ultimately have "shorter (length t) xp (x1\<lparr>xp_p := dropWhile ?P (xp_p xp)\<rparr>)"
      using decode_kept [OF d] by (simp add: shorter_def pays_def)
    then show thesis using node s by (simp add: leaf_def)
  qed
qed


section \<open>Trees\<close>

text \<open>The elements on the longest way down.\<close>

fun height :: "ns_node \<Rightarrow> nat" where
  "height (Element name flag as kids) = Suc (Max (insert 0 (set (map height kids))))"
| "height _ = 0"

text \<open>Every element of a tree satisfies \<open>P\<close>.\<close>

fun elements_satisfy :: "(cstr \<Rightarrow> ns_flag \<Rightarrow> ns_attr list \<Rightarrow> bool) \<Rightarrow> ns_node \<Rightarrow> bool" where
  "elements_satisfy P (Element name flag as kids) = (P name flag as \<and> list_all (elements_satisfy P) kids)"
| "elements_satisfy P _ = True"

definition content_good :: "nat \<Rightarrow> xml_parser \<Rightarrow> ns_node list \<times> xml_parser \<Rightarrow> bool" where
  "content_good depth xp r \<longleftrightarrow>
     (case r of (ns, xp') \<Rightarrow>
        pays (nodes_size ns) xp xp' \<and> list_all (elements_satisfy clean_head) ns \<and>
        (\<forall>n\<in>set ns. height n \<le> XML_MAX_DEPTH - depth))"

lemma leaf_good: "leaf m \<Longrightarrow> elements_satisfy P m" "leaf m \<Longrightarrow> height m = 0"
  by (cases m; simp add: leaf_def)+

lemma content_good_cons:
  assumes "shorter k xp xp1" "content_good depth xp1 (ns, xp2)" "node_size n \<le> k"
    "elements_satisfy clean_head n" "height n \<le> XML_MAX_DEPTH - depth"
  shows "content_good depth xp (n # ns, xp2)"
  using assms pays_less [OF pays_trans [of k xp xp1 "nodes_size ns" xp2], of "node_size n + nodes_size ns"]
  by (auto simp: content_good_def shorter_def)

lemma height_element:
  assumes "\<And>k. k \<in> set kids \<Longrightarrow> height k \<le> m"
  shows "height (Element name flag as kids) \<le> Suc m"
  using assms by auto

lemma nodes_size_element: "node_size (Element name flag as kids) = length name + attrs_size as + nodes_size kids"
  by (simp add: nodes_size_def)

lemma parse_content_good: "\<exists>r. parse_content xp qname depth = Some r \<and> content_good depth xp r"
proof (induction xp arbitrary: qname depth rule: measure_induct_rule [where f = "\<lambda>xp. length (xp_p xp)"])
  case (less xp)
  have step: "\<exists>r. Option.bind (parse_content xp1 qname depth) (\<lambda>(ns, xp2). Some (n # ns, xp2)) = Some r \<and> content_good depth xp r"
    if "shorter k xp xp1" "node_size n \<le> k" "elements_satisfy clean_head n" "height n \<le> XML_MAX_DEPTH - depth" for k n xp1
  proof -
    note sh = that(1)
    obtain ns xp2 where r: "parse_content xp1 qname depth = Some (ns, xp2)" "content_good depth xp1 (ns, xp2)"
      using less.IH [of xp1 qname depth] sh unfolding shorter_def by (metis surj_pair)
    show ?thesis using content_good_cons [OF that(1) r(2) that(2-4)] r(1) by simp
  qed
  have stop: "content_good depth xp ([], xp')" if "pays 0 xp xp'" for xp'
    using that by (simp add: content_good_def)
  show ?case
  proof (cases rule: content_step_cases [OF refl, of xp qname])
    case (1 xp')
    then show ?thesis using stop by (simp add: parse_content.simps [of xp])
  next
    case (2 m xp')
    then show ?thesis using step [OF 2(2) le_refl] leaf_good [OF 2(3)] by (simp add: parse_content.simps [of xp])
  next
    case 3
    show ?thesis
    proof (cases rule: element_head_cases [OF refl 3(2), of "depth + 1"])
      case (1 xp')
      then show ?thesis using stop 3 by (simp add: parse_content.simps [of xp])
    next
      case (2 stored flag as xp')
      have "node_size (Element stored flag as []) \<le> length stored + attrs_size as" by simp
      from step [OF 2(3) this] 2 3 show ?thesis by (simp add: parse_content.simps [of xp])
    next
      case (3 q stored flag as xp1)
      note open_step = 3
      obtain kids xp2 where k: "parse_content xp1 q (depth + 1) = Some (kids, xp2)" "content_good (depth + 1) xp1 (kids, xp2)"
        using less.IH [of xp1 q "depth + 1"] open_step(3) unfolding shorter_def by (metis surj_pair)
      let ?e = "Element stored flag as kids" and ?y = "pop_bindings (length (ns_stack xp)) xp2"
      have "pays (length stored + attrs_size as) xp xp1" "pays (nodes_size kids) xp1 xp2"
        using k(2) open_step(3) by (simp_all add: content_good_def shorter_def)
      from pays_trans [OF this] have "pays (length stored + attrs_size as + nodes_size kids) xp xp2" .
      then have "shorter (node_size ?e) xp ?y"
        using k(2) open_step(3) by (auto simp: content_good_def shorter_def nodes_size_element pays_def simp del: node_size.simps)
      moreover have "elements_satisfy clean_head ?e" using k(2) open_step(4) by (simp add: content_good_def)
      moreover have "height ?e \<le> Suc (XML_MAX_DEPTH - (depth + 1))"
        by (rule height_element) (use k(2) in \<open>auto simp: content_good_def\<close>)
      then have "height ?e \<le> XML_MAX_DEPTH - depth" using open_step(2) by (simp del: height.simps)
      ultimately show ?thesis
        using step [of _ ?y ?e] k(1) open_step(1) \<open>content_step xp qname = Content_Element\<close>
        by (simp add: parse_content.simps [of xp])
    qed
  qed
qed


section \<open>The browser's own attributes\<close>

definition private_attrs :: "ns_attr list \<Rightarrow> ns_attr list" where
  "private_attrs as = filter (\<lambda>a. ns_attr_name_is_internal (attr_name a)) as"

text \<open>
  The attributes the browser keeps state in are the parser's two at most, each once; and no other attribute has
  a local name of that kind behind a prefix.
\<close>

definition own_attributes :: "ns_attr list \<Rightarrow> bool" where
  "own_attributes as \<longleftrightarrow>
     distinct (map attr_name (private_attrs as)) \<and>
     set (map attr_name (private_attrs as)) \<subseteq> {''data-nd-ns-prefix'', ''data-nd-ns-uri''} \<and>
     (\<forall>a\<in>set as. \<not> ns_attr_name_is_internal (attr_name a) \<longrightarrow> \<not> ns_attr_name_is_internal (ns_attr_local_name a))"

definition private_local :: "ns_attr list \<Rightarrow> bool" where
  "private_local as \<longleftrightarrow> (\<forall>a\<in>set as. ns_attr_name_is_internal (ns_attr_local_name a) = ns_attr_name_is_internal (attr_name a))"

lemma set_attr_ns_private:
  assumes "\<not> ns_attr_name_is_internal l" "\<not> ns_attr_name_is_internal n" "private_local as"
  shows "private_attrs (ns_element_set_attr_ns u p l n v as) = private_attrs as \<and> private_local (ns_element_set_attr_ns u p l n v as)"
proof -
  have "private_attrs (set_attr_ns_loop u p l n' v as) = private_attrs as \<and> private_local (set_attr_ns_loop u p l n' v as)"
    if "\<not> ns_attr_name_is_internal n'" for u p n'
    using assms(1,3) that
  proof (induction u p l n' v as rule: set_attr_ns_loop.induct)
    case (2 uri pfx loc name val a as)
    then show ?case by (auto simp: private_attrs_def private_local_def ns_attr_matches_ns_def ns_attr_local_name_def)
  qed (simp add: private_attrs_def private_local_def ns_attr_local_name_def)
  from this [of "if n \<noteq> [] then n else l"] assms(1,2) show ?thesis by (simp add: ns_element_set_attr_ns_def)
qed

lemma xmlns_not_internal [simp]: "\<not> ns_attr_name_is_internal ''xmlns''" by code_simp

lemma apply_attribute_private:
  assumes "apply_attribute nv (as, xp) = (as', xp')" "private_local as"
  shows "private_attrs as' = private_attrs as \<and> private_local as'"
proof -
  obtain an av where nv: "nv = (an, av)" by fastforce
  have "as' = as \<or> (\<exists>u p l. as' = ns_element_set_attr_ns u p l an av as \<and>
      \<not> ns_attr_name_is_internal an \<and> \<not> ns_attr_name_is_internal l)"
    using assms(1)
    by (auto simp: nv apply_attribute_def Let_def split: if_splits option.splits) (use xmlns_not_internal in blast)
  then show ?thesis using set_attr_ns_private assms(2) by blast
qed

lemma apply_attributes_private:
  "fold apply_attribute atts (as, xp) = (as', xp') \<Longrightarrow> private_local as \<Longrightarrow> private_attrs as' = private_attrs as \<and> private_local as'"
proof (induction atts arbitrary: as xp)
  case (Cons nv atts)
  obtain as1 xp1 where s: "apply_attribute nv (as, xp) = (as1, xp1)" by fastforce
  with apply_attribute_private [OF s Cons.prems(2)] Cons.IH [of as1 xp1] Cons.prems(1) show ?case by simp
qed simp

lemma namespace_attrs:
  "map attr_name (fst (xml_apply_namespace q u)) \<in> {[], [''data-nd-ns-prefix''], [''data-nd-ns-uri''], [''data-nd-ns-prefix'', ''data-nd-ns-uri'']}
   \<and> private_local (fst (xml_apply_namespace q u)) \<and> private_attrs (fst (xml_apply_namespace q u)) = fst (xml_apply_namespace q u)"
proof -
  have "\<not> strcaseeq ''data-nd-ns-prefix'' ''data-nd-ns-uri''" by code_simp
  then show ?thesis
    by (auto simp: xml_apply_namespace_def Let_def private_local_def private_attrs_def ns_attr_local_name_def split: option.splits)
qed

lemma clean_head_own: "clean_head stored flag as \<Longrightarrow> own_attributes as"
proof -
  assume "clean_head stored flag as"
  then obtain q u atts xp where "element_of q u atts xp stored flag as" by (auto simp: clean_head_def)
  then have f: "fold apply_attribute atts (fst (xml_apply_namespace q u), xp) = (as, xp)" by (simp add: element_of_def)
  from apply_attributes_private [OF f] namespace_attrs [of q u]
  have p: "private_attrs as = fst (xml_apply_namespace q u)" "private_local as" by auto
  have "distinct (map attr_name (private_attrs as))" "set (map attr_name (private_attrs as)) \<subseteq> {''data-nd-ns-prefix'', ''data-nd-ns-uri''}"
    using namespace_attrs [of q u] unfolding p(1) by fastforce+
  then show ?thesis using p(2) by (auto simp: own_attributes_def private_local_def)
qed

lemma elements_satisfy_mono:
  "(\<And>s f as. P s f as \<Longrightarrow> Q s f as) \<Longrightarrow> elements_satisfy P n \<Longrightarrow> elements_satisfy Q n"
  by (induction n) (auto simp: list_all_iff)


section \<open>Documents\<close>

definition document_good :: "cstr \<Rightarrow> ns_node list \<Rightarrow> bool" where
  "document_good s doc \<longleftrightarrow>
     nodes_size doc \<le> length s + XML_MAX_ENTITY_EXPANSION \<and> list_all (elements_satisfy (\<lambda>n f. own_attributes)) doc \<and>
     (\<forall>n\<in>set doc. height n \<le> XML_MAX_DEPTH + 1)"

lemma misc_leaves: "xml_skip_misc_and_doctype xp = (ns, xp') \<Longrightarrow> \<forall>n\<in>set ns. elements_satisfy P n \<and> height n = 0"
proof (induction xp arbitrary: ns xp' rule: xml_skip_misc_and_doctype.induct)
  case (1 xp)
  show ?case
  proof (cases "misc_step xp")
    case (Misc_More ns1 xp1)
    obtain ms xp2 where m: "xml_skip_misc_and_doctype xp1 = (ms, xp2)" by fastforce
    then have "ns = ns1 @ ms" using 1(2) Misc_More by (simp add: xml_skip_misc_and_doctype.simps [of xp])
    moreover have "\<forall>n\<in>set ns1. elements_satisfy P n \<and> height n = 0"
      using Misc_More
      by (auto simp: misc_step_def Let_def pi_node_def doctype_node_def split: if_splits option.splits prod.splits)
    ultimately show ?thesis using 1(1) [OF Misc_More m] by auto
  qed (use 1 in \<open>auto simp: xml_skip_misc_and_doctype.simps [of xp]\<close>)
qed

lemma parse_element_good:
  assumes "xp_p xp \<noteq> []"
  shows "\<exists>ns xp'. xml_parse_element xp 0 = Some (ns, xp') \<and> pays (nodes_size ns) xp xp' \<and>
     (\<forall>n\<in>set ns. elements_satisfy clean_head n \<and> height n \<le> XML_MAX_DEPTH + 1)"
proof (cases rule: element_head_cases [OF refl assms, of 0])
  case (1 xp')
  then show ?thesis by (simp add: xml_parse_element_def)
next
  case (2 stored flag as xp')
  then show ?thesis by (simp add: xml_parse_element_def shorter_def)
next
  case (3 q stored flag as xp1)
  obtain kids xp2 where k: "parse_content xp1 q 0 = Some (kids, xp2)" "content_good 0 xp1 (kids, xp2)"
    using parse_content_good [of xp1 q 0] by (metis surj_pair)
  have "pays (length stored + attrs_size as) xp xp1" "pays (nodes_size kids) xp1 xp2"
    using k(2) 3(3) by (simp_all add: content_good_def shorter_def)
  from pays_trans [OF this] have "pays (nodes_size [Element stored flag as kids]) xp xp2"
    by (simp add: nodes_size_def)
  moreover have "height (Element stored flag as kids) \<le> Suc XML_MAX_DEPTH"
    by (rule height_element) (use k(2) in \<open>auto simp: content_good_def\<close>)
  ultimately show ?thesis
    using 3 k by (simp add: xml_parse_element_def content_good_def del: height.simps)
qed

lemma parse_document_good:
  "\<exists>doc xp'. parse_document xp = Some (doc, xp') \<and> pays (nodes_size doc) xp xp' \<and>
     (\<forall>n\<in>set doc. elements_satisfy clean_head n \<and> height n \<le> XML_MAX_DEPTH + 1)"
proof -
  obtain before xp1 where m: "xml_skip_misc_and_doctype xp = (before, xp1)" by fastforce
  note mp = misc_pays [OF m] and ml = misc_leaves [OF m, of clean_head]
  show ?thesis
  proof (cases "xp_p xp1 = [] \<or> hd (xp_p xp1) \<noteq> CHR ''<''")
    case True
    then have "parse_document xp = Some (before, failed xp1)" using m by (simp add: parse_document_def)
    then show ?thesis using pays_failed [OF mp] ml by auto
  next
    case False
    obtain root xp2 where r: "xml_parse_element xp1 0 = Some (root, xp2)" "pays (nodes_size root) xp1 xp2"
        "\<forall>n\<in>set root. elements_satisfy clean_head n \<and> height n \<le> XML_MAX_DEPTH + 1"
      using parse_element_good [of xp1] False by blast
    note mr = pays_trans [OF mp r(2)]
    obtain af xp3 where a: "xml_skip_misc_and_doctype xp2 = (af, xp3)" by fastforce
    note ap = pays_trans [OF mr misc_pays [OF a]] and al = misc_leaves [OF a, of clean_head]
    show ?thesis
    proof (cases "xp_ok xp2")
      case False2: False
      then have "parse_document xp = Some (before @ root, xp2)" using m False r(1) by (simp add: parse_document_def)
      then show ?thesis using mr ml r(3) by (auto simp: add.commute)
    next
      case True
      then have "parse_document xp = Some (before @ root @ af, if xp_ok xp3 \<and> xp_p xp3 \<noteq> [] then failed xp3 else xp3)"
        using m False r(1) a by (simp add: parse_document_def)
      then show ?thesis using ap pays_failed [OF ap] ml al r(3) by (auto simp: add.assoc)
    qed
  qed
qed

lemma attr_step_not_ok: "attr_step xp names = Attr_Fail xp' \<Longrightarrow> \<not> xp_ok xp'"
  by (auto simp: attr_step_def attr_value_step_def Let_def split: if_splits option.splits prod.splits)

lemma attributes_not_ok: "xml_parse_attributes xp names = (None, xp') \<Longrightarrow> \<not> xp_ok xp'"
proof (induction xp names arbitrary: xp' rule: xml_parse_attributes.induct)
  case (1 xp names)
  then show ?case
    by (auto simp: xml_parse_attributes.simps [of xp names] dest: attr_step_not_ok split: attr_step.splits prod.splits)
qed

lemma element_head_not_ok: "element_head xp depth = Head_Fail xp' \<Longrightarrow> \<not> xp_ok xp'"
  by (auto simp: element_head_def element_named_def start_tag_end_def Let_def
      split: if_splits option.splits prod.splits dest: attributes_not_ok)

lemma parse_document_nonempty:
  assumes "parse_document xp = Some (doc, xp')" "xp_ok xp'"
  shows "doc \<noteq> []"
proof -
  obtain before xp1 where m: "xml_skip_misc_and_doctype xp = (before, xp1)" by fastforce
  obtain root xp2 where r: "xml_parse_element xp1 0 = Some (root, xp2)" "xp_ok xp2" "\<forall>n\<in>set root. n \<in> set doc"
    using assms m by (auto simp: parse_document_def bind_eq_Some_conv split: if_splits prod.splits)
  have "root \<noteq> []"
    using r(1,2) element_head_not_ok [of xp1 0]
    by (auto simp: xml_parse_element_def bind_eq_Some_conv split: head_step.splits)
  with r(3) show ?thesis by (cases root) auto
qed

lemma init_simps [simp]:
  "expanded (xml_parser_init s) = 0" "xp_ok (xml_parser_init s)" "ns_stack (xml_parser_init s) = []"
  by (simp_all add: xml_parser_init_def)

lemma init_length: "length (xp_p (xml_parser_init s)) \<le> length s"
  by (simp add: xml_parser_init_def)

lemma reporting_good:
  "\<exists>r. ns_xml_parse_reporting input = Some r \<and> (\<forall>doc s. r = Inr doc \<longrightarrow> input = Some s \<longrightarrow> document_good s doc)"
proof (cases input)
  case (Some s)
  obtain doc xp where p: "parse_document (xml_parser_init s) = Some (doc, xp)" "pays (nodes_size doc) (xml_parser_init s) xp"
      "\<forall>n\<in>set doc. elements_satisfy clean_head n \<and> height n \<le> XML_MAX_DEPTH + 1"
    using parse_document_good by blast
  have "nodes_size doc \<le> length s + XML_MAX_ENTITY_EXPANSION"
    using p(2) init_length [of s] by (simp add: pays_def xp_kept_def)
  moreover have "list_all (elements_satisfy (\<lambda>n f. own_attributes)) doc"
    using p(3) elements_satisfy_mono [of clean_head "\<lambda>n f. own_attributes"] clean_head_own by (auto simp: list_all_iff)
  ultimately have "document_good s doc" using p(3) by (simp add: document_good_def)
  then show ?thesis using Some p(1) by (auto simp: ns_xml_parse_reporting_def)
qed (simp add: ns_xml_parse_reporting_def)


lemma offset_fold: "fold line_column_step t (l, c) = (l + length (filter (\<lambda>d. d = CHR 0x0A) t),
   if CHR 0x0A \<in> set t then Suc (length (takeWhile (\<lambda>d. d \<noteq> CHR 0x0A) (rev t))) else c + length t)"
proof (induction t arbitrary: l c)
  case (Cons d t)
  then show ?case by (auto simp: line_column_step_def takeWhile_append)
qed simp

lemma offset_line_column:
  "xml_offset_to_line_column s k =
     (1 + length (filter (\<lambda>d. d = CHR 0x0A) (take k s)), 1 + length (takeWhile (\<lambda>d. d \<noteq> CHR 0x0A) (rev (take k s))))"
proof (cases "CHR 0x0A \<in> set (take k s)")
  case True
  then show ?thesis unfolding xml_offset_to_line_column_def offset_fold [of "take k s"] by simp
next
  case False
  then have t: "takeWhile (\<lambda>d. d \<noteq> CHR 0x0A) (rev (take k s)) = rev (take k s)"
    by (simp only: takeWhile_eq_all_conv set_rev) blast
  show ?thesis
    unfolding xml_offset_to_line_column_def offset_fold [of "take k s"] t using False by simp
qed

section \<open>What the parser accepts\<close>

text \<open>
  Four departures from XML: the last of two declarations of an entity holds; a reference may have a sign, white
  space or \<^verbatim>\<open>0x\<close> before its digits and a doctype may follow the root; attributes need no space between
  them, and of two with one expanded name the second value is kept.
\<close>

lemma last_entity_wins:
  "ns_xml_parse_reporting (Some (''<!DOCTYPE r [<!ENTITY e 'v'><!ENTITY e 'w'>]><r>&e;</r>'')) =
     Some (Inr [Doctype ''r'' [] [], Element ''r'' FOREIGN_NS [] [Text ''w'' False]])"
  by code_simp

lemma lenient_references:
  "ns_xml_parse_reporting (Some (''<r>&#+65;&#x0x41;&# 65;</r><!DOCTYPE z>'')) =
     Some (Inr [Element ''r'' FOREIGN_NS [] [Text ''AAA'' False], Doctype ''z'' [] []])"
  by code_simp

lemma duplicate_attribute:
  "ns_xml_parse_reporting (Some (''<r xmlns:a='u' xmlns:b='u'a:x='1' b:x='2'/>'')) = Some (Inr
     [Element ''r'' FOREIGN_NS
       [\<lparr>attr_name = ''xmlns:a'', attr_value = ''u'', namespace_uri = Some XML_NS_XMLNS, attr_prefix = Some ''xmlns'', local_name = Some ''a''\<rparr>,
        \<lparr>attr_name = ''xmlns:b'', attr_value = ''u'', namespace_uri = Some XML_NS_XMLNS, attr_prefix = Some ''xmlns'', local_name = Some ''b''\<rparr>,
        \<lparr>attr_name = ''a:x'', attr_value = ''2'', namespace_uri = Some ''u'', attr_prefix = Some ''a'', local_name = Some ''x''\<rparr>] []])"
  by code_simp

section \<open>Properties\<close>

text \<open>
  C7: The parser returns on every input, whatever its nesting, its entities and where it breaks off: with a
  document or with the line and the column of the failure, which are those of a point in the input (one more than
  the newlines before the point, and than the characters since the last of them).
\<close>

theorem xml_parse_returns:
  "\<exists>r. ns_xml_parse_reporting (Some s) = Some r \<and>
     (case r of
        Inr doc \<Rightarrow> doc \<noteq> []
      | Inl lc \<Rightarrow>
          (\<exists>k. lc = (1 + length (filter (\<lambda>d. d = CHR 0x0A) (take k s)),
                    1 + length (takeWhile (\<lambda>d. d \<noteq> CHR 0x0A) (rev (take k s))))))"
proof -
  obtain doc xp where p: "parse_document (xml_parser_init s) = Some (doc, xp)"
    using parse_document_good by blast
  have "doc \<noteq> []" if "xp_ok xp"
    using p that parse_document_nonempty by blast
  then show ?thesis
    using p offset_line_column [of s "length s - length (xp_p xp)"]
    by (auto simp: ns_xml_parse_reporting_def)
qed

text \<open>
  C8: Markup cannot supply the attributes the browser keeps its own state in: of the attributes of a parsed
  document with a name in \<^verbatim>\<open>data-nd-\<close>, in whatever case, only the parser's two are there, each at most once
  in an element, and no attribute has such a local name behind a prefix.
\<close>

theorem xml_private_attributes:
  assumes "ns_xml_parse_reporting (Some s) = Some (Inr doc)"
  shows "list_all (elements_satisfy (\<lambda>name flag. own_attributes)) doc"
  using assms reporting_good [of "Some s"] by (auto simp: document_good_def)

theorem xml_private_attributes_witness:
  "list_all (elements_satisfy (\<lambda>name flag. own_attributes))
     [Element ''a:r'' FOREIGN_NS
       [\<lparr>attr_name = ''data-nd-ns-prefix'', attr_value = ''a'', namespace_uri = None, attr_prefix = None, local_name = None\<rparr>,
        \<lparr>attr_name = ''data-nd-ns-uri'', attr_value = ''u'', namespace_uri = None, attr_prefix = None, local_name = None\<rparr>,
        \<lparr>attr_name = ''xmlns:a'', attr_value = ''u'', namespace_uri = Some XML_NS_XMLNS, attr_prefix = Some ''xmlns'', local_name = Some ''a''\<rparr>] []]"
proof (rule xml_private_attributes)
  show "ns_xml_parse_reporting (Some ''<a:r xmlns:a='u' data-nd-ns-uri='x' a:Data-ND-y='z'/>'') = Some (Inr
     [Element ''a:r'' FOREIGN_NS
       [\<lparr>attr_name = ''data-nd-ns-prefix'', attr_value = ''a'', namespace_uri = None, attr_prefix = None, local_name = None\<rparr>,
        \<lparr>attr_name = ''data-nd-ns-uri'', attr_value = ''u'', namespace_uri = None, attr_prefix = None, local_name = None\<rparr>,
        \<lparr>attr_name = ''xmlns:a'', attr_value = ''u'', namespace_uri = Some XML_NS_XMLNS, attr_prefix = Some ''xmlns'', local_name = Some ''a''\<rparr>] []])"
    by code_simp
qed


lemma laugh_parsed:
  "ns_xml_parse_reporting (Some ''<!DOCTYPE r [<!ENTITY a 'ha'><!ENTITY b '&a;&a;'>]><r>&b;&b;</r>'') =
     Some (Inr [Doctype ''r'' [] [], Element ''r'' FOREIGN_NS [] [Text ''hahahaha'' False]])"
  by code_simp


end
