(* ===== verification/XmlTree.thy ===== *)
theory XmlTree
  imports Xml
begin

text \<open>
  The serializer of XML trees (\<^verbatim>\<open>dom.c\<close>) that \<^verbatim>\<open>XMLSerializer\<close> and \<^verbatim>\<open>outerHTML\<close> of XML documents use, on the
  trees of \<^verbatim>\<open>xml.c\<close>: every element has the flag \<^verbatim>\<open>NS_NODE_XML_DOC\<close>.  A node stands in the tree by the
  attribute lists of the elements from itself up to the root, innermost first.
\<close>

section \<open>Looking up\<close>

definition NS_DOM_MAX_DEPTH :: nat where "NS_DOM_MAX_DEPTH = 512"

definition ns_element_find_attr :: "ns_flag \<Rightarrow> ns_attr list \<Rightarrow> cstr \<Rightarrow> ns_attr option" where
  "ns_element_find_attr flag as name =
     (if flag = SVG_NS then find (\<lambda>a. attr_name a = name) as else find (\<lambda>a. strcaseeq (attr_name a) name) as)"

definition ns_element_get_attr :: "ns_flag \<Rightarrow> ns_attr list \<Rightarrow> cstr \<Rightarrow> cstr option" where
  "ns_element_get_attr flag as name = map_option attr_value (ns_element_find_attr flag as name)"

definition ns_xml_element_ns :: "ns_flag \<Rightarrow> ns_attr list \<Rightarrow> cstr" where
  "ns_xml_element_ns flag as =
     (case ns_element_get_attr flag as ''data-nd-ns-uri'' of Some uri \<Rightarrow> uri
      | None \<Rightarrow> if flag = SVG_NS then ''http://www.w3.org/2000/svg'' else [])"

definition xml_escape_char :: "bool \<Rightarrow> char \<Rightarrow> cstr" where
  "xml_escape_char attr c =
     (if c = CHR ''&'' then ''&amp;'' else if c = CHR ''<'' then ''&lt;'' else if c = CHR ''>'' then ''&gt;''
      else if c = CHR 0x22 then (if attr then ''&quot;'' else [c])
      else if c = CHR 0x09 then (if attr then ''&#9;'' else [c])
      else if c = CHR 0x0A then (if attr then ''&#10;'' else [c])
      else if c = CHR 0x0D then (if attr then ''&#13;'' else [c])
      else [c])"

definition ns_xml_escape_append :: "cstr \<Rightarrow> bool \<Rightarrow> cstr" where
  "ns_xml_escape_append s attr = concat (map (xml_escape_char attr) (c_string s))"

definition xml_attr_is_namespace_decl :: "ns_attr \<Rightarrow> bool" where
  "xml_attr_is_namespace_decl a \<longleftrightarrow> namespace_uri a = Some ''http://www.w3.org/2000/xmlns/''"

text \<open>The last declaration of a prefix (None for the default namespace) among the attributes of one element.\<close>

definition declares :: "cstr option \<Rightarrow> ns_attr \<Rightarrow> bool" where
  "declares pfx a \<longleftrightarrow> xml_attr_is_namespace_decl a \<and>
     (case pfx of None \<Rightarrow> attr_prefix a = None \<and> local_name a = Some ''xmlns''
      | Some p \<Rightarrow> attr_prefix a = Some ''xmlns'' \<and> local_name a = Some p)"

definition xml_declared_namespace_on :: "ns_attr list \<Rightarrow> cstr option \<Rightarrow> cstr option" where
  "xml_declared_namespace_on as pfx = map_option attr_value (find (declares pfx) (rev as))"

fun xml_declared_namespace :: "ns_attr list list \<Rightarrow> cstr option \<Rightarrow> cstr option" where
  "xml_declared_namespace [] pfx =
     (if pfx = Some ''xml'' then Some ''http://www.w3.org/XML/1998/namespace'' else None)"
| "xml_declared_namespace (as # up) pfx =
     (case xml_declared_namespace_on as pfx of Some v \<Rightarrow> Some v | None \<Rightarrow> xml_declared_namespace up pfx)"

definition binds_prefix_to :: "cstr \<Rightarrow> ns_attr \<Rightarrow> bool" where
  "binds_prefix_to uri a \<longleftrightarrow>
     xml_attr_is_namespace_decl a \<and> attr_prefix a = Some ''xmlns'' \<and> local_name a \<noteq> None \<and> attr_value a = uri"

fun xml_prefix_for_namespace :: "ns_attr list list \<Rightarrow> cstr \<Rightarrow> cstr option" where
  "xml_prefix_for_namespace [] uri = None"
| "xml_prefix_for_namespace (as # up) uri =
     (case find (binds_prefix_to uri) (rev as) of Some a \<Rightarrow> local_name a | None \<Rightarrow> xml_prefix_for_namespace up uri)"

definition xml_has_namespace_declaration :: "ns_attr list list \<Rightarrow> bool" where
  "xml_has_namespace_declaration up \<longleftrightarrow> list_ex (list_ex xml_attr_is_namespace_decl) up"

definition xml_has_empty_prefixed_declaration :: "ns_attr list \<Rightarrow> bool" where
  "xml_has_empty_prefixed_declaration as \<longleftrightarrow>
     list_ex (\<lambda>a. xml_attr_is_namespace_decl a \<and> attr_prefix a = Some ''xmlns'' \<and> attr_value a = []) as"

definition xml_element_prefix :: "cstr \<Rightarrow> ns_flag \<Rightarrow> ns_attr list \<Rightarrow> cstr option" where
  "xml_element_prefix name flag as =
     (let stored = ns_element_get_attr flag as ''data-nd-ns-prefix''
      in if nonempty stored then stored else map_option (text_between name) (strchr name CHR '':''))"

definition xml_local_name :: "cstr \<Rightarrow> cstr" where
  "xml_local_name name = (case strchr name CHR '':'' of None \<Rightarrow> name | Some c \<Rightarrow> tl c)"

definition xml_generated_prefix :: "nat \<Rightarrow> cstr \<times> nat" where
  "xml_generated_prefix index = (''ns'' @ dec_digits index, (index + 1) mod 2 ^ 32)"

section \<open>Names and declarations of an element\<close>

text \<open>The prefix an element is written with, whether it is a generated one, and the next index.\<close>

definition serialized_prefix ::
  "ns_attr list list \<Rightarrow> cstr \<Rightarrow> cstr \<Rightarrow> cstr option \<Rightarrow> nat \<Rightarrow> cstr option \<times> bool \<times> nat" where
  "serialized_prefix up ns inherited_default pfx index =
     (let effective_default = str_or (xml_declared_namespace_on (hd up) None) inherited_default
      in if ns = XML_NS_XML then (Some ''xml'', False, index)
         else if pfx \<noteq> None \<and> effective_default = ns then (None, False, index)
         else if pfx \<noteq> None then
           (case xml_declared_namespace_on (hd up) pfx of
              Some b \<Rightarrow> if b \<noteq> ns then (case xml_generated_prefix index of (p, i) \<Rightarrow> (Some p, True, i))
                        else (pfx, False, index)
            | None \<Rightarrow> (pfx, False, index))
         else if ns \<noteq> [] then (xml_prefix_for_namespace up ns, False, index)
         else (None, False, index))"

definition emits_namespace :: "ns_attr list list \<Rightarrow> cstr \<Rightarrow> cstr \<Rightarrow> cstr option \<Rightarrow> bool \<Rightarrow> bool" where
  "emits_namespace up ns inherited_default pfx generated \<longleftrightarrow>
     (case pfx of None \<Rightarrow> ns \<noteq> inherited_default
      | Some p \<Rightarrow> p \<noteq> ''xml'' \<and> (generated \<or> xml_declared_namespace up pfx \<noteq> Some ns))"

definition prefixed :: "cstr option \<Rightarrow> cstr \<Rightarrow> cstr" where
  "prefixed pfx name = (case pfx of None \<Rightarrow> name | Some p \<Rightarrow> p @ '':'' @ name)"

definition attribute_text :: "cstr \<Rightarrow> cstr \<Rightarrow> cstr" where
  "attribute_text name v = '' '' @ name @ ''='' @ [CHR 0x22] @ ns_xml_escape_append v True @ [CHR 0x22]"

text \<open>The prefix of an attribute in a namespace, whether it has to be declared, and the next index.\<close>

definition attribute_prefix :: "ns_attr list list \<Rightarrow> ns_attr \<Rightarrow> nat \<Rightarrow> cstr option \<times> bool \<times> nat" where
  "attribute_prefix up a index =
     (if \<not> nonempty (namespace_uri a) then (None, False, index)
      else let uri = the (namespace_uri a)
      in if uri = XML_NS_XML then (Some ''xml'', False, index)
         else
           (case xml_prefix_for_namespace up uri of
              Some p \<Rightarrow> (Some p, False, index)
            | None \<Rightarrow>
                let binding = xml_declared_namespace up (attr_prefix a)
                in if nonempty (attr_prefix a) \<and> binding = Some uri then (attr_prefix a, False, index)
                   else if nonempty (attr_prefix a) \<and> binding = None \<and> \<not> xml_has_namespace_declaration up
                   then (attr_prefix a, True, index)
                   else (case xml_generated_prefix index of (p, i) \<Rightarrow> (Some p, True, i))))"

definition serialize_attribute ::
  "ns_attr list list \<Rightarrow> bool \<Rightarrow> cstr option \<Rightarrow> ns_attr \<Rightarrow> nat \<Rightarrow> cstr \<times> nat" where
  "serialize_attribute up emit pfx a index =
     (if ns_attr_name_is_internal (attr_name a) then ([], index)
      else if xml_attr_is_namespace_decl a then
        (if attr_prefix a = None \<and> (emit \<or> pfx = None \<and> \<not> xml_has_empty_prefixed_declaration (hd up)) then ([], index)
         else (attribute_text (attr_name a) (attr_value a), index))
      else if attr_name a = ''xmlns'' \<or> g_str_has_prefix (attr_name a) ''xmlns:'' then ([], index)
      else
        (case attribute_prefix up a index of
           (p, declare_it, i) \<Rightarrow>
             ((if declare_it then attribute_text (''xmlns:'' @ the p) (the (namespace_uri a)) else []) @
              attribute_text (prefixed p (str_or (local_name a) (xml_local_name (attr_name a)))) (attr_value a), i)))"

fun serialize_attributes ::
  "ns_attr list list \<Rightarrow> bool \<Rightarrow> cstr option \<Rightarrow> ns_attr list \<Rightarrow> nat \<Rightarrow> cstr \<times> nat" where
  "serialize_attributes up emit pfx [] index = ([], index)"
| "serialize_attributes up emit pfx (a # as) index =
     (case serialize_attribute up emit pfx a index of
        (s, i) \<Rightarrow> (case serialize_attributes up emit pfx as i of (t, j) \<Rightarrow> (s @ t, j)))"

text \<open>A start tag without its end: the text, the prefix, the namespace for the children, and the next index.\<close>

definition serialize_head ::
  "ns_attr list list \<Rightarrow> cstr \<Rightarrow> ns_flag \<Rightarrow> cstr option \<Rightarrow> nat \<Rightarrow> cstr \<times> cstr option \<times> cstr \<times> nat" where
  "serialize_head up name flag parent_ns index =
     (let as = hd up; ns = ns_xml_element_ns flag as; inherited_default = str_or parent_ns []
      in case serialized_prefix up ns inherited_default (xml_element_prefix name flag as) index of
           (pfx, generated, i) \<Rightarrow>
             let emit = emits_namespace up ns inherited_default pfx generated
             in case serialize_attributes up emit pfx as i of
                  (attrs, j) \<Rightarrow>
                    (''<'' @ prefixed pfx (xml_local_name name) @
                     (if emit then attribute_text (case pfx of None \<Rightarrow> ''xmlns'' | Some p \<Rightarrow> ''xmlns:'' @ p) ns else []) @
                     attrs,
                     pfx,
                     if pfx = None then ns else str_or (xml_declared_namespace_on as None) inherited_default, j))"

section \<open>Nodes\<close>

definition void_tags :: "cstr list" where
  "void_tags = [''area'', ''base'', ''basefont'', ''bgsound'', ''br'', ''col'', ''embed'', ''frame'', ''hr'', ''img'', ''input'',
     ''keygen'', ''link'', ''meta'', ''param'', ''source'', ''track'', ''wbr'']"

definition ns_html_is_void :: "cstr \<Rightarrow> bool" where
  "ns_html_is_void tag \<longleftrightarrow> tag \<in> set void_tags"

definition serialize_doctype :: "cstr \<Rightarrow> cstr \<Rightarrow> cstr \<Rightarrow> cstr" where
  "serialize_doctype name public_id system_id =
     (let quoted = (\<lambda>s. [CHR 0x22] @ s @ [CHR 0x22])
      in ''<!DOCTYPE '' @ name @
         (if public_id \<noteq> [] then
            '' PUBLIC '' @ quoted public_id @ (if system_id \<noteq> [] then '' '' @ quoted system_id else [])
          else if system_id \<noteq> [] then '' SYSTEM '' @ quoted system_id
          else []) @ ''>'')"

fun xml_serialize_node :: "ns_attr list list \<Rightarrow> cstr option \<Rightarrow> nat \<Rightarrow> ns_node \<Rightarrow> nat \<Rightarrow> cstr \<times> nat"
  and xml_serialize_nodes :: "ns_attr list list \<Rightarrow> cstr option \<Rightarrow> nat \<Rightarrow> ns_node list \<Rightarrow> nat \<Rightarrow> cstr \<times> nat" where
  "xml_serialize_node up parent_ns depth n index =
     (if depth \<ge> NS_DOM_MAX_DEPTH then ([], index)
      else
        (case n of
           Text t cdata \<Rightarrow> (if cdata then ''<![CDATA['' @ t @ '']]>'' else ns_xml_escape_append t False, index)
         | PI target d \<Rightarrow> (''<?'' @ target @ (if d \<noteq> [] then '' '' @ d else []) @ ''?>'', index)
         | Comment t \<Rightarrow> (''<!--'' @ t @ ''-->'', index)
         | Doctype name pub sys \<Rightarrow> (serialize_doctype name pub sys, index)
         | Element name flag as kids \<Rightarrow>
             (case serialize_head (as # up) name flag parent_ns index of
                (head, pfx, child_default, i) \<Rightarrow>
                  let local = xml_local_name name; end_tag = ''</'' @ prefixed pfx local @ ''>''
                  in if kids = [] then
                       (head @
                        (if ns_xml_element_ns flag as = XML_NS_XHTML \<and> \<not> ns_html_is_void local then ''>'' @ end_tag
                         else ''/>''), i)
                     else
                       (case xml_serialize_nodes (as # up) (Some child_default) (depth + 1) kids i of
                          (s, j) \<Rightarrow> (head @ ''>'' @ s @ end_tag, j)))))"
| "xml_serialize_nodes up parent_ns depth [] index = ([], index)"
| "xml_serialize_nodes up parent_ns depth (n # ns) index =
     (case xml_serialize_node up parent_ns depth n index of
        (s, i) \<Rightarrow> (case xml_serialize_nodes up parent_ns depth ns i of (t, j) \<Rightarrow> (s @ t, j)))"

definition ns_node_xml_outer_html :: "ns_attr list list \<Rightarrow> ns_node \<Rightarrow> cstr" where
  "ns_node_xml_outer_html up n = fst (xml_serialize_node up None 0 n 1)"

text \<open>A document with its children; \<^verbatim>\<open>serializeToString\<close> of a document node.\<close>

definition serialize_document :: "ns_node list \<Rightarrow> cstr" where
  "serialize_document doc = fst (xml_serialize_nodes [] None 1 doc 1)"

definition ns_node_xml_inner_html :: "ns_attr list list \<Rightarrow> ns_node \<Rightarrow> cstr" where
  "ns_node_xml_inner_html up n =
     (case n of Element name flag as kids \<Rightarrow> fst (xml_serialize_nodes (as # up) (Some (ns_xml_element_ns flag as)) 0 kids 1)
      | _ \<Rightarrow> [])"



section \<open>A difference\<close>

text \<open>
  \<^verbatim>\<open>xml_prefix_for_namespace\<close> takes the prefix of the nearest element that declares one for the namespace, also
  where a nearer declaration has given the prefix away.  Here the attribute \<^verbatim>\<open>q:x\<close> of the namespace \<^verbatim>\<open>u\<close> is
  written as \<^verbatim>\<open>r:x\<close>, of the namespace \<^verbatim>\<open>v\<close>.
\<close>

definition shadowed :: cstr where
  "shadowed = ''<a xmlns:q='u' xmlns:r='u'><b xmlns:r='v' q:x='1'/></a>''"

definition attribute_namespaces :: "ns_node list \<Rightarrow> cstr option list" where
  "attribute_namespaces doc =
     (case doc of [Element a f as [Element b g bs []]] \<Rightarrow>
        map namespace_uri (filter (\<lambda>a. local_name a = Some ''x'') bs) | _ \<Rightarrow> [])"

lemma shadowed_prefix:
  "map_option (map_sum id attribute_namespaces) (ns_xml_parse_reporting (Some shadowed)) = Some (Inr [Some ''u''])"
  "map_option (map_sum id attribute_namespaces) (ns_xml_parse_reporting
     (map_option (case_sum (\<lambda>_. []) serialize_document) (ns_xml_parse_reporting (Some shadowed)))) = Some (Inr [Some ''v''])"
  by (code_simp, code_simp)

section \<open>Escaping\<close>

definition value_ok :: "cstr \<Rightarrow> bool" where
  "value_ok v \<longleftrightarrow> CHR 0x00 \<notin> set v"

lemma c_string_value: "value_ok v \<Longrightarrow> c_string v = v"
  by (auto simp: value_ok_def c_string_def takeWhile_eq_all_conv)

lemma escape_simps:
  "ns_xml_escape_append [] attr = []"
  "value_ok (c # v) \<Longrightarrow> ns_xml_escape_append (c # v) attr = xml_escape_char attr c @ ns_xml_escape_append v attr"
  by (auto simp: ns_xml_escape_append_def value_ok_def c_string_def)

lemma value_ok_Cons [simp]: "value_ok (c # v) \<longleftrightarrow> c \<noteq> CHR 0x00 \<and> value_ok v"
  by (auto simp: value_ok_def)

lemma references:
  "char_reference ''9'' = Some 9" "char_reference ''10'' = Some 10" "char_reference ''13'' = Some 13"
  "xml_append_codepoint 9 = [CHR 0x09]" "xml_append_codepoint 10 = [CHR 0x0A]" "xml_append_codepoint 13 = [CHR 0x0D]"
  by code_simp+

lemma decode_plain: "c \<noteq> CHR ''&'' \<Longrightarrow> decode_loop xp s = (v, xp) \<Longrightarrow> decode_loop xp (c # s) = (c # v, xp)"
  by simp

lemma decode_named:
  "decode_loop xp s = (v, xp) \<Longrightarrow> predefined n = Some d \<Longrightarrow> CHR '';'' \<notin> set n \<Longrightarrow> n \<noteq> [] \<Longrightarrow> hd n \<noteq> CHR ''#'' \<Longrightarrow>
   decode_loop xp (CHR ''&'' # n @ CHR '';'' # s) = (d # v, xp)"
proof -
  assume a: "decode_loop xp s = (v, xp)" "predefined n = Some d" "CHR '';'' \<notin> set n" "n \<noteq> []" "hd n \<noteq> CHR ''#''"
  have "strchr (n @ CHR '';'' # s) CHR '';'' = Some (CHR '';'' # s)" using a(3) by (induction n) auto
  moreover have "text_between (n @ CHR '';'' # s) (CHR '';'' # s) = n" by (simp add: text_between_def)
  ultimately show ?thesis using a by simp
qed

lemma decode_numbered:
  "decode_loop xp s = (v, xp) \<Longrightarrow> char_reference n = Some cp \<Longrightarrow> CHR '';'' \<notin> set n \<Longrightarrow>
   decode_loop xp (CHR ''&'' # CHR ''#'' # n @ CHR '';'' # s) = (xml_append_codepoint cp @ v, xp)"
proof -
  assume a: "decode_loop xp s = (v, xp)" "char_reference n = Some cp" "CHR '';'' \<notin> set n"
  have "strchr (n @ CHR '';'' # s) CHR '';'' = Some (CHR '';'' # s)" using a(3) by (induction n) auto
  then have "strchr (CHR ''#'' # n @ CHR '';'' # s) CHR '';'' = Some (CHR '';'' # s)" by simp
  moreover have "text_between (CHR ''#'' # n @ CHR '';'' # s) (CHR '';'' # s) = CHR ''#'' # n"
    by (simp add: text_between_def)
  ultimately show ?thesis using a by simp
qed

lemma decode_escaped: "value_ok v \<Longrightarrow> decode_loop xp (ns_xml_escape_append v attr) = (v, xp)"
proof (induction v)
  case (Cons c v)
  note IH = Cons.IH [OF Cons.prems [simplified, THEN conjunct2]]
  have "decode_loop xp (xml_escape_char attr c @ ns_xml_escape_append v attr) = (c # v, xp)"
    using decode_named [OF IH, of "''amp''" "CHR ''&''"] decode_named [OF IH, of "''lt''" "CHR ''<''"]
      decode_named [OF IH, of "''gt''" "CHR ''>''"] decode_named [OF IH, of "''quot''" "CHR 0x22"]
      decode_numbered [OF IH references(1)] decode_numbered [OF IH references(2)] decode_numbered [OF IH references(3)]
      decode_plain [OF _ IH, of c]
    by (cases attr) (auto simp: xml_escape_char_def predefined_def references simp del: decode_loop.simps)
  then show ?case using escape_simps(2) [OF Cons.prems] by simp
qed (simp add: escape_simps)

lemma decode_text_escaped: "value_ok v \<Longrightarrow> xml_decode_text xp (ns_xml_escape_append v attr) = (v, xp)"
  using decode_escaped [of v xp attr] by (simp add: xml_decode_text_def c_string_value)

lemma escaped_chars:
  "value_ok v \<Longrightarrow> c \<in> set (ns_xml_escape_append v attr) \<Longrightarrow> c \<noteq> CHR ''<'' \<and> (attr \<longrightarrow> c \<noteq> CHR 0x22)"
proof (induction v)
  case (Cons d v)
  then show ?case using escape_simps(2) [OF Cons.prems(1), of attr] by (auto simp: xml_escape_char_def split: if_splits)
qed (simp add: escape_simps)


section \<open>Documents without prefixes\<close>

text \<open>
  An abstract document: an element has a name, a namespace (empty for none), attributes without namespace, and
  content; a text may be a CDATA section.  Its tree, with the namespace \<open>inherited\<close> in force around it, is what
  the parser builds: the browser's own attribute for the namespace and, where the namespace changes, a
  declaration.
\<close>

datatype xdoc =
    XElem cstr cstr "(cstr \<times> cstr) list" "xdoc list"
  | XText cstr bool
  | XComment cstr
  | XPI cstr cstr

definition flag_of :: "cstr \<Rightarrow> ns_flag" where
  "flag_of uri = (if uri = XML_NS_XHTML then XHTML_NS else if uri = XML_NS_SVG then SVG_NS else FOREIGN_NS)"

definition plain_attr :: "cstr \<Rightarrow> cstr \<Rightarrow> ns_attr" where
  "plain_attr name v =
     \<lparr>attr_name = name, attr_value = v, namespace_uri = None, attr_prefix = None, local_name = Some name\<rparr>"

definition uri_attrs :: "cstr \<Rightarrow> ns_attr list" where
  "uri_attrs uri =
     (if uri = [] then []
      else [\<lparr>attr_name = ''data-nd-ns-uri'', attr_value = uri, namespace_uri = None, attr_prefix = None, local_name = None\<rparr>])"

definition decl_attrs :: "cstr \<Rightarrow> cstr \<Rightarrow> ns_attr list" where
  "decl_attrs inherited uri =
     (if uri = inherited then []
      else [\<lparr>attr_name = ''xmlns'', attr_value = uri, namespace_uri = Some XML_NS_XMLNS, attr_prefix = None,
             local_name = Some ''xmlns''\<rparr>])"

definition element_attrs :: "cstr \<Rightarrow> cstr \<Rightarrow> (cstr \<times> cstr) list \<Rightarrow> ns_attr list" where
  "element_attrs inherited uri ats = uri_attrs uri @ decl_attrs inherited uri @ map (\<lambda>(a, v). plain_attr a v) ats"

fun tree_of :: "cstr \<Rightarrow> xdoc \<Rightarrow> ns_node" where
  "tree_of inherited (XElem name uri ats kids) =
     Element name (flag_of uri) (element_attrs inherited uri ats) (map (tree_of uri) kids)"
| "tree_of inherited (XText t cdata) = Text t cdata"
| "tree_of inherited (XComment t) = Comment t"
| "tree_of inherited (XPI target d) = PI target d"

text \<open>How it is written.\<close>

definition decl_text :: "cstr \<Rightarrow> cstr \<Rightarrow> cstr" where
  "decl_text inherited uri = (if uri = inherited then [] else attribute_text ''xmlns'' uri)"

definition attributes_text :: "(cstr \<times> cstr) list \<Rightarrow> cstr" where
  "attributes_text ats = concat (map (\<lambda>(a, v). attribute_text a v) ats)"

definition closing_tag :: "cstr \<Rightarrow> cstr" where
  "closing_tag name = ''</'' @ name @ ''>''"

fun print_doc :: "cstr \<Rightarrow> xdoc \<Rightarrow> cstr" where
  "print_doc inherited (XElem name uri ats kids) =
     ''<'' @ name @ decl_text inherited uri @ attributes_text ats @
     (if kids = [] then (if uri = XML_NS_XHTML \<and> \<not> ns_html_is_void name then ''>'' @ closing_tag name else ''/>'')
      else ''>'' @ concat (map (print_doc uri) kids) @ closing_tag name)"
| "print_doc inherited (XText t cdata) = (if cdata then ''<![CDATA['' @ t @ '']]>'' else ns_xml_escape_append t False)"
| "print_doc inherited (XComment t) = ''<!--'' @ t @ ''-->''"
| "print_doc inherited (XPI target d) = ''<?'' @ target @ (if d \<noteq> [] then '' '' @ d else []) @ ''?>''"

text \<open>What can be written: names, values without NUL, delimiters that end where they should, no two texts side by side.\<close>

definition name_ok :: "cstr \<Rightarrow> bool" where
  "name_ok n \<longleftrightarrow> n \<noteq> [] \<and> xml_name_char (hd n) True \<and> list_all (\<lambda>c. xml_name_char c False) (tl n) \<and> CHR '':'' \<notin> set n"

definition attr_ok :: "cstr \<times> cstr \<Rightarrow> bool" where
  "attr_ok nv \<longleftrightarrow> name_ok (fst nv) \<and> fst nv \<noteq> ''xmlns'' \<and> \<not> ns_attr_name_is_internal (fst nv) \<and> value_ok (snd nv)"

definition ns_ok :: "cstr \<Rightarrow> bool" where
  "ns_ok uri \<longleftrightarrow> value_ok uri \<and> uri \<noteq> XML_NS_XML \<and> uri \<noteq> XML_NS_XMLNS"

definition ends_at :: "cstr \<Rightarrow> cstr \<Rightarrow> bool" where
  "ends_at t delim \<longleftrightarrow> strstr (t @ delim) delim = Some delim"

fun is_chars :: "xdoc \<Rightarrow> bool" where
  "is_chars (XText t cdata) \<longleftrightarrow> \<not> cdata"
| "is_chars _ \<longleftrightarrow> False"

fun no_adjacent_texts :: "xdoc list \<Rightarrow> bool" where
  "no_adjacent_texts (d # e # ds) \<longleftrightarrow> \<not> (is_chars d \<and> is_chars e) \<and> no_adjacent_texts (e # ds)"
| "no_adjacent_texts _ \<longleftrightarrow> True"

fun doc_ok :: "nat \<Rightarrow> xdoc \<Rightarrow> bool" where
  "doc_ok depth (XElem name uri ats kids) \<longleftrightarrow>
     depth \<le> XML_MAX_DEPTH \<and> name_ok name \<and> ns_ok uri \<and> list_all attr_ok ats \<and> distinct (map fst ats) \<and>
     no_adjacent_texts kids \<and> list_all (doc_ok (depth + 1)) kids"
| "doc_ok depth (XText t cdata) \<longleftrightarrow> value_ok t \<and> (if cdata then ends_at t '']]>'' else t \<noteq> [])"
| "doc_ok depth (XComment t) \<longleftrightarrow> value_ok t \<and> ends_at t ''-->''"
| "doc_ok depth (XPI target d) \<longleftrightarrow>
     target \<noteq> [] \<and> list_all (\<lambda>c. \<not> xml_is_space c) target \<and> value_ok target \<and> value_ok d \<and>
     (d \<noteq> [] \<longrightarrow> \<not> xml_is_space (hd d)) \<and> ends_at (target @ (if d \<noteq> [] then '' '' @ d else [])) ''?>''"

section \<open>The serializer writes them so\<close>

definition unprefixed :: "ns_attr list list \<Rightarrow> bool" where
  "unprefixed up \<longleftrightarrow> list_all (list_all (\<lambda>a. attr_prefix a = None)) up"

lemma unprefixed_prefix: "unprefixed up \<Longrightarrow> xml_prefix_for_namespace up uri = None"
proof (induction up)
  case (Cons as up)
  then have "find (binds_prefix_to uri) (rev as) = None"
    by (auto simp: find_None_iff unprefixed_def list_all_iff binds_prefix_to_def)
  then show ?case using Cons by (simp add: unprefixed_def)
qed simp

lemma element_attrs_unprefixed: "unprefixed (element_attrs inh u ats # up) = unprefixed up"
  by (auto simp: unprefixed_def element_attrs_def uri_attrs_def decl_attrs_def plain_attr_def list_all_iff)

lemma no_private_found:
  assumes "list_all attr_ok ats" "ns_attr_name_is_internal name"
  shows "ns_element_find_attr flag (decl_attrs inh u @ map (\<lambda>(a, v). plain_attr a v) ats) name = None"
proof -
  let ?r = "decl_attrs inh u @ map (\<lambda>(a, v). plain_attr a v) ats"
  have "\<forall>a\<in>set ?r. \<not> ns_attr_name_is_internal (attr_name a)"
    using assms(1) by (auto simp: decl_attrs_def plain_attr_def list_all_iff attr_ok_def)
  then have n: "\<forall>a\<in>set ?r. attr_name a \<noteq> name \<and> \<not> strcaseeq (attr_name a) name"
    using internal_cong assms(2) by blast
  have "find (\<lambda>a. attr_name a = name) ?r = None" unfolding find_None_iff using n by blast
  moreover have "find (\<lambda>a. strcaseeq (attr_name a) name) ?r = None" unfolding find_None_iff using n by blast
  ultimately show ?thesis unfolding ns_element_find_attr_def by simp
qed

lemma namespace_constants [simp]: "XML_NS_XHTML \<noteq> []" "XML_NS_SVG \<noteq> []" "XML_NS_XHTML \<noteq> XML_NS_SVG"
  by (simp_all add: XML_NS_XHTML_def XML_NS_SVG_def)

lemma no_colon: "name_ok n \<Longrightarrow> strchr n CHR '':'' = None"
proof -
  have "c \<notin> set n \<Longrightarrow> strchr n c = None" for c by (induction n) auto
  then show "name_ok n \<Longrightarrow> ?thesis" by (simp add: name_ok_def)
qed

lemma element_lookups:
  assumes "list_all attr_ok ats"
  shows "ns_xml_element_ns (flag_of u) (element_attrs inh u ats) = u"
    "name_ok name \<Longrightarrow> xml_element_prefix name (flag_of u) (element_attrs inh u ats) = None"
proof -
  let ?as = "element_attrs inh u ats" and ?rest = "decl_attrs inh u @ map (\<lambda>(a, v). plain_attr a v) ats"
  have e: "?as = uri_attrs u @ ?rest" by (simp add: element_attrs_def)
  have no: "\<not> strcaseeq ''data-nd-ns-uri'' ''data-nd-ns-prefix''" by code_simp
  note none = no_private_found [OF assms internal_names(1)] no_private_found [OF assms internal_names(2)]
  have "ns_element_find_attr (flag_of u) ?as ''data-nd-ns-uri'' = (if u = [] then None else Some (hd (uri_attrs u)))"
  proof (cases "u = []")
    case True
    then show ?thesis using none(2) [of "flag_of u" inh u] unfolding e by (simp add: uri_attrs_def)
  next
    case False
    then show ?thesis unfolding e by (simp add: uri_attrs_def ns_element_find_attr_def)
  qed
  then show "ns_xml_element_ns (flag_of u) ?as = u"
    by (auto simp: ns_xml_element_ns_def ns_element_get_attr_def uri_attrs_def flag_of_def)
  have "ns_element_find_attr (flag_of u) ?as ''data-nd-ns-prefix'' = None"
  proof (cases "u = []")
    case True
    then show ?thesis using none(1) [of "flag_of u" inh u] unfolding e by (simp add: uri_attrs_def)
  next
    case False
    then show ?thesis using none(1) [of "flag_of u" inh u] no unfolding e
      by (cases "flag_of u = SVG_NS") (simp_all add: uri_attrs_def ns_element_find_attr_def)
  qed
  moreover assume "name_ok name"
  then have "strchr name CHR '':'' = None" by (rule no_colon)
  ultimately show "xml_element_prefix name (flag_of u) ?as = None"
    by (simp add: xml_element_prefix_def ns_element_get_attr_def)
qed

lemma plain_attributes_text:
  assumes "list_all attr_ok ats" "unprefixed up"
  shows "serialize_attributes up emit None (map (\<lambda>(a, v). plain_attr a v) ats) i = (attributes_text ats, i)"
  using assms(1)
proof (induction ats)
  case (Cons nv ats)
  obtain a v where nv: "nv = (a, v)" by fastforce
  have "\<not> g_str_has_prefix a ''xmlns:''"
    using Cons.prems by (auto simp: nv attr_ok_def name_ok_def has_prefix_iff)
  then have "serialize_attribute up emit None (plain_attr a v) i = (attribute_text a v, i)"
    using Cons.prems
    by (simp add: nv serialize_attribute_def plain_attr_def attr_ok_def xml_attr_is_namespace_decl_def attribute_prefix_def prefixed_def)
  then show ?case using Cons by (simp add: nv attributes_text_def)
qed (simp add: attributes_text_def)

lemma own_attributes_text:
  assumes "list_all attr_ok ats" "unprefixed (element_attrs inh u ats # up)" "emit \<longleftrightarrow> u \<noteq> inh"
  shows "serialize_attributes (element_attrs inh u ats # up) emit None (element_attrs inh u ats) i = (attributes_text ats, i)"
proof -
  let ?up = "element_attrs inh u ats # up"
  have app: "serialize_attributes U emit None (xs @ ys) j =
      (case serialize_attributes U emit None xs j of (s, k) \<Rightarrow>
         (case serialize_attributes U emit None ys k of (t, l) \<Rightarrow> (s @ t, l)))" for U xs ys j
    by (induction xs arbitrary: j) (auto split: prod.splits)
  have "serialize_attributes ?up emit None (uri_attrs u) i = ([], i)"
    by (simp add: uri_attrs_def serialize_attribute_def)
  moreover have "serialize_attributes ?up emit None (decl_attrs inh u) i = ([], i)"
    using assms(3) by (simp add: decl_attrs_def serialize_attribute_def xml_attr_is_namespace_decl_def XML_NS_XMLNS_def)
  moreover note plain_attributes_text [OF assms(1,2), of emit i]
  ultimately have "serialize_attributes ?up emit None (uri_attrs u @ decl_attrs inh u @ map (\<lambda>(a, v). plain_attr a v) ats) i =
      (attributes_text ats, i)"
    unfolding app by simp
  then show ?thesis by (simp only: element_attrs_def)
qed

lemma serialize_head_ok:
  assumes "name_ok name" "ns_ok u" "list_all attr_ok ats" "unprefixed up" "str_or parent_ns [] = inh"
  shows "serialize_head (element_attrs inh u ats # up) name (flag_of u) parent_ns i =
    (''<'' @ name @ decl_text inh u @ attributes_text ats, None, u, i)"
proof -
  let ?up = "element_attrs inh u ats # up"
  have up: "unprefixed ?up" using assms(4) element_attrs_unprefixed by simp
  have "xml_local_name name = name" using no_colon [OF assms(1)] by (simp add: xml_local_name_def)
  moreover have "serialized_prefix ?up u inh None i = (None, False, i)"
    using assms(2) unprefixed_prefix [OF up] by (simp add: serialized_prefix_def ns_ok_def)
  moreover have "emits_namespace ?up u inh None False \<longleftrightarrow> u \<noteq> inh" by (simp add: emits_namespace_def)
  moreover note own_attributes_text [OF assms(3) up refl]
  ultimately show ?thesis
    using element_lookups(1) [OF assms(3), of u inh] element_lookups(2) [OF assms(3,1), of u inh] assms(5)
    by (simp add: serialize_head_def prefixed_def decl_text_def Let_def)
qed

fun doc_height :: "xdoc \<Rightarrow> nat" where
  "doc_height (XElem name uri ats kids) = Suc (Max (insert 0 (set (map doc_height kids))))"
| "doc_height _ = 0"

lemma doc_height_ok: "doc_ok depth d \<Longrightarrow> depth \<le> XML_MAX_DEPTH + 1 \<Longrightarrow> depth + doc_height d \<le> XML_MAX_DEPTH + 1"
proof (induction d arbitrary: depth)
  case (XElem name uri ats kids)
  have "depth + 1 + doc_height k \<le> XML_MAX_DEPTH + 1" if "k \<in> set kids" for k
    using XElem.IH [OF that, of "depth + 1"] XElem.prems that by (simp add: list_all_iff)
  then have "\<forall>h\<in>insert 0 (doc_height ` set kids). h \<le> XML_MAX_DEPTH - depth" by fastforce
  then have "Max (insert 0 (doc_height ` set kids)) \<le> XML_MAX_DEPTH - depth"
    by (subst Max.bounded_iff) simp_all
  moreover have "depth \<le> XML_MAX_DEPTH" using XElem.prems(1) by simp
  moreover have "doc_height (XElem name uri ats kids) = Suc (Max (insert 0 (doc_height ` set kids)))" by simp
  ultimately show ?case by linarith
qed auto

lemma child_height: "d \<in> set kids \<Longrightarrow> doc_height d < doc_height (XElem name uri ats kids)"
  using Max_ge [of "insert 0 (doc_height ` set kids)" "doc_height d"] by (simp add: less_Suc_eq_le)

lemma serialize_is_print:
  "doc_ok k d \<Longrightarrow> unprefixed up \<Longrightarrow> str_or parent_ns [] = inh \<Longrightarrow> depth + doc_height d < NS_DOM_MAX_DEPTH \<Longrightarrow>
     xml_serialize_node up parent_ns depth (tree_of inh d) i = (print_doc inh d, i)"
proof (induction d arbitrary: k up parent_ns inh depth i)
  case (XElem name uri ats kids)
  let ?as = "element_attrs inh uri ats"
  have up: "unprefixed (?as # up)" using XElem.prems(2) element_attrs_unprefixed by simp
  have kids: "xml_serialize_nodes (?as # up) (Some uri) (depth + 1) (map (tree_of uri) ds) j = (concat (map (print_doc uri) ds), j)"
    if "set ds \<subseteq> set kids" for ds j
    using that
  proof (induction ds arbitrary: j)
    case (Cons d ds)
    then have d: "d \<in> set kids" by simp
    have "depth + 1 + doc_height d < NS_DOM_MAX_DEPTH"
      using XElem.prems(4) child_height [OF d, of name uri ats] by linarith
    then have "xml_serialize_node (?as # up) (Some uri) (depth + 1) (tree_of uri d) j = (print_doc uri d, j)"
      using XElem.IH [OF d, of "k + 1" "?as # up" "Some uri" uri "depth + 1" j] XElem.prems(1) d up
      by (auto simp: list_all_iff)
    then show ?case using Cons by simp
  qed simp
  have ok: "name_ok name" "ns_ok uri" "list_all attr_ok ats" using XElem.prems(1) by auto
  have local: "xml_local_name name = name"
    using no_colon [OF ok(1)] by (simp add: xml_local_name_def)
  show ?case
    using serialize_head_ok [OF ok XElem.prems(2,3)] kids [OF subset_refl] element_lookups(1) [OF ok(3)] local XElem.prems(4)
    by (auto simp: prefixed_def closing_tag_def)
qed (auto split: if_splits)

section \<open>The parser reads them back\<close>

abbreviation at_point :: "xml_parser \<Rightarrow> cstr \<Rightarrow> xml_parser" where
  "at_point xp p \<equiv> xp\<lparr>xp_p := p\<rparr>"

definition default_ns :: "xml_parser \<Rightarrow> cstr" where
  "default_ns xp = str_or (xml_lookup_prefix xp None) []"

lemma name_not_space: "xml_name_char c b \<Longrightarrow> \<not> xml_is_space c"
  by (auto simp: xml_name_char_def xml_is_space_def g_ascii_isalpha_def g_ascii_isdigit_def g_ascii_isupper_def g_ascii_islower_def code_of_def)

lemma delimiters_no_names [simp]:
  "\<not> xml_name_char CHR ''='' False" "\<not> xml_name_char CHR '' '' False" "\<not> xml_name_char CHR ''>'' False" "\<not> xml_name_char CHR ''/'' False"
  by code_simp+

lemma read_name_ok: "name_ok n \<Longrightarrow> \<not> xml_name_char c False \<Longrightarrow> read_name_at (n @ c # r) = Some (n, c # r)"
proof (cases n)
  case (Cons d m)
  assume "name_ok n" "\<not> xml_name_char c False"
  then show ?thesis
    using Cons by (auto simp: name_ok_def read_name_at_def list_all_iff takeWhile_append dropWhile_append)
qed (simp add: name_ok_def)

lemma name_head: "name_ok n \<Longrightarrow> n \<noteq> [] \<and> \<not> xml_is_space (hd n) \<and> xml_name_char (hd n) True"
  by (auto simp: name_ok_def dest: name_not_space)

lemma name_valid: "name_ok n \<Longrightarrow> xml_qname_valid n"
  using no_colon [of n] by (simp add: xml_qname_valid_def)

lemma skip_to: "c \<noteq> [] \<Longrightarrow> \<not> xml_is_space (hd c) \<Longrightarrow> dropWhile xml_is_space (c @ r) = c @ r"
  by (cases c) auto

lemma strchr_at: "c \<notin> set s \<Longrightarrow> strchr (s @ c # r) c = Some (c # r)"
  by (induction s) auto

lemma between_at: "text_between (s @ r) r = s"
  by (simp add: text_between_def)

lemma names_no_markup: "xml_name_char c True \<Longrightarrow> c \<noteq> CHR ''>'' \<and> c \<noteq> CHR ''/'' \<and> c \<noteq> CHR ''?'' \<and> c \<noteq> CHR ''!''"
  by (auto simp: xml_name_char_def g_ascii_isalpha_def g_ascii_isupper_def g_ascii_islower_def code_of_def)

lemma attr_step_text:
  assumes "name_ok a" "value_ok v" "\<not> invalid_decl a v" "a \<notin> set names" "xp_ok xp"
  shows "attr_step (at_point xp (attribute_text a v @ r)) names = Attr_More a v (declare_binding a v (at_point xp r))"
proof -
  let ?e = "ns_xml_escape_append v True"
  let ?q = "CHR 0x22" and ?sp = "CHR '' ''"
  have sp: "xml_is_space ?sp" "\<not> xml_is_space CHR ''=''" "\<not> xml_is_space ?q" by code_simp+
  have p: "attribute_text a v @ r = ?sp # a @ CHR ''='' # ?q # ?e @ ?q # r" by (simp add: attribute_text_def)
  have d: "dropWhile xml_is_space (?sp # a @ CHR ''='' # ?q # ?e @ ?q # r) = a @ CHR ''='' # ?q # ?e @ ?q # r"
    using skip_to [of a] name_head [OF assms(1)] sp by simp
  have h: "hd (a @ CHR ''='' # ?q # ?e @ ?q # r) = hd a" using name_head [OF assms(1)] by simp
  have "?q \<notin> set ?e" using escaped_chars [OF assms(2), of ?q True] by auto
  note s = strchr_at [OF this, of r]
  have x: "xml_skip_space (at_point xp (attribute_text a v @ r)) = at_point xp (a @ CHR ''='' # ?q # ?e @ ?q # r)"
    by (simp add: xml_skip_space_def p d del: dropWhile.simps)
  have "attr_value_step (at_point xp (a @ CHR ''='' # ?q # ?e @ ?q # r)) names a (?q # ?e @ ?q # r) =
     Attr_More a v (declare_binding a v (at_point xp r))"
    using assms(3-5) s decode_text_escaped [OF assms(2), of "at_point xp (a @ CHR ''='' # ?q # ?e @ ?q # r)" True]
    by (simp add: attr_value_step_def between_at)
  then show ?thesis
    using name_head [OF assms(1)] names_no_markup [of "hd a"] read_name_ok [OF assms(1)] name_valid [OF assms(1)] sp h
    unfolding attr_step_def x by (simp add: Let_def)
qed


definition decl_pairs :: "cstr \<Rightarrow> cstr \<Rightarrow> (cstr \<times> cstr) list" where
  "decl_pairs inherited uri = (if uri = inherited then [] else [(''xmlns'', uri)])"

definition entered :: "cstr \<Rightarrow> cstr \<Rightarrow> xml_parser \<Rightarrow> xml_parser" where
  "entered inherited uri xp = (if uri = inherited then xp else xml_push_binding None uri xp)"

definition tag_end :: "cstr \<Rightarrow> bool" where
  "tag_end e \<longleftrightarrow> e \<noteq> [] \<and> (hd e = CHR ''>'' \<or> hd e = CHR ''/'')"

lemma tag_end_not_space: "tag_end e \<Longrightarrow> dropWhile xml_is_space e = e"
  by (cases e) (auto simp: tag_end_def xml_is_space_def)

lemma plain_attr_undeclared: "attr_ok (a, v) \<Longrightarrow> declare_binding a v xp = xp \<and> \<not> invalid_decl a v"
proof -
  assume ok: "attr_ok (a, v)"
  have "take 6 a \<noteq> ''xmlns:''"
  proof
    assume "take 6 a = ''xmlns:''"
    then have "CHR '':'' \<in> set (take 6 a)" by simp
    then show False using ok set_take_subset [of 6 a] by (auto simp: attr_ok_def name_ok_def)
  qed
  then show ?thesis using ok by (simp add: declare_binding_def invalid_decl_def attr_ok_def)
qed

lemma attributes_parsed:
  assumes "list_all attr_ok ats" "distinct (map fst ats)" "fst ` set ats \<inter> set names = {}" "tag_end e" "xp_ok xp"
  shows "xml_parse_attributes (at_point xp (attributes_text ats @ e)) names = (Some ats, at_point xp e)"
  using assms(1-3)
proof (induction ats arbitrary: names)
  case Nil
  have "attr_step (at_point xp e) names = Attr_Done (at_point xp e)"
    using assms(4) tag_end_not_space [OF assms(4)] by (simp add: attr_step_def xml_skip_space_def tag_end_def)
  then show ?case by (simp add: xml_parse_attributes.simps [of "at_point xp e"] attributes_text_def)
next
  case (Cons nv ats)
  obtain a v where nv: "nv = (a, v)" by fastforce
  have ok: "attr_ok (a, v)" using Cons.prems(1) nv by simp
  note u = plain_attr_undeclared [OF ok]
  have "attr_step (at_point xp (attribute_text a v @ attributes_text ats @ e)) names = Attr_More a v (at_point xp (attributes_text ats @ e))"
    using attr_step_text [of a v names xp "attributes_text ats @ e"] u ok assms(5) Cons.prems(3) nv by (auto simp: attr_ok_def)
  moreover have "xml_parse_attributes (at_point xp (attributes_text ats @ e)) (names @ [a]) = (Some ats, at_point xp e)"
    using Cons.IH [of "names @ [a]"] Cons.prems nv by auto
  moreover have t: "attributes_text (nv # ats) @ e = attribute_text a v @ attributes_text ats @ e"
    by (simp add: nv attributes_text_def)
  ultimately show ?case
    unfolding t by (simp add: xml_parse_attributes.simps [of "at_point xp (attribute_text a v @ attributes_text ats @ e)"] nv)
qed

lemma xmlns_name: "name_ok ''xmlns''" by code_simp

lemma start_attributes_parsed:
  assumes "list_all attr_ok ats" "distinct (map fst ats)" "tag_end e" "xp_ok xp" "ns_ok u"
  shows "xml_parse_attributes (at_point xp (decl_text inh u @ attributes_text ats @ e)) [] =
    (Some (decl_pairs inh u @ ats), at_point (entered inh u xp) e)"
proof (cases "u = inh")
  case True
  then show ?thesis using attributes_parsed [OF assms(1,2) _ assms(3,4), of "[]"] by (simp add: decl_text_def decl_pairs_def entered_def)
next
  case False
  let ?y = "xml_push_binding None u xp"
  have y: "xp_ok ?y" "at_point ?y q = declare_binding ''xmlns'' u (at_point xp q)" for q
    using assms(4) by (simp_all add: xml_push_binding_def declare_binding_def)
  have "\<not> invalid_decl ''xmlns'' u" using assms(5) by (simp add: invalid_decl_def ns_ok_def)
  then have "attr_step (at_point xp (attribute_text ''xmlns'' u @ attributes_text ats @ e)) [] =
      Attr_More ''xmlns'' u (at_point ?y (attributes_text ats @ e))"
    using attr_step_text [OF xmlns_name, of u "[]" xp "attributes_text ats @ e"] assms(4,5) y(2) by (simp add: ns_ok_def)
  moreover have "fst ` set ats \<inter> set [''xmlns''] = {}" using assms(1) by (auto simp: list_all_iff attr_ok_def)
  from attributes_parsed [OF assms(1,2) this assms(3) y(1)]
  have "xml_parse_attributes (at_point ?y (attributes_text ats @ e)) [''xmlns''] = (Some ats, at_point ?y e)" .
  ultimately show ?thesis
    using False
    by (simp add: xml_parse_attributes.simps [of "at_point xp (attribute_text ''xmlns'' u @ attributes_text ats @ e)"]
        decl_text_def decl_pairs_def entered_def)
qed

lemma set_attr_ns_appends:
  "\<forall>b\<in>set as. \<not> ns_attr_matches_ns b uri loc \<Longrightarrow>
   set_attr_ns_loop uri pfx loc name v as =
     as @ [\<lparr>attr_name = name, attr_value = v, namespace_uri = uri, attr_prefix = pfx, local_name = Some loc\<rparr>]"
  by (induction uri pfx loc name v as rule: set_attr_ns_loop.induct) auto

lemma apply_plain:
  assumes "attr_ok (a, v)" "\<forall>b\<in>set as. \<not> ns_attr_matches_ns b None a"
  shows "apply_attribute (a, v) (as, xp) = (as @ [plain_attr a v], xp)"
  using assms no_colon [of a] set_attr_ns_appends [OF assms(2)]
  by (simp add: apply_attribute_def attr_ok_def ns_element_set_attr_ns_def ns_attr_normalize_namespace_def
      nonempty_def plain_attr_def name_ok_def)

lemma apply_plains:
  assumes "list_all attr_ok ats" "distinct (map fst ats)" "\<forall>b\<in>set as. \<forall>a\<in>fst ` set ats. \<not> ns_attr_matches_ns b None a"
  shows "fold apply_attribute ats (as, xp) = (as @ map (\<lambda>(a, v). plain_attr a v) ats, xp)"
  using assms
proof (induction ats arbitrary: as)
  case (Cons nv ats)
  obtain a v where nv: "nv = (a, v)" by fastforce
  have s: "apply_attribute (a, v) (as, xp) = (as @ [plain_attr a v], xp)"
    using Cons.prems nv by (intro apply_plain) auto
  have "\<forall>b\<in>set (as @ [plain_attr a v]). \<forall>c\<in>fst ` set ats. \<not> ns_attr_matches_ns b None c"
    using Cons.prems nv by (auto simp: ns_attr_matches_ns_def plain_attr_def ns_attr_local_name_def)
  then show ?case using Cons.IH [of "as @ [plain_attr a v]"] Cons.prems s nv by simp
qed simp

lemma attributes_applied:
  assumes "list_all attr_ok ats" "distinct (map fst ats)"
  shows "fold apply_attribute (decl_pairs inh u @ ats) (uri_attrs u, xp) = (element_attrs inh u ats, xp)"
proof -
  have d: "fold apply_attribute (decl_pairs inh u) (uri_attrs u, xp) = (uri_attrs u @ decl_attrs inh u, xp)"
  proof (cases "u = inh")
    case False
    have "\<not> ns_attr_name_is_internal ''xmlns''" "strchr ''xmlns'' CHR '':'' = None" by code_simp+
    moreover have "\<forall>b\<in>set (uri_attrs u). \<not> ns_attr_matches_ns b (Some XML_NS_XMLNS) ''xmlns''"
      by (simp add: uri_attrs_def ns_attr_matches_ns_def ns_attr_normalize_namespace_def nonempty_def XML_NS_XMLNS_def)
    note set_attr_ns_appends [OF this, of None "''xmlns''" u]
    ultimately show ?thesis
      using False
      by (simp add: decl_pairs_def decl_attrs_def apply_attribute_def ns_element_set_attr_ns_def
          ns_attr_normalize_namespace_def nonempty_def XML_NS_XMLNS_def)
  qed (simp add: decl_pairs_def decl_attrs_def)
  have "\<forall>b\<in>set (uri_attrs u @ decl_attrs inh u). \<forall>a\<in>fst ` set ats. \<not> ns_attr_matches_ns b None a"
  proof -
    have "\<forall>a\<in>fst ` set ats. a \<noteq> ''data-nd-ns-uri''"
      using assms(1) internal_names(2) unfolding list_all_iff attr_ok_def by fastforce
    then show ?thesis
      by (auto simp: uri_attrs_def decl_attrs_def ns_attr_matches_ns_def ns_attr_local_name_def
          ns_attr_normalize_namespace_def nonempty_def XML_NS_XMLNS_def)
  qed
  from apply_plains [OF assms this] show ?thesis by (simp add: d element_attrs_def)
qed


lemma entered_simps [simp]:
  "xp_p (entered i u xp) = xp_p xp" "xp_ok (entered i u xp) = xp_ok xp"
  by (simp_all add: entered_def xml_push_binding_def)

lemma lookup_point [simp]: "xml_lookup_prefix (at_point xp p) q = xml_lookup_prefix xp q"
  by (simp add: xml_lookup_prefix_def)

lemma default_point [simp]: "default_ns (at_point xp p) = default_ns xp"
  by (simp add: default_ns_def)

lemma entered_default: "default_ns xp = inh \<Longrightarrow> default_ns (entered inh u xp) = u"
  by (auto simp: entered_def default_ns_def xml_lookup_prefix_def xml_push_binding_def nonempty_def)

lemma namespace_applied:
  assumes "name_ok n" "str_or uri [] = u"
  shows "xml_apply_namespace n uri = (uri_attrs u, flag_of u)"
proof -
  have "nonempty uri \<longleftrightarrow> u \<noteq> []" "u \<noteq> [] \<Longrightarrow> uri = Some u" "u = [] \<Longrightarrow> uri = None \<or> uri = Some []"
    using assms(2) by (cases uri; auto simp: nonempty_def)+
  then show ?thesis
    using no_colon [OF assms(1)] namespace_constants(1,2) [symmetric]
    by (auto simp: xml_apply_namespace_def Let_def uri_attrs_def flag_of_def)
qed

lemma entered_pop:
  "pop_bindings (length (ns_stack xp)) (at_point (entered inh u xp) q) = at_point xp q"
  by (simp add: pop_bindings_def entered_def xml_push_binding_def)

lemma tag_text_parsed:
  assumes "name_ok n" "ns_ok u" "list_all attr_ok ats" "distinct (map fst ats)" "tag_end e" "xp_ok xp"
    "default_ns xp = inh" "depth \<le> XML_MAX_DEPTH"
  shows "element_head (at_point xp (''<'' @ n @ decl_text inh u @ attributes_text ats @ e)) depth =
    start_tag_end n n (flag_of u) (element_attrs inh u ats) (length (ns_stack xp)) (at_point (entered inh u xp) e)"
proof -
  let ?t = "decl_text inh u @ attributes_text ats @ e"
  obtain c r where c: "?t = c # r" "\<not> xml_name_char c False"
  proof (cases ?t)
    case (Cons c r)
    then have "c \<in> {CHR '' '', CHR ''>'', CHR ''/''}"
      using assms(5) by (cases ats) (auto simp: decl_text_def attribute_text_def attributes_text_def tag_end_def split: if_splits)
    then show thesis using that Cons by auto
  qed (use assms(5) in \<open>auto simp: tag_end_def\<close>)
  have rd: "read_name_at (n @ ?t) = Some (n, ?t)"
    unfolding c(1) by (rule read_name_ok [OF assms(1) c(2)])
  have nx: "\<not> g_str_has_prefix n ''xmlns:''"
    using assms(1) by (auto simp: name_ok_def has_prefix_iff)
  have "xml_parse_attributes (at_point xp ?t) [] = (Some (decl_pairs inh u @ ats), at_point (entered inh u xp) e)"
    by (rule start_attributes_parsed [OF assms(3,4,5,6,2)])
  then have "element_head (at_point xp (''<'' @ n @ ?t)) depth =
      element_named n (length (ns_stack xp)) (decl_pairs inh u @ ats) (at_point (entered inh u xp) e)"
    using assms(8) rd nx name_valid [OF assms(1)] by (simp add: element_head_def xml_read_name_def)
  also have "\<dots> = start_tag_end n n (flag_of u) (element_attrs inh u ats) (length (ns_stack xp)) (at_point (entered inh u xp) e)"
  proof -
    have "str_or (xml_lookup_prefix (at_point (entered inh u xp) e) None) [] = u"
      using entered_default [OF assms(7)] by (simp add: default_ns_def)
    note na = namespace_applied [OF assms(1) this]
    show ?thesis
      using no_colon [OF assms(1)] na attributes_applied [OF assms(3,4)] assms(6) by (simp add: element_named_def)
  qed
  finally show ?thesis by simp
qed

lemma open_tag_parsed:
  assumes "name_ok n" "ns_ok u" "list_all attr_ok ats" "distinct (map fst ats)" "xp_ok xp" "default_ns xp = inh"
    "depth \<le> XML_MAX_DEPTH"
  shows "element_head (at_point xp (''<'' @ n @ decl_text inh u @ attributes_text ats @ ''>'' @ r)) depth =
    Head_Open n n (flag_of u) (element_attrs inh u ats) (at_point (entered inh u xp) r)"
proof -
  have e: "tag_end (''>'' @ r)" by (simp add: tag_end_def)
  show ?thesis
    using tag_end_not_space [OF e] unfolding tag_text_parsed [OF assms(1-4) e assms(5-7)]
    by (simp add: start_tag_end_def xml_skip_space_def)
qed

lemma empty_tag_parsed:
  assumes "name_ok n" "ns_ok u" "list_all attr_ok ats" "distinct (map fst ats)" "xp_ok xp" "default_ns xp = inh"
    "depth \<le> XML_MAX_DEPTH"
  shows "element_head (at_point xp (''<'' @ n @ decl_text inh u @ attributes_text ats @ ''/>'' @ r)) depth =
    Head_Closed (Element n (flag_of u) (element_attrs inh u ats) []) (at_point xp r)"
proof -
  have e: "tag_end (''/>'' @ r)" by (simp add: tag_end_def)
  show ?thesis
    using tag_end_not_space [OF e] entered_pop [of xp] unfolding tag_text_parsed [OF assms(1-4) e assms(5-7)]
    by (simp add: start_tag_end_def xml_skip_space_def)
qed

lemma end_tag_parsed:
  assumes "name_ok n" "xp_ok xp"
  shows "parse_content (at_point xp (closing_tag n @ r)) n depth = Some ([], at_point xp r)"
proof -
  have "read_name_at (n @ ''>'' @ r) = Some (n, ''>'' @ r)" using read_name_ok [OF assms(1), of "CHR ''>''" r] by simp
  then have "end_tag (at_point xp (closing_tag n @ r)) n = at_point xp r"
    using name_valid [OF assms(1)]
    by (simp add: end_tag_def xml_read_name_def closing_tag_def xml_skip_space_def xml_is_space_def)
  then have "content_step (at_point xp (closing_tag n @ r)) n = Content_Stop (at_point xp r)"
    using assms(2) by (simp add: content_step_def closing_tag_def)
  then show ?thesis by (simp add: parse_content.simps [of "at_point xp (closing_tag n @ r)"])
qed


lemma prefix_of_append: "length d \<le> length y \<Longrightarrow> g_str_has_prefix (y @ s) d = g_str_has_prefix y d"
  by (simp add: g_str_has_prefix_def)

lemma strstr_append: "strstr x d = Some y \<Longrightarrow> strstr (x @ s) d = Some (y @ s)"
proof (induction x)
  case Nil
  then have "d = []" "y = []" by (subst (asm) strstr.simps; auto simp: g_str_has_prefix_def split: if_splits)+
  then show ?case by (subst strstr.simps) (simp add: g_str_has_prefix_def)
next
  case (Cons c x)
  show ?case
  proof (cases "g_str_has_prefix (c # x) d")
    case True
    then have "y = c # x" using Cons.prems by (subst (asm) strstr.simps) simp
    moreover have "g_str_has_prefix (c # x @ s) d" using True by (metis append_Cons append_assoc has_prefix_iff)
    ultimately show ?thesis by (subst strstr.simps) simp
  next
    case False
    then have r: "strstr x d = Some y" using Cons.prems by (subst (asm) strstr.simps) simp
    then have "length d \<le> length x"
      using strstr_tail [OF r] tail_of_length [of y x] by (auto simp: has_prefix_iff)
    then have "\<not> g_str_has_prefix (c # x @ s) d" using False prefix_of_append [of d "c # x" s] by simp
    then show ?thesis using Cons.IH [OF r] by (subst strstr.simps) simp
  qed
qed

lemma up_to_ends: "ends_at t d \<Longrightarrow> up_to d (t @ d @ s) = Some (t, s)"
  using strstr_append [of "t @ d" d d s] by (simp add: up_to_def ends_at_def text_between_def)

definition parses :: "nat \<Rightarrow> cstr \<Rightarrow> xdoc \<Rightarrow> bool" where
  "parses depth inh d \<longleftrightarrow>
     (\<forall>xp q s. xp_ok xp \<longrightarrow> default_ns xp = inh \<longrightarrow> (is_chars d \<longrightarrow> s \<noteq> [] \<and> hd s = CHR ''<'') \<longrightarrow>
        parse_content (at_point xp (print_doc inh d @ s)) q depth =
          Option.bind (parse_content (at_point xp s) q depth) (\<lambda>(ns, xp2). Some (tree_of inh d # ns, xp2)))"

lemma leaf_parsed:
  assumes "\<And>xp q s. xp_ok xp \<Longrightarrow> (is_chars d \<Longrightarrow> s \<noteq> [] \<and> hd s = CHR ''<'') \<Longrightarrow>
      content_step (at_point xp (print_doc inh d @ s)) q = Content_Node (tree_of inh d) (at_point xp s)"
  shows "parses depth inh d"
  unfolding parses_def
proof (intro allI impI)
  fix xp q s
  assume a: "xp_ok xp" "default_ns xp = inh" "is_chars d \<longrightarrow> s \<noteq> [] \<and> hd s = CHR ''<''"
  show "parse_content (at_point xp (print_doc inh d @ s)) q depth =
      Option.bind (parse_content (at_point xp s) q depth) (\<lambda>(ns, xp2). Some (tree_of inh d # ns, xp2))"
    by (subst parse_content.simps) (use assms [OF a(1)] a(3) in simp)
qed

lemma chars_parsed:
  assumes "value_ok t" "t \<noteq> []"
  shows "parses depth inh (XText t False)"
proof (rule leaf_parsed)
  fix xp :: xml_parser and q s :: cstr
  assume a: "xp_ok xp" "is_chars (XText t False) \<Longrightarrow> s \<noteq> [] \<and> hd s = CHR ''<''"
  let ?e = "ns_xml_escape_append t False" and ?P = "\<lambda>c. c \<noteq> CHR ''<''"
  have P: "\<forall>c\<in>set ?e. ?P c" using escaped_chars [OF assms(1)] by blast
  have ne: "?e \<noteq> []"
    using assms escape_simps(2) [of "hd t" "tl t" False] by (cases t) (auto simp: xml_escape_char_def)
  have "hd ?e \<in> set ?e" using ne by simp
  then have hd: "hd (?e @ s) \<noteq> CHR ''<''" using P ne by auto
  obtain s' where s: "s = CHR ''<'' # s'" using a(2) by (cases s) auto
  have "takeWhile ?P (?e @ s) = ?e" "dropWhile ?P (?e @ s) = s"
    using P s by (simp_all add: takeWhile_append2 dropWhile_append2)
  then show "content_step (at_point xp (print_doc inh (XText t False) @ s)) q =
      Content_Node (tree_of inh (XText t False)) (at_point xp s)"
    using a(1) hd ne decode_text_escaped [OF assms(1), of "at_point xp (?e @ s)" False] by (simp add: content_step_def)
qed

lemma cdata_parsed: "value_ok t \<Longrightarrow> ends_at t '']]>'' \<Longrightarrow> parses depth inh (XText t True)"
  by (rule leaf_parsed) (simp add: content_step_def delimited_def up_to_ends [of t "'']]>''", simplified] c_string_value)

lemma comment_parsed: "value_ok t \<Longrightarrow> ends_at t ''-->'' \<Longrightarrow> parses depth inh (XComment t)"
  by (rule leaf_parsed) (simp add: content_step_def delimited_def up_to_ends [of t "''-->''", simplified] c_string_value)

lemma pi_text:
  assumes "target \<noteq> []" "list_all (\<lambda>c. \<not> xml_is_space c) target" "value_ok target" "value_ok d" "d \<noteq> [] \<longrightarrow> \<not> xml_is_space (hd d)"
  shows "pi_node (target @ (if d \<noteq> [] then '' '' @ d else [])) = PI target d"
proof -
  let ?P = "\<lambda>c. \<not> xml_is_space c"
  have sp: "xml_is_space CHR '' ''" by code_simp
  have t: "\<forall>c\<in>set target. ?P c" using assms(2) by (simp add: list_all_iff)
  show ?thesis
  proof (cases "d = []")
    case True
    then show ?thesis using t assms(3) by (auto simp: pi_node_def c_string_def value_ok_def takeWhile_eq_all_conv [THEN iffD2] dropWhile_eq_Nil_conv [THEN iffD2])
  next
    case False
    have "takeWhile ?P (target @ CHR '' '' # d) = target" "dropWhile ?P (target @ CHR '' '' # d) = CHR '' '' # d"
      using t sp by (simp_all add: takeWhile_append2 dropWhile_append2)
    then show ?thesis using False sp assms(3-5) skip_to [of d "[]"] by (simp add: pi_node_def c_string_value)
  qed
qed


lemma pi_parsed:
  assumes "doc_ok depth (XPI target d)"
  shows "parses depth' inh (XPI target d)"
proof (rule leaf_parsed)
  fix xp :: xml_parser and q s :: cstr
  assume ok: "xp_ok xp"
  let ?t = "target @ (if d \<noteq> [] then '' '' @ d else [])"
  have "up_to ''?>'' (?t @ ''?>'' @ s) = Some (?t, s)" using up_to_ends [of ?t "''?>''" s] assms by simp
  moreover have "pi_node ?t = PI target d" by (rule pi_text) (use assms in auto)
  ultimately have "delimited (at_point xp (''<?'' @ ?t @ ''?>'' @ s)) 2 ''?>'' pi_node = Content_Node (PI target d) (at_point xp s)"
    by (simp add: delimited_def del: append.simps(2) append_Cons) 
  then show "content_step (at_point xp (print_doc inh (XPI target d) @ s)) q = Content_Node (tree_of inh (XPI target d)) (at_point xp s)"
    using ok by (simp add: content_step_def)
qed

lemma element_step:
  "name_ok n \<Longrightarrow> xp_ok xp \<Longrightarrow> content_step (at_point xp (''<'' @ n @ s)) q = Content_Element"
  using name_head [of n] names_no_markup [of "hd n"] by (cases n) (auto simp: content_step_def)

lemma print_head: "doc_ok depth d \<Longrightarrow> \<not> is_chars d \<Longrightarrow> print_doc inh d \<noteq> [] \<and> hd (print_doc inh d) = CHR ''<''"
  by (cases d) auto

lemma children_parsed:
  assumes "\<And>k. k \<in> set kids \<Longrightarrow> parses depth u k" "\<And>k. k \<in> set kids \<Longrightarrow> doc_ok (depth + 1) k"
    "no_adjacent_texts kids" "xp_ok xp" "default_ns xp = u" "name_ok n"
  shows "parse_content (at_point xp (concat (map (print_doc u) kids) @ closing_tag n @ r)) n depth =
    Some (map (tree_of u) kids, at_point xp r)"
  using assms(1-3)
proof (induction kids)
  case Nil
  then show ?case using end_tag_parsed [OF assms(6,4)] by simp
next
  case (Cons k kids)
  let ?s = "concat (map (print_doc u) kids) @ closing_tag n @ r"
  have s: "is_chars k \<longrightarrow> ?s \<noteq> [] \<and> hd ?s = CHR ''<''"
  proof (cases kids)
    case (Cons e ks)
    then have "is_chars k \<longrightarrow> \<not> is_chars e" using Cons.prems(3) by simp
    then show ?thesis using print_head [of "depth + 1" e u] Cons.prems(2) [of e] Cons by auto
  qed (simp add: closing_tag_def)
  have "parse_content (at_point xp ?s) n depth = Some (map (tree_of u) kids, at_point xp r)"
    using Cons.IH Cons.prems by (cases kids) auto
  then show ?case using Cons.prems(1) [of k] s assms(4,5) by (simp add: parses_def)
qed

lemma element_parsed:
  assumes "doc_ok (depth + 1) (XElem n u ats kids)" "\<And>k. k \<in> set kids \<Longrightarrow> parses (depth + 1) u k"
  shows "parses depth inh (XElem n u ats kids)"
  unfolding parses_def
proof (intro allI impI)
  fix xp q s
  assume xp: "xp_ok xp" "default_ns xp = inh"
  let ?d = "XElem n u ats kids" and ?h = "decl_text inh u @ attributes_text ats"
  have ok: "name_ok n" "ns_ok u" "list_all attr_ok ats" "distinct (map fst ats)" "depth + 1 \<le> XML_MAX_DEPTH"
    using assms(1) by auto
  note ot = open_tag_parsed [OF ok(1-4) xp ok(5)] and et = empty_tag_parsed [OF ok(1-4) xp ok(5)]
  let ?rest = "Option.bind (parse_content (at_point xp s) q depth) (\<lambda>(ns, xp2). Some (tree_of inh ?d # ns, xp2))"
  have opened: "parse_content (at_point xp (''<'' @ n @ ?h @ ''>'' @ concat (map (print_doc u) kids) @ closing_tag n @ s)) q depth = ?rest"
  proof -
    let ?p = "''<'' @ n @ ?h @ ''>'' @ concat (map (print_doc u) kids) @ closing_tag n @ s"
    have "content_step (at_point xp ?p) q = Content_Element" by (rule element_step [OF ok(1) xp(1)])
    moreover have "element_head (at_point xp ?p) (depth + 1) = Head_Open n n (flag_of u) (element_attrs inh u ats)
        (at_point (entered inh u xp) (concat (map (print_doc u) kids) @ closing_tag n @ s))"
      using ot [of "concat (map (print_doc u) kids) @ closing_tag n @ s"] by simp
    moreover have "parse_content (at_point (entered inh u xp) (concat (map (print_doc u) kids) @ closing_tag n @ s)) n (depth + 1) =
        Some (map (tree_of u) kids, at_point (entered inh u xp) s)"
      by (rule children_parsed) (use assms ok xp entered_default [OF xp(2)] in \<open>auto simp: list_all_iff\<close>)
    ultimately show ?thesis
      using entered_pop [of xp] by (subst parse_content.simps) simp
  qed
  show "parse_content (at_point xp (print_doc inh ?d @ s)) q depth = ?rest"
  proof (cases "kids = [] \<and> \<not> (u = XML_NS_XHTML \<and> \<not> ns_html_is_void n)")
    case True
    let ?p = "''<'' @ n @ ?h @ ''/>'' @ s"
    have p: "print_doc inh ?d @ s = ?p" using True by auto
    have "content_step (at_point xp ?p) q = Content_Element" by (rule element_step [OF ok(1) xp(1)])
    moreover have "element_head (at_point xp ?p) (depth + 1) = Head_Closed (tree_of inh ?d) (at_point xp s)"
      using et [of s] True by simp
    ultimately show ?thesis unfolding p by (subst parse_content.simps) simp
  next
    case False
    then have "print_doc inh ?d @ s = ''<'' @ n @ ?h @ ''>'' @ concat (map (print_doc u) kids) @ closing_tag n @ s" by auto
    with opened show ?thesis by simp
  qed
qed

lemma doc_parsed: "doc_ok (depth + 1) d \<Longrightarrow> parses depth inh d"
proof (induction d arbitrary: depth inh)
  case (XElem n u ats kids)
  show ?case
    by (rule element_parsed [OF XElem.prems]) (use XElem in \<open>auto simp: list_all_iff\<close>)
next
  case (XText t cdata)
  then show ?case by (cases cdata) (auto intro: chars_parsed cdata_parsed)
next
  case (XComment t)
  then show ?case by (auto intro: comment_parsed)
next
  case (XPI target d)
  then show ?case by (rule pi_parsed)
qed


lemma misc_before_element: "name_ok n \<Longrightarrow> misc_step (at_point xp (''<'' @ n @ s)) = Misc_End (at_point xp (''<'' @ n @ s))"
proof -
  assume ok: "name_ok n"
  obtain c m where n: "n = c # m" using ok by (cases n) (auto simp: name_ok_def)
  then have c: "xml_name_char c True" using ok by (simp add: name_ok_def)
  have "g_ascii_tolower c \<noteq> CHR ''!''"
  proof (cases "g_ascii_isupper c")
    case True
    then have "code_of (g_ascii_tolower c) \<ge> 97" by (simp add: code_of_tolower g_ascii_isupper_def)
    then show ?thesis by (auto simp: code_of_def)
  next
    case False
    then show ?thesis using names_no_markup [OF c] by (simp add: g_ascii_tolower_def)
  qed
  moreover have "g_ascii_tolower CHR ''!'' = CHR ''!''" by code_simp
  ultimately have "\<not> strncaseeq (CHR ''<'' # c # m @ s) ''<!DOCTYPE'' 9"
    by (simp add: strncaseeq_def strcaseeq_def g_ascii_strdown_def)
  then show ?thesis
    using names_no_markup [OF c] n by (auto simp: misc_step_def xml_skip_space_def xml_is_space_def Let_def)
qed

lemma misc_at_end: "misc_step (at_point xp []) = Misc_End (at_point xp [])"
  by (simp add: misc_step_def xml_skip_space_def)

lemma root_parsed:
  assumes "doc_ok 0 (XElem n u ats kids)" "xp_ok xp" "default_ns xp = inh"
  shows "xml_parse_element (at_point xp (print_doc inh (XElem n u ats kids))) 0 = Some ([tree_of inh (XElem n u ats kids)], at_point xp [])"
proof -
  let ?d = "XElem n u ats kids" and ?h = "decl_text inh u @ attributes_text ats"
  have ok: "name_ok n" "ns_ok u" "list_all attr_ok ats" "distinct (map fst ats)" "0 \<le> XML_MAX_DEPTH"
    using assms(1) by auto
  note ot = open_tag_parsed [OF ok(1-4) assms(2,3) ok(5)] and et = empty_tag_parsed [OF ok(1-4) assms(2,3) ok(5)]
  show ?thesis
  proof (cases "kids = [] \<and> \<not> (u = XML_NS_XHTML \<and> \<not> ns_html_is_void n)")
    case True
    then have p: "print_doc inh ?d = ''<'' @ n @ ?h @ ''/>'' @ []" by auto
    show ?thesis using et [of "[]"] True unfolding p by (simp add: xml_parse_element_def)
  next
    case False
    then have p: "print_doc inh ?d = ''<'' @ n @ ?h @ ''>'' @ concat (map (print_doc u) kids) @ closing_tag n @ []" by auto
    have "parse_content (at_point (entered inh u xp) (concat (map (print_doc u) kids) @ closing_tag n @ [])) n 0 =
        Some (map (tree_of u) kids, at_point (entered inh u xp) [])"
      by (rule children_parsed)
        (use assms ok doc_parsed [of 0] entered_default [OF assms(3)] in \<open>auto simp: list_all_iff\<close>)
    then show ?thesis
      using ot [of "concat (map (print_doc u) kids) @ closing_tag n @ []"] entered_pop [of xp]
      unfolding p by (simp add: xml_parse_element_def)
  qed
qed

lemma printed_parsed:
  assumes "doc_ok 0 (XElem n u ats kids)"
  shows "ns_xml_parse_reporting (Some (print_doc [] (XElem n u ats kids))) = Some (Inr [tree_of [] (XElem n u ats kids)])"
proof -
  let ?d = "XElem n u ats kids" and ?xp = "xml_parser_init []"
  have ok: "name_ok n" using assms by simp
  obtain s where p: "print_doc [] ?d = ''<'' @ n @ s" by auto
  have i: "xml_parser_init (print_doc [] ?d) = at_point ?xp (print_doc [] ?d)"
  proof -
    have "CHR ''<'' \<noteq> char_at 0xEF" by code_simp
    then show ?thesis unfolding p by (simp add: xml_parser_init_def)
  qed
  have "xml_skip_misc_and_doctype (at_point ?xp (print_doc [] ?d)) = ([], at_point ?xp (print_doc [] ?d))"
    unfolding p using misc_before_element [OF ok, of s ?xp] by (simp add: xml_skip_misc_and_doctype.simps)
  moreover have "xml_parse_element (at_point ?xp (print_doc [] ?d)) 0 = Some ([tree_of [] ?d], at_point ?xp [])"
    by (rule root_parsed [OF assms]) (simp_all add: default_ns_def xml_lookup_prefix_def)
  moreover have "xml_skip_misc_and_doctype (at_point ?xp []) = ([], at_point ?xp [])"
    using misc_at_end [of ?xp] by (simp add: xml_skip_misc_and_doctype.simps)
  ultimately have "parse_document (at_point ?xp (print_doc [] ?d)) = Some ([tree_of [] ?d], at_point ?xp [])"
    unfolding p by (simp add: parse_document_def)
  then show ?thesis unfolding ns_xml_parse_reporting_def option.case i by simp
qed

lemma roundtrip:
  assumes "doc_ok 0 (XElem n u ats kids)"
  shows "ns_xml_parse_reporting (Some (ns_node_xml_outer_html [] (tree_of [] (XElem n u ats kids)))) =
    Some (Inr [tree_of [] (XElem n u ats kids)])"
proof -
  have "0 + doc_height (XElem n u ats kids) < NS_DOM_MAX_DEPTH"
    using doc_height_ok [OF assms le0] unfolding XML_MAX_DEPTH_def NS_DOM_MAX_DEPTH_def by linarith
  from serialize_is_print [OF assms _ _ this, of "[]" None "[]" 1]
  have "ns_node_xml_outer_html [] (tree_of [] (XElem n u ats kids)) = print_doc [] (XElem n u ats kids)"
    by (simp add: ns_node_xml_outer_html_def unprefixed_def)
  then show ?thesis using printed_parsed [OF assms] by simp
qed

section \<open>Properties\<close>

text \<open>
  C6: Writing and reading are inverse on the documents that need no prefixes: for an element with a name, a
  namespace, attributes and content, its descendants in namespaces of their own, with texts, CDATA sections,
  comments and processing instructions of any characters that can be written, what \<open>ns_node_xml_outer_html\<close> writes
  is parsed into exactly the tree it was given, namespaces, declarations and the browser's own attributes included.
\<close>

theorem xml_serialize_parse:
  assumes "doc_ok 0 (XElem n u ats kids)"
  shows "ns_xml_parse_reporting (Some (ns_node_xml_outer_html [] (tree_of [] (XElem n u ats kids)))) =
    Some (Inr [tree_of [] (XElem n u ats kids)])"
  by (rule roundtrip [OF assms])

definition sample_page :: xdoc where
  "sample_page = XElem ''html'' XML_NS_XHTML [(''lang'', ''a<b'')]
     [XElem ''p'' XML_NS_XHTML [] [XText ''x & y'' False, XElem ''br'' XML_NS_XHTML [] [], XText ''1 < 2'' True],
      XElem ''svg'' XML_NS_SVG [] [XElem ''g'' [] [] [XComment ''-'', XPI ''t'' ''d'']]]"

theorem xml_serialize_parse_witness:
  "ns_xml_parse_reporting (Some (ns_node_xml_outer_html [] (tree_of [] sample_page))) = Some (Inr [tree_of [] sample_page])"
  unfolding sample_page_def by (rule xml_serialize_parse) code_simp

end
