(* ===== verification/WebSocket.thy ===== *)
theory WebSocket
  imports Utf8
begin

text \<open>
  WebSocket connections (\<^verbatim>\<open>ws.c\<close>): the functions of the worker thread, with its callbacks to the page, the
  reassembly of messages, the sending of queued ones and the close handshake, and the calls of the page.
  libcurl, which speaks the protocol, is not part of the repository: its answers are arguments.  How page,
  worker and main loop run together is in the theory \<open>WebSocketRun\<close>.
\<close>

section \<open>State\<close>

definition NS_WS_MAX_MESSAGE :: nat where
  "NS_WS_MAX_MESSAGE = 8388608"

definition NS_WS_MAX_PENDING :: nat where
  "NS_WS_MAX_PENDING = 256"

datatype ns_ws_state =
  NS_WS_STATE_CONNECTING | NS_WS_STATE_OPEN | NS_WS_STATE_CLOSING | NS_WS_STATE_CLOSED

datatype ns_ws_out_kind = NS_WS_OUT_TEXT | NS_WS_OUT_BINARY | NS_WS_OUT_CLOSE

record ns_ws_out_msg =
  out_kind :: ns_ws_out_kind
  out_data :: cstr
  out_close_code :: int

text \<open>What is posted to the engine thread: which callback with which payload.\<close>

datatype ws_event =
    Ws_Open
  | Ws_Message (ws_is_text: bool) (ws_data: cstr)
  | Ws_Error cstr
  | Ws_Close int cstr bool

record ns_ws =
  ws_refcount :: nat
  ws_url :: cstr
  ws_origin :: "cstr option"
  ws_protocols :: "cstr list"
  out_queue :: "ns_ws_out_msg list"
  ws_state :: ns_ws_state
  ws_exit_requested :: bool
  ws_detached :: bool
  ws_pending :: nat
  recv_assembly :: cstr
  recv_assembly_binary :: bool     \<comment> \<open>\<^verbatim>\<open>recv_assembly_kind\<close> is \<^verbatim>\<open>CURLWS_BINARY\<close>\<close>
  recv_in_message :: bool
  ws_idles :: "ws_event list"      \<comment> \<open>the dispatches posted to the engine's main loop\<close>
  ws_timers :: "ws_event list"     \<comment> \<open>the dispatches it put off while the page was busy\<close>

text \<open>Whether the linked libcurl, whose list of protocols is the argument, speaks WebSocket.\<close>

definition ns_ws_curl_native :: "cstr list option \<Rightarrow> bool" where
  "ns_ws_curl_native protocols =
     (case protocols of None \<Rightarrow> False | Some ps \<Rightarrow> list_ex (\<lambda>p. strcaseeq p ''ws'' \<or> strcaseeq p ''wss'') ps)"

definition ns_ws_available :: "cstr list option \<Rightarrow> bool" where
  "ns_ws_available protocols = ns_ws_curl_native protocols"

text \<open>A new socket, held by the page and by the worker thread it starts.\<close>

definition ns_ws_new :: "cstr list option \<Rightarrow> cstr \<Rightarrow> cstr option \<Rightarrow> cstr list \<Rightarrow> ns_ws option" where
  "ns_ws_new curl_protocols url org protocols =
     (if \<not> ns_ws_available curl_protocols then None
      else Some
       \<lparr> ws_refcount = 2, ws_url = url, ws_origin = org, ws_protocols = protocols, out_queue = [],
         ws_state = NS_WS_STATE_CONNECTING, ws_exit_requested = False, ws_detached = False, ws_pending = 0,
         recv_assembly = [], recv_assembly_binary = False, recv_in_message = False,
         ws_idles = [], ws_timers = [] \<rparr>)"

definition ns_ws_ref :: "ns_ws \<Rightarrow> ns_ws" where
  "ns_ws_ref ws = ws\<lparr> ws_refcount := ws_refcount ws + 1 \<rparr>"

text \<open>The object, None when the last reference went.\<close>

definition ns_ws_unref :: "ns_ws \<Rightarrow> ns_ws option" where
  "ns_ws_unref ws =
     (if ws_refcount ws - 1 = 0 then None else Some (ws\<lparr> ws_refcount := ws_refcount ws - 1 \<rparr>))"

section \<open>Callbacks to the page\<close>

definition ns_ws_post :: "ws_event \<Rightarrow> bool \<Rightarrow> ns_ws \<Rightarrow> ns_ws" where
  "ns_ws_post e droppable ws =
     (if ws_detached ws then ws
      else if droppable \<and> ws_pending ws \<ge> NS_WS_MAX_PENDING then ws
      else ns_ws_ref (ws\<lparr> ws_pending := ws_pending ws + 1, ws_idles := ws_idles ws @ [e] \<rparr>))"

text \<open>
  One run of a dispatch taken from the main loop: the event the page is called with, if any, and the
  object, None when the dispatch held the last reference.  While the page is busy the dispatch comes
  back as a timer.
\<close>

definition ns_ws_dispatch_run :: "bool \<Rightarrow> ws_event \<Rightarrow> ns_ws \<Rightarrow> ws_event option \<times> ns_ws option" where
  "ns_ws_dispatch_run busy e ws =
     (if \<not> ws_detached ws \<and> busy then (None, Some (ws\<lparr> ws_timers := ws_timers ws @ [e] \<rparr>))
      else (if ws_detached ws then None else Some e, ns_ws_unref (ws\<lparr> ws_pending := ws_pending ws - 1 \<rparr>)))"

text \<open>What reaches the wire, as the calls of \<^verbatim>\<open>curl_ws_send\<close> hand it to libcurl.\<close>

datatype ws_frame =
    Data_frame (df_text: bool) (df_bytes: cstr) (df_whole: bool)
  | Pong_frame cstr
  | Close_frame cstr

text \<open>
  The worker runs beside the engine thread.  A function of the worker is the list of the atomic
  effects it has on what they share, which are performed one by one.
\<close>

datatype ws_action = Set_state ns_ws_state | Post ws_event bool | Hand ws_frame

definition ns_ws_dispatch_open :: "ws_action list" where
  "ns_ws_dispatch_open = [Set_state NS_WS_STATE_OPEN, Post Ws_Open False]"

definition ns_ws_dispatch_message :: "bool \<Rightarrow> cstr \<Rightarrow> ws_action list" where
  "ns_ws_dispatch_message is_text bytes = [Post (Ws_Message is_text bytes) True]"

definition ns_ws_dispatch_close :: "int \<Rightarrow> cstr option \<Rightarrow> bool \<Rightarrow> ws_action list" where
  "ns_ws_dispatch_close code reason clean =
     [Set_state NS_WS_STATE_CLOSED, Post (Ws_Close code (str_or reason []) clean) False]"

definition ns_ws_dispatch_error :: "cstr \<Rightarrow> ws_action list" where
  "ns_ws_dispatch_error msg = [Post (Ws_Error msg) False]"

section \<open>Sending\<close>

datatype curl_code = CURLE_OK | CURLE_AGAIN | Curl_error

text \<open>
  \<open>ns_ws_send_curl\<close>: each round reads the exit flag and asks libcurl to take the rest of the bytes; the
  answers are the flag, the result and the number of bytes taken.  The result is None while libcurl
  still owes an answer, else whether the whole message went out, and the pieces libcurl took.
\<close>

type_synonym send_answer = "bool \<times> curl_code \<times> nat"

fun send_loop :: "send_answer list \<Rightarrow> cstr \<Rightarrow> nat \<Rightarrow> (bool \<times> cstr list) option" where
  "send_loop [] rest stalls = None"
| "send_loop ((exit, rc, sent) # as) rest stalls =
     (if exit then Some (False, [])
      else case rc of
        CURLE_AGAIN \<Rightarrow> if stalls + 1 > 5000 then Some (False, []) else send_loop as rest (stalls + 1)
      | Curl_error \<Rightarrow> Some (False, [])
      | CURLE_OK \<Rightarrow>
          if length rest \<le> sent then Some (True, [take sent rest])
          else if sent = 0 then
            if stalls + 1 > 5000 then Some (False, []) else send_loop as rest (stalls + 1)
          else map_option (\<lambda>(ok, ps). (ok, take sent rest # ps)) (send_loop as (drop sent rest) 0))"

definition ns_ws_send_curl :: "send_answer list \<Rightarrow> cstr \<Rightarrow> (bool \<times> cstr list) option" where
  "ns_ws_send_curl answers bytes = send_loop answers bytes 0"

definition ns_ws_echo_close_code :: "int \<Rightarrow> int" where
  "ns_ws_echo_close_code code =
     (if code = 1000 \<or> code = 1001 \<or> code = 1002 \<or> code = 1003 \<or>
         1007 \<le> code \<and> code \<le> 1014 \<or> 3000 \<le> code \<and> code \<le> 4999 then code else 0)"

definition close_payload :: "int \<Rightarrow> cstr option \<Rightarrow> cstr" where
  "close_payload code reason =
     (if code > 0 then
        [char_at (nat (code div 256 mod 256)), char_at (nat (code mod 256))] @ take 123 (str_or reason [])
      else [])"

definition ns_ws_send_close_frame :: "int \<Rightarrow> cstr option \<Rightarrow> ws_action list" where
  "ns_ws_send_close_frame code reason = [Hand (Close_frame (close_payload code reason))]"

section \<open>The worker\<close>

text \<open>The local variables of \<open>ns_ws_worker_curl\<close>.\<close>

record ws_worker =
  clean_close :: bool
  close_code :: int
  close_reason :: "cstr option"
  peer_closed :: bool
  peer_code :: int
  peer_reason :: "cstr option"
  want_close :: bool
  bad_utf8 :: bool
  too_big :: bool

definition ws_locals0 :: ws_worker where
  "ws_locals0 =
     \<lparr> clean_close = False, close_code = 1006, close_reason = None, peer_closed = False, peer_code = 1005,
       peer_reason = None, want_close = False, bad_utf8 = False, too_big = False \<rparr>"

text \<open>The header lines of the handshake request that come from the page.\<close>

definition has_crlf :: "cstr \<Rightarrow> bool" where
  "has_crlf s \<longleftrightarrow> CHR 0x0D \<in> set s \<or> CHR 0x0A \<in> set s"

fun join_protocols :: "cstr list \<Rightarrow> cstr" where
  "join_protocols [] = []"
| "join_protocols [p] = p"
| "join_protocols (p # ps) = p @ '', '' @ join_protocols ps"

definition ws_request_headers :: "cstr option \<Rightarrow> cstr list \<Rightarrow> cstr list" where
  "ws_request_headers org protocols =
     (let o' = (case org of Some s \<Rightarrow> if has_crlf s then Some [] else Some s | None \<Rightarrow> None)
      in (if nonempty o' then [''Origin: '' @ str_or o' []] else []) @
         (if protocols \<noteq> [] \<and> \<not> list_ex has_crlf protocols
          then [''Sec-WebSocket-Protocol: '' @ join_protocols protocols] else []))"

text \<open>Where the worker is: it starts, tests the loop's condition, drains, receives, drops its reference, is done.\<close>

datatype ws_pc = W_Start | W_Test | W_Drain | W_Recv | W_Unref | W_Done

text \<open>How libcurl's handshake went: no handle, an error with its message, or a response code.\<close>

datatype ws_connect = No_handle | Perform_failed cstr | Performed int

definition ws_handshake :: "ws_connect \<Rightarrow> bool \<Rightarrow> ws_action list \<times> ws_pc" where
  "ws_handshake outcome exit =
     (case outcome of
        No_handle \<Rightarrow>
          (ns_ws_dispatch_error ''curl init failed'' @ ns_ws_dispatch_close 1006 (Some ''init failed'') False, W_Unref)
      | Perform_failed msg \<Rightarrow>
          (ns_ws_dispatch_error msg @ ns_ws_dispatch_close 1006 (Some msg) False, W_Unref)
      | Performed code \<Rightarrow>
          if exit then (ns_ws_dispatch_close 1006 (Some ''aborted'') False, W_Unref)
          else if code \<noteq> 0 \<and> code \<noteq> 101 then
            let msg = ''WebSocket handshake failed (HTTP '' @ int_digits code @ '')''
            in (ns_ws_dispatch_error msg @ ns_ws_dispatch_close 1006 (Some msg) False, W_Unref)
          else (ns_ws_dispatch_open, W_Test))"

text \<open>The end of the worker, after the loop.\<close>

definition ws_finish :: "ws_worker \<Rightarrow> ws_action list" where
  "ws_finish k =
     ns_ws_dispatch_close (close_code k)
       (case close_reason k of Some r \<Rightarrow> Some r | None \<Rightarrow> Some (str_or (peer_reason k) [])) (clean_close k)"

text \<open>
  One round of \<open>ns_ws_drain_outgoing\<close>: the head of the queue is taken and sent, or makes the worker
  close; None where libcurl still owes answers.
\<close>

definition ns_ws_drain_outgoing ::
  "send_answer list \<Rightarrow> ns_ws \<times> ws_worker \<Rightarrow> (ns_ws \<times> ws_worker \<times> ws_action list \<times> ws_pc) option" where
  "ns_ws_drain_outgoing answers st =
     (case st of (ws, k) \<Rightarrow> (case out_queue ws of
        [] \<Rightarrow> Some (ws, k, [], W_Recv)
      | m # q \<Rightarrow>
          let ws' = ws\<lparr> out_queue := q \<rparr>
          in if out_kind m = NS_WS_OUT_CLOSE then
               Some (ws', k\<lparr> want_close := True, close_code := out_close_code m,
                            close_reason := if out_data m = [] then None else Some (c_string (out_data m)) \<rparr>, [], W_Recv)
             else map_option
               (\<lambda>(ok, pieces). (ws', k, [Hand (Data_frame (out_kind m = NS_WS_OUT_TEXT) (concat pieces) ok)], W_Drain))
               (ns_ws_send_curl answers (out_data m))))"

record curl_ws_frame =
  f_text :: bool
  f_binary :: bool
  f_cont :: bool
  f_close :: bool
  f_ping :: bool
  f_offset :: nat
  f_bytesleft :: nat

definition ns_ws_handle_frame ::
  "cstr \<Rightarrow> curl_ws_frame \<Rightarrow> ns_ws \<times> ws_worker \<Rightarrow> ns_ws \<times> ws_worker \<times> ws_action list" where
  "ns_ws_handle_frame bytes fr st =
     (case st of (ws, k) \<Rightarrow>
      if f_close fr then
        let code = (if 2 \<le> length bytes \<and> length bytes \<le> 125
                    then int (code_of (bytes ! 0)) * 256 + int (code_of (bytes ! 1))
                    else if length bytes = 1 then 1002 else 1005);
            reason = (if 2 < length bytes \<and> length bytes \<le> 125 then Some (c_string (drop 2 bytes)) else None)
        in (ws, k\<lparr> peer_closed := True, peer_code := code, peer_reason := reason \<rparr>, [])
      else if f_ping fr then (ws, k, [Hand (Pong_frame (take 125 bytes))])
      else if \<not> (f_text fr \<or> f_binary fr \<or> f_cont fr) then (ws, k, [])
      else
        let starts = (f_offset fr = 0 \<and> \<not> recv_in_message ws \<and> (f_text fr \<or> f_binary fr));
            ws1 = (if starts then ws\<lparr> recv_assembly := [], recv_assembly_binary := f_binary fr, recv_in_message := True \<rparr>
                   else ws)
        in if \<not> starts \<and> \<not> recv_in_message ws then (ws, k, [])
           else if bytes \<noteq> [] \<and> length (recv_assembly ws1) + length bytes > NS_WS_MAX_MESSAGE then
             (ws1\<lparr> recv_assembly := [], recv_in_message := False \<rparr>, k\<lparr> too_big := True \<rparr>, [])
           else
             let ws2 = ws1\<lparr> recv_assembly := recv_assembly ws1 @ bytes \<rparr>
             in if f_bytesleft fr = 0 \<and> \<not> f_cont fr then
                  let is_text = (\<not> recv_assembly_binary ws2);
                      bad = (is_text \<and> recv_assembly ws2 \<noteq> [] \<and> \<not> g_utf8_validate (recv_assembly ws2))
                  in (ws2\<lparr> recv_assembly := [], recv_in_message := False \<rparr>,
                      if bad then k\<lparr> bad_utf8 := True \<rparr> else k,
                      if bad then [] else ns_ws_dispatch_message is_text (recv_assembly ws2))
                else (ws2, k, []))"

text \<open>What libcurl gives back when the worker asks for a frame.\<close>

datatype ws_recv = Recv_again | Recv_error cstr | Recv_ok cstr "curl_ws_frame option"

text \<open>The part of the loop after the queue is drained: it closes or receives.\<close>

definition ws_close_now :: "int \<Rightarrow> cstr option \<Rightarrow> int \<Rightarrow> cstr option \<Rightarrow> bool \<Rightarrow> ws_worker \<Rightarrow> ws_worker \<times> ws_action list" where
  "ws_close_now wire_code wire_reason code reason clean k =
     (let k' = k\<lparr> clean_close := clean, close_code := code, close_reason := reason \<rparr>
      in (k', Set_state NS_WS_STATE_CLOSING # ns_ws_send_close_frame wire_code wire_reason @ ws_finish k'))"

definition ws_receive :: "ws_recv \<Rightarrow> ns_ws \<times> ws_worker \<Rightarrow> ns_ws \<times> ws_worker \<times> ws_action list \<times> ws_pc" where
  "ws_receive got st =
     (case st of (ws, k) \<Rightarrow>
      if want_close k then
        case ws_close_now (close_code k) (close_reason k) (close_code k) (close_reason k) True k of
          (k', acts) \<Rightarrow> (ws, k', acts, W_Unref)
      else (case got of
        Recv_again \<Rightarrow> (ws, k, [], W_Test)
      | Recv_error msg \<Rightarrow>
          let k' = k\<lparr> close_code := 1006, close_reason := Some msg \<rparr>
          in (ws, k', ns_ws_dispatch_error msg @ ws_finish k', W_Unref)
      | Recv_ok bytes None \<Rightarrow> (ws, k, [], W_Test)
      | Recv_ok bytes (Some fr) \<Rightarrow>
          (case ns_ws_handle_frame bytes fr (ws, k) of (ws', k', acts) \<Rightarrow>
             if too_big k' then
               (case ws_close_now 1009 (Some ''message too big'') 1009 (Some ''message too big'') False k' of
                  (k'', fin) \<Rightarrow> (ws', k'', acts @ fin, W_Unref))
             else if bad_utf8 k' then
               (case ws_close_now 1007 (Some ''invalid utf-8'') 1007 (Some ''invalid utf-8'') False k' of
                  (k'', fin) \<Rightarrow> (ws', k'', acts @ fin, W_Unref))
             else if peer_closed k' then
               (case ws_close_now (ns_ws_echo_close_code (peer_code k')) None (peer_code k') (peer_reason k') True k' of
                  (k'', fin) \<Rightarrow> (ws', k'', acts @ fin, W_Unref))
             else (ws', k', acts, W_Test))))"

section \<open>The calls of the page\<close>

definition ns_ws_enqueue :: "ns_ws_out_kind \<Rightarrow> cstr \<Rightarrow> int \<Rightarrow> ns_ws \<Rightarrow> bool \<times> ns_ws" where
  "ns_ws_enqueue kind bytes code ws =
     (if ws_state ws = NS_WS_STATE_CLOSED then (False, ws)
      else if kind \<noteq> NS_WS_OUT_CLOSE \<and> ws_state ws = NS_WS_STATE_CLOSING then (False, ws)
      else if kind \<noteq> NS_WS_OUT_CLOSE \<and> length bytes > NS_WS_MAX_MESSAGE then (False, ws)
      else (True, ws\<lparr> out_queue := out_queue ws @ [\<lparr> out_kind = kind, out_data = bytes, out_close_code = code \<rparr>] \<rparr>))"

definition ns_ws_send_text :: "cstr \<Rightarrow> ns_ws \<Rightarrow> bool \<times> ns_ws" where
  "ns_ws_send_text bytes = ns_ws_enqueue NS_WS_OUT_TEXT bytes 0"

definition ns_ws_send_binary :: "cstr \<Rightarrow> ns_ws \<Rightarrow> bool \<times> ns_ws" where
  "ns_ws_send_binary bytes = ns_ws_enqueue NS_WS_OUT_BINARY bytes 0"

definition ns_ws_state_get :: "ns_ws option \<Rightarrow> ns_ws_state" where
  "ns_ws_state_get w = (case w of None \<Rightarrow> NS_WS_STATE_CLOSED | Some ws \<Rightarrow> ws_state ws)"

section \<open>A send comes back\<close>

lemma send_loop_pieces:
  "send_loop answers bytes stalls = Some (ok, pieces) \<Longrightarrow>
     (ok \<longrightarrow> concat pieces = bytes) \<and> (\<exists>rest. bytes = concat pieces @ rest)"
proof (induction answers bytes stalls arbitrary: ok pieces rule: send_loop.induct)
  case (2 exit rc sent as bytes stalls)
  show ?case
  proof (cases "exit \<or> rc \<noteq> CURLE_OK \<or> length bytes \<le> sent \<or> sent = 0")
    case True
    with 2 show ?thesis by (auto split: if_splits curl_code.splits)
  next
    case False
    with 2(4) obtain ps where r: "send_loop as (drop sent bytes) 0 = Some (ok, ps)" "pieces = take sent bytes # ps"
      by auto
    from False have c: "\<not> exit" "rc = CURLE_OK" "\<not> length bytes \<le> sent" "sent \<noteq> 0" by auto
    have "(ok \<longrightarrow> concat ps = drop sent bytes) \<and> (\<exists>rest. drop sent bytes = concat ps @ rest)"
      by (rule 2(2) [OF c r(1)])
    with r(2) show ?thesis by (metis append_assoc append_take_drop_id concat.simps(2))
  qed
qed simp

lemma send_loop_returns:
  "stalls \<le> 5000 \<Longrightarrow> length bytes * 5001 + (5001 - stalls) \<le> length answers \<Longrightarrow>
     send_loop answers bytes stalls \<noteq> None"
proof (induction answers bytes stalls rule: send_loop.induct)
  case (2 exit rc sent as bytes stalls)
  show ?case
  proof (cases "exit \<or> rc \<noteq> CURLE_OK \<or> length bytes \<le> sent \<or> sent = 0")
    case True
    with 2 show ?thesis by (auto split: curl_code.split)
  next
    case False
    then have c: "\<not> exit" "rc = CURLE_OK" "\<not> length bytes \<le> sent" "sent \<noteq> 0" by auto
    then have "length (drop sent bytes) + 1 \<le> length bytes" by simp
    then have "(length (drop sent bytes) + 1) * 5001 \<le> length bytes * 5001" by (intro mult_right_mono) simp_all
    with 2(4,5) have "send_loop as (drop sent bytes) 0 \<noteq> None" by (intro 2(2) [OF c]) auto
    with c show ?thesis by simp
  qed
qed simp

text \<open>
  sending a message returns.  Whatever libcurl answers, \<open>ns_ws_send_curl\<close> ends after at most 5001
  rounds for each byte of the message and 5001 more, and when it reports success the pieces libcurl took are
  the message, in order and complete; otherwise they are the beginning of it.
\<close>

theorem ws_send_returns:
  assumes "(length bytes + 1) * 5001 \<le> length answers"
  shows "\<exists>ok pieces rest. ns_ws_send_curl answers bytes = Some (ok, pieces) \<and> bytes = concat pieces @ rest \<and> (ok \<longrightarrow> rest = [])"
proof -
  have "length bytes * 5001 + (5001 - 0) \<le> length answers"
    using assms by (simp only: add_mult_distrib diff_zero mult_1)
  then have "send_loop answers bytes 0 \<noteq> None" by (rule send_loop_returns [OF le0])
  then obtain ok pieces where r: "send_loop answers bytes 0 = Some (ok, pieces)" by auto
  from send_loop_pieces [OF r] obtain rest where "bytes = concat pieces @ rest" "ok \<longrightarrow> concat pieces = bytes" by blast
  then have "ok \<longrightarrow> rest = []" by simp
  with r \<open>bytes = concat pieces @ rest\<close> show ?thesis unfolding ns_ws_send_curl_def by blast
qed

lemma ws_send_returns_witness:
  "\<exists>ok pieces rest. ns_ws_send_curl (replicate 15003 (False, CURLE_OK, 1)) ''ab'' = Some (ok, pieces) \<and>
     ''ab'' = concat pieces @ rest \<and> (ok \<longrightarrow> rest = [])"
proof (rule ws_send_returns)
  have "length ''ab'' = 2" by simp
  then show "(length ''ab'' + 1) * 5001 \<le> length (replicate 15003 (False, CURLE_OK, 1))"
    by (simp only: length_replicate) simp
qed

section \<open>Messages in pieces\<close>

text \<open>
  How libcurl hands over a message: as fragments, all but the last marked \<^verbatim>\<open>CURLWS_CONT\<close>, each in chunks that say
  where they start and how much of the fragment is left.
\<close>

fun chunk_frames :: "bool \<Rightarrow> bool \<Rightarrow> nat \<Rightarrow> cstr list \<Rightarrow> (cstr \<times> curl_ws_frame) list" where
  "chunk_frames binary goes_on off [] = []"
| "chunk_frames binary goes_on off (c # cs) =
     (c, \<lparr> f_text = (\<not> binary), f_binary = binary, f_cont = goes_on, f_close = False, f_ping = False,
           f_offset = off, f_bytesleft = length (concat cs) \<rparr>) # chunk_frames binary goes_on (off + length c) cs"

fun message_frames :: "bool \<Rightarrow> cstr list list \<Rightarrow> (cstr \<times> curl_ws_frame) list" where
  "message_frames binary [] = []"
| "message_frames binary [frag] = chunk_frames binary False 0 frag"
| "message_frames binary (frag # frags) = chunk_frames binary True 0 frag @ message_frames binary frags"

text \<open>A fragment comes in at least one chunk, and only a fragment of one chunk has an empty one.\<close>

definition fragment_ok :: "cstr list \<Rightarrow> bool" where
  "fragment_ok cs \<longleftrightarrow> length cs = 1 \<or> cs \<noteq> [] \<and> [] \<notin> set cs"

definition message_ok :: "bool \<times> cstr list list \<Rightarrow> bool" where
  "message_ok m \<longleftrightarrow>
     (case m of (binary, frags) \<Rightarrow>
        frags \<noteq> [] \<and> list_all fragment_ok frags \<and> length (concat (concat frags)) \<le> NS_WS_MAX_MESSAGE \<and>
        (\<not> binary \<longrightarrow> g_utf8_validate (concat (concat frags))))"

definition control_frame :: "cstr \<times> curl_ws_frame \<Rightarrow> bool" where
  "control_frame x \<longleftrightarrow>
     (case x of (bytes, fr) \<Rightarrow> \<not> f_close fr \<and> (f_ping fr \<or> \<not> f_text fr \<and> \<not> f_binary fr \<and> \<not> f_cont fr))"

text \<open>The frames of a stretch of the connection, handled one after the other.\<close>

fun handle_frames :: "(cstr \<times> curl_ws_frame) list \<Rightarrow> ns_ws \<times> ws_worker \<Rightarrow> ns_ws \<times> ws_worker \<times> ws_action list" where
  "handle_frames [] st = (fst st, snd st, [])"
| "handle_frames ((bytes, fr) # fs) st =
     (case ns_ws_handle_frame bytes fr st of (ws, k, acts) \<Rightarrow>
      case handle_frames fs (ws, k) of (ws', k', acts') \<Rightarrow> (ws', k', acts @ acts'))"

lemma handle_frames_append:
  "handle_frames (fs @ gs) st =
     (case handle_frames fs st of (ws, k, acts) \<Rightarrow>
      case handle_frames gs (ws, k) of (ws', k', acts') \<Rightarrow> (ws', k', acts @ acts'))"
proof (induction fs arbitrary: st)
  case Nil
  show ?case by (cases "handle_frames gs st") simp
next
  case (Cons f fs)
  obtain bytes fr where f: "f = (bytes, fr)" by fastforce
  obtain ws k a1 where "ns_ws_handle_frame bytes fr st = (ws, k, a1)" by (metis prod_cases3)
  moreover obtain ws2 k2 a2 where "handle_frames fs (ws, k) = (ws2, k2, a2)" by (metis prod_cases3)
  moreover obtain ws3 k3 a3 where "handle_frames gs (ws2, k2) = (ws3, k3, a3)" by (metis prod_cases3)
  ultimately show ?case using Cons [of "(ws, k)"] by (simp add: f)
qed

fun is_post :: "ws_action \<Rightarrow> bool" where
  "is_post (Post e d) = True"
| "is_post _ = False"

lemma control_frame_acts:
  assumes "control_frame (bytes, fr)"
  shows "ns_ws_handle_frame bytes fr (ws, k) = (ws, k, if f_ping fr then [Hand (Pong_frame (take 125 bytes))] else [])"
  using assms by (auto simp: control_frame_def ns_ws_handle_frame_def)

text \<open>Control frames between the pieces do not disturb the messages.\<close>

lemma handle_frames_control:
  "handle_frames fs st = (ws', k', acts) \<Longrightarrow>
   \<exists>acts'. handle_frames (filter (\<lambda>f. \<not> control_frame f) fs) st = (ws', k', acts') \<and>
     filter is_post acts = filter is_post acts'"
proof (induction fs st arbitrary: ws' k' acts rule: handle_frames.induct)
  case (2 bytes fr fs st)
  obtain ws k a1 where h: "ns_ws_handle_frame bytes fr st = (ws, k, a1)" by (metis prod_cases3)
  with 2(2) obtain a2 where r: "handle_frames fs (ws, k) = (ws', k', a2)" "acts = a1 @ a2"
    by (auto split: prod.splits)
  from 2(1) [OF h [symmetric] refl r(1)] obtain a3 where
    "handle_frames (filter (\<lambda>f. \<not> control_frame f) fs) (ws, k) = (ws', k', a3)" "filter is_post a2 = filter is_post a3" by auto
  with h r(2) show ?case
    using control_frame_acts [of bytes fr "fst st" "snd st"] by (auto split: if_splits)
qed simp

lemma in_message_chunk:
  assumes "recv_in_message ws" "recv_assembly_binary ws = binary" "length (recv_assembly ws) + length c \<le> NS_WS_MAX_MESSAGE"
    "fr = \<lparr> f_text = (\<not> binary), f_binary = binary, f_cont = goes_on, f_close = False, f_ping = False,
           f_offset = off, f_bytesleft = left \<rparr>"
    "goes_on \<or> 0 < left"
  shows "ns_ws_handle_frame c fr (ws, k) = (ws\<lparr> recv_assembly := recv_assembly ws @ c \<rparr>, k, [])"
  using assms by (auto simp: ns_ws_handle_frame_def Let_def)

lemma in_message_last:
  assumes "recv_in_message ws" "recv_assembly_binary ws = binary" "length (recv_assembly ws) + length c \<le> NS_WS_MAX_MESSAGE"
    "fr = \<lparr> f_text = (\<not> binary), f_binary = binary, f_cont = False, f_close = False, f_ping = False,
           f_offset = off, f_bytesleft = 0 \<rparr>"
    "\<not> binary \<longrightarrow> g_utf8_validate (recv_assembly ws @ c)"
  shows "ns_ws_handle_frame c fr (ws, k) =
     (ws\<lparr> recv_assembly := [], recv_in_message := False \<rparr>, k, ns_ws_dispatch_message (\<not> binary) (recv_assembly ws @ c))"
  using assms by (auto simp: ns_ws_handle_frame_def Let_def)

lemma fragment_ok_Cons: "fragment_ok (c # cs) \<Longrightarrow> cs \<noteq> [] \<Longrightarrow> 0 < length (concat cs) \<and> fragment_ok cs"
  by (cases cs) (auto simp: fragment_ok_def)

lemma handle_fragment:
  assumes "recv_in_message ws" "recv_assembly_binary ws = binary" "fragment_ok cs"
    "length (recv_assembly ws) + length (concat cs) \<le> NS_WS_MAX_MESSAGE"
    "\<not> goes_on \<Longrightarrow> \<not> binary \<Longrightarrow> g_utf8_validate (recv_assembly ws @ concat cs)"
  shows "handle_frames (chunk_frames binary goes_on off cs) (ws, k) =
     (if goes_on then (ws\<lparr> recv_assembly := recv_assembly ws @ concat cs \<rparr>, k, [])
      else (ws\<lparr> recv_assembly := [], recv_in_message := False \<rparr>, k,
            ns_ws_dispatch_message (\<not> binary) (recv_assembly ws @ concat cs)))"
  using assms
proof (induction cs arbitrary: ws off)
  case Nil
  then show ?case by (simp add: fragment_ok_def)
next
  case (Cons c cs)
  show ?case
  proof (cases "cs = []")
    case True
    then show ?thesis
      using Cons.prems in_message_chunk [OF Cons.prems(1,2) _ refl, of c True 0 off k]
        in_message_last [OF Cons.prems(1,2) _ refl, of c off k] by simp
  next
    case False
    then have n: "0 < length (concat cs)" "fragment_ok cs" using Cons.prems(3) fragment_ok_Cons by auto
    have "ns_ws_handle_frame c \<lparr> f_text = (\<not> binary), f_binary = binary, f_cont = goes_on, f_close = False,
        f_ping = False, f_offset = off, f_bytesleft = length (concat cs) \<rparr> (ws, k) =
      (ws\<lparr> recv_assembly := recv_assembly ws @ c \<rparr>, k, [])"
      by (rule in_message_chunk [OF Cons.prems(1,2) _ refl]) (use Cons.prems(4) n in auto)
    moreover have "handle_frames (chunk_frames binary goes_on (off + length c) cs) (ws\<lparr> recv_assembly := recv_assembly ws @ c \<rparr>, k) =
      (if goes_on then (ws\<lparr> recv_assembly := (recv_assembly ws @ c) @ concat cs \<rparr>, k, [])
       else (ws\<lparr> recv_assembly := [], recv_in_message := False \<rparr>, k,
            ns_ws_dispatch_message (\<not> binary) ((recv_assembly ws @ c) @ concat cs)))"
      using Cons.prems n by (subst Cons.IH) auto
    ultimately show ?thesis by (cases goes_on) (simp_all del: append_assoc add: append_assoc [symmetric])
  qed
qed

lemma handle_message:
  assumes "recv_in_message ws" "recv_assembly_binary ws = binary" "frags \<noteq> []" "list_all fragment_ok frags"
    "length (recv_assembly ws) + length (concat (concat frags)) \<le> NS_WS_MAX_MESSAGE"
    "\<not> binary \<longrightarrow> g_utf8_validate (recv_assembly ws @ concat (concat frags))"
  shows "handle_frames (message_frames binary frags) (ws, k) =
     (ws\<lparr> recv_assembly := [], recv_in_message := False \<rparr>, k,
      ns_ws_dispatch_message (\<not> binary) (recv_assembly ws @ concat (concat frags)))"
  using assms
proof (induction binary frags arbitrary: ws rule: message_frames.induct)
  case (2 binary frag)
  then show ?case using handle_fragment [of ws binary frag False 0 k] by simp
next
  case (3 binary frag f fs)
  have "handle_frames (chunk_frames binary True 0 frag) (ws, k) = (ws\<lparr> recv_assembly := recv_assembly ws @ concat frag \<rparr>, k, [])"
    using 3(2-) handle_fragment [of ws binary frag True 0 k] by simp
  with 3(2-) show ?case by (simp add: handle_frames_append 3(1))
qed simp

text \<open>The first chunk of a message sets the assembly up.\<close>

lemma handle_starts:
  assumes "\<not> recv_in_message ws" "message_frames binary frags = (c, fr) # fs" "f_offset fr = 0" "f_binary fr = binary"
    "f_text fr = (\<not> binary)" "\<not> f_close fr" "\<not> f_ping fr"
  shows "handle_frames (message_frames binary frags) (ws, k) =
     handle_frames (message_frames binary frags)
       (ws\<lparr> recv_assembly := [], recv_assembly_binary := binary, recv_in_message := True \<rparr>, k)"
  using assms by (simp add: ns_ws_handle_frame_def Let_def)

lemma message_starts:
  assumes "frags \<noteq> []" "list_all fragment_ok frags"
  obtains c fr fs where "message_frames binary frags = (c, fr) # fs" "f_offset fr = 0" "f_binary fr = binary"
    "f_text fr = (\<not> binary)" "\<not> f_close fr" "\<not> f_ping fr"
proof -
  obtain frag frags' where f: "frags = frag # frags'" using assms(1) by (cases frags) auto
  obtain c cs where "frag = c # cs" using assms(2) by (cases frag) (auto simp: f fragment_ok_def)
  then show thesis by (cases frags') (auto simp: f intro: that)
qed

lemma handle_messages:
  assumes "list_all message_ok msgs" "\<not> recv_in_message ws"
  shows "\<exists>ws'. handle_frames (concat (map (\<lambda>(binary, frags). message_frames binary frags) msgs)) (ws, k) =
     (ws', k, map (\<lambda>(binary, frags). Post (Ws_Message (\<not> binary) (concat (concat frags))) True) msgs) \<and>
     \<not> recv_in_message ws'"
  using assms
proof (induction msgs arbitrary: ws)
  case (Cons m msgs)
  obtain binary frags where m: "m = (binary, frags)" by fastforce
  let ?ws = "ws\<lparr> recv_assembly := [], recv_assembly_binary := binary, recv_in_message := True \<rparr>"
  from Cons.prems have ok: "frags \<noteq> []" "list_all fragment_ok frags" "length (concat (concat frags)) \<le> NS_WS_MAX_MESSAGE"
    "\<not> binary \<longrightarrow> g_utf8_validate (concat (concat frags))" by (auto simp: m message_ok_def)
  obtain c fr fs where "message_frames binary frags = (c, fr) # fs" "f_offset fr = 0" "f_binary fr = binary"
    "f_text fr = (\<not> binary)" "\<not> f_close fr" "\<not> f_ping fr" by (rule message_starts [OF ok(1,2)])
  from handle_starts [OF Cons.prems(2) this, of k] handle_message [of ?ws binary frags k] ok
  have "handle_frames (message_frames binary frags) (ws, k) =
      (ws\<lparr> recv_assembly := [], recv_assembly_binary := binary, recv_in_message := False \<rparr>, k,
       ns_ws_dispatch_message (\<not> binary) (concat (concat frags)))" by simp
  with Cons.IH [of "ws\<lparr> recv_assembly := [], recv_assembly_binary := binary, recv_in_message := False \<rparr>"] Cons.prems
  show ?case by (auto simp: m handle_frames_append ns_ws_dispatch_message_def)
qed simp



text \<open>
  A text message with the character U+0000 in it is correct UTF-8 but GLib's validator refuses NUL bytes, so
  the worker takes it for an error of the server and closes with 1007.
\<close>

lemma nul_text_refused:
  "bad_utf8 (fst (snd (ns_ws_handle_frame (utf8_chars 97 @ utf8_chars 0)
     \<lparr> f_text = True, f_binary = False, f_cont = False, f_close = False, f_ping = False, f_offset = 0, f_bytesleft = 0 \<rparr>
     (the (ns_ws_new (Some [''ws'']) ''ws://h/'' None []), ws_locals0))))"
  by (simp add: ns_ws_handle_frame_def ns_ws_new_def ns_ws_available_def ns_ws_curl_native_def utf8_chars_def
      NS_WS_MAX_MESSAGE_def g_utf8_validate.simps Let_def)

text \<open>No header line the page can influence ends early.\<close>

lemma join_protocols_crlf: "list_all (\<lambda>p. \<not> has_crlf p) ps \<Longrightarrow> \<not> has_crlf (join_protocols ps)"
  by (induction ps rule: join_protocols.induct) (auto simp: has_crlf_def)

lemma request_headers_one_line: "h \<in> set (ws_request_headers org protocols) \<Longrightarrow> \<not> has_crlf h"
  using join_protocols_crlf [of protocols]
  by (auto simp: ws_request_headers_def Let_def list_all_iff list_ex_iff has_crlf_def nonempty_def
      split: if_splits option.splits)

end
