(* ===== verification/WebSocketRun.thy ===== *)
theory WebSocketRun
  imports WebSocket "HOL-Library.Multiset" "HOL-Library.Code_Target_Nat"
begin

text \<open>
  A WebSocket connection at work: page, worker thread and the engine's main loop as a step relation over
  the shared object of \<open>WebSocket\<close>, with the invariants every interleaving keeps: the life of the object,
  the order of the callbacks, the order of what goes out, and the sizes.
\<close>

text \<open>
  Where the page is in a call that touches the shared object more than once: \<open>ns_ws_close\<close> reads the
  state, queues the close request and sets the state; \<open>ns_ws_free\<close> detaches the callbacks, asks the
  worker to end, joins it and drops the reference.
\<close>

datatype ws_page = Page_idle | Page_close int cstr | Page_close_set | Page_free_exit | Page_join | Page_gone

definition ns_ws_close :: "int \<Rightarrow> cstr option \<Rightarrow> ns_ws \<Rightarrow> ws_page" where
  "ns_ws_close code reason ws =
     (if ws_state ws = NS_WS_STATE_CLOSING \<or> ws_state ws = NS_WS_STATE_CLOSED then Page_idle
      else Page_close (if code \<le> 0 then 1000 else code) (str_or reason []))"

section \<open>Page, worker and main loop together\<close>

record ws_world =
  ws_object :: "ns_ws option"
  page_at :: ws_page
  worker_at :: ws_pc
  todo :: "ws_action list"             \<comment> \<open>the effects the worker performs before it goes on\<close>
  ws_locals :: ws_worker
  wire :: "ws_frame list"
  accepted :: "ns_ws_out_msg list"     \<comment> \<open>everything the page queued successfully\<close>
  posted :: "ws_event list"            \<comment> \<open>everything that was queued for the page\<close>
  ws_delivered :: "ws_event list"

definition ws_start :: "ns_ws \<Rightarrow> ws_world" where
  "ws_start ws =
     \<lparr> ws_object = Some ws, page_at = Page_idle, worker_at = W_Start, todo = [], ws_locals = ws_locals0,
       wire = [], accepted = [], posted = [], ws_delivered = [] \<rparr>"

text \<open>One effect of the worker.\<close>

definition perform :: "ws_action \<Rightarrow> ns_ws \<Rightarrow> ws_world \<Rightarrow> ws_world" where
  "perform a ws w =
     (case a of
        Set_state s \<Rightarrow> w\<lparr> ws_object := Some (ws\<lparr> ws_state := s \<rparr>) \<rparr>
      | Post e droppable \<Rightarrow>
          (let ws' = ns_ws_post e droppable ws
           in w\<lparr> ws_object := Some ws',
                posted := posted w @ drop (length (ws_idles ws)) (ws_idles ws') \<rparr>)
      | Hand f \<Rightarrow> w\<lparr> wire := wire w @ [f] \<rparr>)"

text \<open>One call of the page that queues a message.\<close>

definition page_queues :: "bool \<times> ns_ws \<Rightarrow> ws_world \<Rightarrow> ws_world" where
  "page_queues r w =
     (case r of (ok, ws') \<Rightarrow>
        w\<lparr> ws_object := Some ws', accepted := accepted w @ (if ok then [List.last (out_queue ws')] else []) \<rparr>)"

text \<open>
  The steps; \<open>may_busy\<close> says whether a dispatch may find the page busy.  libcurl's answers are free,
  except that a send finds the exit flag set only when it was set.
\<close>

inductive ws_step :: "bool \<Rightarrow> ws_world \<Rightarrow> ws_world \<Rightarrow> bool" for may_busy where
  effect: "ws_object w = Some ws \<Longrightarrow> todo w = a # as \<Longrightarrow>
     ws_step may_busy w (perform a ws (w\<lparr> todo := as \<rparr>))"
| handshake: "ws_object w = Some ws \<Longrightarrow> todo w = [] \<Longrightarrow> worker_at w = W_Start \<Longrightarrow>
     ws_handshake outcome (ws_exit_requested ws) = (acts, pc) \<Longrightarrow>
     ws_step may_busy w (w\<lparr> todo := acts, worker_at := pc \<rparr>)"
| test: "ws_object w = Some ws \<Longrightarrow> todo w = [] \<Longrightarrow> worker_at w = W_Test \<Longrightarrow> \<not> ws_exit_requested ws \<Longrightarrow>
     ws_step may_busy w (w\<lparr> worker_at := W_Drain \<rparr>)"
| test_exit: "ws_object w = Some ws \<Longrightarrow> todo w = [] \<Longrightarrow> worker_at w = W_Test \<Longrightarrow> ws_exit_requested ws \<Longrightarrow>
     ws_step may_busy w (w\<lparr> todo := ws_finish (ws_locals w), worker_at := W_Unref \<rparr>)"
| drain: "ws_object w = Some ws \<Longrightarrow> todo w = [] \<Longrightarrow> worker_at w = W_Drain \<Longrightarrow>
     (\<forall>a\<in>set answers. fst a \<longrightarrow> ws_exit_requested ws) \<Longrightarrow>
     ns_ws_drain_outgoing answers (ws, ws_locals w) = Some (ws', k, acts, pc) \<Longrightarrow>
     ws_step may_busy w (w\<lparr> ws_object := Some ws', ws_locals := k, todo := acts, worker_at := pc \<rparr>)"
| receive: "ws_object w = Some ws \<Longrightarrow> todo w = [] \<Longrightarrow> worker_at w = W_Recv \<Longrightarrow>
     ws_receive got (ws, ws_locals w) = (ws', k, acts, pc) \<Longrightarrow>
     ws_step may_busy w (w\<lparr> ws_object := Some ws', ws_locals := k, todo := acts, worker_at := pc \<rparr>)"
| worker_ends: "ws_object w = Some ws \<Longrightarrow> todo w = [] \<Longrightarrow> worker_at w = W_Unref \<Longrightarrow>
     ws_step may_busy w (w\<lparr> ws_object := ns_ws_unref ws, worker_at := W_Done \<rparr>)"
| idle: "ws_object w = Some ws \<Longrightarrow> page_at w = Page_idle \<or> page_at w = Page_gone \<Longrightarrow> ws_idles ws = e # q \<Longrightarrow>
     (busy \<Longrightarrow> may_busy) \<Longrightarrow> ns_ws_dispatch_run busy e (ws\<lparr> ws_idles := q \<rparr>) = (out, obj) \<Longrightarrow>
     ws_step may_busy w (w\<lparr> ws_object := obj, ws_delivered := ws_delivered w @ (case out of None \<Rightarrow> [] | Some x \<Rightarrow> [x]) \<rparr>)"
| timer: "ws_object w = Some ws \<Longrightarrow> page_at w = Page_idle \<or> page_at w = Page_gone \<Longrightarrow> ws_timers ws = e # q \<Longrightarrow>
     (busy \<Longrightarrow> may_busy) \<Longrightarrow> ns_ws_dispatch_run busy e (ws\<lparr> ws_timers := q \<rparr>) = (out, obj) \<Longrightarrow>
     ws_step may_busy w (w\<lparr> ws_object := obj, ws_delivered := ws_delivered w @ (case out of None \<Rightarrow> [] | Some x \<Rightarrow> [x]) \<rparr>)"
| send: "ws_object w = Some ws \<Longrightarrow> page_at w = Page_idle \<Longrightarrow>
     r = ns_ws_send_text bytes ws \<or> r = ns_ws_send_binary bytes ws \<Longrightarrow>
     ws_step may_busy w (page_queues r w)"
| close_reads: "ws_object w = Some ws \<Longrightarrow> page_at w = Page_idle \<Longrightarrow>
     ws_step may_busy w (w\<lparr> page_at := ns_ws_close code reason ws \<rparr>)"
| close_queues: "ws_object w = Some ws \<Longrightarrow> page_at w = Page_close code reason \<Longrightarrow>
     ws_step may_busy w ((page_queues (ns_ws_enqueue NS_WS_OUT_CLOSE reason code ws) w)\<lparr> page_at := Page_close_set \<rparr>)"
| close_sets: "ws_object w = Some ws \<Longrightarrow> page_at w = Page_close_set \<Longrightarrow>
     ws_step may_busy w (w\<lparr> ws_object := Some (ws\<lparr> ws_state := NS_WS_STATE_CLOSING \<rparr>), page_at := Page_idle \<rparr>)"
| free_detaches: "ws_object w = Some ws \<Longrightarrow> page_at w = Page_idle \<Longrightarrow>
     ws_step may_busy w (w\<lparr> ws_object := Some (ws\<lparr> ws_detached := True \<rparr>), page_at := Page_free_exit \<rparr>)"
| free_asks: "ws_object w = Some ws \<Longrightarrow> page_at w = Page_free_exit \<Longrightarrow>
     ws_step may_busy w (w\<lparr> ws_object := Some (ws\<lparr> ws_exit_requested := True \<rparr>), page_at := Page_join \<rparr>)"
| free_ends: "ws_object w = Some ws \<Longrightarrow> page_at w = Page_join \<Longrightarrow> worker_at w = W_Done \<Longrightarrow>
     ws_step may_busy w (w\<lparr> ws_object := ns_ws_unref ws, page_at := Page_gone \<rparr>)"


section \<open>The order of the callbacks\<close>

text \<open>
  The specification of what a page sees of one socket: it opens or fails; messages come only while it
  is open; at most one error, after which nothing but the close event follows; the close event is the
  last.
\<close>

datatype ws_phase = P_Fresh | P_Open | P_Failed | P_Closed

fun phase_next :: "ws_phase \<Rightarrow> ws_event \<Rightarrow> ws_phase option" where
  "phase_next P_Fresh Ws_Open = Some P_Open"
| "phase_next P_Open (Ws_Message t d) = Some P_Open"
| "phase_next P_Fresh (Ws_Error m) = Some P_Failed"
| "phase_next P_Open (Ws_Error m) = Some P_Failed"
| "phase_next P_Closed e = None"
| "phase_next ph (Ws_Close code r c) = Some P_Closed"
| "phase_next ph e = None"

fun phase_run :: "ws_phase \<Rightarrow> ws_event list \<Rightarrow> ws_phase option" where
  "phase_run ph [] = Some ph"
| "phase_run ph (e # es) = (case phase_next ph e of None \<Rightarrow> None | Some ph' \<Rightarrow> phase_run ph' es)"

lemma phase_run_append:
  "phase_run ph (es @ fs) = (case phase_run ph es of None \<Rightarrow> None | Some ph' \<Rightarrow> phase_run ph' fs)"
  by (induction es arbitrary: ph) (auto split: option.split)

text \<open>The phase the worker's effects lead to; only messages may be dropped.\<close>

fun acts_run :: "ws_phase \<Rightarrow> ws_action list \<Rightarrow> ws_phase option" where
  "acts_run ph [] = Some ph"
| "acts_run ph (Post e d # as) =
     (if d = (case e of Ws_Message _ _ \<Rightarrow> True | _ \<Rightarrow> False)
      then (case phase_next ph e of None \<Rightarrow> None | Some ph' \<Rightarrow> acts_run ph' as) else None)"
| "acts_run ph (Set_state s # as) = acts_run ph as"
| "acts_run ph (Hand f # as) = acts_run ph as"

lemma acts_run_append:
  "acts_run ph (as @ bs) = (case acts_run ph as of None \<Rightarrow> None | Some ph' \<Rightarrow> acts_run ph' bs)"
  by (induction ph as rule: acts_run.induct) (auto split: option.split)

fun phase_at :: "ws_pc \<Rightarrow> ws_phase" where
  "phase_at W_Start = P_Fresh"
| "phase_at W_Test = P_Open"
| "phase_at W_Drain = P_Open"
| "phase_at W_Recv = P_Open"
| "phase_at W_Unref = P_Closed"
| "phase_at W_Done = P_Closed"

lemma run_close [simp]:
  "acts_run P_Open (ns_ws_dispatch_close code r c) = Some P_Closed"
  "acts_run P_Fresh (ns_ws_dispatch_close code r c) = Some P_Closed"
  "acts_run P_Failed (ns_ws_dispatch_close code r c) = Some P_Closed"
  by (simp_all add: ns_ws_dispatch_close_def)

lemma run_error [simp]:
  "acts_run P_Open (ns_ws_dispatch_error m) = Some P_Failed"
  "acts_run P_Fresh (ns_ws_dispatch_error m) = Some P_Failed"
  by (simp_all add: ns_ws_dispatch_error_def)

lemma run_finish [simp]:
  "acts_run P_Open (ws_finish k) = Some P_Closed" "acts_run P_Failed (ws_finish k) = Some P_Closed"
  by (simp_all add: ws_finish_def)

lemma run_handshake: "ws_handshake outcome exit = (acts, pc) \<Longrightarrow> acts_run P_Fresh acts = Some (phase_at pc)"
  by (auto simp: ws_handshake_def ns_ws_dispatch_open_def acts_run_append Let_def split: ws_connect.splits if_splits)

lemma run_handle_frame:
  "ns_ws_handle_frame bytes fr (ws, k) = (ws', k', acts) \<Longrightarrow> acts_run P_Open acts = Some P_Open"
  by (auto simp: ns_ws_handle_frame_def ns_ws_dispatch_message_def Let_def split: if_splits)

lemma run_drain:
  "ns_ws_drain_outgoing answers (ws, k) = Some (ws', k', acts, pc) \<Longrightarrow> acts_run P_Open acts = Some (phase_at pc)"
  by (auto simp: ns_ws_drain_outgoing_def Let_def split: list.splits if_splits)

text \<open>What a round of receiving amounts to: a frame at most, and then another round or the end.\<close>

definition ws_ending :: "ws_action list \<Rightarrow> bool" where
  "ws_ending fin \<longleftrightarrow>
     (\<exists>msg k. fin = ns_ws_dispatch_error msg @ ws_finish k) \<or>
     (\<exists>code reason k. fin = Set_state NS_WS_STATE_CLOSING # ns_ws_send_close_frame code reason @ ws_finish k)"

lemma ending_error: "ws_ending (ns_ws_dispatch_error msg @ ws_finish k)"
  unfolding ws_ending_def by blast

lemma ending_close: "ws_close_now wc wr c r cl k = (k', fin) \<Longrightarrow> ws_ending fin"
  unfolding ws_close_now_def Let_def ws_ending_def by blast

lemma receive_shape:
  assumes "ws_receive got (ws, k) = (ws', k', acts, pc)"
  obtains (waits) "ws' = ws" "acts = []" "pc = W_Test"
  | (ends) "ws' = ws" "ws_ending acts" "pc = W_Unref"
  | (frame) bytes fr kk fin where "ns_ws_handle_frame bytes fr (ws, k) = (ws', kk, fin)" "acts = fin" "pc = W_Test"
  | (frame_ends) bytes fr kk fa fin where "ns_ws_handle_frame bytes fr (ws, k) = (ws', kk, fa)" "acts = fa @ fin"
      "ws_ending fin" "pc = W_Unref"
proof (cases "want_close k")
  case True
  obtain k1 fin where c: "ws_close_now (close_code k) (close_reason k) (close_code k) (close_reason k) True k = (k1, fin)"
    by fastforce
  show thesis
    using assms True c ending_close [OF c] by (intro ends) (auto simp: ws_receive_def)
next
  case False
  show thesis
  proof (cases got)
    case Recv_again
    with assms False show thesis by (intro waits) (auto simp: ws_receive_def)
  next
    case (Recv_error msg)
    with assms False show thesis by (intro ends) (auto simp: ws_receive_def Let_def ending_error)
  next
    case (Recv_ok bytes f)
    show thesis
    proof (cases f)
      case None
      with assms False Recv_ok show thesis by (intro waits) (auto simp: ws_receive_def)
    next
      case (Some fr)
      obtain w1 k1 a1 where h: "ns_ws_handle_frame bytes fr (ws, k) = (w1, k1, a1)" by (metis prod_cases3)
      have "w1 = ws' \<and> (acts = a1 \<and> pc = W_Test \<or> (\<exists>fin. acts = a1 @ fin \<and> ws_ending fin \<and> pc = W_Unref))"
        using assms False Recv_ok Some h
        by (auto simp: ws_receive_def split: if_splits prod.splits dest: ending_close)
      then show thesis using h frame frame_ends by blast
    qed
  qed
qed

lemma run_ending: "ws_ending fin \<Longrightarrow> acts_run P_Open fin = Some P_Closed"
  by (auto simp: ws_ending_def acts_run_append ns_ws_send_close_frame_def)

lemma run_receive:
  assumes "ws_receive got (ws, k) = (ws', k', acts, pc)"
  shows "acts_run P_Open acts = Some (phase_at pc)"
  using assms
proof (cases rule: receive_shape)
  case (frame_ends bytes fr kk fa fin)
  then show ?thesis using run_handle_frame [OF frame_ends(1)] run_ending by (simp add: acts_run_append)
qed (auto dest: run_handle_frame run_ending)

section \<open>Life of the shared object\<close>

lemma posted_drop [simp]:
  "drop (length (ws_idles ws)) (ws_idles (ns_ws_post e d ws)) =
     (if ws_detached ws \<or> d \<and> NS_WS_MAX_PENDING \<le> ws_pending ws then [] else [e])"
  by (simp add: ns_ws_post_def ns_ws_ref_def)

lemma post_fields [simp]:
  "ws_detached (ns_ws_post e d ws) = ws_detached ws" "out_queue (ns_ws_post e d ws) = out_queue ws"
  "ws_exit_requested (ns_ws_post e d ws) = ws_exit_requested ws" "ws_state (ns_ws_post e d ws) = ws_state ws"
  "recv_assembly (ns_ws_post e d ws) = recv_assembly ws" "ws_timers (ns_ws_post e d ws) = ws_timers ws"
  "recv_in_message (ns_ws_post e d ws) = recv_in_message ws"
  by (simp_all add: ns_ws_post_def ns_ws_ref_def)

lemma perform_fields [simp]:
  "page_at (perform a ws w) = page_at w" "worker_at (perform a ws w) = worker_at w"
  "ws_locals (perform a ws w) = ws_locals w" "accepted (perform a ws w) = accepted w"
  "ws_delivered (perform a ws w) = ws_delivered w" "todo (perform a ws w) = todo w"
  by (cases a; simp add: perform_def Let_def)+

text \<open>The worker's own steps change nothing of the object but its queue and its assembly.\<close>

definition same_shared :: "ns_ws \<Rightarrow> ns_ws \<Rightarrow> bool" where
  "same_shared ws ws' \<longleftrightarrow>
     ws_refcount ws' = ws_refcount ws \<and> ws_pending ws' = ws_pending ws \<and> ws_detached ws' = ws_detached ws \<and>
     ws_exit_requested ws' = ws_exit_requested ws \<and> ws_state ws' = ws_state ws \<and>
     ws_idles ws' = ws_idles ws \<and> ws_timers ws' = ws_timers ws"

lemma same_shared_refl [simp]: "same_shared ws ws"
  by (simp add: same_shared_def)

lemma handle_frame_shared:
  "ns_ws_handle_frame bytes fr (ws, k) = (ws', k', acts) \<Longrightarrow> same_shared ws ws' \<and> out_queue ws' = out_queue ws"
  by (auto simp: ns_ws_handle_frame_def same_shared_def Let_def split: if_splits)

lemma receive_shared:
  assumes "ws_receive got (ws, k) = (ws', k', acts, pc)"
  shows "same_shared ws ws' \<and> out_queue ws' = out_queue ws"
  using assms by (cases rule: receive_shape) (auto dest: handle_frame_shared)

lemma drain_shared:
  "ns_ws_drain_outgoing answers (ws, k) = Some (ws', k', acts, pc) \<Longrightarrow> same_shared ws ws'"
  by (auto simp: ns_ws_drain_outgoing_def same_shared_def Let_def split: list.splits if_splits)

lemma enqueue_shared: "same_shared ws (snd (ns_ws_enqueue kind bytes code ws))"
  by (simp add: ns_ws_enqueue_def same_shared_def)

lemma queued_shared: "r = ns_ws_send_text bytes ws \<or> r = ns_ws_send_binary bytes ws \<Longrightarrow> same_shared ws (snd r)"
  using enqueue_shared by (auto simp: ns_ws_send_text_def ns_ws_send_binary_def)

lemma page_queues_fields [simp]:
  "page_at (page_queues r w) = page_at w" "worker_at (page_queues r w) = worker_at w"
  "ws_locals (page_queues r w) = ws_locals w" "posted (page_queues r w) = posted w"
  "ws_delivered (page_queues r w) = ws_delivered w" "todo (page_queues r w) = todo w" "wire (page_queues r w) = wire w"
  "ws_object (page_queues r w) = Some (snd r)"
  by (simp_all add: page_queues_def split: prod.split)

definition ws_counted :: "ws_world \<Rightarrow> bool" where
  "ws_counted w \<longleftrightarrow>
     (case ws_object w of
        None \<Rightarrow> page_at w = Page_gone \<and> worker_at w = W_Done
      | Some ws \<Rightarrow>
          ws_refcount ws = (if page_at w = Page_gone then 0 else 1) + (if worker_at w = W_Done then 0 else 1) +
            length (ws_idles ws) + length (ws_timers ws) \<and>
          0 < ws_refcount ws \<and>
          ws_pending ws = length (ws_idles ws) + length (ws_timers ws) \<and>
          (ws_detached ws \<longleftrightarrow> page_at w \<in> {Page_free_exit, Page_join, Page_gone}) \<and>
          (ws_exit_requested ws \<longleftrightarrow> page_at w \<in> {Page_join, Page_gone}) \<and>
          (page_at w = Page_gone \<longrightarrow> worker_at w = W_Done) \<and> (worker_at w = W_Done \<longrightarrow> todo w = []))"

lemma counted_step: "ws_step b w w' \<Longrightarrow> ws_counted w \<Longrightarrow> ws_counted w'"
proof (induction rule: ws_step.induct)
  case (effect w ws a as)
  then show ?case
    by (cases a) (auto simp: ws_counted_def perform_def ns_ws_post_def ns_ws_ref_def Let_def)
next
  case (drain w ws answers ws' k acts pc)
  then show ?case
    by (auto simp: ws_counted_def same_shared_def ns_ws_drain_outgoing_def Let_def split: list.splits if_splits)
next
  case (receive w ws got ws' k acts pc)
  have "pc \<noteq> W_Done" using receive(4) by (cases rule: receive_shape) auto
  then show ?case using receive receive_shared [OF receive(4)] by (auto simp: ws_counted_def same_shared_def)
next
  case (send w ws r bytes)
  then show ?case using queued_shared [OF send(3)] by (auto simp: ws_counted_def same_shared_def)
next
  case (close_queues w ws code reason)
  then show ?case using enqueue_shared [of ws NS_WS_OUT_CLOSE reason code] by (auto simp: ws_counted_def same_shared_def)
qed (auto simp: ws_counted_def ws_handshake_def ns_ws_close_def ns_ws_dispatch_run_def ns_ws_unref_def Let_def
    split: if_splits ws_connect.splits)

text \<open>What was posted so far, and what the worker is still going to post, keeps to the order of the phases.\<close>

fun pending_limit :: "ws_phase \<Rightarrow> nat" where
  "pending_limit P_Fresh = 0"
| "pending_limit P_Open = 256"
| "pending_limit P_Failed = 257"
| "pending_limit P_Closed = 258"

definition ws_phased :: "ws_world \<Rightarrow> bool" where
  "ws_phased w \<longleftrightarrow>
     (\<exists>ph. phase_run P_Fresh (posted w) = Some ph \<and>
        (case ws_object w of None \<Rightarrow> True | Some ws \<Rightarrow>
           ws_pending ws \<le> pending_limit ph \<and>
           (\<not> ws_detached ws \<longrightarrow> acts_run ph (todo w) = Some (phase_at (worker_at w)))))"

lemma phased_post:
  assumes "acts_run ph (Post e d # as) = Some ph2" "ws_pending ws \<le> pending_limit ph" "\<not> ws_detached ws"
  obtains ph1 where "phase_run ph (if d \<and> NS_WS_MAX_PENDING \<le> ws_pending ws then [] else [e]) = Some ph1"
    "acts_run ph1 as = Some ph2" "ws_pending (ns_ws_post e d ws) \<le> pending_limit ph1"
proof -
  from assms(1) obtain ph' where d: "d = (case e of Ws_Message _ _ \<Rightarrow> True | _ \<Rightarrow> False)"
    and n: "phase_next ph e = Some ph'" and r: "acts_run ph' as = Some ph2"
    by (auto split: if_splits option.splits)
  show thesis
  proof (cases "d \<and> NS_WS_MAX_PENDING \<le> ws_pending ws")
    case True
    then have "ph' = ph" using d n by (cases ph; cases e) auto
    with True r assms(2) show thesis by (intro that [of ph]) (auto simp: ns_ws_post_def)
  next
    case False
    then have "ws_pending ws + 1 \<le> pending_limit ph'"
      using d n assms(2) by (cases ph; cases e) (auto simp: NS_WS_MAX_PENDING_def)
    with False r n assms(3) show thesis by (intro that [of ph']) (auto simp: ns_ws_post_def ns_ws_ref_def)
  qed
qed

lemma phased_effect:
  assumes "ws_object w = Some ws" "todo w = a # as" "ws_phased w"
  shows "ws_phased (perform a ws (w\<lparr> todo := as \<rparr>))"
proof -
  obtain ph where ph: "phase_run P_Fresh (posted w) = Some ph" "ws_pending ws \<le> pending_limit ph"
    and run: "\<not> ws_detached ws \<longrightarrow> acts_run ph (a # as) = Some (phase_at (worker_at w))"
    using assms by (auto simp: ws_phased_def)
  show ?thesis
  proof (cases a)
    case (Post e d)
    show ?thesis
    proof (cases "ws_detached ws")
      case True
      with Post ph show ?thesis by (simp add: ws_phased_def perform_def Let_def ns_ws_post_def)
    next
      case False
      with run Post have "acts_run ph (Post e d # as) = Some (phase_at (worker_at w))" by simp
      from phased_post [OF this ph(2) False] obtain ph1 where
        "phase_run ph (if d \<and> NS_WS_MAX_PENDING \<le> ws_pending ws then [] else [e]) = Some ph1"
        "acts_run ph1 as = Some (phase_at (worker_at w))" "ws_pending (ns_ws_post e d ws) \<le> pending_limit ph1" .
      with Post ph(1) False show ?thesis by (simp add: ws_phased_def perform_def Let_def phase_run_append)
    qed
  qed (use ph run assms(1) in \<open>auto simp: ws_phased_def perform_def\<close>)
qed

lemma phased_same:
  assumes "ws_phased w" "ws_object w = Some ws" "same_shared ws ws'"
    "ws_object w' = Some ws'" "posted w' = posted w"
    "\<And>ph. acts_run ph (todo w) = Some (phase_at (worker_at w)) \<Longrightarrow> acts_run ph (todo w') = Some (phase_at (worker_at w'))"
  shows "ws_phased w'"
  using assms by (auto simp: ws_phased_def same_shared_def)

lemma phased_dispatch:
  assumes "ws_phased w" "ws_object w = Some ws" "ws_pending ws1 = ws_pending ws" "ws_detached ws1 = ws_detached ws"
    "ns_ws_dispatch_run busy e ws1 = (out, obj)"
  shows "ws_phased (w\<lparr> ws_object := obj, ws_delivered := ds \<rparr>)"
  using assms by (auto simp: ws_phased_def ns_ws_dispatch_run_def ns_ws_unref_def split: if_splits option.splits)

lemma phased_step: "ws_step b w w' \<Longrightarrow> ws_phased w \<Longrightarrow> ws_phased w'"
proof (induction rule: ws_step.induct)
  case (effect w ws a as)
  then show ?case by (rule phased_effect)
next
  case (handshake w ws outcome acts pc)
  show ?case by (rule phased_same [OF handshake(5,1), of ws]) (use handshake run_handshake in auto)
next
  case (test w ws)
  show ?case by (rule phased_same [OF test(5,1), of ws]) (use test in auto)
next
  case (test_exit w ws)
  show ?case by (rule phased_same [OF test_exit(5,1), of ws]) (use test_exit in auto)
next
  case (drain w ws answers ws' k acts pc)
  show ?case by (rule phased_same [OF drain(6,1) drain_shared [OF drain(5)]]) (use drain run_drain in auto)
next
  case (receive w ws got ws' k acts pc)
  show ?case
    by (rule phased_same [OF receive(5,1), of ws']) (use receive run_receive receive_shared [OF receive(4)] in auto)
next
  case (send w ws r bytes)
  show ?case by (rule phased_same [OF send(4,1) queued_shared [OF send(3)]]) auto
next
  case (close_queues w ws code reason)
  show ?case by (rule phased_same [OF close_queues(3,1) enqueue_shared]) auto
next
  case (idle w ws e q busy out obj)
  show ?case by (rule phased_dispatch [OF idle(6,1) _ _ idle(5)]) simp_all
next
  case (timer w ws e q busy out obj)
  show ?case by (rule phased_dispatch [OF timer(6,1) _ _ timer(5)]) simp_all
next
  case (worker_ends w ws)
  then show ?case by (auto simp: ws_phased_def ns_ws_unref_def split: option.split)
next
  case (close_reads w ws code reason)
  then show ?case by (simp add: ws_phased_def)
next
  case (close_sets w ws)
  then show ?case by (auto simp: ws_phased_def)
next
  case (free_detaches w ws)
  then show ?case by (auto simp: ws_phased_def)
next
  case (free_asks w ws)
  then show ?case by (auto simp: ws_phased_def)
next
  case (free_ends w ws)
  then show ?case by (auto simp: ws_phased_def ns_ws_unref_def split: option.split)
qed

text \<open>
  What was posted and not yet delivered waits in the main loop; without a busy page it comes out in the
  order it went in.
\<close>

definition ws_ordered :: "bool \<Rightarrow> ws_world \<Rightarrow> bool" where
  "ws_ordered may_busy w \<longleftrightarrow>
     mset (ws_delivered w) \<subseteq># mset (posted w) \<and>
     (\<not> may_busy \<longrightarrow> (\<exists>rest. posted w = ws_delivered w @ rest)) \<and>
     (case ws_object w of None \<Rightarrow> True | Some ws \<Rightarrow>
        \<not> ws_detached ws \<longrightarrow>
          mset (posted w) = mset (ws_delivered w) + mset (ws_idles ws) + mset (ws_timers ws) \<and>
          (\<not> may_busy \<longrightarrow> ws_timers ws = [] \<and> posted w = ws_delivered w @ ws_idles ws))"

lemma ordered_effect:
  assumes "ws_object w = Some ws" "ws_ordered b w"
  shows "ws_ordered b (perform a ws (w\<lparr> todo := as \<rparr>))"
proof (cases a)
  case (Post e d)
  with assms show ?thesis
    by (cases "ws_detached ws")
      (auto simp: ws_ordered_def perform_def Let_def ns_ws_post_def ns_ws_ref_def subset_mset.add_increasing2)
qed (use assms in \<open>auto simp: ws_ordered_def perform_def\<close>)

lemma ordered_same:
  assumes "ws_ordered b w" "ws_object w = Some ws" "same_shared ws ws'"
    "ws_object w' = Some ws'" "posted w' = posted w" "ws_delivered w' = ws_delivered w"
  shows "ws_ordered b w'"
  using assms by (auto simp: ws_ordered_def same_shared_def)

lemma ordered_unref:
  assumes "ws_ordered b w" "ws_object w = Some ws" "ws_object w' = ns_ws_unref ws"
    "posted w' = posted w" "ws_delivered w' = ws_delivered w"
  shows "ws_ordered b w'"
  using assms by (auto simp: ws_ordered_def ns_ws_unref_def)

lemma ordered_idle:
  assumes "ws_ordered b w" "ws_object w = Some ws" "ws_idles ws = e # q" "busy \<Longrightarrow> b"
    "ns_ws_dispatch_run busy e (ws\<lparr> ws_idles := q \<rparr>) = (out, obj)"
  shows "ws_ordered b (w\<lparr> ws_object := obj, ws_delivered := ws_delivered w @ (case out of None \<Rightarrow> [] | Some x \<Rightarrow> [x]) \<rparr>)"
  using assms
  by (cases "ws_detached ws"; cases busy)
    (auto simp: ws_ordered_def ns_ws_dispatch_run_def ns_ws_unref_def subset_mset.add_increasing2 split: if_splits)

lemma ordered_timer:
  assumes "ws_ordered b w" "ws_object w = Some ws" "ws_timers ws = e # q" "busy \<Longrightarrow> b"
    "ns_ws_dispatch_run busy e (ws\<lparr> ws_timers := q \<rparr>) = (out, obj)"
  shows "ws_ordered b (w\<lparr> ws_object := obj, ws_delivered := ws_delivered w @ (case out of None \<Rightarrow> [] | Some x \<Rightarrow> [x]) \<rparr>)"
  using assms
  by (cases "ws_detached ws"; cases busy)
    (auto simp: ws_ordered_def ns_ws_dispatch_run_def ns_ws_unref_def subset_mset.add_increasing2 split: if_splits)

lemma ordered_step: "ws_step b w w' \<Longrightarrow> ws_ordered b w \<Longrightarrow> ws_ordered b w'"
proof (induction rule: ws_step.induct)
  case (effect w ws a as)
  then show ?case using ordered_effect by blast
next
  case (handshake w ws outcome acts pc)
  show ?case by (rule ordered_same [OF handshake(5,1), of ws]) (use handshake in auto)
next
  case (test w ws)
  show ?case by (rule ordered_same [OF test(5,1), of ws]) (use test in auto)
next
  case (test_exit w ws)
  show ?case by (rule ordered_same [OF test_exit(5,1), of ws]) (use test_exit in auto)
next
  case (drain w ws answers ws' k acts pc)
  show ?case by (rule ordered_same [OF drain(6,1) drain_shared [OF drain(5)]]) auto
next
  case (receive w ws got ws' k acts pc)
  show ?case by (rule ordered_same [OF receive(5,1), of ws']) (use receive_shared [OF receive(4)] in auto)
next
  case (send w ws r bytes)
  show ?case by (rule ordered_same [OF send(4,1) queued_shared [OF send(3)]]) auto
next
  case (close_queues w ws code reason)
  show ?case by (rule ordered_same [OF close_queues(3,1) enqueue_shared]) auto
next
  case (idle w ws e q busy out obj)
  show ?case using ordered_idle [OF idle(6,1,3)] idle(4,5) by blast
next
  case (timer w ws e q busy out obj)
  show ?case using ordered_timer [OF timer(6,1,3)] timer(4,5) by blast
next
  case (worker_ends w ws)
  show ?case by (rule ordered_unref [OF worker_ends(4,1)]) auto
next
  case (close_reads w ws code reason)
  show ?case by (rule ordered_same [OF close_reads(3,1), of ws]) (use close_reads in auto)
next
  case (close_sets w ws)
  then show ?case by (auto simp: ws_ordered_def)
next
  case (free_detaches w ws)
  then show ?case by (auto simp: ws_ordered_def)
next
  case (free_asks w ws)
  then show ?case by (auto simp: ws_ordered_def)
next
  case (free_ends w ws)
  show ?case by (rule ordered_unref [OF free_ends(4,1)]) auto
qed

section \<open>What goes out\<close>

fun is_data_frame :: "ws_frame \<Rightarrow> bool" where
  "is_data_frame (Data_frame t b whole) = True"
| "is_data_frame _ = False"

fun is_close_frame :: "ws_frame \<Rightarrow> bool" where
  "is_close_frame (Close_frame p) = True"
| "is_close_frame _ = False"

text \<open>The frame carries the message: its kind and its bytes, all of them if libcurl took the whole.\<close>

fun ws_carries :: "ws_frame \<Rightarrow> ns_ws_out_msg \<Rightarrow> bool" where
  "ws_carries (Data_frame t b whole) m =
     (out_kind m = (if t then NS_WS_OUT_TEXT else NS_WS_OUT_BINARY) \<and>
      b = take (length b) (out_data m) \<and> (whole \<longrightarrow> b = out_data m))"
| "ws_carries _ m = False"

definition is_close_msg :: "ns_ws_out_msg \<Rightarrow> bool" where
  "is_close_msg m \<longleftrightarrow> out_kind m = NS_WS_OUT_CLOSE"

fun hands :: "ws_action list \<Rightarrow> ws_frame list" where
  "hands [] = []"
| "hands (Hand f # as) = f # hands as"
| "hands (_ # as) = hands as"

lemma hands_append [simp]: "hands (as @ bs) = hands as @ hands bs"
  by (induction as rule: hands.induct) auto

lemma hands_dispatch [simp]:
  "hands (ns_ws_dispatch_close code r c) = []" "hands (ns_ws_dispatch_error m) = []" "hands ns_ws_dispatch_open = []"
  "hands (ns_ws_dispatch_message t d) = []" "hands (ws_finish k) = []"
  by (simp_all add: ns_ws_dispatch_close_def ns_ws_dispatch_error_def ns_ws_dispatch_open_def
      ns_ws_dispatch_message_def ws_finish_def)

lemma hands_handshake: "ws_handshake outcome exit = (acts, pc) \<Longrightarrow> hands acts = []"
  by (auto simp: ws_handshake_def Let_def split: ws_connect.splits if_splits)

lemma hands_handle_frame:
  "ns_ws_handle_frame bytes fr (ws, k) = (ws', k', acts) \<Longrightarrow>
     hands acts = [] \<or> (\<exists>p. hands acts = [Pong_frame (take 125 p)])"
  by (auto simp: ns_ws_handle_frame_def Let_def split: if_splits)

lemma hands_ending:
  "ws_ending fin \<Longrightarrow> hands fin = [] \<or> (\<exists>code reason. hands fin = [Close_frame (close_payload code reason)])"
  unfolding ws_ending_def ns_ws_send_close_frame_def by (elim disjE exE) auto

lemma hands_receive:
  assumes "ws_receive got (ws, k) = (ws', k', acts, pc)"
  shows "filter is_data_frame (hands acts) = [] \<and> (\<forall>f\<in>set (butlast (hands acts)). \<not> is_close_frame f) \<and>
    (pc \<noteq> W_Unref \<longrightarrow> (\<forall>f\<in>set (hands acts). \<not> is_close_frame f))"
  using assms
proof (cases rule: receive_shape)
  case (frame_ends bytes fr kk fa fin)
  then show ?thesis using hands_handle_frame [OF frame_ends(1)] hands_ending [OF frame_ends(3)] by auto
qed (auto dest: hands_handle_frame hands_ending)

text \<open>The messages the worker took from the queue, and what it handed to libcurl for them.\<close>

definition ws_sent :: "ws_world \<Rightarrow> bool" where
  "ws_sent w \<longleftrightarrow>
     (\<exists>taken rest.
        accepted w = taken @ rest \<and> (case ws_object w of None \<Rightarrow> True | Some ws \<Rightarrow> rest = out_queue ws) \<and>
        list_all2 ws_carries (filter is_data_frame (wire w @ hands (todo w))) (filter (\<lambda>m. \<not> is_close_msg m) taken) \<and>
        (\<forall>m\<in>set (butlast taken). \<not> is_close_msg m) \<and>
        (\<forall>f\<in>set (butlast (wire w @ hands (todo w))). \<not> is_close_frame f) \<and>
        (worker_at w \<notin> {W_Unref, W_Done} \<longrightarrow>
           (\<forall>f\<in>set (wire w @ hands (todo w)). \<not> is_close_frame f) \<and>
           ((\<exists>m\<in>set taken. is_close_msg m) \<longrightarrow> worker_at w = W_Recv \<and> want_close (ws_locals w))))"

lemma sent_same:
  assumes "ws_sent w" "ws_object w = Some ws" "ws_object w' = Some ws'" "out_queue ws' = out_queue ws"
    "accepted w' = accepted w" "wire w' @ hands (todo w') = wire w @ hands (todo w)"
    "worker_at w' = worker_at w" "ws_locals w' = ws_locals w"
  shows "ws_sent w'"
  using assms by (auto simp: ws_sent_def)

lemma sent_moves:
  assumes "ws_sent w" "ws_object w = Some ws" "ws_object w' = Some ws'" "out_queue ws' = out_queue ws"
    "accepted w' = accepted w" "wire w' = wire w" "todo w = []"
    "filter is_data_frame (hands (todo w')) = []" "\<forall>f\<in>set (butlast (hands (todo w'))). \<not> is_close_frame f"
    "worker_at w \<notin> {W_Unref, W_Done}"
    "worker_at w' \<noteq> W_Unref \<Longrightarrow> (\<forall>f\<in>set (hands (todo w')). \<not> is_close_frame f) \<and> \<not> (worker_at w = W_Recv \<and> want_close (ws_locals w))"
  shows "ws_sent w'"
proof -
  obtain taken where t: "accepted w = taken @ out_queue ws"
    "list_all2 ws_carries (filter is_data_frame (wire w)) (filter (\<lambda>m. \<not> is_close_msg m) taken)"
    "\<forall>m\<in>set (butlast taken). \<not> is_close_msg m" "\<forall>f\<in>set (wire w). \<not> is_close_frame f"
    "(\<exists>m\<in>set taken. is_close_msg m) \<longrightarrow> worker_at w = W_Recv \<and> want_close (ws_locals w)"
    using assms by (auto simp: ws_sent_def)
  have "\<forall>f\<in>set (butlast (wire w @ hands (todo w'))). \<not> is_close_frame f"
    using t(4) assms(9) by (auto simp: butlast_append dest: in_set_butlastD)
  then show ?thesis
    unfolding ws_sent_def using t assms
    by (intro exI [of _ taken] exI [of _ "out_queue ws"]) auto
qed

lemma sent_effect:
  assumes "ws_object w = Some ws" "todo w = a # as" "ws_sent w"
  shows "ws_sent (perform a ws (w\<lparr> todo := as \<rparr>))"
proof -
  obtain ws' where "ws_object (perform a ws (w\<lparr> todo := as \<rparr>)) = Some ws'" "out_queue ws' = out_queue ws"
    using assms(1) by (cases a) (auto simp: perform_def Let_def)
  moreover have "wire (perform a ws (w\<lparr> todo := as \<rparr>)) @ hands as = wire w @ hands (todo w)"
    using assms(2) by (cases a) (auto simp: perform_def Let_def)
  ultimately show ?thesis using assms by (intro sent_same [OF assms(3,1), where ws' = ws']) auto
qed

lemma sent_queues:
  assumes "ws_sent w" "ws_object w = Some ws" "r = ns_ws_enqueue kind bytes code ws" "page_at w' = p"
    "w' = (page_queues r w)\<lparr> page_at := p \<rparr>"
  shows "ws_sent w'"
  using assms by (auto simp: ws_sent_def page_queues_def ns_ws_enqueue_def)

lemma drain_shape:
  assumes "ns_ws_drain_outgoing answers (ws, k) = Some (ws', k', acts, pc)"
  obtains (empty) "out_queue ws = []" "ws' = ws" "k' = k" "acts = []" "pc = W_Recv"
  | (closes) m where "out_queue ws = m # out_queue ws'" "is_close_msg m" "want_close k'" "acts = []" "pc = W_Recv"
  | (sends) m f where "out_queue ws = m # out_queue ws'" "\<not> is_close_msg m" "k' = k" "acts = [Hand f]"
      "pc = W_Drain" "ws_carries f m" "is_data_frame f" "\<not> is_close_frame f"
proof (cases "out_queue ws")
  case Nil
  with assms show thesis by (intro empty) (auto simp: ns_ws_drain_outgoing_def)
next
  case (Cons m q)
  show thesis
  proof (cases "is_close_msg m")
    case True
    with assms Cons show thesis by (intro closes [of m]) (auto simp: ns_ws_drain_outgoing_def is_close_msg_def Let_def)
  next
    case False
    then obtain ok pieces where p: "ns_ws_send_curl answers (out_data m) = Some (ok, pieces)"
      and e: "ws' = ws\<lparr> out_queue := q \<rparr>" "k' = k" "pc = W_Drain"
        "acts = [Hand (Data_frame (out_kind m = NS_WS_OUT_TEXT) (concat pieces) ok)]"
      using assms Cons by (auto simp: ns_ws_drain_outgoing_def is_close_msg_def Let_def)
    obtain rest where "ok \<longrightarrow> concat pieces = out_data m" "out_data m = concat pieces @ rest"
      using send_loop_pieces p unfolding ns_ws_send_curl_def by blast
    moreover have "out_kind m = (if out_kind m = NS_WS_OUT_TEXT then NS_WS_OUT_TEXT else NS_WS_OUT_BINARY)"
      using False by (cases "out_kind m") (auto simp: is_close_msg_def)
    ultimately show thesis using Cons False e by (intro sends) auto
  qed
qed

lemma sent_drain:
  assumes "ws_sent w" "ws_object w = Some ws" "todo w = []" "worker_at w = W_Drain"
    "ns_ws_drain_outgoing answers (ws, ws_locals w) = Some (ws', k, acts, pc)"
  shows "ws_sent (w\<lparr> ws_object := Some ws', ws_locals := k, todo := acts, worker_at := pc \<rparr>)"
proof -
  obtain taken where t: "accepted w = taken @ out_queue ws"
    "list_all2 ws_carries (filter is_data_frame (wire w)) (filter (\<lambda>m. \<not> is_close_msg m) taken)"
    "\<forall>f\<in>set (wire w). \<not> is_close_frame f" "\<forall>m\<in>set taken. \<not> is_close_msg m"
    using assms by (auto simp: ws_sent_def)
  have t': "\<forall>f\<in>set (butlast (wire w @ fs)). \<not> is_close_frame f" if "\<forall>f\<in>set (butlast fs). \<not> is_close_frame f" for fs
    using t(3) that by (auto simp: butlast_append dest: in_set_butlastD)
  from assms(5) show ?thesis
  proof (cases rule: drain_shape)
    case empty
    with t t' [of "[]"] show ?thesis
      by (auto simp: ws_sent_def intro!: exI [of _ taken] dest: in_set_butlastD)
  next
    case (closes m)
    with t t' [of "[]"] show ?thesis
      by (auto simp: ws_sent_def intro!: exI [of _ "taken @ [m]"] dest: in_set_butlastD)
  next
    case (sends m f)
    with t t' [of "[f]"] show ?thesis
      by (auto simp: ws_sent_def list_all2_appendI intro!: exI [of _ "taken @ [m]"] dest: in_set_butlastD)
  qed
qed

lemma sent_step: "ws_step b w w' \<Longrightarrow> ws_sent w \<Longrightarrow> ws_sent w'"
proof (induction rule: ws_step.induct)
  case (effect w ws a as)
  then show ?case by (rule sent_effect)
next
  case (handshake w ws outcome acts pc)
  have "hands acts = []" "worker_at w \<noteq> W_Recv" using handshake by (auto dest: hands_handshake)
  with handshake show ?case by (intro sent_moves [OF handshake(5,1)]) auto
next
  case (test w ws)
  then show ?case by (intro sent_moves [OF test(5,1)]) auto
next
  case (test_exit w ws)
  then show ?case by (intro sent_moves [OF test_exit(5,1)]) auto
next
  case (drain w ws answers ws' k acts pc)
  then show ?case by (intro sent_drain) auto
next
  case (receive w ws got ws' k acts pc)
  have "want_close (ws_locals w) \<Longrightarrow> pc = W_Unref"
    using receive(4) by (auto simp: ws_receive_def ws_close_now_def Let_def)
  with receive hands_receive [OF receive(4)] receive_shared [OF receive(4)] show ?case
    by (intro sent_moves [OF receive(5,1), where ws' = ws']) auto
next
  case (send w ws r bytes)
  then obtain kind where "r = ns_ws_enqueue kind bytes 0 ws"
    by (auto simp: ns_ws_send_text_def ns_ws_send_binary_def)
  from sent_queues [OF send(4,1) this, of "page_queues r w" "page_at w"] show ?case by (simp add: page_queues_def split: prod.split)
next
  case (close_queues w ws code reason)
  from sent_queues [OF close_queues(3,1) refl _ refl] show ?case by simp
next
  case (worker_ends w ws)
  then show ?case by (auto simp: ws_sent_def ns_ws_unref_def)
next
  case (close_reads w ws code reason)
  then show ?case by (intro sent_same [OF close_reads(3,1)]) auto
next
  case (close_sets w ws)
  then show ?case by (auto simp: ws_sent_def)
next
  case (free_detaches w ws)
  then show ?case by (auto simp: ws_sent_def)
next
  case (free_asks w ws)
  then show ?case by (auto simp: ws_sent_def)
next
  case (idle w ws e q busy out obj)
  then show ?case by (auto simp: ws_sent_def ns_ws_dispatch_run_def ns_ws_unref_def split: if_splits)
next
  case (timer w ws e q busy out obj)
  then show ?case by (auto simp: ws_sent_def ns_ws_dispatch_run_def ns_ws_unref_def split: if_splits)
next
  case (free_ends w ws)
  then show ?case by (auto simp: ws_sent_def ns_ws_unref_def)
qed

section \<open>Sizes and contents\<close>

text \<open>
  Everything on its way to the page is within the limit and a text of it is UTF-8; what the page queued
  is within the limit, and so is every control frame.
\<close>

fun fit_event :: "ws_event \<Rightarrow> bool" where
  "fit_event (Ws_Message is_text d) \<longleftrightarrow> length d \<le> NS_WS_MAX_MESSAGE \<and> (is_text \<longrightarrow> g_utf8_validate d)"
| "fit_event _ \<longleftrightarrow> True"

fun fit_frame :: "ws_frame \<Rightarrow> bool" where
  "fit_frame (Data_frame t d whole) \<longleftrightarrow> length d \<le> NS_WS_MAX_MESSAGE"
| "fit_frame (Pong_frame d) \<longleftrightarrow> length d \<le> 125"
| "fit_frame (Close_frame d) \<longleftrightarrow> length d \<le> 125"

fun fit_action :: "ws_action \<Rightarrow> bool" where
  "fit_action (Post e d) = fit_event e"
| "fit_action (Hand f) = fit_frame f"
| "fit_action (Set_state s) = True"

definition fit_msg :: "ns_ws_out_msg \<Rightarrow> bool" where
  "fit_msg m \<longleftrightarrow> is_close_msg m \<or> length (out_data m) \<le> NS_WS_MAX_MESSAGE"

definition fit_object :: "ns_ws \<Rightarrow> bool" where
  "fit_object ws \<longleftrightarrow> length (recv_assembly ws) \<le> NS_WS_MAX_MESSAGE \<and> (\<forall>m\<in>set (out_queue ws). fit_msg m)"

definition ws_fit :: "ws_world \<Rightarrow> bool" where
  "ws_fit w \<longleftrightarrow>
     (\<forall>e\<in>set (posted w). fit_event e) \<and> (\<forall>f\<in>set (wire w). fit_frame f) \<and> (\<forall>a\<in>set (todo w). fit_action a) \<and>
     (case ws_object w of None \<Rightarrow> True | Some ws \<Rightarrow> fit_object ws)"

lemma fit_dispatch [simp]:
  "a \<in> set (ns_ws_dispatch_close code r c) \<Longrightarrow> fit_action a" "a \<in> set (ns_ws_dispatch_error m) \<Longrightarrow> fit_action a"
  "a \<in> set ns_ws_dispatch_open \<Longrightarrow> fit_action a" "a \<in> set (ws_finish k) \<Longrightarrow> fit_action a"
  "a \<in> set (ns_ws_send_close_frame code r) \<Longrightarrow> fit_action a"
  by (auto simp: ns_ws_dispatch_close_def ns_ws_dispatch_error_def ns_ws_dispatch_open_def ws_finish_def
      ns_ws_send_close_frame_def close_payload_def)

lemma fit_handshake: "ws_handshake outcome exit = (acts, pc) \<Longrightarrow> a \<in> set acts \<Longrightarrow> fit_action a"
  by (auto simp: ws_handshake_def Let_def split: ws_connect.splits if_splits)

lemma fit_ending: "ws_ending fin \<Longrightarrow> a \<in> set fin \<Longrightarrow> fit_action a"
  by (auto simp: ws_ending_def)

lemma fit_handle_frame:
  assumes "ns_ws_handle_frame bytes fr (ws, k) = (ws', k', acts)" "fit_object ws"
  shows "fit_object ws'" "a \<in> set acts \<Longrightarrow> fit_action a"
  using assms
  by (auto simp: ns_ws_handle_frame_def ns_ws_dispatch_message_def fit_object_def Let_def g_utf8_validate.simps [of "[]"]
      split: if_splits)

lemma fit_receive:
  assumes "ws_receive got (ws, k) = (ws', k', acts, pc)" "fit_object ws"
  shows "fit_object ws' \<and> (\<forall>a\<in>set acts. fit_action a)"
  using assms(1)
proof (cases rule: receive_shape)
  case (frame_ends bytes fr kk fa fin)
  with fit_handle_frame [OF frame_ends(1) assms(2)] fit_ending show ?thesis by auto
qed (use assms(2) in \<open>auto dest: fit_handle_frame fit_ending\<close>)

lemma fit_drain:
  assumes "ns_ws_drain_outgoing answers (ws, k) = Some (ws', k', acts, pc)" "fit_object ws"
  shows "fit_object ws' \<and> (\<forall>a\<in>set acts. fit_action a)"
proof -
  have "recv_assembly ws' = recv_assembly ws"
    using assms(1) by (auto simp: ns_ws_drain_outgoing_def Let_def split: list.splits if_splits)
  with assms(1) show ?thesis
  proof (cases rule: drain_shape)
    case (sends m f)
    then have "length (out_data m) \<le> NS_WS_MAX_MESSAGE" using assms(2) by (simp add: fit_object_def fit_msg_def)
    then have "fit_frame f" using sends(6) by (cases "(f, m)" rule: ws_carries.cases) (auto, metis length_take min.bounded_iff nle_le)
    with sends assms(2) \<open>recv_assembly ws' = recv_assembly ws\<close> show ?thesis by (simp add: fit_object_def)
  qed (use assms(2) in \<open>auto simp: fit_object_def\<close>)
qed

lemma fit_enqueue: "fit_object ws \<Longrightarrow> fit_object (snd (ns_ws_enqueue kind bytes code ws))"
  by (auto simp: ns_ws_enqueue_def fit_object_def fit_msg_def is_close_msg_def)

lemma fit_step: "ws_step b w w' \<Longrightarrow> ws_fit w \<Longrightarrow> ws_fit w'"
proof (induction rule: ws_step.induct)
  case (effect w ws a as)
  then show ?case
    by (cases a) (auto simp: ws_fit_def perform_def Let_def fit_object_def)
next
  case (handshake w ws outcome acts pc)
  then show ?case by (auto simp: ws_fit_def dest: fit_handshake)
next
  case (drain w ws answers ws' k acts pc)
  then show ?case using fit_drain [OF drain(5)] by (auto simp: ws_fit_def)
next
  case (receive w ws got ws' k acts pc)
  then show ?case using fit_receive [OF receive(4)] by (auto simp: ws_fit_def)
next
  case (send w ws r bytes)
  then show ?case using fit_enqueue by (auto simp: ws_fit_def ns_ws_send_text_def ns_ws_send_binary_def)
next
  case (close_queues w ws code reason)
  then show ?case using fit_enqueue by (auto simp: ws_fit_def)
qed (auto simp: ws_fit_def fit_object_def ns_ws_unref_def ns_ws_dispatch_run_def split: if_splits)

section \<open>A scheduler\<close>

text \<open>One step on demand, to run concrete schedules: which thread goes on, and what it meets.\<close>

datatype ws_pick =
    Do_effect | Do_handshake ws_connect | Do_test | Do_drain "send_answer list" | Do_receive ws_recv | Do_end
  | Do_idle bool | Do_timer bool | Do_send_text cstr | Do_close int "cstr option" | Do_close_on | Do_free | Do_free_on

definition deliver :: "ws_event option \<times> ns_ws option \<Rightarrow> ws_world \<Rightarrow> ws_world" where
  "deliver r w =
     (case r of (out, obj) \<Rightarrow>
        w\<lparr> ws_object := obj, ws_delivered := ws_delivered w @ (case out of None \<Rightarrow> [] | Some x \<Rightarrow> [x]) \<rparr>)"

definition worker_does :: "ws_pick \<Rightarrow> ns_ws \<Rightarrow> ws_world \<Rightarrow> ws_world option" where
  "worker_does p ws w =
     (case p of
        Do_handshake outcome \<Rightarrow>
          if worker_at w = W_Start
          then (case ws_handshake outcome (ws_exit_requested ws) of (acts, pc) \<Rightarrow> Some (w\<lparr> todo := acts, worker_at := pc \<rparr>))
          else None
      | Do_test \<Rightarrow>
          if worker_at w \<noteq> W_Test then None
          else if ws_exit_requested ws then Some (w\<lparr> todo := ws_finish (ws_locals w), worker_at := W_Unref \<rparr>)
          else Some (w\<lparr> worker_at := W_Drain \<rparr>)
      | Do_drain answers \<Rightarrow>
          if worker_at w = W_Drain \<and> list_all (\<lambda>a. fst a \<longrightarrow> ws_exit_requested ws) answers
          then map_option (\<lambda>(ws', k, acts, pc). w\<lparr> ws_object := Some ws', ws_locals := k, todo := acts, worker_at := pc \<rparr>)
                 (ns_ws_drain_outgoing answers (ws, ws_locals w))
          else None
      | Do_receive got \<Rightarrow>
          if worker_at w = W_Recv
          then (case ws_receive got (ws, ws_locals w) of (ws', k, acts, pc) \<Rightarrow>
                  Some (w\<lparr> ws_object := Some ws', ws_locals := k, todo := acts, worker_at := pc \<rparr>))
          else None
      | Do_end \<Rightarrow> if worker_at w = W_Unref then Some (w\<lparr> ws_object := ns_ws_unref ws, worker_at := W_Done \<rparr>) else None
      | _ \<Rightarrow> None)"

definition page_does :: "ws_pick \<Rightarrow> ns_ws \<Rightarrow> ws_world \<Rightarrow> ws_world option" where
  "page_does p ws w =
     (case p of
        Do_idle busy \<Rightarrow>
          (case ws_idles ws of [] \<Rightarrow> None
           | e # q \<Rightarrow> if page_at w = Page_idle then Some (deliver (ns_ws_dispatch_run busy e (ws\<lparr> ws_idles := q \<rparr>)) w) else None)
      | Do_timer busy \<Rightarrow>
          (case ws_timers ws of [] \<Rightarrow> None
           | e # q \<Rightarrow> if page_at w = Page_idle then Some (deliver (ns_ws_dispatch_run busy e (ws\<lparr> ws_timers := q \<rparr>)) w) else None)
      | Do_send_text bytes \<Rightarrow> if page_at w = Page_idle then Some (page_queues (ns_ws_send_text bytes ws) w) else None
      | Do_close code reason \<Rightarrow> if page_at w = Page_idle then Some (w\<lparr> page_at := ns_ws_close code reason ws \<rparr>) else None
      | Do_close_on \<Rightarrow>
          (case page_at w of
             Page_close code reason \<Rightarrow>
               Some ((page_queues (ns_ws_enqueue NS_WS_OUT_CLOSE reason code ws) w)\<lparr> page_at := Page_close_set \<rparr>)
           | Page_close_set \<Rightarrow>
               Some (w\<lparr> ws_object := Some (ws\<lparr> ws_state := NS_WS_STATE_CLOSING \<rparr>), page_at := Page_idle \<rparr>)
           | _ \<Rightarrow> None)
      | Do_free \<Rightarrow>
          if page_at w = Page_idle
          then Some (w\<lparr> ws_object := Some (ws\<lparr> ws_detached := True \<rparr>), page_at := Page_free_exit \<rparr>) else None
      | Do_free_on \<Rightarrow>
          if page_at w = Page_free_exit
          then Some (w\<lparr> ws_object := Some (ws\<lparr> ws_exit_requested := True \<rparr>), page_at := Page_join \<rparr>)
          else if page_at w = Page_join \<and> worker_at w = W_Done
          then Some (w\<lparr> ws_object := ns_ws_unref ws, page_at := Page_gone \<rparr>) else None
      | _ \<Rightarrow> None)"

definition ws_does :: "ws_pick \<Rightarrow> ws_world \<Rightarrow> ws_world option" where
  "ws_does p w =
     (case ws_object w of None \<Rightarrow> None
      | Some ws \<Rightarrow> (case todo w of
            a # as \<Rightarrow> if p = Do_effect then Some (perform a ws (w\<lparr> todo := as \<rparr>)) else page_does p ws w
          | [] \<Rightarrow> (case worker_does p ws w of None \<Rightarrow> page_does p ws w | Some w' \<Rightarrow> Some w')))"

fun ws_schedule :: "ws_pick list \<Rightarrow> ws_world \<Rightarrow> ws_world option" where
  "ws_schedule [] w = Some w"
| "ws_schedule (p # ps) w = (case ws_does p w of None \<Rightarrow> None | Some w' \<Rightarrow> ws_schedule ps w')"

lemma worker_does_step:
  assumes "worker_does p ws w = Some w'" "ws_object w = Some ws" "todo w = []"
  shows "ws_step b w w'"
proof (cases p)
  case (Do_handshake outcome)
  obtain acts pc where "ws_handshake outcome (ws_exit_requested ws) = (acts, pc)" by fastforce
  with assms Do_handshake show ?thesis by (auto simp: worker_does_def intro: ws_step.handshake split: if_splits)
next
  case Do_test
  with assms show ?thesis
    by (auto simp: worker_does_def intro: ws_step.test ws_step.test_exit split: if_splits)
next
  case (Do_drain answers)
  with assms show ?thesis
    by (auto simp: worker_does_def list_all_iff intro!: ws_step.drain split: if_splits)
next
  case (Do_receive got)
  obtain ws1 k acts pc where "ws_receive got (ws, ws_locals w) = (ws1, k, acts, pc)" by (metis prod_cases4)
  with assms Do_receive show ?thesis by (auto simp: worker_does_def intro: ws_step.receive split: if_splits)
next
  case Do_end
  with assms show ?thesis by (auto simp: worker_does_def intro: ws_step.worker_ends split: if_splits)
qed (use assms in \<open>auto simp: worker_does_def\<close>)

lemma page_does_step:
  assumes "page_does p ws w = Some w'" "ws_object w = Some ws" "p \<in> {Do_idle True, Do_timer True} \<Longrightarrow> b"
  shows "ws_step b w w'"
proof (cases p)
  case (Do_idle busy)
  obtain e q where q: "ws_idles ws = e # q" "page_at w = Page_idle" using assms(1) Do_idle
    by (auto simp: page_does_def split: list.splits if_splits)
  obtain out obj where d: "ns_ws_dispatch_run busy e (ws\<lparr> ws_idles := q \<rparr>) = (out, obj)" by fastforce
  have "w' = w\<lparr> ws_object := obj, ws_delivered := ws_delivered w @ (case out of None \<Rightarrow> [] | Some x \<Rightarrow> [x]) \<rparr>"
    using assms(1) Do_idle q d by (simp add: page_does_def deliver_def)
  then show ?thesis using ws_step.idle [OF assms(2) _ q(1) _ d, of b] assms(3) Do_idle q(2) by (cases busy) auto
next
  case (Do_timer busy)
  obtain e q where q: "ws_timers ws = e # q" "page_at w = Page_idle" using assms(1) Do_timer
    by (auto simp: page_does_def split: list.splits if_splits)
  obtain out obj where d: "ns_ws_dispatch_run busy e (ws\<lparr> ws_timers := q \<rparr>) = (out, obj)" by fastforce
  have "w' = w\<lparr> ws_object := obj, ws_delivered := ws_delivered w @ (case out of None \<Rightarrow> [] | Some x \<Rightarrow> [x]) \<rparr>"
    using assms(1) Do_timer q d by (simp add: page_does_def deliver_def)
  then show ?thesis using ws_step.timer [OF assms(2) _ q(1) _ d, of b] assms(3) Do_timer q(2) by (cases busy) auto
next
  case (Do_send_text bytes)
  with assms show ?thesis by (auto simp: page_does_def intro: ws_step.send split: if_splits)
next
  case (Do_close code reason)
  with assms show ?thesis by (auto simp: page_does_def intro: ws_step.close_reads split: if_splits)
next
  case Do_close_on
  with assms show ?thesis
    by (auto simp: page_does_def intro: ws_step.close_queues ws_step.close_sets split: ws_page.splits)
next
  case Do_free
  with assms show ?thesis by (auto simp: page_does_def intro: ws_step.free_detaches split: if_splits)
next
  case Do_free_on
  with assms show ?thesis
    by (auto simp: page_does_def intro: ws_step.free_asks ws_step.free_ends split: if_splits)
qed (use assms in \<open>auto simp: page_does_def\<close>)

lemma ws_does_step:
  assumes "ws_does p w = Some w'" "p \<in> {Do_idle True, Do_timer True} \<Longrightarrow> b"
  shows "ws_step b w w'"
proof -
  obtain ws where o: "ws_object w = Some ws" using assms(1) by (auto simp: ws_does_def split: option.splits)
  show ?thesis
  proof (cases "todo w")
    case Nil
    with assms o show ?thesis
      by (auto simp: ws_does_def intro: worker_does_step page_does_step split: option.splits)
  next
    case (Cons a as)
    with assms o show ?thesis
      by (auto simp: ws_does_def intro: page_does_step ws_step.effect split: if_splits)
  qed
qed

lemma schedule_steps:
  "ws_schedule ps w = Some w' \<Longrightarrow> list_all (\<lambda>p. p \<in> {Do_idle True, Do_timer True} \<longrightarrow> b) ps \<Longrightarrow>
     (ws_step b)\<^sup>*\<^sup>* w w'"
proof (induction ps arbitrary: w)
  case (Cons p ps)
  then obtain w1 where "ws_does p w = Some w1" "ws_schedule ps w1 = Some w'" by (auto split: option.splits)
  with Cons show ?case by (auto intro: converse_rtranclp_into_rtranclp dest: ws_does_step)
qed simp

section \<open>The promises of a connection\<close>

lemma ws_start_inv:
  assumes "ns_ws_new lib url org protocols = Some ws0"
  shows "ws_counted (ws_start ws0)" "ws_phased (ws_start ws0)" "ws_ordered b (ws_start ws0)"
    "ws_sent (ws_start ws0)" "ws_fit (ws_start ws0)"
  using assms
  by (auto simp: ns_ws_new_def ws_start_def ws_counted_def ws_phased_def ws_ordered_def ws_sent_def ws_fit_def
      fit_object_def split: if_splits)

lemma ws_reachable_inv:
  assumes "ns_ws_new lib url org protocols = Some ws0" "(ws_step b)\<^sup>*\<^sup>* (ws_start ws0) w"
  shows "ws_counted w \<and> ws_phased w \<and> ws_ordered b w \<and> ws_sent w \<and> ws_fit w"
  using assms(2)
  by (induction rule: rtranclp_induct)
    (simp_all add: ws_start_inv [OF assms(1)] counted_step phased_step ordered_step sent_step fit_step)


text \<open>A socket and two frames for the examples.\<close>

definition ws_example :: ns_ws where
  "ws_example = the (ns_ws_new (Some [''ws'']) ''ws://h/'' None [])"

lemma ws_example_new: "ns_ws_new (Some [''ws'']) ''ws://h/'' None [] = Some ws_example"
  by (simp add: ws_example_def ns_ws_new_def ns_ws_available_def ns_ws_curl_native_def)

abbreviation binary_frame :: curl_ws_frame where
  "binary_frame \<equiv> \<lparr> f_text = False, f_binary = True, f_cont = False, f_close = False, f_ping = False, f_offset = 0, f_bytesleft = 0 \<rparr>"

abbreviation close_frame :: curl_ws_frame where
  "close_frame \<equiv> \<lparr> f_text = False, f_binary = False, f_cont = False, f_close = True, f_ping = False, f_offset = 0, f_bytesleft = 0 \<rparr>"

lemma schedule_example:
  assumes "map_option f (ws_schedule ps (ws_start ws_example)) = Some x"
    "list_all (\<lambda>p. p \<in> {Do_idle True, Do_timer True} \<longrightarrow> b) ps"
  obtains w where "(ws_step b)\<^sup>*\<^sup>* (ws_start ws_example) w" "f w = x"
  using assms schedule_steps by fastforce


text \<open>
  through every interleaving of page, worker and main loop the socket counts exactly its holders and is
  destroyed when there is none; at most 258 callbacks wait (256 and the error and close events, which are
  never dropped); nothing is lost or invented between posting and delivery; and once the page has begun to free
  the socket no callback runs.
\<close>

theorem ws_lifetime:
  assumes "ns_ws_new lib url org protocols = Some ws0" "(ws_step b)\<^sup>*\<^sup>* (ws_start ws0) w"
  shows "(case ws_object w of
            None \<Rightarrow> page_at w = Page_gone \<and> worker_at w = W_Done
          | Some ws \<Rightarrow>
              ws_refcount ws = (if page_at w = Page_gone then 0 else 1) + (if worker_at w = W_Done then 0 else 1) +
                length (ws_idles ws) + length (ws_timers ws) \<and>
              0 < ws_refcount ws \<and> ws_pending ws = length (ws_idles ws) + length (ws_timers ws) \<and> ws_pending ws \<le> 258 \<and>
              (ws_detached ws \<or> mset (posted w) = mset (ws_delivered w) + mset (ws_idles ws) + mset (ws_timers ws))) \<and>
         (page_at w \<in> {Page_free_exit, Page_join, Page_gone} \<longrightarrow>
            (\<forall>w'. ws_step b w w' \<longrightarrow> ws_delivered w' = ws_delivered w))"
proof -
  have inv: "ws_counted w" "ws_phased w" "ws_ordered b w"
    using ws_reachable_inv [OF assms] by blast+
  have "ws_pending ws \<le> 258" if o: "ws_object w = Some ws" for ws
  proof -
    obtain ph where "ws_pending ws \<le> pending_limit ph" using inv(2) o by (auto simp: ws_phased_def)
    then show ?thesis by (cases ph) auto
  qed
  moreover have "ws_delivered w' = ws_delivered w"
    if "page_at w \<in> {Page_free_exit, Page_join, Page_gone}" "ws_step b w w'" for w'
    using that(2)
  proof (cases rule: ws_step.cases)
    case (idle ws e q busy out obj)
    then have "ws_detached ws" using inv(1) that(1) by (simp add: ws_counted_def)
    with idle show ?thesis by (auto simp: ns_ws_dispatch_run_def)
  next
    case (timer ws e q busy out obj)
    then have "ws_detached ws" using inv(1) that(1) by (simp add: ws_counted_def)
    with timer show ?thesis by (auto simp: ns_ws_dispatch_run_def)
  qed simp_all
  ultimately show ?thesis
    using inv(1,3) by (auto simp: ws_counted_def ws_ordered_def split: option.splits)
qed

lemma ws_lifetime_witness:
  "\<exists>w ws. (ws_step True)\<^sup>*\<^sup>* (ws_start ws_example) w \<and> ws_object w = Some ws \<and> page_at w = Page_free_exit \<and>
     ws_refcount ws = 3 \<and> ws_pending ws = 1"
proof -
  let ?ps = "[Do_handshake (Performed 101), Do_effect, Do_effect, Do_idle True, Do_free]"
  have "map_option (\<lambda>w. (page_at w, worker_at w, map_option ws_idles (ws_object w), map_option ws_timers (ws_object w)))
     (ws_schedule ?ps (ws_start ws_example)) = Some (Page_free_exit, W_Test, Some [], Some [Ws_Open])"
    by code_simp
  then obtain w where w: "(ws_step True)\<^sup>*\<^sup>* (ws_start ws_example) w"
    "(page_at w, worker_at w, map_option ws_idles (ws_object w), map_option ws_timers (ws_object w)) =
     (Page_free_exit, W_Test, Some [], Some [Ws_Open])"
    by (rule schedule_example) simp_all
  with ws_lifetime [OF ws_example_new w(1)] show ?thesis by (intro exI [of _ w]) auto
qed

text \<open>
  C28: what goes out is what the page queued.  The data frames handed to libcurl carry the first messages the
  page queued successfully, in that order, none skipped and none twice, with their kind and their bytes (all of
  them unless libcurl failed); and after a close frame nothing is sent any more.
\<close>

theorem ws_sends_in_order:
  assumes "ns_ws_new lib url org protocols = Some ws0" "(ws_step b)\<^sup>*\<^sup>* (ws_start ws0) w"
  shows "(\<exists>n. list_all2 ws_carries (filter is_data_frame (wire w)) (take n (accepted w))) \<and>
     list_all (\<lambda>f. \<not> is_close_frame f) (butlast (wire w))"
proof -
  obtain taken rest where a: "accepted w = taken @ rest"
    and l: "list_all2 ws_carries (filter is_data_frame (wire w @ hands (todo w))) (filter (\<lambda>m. \<not> is_close_msg m) taken)"
    and t: "\<forall>m\<in>set (butlast taken). \<not> is_close_msg m"
    and c: "\<forall>f\<in>set (butlast (wire w @ hands (todo w))). \<not> is_close_frame f"
    using ws_reachable_inv [OF assms] unfolding ws_sent_def by blast
  have "\<exists>n. filter (\<lambda>m. \<not> is_close_msg m) taken = take n (accepted w)"
  proof (cases "taken = []")
    case True
    then show ?thesis by (intro exI [of _ 0]) simp
  next
    case False
    have f: "filter (\<lambda>m. \<not> is_close_msg m) taken = butlast taken @ (if is_close_msg (List.last taken) then [] else [List.last taken])"
      using t False by (subst append_butlast_last_id [OF False, symmetric], subst filter_append) (auto simp: filter_id_conv)
    show ?thesis
      using f append_butlast_last_id [OF False] a
      by (cases "is_close_msg (List.last taken)")
        (auto simp: butlast_conv_take intro: exI [of _ "length taken - 1"] exI [of _ "length taken"])
  qed
  then obtain n where n: "filter (\<lambda>m. \<not> is_close_msg m) taken = take n (accepted w)" by blast
  obtain us vs where u: "take n (accepted w) = us @ vs" "list_all2 ws_carries (filter is_data_frame (wire w)) us"
    using l unfolding n filter_append list_all2_append1 by blast
  then have "us = take (min (length us) n) (accepted w)" by (metis append_eq_conv_conj take_take)
  with u(2) have "\<exists>n. list_all2 ws_carries (filter is_data_frame (wire w)) (take n (accepted w))" by metis
  moreover have "list_all (\<lambda>f. \<not> is_close_frame f) (butlast (wire w))"
    using c by (auto simp: list_all_iff butlast_append dest: in_set_butlastD split: if_splits)
  ultimately show ?thesis by blast
qed

lemma ws_sends_in_order_witness:
  "\<exists>w. (ws_step False)\<^sup>*\<^sup>* (ws_start ws_example) w \<and>
     wire w = [Data_frame True ''ab'' True, Close_frame [CHR 0x03, CHR 0xE8]] \<and>
     (\<exists>n. list_all2 ws_carries (filter is_data_frame (wire w)) (take n (accepted w)))"
proof -
  let ?ps = "[Do_handshake (Performed 101), Do_effect, Do_effect, Do_send_text ''ab'', Do_close 1000 None, Do_close_on,
    Do_close_on, Do_test, Do_drain [(False, CURLE_OK, 1), (False, CURLE_OK, 1)], Do_effect, Do_drain [],
    Do_receive Recv_again, Do_effect, Do_effect]"
  have "map_option wire (ws_schedule ?ps (ws_start ws_example)) =
     Some [Data_frame True ''ab'' True, Close_frame [CHR 0x03, CHR 0xE8]]"
    by code_simp
  then obtain w where w: "(ws_step False)\<^sup>*\<^sup>* (ws_start ws_example) w"
    "wire w = [Data_frame True ''ab'' True, Close_frame [CHR 0x03, CHR 0xE8]]"
    by (rule schedule_example) simp_all
  with ws_sends_in_order [OF ws_example_new w(1)] show ?thesis by blast
qed

text \<open>
  C30: nothing grows past its limit and no text is malformed.  Every message the page is called with has at
  most 8 MiB and, as a text, is UTF-8; every message that goes out has at most 8 MiB and every pong and close frame
  at most the 125 bytes the protocol allows; the assembly of a message in pieces never holds more than 8 MiB.
\<close>

theorem ws_bounded:
  assumes "ns_ws_new lib url org protocols = Some ws0" "(ws_step b)\<^sup>*\<^sup>* (ws_start ws0) w"
  shows "list_all fit_event (ws_delivered w) \<and> list_all fit_frame (wire w) \<and>
     (case ws_object w of None \<Rightarrow> True | Some ws \<Rightarrow> length (recv_assembly ws) \<le> 8 * 1024 * 1024)"
proof -
  have inv: "ws_fit w" "ws_ordered b w" using ws_reachable_inv [OF assms] by blast+
  have "set (ws_delivered w) \<subseteq> set (posted w)"
    using inv(2) set_mset_mono unfolding ws_ordered_def by fastforce
  with inv(1) show ?thesis
    by (auto simp: ws_fit_def fit_object_def list_all_iff NS_WS_MAX_MESSAGE_def split: option.split)
qed

lemma ws_bounded_witness:
  "\<exists>w. (ws_step False)\<^sup>*\<^sup>* (ws_start ws_example) w \<and> ws_delivered w = [Ws_Open, Ws_Message False ''x''] \<and>
     wire w = [Pong_frame ''p''] \<and> list_all fit_event (ws_delivered w) \<and> list_all fit_frame (wire w)"
proof -
  let ?ps = "[Do_handshake (Performed 101), Do_effect, Do_effect, Do_test, Do_drain [],
    Do_receive (Recv_ok ''p'' (Some (binary_frame\<lparr> f_binary := False, f_ping := True \<rparr>))), Do_effect, Do_test, Do_drain [],
    Do_receive (Recv_ok ''x'' (Some binary_frame)), Do_effect, Do_idle False, Do_idle False]"
  have "map_option (\<lambda>w. (ws_delivered w, wire w)) (ws_schedule ?ps (ws_start ws_example)) =
     Some ([Ws_Open, Ws_Message False ''x''], [Pong_frame ''p''])"
    by code_simp
  then obtain w where w: "(ws_step False)\<^sup>*\<^sup>* (ws_start ws_example) w"
    "(ws_delivered w, wire w) = ([Ws_Open, Ws_Message False ''x''], [Pong_frame ''p''])"
    by (rule schedule_example) simp_all
  with ws_bounded [OF ws_example_new w(1)] show ?thesis by (intro exI [of _ w]) auto
qed

section \<open>Freeing comes to an end\<close>

fun pc_left :: "ws_pc \<Rightarrow> nat" where
  "pc_left W_Start = 6"
| "pc_left W_Drain = 5"
| "pc_left W_Recv = 4"
| "pc_left W_Test = 3"
| "pc_left W_Unref = 2"
| "pc_left W_Done = 1"

text \<open>A bound on the steps the worker has left once it was asked to end.\<close>

definition ws_left :: "ws_world \<Rightarrow> nat" where
  "ws_left w =
     length (todo w) + 10 * pc_left (worker_at w) +
     2 * (case ws_object w of None \<Rightarrow> 0 | Some ws \<Rightarrow> length (out_queue ws))"

lemma length_dispatch [simp]:
  "length (ns_ws_dispatch_close code r c) = 2" "length (ns_ws_dispatch_error m) = 1" "length (ws_finish k) = 2"
  "length (ns_ws_send_close_frame code r) = 1"
  by (simp_all add: ns_ws_dispatch_close_def ns_ws_dispatch_error_def ws_finish_def ns_ws_send_close_frame_def)

lemma length_handshake: "ws_handshake outcome True = (acts, pc) \<Longrightarrow> length acts \<le> 3 \<and> pc = W_Unref"
  by (auto simp: ws_handshake_def Let_def split: ws_connect.splits if_splits)

lemma length_handle_frame: "ns_ws_handle_frame bytes fr (ws, k) = (ws', k', acts) \<Longrightarrow> length acts \<le> 1"
  by (auto simp: ns_ws_handle_frame_def ns_ws_dispatch_message_def Let_def split: if_splits)

lemma length_ending: "ws_ending fin \<Longrightarrow> length fin \<le> 4"
  by (auto simp: ws_ending_def)

lemma length_receive:
  assumes "ws_receive got (ws, k) = (ws', k', acts, pc)"
  shows "length acts \<le> (if pc = W_Test then 1 else 5) \<and> pc \<in> {W_Test, W_Unref}"
  using assms
proof (cases rule: receive_shape)
  case (frame_ends bytes fr kk fa fin)
  then show ?thesis using length_handle_frame [OF frame_ends(1)] length_ending [OF frame_ends(3)] by simp
qed (auto dest: length_handle_frame length_ending)

lemma left_effect:
  assumes "ws_object w = Some ws" "todo w = a # as"
  shows "ws_left (perform a ws (w\<lparr> todo := as \<rparr>)) < ws_left w"
  using assms by (cases a) (auto simp: ws_left_def perform_def Let_def)



section \<open>What the code does otherwise than it means to\<close>

text \<open>
  A dispatch that finds the page busy comes back as a timer, and later ones overtake it: the page gets its
  messages out of order, and a message after the close event.
\<close>

lemma busy_page_reorders:
  "\<exists>w. (ws_step True)\<^sup>*\<^sup>* (ws_start ws_example) w \<and>
     ws_delivered w = [Ws_Open, Ws_Close 1005 [] True, Ws_Message False ''a''] \<and> phase_run P_Fresh (ws_delivered w) = None"
proof -
  let ?ps = "[Do_handshake (Performed 101), Do_effect, Do_effect, Do_idle False, Do_test, Do_drain [],
    Do_receive (Recv_ok ''a'' (Some binary_frame)), Do_effect, Do_idle True, Do_test, Do_drain [],
    Do_receive (Recv_ok [] (Some close_frame)), Do_effect, Do_effect, Do_effect, Do_effect, Do_idle False, Do_timer False]"
  have "map_option ws_delivered (ws_schedule ?ps (ws_start ws_example)) =
     Some [Ws_Open, Ws_Close 1005 [] True, Ws_Message False ''a'']"
    by code_simp
  then obtain w where "(ws_step True)\<^sup>*\<^sup>* (ws_start ws_example) w"
    "ws_delivered w = [Ws_Open, Ws_Close 1005 [] True, Ws_Message False ''a'']"
    by (rule schedule_example) simp_all
  then show ?thesis by (intro exI [of _ w]) simp
qed

text \<open>
  A page that closes the socket while it is connecting is told afterwards that it is open, and the state
  goes back from CLOSING to OPEN.
\<close>

lemma closed_while_connecting_opens:
  "\<exists>w1 w. (ws_step False)\<^sup>*\<^sup>* (ws_start ws_example) w1 \<and> page_at w1 = Page_idle \<and>
     map_option ws_state (ws_object w1) = Some NS_WS_STATE_CLOSING \<and> (ws_step False)\<^sup>*\<^sup>* w1 w \<and>
     map_option ws_state (ws_object w) = Some NS_WS_STATE_OPEN \<and> ws_delivered w = [Ws_Open]"
proof -
  let ?ps = "[Do_close 1000 None, Do_close_on, Do_close_on]"
  let ?qs = "[Do_handshake (Performed 101), Do_effect, Do_effect, Do_idle False]"
  have "map_option (\<lambda>w. (page_at w, map_option ws_state (ws_object w),
       map_option (\<lambda>w. (map_option ws_state (ws_object w), ws_delivered w)) (ws_schedule ?qs w)))
     (ws_schedule ?ps (ws_start ws_example)) =
     Some (Page_idle, Some NS_WS_STATE_CLOSING, Some (Some NS_WS_STATE_OPEN, [Ws_Open]))"
    by code_simp
  then obtain w1 where w1: "(ws_step False)\<^sup>*\<^sup>* (ws_start ws_example) w1" "(page_at w1, map_option ws_state (ws_object w1),
       map_option (\<lambda>w. (map_option ws_state (ws_object w), ws_delivered w)) (ws_schedule ?qs w1)) =
     (Page_idle, Some NS_WS_STATE_CLOSING, Some (Some NS_WS_STATE_OPEN, [Ws_Open]))"
    by (rule schedule_example) simp_all
  from w1(2) obtain w where w: "ws_schedule ?qs w1 = Some w" "map_option ws_state (ws_object w) = Some NS_WS_STATE_OPEN"
    "ws_delivered w = [Ws_Open]" by (auto simp del: ws_schedule.simps)
  have "(ws_step False)\<^sup>*\<^sup>* w1 w" by (rule schedule_steps [OF w(1)]) simp
  with w1 w(2,3) show ?thesis by blast
qed

text \<open>
  \<open>ns_ws_close\<close> sets the state after the worker may have ended: the state of a closed socket then stays
  CLOSING for ever.
\<close>

lemma closed_turns_closing:
  "\<exists>w. (ws_step False)\<^sup>*\<^sup>* (ws_start ws_example) w \<and> page_at w = Page_idle \<and> worker_at w = W_Done \<and>
     ws_delivered w = [Ws_Open, Ws_Close 1005 [] True] \<and> map_option ws_state (ws_object w) = Some NS_WS_STATE_CLOSING"
proof -
  let ?ps = "[Do_handshake (Performed 101), Do_effect, Do_effect, Do_test, Do_drain [], Do_close 1000 None,
    Do_receive (Recv_ok [] (Some close_frame)), Do_effect, Do_effect, Do_effect, Do_effect, Do_end, Do_close_on, Do_close_on,
    Do_idle False, Do_idle False]"
  have "map_option (\<lambda>w. (page_at w, worker_at w, ws_delivered w, map_option ws_state (ws_object w)))
     (ws_schedule ?ps (ws_start ws_example)) =
     Some (Page_idle, W_Done, [Ws_Open, Ws_Close 1005 [] True], Some NS_WS_STATE_CLOSING)"
    by code_simp
  then obtain w where "(ws_step False)\<^sup>*\<^sup>* (ws_start ws_example) w"
    "(page_at w, worker_at w, ws_delivered w, map_option ws_state (ws_object w)) =
     (Page_idle, W_Done, [Ws_Open, Ws_Close 1005 [] True], Some NS_WS_STATE_CLOSING)"
    by (rule schedule_example) simp_all
  then show ?thesis by (intro exI [of _ w]) simp
qed

text \<open>
  When libcurl fails in the middle of a message, the rest of it is dropped, the next message is sent after
  the broken one, and the page is told nothing.
\<close>

lemma broken_send_goes_on:
  "\<exists>w. (ws_step False)\<^sup>*\<^sup>* (ws_start ws_example) w \<and>
     wire w = [Data_frame True ''a'' False, Data_frame True ''cd'' True] \<and> posted w = [Ws_Open]"
proof -
  let ?ps = "[Do_handshake (Performed 101), Do_effect, Do_effect, Do_send_text ''ab'', Do_send_text ''cd'', Do_test,
    Do_drain [(False, CURLE_OK, 1), (False, Curl_error, 0)], Do_effect, Do_drain [(False, CURLE_OK, 2)], Do_effect]"
  have "map_option (\<lambda>w. (wire w, posted w)) (ws_schedule ?ps (ws_start ws_example)) =
     Some ([Data_frame True ''a'' False, Data_frame True ''cd'' True], [Ws_Open])"
    by code_simp
  then obtain w where "(ws_step False)\<^sup>*\<^sup>* (ws_start ws_example) w"
    "(wire w, posted w) = ([Data_frame True ''a'' False, Data_frame True ''cd'' True], [Ws_Open])"
    by (rule schedule_example) simp_all
  then show ?thesis by (intro exI [of _ w]) simp
qed

end
